(* ===== verification/JsPrelude.thy ===== *)
theory JsPrelude
  imports
    Complex_Main
    "HOL-Library.Signed_Division"
    "HOL-Library.Multiset"
    "HOL-Library.AList"
    "HOL-Library.Char_ord"
    "HOL-Library.List_Lexorder"
begin

section \<open>What the model uses of TypeScript\<close>

text \<open>
  The part of the language and its standard library that every component of the model uses:
  \<^item> \<open>bigint\<close> is \<open>int\<close>; its \<open>/\<close> truncates towards zero, which is \<open>sdiv\<close> of the library;
  \<^item> \<open>number\<close> fields that hold whole seconds, basis points or counts are \<open>int\<close> too (all of them
    are far below \<open>2 ^ 53\<close>, where doubles are exact); \<open>number\<close>s that carry fractions are doubles
    and live in the theory JsFloat;
  \<^item> \<open>Array.prototype.sort(cmp)\<close> is the stable sort \<open>js_sort\<close> of a comparator;
  \<^item> \<open>Map\<close> is an association list in insertion order, written by \<open>AList.update\<close> and read by
    \<open>map_of\<close>; \<open>new Set(xs)\<close> is \<open>js_set xs\<close>, the first occurrence of every element;
  \<^item> strings are character lists, \<open>toLowerCase\<close> is \<open>lower\<close> (the addresses and keys it is applied
    to are ASCII) and a number in a template literal is \<open>show_int\<close>.
  A value of type \<open>T | null\<close> or an optional field is an \<open>option\<close>; a raised error is the \<open>Inl\<close> of a sum.
\<close>

type_synonym address = string
type_synonym seconds = int
type_synonym bps = int
type_synonym usdg6 = int

named_theorems js_eval \<open>equations that evaluate the library on closed terms\<close>
named_theorems opt_split \<open>case splits on the option and sum values of the model\<close>

declare option.splits [opt_split] option.split_asm [opt_split] sum.splits [opt_split]

subsection \<open>Integers\<close>

lemma sdiv_nonneg [simp]: "0 \<le> a \<Longrightarrow> 0 \<le> b \<Longrightarrow> a sdiv b = a div b" for a b :: int
  by (cases "a = 0"; cases "b = 0") (simp_all add: signed_divide_int_def)

lemma sdiv_nonpos: "a \<le> 0 \<Longrightarrow> 0 < b \<Longrightarrow> a sdiv b = - ((- a) div b)" for a b :: int
  by (cases "a = 0") (simp_all add: signed_divide_int_def)

lemma sdiv_mult_le: "0 \<le> a \<Longrightarrow> 0 \<le> b \<Longrightarrow> (a sdiv b) * b \<le> a" for a b :: int
  by (cases "b = 0") (simp_all add: minus_mod_eq_div_mult [symmetric])

lemma sdiv_ge_0: "0 \<le> a \<Longrightarrow> 0 \<le> b \<Longrightarrow> 0 \<le> a sdiv b" for a b :: int
  by (simp add: pos_imp_zdiv_nonneg_iff) (cases "b = 0"; simp add: pos_imp_zdiv_nonneg_iff)

lemma sdiv_mono1: "0 \<le> a \<Longrightarrow> a \<le> b \<Longrightarrow> 0 \<le> c \<Longrightarrow> a sdiv c \<le> b sdiv c" for a b c :: int
  by (cases "c = 0") (auto simp: zdiv_mono1)

lemma sdiv_error: "0 < b \<Longrightarrow> \<bar>b * (a sdiv b) - a\<bar> < b" for a b :: int
proof (cases "0 \<le> a")
  case True
  then show "0 < b \<Longrightarrow> ?thesis" by (simp add: minus_mod_eq_mult_div [symmetric])
next
  case False
  then show "0 < b \<Longrightarrow> ?thesis" by (simp add: sdiv_nonpos minus_mod_eq_mult_div [symmetric])
qed

lemma sdiv_mult_self [simp]: "b \<noteq> 0 \<Longrightarrow> (a * b) sdiv b = a" for a b :: int
  by (auto simp: signed_divide_int_def abs_mult sgn_mult mult.assoc) (metis abs_sgn mult.commute mult_sgn_abs sgn_mult sgn_sgn)

lemma div_mult_le_int: "0 < b \<Longrightarrow> (a div b) * b \<le> a" for a b :: int
  by (simp add: minus_mod_eq_div_mult [symmetric])

lemma less_div_mult_int: "0 < b \<Longrightarrow> a < (a div b + 1) * b" for a b :: int
proof -
  assume b: "0 < b"
  have "a = a div b * b + a mod b" by simp
  moreover have "a mod b < b" using b by simp
  ultimately have "a < a div b * b + b" by linarith
  then show ?thesis by (simp add: distrib_right)
qed

lemma le_div_iff_mult_le_int: "0 < b \<Longrightarrow> (k \<le> a div b) = (k * b \<le> a)" for a b k :: int
proof
  assume b: "0 < b"
  { assume "k \<le> a div b"
    then have "k * b \<le> (a div b) * b" using b by (simp add: mult_right_mono)
    also have "\<dots> \<le> a" using b by (rule div_mult_le_int)
    finally show "k * b \<le> a" . }
  { assume "k * b \<le> a"
    then have "(k * b) div b \<le> a div b" using b by (rule zdiv_mono1)
    then show "k \<le> a div b" using b by simp }
qed

text \<open>The ceiling that the code writes as \<open>(x + d - 1) / d\<close>.\<close>

lemma ceil_div_least: "0 < d \<Longrightarrow> (x \<le> k * d) = ((x + d - 1) div d \<le> k)" for x d k :: int
proof -
  assume d: "0 < d"
  have "((x + d - 1) div d \<le> k) = ((x + d - 1) div d < k + 1)" by auto
  also have "\<dots> = (\<not> (k + 1 \<le> (x + d - 1) div d))" by auto
  also have "\<dots> = (\<not> ((k + 1) * d \<le> x + d - 1))" using d by (simp add: le_div_iff_mult_le_int)
  also have "\<dots> = (x \<le> k * d)" by (auto simp: algebra_simps)
  finally show ?thesis by simp
qed

lemma ceil_div_ge: "0 < d \<Longrightarrow> x \<le> ((x + d - 1) div d) * d" for x d :: int
  by (simp add: ceil_div_least)

subsection \<open>Text\<close>

definition lower_char :: "char \<Rightarrow> char" where
  "lower_char c = (let n = (of_char c :: nat) in if 65 \<le> n \<and> n \<le> 90 then char_of (n + 32) else c)"

definition lower :: "string \<Rightarrow> string" where
  "lower s = map lower_char s"

lemma lower_char_idem [simp]: "lower_char (lower_char c) = lower_char c"
proof (cases "65 \<le> (of_char c :: nat) \<and> (of_char c :: nat) \<le> 90")
  case True
  then have "(of_char c :: nat) + 32 < 256" by simp
  then have "(of_char (char_of (of_char c + 32 :: nat)) :: nat) = of_char c + 32"
    by (simp add: of_char_of del: of_char_mod_256)
  with True show ?thesis by (simp add: lower_char_def Let_def)
next
  case False
  then show ?thesis by (auto simp: lower_char_def Let_def)
qed

lemma lower_idem [simp]: "lower (lower s) = lower s"
  by (simp add: lower_def)

definition digit_char :: "nat \<Rightarrow> char" where
  "digit_char d = char_of (48 + d)"

fun show_nat :: "nat \<Rightarrow> string" where
  "show_nat n = (if n < 10 then [digit_char n] else show_nat (n div 10) @ [digit_char (n mod 10)])"

declare show_nat.simps [simp del]

definition show_int :: "int \<Rightarrow> string" where
  "show_int i = (if i < 0 then ''-'' @ show_nat (nat (- i)) else show_nat (nat i))"

fun join :: "string \<Rightarrow> string list \<Rightarrow> string" where
  "join sep [] = ''''"
| "join sep [s] = s"
| "join sep (s # t # ss) = s @ sep @ join sep (t # ss)"

subsection \<open>Arrays: stable sorting by a comparator\<close>

fun js_insert :: "('a \<Rightarrow> 'a \<Rightarrow> int) \<Rightarrow> 'a \<Rightarrow> 'a list \<Rightarrow> 'a list" where
  "js_insert cmp x [] = [x]"
| "js_insert cmp x (y # ys) = (if cmp x y > 0 then y # js_insert cmp x ys else x # y # ys)"

fun js_sort :: "('a \<Rightarrow> 'a \<Rightarrow> int) \<Rightarrow> 'a list \<Rightarrow> 'a list" where
  "js_sort cmp [] = []"
| "js_sort cmp (x # xs) = js_insert cmp x (js_sort cmp xs)"

text \<open>\<open>a < b ? -1 : a > b ? 1 : 0\<close>, and comparators chained by \<open>||\<close>.\<close>

definition cmp3 :: "'a::linorder \<Rightarrow> 'a \<Rightarrow> int" where
  "cmp3 a b = (if a < b then -1 else if a > b then 1 else 0)"

definition cmp_or :: "int \<Rightarrow> int \<Rightarrow> int" where
  "cmp_or c d = (if c \<noteq> 0 then c else d)"

lemma mset_js_insert: "mset (js_insert cmp x xs) = {#x#} + mset xs"
  by (induction xs) auto

lemma mset_js_sort [simp]: "mset (js_sort cmp xs) = mset xs"
  by (induction xs) (auto simp: mset_js_insert)

lemma set_js_sort [simp]: "set (js_sort cmp xs) = set xs"
  by (metis mset_js_sort set_mset_mset)

lemma length_js_sort [simp]: "length (js_sort cmp xs) = length xs"
  by (metis mset_js_sort size_mset)

lemma distinct_js_sort [simp]: "distinct (js_sort cmp xs) = distinct xs"
  by (metis mset_js_sort mset_eq_imp_distinct_iff)

lemma js_insert_key: "js_insert (\<lambda>a b. cmp3 (f a) (f b)) x xs = insort_key f x xs"
  by (induction xs) (auto simp: cmp3_def)

lemma js_sort_key: "js_sort (\<lambda>a b. cmp3 (f a) (f b)) xs = sort_key f xs"
  by (induction xs) (simp_all add: js_insert_key)

text \<open>
  What a sort needs of its comparator, and what it then guarantees. The components interpret this
  on the comparators their code passes to \<open>sort\<close>.
\<close>

locale comparator =
  fixes cmp :: "'a \<Rightarrow> 'a \<Rightarrow> int"
  assumes cmp_flip: "0 < cmp x y \<Longrightarrow> cmp y x \<le> 0"
    and cmp_trans: "cmp x y \<le> 0 \<Longrightarrow> cmp y z \<le> 0 \<Longrightarrow> cmp x z \<le> 0"
begin

lemma insert_sorted:
  "sorted_wrt (\<lambda>a b. cmp a b \<le> 0) xs \<Longrightarrow> sorted_wrt (\<lambda>a b. cmp a b \<le> 0) (js_insert cmp x xs)"
proof (induction xs)
  case Nil
  then show ?case by simp
next
  case (Cons y ys)
  have mem: "set (js_insert cmp x ys) = insert x (set ys)"
    by (metis mset_js_insert set_mset_mset set_mset_add_mset_insert add_mset_add_single union_commute)
  show ?case
  proof (cases "0 < cmp x y")
    case True
    then show ?thesis using Cons by (simp add: mem cmp_flip)
  next
    case False
    then have "cmp x y \<le> 0" by simp
    then show ?thesis using Cons.prems by (auto intro: cmp_trans)
  qed
qed

lemma sort_sorted: "sorted_wrt (\<lambda>a b. cmp a b \<le> 0) (js_sort cmp xs)"
  by (induction xs) (simp_all add: insert_sorted)

lemma sorted_sort_id: "sorted_wrt (\<lambda>a b. cmp a b \<le> 0) xs \<Longrightarrow> js_sort cmp xs = xs"
proof (induction xs)
  case Nil
  then show ?case by simp
next
  case (Cons x xs)
  then have "js_sort cmp xs = xs" by simp
  moreover have "js_insert cmp x xs = x # xs"
    using Cons.prems by (cases xs) auto
  ultimately show ?case by simp
qed

lemma sort_idem: "js_sort cmp (js_sort cmp xs) = js_sort cmp xs"
  by (rule sorted_sort_id) (rule sort_sorted)

end

subsection \<open>Map and Set in insertion order\<close>

definition js_set :: "'a list \<Rightarrow> 'a list" where
  "js_set xs = rev (remdups (rev xs))"

lemma set_js_set [simp]: "set (js_set xs) = set xs"
  by (simp add: js_set_def)

lemma distinct_js_set [simp]: "distinct (js_set xs)"
  by (simp add: js_set_def)

lemma js_set_distinct: "distinct xs \<Longrightarrow> js_set xs = xs"
  by (simp add: js_set_def distinct_remdups_id)

text \<open>
  The loop \<open>if (seen.has(key(x))) continue; seen.add(key(x)); ...\<close>: the first element of every key.
\<close>

fun uniq_by :: "('a \<Rightarrow> 'k) \<Rightarrow> 'k list \<Rightarrow> 'a list \<Rightarrow> 'a list" where
  "uniq_by f seen [] = []"
| "uniq_by f seen (x # xs) = (if f x \<in> set seen then uniq_by f seen xs else x # uniq_by f (f x # seen) xs)"

lemma uniq_by_subset: "set (uniq_by f seen xs) \<subseteq> set xs"
  by (induction xs arbitrary: seen) auto

lemma uniq_by_keys: "f ` set (uniq_by f seen xs) = f ` set xs - set seen"
  by (induction xs arbitrary: seen) auto

lemma uniq_by_distinct: "distinct (map f (uniq_by f seen xs))"
proof (induction xs arbitrary: seen)
  case (Cons x xs)
  have "f x \<notin> f ` set (uniq_by f (f x # seen) xs)" by (simp add: uniq_by_keys)
  with Cons show ?case by simp
qed simp

lemma uniq_by_id: "distinct (map f xs) \<Longrightarrow> f ` set xs \<inter> set seen = {} \<Longrightarrow> uniq_by f seen xs = xs"
  by (induction xs arbitrary: seen) auto

lemma uniq_by_card: "length (uniq_by f [] xs) = card (f ` set xs)"
proof -
  have "length (uniq_by f [] xs) = card (set (map f (uniq_by f [] xs)))"
    using uniq_by_distinct [of f "[]" xs] distinct_card by fastforce
  then show ?thesis by (simp add: uniq_by_keys)
qed

text \<open>\<open>map.get(k) ?? d\<close>.\<close>

definition get_or :: "('k \<times> 'v) list \<Rightarrow> 'k \<Rightarrow> 'v \<Rightarrow> 'v" where
  "get_or m k d = (case map_of m k of None \<Rightarrow> d | Some v \<Rightarrow> v)"

lemma map_of_update [simp]: "map_of (AList.update k v m) = (map_of m)(k \<mapsto> v)"
  by (rule update_conv')

lemma get_or_update [simp]: "get_or (AList.update k v m) j d = (if j = k then v else get_or m j d)"
  by (simp add: get_or_def)

lemma get_or_Nil [simp]: "get_or [] k d = d"
  by (simp add: get_or_def)

lemma keys_update: "fst ` set (AList.update k v m) = insert k (fst ` set m)"
  by (simp flip: dom_map_of_conv_image_fst)

lemma distinct_keys_update: "distinct (map fst m) \<Longrightarrow> distinct (map fst (AList.update k v m))"
  by (rule distinct_update)

lemma get_or_absent: "k \<notin> fst ` set m \<Longrightarrow> get_or m k d = d"
  by (simp add: get_or_def map_of_eq_None_iff [THEN iffD2])

text \<open>What a write does to a sum over the values of a map.\<close>

lemma sum_values_update:
  fixes f :: "'v \<Rightarrow> int"
  shows "distinct (map fst m) \<Longrightarrow> f d = 0 \<Longrightarrow>
     sum_list (map (\<lambda>kv. f (snd kv)) (AList.update k v m)) = sum_list (map (\<lambda>kv. f (snd kv)) m) + f v - f (get_or m k d)"
  by (induction m) (auto simp: get_or_def map_of_eq_None_iff [THEN iffD2])

text \<open>\<open>x ?? d\<close> for an optional value.\<close>

definition or_else :: "'a option \<Rightarrow> 'a \<Rightarrow> 'a" where
  "or_else x d = (case x of None \<Rightarrow> d | Some v \<Rightarrow> v)"

lemma or_else_simps [simp]: "or_else None d = d" "or_else (Some v) d = v"
  by (simp_all add: or_else_def)

subsection \<open>slice, Math.min and the remainder\<close>

text \<open>\<open>xs.slice(0, n)\<close>: a negative end counts from the back.\<close>

definition slice0 :: "'a list \<Rightarrow> int \<Rightarrow> 'a list" where
  "slice0 xs n = (if n \<ge> 0 then take (nat n) xs else take (length xs - nat (- n)) xs)"

lemma set_slice0: "set (slice0 xs n) \<subseteq> set xs"
  by (auto simp: slice0_def dest: in_set_takeD)

lemma length_slice0: "0 \<le> n \<Longrightarrow> int (length (slice0 xs n)) \<le> n"
  by (auto simp: slice0_def min_def)

lemma distinct_slice0: "distinct xs \<Longrightarrow> distinct (slice0 xs n)"
  by (simp add: slice0_def)

text \<open>\<open>Math.min(...xs)\<close> on a non-empty array.\<close>

definition js_min :: "int list \<Rightarrow> int" where
  "js_min xs = (case xs of [] \<Rightarrow> 0 | x # rest \<Rightarrow> foldl min x rest)"

lemma foldl_min_le: "foldl min x xs \<le> x \<and> (\<forall>y \<in> set xs. foldl min x xs \<le> y)" for x :: int
proof (induction xs arbitrary: x)
  case (Cons y ys)
  from Cons [of "min x y"] show ?case by auto
qed simp

lemma foldl_min_in: "foldl min x xs = x \<or> foldl min x xs \<in> set xs" for x :: int
proof (induction xs arbitrary: x)
  case (Cons y ys)
  from Cons [of "min x y"] show ?case by (auto simp: min_def split: if_splits)
qed simp

lemma js_min_le: "y \<in> set xs \<Longrightarrow> js_min xs \<le> y"
  using foldl_min_le [of "hd xs" "tl xs"] by (cases xs) (auto simp: js_min_def)

lemma js_min_in: "xs \<noteq> [] \<Longrightarrow> js_min xs \<in> set xs"
  using foldl_min_in [of "hd xs" "tl xs"] by (cases xs) (auto simp: js_min_def)

text \<open>\<open>((x % n) + n) % n\<close>, the code's way to the mathematical remainder.\<close>

lemma smod_nonneg: "0 \<le> x \<Longrightarrow> 0 < n \<Longrightarrow> x smod n = x mod n" for x n :: int
  by (simp add: minus_sdiv_mult_eq_smod [symmetric] minus_div_mult_eq_mod)

lemma smod_wrap: "0 < n \<Longrightarrow> ((x smod n) + n) smod n = x mod n" for x n :: int
proof -
  assume n: "0 < n"
  have r: "x smod n = x - x sdiv n * n" by (simp add: minus_sdiv_mult_eq_smod)
  have b: "- n < x smod n" using n
  proof (cases "0 \<le> x")
    case True
    then have "x smod n = x mod n" using n r by (simp add: minus_div_mult_eq_mod)
    then show ?thesis using n by (simp add: less_le_trans [OF _ pos_mod_sign])
  next
    case False
    then have "x smod n = - ((- x) mod n)" using n r
      by (simp add: sdiv_nonpos minus_div_mult_eq_mod [symmetric])
    then show ?thesis using n by simp
  qed
  have "y smod n = y mod n" if "0 \<le> y" for y
    using that n by (simp add: minus_sdiv_mult_eq_smod [symmetric] minus_div_mult_eq_mod)
  then have "(x smod n + n) smod n = (x smod n + n) mod n" using b by simp
  also have "\<dots> = (x - x sdiv n * n) mod n" by (simp add: r)
  also have "\<dots> = x mod n" by (metis mod_mult_self3 diff_add_cancel add.commute)
  finally show ?thesis .
qed

lemma rotation_inj: "i < n \<Longrightarrow> j < n \<Longrightarrow> (s + i) mod n = (s + j) mod n \<Longrightarrow> i = j" for i j n s :: nat
proof (induction i j rule: linorder_wlog)
  case (le a b)
  then have "n dvd (s + b) - (s + a)" using mod_eq_dvd_iff_nat [of "s + a" "s + b" n] by simp
  then have "n dvd b - a" by simp
  then show ?case using le nat_dvd_not_less [of "b - a" n] by (cases "b = a") auto
qed simp

lemma filter_neq_Nil: "filter P xs \<noteq> [] \<longleftrightarrow> (\<exists>x \<in> set xs. P x)"
  by (simp add: filter_empty_conv)

text \<open>Pushing onto an array that is ordered by a transitive relation.\<close>

lemma sorted_wrt_snoc:
  assumes trans: "\<And>a b c. R a b \<Longrightarrow> R b c \<Longrightarrow> R a c"
    and xs: "sorted_wrt R xs" and last: "xs \<noteq> [] \<Longrightarrow> R (last xs) y"
  shows "sorted_wrt R (xs @ [y])"
proof (cases xs rule: rev_cases)
  case (snoc ys z)
  then have "R z y" using last by simp
  moreover have "\<And>x. x \<in> set ys \<Longrightarrow> R x z" using xs snoc by (simp add: sorted_wrt_append)
  ultimately show ?thesis using xs snoc trans by (simp add: sorted_wrt_append) blast
qed simp

text \<open>Only one order of a multiset is sorted by a relation that is antisymmetric on it.\<close>

lemma sorted_wrt_unique:
  "sorted_wrt R xs \<Longrightarrow> sorted_wrt R ys \<Longrightarrow> mset xs = mset ys \<Longrightarrow>
     (\<And>a b. a \<in> set xs \<Longrightarrow> b \<in> set xs \<Longrightarrow> R a b \<Longrightarrow> R b a \<Longrightarrow> a = b) \<Longrightarrow> xs = ys"
proof (induction xs arbitrary: ys)
  case (Cons x xs)
  then obtain y zs where ys: "ys = y # zs" by (cases ys) auto
  have mem: "set (x # xs) = set ys" using Cons.prems(3) by (metis set_mset_mset)
  have "x = y"
  proof (rule ccontr)
    assume ne: "x \<noteq> y"
    then have "x \<in> set zs" "y \<in> set xs" using mem ys by auto
    then have "R y x" "R x y" using Cons.prems(1,2) ys by auto
    moreover have "y \<in> set (x # xs)" using mem ys by simp
    ultimately show False using Cons.prems(4) [of x y] ne by simp
  qed
  moreover have "xs = zs"
    using Cons.prems ys \<open>x = y\<close> by (intro Cons.IH) auto
  ultimately show ?case by (simp add: ys)
qed simp

subsection \<open>Sums over lists\<close>

lemma sum_list_nonneg_map: "(\<And>x. x \<in> set xs \<Longrightarrow> 0 \<le> f x) \<Longrightarrow> 0 \<le> sum_list (map f xs)"
  for f :: "'a \<Rightarrow> int"
  by (induction xs) auto

lemma foldl_add_sum: "foldl (\<lambda>s x. s + f x) a xs = a + sum_list (map f xs)" for f :: "'a \<Rightarrow> int"
  by (induction xs arbitrary: a) (auto simp: add.assoc)

subsection \<open>Searching for the largest count that fits\<close>

text \<open>
  \<open>while (lo < hi) { mid = (lo + hi + 1) / 2; if (fits(mid)) lo = mid; else hi = mid - 1; }\<close>, the loop
  of both rent modules. It stops because \<open>hi - lo\<close> shrinks.
\<close>

lemma mid_bounds: "lo < hi \<Longrightarrow> lo < (lo + hi + 1) sdiv 2 \<and> (lo + hi + 1) sdiv 2 \<le> hi" for lo hi :: int
proof (cases "0 \<le> lo + hi + 1")
  case False
  then show "lo < hi \<Longrightarrow> ?thesis" by (simp add: sdiv_nonpos) linarith
next
  case True
  then show "lo < hi \<Longrightarrow> ?thesis" by simp presburger
qed

function search_max :: "(int \<Rightarrow> bool) \<Rightarrow> int \<Rightarrow> int \<Rightarrow> int" where
  "search_max fits lo hi =
     (if lo < hi then
        (let mid = (lo + hi + 1) sdiv 2
         in if fits mid then search_max fits mid hi else search_max fits lo (mid - 1))
      else lo)"
  by pat_completeness auto
termination
proof (relation "measure (\<lambda>(fits, lo, hi). nat (hi - lo))", goal_cases)
  case (2 fits lo hi mid)
  then show ?case using mid_bounds [of lo hi] by simp
next
  case (3 fits lo hi mid)
  then show ?case using mid_bounds [of lo hi] by simp
qed simp

declare search_max.simps [simp del]

lemma search_max_fits: "fits lo \<Longrightarrow> fits (search_max fits lo hi)"
proof (induction fits lo hi rule: search_max.induct)
  case (1 fits lo hi)
  then show ?case by (simp add: search_max.simps [of fits lo hi] Let_def)
qed

lemma search_max_bounds: "lo \<le> hi \<Longrightarrow> lo \<le> search_max fits lo hi \<and> search_max fits lo hi \<le> hi"
proof (induction fits lo hi rule: search_max.induct)
  case (1 fits lo hi)
  show ?case
  proof (cases "lo < hi")
    case True
    with mid_bounds [OF True] "1.IH" show ?thesis
      by (auto simp: search_max.simps [of fits lo hi] Let_def)
  next
    case False
    then have "search_max fits lo hi = lo" by (subst search_max.simps) simp
    with "1.prems" show ?thesis by simp
  qed
qed

lemma search_max_maximal:
  assumes "\<And>m n. m \<le> n \<Longrightarrow> fits n \<Longrightarrow> fits m" and "search_max fits lo hi < n" and "n \<le> hi" and "lo \<le> hi"
  shows "\<not> fits n"
  using assms
proof (induction fits lo hi rule: search_max.induct)
  case (1 fits lo hi)
  let ?mid = "(lo + hi + 1) sdiv 2"
  show ?case
  proof (cases "lo < hi")
    case lt: True
    note mb = mid_bounds [OF lt]
    show ?thesis
    proof (cases "fits ?mid")
      case True
      with lt 1 mb show ?thesis by (simp add: search_max.simps [of fits lo hi] Let_def)
    next
      case False
      show ?thesis
      proof (cases "n \<le> ?mid - 1")
        case True
        with lt False 1 mb show ?thesis by (simp add: search_max.simps [of fits lo hi] Let_def)
      next
        case nle: False
        then have "?mid \<le> n" by simp
        with False "1.prems"(1) show ?thesis by blast
      qed
    qed
  next
    case False
    with "1.prems" show ?thesis by (simp add: search_max.simps [of fits lo hi])
  qed
qed

end
