(* ===== verification/MintFee.thy ===== *)
theory MintFee
  imports JsPrelude
begin

section \<open>Collateral rent (keeper/src/v2/mintFee.ts, indexer/lib/v2/rent.ts)\<close>

text \<open>
  The rent a mint charges on its collateral, and the largest fill a free balance covers, in the two
  restatements of the repository: the keeper's (total, negative inputs clamped to 0) and the
  indexer's (invalid inputs raise). The locale \<open>rent_law\<close> states what the binary search of both
  needs of the requirement it inverts; both modules interpret it, and the two capacities agree.
\<close>

subsection \<open>The keeper's arithmetic\<close>

definition PPM :: int where "PPM = 1000000"
definition MINT_FEE_PERIOD_S :: int where "MINT_FEE_PERIOD_S = 7 * 86400"
definition DENOM :: int where "DENOM = PPM * MINT_FEE_PERIOD_S"

definition nonNegative :: "int \<Rightarrow> int" where
  "nonNegative x = (if x > 0 then x else 0)"

definition mintFee :: "int \<Rightarrow> int \<Rightarrow> int \<Rightarrow> int" where
  "mintFee collateral feePpm remaining =
     (let num = nonNegative collateral * nonNegative feePpm * nonNegative remaining
      in if num = 0 then 0 else (num - 1) sdiv DENOM + 1)"

definition mintFeeRefund :: "int \<Rightarrow> int \<Rightarrow> int \<Rightarrow> int" where
  "mintFeeRefund collateral feePpm remaining =
     (nonNegative collateral * nonNegative feePpm * nonNegative remaining) sdiv DENOM"

definition remainingLife :: "seconds \<Rightarrow> seconds \<Rightarrow> seconds" where
  "remainingLife expiry now = (if expiry > now then expiry - now else 0)"

definition collateralNeeded :: "int \<Rightarrow> int \<Rightarrow> int \<Rightarrow> int \<Rightarrow> int" where
  "collateralNeeded units collateralPerUnit feePpm remaining =
     (let collateral = nonNegative units * nonNegative collateralPerUnit
      in collateral + mintFee collateral feePpm remaining)"

definition rentPerUnit :: "int \<Rightarrow> int \<Rightarrow> int \<Rightarrow> int" where
  "rentPerUnit collateralPerUnit feePpm remaining = mintFee collateralPerUnit feePpm remaining"

definition maxWriteUnits :: "int \<Rightarrow> int \<Rightarrow> int \<Rightarrow> int \<Rightarrow> int" where
  "maxWriteUnits free collateralPerUnit feePpm remaining =
     (if collateralPerUnit \<le> 0 \<or> free \<le> 0 then 0
      else let hi = free sdiv collateralPerUnit
           in if feePpm \<le> 0 \<or> remaining \<le> 0 then hi
              else search_max (\<lambda>mid. collateralNeeded mid collateralPerUnit feePpm remaining \<le> free) 0 hi)"

lemma DENOM_eq: "DENOM = 604800000000"
  by (simp add: DENOM_def PPM_def MINT_FEE_PERIOD_S_def)

lemma nonNegative_nonneg [simp]: "0 \<le> nonNegative x"
  by (simp add: nonNegative_def)

lemma nonNegative_id: "0 \<le> x \<Longrightarrow> nonNegative x = x"
  by (simp add: nonNegative_def)

lemma nonNegative_mono: "x \<le> y \<Longrightarrow> nonNegative x \<le> nonNegative y"
  by (simp add: nonNegative_def)

lemma rent_product_nonneg: "0 \<le> nonNegative c * nonNegative p * nonNegative r"
  by simp

text \<open>The fee is the least whole amount that is at least the exact rent: rounded up, once.\<close>

lemma mintFee_ceil: "mintFee c p r = (nonNegative c * nonNegative p * nonNegative r + DENOM - 1) div DENOM"
proof -
  let ?n = "nonNegative c * nonNegative p * nonNegative r"
  have n: "0 \<le> ?n" by simp
  show ?thesis
  proof (cases "?n = 0")
    case True
    show ?thesis unfolding mintFee_def Let_def True by (simp add: DENOM_eq)
  next
    case False
    with n have "1 \<le> ?n" by linarith
    then have "(?n + DENOM - 1) div DENOM = (?n - 1) div DENOM + 1"
      using div_add_self2 [of DENOM "?n - 1"] by (simp add: DENOM_eq algebra_simps)
    with False \<open>1 \<le> ?n\<close> show ?thesis by (simp add: mintFee_def Let_def DENOM_eq)
  qed
qed

lemma mintFee_least: "(nonNegative c * nonNegative p * nonNegative r \<le> k * DENOM) = (mintFee c p r \<le> k)"
  by (simp add: mintFee_ceil ceil_div_least DENOM_eq)

lemma mintFee_nonneg [simp]: "0 \<le> mintFee c p r"
  by (simp add: mintFee_ceil DENOM_eq pos_imp_zdiv_nonneg_iff add_nonneg_nonneg)

lemma mintFee_mono: "c \<le> d \<Longrightarrow> mintFee c p r \<le> mintFee d p r"
proof -
  assume "c \<le> d"
  then have "nonNegative c * nonNegative p * nonNegative r \<le> nonNegative d * nonNegative p * nonNegative r"
    by (intro mult_right_mono nonNegative_mono) simp_all
  then show ?thesis by (simp add: mintFee_ceil zdiv_mono1 DENOM_eq)
qed

lemma collateralNeeded_mono: "m \<le> n \<Longrightarrow> collateralNeeded m c p r \<le> collateralNeeded n c p r"
proof -
  assume "m \<le> n"
  then have "nonNegative m * nonNegative c \<le> nonNegative n * nonNegative c"
    by (intro mult_right_mono nonNegative_mono) simp_all
  then show ?thesis by (simp add: collateralNeeded_def Let_def add_mono mintFee_mono)
qed

lemma collateralNeeded_ge: "0 \<le> n \<Longrightarrow> 0 < c \<Longrightarrow> n * c \<le> collateralNeeded n c p r"
  by (simp add: collateralNeeded_def nonNegative_id Let_def)

lemma collateralNeeded_0 [simp]: "collateralNeeded 0 c p r = 0"
  by (simp add: collateralNeeded_def mintFee_def nonNegative_def)

subsection \<open>What a capacity search needs of the requirement\<close>

locale rent_law =
  fixes need :: "int \<Rightarrow> int \<Rightarrow> int \<Rightarrow> int \<Rightarrow> int" \<comment> \<open>units, collateral per unit, rate, seconds left\<close>
    and valid :: "int \<Rightarrow> int \<Rightarrow> int \<Rightarrow> bool"
  assumes need_mono: "valid c p r \<Longrightarrow> 0 \<le> m \<Longrightarrow> m \<le> n \<Longrightarrow> need m c p r \<le> need n c p r"
    and need_ge: "valid c p r \<Longrightarrow> 0 \<le> n \<Longrightarrow> n * c \<le> need n c p r"
    and need_0: "valid c p r \<Longrightarrow> need 0 c p r = 0"
    and valid_pos: "valid c p r \<Longrightarrow> 0 < c"
begin

definition capacity :: "int \<Rightarrow> int \<Rightarrow> int \<Rightarrow> int \<Rightarrow> int" where
  "capacity free c p r = search_max (\<lambda>n. need n c p r \<le> free) 0 (free div c)"

lemma capacity_fits: "valid c p r \<Longrightarrow> 0 \<le> free \<Longrightarrow> need (capacity free c p r) c p r \<le> free"
  unfolding capacity_def by (rule search_max_fits [where fits = "\<lambda>n. need n c p r \<le> free"]) (simp add: need_0)

lemma capacity_nonneg: "valid c p r \<Longrightarrow> 0 \<le> free \<Longrightarrow> 0 \<le> capacity free c p r"
  unfolding capacity_def
  using search_max_bounds [of 0 "free div c" "\<lambda>n. need n c p r \<le> free"] valid_pos [of c p r]
  by (simp add: pos_imp_zdiv_nonneg_iff)

lemma more_does_not_fit:
  assumes v: "valid c p r" and free: "0 \<le> free" and n: "capacity free c p r < n"
  shows "free < need n c p r"
proof (rule ccontr)
  assume "\<not> ?thesis"
  then have fit: "need n c p r \<le> free" by simp
  have c: "0 < c" using v by (rule valid_pos)
  have n0: "0 \<le> n" using n capacity_nonneg [OF v free] by simp
  then have "n * c \<le> free" using need_ge [OF v n0] fit by simp
  then have nhi: "n \<le> free div c" using c by (simp add: le_div_iff_mult_le_int)
  let ?fits = "\<lambda>k. need (max 0 k) c p r \<le> free"
  have same: "search_max (\<lambda>k. need k c p r \<le> free) lo hi = search_max ?fits lo hi" if "0 \<le> lo" for lo hi
    using that
  proof (induction "\<lambda>k. need k c p r \<le> free" lo hi rule: search_max.induct)
    case (1 lo hi)
    have m: "lo < hi \<Longrightarrow> 0 \<le> (lo + hi + 1) sdiv 2" using mid_bounds [of lo hi] "1.prems" by simp
    show ?case
      using 1 m by (subst (1 2) search_max.simps) (auto simp: Let_def max_def)
  qed
  have hi0: "0 \<le> free div c" using free c by (simp add: pos_imp_zdiv_nonneg_iff)
  have down: "?fits i" if "i \<le> j" "?fits j" for i j
  proof -
    have "max 0 i \<le> max 0 j" using that(1) by simp
    then have "need (max 0 i) c p r \<le> need (max 0 j) c p r" by (intro need_mono [OF v]) simp_all
    with that(2) show "?fits i" by simp
  qed
  have "search_max ?fits 0 (free div c) < n"
    using n unfolding capacity_def same [OF order_refl] .
  then have "\<not> ?fits n"
    using nhi hi0 down by (intro search_max_maximal [where fits = ?fits]) blast+
  with fit n0 show False by simp
qed

lemma capacity_unique:
  assumes "valid c p r" and "0 \<le> free" and "0 \<le> n" and "need n c p r \<le> free" and "free < need (n + 1) c p r"
  shows "capacity free c p r = n"
proof -
  have "n \<le> capacity free c p r"
    using more_does_not_fit [OF assms(1,2), of n] assms(4) by (meson leD not_le)
  moreover have "\<not> n + 1 \<le> capacity free c p r"
    using need_mono [OF assms(1), of "n + 1" "capacity free c p r"] assms capacity_fits [OF assms(1,2)] by auto
  ultimately show ?thesis by simp
qed

end

interpretation keeper_rent: rent_law collateralNeeded "\<lambda>c p r. 0 < c"
  by unfold_locales (auto intro: collateralNeeded_mono collateralNeeded_ge)

subsection \<open>The keeper's capacity is exact\<close>

lemma mintFee_no_rent: "p \<le> 0 \<or> r \<le> 0 \<Longrightarrow> mintFee c p r = 0"
  by (auto simp: mintFee_def nonNegative_def)

lemma maxWriteUnits_capacity:
  assumes "0 < c" and "0 \<le> free"
  shows "maxWriteUnits free c p r = keeper_rent.capacity free c p r"
proof (cases "free = 0")
  case True
  then show ?thesis
    by (simp add: maxWriteUnits_def keeper_rent.capacity_def search_max.simps)
next
  case False
  with assms have free: "0 < free" by simp
  show ?thesis
  proof (cases "p \<le> 0 \<or> r \<le> 0")
    case True
    then have lin: "0 \<le> n \<Longrightarrow> collateralNeeded n c p r = n * c" for n
      using assms(1) by (simp add: collateralNeeded_def mintFee_no_rent nonNegative_id Let_def)
    have hi0: "0 \<le> free div c" using assms by (simp add: pos_imp_zdiv_nonneg_iff)
    have "keeper_rent.capacity free c p r = free div c"
      using assms hi0 div_mult_le_int [of c free] less_div_mult_int [of c free]
      by (intro keeper_rent.capacity_unique) (simp_all add: lin)
    with True free assms(1) show ?thesis by (auto simp: maxWriteUnits_def Let_def)
  next
    case False
    with free assms show ?thesis
      by (simp add: maxWriteUnits_def keeper_rent.capacity_def Let_def)
  qed
qed

lemma maxWriteUnits_nonneg [simp]: "0 \<le> maxWriteUnits free c p r"
proof (cases "0 < c \<and> 0 < free")
  case True
  then show ?thesis
    by (simp add: maxWriteUnits_capacity keeper_rent.capacity_nonneg)
next
  case False
  then show ?thesis by (auto simp: maxWriteUnits_def)
qed

lemma maxWriteUnits_fits: "0 \<le> free \<Longrightarrow> collateralNeeded (maxWriteUnits free c p r) c p r \<le> free"
proof (cases "0 < c")
  case True
  then show "0 \<le> free \<Longrightarrow> ?thesis"
    by (simp add: maxWriteUnits_capacity keeper_rent.capacity_fits)
next
  case False
  then show "0 \<le> free \<Longrightarrow> ?thesis" by (simp add: maxWriteUnits_def)
qed

lemma fits_maxWriteUnits:
  "0 < c \<Longrightarrow> 0 \<le> free \<Longrightarrow> collateralNeeded n c p r \<le> free \<Longrightarrow> n \<le> maxWriteUnits free c p r"
  using keeper_rent.more_does_not_fit [of c free p r n]
  by (simp add: maxWriteUnits_capacity) (meson not_le)

subsection \<open>The indexer's arithmetic\<close>

datatype rent_error = RangeErrorRent | RangeErrorRequirement | RangeErrorCapacity

definition MINT_FEE_PERIOD :: int where "MINT_FEE_PERIOD = 604800"
definition MINT_FEE_CEIL_PPM :: int where "MINT_FEE_CEIL_PPM = 5000"
definition DENOMINATOR :: int where "DENOMINATOR = 1000000 * MINT_FEE_PERIOD"
definition MAX_UNITS :: int where "MAX_UNITS = 2 ^ 64 - 1"

definition mintRent :: "int \<Rightarrow> int \<Rightarrow> int \<Rightarrow> rent_error + int" where
  "mintRent collateral ppm remaining =
     (if collateral < 0 \<or> ppm < 0 \<or> ppm > MINT_FEE_CEIL_PPM then Inl RangeErrorRent
      else if remaining \<le> 0 \<or> ppm = 0 \<or> collateral = 0 then Inr 0
      else let numerator = collateral * ppm * remaining in Inr ((numerator - 1) sdiv DENOMINATOR + 1))"

definition collateralWithRent :: "int \<Rightarrow> int \<Rightarrow> int \<Rightarrow> int \<Rightarrow> rent_error + int" where
  "collateralWithRent units perUnit ppm remaining =
     (if units < 0 \<or> perUnit \<le> 0 then Inl RangeErrorRequirement
      else let collateral = units * perUnit
           in case mintRent collateral ppm remaining of
                Inl e \<Rightarrow> Inl e
              | Inr rent \<Rightarrow> Inr (collateral + rent))"

text \<open>
  The loop calls \<open>collateralWithRent\<close>, which raises on an invalid rate; the search runs in the
  error type and stops at the first raise.
\<close>

function rent_search :: "int \<Rightarrow> int \<Rightarrow> int \<Rightarrow> int \<Rightarrow> int \<Rightarrow> int \<Rightarrow> rent_error + int" where
  "rent_search free perUnit ppm remaining lo hi =
     (if lo < hi then
        (let mid = (lo + hi + 1) sdiv 2
         in case collateralWithRent mid perUnit ppm remaining of
              Inl e \<Rightarrow> Inl e
            | Inr need \<Rightarrow>
                (if need \<le> free then rent_search free perUnit ppm remaining mid hi
                 else rent_search free perUnit ppm remaining lo (mid - 1)))
      else Inr lo)"
  by pat_completeness auto
termination
proof (relation "measure (\<lambda>(free, c, p, r, lo, hi). nat (hi - lo))", goal_cases)
  case (2 free c p r lo hi mid need)
  then show ?case using mid_bounds [of lo hi] by simp
next
  case (3 free c p r lo hi mid need)
  then show ?case using mid_bounds [of lo hi] by simp
qed simp

declare rent_search.simps [simp del]

definition rentCapacity :: "int \<Rightarrow> int \<Rightarrow> int \<Rightarrow> int \<Rightarrow> int \<Rightarrow> rent_error + int" where
  "rentCapacity free perUnit ppm remaining cap =
     (if free < 0 \<or> perUnit \<le> 0 \<or> cap < 0 then Inl RangeErrorCapacity
      else let hi = (if free sdiv perUnit < cap then free sdiv perUnit else cap);
               hi' = (if hi > MAX_UNITS then MAX_UNITS else hi)
           in rent_search free perUnit ppm remaining 0 hi')"

lemma DENOMINATOR_DENOM: "DENOMINATOR = DENOM"
  by (simp add: DENOMINATOR_def MINT_FEE_PERIOD_def DENOM_eq)

text \<open>On the inputs the indexer accepts, the two requirements are the same number.\<close>

lemma mintRent_mintFee:
  "0 \<le> c \<Longrightarrow> 0 \<le> p \<Longrightarrow> p \<le> MINT_FEE_CEIL_PPM \<Longrightarrow> mintRent c p r = Inr (mintFee c p r)"
  by (cases "r \<le> 0") (auto simp: mintRent_def mintFee_def nonNegative_def DENOMINATOR_DENOM Let_def)

lemma collateralWithRent_Needed:
  "0 \<le> n \<Longrightarrow> 0 < c \<Longrightarrow> 0 \<le> p \<Longrightarrow> p \<le> MINT_FEE_CEIL_PPM \<Longrightarrow>
     collateralWithRent n c p r = Inr (collateralNeeded n c p r)"
  by (simp add: collateralWithRent_def collateralNeeded_def mintRent_mintFee nonNegative_id Let_def)

lemma rent_search_search_max:
  assumes "0 < c" "0 \<le> p" "p \<le> MINT_FEE_CEIL_PPM" "0 \<le> lo"
  shows "rent_search free c p r lo hi = Inr (search_max (\<lambda>n. collateralNeeded n c p r \<le> free) lo hi)"
  using assms
proof (induction "\<lambda>n. collateralNeeded n c p r \<le> free" lo hi rule: search_max.induct)
  case (1 lo hi)
  let ?mid = "(lo + hi + 1) sdiv 2"
  show ?case
  proof (cases "lo < hi")
    case True
    with mid_bounds [OF True] "1.prems" have m: "0 \<le> ?mid" by simp
    show ?thesis
      using True 1 m
      by (subst rent_search.simps, subst search_max.simps) (simp add: Let_def collateralWithRent_Needed)
  next
    case False
    then show ?thesis by (subst rent_search.simps, subst search_max.simps) simp
  qed
qed

lemma MAX_UNITS_nonneg [simp]: "0 \<le> MAX_UNITS"
  by (simp add: MAX_UNITS_def)

text \<open>
  Requirement and capacity as the indexer computes them satisfy the same law: the value of the
  requirement is read out of its sum, which never is an error on valid input.
\<close>

definition indexer_need :: "int \<Rightarrow> int \<Rightarrow> int \<Rightarrow> int \<Rightarrow> int" where
  "indexer_need n c p r = (case collateralWithRent n c p r of Inl _ \<Rightarrow> 0 | Inr need \<Rightarrow> need)"

lemma indexer_need_eq:
  "0 \<le> n \<Longrightarrow> 0 < c \<Longrightarrow> 0 \<le> p \<Longrightarrow> p \<le> MINT_FEE_CEIL_PPM \<Longrightarrow> indexer_need n c p r = collateralNeeded n c p r"
  by (simp add: indexer_need_def collateralWithRent_Needed)

interpretation indexer_rent: rent_law indexer_need "\<lambda>c p r. 0 < c \<and> 0 \<le> p \<and> p \<le> MINT_FEE_CEIL_PPM"
  by unfold_locales (auto simp: indexer_need_eq intro: collateralNeeded_mono collateralNeeded_ge)

lemma rentCapacity_search:
  assumes "0 \<le> free" "0 < c" "0 \<le> p" "p \<le> MINT_FEE_CEIL_PPM" "0 \<le> cap"
  shows "rentCapacity free c p r cap =
    Inr (search_max (\<lambda>n. collateralNeeded n c p r \<le> free) 0 (min (min (free div c) cap) MAX_UNITS))"
  using assms by (simp add: rentCapacity_def Let_def rent_search_search_max min_def not_less)

text \<open>
  The same two facts for a caller that only sees the indexer's results: a positive capacity means the
  rate was valid, and any smaller size is affordable.
\<close>

lemma rent_search_valid_rate:
  "rent_search free c p r lo hi = Inr k \<Longrightarrow> lo < hi \<Longrightarrow> 0 \<le> lo \<Longrightarrow> 0 < c \<Longrightarrow> 0 \<le> p \<and> p \<le> MINT_FEE_CEIL_PPM"
proof (rule ccontr)
  assume a: "rent_search free c p r lo hi = Inr k" "lo < hi" "0 \<le> lo" "0 < c" and "\<not> (0 \<le> p \<and> p \<le> MINT_FEE_CEIL_PPM)"
  then have "collateralWithRent ((lo + hi + 1) sdiv 2) c p r = Inl RangeErrorRent \<or>
      collateralWithRent ((lo + hi + 1) sdiv 2) c p r = Inl RangeErrorRequirement"
    by (auto simp: collateralWithRent_def mintRent_def Let_def)
  with a show False by (subst (asm) rent_search.simps) (auto simp: Let_def)
qed

lemma rentCapacity_affordable:
  assumes "rentCapacity free c p r MAX_UNITS = Inr k" and "0 < n" "n \<le> k"
  shows "\<exists>m. collateralWithRent n c p r = Inr m \<and> 0 \<le> m \<and> m \<le> free"
proof -
  have fc: "0 \<le> free" "0 < c" using assms(1) by (auto simp: rentCapacity_def split: if_splits)
  define hi where "hi = (let h = (if free sdiv c < MAX_UNITS then free sdiv c else MAX_UNITS) in if h > MAX_UNITS then MAX_UNITS else h)"
  have rs: "rent_search free c p r 0 hi = Inr k"
    using assms(1) fc by (simp add: rentCapacity_def hi_def Let_def split: if_splits)
  have "0 < hi"
  proof (rule ccontr)
    assume "\<not> 0 < hi"
    then have "k = 0" using rs by (subst (asm) rent_search.simps) simp
    with assms show False by simp
  qed
  then have rate: "0 \<le> p" "p \<le> MINT_FEE_CEIL_PPM" using rent_search_valid_rate [OF rs] fc by simp_all
  then have k: "k = search_max (\<lambda>n. collateralNeeded n c p r \<le> free) 0 hi"
    using rs fc(2) by (simp add: rent_search_search_max)
  have "collateralNeeded k c p r \<le> free"
    unfolding k using fc by (intro search_max_fits [where fits = "\<lambda>n. collateralNeeded n c p r \<le> free"]) simp
  moreover have "collateralNeeded n c p r \<le> collateralNeeded k c p r" using assms(3) by (rule collateralNeeded_mono)
  moreover have "0 \<le> collateralNeeded n c p r" by (simp add: collateralNeeded_def Let_def)
  ultimately show ?thesis using collateralWithRent_Needed [of n c p r] assms(2) fc rate by auto
qed

text \<open>
  the keeper's write-ask capacity is exact. It fits into the free balance, and one unit more
  would not: neither undersized (depth withheld) nor oversized (an ask the book would skip).
\<close>

theorem maxWriteUnits_exact:
  assumes "0 < c" and "0 \<le> free"
  shows "0 \<le> maxWriteUnits free c p r
    \<and> collateralNeeded (maxWriteUnits free c p r) c p r \<le> free
    \<and> free < collateralNeeded (maxWriteUnits free c p r + 1) c p r"
  using assms keeper_rent.more_does_not_fit [of c free p r "maxWriteUnits free c p r + 1"]
    maxWriteUnits_fits [of free c p r]
  by (simp add: maxWriteUnits_capacity [symmetric])

theorem maxWriteUnits_exact_witness:
  "maxWriteUnits 1000 10 5000 604800 = 99 \<and> collateralNeeded 99 10 5000 604800 \<le> 1000
   \<and> 1000 < collateralNeeded (99 + 1) 10 5000 604800"
proof -
  have v: "maxWriteUnits 1000 10 5000 604800 = 99" by code_simp
  show ?thesis using v maxWriteUnits_exact [of 10 1000 5000 604800] by simp
qed

text \<open>
  C22: the keeper and the indexer agree on what an ask can fill. On every input the indexer accepts,
  its capacity is the keeper's, cut at the caller's cap and at the 64-bit unit count of the book.
\<close>

theorem rentCapacity_eq_maxWriteUnits:
  assumes "0 \<le> free" "0 < c" "0 \<le> p" "p \<le> MINT_FEE_CEIL_PPM" "0 \<le> cap"
  shows "rentCapacity free c p r cap = Inr (min (maxWriteUnits free c p r) (min cap MAX_UNITS))"
proof -
  let ?fits = "\<lambda>n. collateralNeeded n c p r \<le> free"
  let ?hi = "min (min (free div c) cap) MAX_UNITS"
  let ?k = "search_max ?fits 0 ?hi"
  have hi0: "0 \<le> free div c" using assms by (simp add: pos_imp_zdiv_nonneg_iff)
  then have hi: "0 \<le> ?hi" using assms(5) by simp
  have b: "0 \<le> ?k \<and> ?k \<le> ?hi" using search_max_bounds [OF hi] by blast
  have fit: "?fits ?k" using assms by (intro search_max_fits [where fits = ?fits]) simp
  have kM: "?k \<le> maxWriteUnits free c p r" using fits_maxWriteUnits [OF assms(2,1) fit] .
  have Mhi: "maxWriteUnits free c p r \<le> free div c"
  proof -
    have "maxWriteUnits free c p r * c \<le> free"
      using collateralNeeded_ge [OF maxWriteUnits_nonneg assms(2), of free c p r p r]
        maxWriteUnits_fits [OF assms(1), of c p r] by linarith
    then show ?thesis using assms(2) by (simp add: le_div_iff_mult_le_int)
  qed
  have "min (maxWriteUnits free c p r) (min cap MAX_UNITS) \<le> ?k"
  proof (rule ccontr)
    assume "\<not> ?thesis"
    then have n: "?k < min (maxWriteUnits free c p r) (min cap MAX_UNITS)" (is "_ < ?n")
      by (simp only: not_le)
    have "\<not> ?fits ?n"
      using n hi Mhi by (intro search_max_maximal [where fits = ?fits and lo = 0 and hi = ?hi])
        (auto dest: collateralNeeded_mono [of _ _ c p r])
    moreover have "?fits ?n"
      using collateralNeeded_mono [of ?n "maxWriteUnits free c p r" c p r] maxWriteUnits_fits [OF assms(1), of c p r]
      by simp
    ultimately show False by simp
  qed
  with b kM have "?k = min (maxWriteUnits free c p r) (min cap MAX_UNITS)" by (intro antisym; simp)
  then show ?thesis using assms by (simp add: rentCapacity_search)
qed

theorem rentCapacity_eq_maxWriteUnits_witness:
  "rentCapacity 1000 10 5000 604800 MAX_UNITS = Inr (min (maxWriteUnits 1000 10 5000 604800) (min MAX_UNITS MAX_UNITS))"
  by (rule rentCapacity_eq_maxWriteUnits) (simp_all add: MINT_FEE_CEIL_PPM_def)

text \<open>
  rent is rounded up by less than one base unit and its refund down, so a close never pays back
  more than the mint charged.
\<close>

theorem mintFee_refund_gap:
  "mintFeeRefund c p r \<le> mintFee c p r \<and> mintFee c p r \<le> mintFeeRefund c p r + 1"
proof -
  let ?n = "nonNegative c * nonNegative p * nonNegative r"
  have f: "mintFeeRefund c p r = ?n div DENOM" by (simp add: mintFeeRefund_def DENOM_eq)
  have "?n \<le> (?n div DENOM + 1) * DENOM" using less_div_mult_int [of DENOM ?n] by (simp add: DENOM_eq)
  then have "mintFee c p r \<le> ?n div DENOM + 1" by (simp add: mintFee_least)
  moreover have "?n div DENOM \<le> mintFee c p r"
    unfolding mintFee_ceil by (rule zdiv_mono1) (simp_all add: DENOM_eq)
  ultimately show ?thesis by (simp add: f)
qed

end
