(* ===== verification/Outflow.thy ===== *)
theory Outflow
  imports JsPrelude
begin

section \<open>The daily outflow cap (keeper/src/v2/mm/outflow.ts)\<close>

text \<open>
  The leaky bucket the maker vault charges bids against, as the bot models it: what one tick may
  still escrow (\<open>budgetFor\<close>), the level after a plan's booked calls (\<open>project\<close>), its refill (\<open>decay\<close>)
  and the alarm on spending the bot did not do (\<open>foreignSpend\<close>).
\<close>

definition UNITS_PER_SHARE :: int where "UNITS_PER_SHARE = 100"
definition OUTFLOW_WINDOW_S :: seconds where "OUTFLOW_WINDOW_S = 86400"
definition FOREIGN_SPEND_TOLERANCE :: usdg6 where "FOREIGN_SPEND_TOLERANCE = 1000"

definition bidEscrowOf :: "usdg6 \<Rightarrow> int \<Rightarrow> usdg6" where
  "bidEscrowOf price units = (price * units) sdiv UNITS_PER_SHARE"

definition budgetFor :: "usdg6 \<Rightarrow> usdg6 \<Rightarrow> usdg6 \<Rightarrow> usdg6" where
  "budgetFor cap used released =
     (let level = max (used - max released 0) 0 in max (cap - level) 0)"

record booked_call =
  bcWhat :: string
  bcDelta :: usdg6

definition book_call :: "usdg6 \<Rightarrow> booked_call \<Rightarrow> usdg6" where
  "book_call level c = (if bcDelta c \<ge> 0 then level + bcDelta c else max (level - - bcDelta c) 0)"

definition project :: "usdg6 \<Rightarrow> booked_call list \<Rightarrow> usdg6" where
  "project used calls = foldl book_call (max used 0) calls"

definition decay :: "usdg6 \<Rightarrow> usdg6 \<Rightarrow> seconds \<Rightarrow> usdg6" where
  "decay level cap elapsedS =
     (if elapsedS \<le> 0 \<or> cap \<le> 0 then max level 0
      else max (max level 0 - (cap * elapsedS) sdiv OUTFLOW_WINDOW_S) 0)"

record projection =
  pjUsed :: usdg6
  pjAt :: seconds
  pjCap :: usdg6

definition foreignSpend ::
  "usdg6 \<Rightarrow> seconds \<Rightarrow> usdg6 \<Rightarrow> projection option \<Rightarrow> usdg6 option \<Rightarrow> usdg6 option" where
  "foreignSpend observedUsed now cap previous tolerance =
     (case previous of
        None \<Rightarrow> None
      | Some p \<Rightarrow>
          (if now < pjAt p then None
           else let expected = decay (pjUsed p) (min (pjCap p) cap) (now - pjAt p);
                    over = observedUsed - expected
                in if over > or_else tolerance FOREIGN_SPEND_TOLERANCE then Some over else None))"

subsection \<open>A bucket that never goes below empty\<close>

text \<open>
  The contract the bot's model promises: booking never leaves the level negative, a charge raises
  it by exactly its amount, a credit never raises it, and the refill only lowers it.
\<close>

locale leaky_bucket =
  fixes charge :: "int \<Rightarrow> int \<Rightarrow> int" \<comment> \<open>level, signed amount\<close>
    and refill :: "int \<Rightarrow> int \<Rightarrow> int \<Rightarrow> int" \<comment> \<open>level, cap, seconds\<close>
  assumes charge_nonneg: "0 \<le> l \<Longrightarrow> 0 \<le> charge l d"
    and charge_mono: "l \<le> m \<Longrightarrow> charge l d \<le> charge m d"
    and charge_out: "0 \<le> d \<Longrightarrow> charge l d = l + d"
    and charge_ge: "l + d \<le> charge l d"
    and refill_nonneg: "0 \<le> refill l cap s"
    and refill_le: "0 \<le> l \<Longrightarrow> refill l cap s \<le> l"
    and refill_cap_mono: "cap \<le> cap' \<Longrightarrow> refill l cap' s \<le> refill l cap s"
    and refill_later: "s \<le> t \<Longrightarrow> refill l cap t \<le> refill l cap s"
begin

abbreviation level_after :: "int \<Rightarrow> int list \<Rightarrow> int" where
  "level_after l ds \<equiv> foldl charge l ds"

lemma level_nonneg: "0 \<le> l \<Longrightarrow> 0 \<le> level_after l ds"
  by (induction ds arbitrary: l) (auto simp: charge_nonneg)

lemma level_mono: "l \<le> m \<Longrightarrow> level_after l ds \<le> level_after m ds"
  by (induction ds arbitrary: l m) (auto simp: charge_mono)

lemma level_ge_sum: "l + sum_list ds \<le> level_after l ds"
proof (induction ds arbitrary: l)
  case (Cons d ds)
  have "l + (d + sum_list ds) \<le> charge l d + sum_list ds" using charge_ge [of l d] by simp
  also have "\<dots> \<le> level_after (charge l d) ds" by (rule Cons.IH)
  finally show ?case by simp
qed simp

lemma level_charges: "(\<And>d. d \<in> set ds \<Longrightarrow> 0 \<le> d) \<Longrightarrow> level_after l ds = l + sum_list ds"
  by (induction ds arbitrary: l) (auto simp: charge_out add.assoc)

text \<open>
  Credits first, then charges: the level ends at the charges plus what the credits left of the
  start, so a budget computed from the start alone is safe.
\<close>

lemma credits_then_charges:
  assumes "0 \<le> l" "\<And>d. d \<in> set credits \<Longrightarrow> d \<le> 0" "\<And>d. d \<in> set charges \<Longrightarrow> 0 \<le> d"
    and "\<And>k d. 0 \<le> k \<Longrightarrow> d \<le> 0 \<Longrightarrow> charge k d = max (k + d) 0"
  shows "level_after l (credits @ charges) = max (l + sum_list credits) 0 + sum_list charges"
proof -
  have "level_after l credits = max (l + sum_list credits) 0" using assms(1,2)
  proof (induction credits arbitrary: l)
    case (Cons d ds)
    have d: "d \<le> 0" and "sum_list ds \<le> 0"
      using Cons.prems(2) by (auto intro: sum_list_nonpos)
    then show ?case using Cons.IH [of "charge l d"] Cons.prems assms(4) [of l d] charge_nonneg [of l d] by auto
  qed simp
  then show ?thesis using assms(3) by (simp add: level_charges)
qed

end

lemma book_call_signed: "book_call l c = (if 0 \<le> bcDelta c then l + bcDelta c else max (l + bcDelta c) 0)"
  by (simp add: book_call_def)

definition book_delta :: "usdg6 \<Rightarrow> usdg6 \<Rightarrow> usdg6" where
  "book_delta l d = book_call l \<lparr>bcWhat = '''', bcDelta = d\<rparr>"

lemma decay_later: "s \<le> t \<Longrightarrow> decay l cap t \<le> decay l cap s"
proof -
  assume st: "s \<le> t"
  show ?thesis
  proof (cases "s \<le> 0 \<or> cap \<le> 0")
    case True
    have "0 \<le> t \<Longrightarrow> 0 \<le> cap \<Longrightarrow> 0 \<le> cap * t div OUTFLOW_WINDOW_S"
      by (simp add: OUTFLOW_WINDOW_S_def pos_imp_zdiv_nonneg_iff)
    with True show ?thesis by (auto simp: decay_def OUTFLOW_WINDOW_S_def)
  next
    case False
    with st have "(cap * s) div OUTFLOW_WINDOW_S \<le> (cap * t) div OUTFLOW_WINDOW_S"
      by (intro zdiv_mono1 mult_left_mono) (auto simp: OUTFLOW_WINDOW_S_def)
    with False st show ?thesis by (simp add: decay_def OUTFLOW_WINDOW_S_def)
  qed
qed

lemma decay_cap_mono: "cap \<le> cap' \<Longrightarrow> decay l cap' s \<le> decay l cap s"
proof -
  assume cc: "cap \<le> cap'"
  show ?thesis
  proof (cases "s \<le> 0 \<or> cap \<le> 0")
    case True
    have "0 \<le> s \<Longrightarrow> 0 \<le> cap' \<Longrightarrow> 0 \<le> cap' * s div OUTFLOW_WINDOW_S"
      by (simp add: OUTFLOW_WINDOW_S_def pos_imp_zdiv_nonneg_iff)
    with True show ?thesis by (auto simp: decay_def OUTFLOW_WINDOW_S_def)
  next
    case False
    with cc have "(cap * s) div OUTFLOW_WINDOW_S \<le> (cap' * s) div OUTFLOW_WINDOW_S"
      by (intro zdiv_mono1 mult_right_mono) (auto simp: OUTFLOW_WINDOW_S_def)
    with False cc show ?thesis by (simp add: decay_def OUTFLOW_WINDOW_S_def)
  qed
qed

interpretation outflow: leaky_bucket book_delta decay
proof unfold_locales
  show "0 \<le> l \<Longrightarrow> 0 \<le> book_delta l d" for l d by (simp add: book_delta_def book_call_def)
  show "l \<le> m \<Longrightarrow> book_delta l d \<le> book_delta m d" for l m d by (auto simp: book_delta_def book_call_def max_def)
  show "0 \<le> d \<Longrightarrow> book_delta l d = l + d" for l d by (simp add: book_delta_def book_call_def)
  show "l + d \<le> book_delta l d" for l d by (simp add: book_delta_def book_call_def)
  show "0 \<le> decay l cap s" for l cap s by (simp add: decay_def)
  show "0 \<le> l \<Longrightarrow> decay l cap s \<le> l" for l cap s
    by (simp add: decay_def OUTFLOW_WINDOW_S_def pos_imp_zdiv_nonneg_iff)
qed (rule decay_cap_mono decay_later, assumption)+

lemma book_call_delta: "book_call l c = book_delta l (bcDelta c)"
  by (simp add: book_delta_def book_call_def)

lemma project_levels: "project used calls = foldl book_delta (max used 0) (map bcDelta calls)"
  by (simp add: project_def foldl_map book_call_delta cong: foldl_cong)

text \<open>
  C29: a plan whose credits are booked before its charges, and whose charges stay within the budget
  computed from them, never takes the bucket past its cap.
\<close>

theorem budget_keeps_cap:
  assumes "\<And>c. c \<in> set credits \<Longrightarrow> bcDelta c \<le> 0" "\<And>c. c \<in> set charges \<Longrightarrow> 0 \<le> bcDelta c"
    and "0 \<le> used" "used \<le> cap"
    and "sum_list (map bcDelta charges) \<le> budgetFor cap used (- sum_list (map bcDelta credits))"
  shows "project used (credits @ charges) \<le> cap"
proof -
  have cr: "sum_list (map bcDelta credits) \<le> 0"
    by (rule sum_list_nonpos) (auto dest: assms(1))
  have "project used (credits @ charges)
      = max (used + sum_list (map bcDelta credits)) 0 + sum_list (map bcDelta charges)"
    unfolding project_levels map_append using assms(1-3)
    by (subst outflow.credits_then_charges) (auto simp: book_delta_def book_call_def)
  with assms(3-5) cr show ?thesis by (simp add: budgetFor_def Let_def max_def split: if_splits)
qed

theorem budget_keeps_cap_witness:
  "project 900 ([\<lparr>bcWhat = ''cancel'', bcDelta = -400\<rparr>] @ [\<lparr>bcWhat = ''place'', bcDelta = 450\<rparr>]) \<le> 1000"
  by (rule budget_keeps_cap) (auto simp: budgetFor_def)

text \<open>
  no false alarm. If everything booked since the projection is the bot's own and the chain's
  level is the projected one refilled under at most the smaller cap, the check answers nothing.
\<close>

theorem foreignSpend_silent:
  assumes "pjAt p \<le> now" and "observed \<le> decay (pjUsed p) capAtChain (now - pjAt p) + slack"
    and "min (pjCap p) cap \<le> capAtChain" and "slack \<le> FOREIGN_SPEND_TOLERANCE"
  shows "foreignSpend observed now cap (Some p) None = None"
proof -
  have "decay (pjUsed p) capAtChain (now - pjAt p) \<le> decay (pjUsed p) (min (pjCap p) cap) (now - pjAt p)"
    using assms(3) by (rule decay_cap_mono)
  with assms show ?thesis by (simp add: foreignSpend_def Let_def)
qed

theorem foreignSpend_silent_witness:
  "foreignSpend 500 100 1000 (Some \<lparr>pjUsed = 500, pjAt = 50, pjCap = 1000\<rparr>) None = None"
  by (rule foreignSpend_silent [where capAtChain = 1000 and slack = 1])
    (simp_all add: decay_def OUTFLOW_WINDOW_S_def FOREIGN_SPEND_TOLERANCE_def)

text \<open>
  spending past the tolerance is always reported, with at least the exact excess over the
  projection that has not refilled at all.
\<close>

theorem foreignSpend_reports:
  assumes "pjAt p \<le> now" "0 \<le> pjUsed p" "pjUsed p + FOREIGN_SPEND_TOLERANCE < observed"
  shows "\<exists>over. foreignSpend observed now cap (Some p) None = Some over \<and> observed - pjUsed p \<le> over"
proof -
  have "decay (pjUsed p) (min (pjCap p) cap) (now - pjAt p) \<le> pjUsed p"
    using assms(2) by (rule outflow.refill_le)
  with assms show ?thesis by (simp add: foreignSpend_def Let_def)
qed

theorem foreignSpend_reports_witness:
  "\<exists>over. foreignSpend 5000 100 1000 (Some \<lparr>pjUsed = 500, pjAt = 50, pjCap = 1000\<rparr>) None = Some over
     \<and> 5000 - 500 \<le> over"
  using foreignSpend_reports [of "\<lparr>pjUsed = 500, pjAt = 50, pjCap = 1000\<rparr>" 100 5000 1000]
  by (simp add: FOREIGN_SPEND_TOLERANCE_def)

end
