(* ===== verification/EpochWindow.thy ===== *)
theory EpochWindow
  imports JsPrelude
begin

section \<open>Epoch window and protocol-owned books (mm/epoch.ts, mm/protocol-accounts.ts)\<close>

text \<open>
  Whether a series may open new risk in a House vault's epoch, what a wind-down leaves allowed, when
  the vault is flat for its roll, and the guard that keeps one protocol vault from resting a quote
  another protocol vault's order crosses.
\<close>

subsection \<open>Epochs\<close>

datatype epoch_kind = Weekly | Daily

record epoch_view =
  evEpochEnd :: seconds
  evIndex :: int
  evRollDue :: bool
  evKind :: "epoch_kind option"
  evWindDownS :: "seconds option"
  evWindingDown :: "bool option"

datatype epoch_selectable = EpochOk | EpochOutside | EpochWinddown

definition epochSelectable :: "seconds \<Rightarrow> epoch_view option \<Rightarrow> seconds \<Rightarrow> seconds \<Rightarrow> epoch_selectable" where
  "epochSelectable expiry epoch now windDownS =
     (case epoch of
        None \<Rightarrow> EpochOk
      | Some e \<Rightarrow>
          if expiry > evEpochEnd e then EpochOutside
          else if evWindingDown e = Some True then EpochWinddown
          else if now \<ge> evEpochEnd e - or_else (evWindDownS e) windDownS then EpochWinddown
          else EpochOk)"

record wind_down_slots =
  wdBid :: bool
  wdWrite :: bool
  wdResale :: bool
  wdClose :: bool
  wdCancel :: bool

definition windDownAction :: "int option \<Rightarrow> wind_down_slots" where
  "windDownAction exposureLongs =
     (let longs = or_else exposureLongs 0
      in \<lparr>wdBid = False, wdWrite = False, wdResale = longs > 0, wdClose = True, wdCancel = True\<rparr>)"

record flat_view =
  fvLongs :: int
  fvShorts :: int
  fvResale :: int

definition flatForRoll :: "flat_view list \<Rightarrow> bool" where
  "flatForRoll views = list_all (\<lambda>v. fvLongs v = 0 \<and> fvShorts v = 0 \<and> fvResale v = 0) views"

lemma epochSelectable_ok_iff:
  "epochSelectable expiry (Some e) now w = EpochOk \<longleftrightarrow>
     expiry \<le> evEpochEnd e \<and> evWindingDown e \<noteq> Some True \<and> now + or_else (evWindDownS e) w < evEpochEnd e"
  by (auto simp: epochSelectable_def)

text \<open>
  no series re-opens for new risk as time passes: once an epoch refuses a series it refuses it at
  every later second, and a series it accepts expires inside the epoch, before the wind-down lead.
\<close>

theorem epochSelectable_closes_for_good:
  assumes "now \<le> later" "epochSelectable expiry (Some e) later w = EpochOk"
  shows "epochSelectable expiry (Some e) now w = EpochOk
     \<and> expiry \<le> evEpochEnd e \<and> later + or_else (evWindDownS e) w < evEpochEnd e"
  using assms by (auto simp: epochSelectable_ok_iff)

theorem epochSelectable_closes_for_good_witness:
  "let e = \<lparr>evEpochEnd = 1000, evIndex = 1, evRollDue = False, evKind = Some Daily,
            evWindDownS = Some 100, evWindingDown = None\<rparr>
   in epochSelectable 1000 (Some e) 500 7200 = EpochOk \<and> 1000 \<le> evEpochEnd e
     \<and> 800 + or_else (evWindDownS e) 7200 < evEpochEnd e"
  unfolding Let_def by (rule epochSelectable_closes_for_good) (simp_all add: epochSelectable_def)

subsection \<open>Protocol-owned makers\<close>

definition lc :: "string \<Rightarrow> string" where "lc a = lower a"

definition isProtocolOwned :: "address \<Rightarrow> address list \<Rightarrow> bool" where
  "isProtocolOwned addr accounts =
     (let want = lc addr in want \<in> set accounts \<or> list_ex (\<lambda>s. lc s = want) accounts)"

datatype protocol_kind = ProtocolBid | ProtocolAskWrite | ProtocolAskResale
datatype quote_side = BidSide | AskSide

record protocol_resting =
  prLongId :: int
  prMaker :: address
  prKind :: protocol_kind
  prPrice :: usdg6

record protocol_target =
  ptLongId :: int
  ptSide :: quote_side
  ptPrice :: usdg6

record protocol_book =
  pbAccounts :: "address list"
  pbResting :: "protocol_resting list"

definition isAsk :: "protocol_kind \<Rightarrow> bool" where
  "isAsk kind = (kind = ProtocolAskWrite \<or> kind = ProtocolAskResale)"

definition isBid :: "protocol_kind \<Rightarrow> bool" where
  "isBid kind = (kind = ProtocolBid)"

fun crosses_resting :: "protocol_target \<Rightarrow> address list \<Rightarrow> protocol_resting list \<Rightarrow> bool" where
  "crosses_resting target accounts [] = False"
| "crosses_resting target accounts (o' # rest) =
     (if prLongId o' \<noteq> ptLongId target then crosses_resting target accounts rest
      else if \<not> isProtocolOwned (prMaker o') accounts then crosses_resting target accounts rest
      else if (ptSide target = BidSide \<and> isAsk (prKind o') \<and> ptPrice target \<ge> prPrice o')
            \<or> (ptSide target = AskSide \<and> isBid (prKind o') \<and> ptPrice target \<le> prPrice o')
        then True
      else crosses_resting target accounts rest)"

definition crossesProtocol :: "protocol_target \<Rightarrow> protocol_book \<Rightarrow> bool" where
  "crossesProtocol target book = crosses_resting target (pbAccounts book) (pbResting book)"

text \<open>Membership does not depend on the case either side is written in.\<close>

lemma isProtocolOwned_lc: "isProtocolOwned a accounts = (lower a \<in> lower ` set accounts)"
proof -
  have "lower a \<in> set accounts \<Longrightarrow> lower a \<in> lower ` set accounts"
    by (rule image_eqI [where x = "lower a"]) simp_all
  then show ?thesis by (auto simp: isProtocolOwned_def lc_def list_ex_iff Let_def intro: rev_image_eqI)
qed

lemma crosses_resting_iff:
  "crosses_resting t acc os = (\<exists>q \<in> set os. prLongId q = ptLongId t \<and> isProtocolOwned (prMaker q) acc
     \<and> (ptSide t = BidSide \<and> isAsk (prKind q) \<and> prPrice q \<le> ptPrice t
      \<or> ptSide t = AskSide \<and> isBid (prKind q) \<and> ptPrice t \<le> prPrice q))"
  by (induction os) auto

text \<open>No outsider can trade one protocol vault against another at no loss.\<close>

definition uncrossed :: "protocol_book \<Rightarrow> bool" where
  "uncrossed book = (\<forall>b \<in> set (pbResting book). \<forall>a \<in> set (pbResting book).
     prLongId a = prLongId b \<longrightarrow> isProtocolOwned (prMaker a) (pbAccounts book) \<longrightarrow>
     isProtocolOwned (prMaker b) (pbAccounts book) \<longrightarrow> isBid (prKind b) \<longrightarrow> isAsk (prKind a) \<longrightarrow>
     prPrice b < prPrice a)"

definition side_of :: "protocol_kind \<Rightarrow> quote_side" where
  "side_of k = (if isBid k then BidSide else AskSide)"

definition rest_order :: "protocol_resting \<Rightarrow> protocol_book \<Rightarrow> protocol_book" where
  "rest_order q book =
     (if crossesProtocol \<lparr>ptLongId = prLongId q, ptSide = side_of (prKind q), ptPrice = prPrice q\<rparr> book
      then book else book\<lparr>pbResting := q # pbResting book\<rparr>)"

lemma kind_sides: "isAsk k = (\<not> isBid k)"
  by (cases k) (simp_all add: isAsk_def isBid_def)

text \<open>
  resting only orders the guard passes keeps the protocol's own books uncrossed on every series,
  whatever order they are placed in.
\<close>

theorem guard_keeps_uncrossed:
  assumes "uncrossed book"
  shows "uncrossed (fold rest_order orders book)"
  using assms
proof (induction orders arbitrary: book)
  case (Cons q qs)
  have "uncrossed (rest_order q book)"
    using Cons.prems
    by (auto simp: rest_order_def crossesProtocol_def crosses_resting_iff uncrossed_def side_of_def kind_sides
        not_le)
  then show ?case by (simp add: Cons.IH)
qed simp

theorem guard_keeps_uncrossed_witness:
  "uncrossed (fold rest_order
     [\<lparr>prLongId = 1, prMaker = ''0xAB'', prKind = ProtocolBid, prPrice = 100\<rparr>,
      \<lparr>prLongId = 1, prMaker = ''0xCD'', prKind = ProtocolAskWrite, prPrice = 99\<rparr>]
     \<lparr>pbAccounts = [''0xab'', ''0xcd''], pbResting = []\<rparr>)"
  by (rule guard_keeps_uncrossed) (simp add: uncrossed_def)

end
