(* ===== verification/PnlLedger.thy ===== *)
theory PnlLedger
  imports JsPrelude Outflow
begin

section \<open>The market maker's realised profit and loss (keeper/src/v2/mm/pnl.ts)\<close>

text \<open>
  The ledger of fills and settlements behind the daily loss stop: average cost per series, the
  realised result by UTC day, the mark-to-market stop, and how a fill is recognised and charged with a
  seller fee. The code mutates a position object that its map already holds; here the updated position
  is written back under the same key.
\<close>

definition MM_BPS :: int where "MM_BPS = 10000"
definition DAY_S :: int where "DAY_S = 86400"

datatype fill_side = Buy | Sell

record ledger_fill =
  lfLongId :: string
  lfSide :: fill_side
  lfUnits :: int
  lfPrice :: usdg6
  lfFeeBps :: bps
  lfPremium :: "usdg6 option"
  lfSellerFee :: "usdg6 option"
  lfAt :: seconds

record ledger_settle =
  lsLongId :: string
  lsIsPut :: bool
  lsStrike :: usdg6
  lsSettlementPrice :: usdg6
  lsExerciseFeeBps :: "bps option"
  lsAt :: seconds

datatype ledger_event = FillEvent ledger_fill | SettleEvent ledger_settle

record position =
  psUnits :: int
  psBasis :: int

definition dayOf :: "seconds \<Rightarrow> int" where
  "dayOf timestamp = timestamp div DAY_S"

definition netSalePrice :: "usdg6 \<Rightarrow> bps \<Rightarrow> usdg6" where
  "netSalePrice price feeBps = (price * (MM_BPS - feeBps)) sdiv MM_BPS"

definition exactNetSalePrice :: "int \<Rightarrow> usdg6 \<Rightarrow> usdg6 \<Rightarrow> usdg6" where
  "exactNetSalePrice units premium sellerFee =
     (if units \<le> 0 \<or> premium \<le> sellerFee then 0 else ((premium - sellerFee) * UNITS_PER_SHARE) sdiv units)"

text \<open>The position after the fill and the realised result. The closing part comes first.\<close>

definition side_sign :: "fill_side \<Rightarrow> int" where
  "side_sign side = (case side of Buy \<Rightarrow> 1 | Sell \<Rightarrow> -1)"

definition applyFill :: "position \<Rightarrow> fill_side \<Rightarrow> int \<Rightarrow> usdg6 \<Rightarrow> position \<times> usdg6" where
  "applyFill position side units price =
     (if units \<le> 0 then (position, 0)
      else let sign = side_sign side;
               held = psUnits position;
               (p1, realised, left) =
                 (if (held < 0 \<and> sign > 0) \<or> (held > 0 \<and> sign < 0) then
                    let size = \<bar>held\<bar>;
                        closed = (if units < size then units else size);
                        costOfClosed = (psBasis position * closed) sdiv size;
                        r = (if sign < 0 then (price * closed - costOfClosed) sdiv UNITS_PER_SHARE
                             else (costOfClosed - price * closed) sdiv UNITS_PER_SHARE);
                        u = held + sign * closed
                    in (\<lparr>psUnits = u, psBasis = (if u = 0 then 0 else psBasis position - costOfClosed)\<rparr>, r, units - closed)
                  else (position, 0, units))
           in (if left > 0 then \<lparr>psUnits = psUnits p1 + sign * left, psBasis = psBasis p1 + price * left\<rparr> else p1, realised))"

definition intrinsicAt :: "bool \<Rightarrow> usdg6 \<Rightarrow> usdg6 \<Rightarrow> usdg6" where
  "intrinsicAt isPut strike settlementPrice =
     (if isPut then (if strike > settlementPrice then strike - settlementPrice else 0)
      else if settlementPrice > strike then settlementPrice - strike else 0)"

definition settlementValue :: "position \<Rightarrow> ledger_settle \<Rightarrow> usdg6" where
  "settlementValue position e =
     (let intrinsic = intrinsicAt (lsIsPut e) (lsStrike e) (lsSettlementPrice e);
          fee = or_else (lsExerciseFeeBps e) 0
      in if psUnits position > 0 \<and> fee > 0 then (intrinsic * (MM_BPS - fee)) sdiv MM_BPS else intrinsic)"

definition applySettlement :: "position \<Rightarrow> usdg6 \<Rightarrow> position \<times> usdg6" where
  "applySettlement position v =
     (if psUnits position = 0 then (position, 0)
      else let size = \<bar>psUnits position\<bar>
           in (\<lparr>psUnits = 0, psBasis = 0\<rparr>,
               if psUnits position > 0 then (v * size - psBasis position) sdiv UNITS_PER_SHARE
               else (psBasis position - v * size) sdiv UNITS_PER_SHARE))"

record ledger =
  lgPositions :: "(string \<times> position) list"
  lgRealisedByDay :: "(int \<times> usdg6) list"

definition fill_price :: "ledger_fill \<Rightarrow> usdg6" where
  "fill_price e =
     (if lfSide e = Buy then lfPrice e
      else case (lfPremium e, lfSellerFee e) of
             (Some premium, Some sellerFee) \<Rightarrow> exactNetSalePrice (lfUnits e) premium sellerFee
           | _ \<Rightarrow> netSalePrice (lfPrice e) (lfFeeBps e))"

definition event_id :: "ledger_event \<Rightarrow> string" where
  "event_id e = (case e of FillEvent f \<Rightarrow> lfLongId f | SettleEvent s \<Rightarrow> lsLongId s)"

definition event_at :: "ledger_event \<Rightarrow> seconds" where
  "event_at e = (case e of FillEvent f \<Rightarrow> lfAt f | SettleEvent s \<Rightarrow> lsAt s)"

definition apply_event :: "position \<Rightarrow> ledger_event \<Rightarrow> position \<times> usdg6" where
  "apply_event p e =
     (case e of FillEvent f \<Rightarrow> applyFill p (lfSide f) (lfUnits f) (fill_price f)
      | SettleEvent s \<Rightarrow> applySettlement p (settlementValue p s))"

definition no_position :: position where "no_position = \<lparr>psUnits = 0, psBasis = 0\<rparr>"

definition replay_step :: "ledger \<Rightarrow> ledger_event \<Rightarrow> ledger" where
  "replay_step l e =
     (let (p, realised) = apply_event (get_or (lgPositions l) (event_id e) no_position) e;
          day = dayOf (event_at e)
      in \<lparr>lgPositions = AList.update (event_id e) p (lgPositions l),
          lgRealisedByDay = AList.update day (get_or (lgRealisedByDay l) day 0 + realised) (lgRealisedByDay l)\<rparr>)"

definition replayLedger :: "ledger_event list \<Rightarrow> ledger" where
  "replayLedger events = foldl replay_step \<lparr>lgPositions = [], lgRealisedByDay = []\<rparr> events"

subsection \<open>The two stops\<close>

record loss_stop =
  stDay :: int
  stRealised :: usdg6
  stLimit :: usdg6
  stTripped :: bool
  stPositions :: "(string \<times> position) list option"

definition lossStop :: "ledger \<Rightarrow> seconds \<Rightarrow> usdg6 \<Rightarrow> loss_stop" where
  "lossStop l now limit =
     (let day = dayOf now; realised = get_or (lgRealisedByDay l) day 0
      in \<lparr>stDay = day, stRealised = realised, stLimit = limit, stTripped = (realised \<le> - limit),
          stPositions = Some (filter (\<lambda>(i, p). psUnits p \<noteq> 0) (lgPositions l))\<rparr>)"

definition unrealisedAt :: "position \<Rightarrow> usdg6 \<Rightarrow> usdg6" where
  "unrealisedAt position mark =
     (if psUnits position = 0 then 0
      else let size = \<bar>psUnits position\<bar>
           in if psUnits position > 0 then (mark * size - psBasis position) sdiv UNITS_PER_SHARE
              else (psBasis position - mark * size) sdiv UNITS_PER_SHARE)"

record mtm_stop =
  mtDay :: int
  mtRealised :: usdg6
  mtUnrealised :: usdg6
  mtTotal :: usdg6
  mtLimit :: usdg6
  mtTripped :: bool
  mtUnmarked :: "string list"

text \<open>A mark that is absent from the map and one stored as \<open>null\<close> both read \<open>None\<close>.\<close>

fun mark_loop :: "(string \<times> usdg6 option) list \<Rightarrow> (string \<times> position) list \<Rightarrow> usdg6 \<times> string list \<Rightarrow> usdg6 \<times> string list" where
  "mark_loop marks [] acc = acc"
| "mark_loop marks ((i, p) # ps) (unrealised, unmarked) =
     (if psUnits p = 0 then mark_loop marks ps (unrealised, unmarked)
      else case get_or marks i None of
             None \<Rightarrow> mark_loop marks ps (unrealised, unmarked @ [i])
           | Some mark \<Rightarrow> mark_loop marks ps (unrealised + unrealisedAt p mark, unmarked))"

definition mtmLossStop :: "loss_stop \<Rightarrow> (string \<times> usdg6 option) list \<Rightarrow> usdg6 \<Rightarrow> mtm_stop" where
  "mtmLossStop stop marks limit =
     (let (unrealised, unmarked) =
            (case stPositions stop of None \<Rightarrow> (0, [''ledger positions not supplied''])
             | Some ps \<Rightarrow> mark_loop marks ps (0, []));
          total = stRealised stop + unrealised
      in \<lparr>mtDay = stDay stop, mtRealised = stRealised stop, mtUnrealised = unrealised, mtTotal = total,
          mtLimit = limit, mtTripped = (limit > 0 \<and> total \<le> - limit), mtUnmarked = unmarked\<rparr>)"

subsection \<open>Fills and the seller fee\<close>

datatype order_kind = Bid | AskResale | AskWrite

record tracked_order =
  tkOrderId :: int
  tkLongId :: int
  tkKind :: order_kind
  tkPrice :: usdg6
  tkUnits :: int
  tkFilledSeen :: int

record order_now =
  onFilled :: int
  onCancelled :: bool
  onUnits :: int
  onValidUntil :: seconds

record fill_seen =
  fsOrderId :: int
  fsLongId :: int
  fsSide :: fill_side
  fsKind :: order_kind
  fsUnits :: int
  fsPrice :: usdg6
  fsClosed :: bool
  fsFilled :: int

record fee_regime =
  frPremiumFeeBps :: bps
  frResaleFeeBps :: bps

record fee_window =
  fwCurrent :: fee_regime
  fwPrevious :: "(fee_regime \<times> seconds) option"
  fwNow :: seconds
  fwDelayS :: seconds
  fwCeilingBps :: bps

definition sellerFeeBpsOf :: "order_kind \<Rightarrow> fee_regime \<Rightarrow> bps" where
  "sellerFeeBpsOf kind regime =
     (if kind = AskWrite then frPremiumFeeBps regime else if kind = AskResale then frResaleFeeBps regime else 0)"

definition conservativeSellerFeeBps :: "order_kind \<Rightarrow> fee_window \<Rightarrow> bps" where
  "conservativeSellerFeeBps kind input =
     (if kind = Bid then 0
      else let current = sellerFeeBpsOf kind (fwCurrent input)
           in case fwPrevious input of
                None \<Rightarrow> max current (fwCeilingBps input)
              | Some (regime, seenAt) \<Rightarrow>
                  if fwNow input - seenAt \<ge> fwDelayS input then max current (fwCeilingBps input)
                  else max current (sellerFeeBpsOf kind regime))"

record fill_log =
  flgOrderId :: int
  flgMaker :: address
  flgUnits :: int
  flgPremium :: usdg6
  flgSellerFee :: usdg6
  flgBlockNumber :: int
  flgLogIndex :: int

text \<open>The template key of a log is determined by, and determines, its block and index: the pair stands for it.\<close>

definition log_key :: "fill_log \<Rightarrow> int \<times> int" where
  "log_key l = (flgBlockNumber l, flgLogIndex l)"

definition newest_first :: "fill_log \<Rightarrow> fill_log \<Rightarrow> int" where
  "newest_first a b =
     (if flgBlockNumber a = flgBlockNumber b then flgLogIndex b - flgLogIndex a
      else if flgBlockNumber a > flgBlockNumber b then -1 else 1)"

record matched_logs =
  mlSum :: int
  mlPremium :: usdg6
  mlSellerFee :: usdg6
  mlLogs :: int

fun match_loop :: "int \<Rightarrow> fill_log list \<Rightarrow> matched_logs \<Rightarrow> matched_logs" where
  "match_loop units [] acc = acc"
| "match_loop units (l # ls) acc =
     (if mlSum acc \<ge> units then acc
      else match_loop units ls
             \<lparr>mlSum = mlSum acc + flgUnits l, mlPremium = mlPremium acc + flgPremium l,
              mlSellerFee = mlSellerFee acc + flgSellerFee l, mlLogs = mlLogs acc + 1\<rparr>)"

definition unique_logs :: "fill_log list \<Rightarrow> fill_log list" where
  "unique_logs logs = map snd (foldl (\<lambda>m l. AList.update (log_key l) l m) [] logs)"

text \<open>The premium, the seller fee and the number of logs, or \<open>None\<close>.\<close>

definition matchFillLogs :: "int \<Rightarrow> fill_log list \<Rightarrow> (usdg6 \<times> usdg6 \<times> int) option" where
  "matchFillLogs units logs =
     (if units \<le> 0 then None
      else let r = match_loop units (js_sort newest_first (unique_logs logs))
                     \<lparr>mlSum = 0, mlPremium = 0, mlSellerFee = 0, mlLogs = 0\<rparr>
           in if mlSum r = units then Some (mlPremium r, mlSellerFee r, mlLogs r) else None)"

definition fillOf :: "tracked_order \<Rightarrow> order_now \<Rightarrow> seconds \<Rightarrow> fill_seen" where
  "fillOf tracked now head =
     (let delta = (if onFilled now > tkFilledSeen tracked then onFilled now - tkFilledSeen tracked else 0)
      in \<lparr>fsOrderId = tkOrderId tracked, fsLongId = tkLongId tracked,
          fsSide = (if tkKind tracked = Bid then Buy else Sell), fsKind = tkKind tracked, fsUnits = delta,
          fsPrice = tkPrice tracked,
          fsClosed = (onCancelled now \<or> onFilled now \<ge> onUnits now
            \<or> (head \<ge> onValidUntil now \<and> tkKind tracked = AskWrite)),
          fsFilled = onFilled now\<rparr>)"

subsection \<open>One event\<close>

text \<open>What a position carries: what was paid for a long, less what was received for a short.\<close>

definition carried :: "position \<Rightarrow> int" where
  "carried p = (if 0 \<le> psUnits p then psBasis p else - psBasis p)"

definition pos_ok :: "position \<Rightarrow> bool" where
  "pos_ok p = (psUnits p = 0 \<longrightarrow> psBasis p = 0)"

lemma no_position_ok [simp]: "pos_ok no_position" "carried no_position = 0" "psUnits no_position = 0"
  by (simp_all add: no_position_def pos_ok_def carried_def)

text \<open>The cash an event moves, in hundredths: a purchase pays, a sale receives, a settlement pays a long its value.\<close>

definition event_cash :: "position \<Rightarrow> ledger_event \<Rightarrow> int" where
  "event_cash p e =
     (case e of
        FillEvent f \<Rightarrow> if lfUnits f \<le> 0 then 0 else - side_sign (lfSide f) * fill_price f * lfUnits f
      | SettleEvent s \<Rightarrow> settlementValue p s * psUnits p)"

definition held_after :: "int \<Rightarrow> ledger_event \<Rightarrow> int" where
  "held_after held e =
     (case e of FillEvent f \<Rightarrow> held + side_sign (lfSide f) * max 0 (lfUnits f) | SettleEvent s \<Rightarrow> 0)"

lemma applyFill_units: "psUnits (fst (applyFill p side u price)) = psUnits p + side_sign side * max 0 u"
  by (auto simp: applyFill_def Let_def side_sign_def split: fill_side.splits)

lemma apply_event_units: "psUnits (fst (apply_event p e)) = held_after (psUnits p) e"
  by (auto simp: apply_event_def held_after_def applyFill_units applySettlement_def Let_def split: ledger_event.splits)

lemma hundred_error: "\<bar>UNITS_PER_SHARE * (a sdiv UNITS_PER_SHARE) - a\<bar> < UNITS_PER_SHARE" for a :: int
  by (rule sdiv_error) (simp add: UNITS_PER_SHARE_def)

text \<open>
  One fill: a hundred times the realised result is the cash moved plus what the position carries more
  than before, up to the rounding of one division.
\<close>

lemma applyFill_cash:
  assumes ok: "pos_ok p" and u: "0 < u"
  shows "pos_ok (fst (applyFill p side u price))
    \<and> \<bar>UNITS_PER_SHARE * snd (applyFill p side u price)
        - (- side_sign side * price * u + carried (fst (applyFill p side u price)) - carried p)\<bar> < UNITS_PER_SHARE"
proof -
  define cost where "cost = (psBasis p * (if u < \<bar>psUnits p\<bar> then u else \<bar>psUnits p\<bar>)) sdiv \<bar>psUnits p\<bar>"
  have all: "cost = psBasis p" if "psUnits p \<noteq> 0" "\<not> u < \<bar>psUnits p\<bar>"
    using that by (simp add: cost_def)
  consider (flat) "psUnits p = 0" | (long) "0 < psUnits p" | (short) "psUnits p < 0" by linarith
  then show ?thesis
  proof cases
    case flat
    then show ?thesis using ok u
      by (cases side) (auto simp: applyFill_def side_sign_def pos_ok_def carried_def UNITS_PER_SHARE_def)
  next
    case long
    show ?thesis
    proof (cases side)
      case Buy
      then show ?thesis using long u
        by (auto simp: applyFill_def side_sign_def pos_ok_def carried_def UNITS_PER_SHARE_def)
    next
      case Sell
      have e: "\<bar>UNITS_PER_SHARE * ((price * (if u < psUnits p then u else psUnits p) - cost) sdiv UNITS_PER_SHARE)
          - (price * (if u < psUnits p then u else psUnits p) - cost)\<bar> < UNITS_PER_SHARE" by (rule hundred_error)
      show ?thesis using Sell long u all e
        by (auto simp: applyFill_def Let_def side_sign_def pos_ok_def carried_def cost_def algebra_simps split: if_splits)
    qed
  next
    case short
    show ?thesis
    proof (cases side)
      case Sell
      then show ?thesis using short u
        by (auto simp: applyFill_def side_sign_def pos_ok_def carried_def UNITS_PER_SHARE_def algebra_simps)
    next
      case Buy
      have e: "\<bar>UNITS_PER_SHARE * ((cost - price * (if u < - psUnits p then u else - psUnits p)) sdiv UNITS_PER_SHARE)
          - (cost - price * (if u < - psUnits p then u else - psUnits p))\<bar> < UNITS_PER_SHARE" by (rule hundred_error)
      show ?thesis using Buy short u all e
        by (auto simp: applyFill_def Let_def side_sign_def pos_ok_def carried_def cost_def algebra_simps split: if_splits)
    qed
  qed
qed

lemma apply_event_cash:
  assumes ok: "pos_ok p"
  shows "pos_ok (fst (apply_event p e))
    \<and> \<bar>UNITS_PER_SHARE * snd (apply_event p e) - (event_cash p e + carried (fst (apply_event p e)) - carried p)\<bar>
        < UNITS_PER_SHARE"
proof (cases e)
  case (FillEvent f)
  show ?thesis
  proof (cases "lfUnits f \<le> 0")
    case True
    then show ?thesis using ok FillEvent
      by (simp add: apply_event_def event_cash_def applyFill_def UNITS_PER_SHARE_def)
  next
    case False
    then show ?thesis using applyFill_cash [OF ok, of "lfUnits f" "lfSide f" "fill_price f"] FillEvent
      by (simp add: apply_event_def event_cash_def)
  qed
next
  case (SettleEvent s)
  let ?v = "settlementValue p s"
  have "\<bar>UNITS_PER_SHARE * ((?v * \<bar>psUnits p\<bar> - psBasis p) sdiv UNITS_PER_SHARE) - (?v * \<bar>psUnits p\<bar> - psBasis p)\<bar> < UNITS_PER_SHARE"
    "\<bar>UNITS_PER_SHARE * ((psBasis p - ?v * \<bar>psUnits p\<bar>) sdiv UNITS_PER_SHARE) - (psBasis p - ?v * \<bar>psUnits p\<bar>)\<bar> < UNITS_PER_SHARE"
    by (rule hundred_error)+
  then show ?thesis using SettleEvent ok
    by (auto simp: apply_event_def event_cash_def applySettlement_def Let_def pos_ok_def carried_def UNITS_PER_SHARE_def
        split: if_splits)
qed

subsection \<open>A ledger of events\<close>

text \<open>The cash of a list of events, from the units held in each series; the basis plays no part in it.\<close>

fun cash_moved :: "(string \<Rightarrow> int) \<Rightarrow> ledger_event list \<Rightarrow> int" where
  "cash_moved held [] = 0"
| "cash_moved held (e # es) =
     event_cash \<lparr>psUnits = held (event_id e), psBasis = 0\<rparr> e
     + cash_moved (held(event_id e := held_after (held (event_id e)) e)) es"

lemma event_cash_units: "psUnits p = psUnits q \<Longrightarrow> event_cash p e = event_cash q e"
  by (simp add: event_cash_def settlementValue_def split: ledger_event.splits)

definition held_in :: "ledger \<Rightarrow> string \<Rightarrow> int" where
  "held_in l i = psUnits (get_or (lgPositions l) i no_position)"

definition carried_in :: "ledger \<Rightarrow> int" where
  "carried_in l = sum_list (map (\<lambda>kv. carried (snd kv)) (lgPositions l))"

definition realised_in :: "ledger \<Rightarrow> int" where
  "realised_in l = sum_list (map snd (lgRealisedByDay l))"

definition ledger_ok :: "ledger \<Rightarrow> bool" where
  "ledger_ok l = (distinct (map fst (lgPositions l)) \<and> distinct (map fst (lgRealisedByDay l))
     \<and> (\<forall>i. pos_ok (get_or (lgPositions l) i no_position)))"

abbreviation result_of :: "ledger \<Rightarrow> ledger_event \<Rightarrow> usdg6" where
  "result_of l e \<equiv> snd (apply_event (get_or (lgPositions l) (event_id e) no_position) e)"

lemma replay_step_ok: "ledger_ok l \<Longrightarrow> ledger_ok (replay_step l e)"
  using apply_event_cash [of "get_or (lgPositions l) (event_id e) no_position" e]
  by (auto simp: ledger_ok_def replay_step_def Let_def case_prod_unfold distinct_keys_update)

lemma replay_step_held: "held_in (replay_step l e) = (held_in l)(event_id e := held_after (held_in l (event_id e)) e)"
  by (rule ext) (simp add: held_in_def replay_step_def case_prod_unfold Let_def apply_event_units)

lemma replay_step_realised: "ledger_ok l \<Longrightarrow> realised_in (replay_step l e) = realised_in l + result_of l e"
  using sum_values_update [of "lgRealisedByDay l" "\<lambda>x. x" 0]
  by (simp add: ledger_ok_def realised_in_def replay_step_def case_prod_unfold Let_def)

lemma replay_step_carried:
  "ledger_ok l \<Longrightarrow> carried_in (replay_step l e) = carried_in l
     + carried (fst (apply_event (get_or (lgPositions l) (event_id e) no_position) e))
     - carried (get_or (lgPositions l) (event_id e) no_position)"
  using sum_values_update [of "lgPositions l" carried no_position]
  by (simp add: ledger_ok_def carried_in_def replay_step_def case_prod_unfold Let_def)

lemma replay_cash:
  "ledger_ok l \<Longrightarrow>
     \<bar>UNITS_PER_SHARE * (realised_in (foldl replay_step l es) - realised_in l)
        - (cash_moved (held_in l) es + carried_in (foldl replay_step l es) - carried_in l)\<bar>
       \<le> (UNITS_PER_SHARE - 1) * int (length es)"
proof (induction es arbitrary: l)
  case (Cons e es)
  let ?p = "get_or (lgPositions l) (event_id e) no_position" and ?l = "replay_step l e"
  let ?final = "foldl replay_step ?l es"
  have ok: "ledger_ok ?l" and p: "pos_ok ?p" using Cons.prems by (rule replay_step_ok) (use Cons.prems in \<open>simp add: ledger_ok_def\<close>)
  have c: "event_cash \<lparr>psUnits = held_in l (event_id e), psBasis = 0\<rparr> e = event_cash ?p e"
    by (rule event_cash_units) (simp add: held_in_def)
  have "\<bar>UNITS_PER_SHARE * result_of l e - (event_cash ?p e + carried (fst (apply_event ?p e)) - carried ?p)\<bar>
      \<le> UNITS_PER_SHARE - 1"
    using apply_event_cash [OF p, of e] by simp
  moreover have "\<bar>UNITS_PER_SHARE * (realised_in ?final - realised_in ?l)
      - (cash_moved (held_in ?l) es + carried_in ?final - carried_in ?l)\<bar> \<le> (UNITS_PER_SHARE - 1) * int (length es)"
    by (rule Cons.IH [OF ok])
  ultimately show ?case
    by (simp add: c replay_step_held replay_step_realised [OF Cons.prems] replay_step_carried [OF Cons.prems] algebra_simps)
qed simp

lemma empty_ledger [simp]:
  "ledger_ok \<lparr>lgPositions = [], lgRealisedByDay = []\<rparr>" "realised_in \<lparr>lgPositions = [], lgRealisedByDay = []\<rparr> = 0"
  "carried_in \<lparr>lgPositions = [], lgRealisedByDay = []\<rparr> = 0" "held_in \<lparr>lgPositions = [], lgRealisedByDay = []\<rparr> = (\<lambda>_. 0)"
  by (auto simp: ledger_ok_def realised_in_def carried_in_def held_in_def)

text \<open>
  C6: the ledger books the cash. Over any list of fills and settlements, a hundred times the realised
  result of all days is the cash that moved (purchases out, net sales and settlement payouts in, in
  hundredths) plus what the open positions still carry, up to 99 hundredths of rounding per event.
\<close>

theorem replayLedger_books_cash:
  "\<bar>UNITS_PER_SHARE * realised_in (replayLedger es) - (cash_moved (\<lambda>_. 0) es + carried_in (replayLedger es))\<bar>
     \<le> (UNITS_PER_SHARE - 1) * int (length es)"
  using replay_cash [of "\<lparr>lgPositions = [], lgRealisedByDay = []\<rparr>" es] by (simp add: replayLedger_def)

text \<open>The open position of a series is what its events bought less what they sold, since its settlement.\<close>

lemma replay_held: "held_in (foldl replay_step l es) i = foldl held_after (held_in l i) (filter (\<lambda>e. event_id e = i) es)"
  by (induction es arbitrary: l) (auto simp: replay_step_held)

text \<open>The results of the events, each with the day it belongs to.\<close>

fun day_results :: "ledger \<Rightarrow> ledger_event list \<Rightarrow> (int \<times> usdg6) list" where
  "day_results l [] = []"
| "day_results l (e # es) = (dayOf (event_at e), result_of l e) # day_results (replay_step l e) es"

definition day_sum :: "int \<Rightarrow> (int \<times> usdg6) list \<Rightarrow> usdg6" where
  "day_sum d rs = sum_list (map snd (filter (\<lambda>r. fst r = d) rs))"

lemma replay_day:
  "get_or (lgRealisedByDay (foldl replay_step l es)) d 0 = get_or (lgRealisedByDay l) d 0 + day_sum d (day_results l es)"
proof (induction es arbitrary: l)
  case (Cons e es)
  show ?case
    by (simp add: Cons) (simp add: replay_step_def day_sum_def case_prod_unfold Let_def)
qed (simp add: day_sum_def)

lemma open_positions:
  "distinct (map fst ps) \<Longrightarrow>
     psUnits (get_or (filter (\<lambda>(i, p). psUnits p \<noteq> 0) ps) i no_position) = psUnits (get_or ps i no_position)"
proof (induction ps)
  case (Cons kv ps)
  obtain k p where kv: "kv = (k, p)" by (cases kv)
  have "k \<notin> fst ` set (filter (\<lambda>(i, p). psUnits p \<noteq> 0) ps)" using Cons.prems kv by auto
  then have "get_or (filter (\<lambda>(i, p). psUnits p \<noteq> 0) ps) k no_position = no_position" by (rule get_or_absent)
  then show ?case using Cons kv by (cases "i = k") (simp_all add: get_or_def no_position_def)
qed simp

text \<open>
  the loss stop trips exactly when the results of the events of the head's own day add up to the
  limit or below, and it hands on exactly the positions whose events left units open.
\<close>

theorem lossStop_exact:
  "stTripped (lossStop (replayLedger es) now limit) =
     (day_sum (dayOf now) (day_results \<lparr>lgPositions = [], lgRealisedByDay = []\<rparr> es) \<le> - limit)
   \<and> stRealised (lossStop (replayLedger es) now limit) =
       day_sum (dayOf now) (day_results \<lparr>lgPositions = [], lgRealisedByDay = []\<rparr> es)
   \<and> (case stPositions (lossStop (replayLedger es) now limit) of None \<Rightarrow> False
      | Some ps \<Rightarrow> psUnits (get_or ps i no_position) = foldl held_after 0 (filter (\<lambda>e. event_id e = i) es))"
proof -
  let ?l = "replayLedger es"
  have "ledger_ok (foldl replay_step l es)" if "ledger_ok l" for l
    using that by (induction es arbitrary: l) (auto intro: replay_step_ok)
  then have "ledger_ok ?l" by (simp add: replayLedger_def)
  then have d: "distinct (map fst (lgPositions ?l))" by (simp add: ledger_ok_def)
  from open_positions [OF d] have "psUnits (get_or (filter (\<lambda>(i, p). psUnits p \<noteq> 0) (lgPositions ?l)) i no_position) = held_in ?l i"
    by (simp add: held_in_def)
  then show ?thesis by (simp add: lossStop_def Let_def replayLedger_def replay_day replay_held)
qed

subsection \<open>The mark-to-market stop\<close>

lemma unrealisedAt_settles: "unrealisedAt p mark = snd (applySettlement p mark)"
  by (simp add: unrealisedAt_def applySettlement_def Let_def)

definition marked :: "(string \<times> usdg6 option) list \<Rightarrow> string \<times> position \<Rightarrow> bool" where
  "marked marks kv = (psUnits (snd kv) \<noteq> 0 \<and> get_or marks (fst kv) None \<noteq> None)"

definition closing_result :: "(string \<times> usdg6 option) list \<Rightarrow> string \<times> position \<Rightarrow> usdg6" where
  "closing_result marks kv = snd (applySettlement (snd kv) (the (get_or marks (fst kv) None)))"

lemma mark_loop_sums:
  "mark_loop marks ps (s, us) =
     (s + sum_list (map (closing_result marks) (filter (marked marks) ps)),
      us @ map fst (filter (\<lambda>kv. psUnits (snd kv) \<noteq> 0 \<and> \<not> marked marks kv) ps))"
proof (induction ps arbitrary: s us)
  case (Cons kv ps)
  obtain i p where kv: "kv = (i, p)" by (cases kv)
  show ?case
    by (cases "get_or marks i None") (auto simp: kv Cons marked_def closing_result_def unrealisedAt_settles)
qed simp

text \<open>
  the mark-to-market stop trips exactly when the day's realised result, plus what closing every
  marked open position at its mark would realise, is at the limit or below; every open position
  without a mark is named, and a limit of zero or less is off.
\<close>

theorem mtmLossStop_exact:
  "mtTotal (mtmLossStop (lossStop l now stopLimit) marks limit) =
     stRealised (lossStop l now stopLimit) + sum_list (map (closing_result marks) (filter (marked marks) (lgPositions l)))
   \<and> mtUnmarked (mtmLossStop (lossStop l now stopLimit) marks limit) =
       map fst (filter (\<lambda>kv. psUnits (snd kv) \<noteq> 0 \<and> \<not> marked marks kv) (lgPositions l))
   \<and> mtTripped (mtmLossStop (lossStop l now stopLimit) marks limit) =
       (0 < limit \<and> mtTotal (mtmLossStop (lossStop l now stopLimit) marks limit) \<le> - limit)"
proof -
  have "filter (marked marks) (filter (\<lambda>(i, p). psUnits p \<noteq> 0) (lgPositions l)) = filter (marked marks) (lgPositions l)"
    "filter (\<lambda>kv. psUnits (snd kv) \<noteq> 0 \<and> \<not> marked marks kv) (filter (\<lambda>(i, p). psUnits p \<noteq> 0) (lgPositions l))
       = filter (\<lambda>kv. psUnits (snd kv) \<noteq> 0 \<and> \<not> marked marks kv) (lgPositions l)"
    by (auto simp: marked_def intro!: filter_cong)
  then show ?thesis by (simp add: mtmLossStop_def lossStop_def Let_def mark_loop_sums)
qed

subsection \<open>The seller fee a fill is booked at\<close>

text \<open>
  The fee regimes of the book in time: the one in effect before the first change, and every change with
  the time it takes effect. A change is scheduled a delay ahead, in one pending slot, so two changes
  take effect at least the delay apart.
\<close>

fun regime_at :: "fee_regime \<Rightarrow> (seconds \<times> fee_regime) list \<Rightarrow> seconds \<Rightarrow> fee_regime" where
  "regime_at base [] t = base"
| "regime_at base ((effectiveAt, r) # cs) t = (if effectiveAt \<le> t then regime_at r cs t else base)"

definition spaced :: "seconds \<Rightarrow> (seconds \<times> fee_regime) list \<Rightarrow> bool" where
  "spaced d cs = sorted_wrt (\<lambda>a b. fst a + d \<le> fst b) cs"

lemma regime_before: "list_all (\<lambda>c. t < fst c) cs \<Longrightarrow> regime_at base cs t = base"
  by (cases cs) auto

lemma regime_between:
  assumes "p \<le> t" "t \<le> n" "n - p < d"
  shows "spaced d cs \<Longrightarrow> regime_at base cs t = regime_at base cs p \<or> regime_at base cs t = regime_at base cs n"
proof (induction cs arbitrary: base)
  case (Cons c cs)
  obtain a r where c: "c = (a, r)" by (cases c)
  have sp: "spaced d cs" "\<And>x. x \<in> set cs \<Longrightarrow> a + d \<le> fst x" using Cons.prems by (auto simp: c spaced_def)
  consider "t < a" | "a \<le> p" | "p < a" "a \<le> t" by linarith
  then show ?case
  proof cases
    case 3
    then have "list_all (\<lambda>x. n < fst x) cs" using sp(2) assms by (fastforce simp: list_all_iff)
    moreover from this have "list_all (\<lambda>x. t < fst x) cs" using assms(2) by (auto simp: list_all_iff)
    ultimately show ?thesis using 3 assms by (simp add: c regime_before)
  qed (use Cons.IH [OF sp(1)] assms in \<open>auto simp: c\<close>)
qed simp

lemma regime_ceiling:
  "list_all (\<lambda>c. sellerFeeBpsOf kind (snd c) \<le> m) cs \<Longrightarrow> sellerFeeBpsOf kind base \<le> m \<Longrightarrow>
     sellerFeeBpsOf kind (regime_at base cs t) \<le> m"
  by (induction base cs t rule: regime_at.induct) auto

lemma netSalePrice_antimono: "0 \<le> price \<Longrightarrow> f \<le> g \<Longrightarrow> g \<le> MM_BPS \<Longrightarrow> netSalePrice price g \<le> netSalePrice price f"
  unfolding netSalePrice_def by (intro sdiv_mono1) (auto intro!: mult_left_mono mult_nonneg_nonneg simp: MM_BPS_def)

lemma conservative_ge:
  assumes "spaced delay changes" and "list_all (\<lambda>c. sellerFeeBpsOf kind (snd c) \<le> maxFee) ((0, base) # changes)"
    and "\<And>s. previous = Some s \<Longrightarrow> s \<le> t" and "t \<le> now"
  shows "sellerFeeBpsOf kind (regime_at base changes t) \<le> conservativeSellerFeeBps kind
    \<lparr>fwCurrent = regime_at base changes now, fwPrevious = map_option (\<lambda>s. (regime_at base changes s, s)) previous,
     fwNow = now, fwDelayS = delay, fwCeilingBps = maxFee\<rparr>"
proof (cases "kind = Bid")
  case True
  then show ?thesis by (simp add: conservativeSellerFeeBps_def sellerFeeBpsOf_def)
next
  case False
  have le: "sellerFeeBpsOf kind (regime_at base changes t) \<le> maxFee"
    using assms(2) by (intro regime_ceiling) auto
  show ?thesis
  proof (cases previous)
    case None
    then show ?thesis using le False by (simp add: conservativeSellerFeeBps_def Let_def)
  next
    case (Some s)
    show ?thesis
    proof (cases "now - s \<ge> delay")
      case True
      then show ?thesis using le False Some by (simp add: conservativeSellerFeeBps_def Let_def)
    next
      case short: False
      then have "regime_at base changes t = regime_at base changes s \<or> regime_at base changes t = regime_at base changes now"
        using assms Some by (intro regime_between) auto
      then show ?thesis using False Some short by (auto simp: conservativeSellerFeeBps_def Let_def)
    qed
  qed
qed

text \<open>
  a sale whose logs are missing is never booked above what it was paid. For a fill at any time
  between the previous look and this one, under any history of fee changes a delay apart and below the
  compiled ceiling, the booked price per share is at most the price net of the fee then in effect.
\<close>

theorem conservative_booking:
  assumes "spaced delay changes" and "list_all (\<lambda>c. sellerFeeBpsOf kind (snd c) \<le> maxFee) ((0, base) # changes)"
    and "\<And>s. previous = Some s \<Longrightarrow> s \<le> t" and "t \<le> now" and "0 \<le> price" and "0 \<le> maxFee" "maxFee \<le> MM_BPS"
  shows "netSalePrice price (conservativeSellerFeeBps kind
      \<lparr>fwCurrent = regime_at base changes now, fwPrevious = map_option (\<lambda>s. (regime_at base changes s, s)) previous,
       fwNow = now, fwDelayS = delay, fwCeilingBps = maxFee\<rparr>)
    \<le> netSalePrice price (sellerFeeBpsOf kind (regime_at base changes t))"
proof (rule netSalePrice_antimono)
  have "sellerFeeBpsOf kind (regime_at base changes s) \<le> maxFee" for s
    using assms(2) by (intro regime_ceiling) auto
  then show "conservativeSellerFeeBps kind
      \<lparr>fwCurrent = regime_at base changes now, fwPrevious = map_option (\<lambda>s. (regime_at base changes s, s)) previous,
       fwNow = now, fwDelayS = delay, fwCeilingBps = maxFee\<rparr> \<le> MM_BPS"
    using assms(6,7) by (auto simp: conservativeSellerFeeBps_def Let_def split: option.splits intro: order_trans)
qed (use conservative_ge [OF assms(1-4)] assms(5) in auto)

theorem conservative_booking_witness:
  "netSalePrice 5000 (conservativeSellerFeeBps AskWrite
      \<lparr>fwCurrent = regime_at \<lparr>frPremiumFeeBps = 300, frResaleFeeBps = 0\<rparr> [(500, \<lparr>frPremiumFeeBps = 100, frResaleFeeBps = 0\<rparr>)] 600,
       fwPrevious = map_option (\<lambda>s. (regime_at \<lparr>frPremiumFeeBps = 300, frResaleFeeBps = 0\<rparr>
          [(500, \<lparr>frPremiumFeeBps = 100, frResaleFeeBps = 0\<rparr>)] s, s)) (Some 400),
       fwNow = 600, fwDelayS = 172800, fwCeilingBps = 1000\<rparr>)
    \<le> netSalePrice 5000 (sellerFeeBpsOf AskWrite (regime_at \<lparr>frPremiumFeeBps = 300, frResaleFeeBps = 0\<rparr>
          [(500, \<lparr>frPremiumFeeBps = 100, frResaleFeeBps = 0\<rparr>)] 450))"
  by (rule conservative_booking) (simp_all add: spaced_def sellerFeeBpsOf_def MM_BPS_def)

subsection \<open>The logs of a fill\<close>

lemma unique_logs_distinct:
  "distinct (map log_key logs) \<Longrightarrow> unique_logs logs = logs"
proof -
  have "foldl (\<lambda>m l. AList.update (log_key l) l m) m ls = m @ map (\<lambda>l. (log_key l, l)) ls"
    if "distinct (map fst m @ map log_key ls)" for m ls
    using that
  proof (induction ls arbitrary: m)
    case (Cons l ls)
    then have "log_key l \<notin> fst ` set m" by auto
    then have "AList.update (log_key l) l m = m @ [(log_key l, l)]" by (induction m) auto
    then show ?case using Cons.prems Cons.IH [of "m @ [(log_key l, l)]"] by simp
  qed simp
  from this [of "[]" logs] show "distinct (map log_key logs) \<Longrightarrow> ?thesis" by (simp add: unique_logs_def comp_def)
qed

interpretation log_order: comparator newest_first
  by unfold_locales (auto simp: newest_first_def split: if_splits)

lemma newest_first_antisym: "newest_first a b \<le> 0 \<Longrightarrow> newest_first b a \<le> 0 \<Longrightarrow> log_key a = log_key b"
  by (auto simp: newest_first_def log_key_def split: if_splits)

lemma match_loop_prefix:
  "list_all (\<lambda>l. 0 < flgUnits l) ls \<Longrightarrow> mlSum acc + sum_list (map flgUnits ls) = units \<Longrightarrow>
     match_loop units (ls @ rest) acc =
       \<lparr>mlSum = units, mlPremium = mlPremium acc + sum_list (map flgPremium ls),
        mlSellerFee = mlSellerFee acc + sum_list (map flgSellerFee ls), mlLogs = mlLogs acc + int (length ls)\<rparr>"
proof (induction ls arbitrary: acc)
  case Nil
  then show ?case by (cases rest) simp_all
next
  case (Cons l ls)
  have "0 \<le> sum_list (map flgUnits ls)" using Cons.prems(1) by (intro sum_list_nonneg_map) (auto simp: list_all_iff)
  then have "mlSum acc < units" using Cons.prems by simp
  then show ?case using Cons by (simp add: add.assoc)
qed

text \<open>
  the logs of a fill are recognised exactly. When the range holds the logs of the fill and any
  older ones of the order, in any order, the match is the sum of the fill's own premiums and fees.
\<close>

theorem matchFillLogs_exact:
  assumes "mset logs = mset (older @ newer)" and "distinct (map log_key logs)"
    and "list_all (\<lambda>a. list_all (\<lambda>b. newest_first a b < 0) older) newer"
    and "list_all (\<lambda>l. 0 < flgUnits l) newer" and "newer \<noteq> []" and "units = sum_list (map flgUnits newer)"
  shows "matchFillLogs units logs =
    Some (sum_list (map flgPremium newer), sum_list (map flgSellerFee newer), int (length newer))"
proof -
  let ?new = "js_sort newest_first newer" and ?old = "js_sort newest_first older"
  have sum: "sum_list (map f ?new) = sum_list (map f newer)" for f :: "fill_log \<Rightarrow> int"
    by (metis mset_js_sort mset_map sum_mset_sum_list)
  have "sorted_wrt (\<lambda>a b. newest_first a b \<le> 0) (?new @ ?old)"
    using assms(3) by (auto simp: list_all_iff sorted_wrt_append log_order.sort_sorted intro: less_imp_le)
  moreover have "a = b" if "a \<in> set logs" "b \<in> set logs" "log_key a = log_key b" for a b
    using that assms(2) by (auto simp: distinct_map inj_on_def)
  ultimately have "js_sort newest_first logs = ?new @ ?old"
    by (intro sorted_wrt_unique [of "\<lambda>a b. newest_first a b \<le> 0"] log_order.sort_sorted)
      (auto simp: assms(1) dest: newest_first_antisym)
  moreover have "0 < units"
    using assms(4-6) sum_list_nonneg_map [of "tl newer" flgUnits]
    by (cases newer) (auto simp: list_all_iff less_imp_le intro!: add_pos_nonneg)
  ultimately show ?thesis
    using assms(4,6) match_loop_prefix [of ?new "\<lparr>mlSum = 0, mlPremium = 0, mlSellerFee = 0, mlLogs = 0\<rparr>" units ?old]
    by (simp add: matchFillLogs_def unique_logs_distinct [OF assms(2)] sum list_all_iff)
qed

theorem matchFillLogs_exact_witness:
  "matchFillLogs 30
     [\<lparr>flgOrderId = 1, flgMaker = ''v'', flgUnits = 20, flgPremium = 200, flgSellerFee = 2, flgBlockNumber = 9, flgLogIndex = 4\<rparr>,
      \<lparr>flgOrderId = 1, flgMaker = ''v'', flgUnits = 50, flgPremium = 500, flgSellerFee = 5, flgBlockNumber = 7, flgLogIndex = 1\<rparr>,
      \<lparr>flgOrderId = 1, flgMaker = ''v'', flgUnits = 10, flgPremium = 100, flgSellerFee = 1, flgBlockNumber = 9, flgLogIndex = 3\<rparr>]
   = Some (300, 3, 2)"
  using matchFillLogs_exact [of
      "[\<lparr>flgOrderId = 1, flgMaker = ''v'', flgUnits = 20, flgPremium = 200, flgSellerFee = 2, flgBlockNumber = 9, flgLogIndex = 4\<rparr>,
        \<lparr>flgOrderId = 1, flgMaker = ''v'', flgUnits = 50, flgPremium = 500, flgSellerFee = 5, flgBlockNumber = 7, flgLogIndex = 1\<rparr>,
        \<lparr>flgOrderId = 1, flgMaker = ''v'', flgUnits = 10, flgPremium = 100, flgSellerFee = 1, flgBlockNumber = 9, flgLogIndex = 3\<rparr>]"
      "[\<lparr>flgOrderId = 1, flgMaker = ''v'', flgUnits = 50, flgPremium = 500, flgSellerFee = 5, flgBlockNumber = 7, flgLogIndex = 1\<rparr>]"
      "[\<lparr>flgOrderId = 1, flgMaker = ''v'', flgUnits = 20, flgPremium = 200, flgSellerFee = 2, flgBlockNumber = 9, flgLogIndex = 4\<rparr>,
        \<lparr>flgOrderId = 1, flgMaker = ''v'', flgUnits = 10, flgPremium = 100, flgSellerFee = 1, flgBlockNumber = 9, flgLogIndex = 3\<rparr>]" 30]
  by (simp add: newest_first_def log_key_def)

subsection \<open>Observing an order\<close>

text \<open>The bot looks again and again, each time from the \<open>filled\<close> of the look before.\<close>

fun observe :: "tracked_order \<Rightarrow> order_now list \<Rightarrow> seconds \<Rightarrow> fill_seen list" where
  "observe t [] head = []"
| "observe t (n # ns) head =
     (let f = fillOf t n head in f # observe (t\<lparr>tkFilledSeen := fsFilled f\<rparr>) ns head)"

text \<open>
  no fill is booked twice or missed: over any series of looks at an order whose \<open>filled\<close> only grows,
  the units booked add up to the growth between the first look and the last.
\<close>

theorem observe_counts_once:
  assumes "sorted_wrt (\<lambda>a b. onFilled a \<le> onFilled b) ns" and "ns \<noteq> []" and "tkFilledSeen t \<le> onFilled (hd ns)"
  shows "sum_list (map fsUnits (observe t ns head)) = onFilled (last ns) - tkFilledSeen t"
  using assms
proof (induction ns arbitrary: t)
  case (Cons n ns)
  note IH = Cons.IH and prems = Cons.prems
  show ?case
  proof (cases ns)
    case Nil
    with Cons.prems show ?thesis by (simp add: fillOf_def)
  next
    case (Cons m ms)
    have u: "fsUnits (fillOf t n head) = onFilled n - tkFilledSeen t" "fsFilled (fillOf t n head) = onFilled n"
      using prems(3) by (simp_all add: fillOf_def)
    have "sum_list (map fsUnits (observe (t\<lparr>tkFilledSeen := onFilled n\<rparr>) ns head)) = onFilled (last ns) - onFilled n"
      using IH [of "t\<lparr>tkFilledSeen := onFilled n\<rparr>"] prems(1) Cons by simp
    moreover have "sum_list (map fsUnits (observe t (n # ns) head)) = fsUnits (fillOf t n head)
        + sum_list (map fsUnits (observe (t\<lparr>tkFilledSeen := onFilled n\<rparr>) ns head))" by (simp add: Let_def u(2))
    moreover have "onFilled (last (n # ns)) = onFilled (last ns)" using Cons by simp
    ultimately show ?thesis using u(1) by linarith
  qed
qed simp

end
