(* ===== verification/JsFloat.thy ===== *)
theory JsFloat
  imports JsPrelude "HOL-Library.Log_Nat"
begin

section \<open>IEEE doubles\<close>

text \<open>
  JavaScript's \<open>number\<close>, for the few places that compute with fractions: a finite double is the
  rational it stands for, every operation rounds its exact result to 53 bits, ties to even, with
  gradual underflow and overflow to infinity. The two zeros are one value here: no modelled code
  divides by a zero it computed or looks at a sign of zero.
\<close>

datatype double = Fin rat | PosInf | NegInf | NaN

definition round_even :: "rat \<Rightarrow> int" where
  "round_even x =
     (let f = \<lfloor>x\<rfloor>; d = x - of_int f
      in if d < 1 / 2 then f else if d > 1 / 2 then f + 1 else if even f then f else f + 1)"

definition scale2 :: "rat \<Rightarrow> int \<Rightarrow> rat" where
  "scale2 x e = (if e \<ge> 0 then x * 2 ^ nat e else x / 2 ^ nat (- e))"

text \<open>\<open>\<lfloor>log2 x\<rfloor>\<close> of a positive rational, from the lengths of numerator and denominator.\<close>

definition binade :: "rat \<Rightarrow> int" where
  "binade x = (let (p, q) = quotient_of x; k = bitlen p - bitlen q in if scale2 1 k \<le> x then k else k - 1)"

definition fl :: "rat \<Rightarrow> double" where
  "fl x =
     (if x = 0 then Fin 0
      else let e = max (binade \<bar>x\<bar> - 52) (- 1074);
               r = scale2 (of_int (round_even (scale2 x (- e)))) e
           in if r \<ge> 2 ^ 1024 then PosInf else if r \<le> - (2 ^ 1024) then NegInf else Fin r)"

definition number_of :: "int \<Rightarrow> double" where
  "number_of n = fl (of_int n)"

fun fdiv :: "double \<Rightarrow> double \<Rightarrow> double" where
  "fdiv NaN _ = NaN"
| "fdiv _ NaN = NaN"
| "fdiv (Fin x) (Fin y) =
     (if y = 0 then (if x = 0 then NaN else if x > 0 then PosInf else NegInf) else fl (x / y))"
| "fdiv (Fin x) _ = Fin 0"
| "fdiv PosInf (Fin y) = (if y \<ge> 0 then PosInf else NegInf)"
| "fdiv NegInf (Fin y) = (if y \<ge> 0 then NegInf else PosInf)"
| "fdiv _ _ = NaN"

fun fmul :: "double \<Rightarrow> double \<Rightarrow> double" where
  "fmul NaN _ = NaN"
| "fmul _ NaN = NaN"
| "fmul (Fin x) (Fin y) = fl (x * y)"
| "fmul (Fin x) y = (if x = 0 then NaN else if (x > 0) = (y = PosInf) then PosInf else NegInf)"
| "fmul x (Fin y) = (if y = 0 then NaN else if (y > 0) = (x = PosInf) then PosInf else NegInf)"
| "fmul x y = (if x = y then PosInf else NegInf)"

fun fadd :: "double \<Rightarrow> double \<Rightarrow> double" where
  "fadd NaN _ = NaN"
| "fadd _ NaN = NaN"
| "fadd (Fin x) (Fin y) = fl (x + y)"
| "fadd (Fin x) y = y"
| "fadd x (Fin y) = x"
| "fadd x y = (if x = y then x else NaN)"

fun fneg :: "double \<Rightarrow> double" where
  "fneg (Fin x) = Fin (- x)"
| "fneg PosInf = NegInf"
| "fneg NegInf = PosInf"
| "fneg NaN = NaN"

definition fsub :: "double \<Rightarrow> double \<Rightarrow> double" where "fsub x y = fadd x (fneg y)"

text \<open>\<open>x < y\<close> and \<open>x <= y\<close>, false as soon as one side is \<open>NaN\<close>.\<close>

fun flt :: "double \<Rightarrow> double \<Rightarrow> bool" where
  "flt (Fin x) (Fin y) = (x < y)"
| "flt NegInf (Fin _) = True"
| "flt NegInf PosInf = True"
| "flt (Fin _) PosInf = True"
| "flt _ _ = False"

definition fle :: "double \<Rightarrow> double \<Rightarrow> bool" where
  "fle x y = (x \<noteq> NaN \<and> y \<noteq> NaN \<and> \<not> flt y x)"

definition is_finite :: "double \<Rightarrow> bool" where
  "is_finite x = (case x of Fin _ \<Rightarrow> True | _ \<Rightarrow> False)"

text \<open>\<open>Math.max\<close> and \<open>Math.min\<close>: \<open>NaN\<close> as soon as one argument is.\<close>

definition fmax :: "double \<Rightarrow> double \<Rightarrow> double" where
  "fmax x y = (if x = NaN \<or> y = NaN then NaN else if flt x y then y else x)"

definition fmin :: "double \<Rightarrow> double \<Rightarrow> double" where
  "fmin x y = (if x = NaN \<or> y = NaN then NaN else if flt y x then y else x)"

text \<open>
  \<open>Math.round\<close> (halves go up), \<open>Math.floor\<close> and \<open>Math.ceil\<close>, followed by \<open>BigInt(...)\<close>: \<open>None\<close> is the
  RangeError of \<open>BigInt\<close> on a value that is not an integer.
\<close>

definition to_bigint_round :: "double \<Rightarrow> int option" where
  "to_bigint_round x = (case x of Fin r \<Rightarrow> Some \<lfloor>r + 1 / 2\<rfloor> | _ \<Rightarrow> None)"

definition to_bigint_floor :: "double \<Rightarrow> int option" where
  "to_bigint_floor x = (case x of Fin r \<Rightarrow> Some \<lfloor>r\<rfloor> | _ \<Rightarrow> None)"

definition to_bigint_ceil :: "double \<Rightarrow> int option" where
  "to_bigint_ceil x = (case x of Fin r \<Rightarrow> Some \<lceil>r\<rceil> | _ \<Rightarrow> None)"

lemma round_even_int [simp]: "round_even (of_int n) = n"
  by (simp add: round_even_def)

lemma round_even_near: "\<bar>of_int (round_even x) - x\<bar> \<le> 1 / 2"
proof -
  have f: "of_int \<lfloor>x\<rfloor> \<le> x" "x < of_int \<lfloor>x\<rfloor> + 1" using floor_correct [of x] by simp_all
  show ?thesis
  proof (cases "x - of_int \<lfloor>x\<rfloor> < 1 / 2")
    case True
    then have "round_even x = \<lfloor>x\<rfloor>" by (simp add: round_even_def Let_def)
    then show ?thesis unfolding abs_le_iff using True f by linarith
  next
    case False
    then have "round_even x = \<lfloor>x\<rfloor> + 1 \<or> round_even x = \<lfloor>x\<rfloor> \<and> x - of_int \<lfloor>x\<rfloor> = 1 / 2"
      by (auto simp: round_even_def Let_def)
    then show ?thesis unfolding abs_le_iff using False f by auto
  qed
qed

lemma round_even_mono: "x \<le> y \<Longrightarrow> round_even x \<le> round_even y"
proof -
  assume xy: "x \<le> y"
  have r: "round_even z = \<lfloor>z\<rfloor> \<or> round_even z = \<lfloor>z\<rfloor> + 1" for z by (simp add: round_even_def Let_def)
  have f: "\<lfloor>x\<rfloor> \<le> \<lfloor>y\<rfloor>" using xy by (rule floor_mono)
  show ?thesis
  proof (cases "\<lfloor>x\<rfloor> = \<lfloor>y\<rfloor>")
    case True
    then have "x - of_int \<lfloor>x\<rfloor> \<le> y - of_int \<lfloor>y\<rfloor>" using xy by simp
    then show ?thesis unfolding round_even_def Let_def True by auto
  next
    case False
    then have "\<lfloor>x\<rfloor> + 1 \<le> \<lfloor>y\<rfloor>" using f by simp
    then show ?thesis using r [of x] r [of y] by auto
  qed
qed

subsection \<open>Two literals\<close>

lemma fl_at:
  assumes "binade x = b" "0 < x" "-1022 \<le> b" "b \<le> 52" "round_even (x * 2 ^ nat (52 - b)) = n" "of_int n / 2 ^ nat (52 - b) = (r :: rat)" "0 < r" "r < 2"
  shows "fl x = Fin r"
proof -
  have "max (binade \<bar>x\<bar> - 52) (- 1074) = b - 52" using assms(1-3) by simp
  moreover have "scale2 x (- (b - 52)) = x * 2 ^ nat (52 - b)" using assms(4) by (simp add: scale2_def)
  moreover have "scale2 (of_int n) (b - 52) = r" using assms(4,6) by (cases "b = 52") (auto simp: scale2_def)
  moreover have "r < 2 ^ 1024" using assms(8) by (rule less_le_trans) simp
  moreover have "- (2 ^ 1024) < r" using assms(7) by (rule less_trans [rotated]) simp
  ultimately show ?thesis using assms(2,5) unfolding fl_def Let_def by simp
qed

lemma small_bitlen: "bitlen 1 = 1" "bitlen 3 = 2" "bitlen 10 = 4"
  by (code_simp, code_simp, code_simp)

lemma fl_tenth: "fl (1 / 10) = Fin (3602879701896397 / 36028797018963968)"
proof (rule fl_at)
  have "quotient_of (1 / 10) = (1, 10)" by code_simp
  then show "binade (1 / 10) = - 4" by (simp add: binade_def small_bitlen scale2_def Let_def)
  have "\<lfloor>36028797018963968 / 5 :: rat\<rfloor> = 7205759403792793" by (rule floor_unique) simp_all
  then show "round_even (1 / 10 * 2 ^ nat (52 - - 4)) = 7205759403792794" by (simp add: round_even_def Let_def)
qed simp_all

lemma fl_three_tenths: "fl (3 / 10) = Fin (5404319552844595 / 18014398509481984)"
proof (rule fl_at)
  have "quotient_of (3 / 10) = (3, 10)" by code_simp
  then show "binade (3 / 10) = - 2" by (simp add: binade_def small_bitlen scale2_def Let_def)
  have "\<lfloor>27021597764222976 / 5 :: rat\<rfloor> = 5404319552844595" by (rule floor_unique) simp_all
  then show "round_even (3 / 10 * 2 ^ nat (52 - - 2)) = 5404319552844595" by (simp add: round_even_def Let_def)
qed simp_all

subsection \<open>Integers below 2 to the 53 are exact\<close>

lemma fl_int_exact:
  assumes "\<bar>n\<bar> < 2 ^ 53"
  shows "fl (of_int n) = Fin (of_int n)"
proof (cases "n = 0")
  case False
  define e where "e = max (binade \<bar>of_int n :: rat\<bar> - 52) (- 1074)"
  have q: "quotient_of \<bar>of_int n :: rat\<bar> = (\<bar>n\<bar>, 1)" by (simp add: quotient_of_int flip: of_int_abs)
  have "bitlen \<bar>n\<bar> \<le> 53" using assms by (simp add: bitlen_le_iff_power)
  then have "e \<le> 0" using False by (simp add: e_def binade_def q Let_def small_bitlen)
  then have up: "scale2 (of_int n) (- e) = of_int (n * 2 ^ nat (- e))" and down: "scale2 (of_int (n * 2 ^ nat (- e))) e = (of_int n :: rat)"
    by (cases "e = 0"; simp add: scale2_def)+
  have "\<bar>of_int n :: rat\<bar> < 2 ^ 53" using assms by (metis of_int_abs of_int_less_iff of_int_numeral of_int_power)
  moreover have "(2 :: rat) ^ 53 < 2 ^ 1024" by simp
  ultimately have "\<not> of_int n \<ge> (2 ^ 1024 :: rat)" "\<not> of_int n \<le> - (2 ^ 1024 :: rat)" by linarith+
  moreover have "scale2 (of_int (round_even (scale2 (of_int n) (- e)))) e = (of_int n :: rat)" by (simp only: up down round_even_int)
  ultimately show ?thesis using False unfolding fl_def Let_def e_def [symmetric] by (simp only: if_False of_int_eq_0_iff)
qed (simp add: fl_def)

lemma fl_code [code]:
  "fl x =
     (let (p, q) = quotient_of x
      in if q = 1 \<and> \<bar>p\<bar> < 9007199254740992 then Fin x
         else let e = max (binade \<bar>x\<bar> - 52) (- 1074);
                  r = scale2 (of_int (round_even (scale2 x (- e)))) e
              in if r \<ge> 2 ^ 1024 then PosInf else if r \<le> - (2 ^ 1024) then NegInf else Fin r)"
proof (cases "snd (quotient_of x) = 1 \<and> \<bar>fst (quotient_of x)\<bar> < 9007199254740992")
  case True
  then have "x = of_int (fst (quotient_of x))" using quotient_of_div [of x "fst (quotient_of x)" 1] by (metis div_by_1 of_int_1 prod.collapse)
  then show ?thesis using True fl_int_exact [of "fst (quotient_of x)"] by (simp add: case_prod_unfold)
next
  case False
  then have "x \<noteq> 0" by auto
  then show ?thesis using False unfolding fl_def Let_def case_prod_unfold by (simp only: if_False simp_thms)
qed

end
