(* ===== verification/QuotePrices.thy ===== *)
theory QuotePrices
  imports PnlLedger JsFloat
begin

section \<open>Quote prices (keeper/src/v2/mm/engine.ts)\<close>

text \<open>
  From a fair value to the bid, the write ask and the resale ask: tick rounding, the half spread and
  its widening into the expiry, the inventory skew, the vol markup, the net floors and the gross-up for
  the seller fee. Prices are integers; the skew and the vol markup are computed in doubles, and a
  \<open>BigInt\<close> of a value that is not finite is the error of the sum.
\<close>

datatype quote_error = RangeErrorBigInt

definition PRICE_TICK :: int where "PRICE_TICK = 100"
definition SETTLEMENT_WINDOW :: seconds where "SETTLEMENT_WINDOW = 1800"

text \<open>The safest-ask knobs as a caller may give them, and all of them resolved.\<close>

record safest_knobs =
  skVolMarkupPts :: "double option"
  skIntrinsicBufferBps :: "double option"
  skMinPremiumUsdg6 :: "usdg6 option"
  skDeltaBandLo :: "double option"
  skDeltaBandHi :: "double option"
  skSelectVol :: "double option"
  skMaxDeltaShares :: "double option"
  skMaxGamma :: "double option"
  skMaxExpiryNotionalUsdg6 :: "usdg6 option"
  skDailyMtmLossLimitUsdg6 :: "usdg6 option"

record safest_ask =
  saVolMarkupPts :: double
  saIntrinsicBufferBps :: double
  saMinPremiumUsdg6 :: usdg6
  saDeltaBandLo :: double
  saDeltaBandHi :: double
  saSelectVol :: double
  saMaxDeltaShares :: double
  saMaxGamma :: double
  saMaxExpiryNotionalUsdg6 :: usdg6
  saDailyMtmLossLimitUsdg6 :: usdg6

definition SAFEST_ASK_DEFAULTS :: safest_ask where
  "SAFEST_ASK_DEFAULTS =
     \<lparr>saVolMarkupPts = Fin 2,
      saIntrinsicBufferBps = Fin 5,
      saMinPremiumUsdg6 = 20000,
      saDeltaBandLo = fl (1 / 10),
      saDeltaBandHi = fl (3 / 10),
      saSelectVol = Fin (1 / 2),
      saMaxDeltaShares = Fin 100,
      saMaxGamma = Fin 20,
      saMaxExpiryNotionalUsdg6 = 100000000000,
      saDailyMtmLossLimitUsdg6 = 1000000000\<rparr>"

text \<open>The two defaults that are not dyadic, as the doubles the literals stand for.\<close>

lemma SAFEST_ASK_DEFAULTS_value [code]:
  "SAFEST_ASK_DEFAULTS =
     \<lparr>saVolMarkupPts = Fin 2, saIntrinsicBufferBps = Fin 5, saMinPremiumUsdg6 = 20000,
      saDeltaBandLo = Fin (3602879701896397 / 36028797018963968), saDeltaBandHi = Fin (5404319552844595 / 18014398509481984),
      saSelectVol = Fin (1 / 2), saMaxDeltaShares = Fin 100, saMaxGamma = Fin 20,
      saMaxExpiryNotionalUsdg6 = 100000000000, saDailyMtmLossLimitUsdg6 = 1000000000\<rparr>"
  by (simp add: SAFEST_ASK_DEFAULTS_def fl_tenth fl_three_tenths)

definition safestAskOf :: "safest_knobs \<Rightarrow> safest_ask" where
  "safestAskOf params =
     (let d = SAFEST_ASK_DEFAULTS
      in \<lparr>saVolMarkupPts = or_else (skVolMarkupPts params) (saVolMarkupPts d),
          saIntrinsicBufferBps = or_else (skIntrinsicBufferBps params) (saIntrinsicBufferBps d),
          saMinPremiumUsdg6 = or_else (skMinPremiumUsdg6 params) (saMinPremiumUsdg6 d),
          saDeltaBandLo = or_else (skDeltaBandLo params) (saDeltaBandLo d),
          saDeltaBandHi = or_else (skDeltaBandHi params) (saDeltaBandHi d),
          saSelectVol = or_else (skSelectVol params) (saSelectVol d),
          saMaxDeltaShares = or_else (skMaxDeltaShares params) (saMaxDeltaShares d),
          saMaxGamma = or_else (skMaxGamma params) (saMaxGamma d),
          saMaxExpiryNotionalUsdg6 = or_else (skMaxExpiryNotionalUsdg6 params) (saMaxExpiryNotionalUsdg6 d),
          saDailyMtmLossLimitUsdg6 = or_else (skDailyMtmLossLimitUsdg6 params) (saDailyMtmLossLimitUsdg6 d)\<rparr>)"

text \<open>The quote parameters; the knobs that are optional there are the knobs record.\<close>

record quote_params =
  qpHalfSpreadBps :: bps
  qpMinHalfSpreadUsdg6 :: usdg6
  qpExpiryWidenS :: seconds
  qpExpiryWidenBps :: bps
  qpPullMinutes :: int
  qpQuoteOffHours :: bool
  qpFairMaxAgeS :: seconds
  qpFairMaxAgeOffHoursS :: seconds
  qpSkewBpsPerDeltaShare :: double
  qpMaxSkewBps :: double
  qpRequoteBps :: bps
  qpResizeBps :: bps
  qpFairSpotToleranceBps :: "bps option"
  qpKnobs :: safest_knobs

record series_info =
  siLongId :: int
  siUnderlying :: address
  siIsPut :: bool
  siStrike :: usdg6
  siExpiry :: seconds

subsection \<open>Ticks\<close>

definition roundDownToTick :: "int \<Rightarrow> int" where
  "roundDownToTick x = (if x \<le> 0 then 0 else (x sdiv PRICE_TICK) * PRICE_TICK)"

definition roundUpToTick :: "int \<Rightarrow> int" where
  "roundUpToTick x = (if x \<le> 0 then 0 else ((x + PRICE_TICK - 1) sdiv PRICE_TICK) * PRICE_TICK)"

definition mintCutoffOf :: "seconds \<Rightarrow> seconds" where
  "mintCutoffOf expiry = expiry - SETTLEMENT_WINDOW"

definition pullAtOf :: "seconds \<Rightarrow> int \<Rightarrow> seconds" where
  "pullAtOf expiry pullMinutes = mintCutoffOf expiry - pullMinutes * 60"

definition writeStopAtOf :: "seconds \<Rightarrow> int \<Rightarrow> seconds" where
  "writeStopAtOf expiry writeStopMinutes = mintCutoffOf expiry - writeStopMinutes * 60"

definition intrinsicOf :: "bool \<Rightarrow> usdg6 \<Rightarrow> usdg6 \<Rightarrow> usdg6" where
  "intrinsicOf isPut strike spot =
     (let v = (if isPut then strike - spot else spot - strike) in if v > 0 then v else 0)"

subsection \<open>The fair value at the oracle's spot\<close>

definition fairAtSpot :: "usdg6 \<Rightarrow> double \<Rightarrow> usdg6 option \<Rightarrow> usdg6 \<Rightarrow> quote_error + usdg6" where
  "fairAtSpot fair delta fairSpot spot =
     (case fairSpot of
        None \<Rightarrow> Inr fair
      | Some fs \<Rightarrow>
          if \<not> is_finite delta then Inr fair
          else case to_bigint_round (fmul delta (number_of (spot - fs))) of
                 None \<Rightarrow> Inl RangeErrorBigInt
               | Some shift \<Rightarrow> let moved = fair + shift in Inr (if moved > 0 then moved else 0))"

subsection \<open>Spread and skew\<close>

definition widenBps :: "seconds \<Rightarrow> seconds \<Rightarrow> quote_params \<Rightarrow> int" where
  "widenBps now expiry params =
     (if qpExpiryWidenS params \<le> 0 \<or> qpExpiryWidenBps params \<le> 0 then MM_BPS
      else let start = expiry - qpExpiryWidenS params; end_at = pullAtOf expiry (qpPullMinutes params)
           in if now \<le> start then MM_BPS
              else if end_at \<le> start \<or> now \<ge> end_at then MM_BPS + qpExpiryWidenBps params
              else MM_BPS + (qpExpiryWidenBps params * (now - start)) sdiv (end_at - start))"

definition halfSpreadUsdg6 :: "usdg6 \<Rightarrow> int \<Rightarrow> quote_params \<Rightarrow> usdg6" where
  "halfSpreadUsdg6 fair widen params =
     (let proportional = (fair * qpHalfSpreadBps params) sdiv MM_BPS;
          base = (if proportional > qpMinHalfSpreadUsdg6 params then proportional else qpMinHalfSpreadUsdg6 params)
      in (base * widen) sdiv MM_BPS)"

definition skewUsdg6 :: "usdg6 \<Rightarrow> double \<Rightarrow> usdg6 \<Rightarrow> double \<Rightarrow> quote_params \<Rightarrow> quote_error + usdg6" where
  "skewUsdg6 fair delta spot netDeltaShares params =
     (if \<not> is_finite delta \<or> \<not> is_finite netDeltaShares \<or> qpSkewBpsPerDeltaShare params = Fin 0 then Inr 0
      else let spotShift = fdiv (fmul (fmul (number_of spot) (qpSkewBpsPerDeltaShare params)) netDeltaShares) (Fin 10000);
               raw = fmul delta spotShift;
               cap = fdiv (fmul (number_of fair) (qpMaxSkewBps params)) (Fin 10000);
               clamped = fmax (fneg cap) (fmin cap raw)
           in case to_bigint_round clamped of None \<Rightarrow> Inl RangeErrorBigInt | Some r \<Rightarrow> Inr r)"

subsection \<open>The safest ask\<close>

datatype vol_how = ByAskIv | ByVolMarkup | ByNone

definition volBumpUsdg6 :: "double \<Rightarrow> double option \<Rightarrow> double option \<Rightarrow> double \<Rightarrow> quote_error + usdg6 \<times> vol_how" where
  "volBumpUsdg6 iv askIv vega volMarkupPts =
     (case vega of
        None \<Rightarrow> Inr (0, ByNone)
      | Some v \<Rightarrow>
          if \<not> is_finite v \<or> fle v (Fin 0) then Inr (0, ByNone)
          else let volUp = (case askIv of None \<Rightarrow> None
                            | Some a \<Rightarrow> if is_finite a \<and> is_finite iv then Some (fmax (Fin 0) (fsub a iv)) else None);
                   how = (if volUp \<noteq> None then ByAskIv else ByVolMarkup);
                   up = (case volUp of Some u \<Rightarrow> u | None \<Rightarrow> fdiv (fmax (Fin 0) volMarkupPts) (Fin 100))
               in case fmul (fmul v up) (Fin 1000000) of
                    Fin x \<Rightarrow> if \<lceil>x\<rceil> > 0 then Inr (\<lceil>x\<rceil>, how) else Inr (0, ByNone)
                  | PosInf \<Rightarrow> Inl RangeErrorBigInt
                  | _ \<Rightarrow> Inr (0, ByNone))"

datatype floor_by = IntrinsicBuffer | MinPremium

text \<open>The series may come without its type and strike: then there is no intrinsic value.\<close>

definition askFloorNetUsdg6 :: "(bool \<times> usdg6) option \<Rightarrow> usdg6 \<Rightarrow> double \<Rightarrow> usdg6 \<Rightarrow> quote_error + usdg6 \<times> floor_by" where
  "askFloorNetUsdg6 series spot intrinsicBufferBps minPremiumUsdg6 =
     (let intrinsic = (case series of None \<Rightarrow> 0 | Some (isPut, strike) \<Rightarrow> intrinsicOf isPut strike spot)
      in case (case intrinsicBufferBps of Fin r \<Rightarrow> Some (max 0 \<lfloor>r\<rfloor>) | NegInf \<Rightarrow> Some 0 | _ \<Rightarrow> None) of
           None \<Rightarrow> Inl RangeErrorBigInt
         | Some b \<Rightarrow>
             let buffer = (if spot > 0 then (spot * b + MM_BPS - 1) sdiv MM_BPS else 0);
                 byIntrinsic = intrinsic + buffer;
                 minPremium = (if minPremiumUsdg6 > 0 then minPremiumUsdg6 else 0)
             in Inr (if byIntrinsic \<ge> minPremium then (byIntrinsic, IntrinsicBuffer) else (minPremium, MinPremium)))"

subsection \<open>Fees and the gross-up\<close>

record quote_fees =
  qfCurrent :: fee_regime
  qfPending :: "(fee_regime \<times> seconds) option"

definition quoteFeeBpsOf :: "order_kind \<Rightarrow> quote_fees \<Rightarrow> bps" where
  "quoteFeeBpsOf kind fees =
     (let current = sellerFeeBpsOf kind (qfCurrent fees)
      in case qfPending fees of
           None \<Rightarrow> current
         | Some (params, effectiveAt) \<Rightarrow> if effectiveAt = 0 then current else max current (sellerFeeBpsOf kind params))"

definition grossUpToTick :: "usdg6 \<Rightarrow> bps \<Rightarrow> usdg6 \<times> bool" where
  "grossUpToTick price feeBps =
     (if feeBps \<le> 0 then (roundUpToTick price, True)
      else let net = MM_BPS - feeBps
           in if net \<le> 0 then (roundUpToTick price, False)
              else (roundUpToTick ((price * MM_BPS + net - 1) sdiv net), True))"

subsection \<open>The prices of a series\<close>

datatype clamp = BidCap | AskFloor | Crossed | FeeOutOfRange | AskIvTag | VolMarkupTag | IntrinsicBufferTag | MinPremiumTag

record ask_floors =
  afWrite :: usdg6
  afResale :: usdg6

record price_input =
  piNow :: seconds
  piExpiry :: seconds
  piTerms :: "(bool \<times> usdg6) option"
  piFair :: usdg6
  piDelta :: double
  piIv :: "double option"
  piAskIv :: "double option"
  piVega :: "double option"
  piSpot :: usdg6
  piNetDeltaShares :: double
  piAskFloors :: ask_floors
  piBidCap :: usdg6
  piFees :: quote_fees
  piParams :: quote_params

record core_prices =
  cpBid :: "usdg6 option"
  cpAsk :: usdg6
  cpResale :: usdg6
  cpHalfSpread :: usdg6
  cpSkew :: usdg6
  cpWiden :: int
  cpClampedBy :: "clamp list"
  cpFloorBound :: bool

definition quotePricesCore :: "price_input \<Rightarrow> usdg6 \<Rightarrow> usdg6 \<Rightarrow> quote_error + core_prices" where
  "quotePricesCore input volBump floorNet =
     (let fair = piFair input; params = piParams input;
          widen = widenBps (piNow input) (piExpiry input) params;
          halfSpread = halfSpreadUsdg6 fair widen params
      in case skewUsdg6 fair (piDelta input) (piSpot input) (piNetDeltaShares input) params of
           Inl e \<Rightarrow> Inl e
         | Inr skew \<Rightarrow>
             let bid0 = roundDownToTick (fair - halfSpread - skew);
                 cap = roundDownToTick (piBidCap input);
                 (bid1, c1) = (if bid0 > cap then (cap, [BidCap]) else (bid0, []));
                 target0 = roundUpToTick (fair + halfSpread - skew + volBump);
                 floorTick = roundUpToTick floorNet;
                 floorBound = floorTick > target0;
                 target1 = (if floorBound then floorTick else target0);
                 target = (if target1 < PRICE_TICK then PRICE_TICK else target1);
                 underTarget = (if target - PRICE_TICK \<ge> floorTick then target - PRICE_TICK else floorTick);
                 (writeGross, writeOk) = grossUpToTick target (quoteFeeBpsOf AskWrite (piFees input));
                 (resaleGross, resaleOk) = grossUpToTick underTarget (quoteFeeBpsOf AskResale (piFees input));
                 c2 = (if \<not> writeOk \<or> \<not> resaleOk then [FeeOutOfRange] else []);
                 ask0 = (if writeGross < PRICE_TICK then PRICE_TICK else writeGross);
                 floor = roundUpToTick (afWrite (piAskFloors input));
                 (ask, c3) = (if ask0 < floor then (floor, [AskFloor]) else (ask0, []));
                 (bid2, c4) = (if bid1 \<ge> ask then (ask - PRICE_TICK, [Crossed]) else (bid1, []));
                 bid = (if bid2 < PRICE_TICK then None else Some bid2);
                 resaleFloor = roundUpToTick (afResale (piAskFloors input));
                 under = (if underTarget \<ge> PRICE_TICK then resaleGross else 0);
                 resale0 = (if under \<ge> PRICE_TICK \<and> under \<ge> resaleFloor \<and> (case bid of None \<Rightarrow> True | Some b \<Rightarrow> under > b)
                            then under else ask);
                 clamped = c1 @ c2 @ c3 @ c4;
                 (resale, c5) = (if resale0 < resaleFloor
                                 then (resaleFloor, if AskFloor \<in> set clamped then [] else [AskFloor]) else (resale0, []))
             in Inr \<lparr>cpBid = bid, cpAsk = ask, cpResale = resale, cpHalfSpread = halfSpread, cpSkew = skew, cpWiden = widen,
                     cpClampedBy = clamped @ c5, cpFloorBound = floorBound\<rparr>)"

record quote_prices =
  qrBid :: "usdg6 option"
  qrAsk :: usdg6
  qrResale :: usdg6
  qrHalfSpread :: usdg6
  qrSkew :: usdg6
  qrWiden :: int
  qrClampedBy :: "clamp list"
  qrVolBump :: usdg6

definition quotePrices :: "price_input \<Rightarrow> quote_error + quote_prices" where
  "quotePrices input =
     (let safest = safestAskOf (qpKnobs (piParams input))
      in case volBumpUsdg6 (or_else (piIv input) NaN) (piAskIv input) (piVega input) (saVolMarkupPts safest) of
           Inl e \<Rightarrow> Inl e
         | Inr (bump, how) \<Rightarrow>
             (case askFloorNetUsdg6 (piTerms input) (piSpot input) (saIntrinsicBufferBps safest) (saMinPremiumUsdg6 safest) of
                Inl e \<Rightarrow> Inl e
              | Inr (floorNet, by) \<Rightarrow>
                  (case (quotePricesCore input bump floorNet, quotePricesCore input 0 0) of
                     (Inr shaped, Inr legacy) \<Rightarrow>
                       let ask = max (cpAsk shaped) (cpAsk legacy);
                           resale = max (cpResale shaped) (cpResale legacy);
                           clampedBy = cpClampedBy shaped
                             @ (if bump > 0 then [if how = ByAskIv then AskIvTag else VolMarkupTag] else [])
                             @ (if cpFloorBound shaped then [case by of IntrinsicBuffer \<Rightarrow> IntrinsicBufferTag | MinPremium \<Rightarrow> MinPremiumTag] else []);
                           bid = (case cpBid shaped of
                                    None \<Rightarrow> None
                                  | Some b \<Rightarrow> if b \<ge> ask then (if ask - PRICE_TICK \<ge> PRICE_TICK then Some (ask - PRICE_TICK) else None)
                                              else Some b)
                       in Inr \<lparr>qrBid = bid, qrAsk = ask, qrResale = resale, qrHalfSpread = cpHalfSpread shaped,
                               qrSkew = cpSkew shaped, qrWiden = cpWiden shaped, qrClampedBy = clampedBy, qrVolBump = bump\<rparr>
                   | (Inl e, _) \<Rightarrow> Inl e
                   | (_, Inl e) \<Rightarrow> Inl e)))"

subsection \<open>Ticks and the gross-up\<close>

definition on_tick :: "int \<Rightarrow> bool" where
  "on_tick x = (x mod PRICE_TICK = 0)"

lemma tick_pos [simp]: "0 < PRICE_TICK" "0 \<le> PRICE_TICK" "0 < MM_BPS" "0 \<le> MM_BPS"
  by (simp_all add: PRICE_TICK_def MM_BPS_def)

lemma roundUp_eq: "roundUpToTick x = (if x \<le> 0 then 0 else ((x + PRICE_TICK - 1) div PRICE_TICK) * PRICE_TICK)"
  by (simp add: roundUpToTick_def PRICE_TICK_def)

lemma roundUp_least: "on_tick y \<Longrightarrow> 0 \<le> y \<Longrightarrow> roundUpToTick x \<le> y \<longleftrightarrow> x \<le> y"
proof -
  assume y: "on_tick y" "0 \<le> y"
  then have "y = (y div PRICE_TICK) * PRICE_TICK" by (simp add: on_tick_def minus_mod_eq_div_mult [symmetric])
  then obtain k where k: "y = k * PRICE_TICK" by blast
  show ?thesis
  proof (cases "x \<le> 0")
    case True
    then show ?thesis using y by (simp add: roundUp_eq)
  next
    case False
    have "roundUpToTick x \<le> y \<longleftrightarrow> (x + PRICE_TICK - 1) div PRICE_TICK \<le> k" using False by (simp add: roundUp_eq k)
    also have "\<dots> \<longleftrightarrow> x \<le> y" by (simp add: ceil_div_least k)
    finally show ?thesis .
  qed
qed

lemma roundUp_on_tick [simp]: "on_tick (roundUpToTick x)" "on_tick (roundDownToTick x)" "on_tick PRICE_TICK" "on_tick 0"
  by (simp_all add: on_tick_def roundUpToTick_def roundDownToTick_def)

lemma roundUp_nonneg [simp]: "0 \<le> roundUpToTick x" "0 \<le> roundDownToTick x"
  by (simp_all add: roundUp_eq roundDownToTick_def PRICE_TICK_def pos_imp_zdiv_nonneg_iff)

lemma roundUp_ge: "x \<le> roundUpToTick x"
  using roundUp_least [of "roundUpToTick x" x] by simp

lemma roundUp_pos: "0 < x \<Longrightarrow> PRICE_TICK \<le> roundUpToTick x"
proof -
  assume "0 < x"
  then have "0 < roundUpToTick x" using roundUp_ge [of x] by linarith
  moreover have "roundUpToTick x mod PRICE_TICK = 0" using roundUp_on_tick(1) [of x] by (simp add: on_tick_def)
  ultimately show ?thesis using zdvd_imp_le [of PRICE_TICK "roundUpToTick x"] by (simp add: dvd_eq_mod_eq_0)
qed

lemma roundDown_le: "0 \<le> x \<Longrightarrow> roundDownToTick x \<le> x"
  by (simp add: roundDownToTick_def div_mult_le_int)

lemma roundDown_pos: "0 < roundDownToTick x \<Longrightarrow> roundDownToTick x \<le> x"
  using roundDown_le [of x] by (cases "x \<le> 0") (simp_all add: roundDownToTick_def)

text \<open>
  the gross-up leaves the vault its net. For any seller fee below 100 percent the grossed ask is the
  least price on the tick grid whose proceeds after the fee are at least the target.
\<close>

theorem grossUpToTick_least:
  assumes "0 < price" and "feeBps < MM_BPS" and "on_tick x" and "0 \<le> x"
  shows "fst (grossUpToTick price feeBps) \<le> x \<longleftrightarrow> price * MM_BPS \<le> x * (MM_BPS - max 0 feeBps)"
proof (cases "feeBps \<le> 0")
  case True
  then show ?thesis using assms by (simp add: grossUpToTick_def roundUp_least max_def)
next
  case False
  let ?net = "MM_BPS - feeBps"
  have net: "0 < ?net" using assms(2) by simp
  have "(price * MM_BPS + ?net - 1) sdiv ?net = (price * MM_BPS + ?net - 1) div ?net"
    using net assms(1) by (intro sdiv_nonneg) (auto simp: add_nonneg_pos)
  then have "fst (grossUpToTick price feeBps) \<le> x \<longleftrightarrow> (price * MM_BPS + ?net - 1) div ?net \<le> x"
    using False net assms(3,4) by (simp add: grossUpToTick_def Let_def roundUp_least)
  also have "\<dots> \<longleftrightarrow> price * MM_BPS \<le> x * ?net" using net by (simp add: ceil_div_least)
  finally show ?thesis using False by simp
qed

theorem grossUpToTick_least_witness:
  "fst (grossUpToTick 2000000 500) \<le> 2105300 \<and> \<not> fst (grossUpToTick 2000000 500) \<le> 2105200"
  using grossUpToTick_least [of 2000000 500 2105300] grossUpToTick_least [of 2000000 500 2105200]
  by (simp add: MM_BPS_def on_tick_def PRICE_TICK_def)

subsection \<open>The prices, field by field\<close>

definition net_target :: "price_input \<Rightarrow> usdg6 \<Rightarrow> usdg6 \<Rightarrow> usdg6 \<Rightarrow> usdg6" where
  "net_target input volBump floorNet skew =
     max (max (roundUpToTick (piFair input
                + halfSpreadUsdg6 (piFair input) (widenBps (piNow input) (piExpiry input) (piParams input)) (piParams input)
                - skew + volBump))
            (roundUpToTick floorNet)) PRICE_TICK"

definition under_target :: "price_input \<Rightarrow> usdg6 \<Rightarrow> usdg6 \<Rightarrow> usdg6 \<Rightarrow> usdg6" where
  "under_target input volBump floorNet skew =
     max (roundUpToTick floorNet) (net_target input volBump floorNet skew - PRICE_TICK)"

lemma if_max: "(if x < y then y else x) = max x y" "(if y \<le> x then x else y) = max y x" "(if x < y then x else y) = min x y"
  for x y :: int
  by (simp_all add: max_def min_def)

lemma if_pair: "fst (if b then (x, l) else (y, k)) = (if b then x else y)"
  by simp

lemma core_fields:
  assumes "quotePricesCore input vb fn = Inr c"
  shows core_skew: "skewUsdg6 (piFair input) (piDelta input) (piSpot input) (piNetDeltaShares input) (piParams input) = Inr (cpSkew c)"
    and core_ask: "cpAsk c = max (max (fst (grossUpToTick (net_target input vb fn (cpSkew c)) (quoteFeeBpsOf AskWrite (piFees input))))
        PRICE_TICK) (roundUpToTick (afWrite (piAskFloors input)))"
    and core_bid: "cpBid c =
      (let b = min (roundDownToTick (piBidCap input)) (roundDownToTick (piFair input - cpHalfSpread c - cpSkew c));
           b2 = (if cpAsk c \<le> b then cpAsk c - PRICE_TICK else b)
       in if b2 < PRICE_TICK then None else Some b2)"
    and core_half: "cpHalfSpread c = halfSpreadUsdg6 (piFair input) (widenBps (piNow input) (piExpiry input) (piParams input)) (piParams input)"
    and core_resale: "cpResale c =
      (let u = under_target input vb fn (cpSkew c);
           under = (if PRICE_TICK \<le> u then fst (grossUpToTick u (quoteFeeBpsOf AskResale (piFees input))) else 0)
       in max (if PRICE_TICK \<le> under \<and> roundUpToTick (afResale (piAskFloors input)) \<le> under
                  \<and> (case cpBid c of None \<Rightarrow> True | Some b \<Rightarrow> b < under)
               then under else cpAsk c) (roundUpToTick (afResale (piAskFloors input))))"
proof -
  obtain skew where skew: "skewUsdg6 (piFair input) (piDelta input) (piSpot input) (piNetDeltaShares input) (piParams input) = Inr skew"
    using assms by (cases "skewUsdg6 (piFair input) (piDelta input) (piSpot input) (piNetDeltaShares input) (piParams input)")
      (simp_all add: quotePricesCore_def Let_def)
  have c: "c = projr (quotePricesCore input vb fn)" using assms by simp
  have s: "cpSkew c = skew"
    unfolding c quotePricesCore_def Let_def case_prod_unfold skew by simp
  show "skewUsdg6 (piFair input) (piDelta input) (piSpot input) (piNetDeltaShares input) (piParams input) = Inr (cpSkew c)"
    by (simp only: skew s)
  show "cpHalfSpread c = halfSpreadUsdg6 (piFair input) (widenBps (piNow input) (piExpiry input) (piParams input)) (piParams input)"
    unfolding c quotePricesCore_def Let_def case_prod_unfold skew by simp
  show "cpAsk c = max (max (fst (grossUpToTick (net_target input vb fn (cpSkew c)) (quoteFeeBpsOf AskWrite (piFees input))))
        PRICE_TICK) (roundUpToTick (afWrite (piAskFloors input)))"
    unfolding s net_target_def unfolding c quotePricesCore_def Let_def case_prod_unfold skew
    by (simp only: sum.case sum.sel core_prices.simps if_pair if_max)
  show "cpBid c =
      (let b = min (roundDownToTick (piBidCap input)) (roundDownToTick (piFair input - cpHalfSpread c - cpSkew c));
           b2 = (if cpAsk c \<le> b then cpAsk c - PRICE_TICK else b)
       in if b2 < PRICE_TICK then None else Some b2)"
    unfolding s Let_def unfolding c quotePricesCore_def Let_def case_prod_unfold skew
    by (simp only: sum.case sum.sel core_prices.simps if_pair if_max)
  show "cpResale c =
      (let u = under_target input vb fn (cpSkew c);
           under = (if PRICE_TICK \<le> u then fst (grossUpToTick u (quoteFeeBpsOf AskResale (piFees input))) else 0)
       in max (if PRICE_TICK \<le> under \<and> roundUpToTick (afResale (piAskFloors input)) \<le> under
                  \<and> (case cpBid c of None \<Rightarrow> True | Some b \<Rightarrow> b < under)
               then under else cpAsk c) (roundUpToTick (afResale (piAskFloors input))))"
    unfolding s Let_def under_target_def net_target_def unfolding c quotePricesCore_def Let_def case_prod_unfold skew
    by (simp only: sum.case sum.sel core_prices.simps if_pair if_max)
qed

lemma on_tick_max [simp]: "on_tick x \<Longrightarrow> on_tick y \<Longrightarrow> on_tick (max x y)" "on_tick x \<Longrightarrow> on_tick y \<Longrightarrow> on_tick (min x y)"
  by (simp_all add: max_def min_def)

lemma on_tick_diff [simp]: "on_tick x \<Longrightarrow> on_tick (x - PRICE_TICK)"
  by (simp add: on_tick_def)

lemma gross_on_tick [simp]: "on_tick (fst (grossUpToTick price fee))"
  by (simp add: grossUpToTick_def Let_def)

lemma gross_covers:
  "0 < price \<Longrightarrow> fee < MM_BPS \<Longrightarrow> price * MM_BPS \<le> fst (grossUpToTick price fee) * (MM_BPS - max 0 fee)"
proof -
  assume price: "0 < price" and fee: "fee < MM_BPS"
  have "price * MM_BPS \<le> ((price * MM_BPS + ((MM_BPS - fee)) - 1) div (MM_BPS - fee)) * (MM_BPS - fee)" if "0 < fee"
    using fee by (intro ceil_div_ge) simp
  also have "((price * MM_BPS + (MM_BPS - fee) - 1) div (MM_BPS - fee)) * (MM_BPS - fee)
      \<le> roundUpToTick ((price * MM_BPS + (MM_BPS - fee) - 1) div (MM_BPS - fee)) * (MM_BPS - fee)"
    using fee by (intro mult_right_mono roundUp_ge) simp
  finally have "price * MM_BPS \<le> roundUpToTick ((price * MM_BPS + (MM_BPS - fee) - 1) div (MM_BPS - fee)) * (MM_BPS - fee)" if "0 < fee"
    using that by simp
  moreover have "(price * MM_BPS + (MM_BPS - fee) - 1) sdiv (MM_BPS - fee) = (price * MM_BPS + (MM_BPS - fee) - 1) div (MM_BPS - fee)"
    using price fee by (intro sdiv_nonneg) (auto simp: add_nonneg_pos)
  ultimately show ?thesis
    using fee roundUp_ge [of price] by (auto simp: grossUpToTick_def Let_def max_def intro: mult_right_mono)
qed

lemma net_target_bounds:
  "PRICE_TICK \<le> net_target input vb fn skew" "fn \<le> net_target input vb fn skew"
  "piFair input + halfSpreadUsdg6 (piFair input) (widenBps (piNow input) (piExpiry input) (piParams input)) (piParams input)
     - skew + vb \<le> net_target input vb fn skew"
  unfolding net_target_def using roundUp_ge order_trans by (auto simp: le_max_iff_disj)

lemma core_ask_bounds:
  assumes "quotePricesCore input vb fn = Inr c"
  shows "PRICE_TICK \<le> cpAsk c" "afWrite (piAskFloors input) \<le> cpAsk c" "on_tick (cpAsk c)"
    and "quoteFeeBpsOf AskWrite (piFees input) < MM_BPS \<Longrightarrow>
      net_target input vb fn (cpSkew c) * MM_BPS \<le> cpAsk c * (MM_BPS - max 0 (quoteFeeBpsOf AskWrite (piFees input)))"
proof -
  note ask = core_ask [OF assms]
  show "PRICE_TICK \<le> cpAsk c" "on_tick (cpAsk c)" by (simp_all add: ask le_max_iff_disj)
  show "afWrite (piAskFloors input) \<le> cpAsk c"
    using roundUp_ge [of "afWrite (piAskFloors input)"] by (simp add: ask le_max_iff_disj)
  let ?g = "fst (grossUpToTick (net_target input vb fn (cpSkew c)) (quoteFeeBpsOf AskWrite (piFees input)))"
  assume fee: "quoteFeeBpsOf AskWrite (piFees input) < MM_BPS"
  have "0 < net_target input vb fn (cpSkew c)"
    using net_target_bounds(1) [of input vb fn "cpSkew c"] by (simp add: PRICE_TICK_def)
  then have "net_target input vb fn (cpSkew c) * MM_BPS \<le> ?g * (MM_BPS - max 0 (quoteFeeBpsOf AskWrite (piFees input)))"
    using fee by (rule gross_covers)
  also have "\<dots> \<le> cpAsk c * (MM_BPS - max 0 (quoteFeeBpsOf AskWrite (piFees input)))"
    using fee by (intro mult_right_mono) (simp_all add: ask le_max_iff_disj MM_BPS_def)
  finally show "net_target input vb fn (cpSkew c) * MM_BPS \<le> cpAsk c * (MM_BPS - max 0 (quoteFeeBpsOf AskWrite (piFees input)))" .
qed

lemma core_bid_bounds:
  assumes "quotePricesCore input vb fn = Inr c" and "cpBid c = Some b"
  shows "PRICE_TICK \<le> b" "b \<le> piBidCap input" "b < cpAsk c" "on_tick b" "b \<le> piFair input - cpHalfSpread c - cpSkew c" "b < cpResale c"
proof -
  let ?b = "min (roundDownToTick (piBidCap input)) (roundDownToTick (piFair input - cpHalfSpread c - cpSkew c))"
  have bid: "b = (if cpAsk c \<le> ?b then cpAsk c - PRICE_TICK else ?b)" and tick: "PRICE_TICK \<le> b"
    using core_bid [OF assms(1)] assms(2) by (auto simp: Let_def split: if_splits)
  show "on_tick b" using core_ask_bounds(3) [OF assms(1)] by (simp add: bid)
  show "PRICE_TICK \<le> b" "b < cpAsk c" using tick bid by (auto simp: PRICE_TICK_def split: if_splits)
  have "b \<le> ?b" using bid by (auto simp: PRICE_TICK_def split: if_splits)
  moreover have "0 < ?b" using tick bid \<open>b \<le> ?b\<close> by (simp add: PRICE_TICK_def)
  ultimately show "b \<le> piBidCap input" "b \<le> piFair input - cpHalfSpread c - cpSkew c"
    using roundDown_pos [of "piBidCap input"] roundDown_pos [of "piFair input - cpHalfSpread c - cpSkew c"] by auto
  show "b < cpResale c"
    using \<open>b < cpAsk c\<close> assms(2) by (auto simp: core_resale [OF assms(1)] Let_def less_max_iff_disj)
qed

lemma core_resale_bounds:
  assumes "quotePricesCore input vb fn = Inr c"
  shows "afResale (piAskFloors input) \<le> cpResale c" "PRICE_TICK \<le> cpResale c"
  using roundUp_ge [of "afResale (piAskFloors input)"] core_ask_bounds(1) [OF assms]
  by (auto simp: core_resale [OF assms] Let_def le_max_iff_disj)

subsection \<open>What every quote keeps\<close>

lemma quotePrices_parts:
  assumes "quotePrices input = Inr q"
  obtains bump how fn by_rule shaped legacy where
    "volBumpUsdg6 (or_else (piIv input) NaN) (piAskIv input) (piVega input)
       (saVolMarkupPts (safestAskOf (qpKnobs (piParams input)))) = Inr (bump, how)"
    "askFloorNetUsdg6 (piTerms input) (piSpot input) (saIntrinsicBufferBps (safestAskOf (qpKnobs (piParams input))))
       (saMinPremiumUsdg6 (safestAskOf (qpKnobs (piParams input)))) = Inr (fn, by_rule)"
    "quotePricesCore input bump fn = Inr shaped" "quotePricesCore input 0 0 = Inr legacy"
    "qrAsk q = max (cpAsk shaped) (cpAsk legacy)" "qrResale q = max (cpResale shaped) (cpResale legacy)"
    "qrBid q = cpBid shaped" "qrSkew q = cpSkew shaped" "qrHalfSpread q = cpHalfSpread shaped" "qrVolBump q = bump"
proof -
  obtain bump how where v: "volBumpUsdg6 (or_else (piIv input) NaN) (piAskIv input) (piVega input)
       (saVolMarkupPts (safestAskOf (qpKnobs (piParams input)))) = Inr (bump, how)"
    using assms by (auto simp: quotePrices_def Let_def split: sum.splits)
  obtain fn by_rule where f: "askFloorNetUsdg6 (piTerms input) (piSpot input) (saIntrinsicBufferBps (safestAskOf (qpKnobs (piParams input))))
       (saMinPremiumUsdg6 (safestAskOf (qpKnobs (piParams input)))) = Inr (fn, by_rule)"
    using assms v by (auto simp: quotePrices_def Let_def split: sum.splits)
  obtain shaped where s: "quotePricesCore input bump fn = Inr shaped"
    using assms v f by (auto simp: quotePrices_def Let_def split: sum.splits)
  obtain legacy where l: "quotePricesCore input 0 0 = Inr legacy"
    using assms v f s by (auto simp: quotePrices_def Let_def split: sum.splits)
  have q: "q = projr (quotePrices input)" using assms by simp
  have bid: "\<not> max (cpAsk shaped) (cpAsk legacy) \<le> b" if "cpBid shaped = Some b" for b
    using core_bid_bounds(3) [OF s that] by simp
  have "qrBid q = cpBid shaped"
    unfolding q using bid by (cases "cpBid shaped") (auto simp: quotePrices_def Let_def v f s l)
  then show ?thesis
    by (intro that [OF v f s l]) (simp_all add: q quotePrices_def Let_def v f s l)
qed

text \<open>
  C11: every quote respects the vault's guards and the grid. The bid, when there is one, is at least a
  tick, at most the bid cap and at most the fair value less spread and skew, and under both asks; each
  ask is at or above the vault's floor for its kind; and the write ask and the bid are on the tick grid.
\<close>

theorem quotePrices_guards:
  assumes "quotePrices input = Inr q"
  shows "afWrite (piAskFloors input) \<le> qrAsk q \<and> afResale (piAskFloors input) \<le> qrResale q
    \<and> PRICE_TICK \<le> qrAsk q \<and> PRICE_TICK \<le> qrResale q \<and> on_tick (qrAsk q)
    \<and> (case qrBid q of None \<Rightarrow> True
        | Some b \<Rightarrow> PRICE_TICK \<le> b \<and> b \<le> piBidCap input \<and> b < qrAsk q \<and> b < qrResale q \<and> on_tick b
            \<and> b \<le> piFair input - qrHalfSpread q - qrSkew q)"
  using assms
proof (rule quotePrices_parts)
  fix bump how fn by_rule shaped legacy
  assume s: "quotePricesCore input bump fn = Inr shaped" and l: "quotePricesCore input 0 0 = Inr legacy"
    and q: "qrAsk q = max (cpAsk shaped) (cpAsk legacy)" "qrResale q = max (cpResale shaped) (cpResale legacy)"
      "qrBid q = cpBid shaped" "qrSkew q = cpSkew shaped" "qrHalfSpread q = cpHalfSpread shaped"
  show ?thesis
    using core_ask_bounds(1-3) [OF s] core_ask_bounds(3) [OF l] core_resale_bounds [OF s] core_bid_bounds [OF s]
    by (auto simp: q le_max_iff_disj less_max_iff_disj split: option.split)
qed

lemma askFloorNet_bounds:
  assumes "askFloorNetUsdg6 terms spot b m = Inr (fn, r)"
  shows "(case terms of None \<Rightarrow> 0 | Some (isPut, strike) \<Rightarrow> intrinsicOf isPut strike spot) \<le> fn" "m \<le> fn"
proof -
  let ?i = "case terms of None \<Rightarrow> 0 | Some (isPut, strike) \<Rightarrow> intrinsicOf isPut strike spot"
  have nn: "0 \<le> (if spot > 0 then (spot * max 0 k + MM_BPS - 1) sdiv MM_BPS else 0)" for k
    using sdiv_ge_0 [of "spot * max 0 k + MM_BPS - 1" MM_BPS] mult_nonneg_nonneg [of spot "max 0 k"] by (simp add: MM_BPS_def)
  obtain k where k: "(case b of Fin r \<Rightarrow> Some (max 0 \<lfloor>r\<rfloor>) | NegInf \<Rightarrow> Some 0 | _ \<Rightarrow> None) = Some (max 0 k)"
  proof (cases b)
    case (Fin x)
    then show ?thesis using that [of "\<lfloor>x\<rfloor>"] by simp
  next
    case NegInf
    then show ?thesis using that [of 0] by simp
  qed (use assms in \<open>simp_all add: askFloorNetUsdg6_def\<close>)
  show "?i \<le> fn" "m \<le> fn"
    using assms nn [of k] by (auto simp: askFloorNetUsdg6_def Let_def k not_le split: if_splits)
qed

text \<open>
  C4: the safest ask. After the primary seller fee, the write ask nets at least the fair value with its
  spread, skew and vol markup, at least the series' intrinsic value at the oracle's spot and at least the
  minimum premium; and neither ask is lower than the one the rules would give without the markup and floors.
\<close>

theorem quotePrices_safest:
  assumes "quotePrices input = Inr q" and "quoteFeeBpsOf AskWrite (piFees input) < MM_BPS"
  shows "qrAsk q * (MM_BPS - max 0 (quoteFeeBpsOf AskWrite (piFees input))) \<ge>
      MM_BPS * max (piFair input + qrHalfSpread q - qrSkew q + qrVolBump q)
        (max (case piTerms input of None \<Rightarrow> 0 | Some (isPut, strike) \<Rightarrow> intrinsicOf isPut strike (piSpot input))
             (saMinPremiumUsdg6 (safestAskOf (qpKnobs (piParams input)))))
    \<and> (case quotePricesCore input 0 0 of Inl _ \<Rightarrow> False
        | Inr plain \<Rightarrow> cpAsk plain \<le> qrAsk q \<and> cpResale plain \<le> qrResale q)"
  using assms(1)
proof (rule quotePrices_parts)
  fix bump how fn by_rule shaped legacy
  let ?fee = "MM_BPS - max 0 (quoteFeeBpsOf AskWrite (piFees input))"
  assume f: "askFloorNetUsdg6 (piTerms input) (piSpot input) (saIntrinsicBufferBps (safestAskOf (qpKnobs (piParams input))))
       (saMinPremiumUsdg6 (safestAskOf (qpKnobs (piParams input)))) = Inr (fn, by_rule)"
    and s: "quotePricesCore input bump fn = Inr shaped" and l: "quotePricesCore input 0 0 = Inr legacy"
    and q: "qrAsk q = max (cpAsk shaped) (cpAsk legacy)" "qrResale q = max (cpResale shaped) (cpResale legacy)"
      "qrSkew q = cpSkew shaped" "qrHalfSpread q = cpHalfSpread shaped" "qrVolBump q = bump"
  have "max (case piTerms input of None \<Rightarrow> 0 | Some (isPut, strike) \<Rightarrow> intrinsicOf isPut strike (piSpot input))
      (saMinPremiumUsdg6 (safestAskOf (qpKnobs (piParams input)))) \<le> fn"
    using askFloorNet_bounds [OF f] by simp
  then have "max (piFair input + qrHalfSpread q - qrSkew q + qrVolBump q)
        (max (case piTerms input of None \<Rightarrow> 0 | Some (isPut, strike) \<Rightarrow> intrinsicOf isPut strike (piSpot input))
             (saMinPremiumUsdg6 (safestAskOf (qpKnobs (piParams input))))) \<le> net_target input bump fn (cpSkew shaped)"
    using net_target_bounds [where input = input and vb = bump and fn = fn and skew = "cpSkew shaped"] by (simp add: q core_half [OF s])
  then have "MM_BPS * max (piFair input + qrHalfSpread q - qrSkew q + qrVolBump q)
        (max (case piTerms input of None \<Rightarrow> 0 | Some (isPut, strike) \<Rightarrow> intrinsicOf isPut strike (piSpot input))
             (saMinPremiumUsdg6 (safestAskOf (qpKnobs (piParams input))))) \<le> net_target input bump fn (cpSkew shaped) * MM_BPS"
    by (simp add: mult.commute MM_BPS_def)
  also have "\<dots> \<le> cpAsk shaped * ?fee" by (rule core_ask_bounds(4) [OF s assms(2)])
  also have "\<dots> \<le> qrAsk q * ?fee" using assms(2) by (intro mult_right_mono) (simp_all add: q MM_BPS_def)
  finally show ?thesis by (simp add: l q)
qed

definition sample_price_input :: price_input where
  "sample_price_input =
     \<lparr>piNow = 1000, piExpiry = 100000, piTerms = Some (False, 250000000), piFair = 2000000, piDelta = Fin (1 / 4),
      piIv = Some (Fin (1 / 2)), piAskIv = None, piVega = None, piSpot = 249000000, piNetDeltaShares = Fin 0,
      piAskFloors = \<lparr>afWrite = 1500000, afResale = 1300000\<rparr>, piBidCap = 1800000,
      piFees = \<lparr>qfCurrent = \<lparr>frPremiumFeeBps = 500, frResaleFeeBps = 0\<rparr>, qfPending = None\<rparr>,
      piParams = \<lparr>qpHalfSpreadBps = 500, qpMinHalfSpreadUsdg6 = 10000, qpExpiryWidenS = 0, qpExpiryWidenBps = 0,
        qpPullMinutes = 5, qpQuoteOffHours = False, qpFairMaxAgeS = 1800, qpFairMaxAgeOffHoursS = 3600,
        qpSkewBpsPerDeltaShare = Fin 0, qpMaxSkewBps = Fin 0, qpRequoteBps = 100, qpResizeBps = 5000,
        qpFairSpotToleranceBps = Some 100,
        qpKnobs = \<lparr>skVolMarkupPts = None, skIntrinsicBufferBps = None, skMinPremiumUsdg6 = None, skDeltaBandLo = None,
          skDeltaBandHi = None, skSelectVol = None, skMaxDeltaShares = None, skMaxGamma = None,
          skMaxExpiryNotionalUsdg6 = None, skDailyMtmLossLimitUsdg6 = None\<rparr>\<rparr>\<rparr>"

lemma sample_core:
  "quotePricesCore sample_price_input 0 fn = Inr \<lparr>cpBid = Some 1800000, cpAsk = 2210600, cpResale = 2099900,
     cpHalfSpread = 100000, cpSkew = 0, cpWiden = 10000, cpClampedBy = [BidCap], cpFloorBound = False\<rparr>"
  if "fn = 0 \<or> fn = 124500"
proof -
  have "quotePricesCore sample_price_input 0 0 = Inr \<lparr>cpBid = Some 1800000, cpAsk = 2210600, cpResale = 2099900,
     cpHalfSpread = 100000, cpSkew = 0, cpWiden = 10000, cpClampedBy = [BidCap], cpFloorBound = False\<rparr>"
    "quotePricesCore sample_price_input 0 124500 = Inr \<lparr>cpBid = Some 1800000, cpAsk = 2210600, cpResale = 2099900,
     cpHalfSpread = 100000, cpSkew = 0, cpWiden = 10000, cpClampedBy = [BidCap], cpFloorBound = False\<rparr>"
    by code_simp+
  with that show ?thesis by auto
qed

lemma sample_quote:
  "quotePrices sample_price_input = Inr \<lparr>qrBid = Some 1800000, qrAsk = 2210600, qrResale = 2099900, qrHalfSpread = 100000,
     qrSkew = 0, qrWiden = 10000, qrClampedBy = [BidCap], qrVolBump = 0\<rparr>"
proof -
  have "volBumpUsdg6 (or_else (piIv sample_price_input) NaN) (piAskIv sample_price_input) (piVega sample_price_input)
      (saVolMarkupPts (safestAskOf (qpKnobs (piParams sample_price_input)))) = Inr (0, ByNone)"
    by (simp add: volBumpUsdg6_def sample_price_input_def)
  moreover have "askFloorNetUsdg6 (piTerms sample_price_input) (piSpot sample_price_input)
      (saIntrinsicBufferBps (safestAskOf (qpKnobs (piParams sample_price_input))))
      (saMinPremiumUsdg6 (safestAskOf (qpKnobs (piParams sample_price_input)))) = Inr (124500, IntrinsicBuffer)"
    by (simp add: askFloorNetUsdg6_def sample_price_input_def safestAskOf_def SAFEST_ASK_DEFAULTS_def intrinsicOf_def MM_BPS_def)
  ultimately show ?thesis by (simp add: quotePrices_def sample_core Let_def PRICE_TICK_def)
qed

theorem quotePrices_guards_witness:
  "\<exists>q. quotePrices sample_price_input = Inr q \<and> 1500000 \<le> qrAsk q \<and> 1300000 \<le> qrResale q \<and> on_tick (qrAsk q)"
  using quotePrices_guards [OF sample_quote] sample_quote by (auto simp: sample_price_input_def)

theorem quotePrices_safest_witness:
  "\<exists>q. quotePrices sample_price_input = Inr q \<and> qrAsk q * 9500 \<ge> 10000 * 2100000"
proof -
  have "quoteFeeBpsOf AskWrite (piFees sample_price_input) = 500"
    by (simp add: sample_price_input_def quoteFeeBpsOf_def sellerFeeBpsOf_def)
  with quotePrices_safest [OF sample_quote] sample_quote show ?thesis
    by (auto simp: MM_BPS_def sample_price_input_def)
qed

subsection \<open>Widening into the expiry, and the skew's cap\<close>

lemma widen_fraction:
  assumes "0 < w" and "start < (e :: int)" and "start < n" and "n < e"
  shows "0 \<le> (w * (n - start)) sdiv (e - start)" "(w * (n - start)) sdiv (e - start) \<le> w"
proof -
  have eq: "(w * (n - start)) sdiv (e - start) = (w * (n - start)) div (e - start)"
    using assms by (intro sdiv_nonneg) auto
  show "0 \<le> (w * (n - start)) sdiv (e - start)" using assms unfolding eq by (simp add: pos_imp_zdiv_nonneg_iff)
  have "(w * (n - start)) div (e - start) \<le> (w * (e - start)) div (e - start)"
    using assms by (intro zdiv_mono1 mult_left_mono) auto
  also have "\<dots> = w" using assms by simp
  finally show "(w * (n - start)) sdiv (e - start) \<le> w" unfolding eq .
qed

text \<open>
  the half spread only widens as the expiry comes closer, from one time itself to the configured
  maximum, and never further.
\<close>

theorem widenBps_monotone:
  assumes "now \<le> later"
  shows "MM_BPS \<le> widenBps now expiry params \<and> widenBps now expiry params \<le> widenBps later expiry params
    \<and> widenBps later expiry params \<le> MM_BPS + max 0 (qpExpiryWidenBps params)"
proof (cases "qpExpiryWidenS params \<le> 0 \<or> qpExpiryWidenBps params \<le> 0")
  case True
  then show ?thesis by (auto simp: widenBps_def)
next
  case False
  let ?start = "expiry - qpExpiryWidenS params" and ?e = "pullAtOf expiry (qpPullMinutes params)" and ?w = "qpExpiryWidenBps params"
  have w: "0 < ?w" using False by simp
  have mono: "(?w * (now - ?start)) sdiv (?e - ?start) \<le> (?w * (later - ?start)) sdiv (?e - ?start)"
    if "?start < now" "later < ?e"
    using that assms w by (intro sdiv_mono1) (auto intro: mult_left_mono)
  show ?thesis
    using assms False w mono widen_fraction [OF w, of ?start ?e now] widen_fraction [OF w, of ?start ?e later]
    by (auto simp: widenBps_def Let_def)
qed

theorem widenBps_monotone_witness:
  "widenBps 90000 100000 (piParams sample_price_input\<lparr>qpExpiryWidenS := 20000, qpExpiryWidenBps := 10000\<rparr>)
     \<le> widenBps 95000 100000 (piParams sample_price_input\<lparr>qpExpiryWidenS := 20000, qpExpiryWidenBps := 10000\<rparr>)"
  using widenBps_monotone [of 90000 95000 100000 "piParams sample_price_input\<lparr>qpExpiryWidenS := 20000, qpExpiryWidenBps := 10000\<rparr>"]
  by simp

text \<open>The skew never exceeds the cap, whatever the inventory.\<close>

lemma skew_capped:
  assumes "skewUsdg6 fair delta spot netDelta params = Inr s"
    and "fdiv (fmul (number_of fair) (qpMaxSkewBps params)) (Fin 10000) = Fin c" and "0 \<le> c"
  shows "\<bar>s\<bar> \<le> \<lfloor>c + 1 / 2\<rfloor>"
proof -
  have pos: "0 \<le> \<lfloor>c + 1 / 2\<rfloor>" using assms(3) by (simp add: zero_le_floor)
  have near: "\<bar>\<lfloor>x + 1 / 2\<rfloor>\<bar> \<le> \<lfloor>c + 1 / 2\<rfloor>" if x: "- c \<le> x" "x \<le> c" for x :: rat
  proof -
    have "\<lfloor>x + 1 / 2\<rfloor> \<le> \<lfloor>c + 1 / 2\<rfloor>" using x by (intro floor_mono) simp
    moreover have "- \<lfloor>c + 1 / 2\<rfloor> \<le> \<lfloor>x + 1 / 2\<rfloor>"
      using x floor_correct [of "c + 1 / 2"] by (intro le_floor_iff [THEN iffD2]) simp
    ultimately show ?thesis by (simp add: abs_le_iff)
  qed
  define raw where "raw = fmul delta (fdiv (fmul (fmul (number_of spot) (qpSkewBpsPerDeltaShare params)) netDelta) (Fin 10000))"
  have "to_bigint_round (fmax (fneg (Fin c)) (fmin (Fin c) raw)) = Some s \<or> s = 0"
    using assms(1,2) by (auto simp: skewUsdg6_def Let_def raw_def split: if_splits option.splits)
  moreover have "\<bar>r\<bar> \<le> \<lfloor>c + 1 / 2\<rfloor>" if "to_bigint_round (fmax (fneg (Fin c)) (fmin (Fin c) raw)) = Some r" for r
    using that near [of c] near [of "- c"] near assms(3)
    by (cases raw) (auto simp: fmax_def fmin_def to_bigint_round_def split: if_splits)
  ultimately show ?thesis using pos by auto
qed

end
