(* ===== verification/QuoteHalts.thy ===== *)
theory QuoteHalts
  imports QuotePrices EpochWindow
begin

section \<open>Halts (keeper/src/v2/mm/engine.ts)\<close>

text \<open>
  Why a series must not be quoted: the halts judged before a fair value is asked for, the checks on
  the fair value, the market-safety halts and the spot-move circuit breaker. The detail of a halt, a
  sentence for the state page, is not represented.
\<close>

datatype halt =
  HKilled | HLossStop | HNotQuoter | HTradingPaused | HExpired | HPullWindow | HMarketClosed | HMarketNotQuoted
| HMarketDisabled | HSpotStale | HNotSelected | HFairUnavailable | HFairStale | HFairSpotMismatch | HFairOutOfBounds
| HGuardsUnreadable | HEpochOutside | HEpochWinddown | HProtocolCross | HOtherAsker | HSpotAge | HOpenGrace
| HSpotMoveBreaker | HEventUncertainty | HFairBeforeOpen | HQuotingPaused

datatype event_input = EventSupplied | EventMissing | EventShort

record fair_quality =
  faReasons :: "string list"
  faEventInWindow :: "bool option"
  faEventInput :: "event_input option"

record fair_value =
  faFair :: usdg6
  faDelta :: double
  faIv :: double
  faAsOf :: seconds
  faSource :: string
  faSpot :: "usdg6 option"
  faAskIv :: "double option"
  faVega :: "double option"
  faGamma :: "double option"
  faQuality :: "fair_quality option"

datatype fair_input = FairOk fair_value | FairRefused string

text \<open>\<open>hiSessionOpenedAt\<close> is \<open>None\<close> when the check is off and \<open>Some None\<close> when the open cannot be placed.\<close>

record halt_input =
  hiNow :: seconds
  hiSeries :: series_info
  hiParams :: quote_params
  hiKilled :: bool
  hiLossStopped :: bool
  hiIsQuoter :: bool
  hiTradingPaused :: bool
  hiQuotingPaused :: "bool option"
  hiSessionOpen :: bool
  hiMarketEnabled :: bool
  hiMarketQuoted :: "bool option"
  hiSpotFresh :: bool
  hiMarketHalt :: "halt option"
  hiSelected :: bool
  hiEpoch :: "epoch_view option"
  hiEpochWindDownS :: "seconds option"
  hiFair :: "fair_input option"
  hiSpot :: "usdg6 option"
  hiSessionOpenedAt :: "seconds option option"
  hiGuardsOk :: bool

definition haltBeforeFair :: "halt_input \<Rightarrow> halt option" where
  "haltBeforeFair input =
     (let now = hiNow input; series = hiSeries input; params = hiParams input
      in if hiKilled input then Some HKilled
         else if hiLossStopped input then Some HLossStop
         else if \<not> hiIsQuoter input then Some HNotQuoter
         else if hiTradingPaused input then Some HTradingPaused
         else if hiQuotingPaused input = Some True then Some HQuotingPaused
         else if now \<ge> siExpiry series then Some HExpired
         else if now \<ge> pullAtOf (siExpiry series) (qpPullMinutes params) then Some HPullWindow
         else if \<not> hiSessionOpen input \<and> \<not> qpQuoteOffHours params then Some HMarketClosed
         else if hiMarketQuoted input = Some False then Some HMarketNotQuoted
         else if \<not> hiMarketEnabled input then Some HMarketDisabled
         else if \<not> hiSpotFresh input then Some HSpotStale
         else case hiMarketHalt input of
                Some h \<Rightarrow> Some h
              | None \<Rightarrow>
                  let epochSel = epochSelectable (siExpiry series) (hiEpoch input) now (or_else (hiEpochWindDownS input) 0)
                  in if epochSel = EpochOutside then Some HEpochOutside
                     else if epochSel = EpochWinddown then Some HEpochWinddown
                     else if \<not> hiSelected input then Some HNotSelected
                     else None)"

subsection \<open>The checks on a fair value\<close>

definition fairClockHalt :: "halt_input \<Rightarrow> seconds \<Rightarrow> halt option" where
  "fairClockHalt input asOf =
     (let maxAge = (if hiSessionOpen input then qpFairMaxAgeS (hiParams input) else qpFairMaxAgeOffHoursS (hiParams input));
          stale = (if hiNow input - asOf > maxAge then Some HFairStale else None)
      in if hiSessionOpen input then
           (case hiSessionOpenedAt input of
              None \<Rightarrow> stale
            | Some None \<Rightarrow> Some HFairBeforeOpen
            | Some (Some openedAt) \<Rightarrow> if asOf < openedAt then Some HFairBeforeOpen else stale)
         else stale)"

definition EVENT_HALT_REASONS :: "string list" where
  "EVENT_HALT_REASONS = [''event-uncertainty'', ''model-uncertainty'', ''model-uncertain'']"

text \<open>Whether \<open>eventUncertaintyOf\<close> gives a reason: its text is not represented.\<close>

definition eventUncertaintyOf :: "fair_quality option \<Rightarrow> bool" where
  "eventUncertaintyOf quality =
     (case quality of
        None \<Rightarrow> False
      | Some q \<Rightarrow>
          let hit = filter (\<lambda>r. r \<in> set EVENT_HALT_REASONS) (faReasons q)
          in if hit \<noteq> [] then True else faEventInWindow q = Some True)"

definition quotedFairOf :: "fair_value \<Rightarrow> usdg6 \<Rightarrow> quote_error + usdg6 \<times> halt option" where
  "quotedFairOf fair spot =
     (case fairAtSpot (faFair fair) (faDelta fair) (faSpot fair) spot of
        Inl e \<Rightarrow> Inl e
      | Inr quoted \<Rightarrow> Inr (quoted, if quoted > 0 then None else Some HFairUnavailable))"

definition spot_mismatch :: "halt_input \<Rightarrow> fair_value \<Rightarrow> usdg6 \<Rightarrow> bool" where
  "spot_mismatch input fair spot =
     (let tolerance = or_else (qpFairSpotToleranceBps (hiParams input)) 0
      in case faSpot fair of
           None \<Rightarrow> False
         | Some fs \<Rightarrow>
             let gap = (if fs > spot then fs - spot else spot - fs)
             in tolerance > 0 \<and> (gap * MM_BPS) sdiv spot > tolerance)"

text \<open>The halt, or the fair value to quote: \<open>None\<close> when there is no positive oracle spot to quote at.\<close>

definition fairCheckOf :: "halt_input \<Rightarrow> quote_error + halt + usdg6 option" where
  "fairCheckOf input =
     (case hiFair input of
        None \<Rightarrow> Inr (Inl HFairUnavailable)
      | Some (FairRefused reason) \<Rightarrow> Inr (Inl HFairUnavailable)
      | Some (FairOk fair) \<Rightarrow>
          if eventUncertaintyOf (faQuality fair) then Inr (Inl HEventUncertainty)
          else case fairClockHalt input (faAsOf fair) of
            Some h \<Rightarrow> Inr (Inl h)
          | None \<Rightarrow>
              if faFair fair \<le> 0 then Inr (Inl HFairUnavailable)
              else case hiSpot input of
                None \<Rightarrow> Inr (Inr None)
              | Some spot \<Rightarrow>
                  if spot \<le> 0 then Inr (Inr None)
                  else if spot_mismatch input fair spot then Inr (Inl HFairSpotMismatch)
                  else case quotedFairOf fair spot of
                    Inl e \<Rightarrow> Inl e
                  | Inr (quoted, Some h) \<Rightarrow> Inr (Inl h)
                  | Inr (quoted, None) \<Rightarrow>
                      let bound = (if siIsPut (hiSeries input) then siStrike (hiSeries input) else spot)
                      in if faFair fair \<ge> bound then Inr (Inl HFairOutOfBounds)
                         else if quoted < intrinsicOf (siIsPut (hiSeries input)) (siStrike (hiSeries input)) spot
                           then Inr (Inl HFairOutOfBounds)
                         else Inr (Inr (Some quoted)))"

definition haltOf :: "halt_input \<Rightarrow> quote_error + halt option" where
  "haltOf input =
     (case haltBeforeFair input of
        Some h \<Rightarrow> Inr (Some h)
      | None \<Rightarrow>
          (case fairCheckOf input of
             Inl e \<Rightarrow> Inl e
           | Inr (Inl h) \<Rightarrow> Inr (Some h)
           | Inr (Inr _) \<Rightarrow> if \<not> hiGuardsOk input then Inr (Some HGuardsUnreadable) else Inr None))"

subsection \<open>Market safety\<close>

record market_safety =
  msNow :: seconds
  msSessionOpen :: bool
  msSessionOpenAtGrace :: bool
  msSpotObservedAt :: "seconds option"
  msSpotObservedInSession :: "bool option"
  msBreaker :: "halt option"
  msMaxSpotAgeS :: seconds
  msOpenGraceS :: seconds

definition marketSafetyHalt :: "market_safety \<Rightarrow> halt option" where
  "marketSafetyHalt input =
     (let age = (if msMaxSpotAgeS input > 0 then
                   (case msSpotObservedAt input of
                      None \<Rightarrow> Some HSpotAge
                    | Some t \<Rightarrow> if msNow input - t > msMaxSpotAgeS input then Some HSpotAge else None)
                 else None)
      in if \<not> msSessionOpen input then None
         else case msBreaker input of
           Some h \<Rightarrow> Some h
         | None \<Rightarrow>
             if msOpenGraceS input > 0 then
               (let printToday = (case msSpotObservedAt input of None \<Rightarrow> False
                                  | Some t \<Rightarrow> t div DAY_S = msNow input div DAY_S \<and> msSpotObservedInSession input = Some True)
                in if \<not> msSessionOpenAtGrace input \<or> \<not> printToday then Some HOpenGrace else age)
             else age)"

subsection \<open>When a series may be quoted\<close>

text \<open>What the fair value must satisfy to price an order at a positive oracle spot.\<close>

definition fair_fresh :: "halt_input \<Rightarrow> fair_value \<Rightarrow> bool" where
  "fair_fresh input fair =
     (hiNow input - faAsOf fair \<le> (if hiSessionOpen input then qpFairMaxAgeS (hiParams input) else qpFairMaxAgeOffHoursS (hiParams input))
      \<and> (hiSessionOpen input \<longrightarrow> (case hiSessionOpenedAt input of None \<Rightarrow> True | Some None \<Rightarrow> False | Some (Some t) \<Rightarrow> t \<le> faAsOf fair)))"

lemma fairClockHalt_iff: "fairClockHalt input (faAsOf fair) = None \<longleftrightarrow> fair_fresh input fair"
  by (auto simp: fairClockHalt_def fair_fresh_def Let_def split: option.splits)

definition spot_close :: "halt_input \<Rightarrow> fair_value \<Rightarrow> usdg6 \<Rightarrow> bool" where
  "spot_close input fair spot =
     (case faSpot fair of None \<Rightarrow> True
      | Some fs \<Rightarrow> or_else (qpFairSpotToleranceBps (hiParams input)) 0 \<le> 0
          \<or> \<bar>fs - spot\<bar> * MM_BPS < (or_else (qpFairSpotToleranceBps (hiParams input)) 0 + 1) * spot)"

lemma gap_bps_le: "0 < spot \<Longrightarrow> 0 \<le> gap \<Longrightarrow> (gap * MM_BPS) sdiv spot \<le> tol \<longleftrightarrow> gap * MM_BPS < (tol + 1) * spot"
  for gap spot tol :: int
proof -
  assume s: "0 < spot" "0 \<le> gap"
  have "(gap * MM_BPS) sdiv spot = (gap * MM_BPS) div spot" using s by (simp add: MM_BPS_def)
  moreover have "(gap * MM_BPS) div spot \<le> tol \<longleftrightarrow> \<not> (tol + 1 \<le> (gap * MM_BPS) div spot)" by auto
  ultimately show ?thesis using s by (simp add: le_div_iff_mult_le_int not_le)
qed

lemma spot_mismatch_iff: "0 < spot \<Longrightarrow> spot_mismatch input fair spot \<longleftrightarrow> \<not> spot_close input fair spot"
proof -
  assume spot: "0 < spot"
  have gap: "(if fs > spot then fs - spot else spot - fs) = \<bar>fs - spot\<bar>" for fs by simp
  let ?tol = "or_else (qpFairSpotToleranceBps (hiParams input)) 0"
  show ?thesis
  proof (cases "faSpot fair")
    case None
    then show ?thesis by (simp add: spot_mismatch_def spot_close_def)
  next
    case (Some fs)
    have "spot_mismatch input fair spot \<longleftrightarrow> ?tol > 0 \<and> (\<bar>fs - spot\<bar> * MM_BPS) sdiv spot > ?tol"
      by (simp only: spot_mismatch_def Let_def Some option.case gap)
    then show ?thesis using gap_bps_le [OF spot, of "\<bar>fs - spot\<bar>" ?tol] by (auto simp: spot_close_def Some)
  qed
qed

text \<open>
  C20: a fair value is quoted only when it is safe to. At a positive oracle spot the check passes with a
  price exactly when the service answered, neither an event nor a model doubt was flagged, the answer is
  fresh and of this session, its spot is within the tolerance of the oracle's, and the value carried to
  the oracle's spot is positive and within the no-arbitrage bounds: raw below the strike or spot, carried
  at least intrinsic.
\<close>

theorem fairCheckOf_quotes_iff:
  assumes "hiSpot input = Some spot" and "0 < spot"
  shows "fairCheckOf input = Inr (Inr (Some quoted)) \<longleftrightarrow>
    (\<exists>fair. hiFair input = Some (FairOk fair) \<and> \<not> eventUncertaintyOf (faQuality fair) \<and> fair_fresh input fair
      \<and> 0 < faFair fair \<and> spot_close input fair spot
      \<and> fairAtSpot (faFair fair) (faDelta fair) (faSpot fair) spot = Inr quoted \<and> 0 < quoted
      \<and> faFair fair < (if siIsPut (hiSeries input) then siStrike (hiSeries input) else spot)
      \<and> intrinsicOf (siIsPut (hiSeries input)) (siStrike (hiSeries input)) spot \<le> quoted)"
proof (cases "hiFair input")
  case (Some fi)
  show ?thesis
  proof (cases fi)
    case (FairOk fair)
    show ?thesis
      using assms fairClockHalt_iff [of input fair] spot_mismatch_iff [OF assms(2), of input fair]
      by (cases "fairAtSpot (faFair fair) (faDelta fair) (faSpot fair) spot"; cases "fairClockHalt input (faAsOf fair)")
        (auto simp: fairCheckOf_def Some FairOk Let_def quotedFairOf_def not_le not_less)
  qed (simp add: fairCheckOf_def Some)
qed (simp add: fairCheckOf_def)

definition sample_halt :: halt_input where
  "sample_halt =
     \<lparr>hiNow = 1000, hiSeries = \<lparr>siLongId = 7, siUnderlying = ''0xaa'', siIsPut = False, siStrike = 250000000, siExpiry = 100000\<rparr>,
      hiParams = piParams sample_price_input, hiKilled = False, hiLossStopped = False, hiIsQuoter = True, hiTradingPaused = False,
      hiQuotingPaused = None, hiSessionOpen = True, hiMarketEnabled = True, hiMarketQuoted = None, hiSpotFresh = True,
      hiMarketHalt = None, hiSelected = True, hiEpoch = None, hiEpochWindDownS = None,
      hiFair = Some (FairOk \<lparr>faFair = 2000000, faDelta = Fin (1 / 4), faIv = Fin (1 / 2), faAsOf = 900, faSource = ''cboe'', faSpot = None,
        faAskIv = None, faVega = None, faGamma = None,
        faQuality = Some \<lparr>faReasons = [''fresh''], faEventInWindow = None, faEventInput = Some EventMissing\<rparr>\<rparr>),
      hiSpot = Some 249000000, hiSessionOpenedAt = Some (Some 800), hiGuardsOk = True\<rparr>"

theorem fairCheckOf_quotes_iff_witness:
  "fairCheckOf sample_halt = Inr (Inr (Some 2000000))"
  by (subst fairCheckOf_quotes_iff [of _ 249000000])
    (simp_all add: sample_halt_def eventUncertaintyOf_def EVENT_HALT_REASONS_def fair_fresh_def spot_close_def fairAtSpot_def
      intrinsicOf_def sample_price_input_def)

text \<open>
  the halts are complete. A series is quoted exactly when no stop is on, the vault may quote, the
  pull time has not come, the market is open, enabled and quoted with a fresh spot and no safety halt, the
  epoch admits it, it is selected, its fair value passes every check and its guards were read.
\<close>

theorem haltOf_none_iff:
  "haltOf input = Inr None \<longleftrightarrow>
     \<not> hiKilled input \<and> \<not> hiLossStopped input \<and> hiIsQuoter input \<and> \<not> hiTradingPaused input \<and> hiQuotingPaused input \<noteq> Some True
     \<and> hiNow input < siExpiry (hiSeries input) \<and> hiNow input < pullAtOf (siExpiry (hiSeries input)) (qpPullMinutes (hiParams input))
     \<and> (hiSessionOpen input \<or> qpQuoteOffHours (hiParams input)) \<and> hiMarketQuoted input \<noteq> Some False \<and> hiMarketEnabled input
     \<and> hiSpotFresh input \<and> hiMarketHalt input = None
     \<and> epochSelectable (siExpiry (hiSeries input)) (hiEpoch input) (hiNow input) (or_else (hiEpochWindDownS input) 0) = EpochOk
     \<and> hiSelected input \<and> (case fairCheckOf input of Inr (Inr _) \<Rightarrow> True | _ \<Rightarrow> False) \<and> hiGuardsOk input"
proof -
  have "epochSelectable e v n w = EpochOk \<longleftrightarrow> epochSelectable e v n w \<noteq> EpochOutside \<and> epochSelectable e v n w \<noteq> EpochWinddown" for e v n w
    by (cases "epochSelectable e v n w") simp_all
  then have "haltBeforeFair input = None \<longleftrightarrow>
     \<not> hiKilled input \<and> \<not> hiLossStopped input \<and> hiIsQuoter input \<and> \<not> hiTradingPaused input \<and> hiQuotingPaused input \<noteq> Some True
     \<and> hiNow input < siExpiry (hiSeries input) \<and> hiNow input < pullAtOf (siExpiry (hiSeries input)) (qpPullMinutes (hiParams input))
     \<and> (hiSessionOpen input \<or> qpQuoteOffHours (hiParams input)) \<and> hiMarketQuoted input \<noteq> Some False \<and> hiMarketEnabled input
     \<and> hiSpotFresh input \<and> hiMarketHalt input = None
     \<and> epochSelectable (siExpiry (hiSeries input)) (hiEpoch input) (hiNow input) (or_else (hiEpochWindDownS input) 0) = EpochOk
     \<and> hiSelected input"
    unfolding haltBeforeFair_def Let_def by (simp split: option.split)
  then show ?thesis
    unfolding haltOf_def by (cases "haltBeforeFair input") (auto split: sum.splits)
qed

subsection \<open>The spot-move breaker\<close>

record breaker_params =
  brBps :: bps
  brWindowS :: seconds
  brHaltS :: seconds

record breaker_halt =
  bhUntil :: seconds
  bhMoveBps :: int
  bhFrom :: usdg6
  bhTo :: usdg6

record breaker =
  brHistory :: "(string \<times> (seconds \<times> usdg6) list) list"
  brUntil :: "(string \<times> breaker_halt) list"

definition new_breaker :: breaker where
  "new_breaker = \<lparr>brHistory = [], brUntil = []\<rparr>"

definition spot_move :: "usdg6 \<Rightarrow> usdg6 \<Rightarrow> int" where
  "spot_move spot earlier =
     (let gap = (if spot > earlier then spot - earlier else earlier - spot) in (gap * MM_BPS) sdiv earlier)"

text \<open>The worst move of the loop, with the spot it moved from.\<close>

fun worst_move :: "bps \<Rightarrow> usdg6 \<Rightarrow> (seconds \<times> usdg6) list \<Rightarrow> (int \<times> usdg6) option \<Rightarrow> (int \<times> usdg6) option" where
  "worst_move limit spot [] worst = worst"
| "worst_move limit spot ((t, s) # rs) worst =
     (let moveBps = spot_move spot s
      in worst_move limit spot rs
           (if moveBps > limit \<and> (case worst of None \<Rightarrow> True | Some (w, f) \<Rightarrow> moveBps > w) then Some (moveBps, s) else worst))"

definition breaker_observe :: "breaker_params \<Rightarrow> address \<Rightarrow> seconds \<Rightarrow> usdg6 option \<Rightarrow> breaker \<Rightarrow> int option \<times> breaker" where
  "breaker_observe params underlying now spot b =
     (case spot of
        None \<Rightarrow> (None, b)
      | Some s \<Rightarrow>
          if brBps params \<le> 0 \<or> s \<le> 0 then (None, b)
          else let key = lower underlying;
                   kept = filter (\<lambda>r. now - fst r \<le> brWindowS params) (get_or (brHistory b) key []);
                   b2 = b\<lparr>brHistory := AList.update key (kept @ [(now, s)]) (brHistory b)\<rparr>
               in case worst_move (brBps params) s kept None of
                    None \<Rightarrow> (None, b2)
                  | Some (moveBps, from) \<Rightarrow>
                      (Some moveBps,
                       b2\<lparr>brUntil := AList.update key
                            \<lparr>bhUntil = now + brHaltS params, bhMoveBps = moveBps, bhFrom = from, bhTo = s\<rparr> (brUntil b2)\<rparr>))"

definition breaker_haltOf :: "breaker \<Rightarrow> address \<Rightarrow> seconds \<Rightarrow> halt option" where
  "breaker_haltOf b underlying now =
     (case map_of (brUntil b) (lower underlying) of
        None \<Rightarrow> None
      | Some h \<Rightarrow> if now \<ge> bhUntil h then None else Some HSpotMoveBreaker)"

text \<open>A process feeds the breaker every market's spot, tick after tick.\<close>

type_synonym spot_reading = "address \<times> seconds \<times> usdg6 option"

definition feed :: "breaker_params \<Rightarrow> spot_reading list \<Rightarrow> breaker" where
  "feed params obs = foldl (\<lambda>b (u, n, s). snd (breaker_observe params u n s b)) new_breaker obs"

fun readings :: "string \<Rightarrow> spot_reading list \<Rightarrow> (seconds \<times> usdg6) list" where
  "readings k [] = []"
| "readings k ((u, n, s) # os) =
     (case s of Some v \<Rightarrow> if lower u = k \<and> 0 < v then (n, v) # readings k os else readings k os | None \<Rightarrow> readings k os)"

text \<open>The times of the readings that moved too far from an earlier one inside the window.\<close>

definition trips_on :: "breaker_params \<Rightarrow> (seconds \<times> usdg6) list \<Rightarrow> seconds \<times> usdg6 \<Rightarrow> bool" where
  "trips_on params seen r =
     list_ex (\<lambda>q. fst r - fst q \<le> brWindowS params \<and> spot_move (snd r) (snd q) > brBps params) seen"

fun trip_times :: "breaker_params \<Rightarrow> (seconds \<times> usdg6) list \<Rightarrow> (seconds \<times> usdg6) list \<Rightarrow> seconds list" where
  "trip_times params seen [] = []"
| "trip_times params seen (r # rs) =
     (if trips_on params seen r then [fst r] else []) @ trip_times params (seen @ [r]) rs"

lemma trip_times_snoc:
  "trip_times params seen (rs @ [r]) = trip_times params seen rs @ (if trips_on params (seen @ rs) r then [fst r] else [])"
  by (induction rs arbitrary: seen) auto

lemma trip_times_in: "t \<in> set (trip_times params seen rs) \<Longrightarrow> t \<in> fst ` set rs"
  by (induction rs arbitrary: seen) (auto split: if_splits)

lemma readings_append: "readings k (xs @ ys) = readings k xs @ readings k ys"
  by (induction xs rule: readings.induct) (auto split: option.splits)

lemma worst_move_none: "worst_move limit spot rs w = None \<longleftrightarrow> w = None \<and> \<not> list_ex (\<lambda>q. spot_move spot (snd q) > limit) rs"
proof (induction rs arbitrary: w)
  case (Cons q rs)
  obtain t e where q: "q = (t, e)" by (cases q)
  show ?case by (cases w) (simp_all add: q Cons Let_def)
qed simp

definition breaker_inv :: "breaker_params \<Rightarrow> string \<Rightarrow> (seconds \<times> usdg6) list \<Rightarrow> breaker \<Rightarrow> bool" where
  "breaker_inv params k rs b =
     (get_or (brHistory b) k [] = filter (\<lambda>r. fst (last rs) - fst r \<le> brWindowS params) rs
      \<and> map_option bhUntil (map_of (brUntil b) k) =
          (if trip_times params [] rs = [] then None else Some (last (trip_times params [] rs) + brHaltS params)))"

lemma breaker_step:
  assumes inv: "breaker_inv params k rs b" and on: "0 < brBps params" "0 \<le> brWindowS params"
    and sorted: "sorted (map fst (rs @ readings k [(u, n, s)]))"
  shows "breaker_inv params k (rs @ readings k [(u, n, s)]) (snd (breaker_observe params u n s b))"
proof (cases "\<exists>v. s = Some v \<and> 0 < v")
  case False
  then show ?thesis using inv by (auto simp: breaker_observe_def split: option.splits)
next
  case True
  then obtain v where v: "s = Some v" "0 < v" by blast
  show ?thesis
  proof (cases "lower u = k")
    case False
    then show ?thesis using inv v on
      by (auto simp: breaker_observe_def breaker_inv_def Let_def split: option.splits)
  next
    case True
    let ?kept = "filter (\<lambda>r. n - fst r \<le> brWindowS params) (get_or (brHistory b) k [])"
    have last: "rs = [] \<or> fst (last rs) \<le> n" using sorted v True by (cases rs rule: rev_cases) (auto simp: sorted_append)
    then have kept: "?kept = filter (\<lambda>r. n - fst r \<le> brWindowS params) rs"
      using inv by (auto simp: breaker_inv_def intro!: filter_cong)
    have "worst_move (brBps params) v ?kept None = None \<longleftrightarrow> \<not> trips_on params rs (n, v)"
      unfolding worst_move_none kept by (auto simp: trips_on_def list_ex_iff)
    then show ?thesis
      using inv v on True kept
      by (auto simp: breaker_observe_def breaker_inv_def Let_def trip_times_snoc split: option.splits)
  qed
qed

lemma feed_snoc: "feed params (obs @ [(u, n, s)]) = snd (breaker_observe params u n s (feed params obs))"
  by (simp add: feed_def)

lemma feed_inv:
  assumes on: "0 < brBps params" "0 \<le> brWindowS params"
  shows "sorted (map fst (readings k obs)) \<Longrightarrow> breaker_inv params k (readings k obs) (feed params obs)"
proof (induction obs rule: rev_induct)
  case Nil
  then show ?case by (simp add: breaker_inv_def feed_def new_breaker_def)
next
  case (snoc o' obs)
  obtain u n s where o': "o' = (u, n, s)" by (cases o')
  have "breaker_inv params k (readings k obs) (feed params obs)"
    using snoc by (simp add: readings_append sorted_append)
  moreover have "sorted (map fst (readings k obs @ readings k [(u, n, s)]))"
    using snoc.prems by (simp only: o' readings_append)
  ultimately show ?case using on by (simp only: o' readings_append feed_snoc breaker_step)
qed

text \<open>
  the breaker halts a market exactly as long as it should. For readings in time order, the market is
  halted at a later moment exactly when some reading moved more than the limit against an earlier one
  inside the window and its halt time has not passed; other markets' readings do not matter.
\<close>

theorem breaker_halts_iff:
  assumes "0 < brBps params" and "0 \<le> brWindowS params" and "sorted (map fst (readings (lower u) obs))"
  shows "breaker_haltOf (feed params obs) u t = Some HSpotMoveBreaker \<longleftrightarrow>
    list_ex (\<lambda>t0. t < t0 + brHaltS params) (trip_times params [] (readings (lower u) obs))"
proof -
  let ?rs = "readings (lower u) obs"
  have inv: "breaker_inv params (lower u) ?rs (feed params obs)" using assms by (intro feed_inv)
  have sorted: "sorted (trip_times params [] rs)" if "sorted (map fst rs)" for rs
    using that
  proof (induction rs rule: rev_induct)
    case (snoc r rs)
    then show ?case using trip_times_in [of _ params "[]" rs] by (fastforce simp: trip_times_snoc sorted_append)
  qed simp
  show ?thesis
  proof (cases "trip_times params [] ?rs" rule: rev_cases)
    case Nil
    then show ?thesis using inv by (auto simp: breaker_inv_def breaker_haltOf_def split: option.split)
  next
    case (snoc ts t1)
    then have "\<And>t0. t0 \<in> set ts \<Longrightarrow> t0 \<le> t1" using sorted [OF assms(3)] by (simp add: sorted_append)
    then have "list_ex (\<lambda>t0. t < t0 + brHaltS params) (ts @ [t1]) \<longleftrightarrow> t < t1 + brHaltS params"
      by (force simp: list_ex_iff)
    then show ?thesis using inv snoc by (auto simp: breaker_inv_def breaker_haltOf_def split: option.split)
  qed
qed

theorem breaker_halts_iff_witness:
  "breaker_haltOf (feed \<lparr>brBps = 100, brWindowS = 300, brHaltS = 900\<rparr>
      [(''0xAA'', 10, Some 1000000), (''0xbb'', 20, Some 50), (''0xaa'', 70, Some 1020000)]) ''0xAa'' 500 = Some HSpotMoveBreaker
   \<and> breaker_haltOf (feed \<lparr>brBps = 100, brWindowS = 300, brHaltS = 900\<rparr>
      [(''0xAA'', 10, Some 1000000), (''0xbb'', 20, Some 50), (''0xaa'', 70, Some 1020000)]) ''0xAa'' 970 \<noteq> Some HSpotMoveBreaker"
proof -
  let ?p = "\<lparr>brBps = 100, brWindowS = 300, brHaltS = 900\<rparr>"
  let ?obs = "[(''0xAA'', 10, Some 1000000), (''0xbb'', 20, Some 50), (''0xaa'', 70, Some 1020000)] :: spot_reading list"
  have r: "readings (lower ''0xAa'') ?obs = [(10, 1000000), (70, 1020000)]" by code_simp
  have t: "trip_times ?p [] [(10, 1000000), (70, 1020000)] = [70]" by code_simp
  show ?thesis
    using breaker_halts_iff [of ?p "''0xAa''" ?obs 500] breaker_halts_iff [of ?p "''0xAa''" ?obs 970]
    unfolding r t by simp
qed

text \<open>
  in a session, a market passes the safety halts exactly when the breaker is not holding, the grace
  after the open is over and today's session has an observation (while the grace is on), and the freshest
  observation is young enough (while the age limit is on); outside a session none applies.
\<close>

theorem marketSafety_none_iff:
  "marketSafetyHalt input = None \<longleftrightarrow>
     (\<not> msSessionOpen input
      \<or> msBreaker input = None
        \<and> (msOpenGraceS input \<le> 0
           \<or> msSessionOpenAtGrace input
             \<and> (case msSpotObservedAt input of None \<Rightarrow> False
                 | Some t \<Rightarrow> t div DAY_S = msNow input div DAY_S \<and> msSpotObservedInSession input = Some True))
        \<and> (msMaxSpotAgeS input \<le> 0
           \<or> (case msSpotObservedAt input of None \<Rightarrow> False | Some t \<Rightarrow> msNow input - t \<le> msMaxSpotAgeS input)))"
  by (auto simp: marketSafetyHalt_def Let_def split: option.splits if_splits)

end
