(* ===== verification/SeriesActions.thy ===== *)
theory SeriesActions
  imports QuoteHalts
begin

section \<open>From targets to vault calls (keeper/src/v2/mm/engine.ts)\<close>

text \<open>
  How long a quote lives, when a live quote is replaced, the calls that take one series from its live
  orders to its targets, and the order in which a tick sends them. The reason text of an action is not
  represented; whether it is protective is.
\<close>

datatype slot = SlotBid | SlotWrite | SlotResale

definition SLOT_KIND :: "slot \<Rightarrow> order_kind" where
  "SLOT_KIND s = (case s of SlotBid \<Rightarrow> Bid | SlotWrite \<Rightarrow> AskWrite | SlotResale \<Rightarrow> AskResale)"

definition KIND_INDEX :: "order_kind \<Rightarrow> int" where
  "KIND_INDEX k = (case k of Bid \<Rightarrow> 0 | AskResale \<Rightarrow> 1 | AskWrite \<Rightarrow> 2)"

subsection \<open>How long a quote lives\<close>

record quote_life =
  qlCap :: seconds
  qlLifetime :: seconds

record quote_life_input =
  liExpiry :: seconds
  liSlot :: slot
  liPullMinutes :: int
  liSessionClose :: "seconds option"
  liMaxOrderLifetime :: seconds
  liMaxQuoteLifetime :: "seconds option"
  liWriteStopAt :: "seconds option"
  liNow :: "seconds option"

definition quoteLifeOf :: "quote_life_input \<Rightarrow> quote_life" where
  "quoteLifeOf input =
     (let limit = (if liSlot input = SlotWrite then mintCutoffOf (liExpiry input) else liExpiry input);
          cap1 = min limit (pullAtOf (liExpiry input) (liPullMinutes input));
          cap2 = (case liWriteStopAt input of Some w \<Rightarrow> if liSlot input = SlotWrite then min cap1 w else cap1 | None \<Rightarrow> cap1);
          cap3 = (case liSessionClose input of Some c \<Rightarrow> min cap2 c | None \<Rightarrow> cap2);
          anchored = (liNow input \<noteq> None \<and> liMaxOrderLifetime input > 0);
          cap4 = (case liNow input of Some n \<Rightarrow> if anchored then min cap3 (n + liMaxOrderLifetime input) else cap3 | None \<Rightarrow> cap3);
          lifetimes = filter (\<lambda>l. l > 0) [if anchored then 0 else liMaxOrderLifetime input, or_else (liMaxQuoteLifetime input) 0]
      in \<lparr>qlCap = cap4, qlLifetime = (if lifetimes = [] then 0 else js_min lifetimes)\<rparr>)"

definition validUntilAt :: "quote_life \<Rightarrow> seconds \<Rightarrow> seconds option" where
  "validUntilAt life now =
     (let until = (if qlLifetime life > 0 then min (qlCap life) (now + qlLifetime life) else qlCap life)
      in if until > now then Some until else None)"

definition quoteValidUntil :: "quote_life_input \<Rightarrow> seconds \<Rightarrow> seconds option" where
  "quoteValidUntil input now = validUntilAt (quoteLifeOf (input\<lparr>liNow := Some now\<rparr>)) now"

subsection \<open>The replace discipline\<close>

record live_order =
  loId :: int
  loKind :: order_kind
  loPrice :: usdg6
  loUnits :: int
  loFilled :: int
  loValidUntil :: seconds
  loCancelled :: bool

definition isLiveOrder :: "live_order \<Rightarrow> seconds \<Rightarrow> bool" where
  "isLiveOrder o' now = (\<not> loCancelled o' \<and> loFilled o' < loUnits o' \<and> now < loValidUntil o')"

definition isReclaimable :: "live_order \<Rightarrow> seconds \<Rightarrow> bool" where
  "isReclaimable o' now =
     (\<not> loCancelled o' \<and> loFilled o' < loUnits o' \<and> now \<ge> loValidUntil o' \<and> loKind o' \<noteq> AskWrite)"

definition isKillTarget :: "live_order \<Rightarrow> seconds \<Rightarrow> bool" where
  "isKillTarget o' now = (isLiveOrder o' now \<or> isReclaimable o' now)"

record slot_target =
  tgPrice :: usdg6
  tgUnits :: int

definition moveBps :: "usdg6 \<Rightarrow> usdg6 \<Rightarrow> double" where
  "moveBps current target =
     (if current \<le> 0 then PosInf
      else let diff = (if target > current then target - current else current - target)
           in number_of ((diff * MM_BPS) sdiv current))"

text \<open>Whether to replace, and whether that is protective.\<close>

definition judgeReplace ::
  "live_order \<Rightarrow> slot_target \<Rightarrow> slot \<Rightarrow> ask_floors \<Rightarrow> usdg6 \<Rightarrow> usdg6 option \<Rightarrow> quote_params \<Rightarrow> bool \<times> bool" where
  "judgeReplace order target s askFloors bidCap safeFloor params =
     (let remaining = loUnits order - loFilled order;
          askFloor = (if s = SlotResale then afResale askFloors else afWrite askFloors);
          floorUnits = (tgUnits target * (10000 - qpResizeBps params)) sdiv MM_BPS
      in if s = SlotBid \<and> loPrice order > bidCap then (True, True)
         else if s = SlotBid \<and> (case safeFloor of None \<Rightarrow> False | Some f \<Rightarrow> loPrice order > f) then (True, True)
         else if s \<noteq> SlotBid \<and> loPrice order < askFloor then (True, True)
         else if s \<noteq> SlotBid \<and> (case safeFloor of None \<Rightarrow> False | Some f \<Rightarrow> loPrice order < f) then (True, True)
         else if flt (Fin (of_int (qpRequoteBps params))) (moveBps (loPrice order) (tgPrice target)) then (True, False)
         else if remaining > tgUnits target then (True, True)
         else if remaining < floorUnits then (True, False)
         else (False, False))"

subsection \<open>The calls of one series\<close>

record cancel_call =
  ccLongId :: int
  ccOrderIds :: "int list"
  ccProtective :: bool

record replace_call =
  rcLongId :: int
  rcSlot :: slot
  rcOrderId :: int
  rcPrice :: usdg6
  rcUnits :: int
  rcFromPrice :: usdg6
  rcFromUnits :: int
  rcProtective :: bool
  rcOrderValidUntil :: "seconds option"

record place_call =
  pcLongId :: int
  pcSlot :: slot
  pcKind :: int
  pcPrice :: usdg6
  pcUnits :: int
  pcValidUntil :: seconds
  pcProtective :: bool
  pcLife :: "quote_life option"

datatype mm_action = Cancel cancel_call | Replace replace_call | Place place_call

record series_actions =
  sxLongId :: int
  sxNow :: seconds
  sxOrders :: "live_order list"
  sxTargets :: "(slot \<Rightarrow> slot_target option) option"
  sxValidUntil :: "slot \<Rightarrow> seconds option"
  sxLife :: "slot \<Rightarrow> quote_life option"
  sxAskFloors :: "ask_floors option"
  sxBidCap :: usdg6
  sxRefreshS :: seconds
  sxReplaceMarginS :: "seconds option"
  sxParams :: quote_params
  sxSafeFloor :: "(slot \<Rightarrow> usdg6) option"

text \<open>The three lists the loop pushes onto: cancels with their flag, replaces and places.\<close>

record slot_calls =
  scCancels :: "(int \<times> bool) list"
  scReplaces :: "replace_call list"
  scPlaces :: "place_call list"

definition newest_id_first :: "live_order \<Rightarrow> live_order \<Rightarrow> int" where
  "newest_id_first a b = (if loId a > loId b then -1 else if loId a < loId b then 1 else 0)"

definition place_of :: "series_actions \<Rightarrow> slot \<Rightarrow> slot_target \<Rightarrow> seconds \<Rightarrow> bool \<Rightarrow> place_call" where
  "place_of input s target validUntil protective =
     \<lparr>pcLongId = sxLongId input, pcSlot = s, pcKind = KIND_INDEX (SLOT_KIND s), pcPrice = tgPrice target,
      pcUnits = tgUnits target, pcValidUntil = validUntil, pcProtective = protective, pcLife = sxLife input s\<rparr>"

definition mine_of :: "series_actions \<Rightarrow> slot \<Rightarrow> live_order list" where
  "mine_of input s =
     js_sort newest_id_first
       (filter (\<lambda>o'. loKind o' = SLOT_KIND s) (filter (\<lambda>o'. isLiveOrder o' (sxNow input)) (sxOrders input)))"

text \<open>What one turn of the loop over the slots pushes.\<close>

definition slot_calls_of :: "series_actions \<Rightarrow> (slot \<Rightarrow> slot_target option) \<Rightarrow> ask_floors \<Rightarrow> slot \<Rightarrow> slot_calls" where
  "slot_calls_of input targets askFloors s =
     (let mine = mine_of input s;
          extra = map (\<lambda>o'. (loId o', True)) (tl mine);
          replaceMarginS = or_else (sxReplaceMarginS input) (sxRefreshS input);
          none = \<lparr>scCancels = extra, scReplaces = [], scPlaces = []\<rparr>
      in case (targets s, sxValidUntil input s) of
           (Some target, Some validUntil) \<Rightarrow>
             if tgUnits target \<le> 0 then
               none\<lparr>scCancels := extra @ map (\<lambda>o'. (loId o', True)) (take 1 mine)\<rparr>
             else (case mine of
                 [] \<Rightarrow> none\<lparr>scPlaces := [place_of input s target validUntil False]\<rparr>
               | keep # _ \<Rightarrow>
                   if loValidUntil keep - sxNow input < sxRefreshS input
                      \<and> validUntil > loValidUntil keep + sxRefreshS input then
                     none\<lparr>scCancels := extra @ [(loId keep, False)],
                          scPlaces := [place_of input s target validUntil False]\<rparr>
                   else
                     let safeFloor = map_option (\<lambda>f. f s) (sxSafeFloor input);
                         (replace, protective) = judgeReplace keep target s askFloors (sxBidCap input) safeFloor (sxParams input)
                     in if replace \<and> loValidUntil keep - sxNow input < replaceMarginS then
                          none\<lparr>scCancels := extra @ [(loId keep, protective)],
                               scPlaces := [place_of input s target validUntil protective]\<rparr>
                        else if replace then
                          none\<lparr>scReplaces := [\<lparr>rcLongId = sxLongId input, rcSlot = s, rcOrderId = loId keep,
                            rcPrice = tgPrice target, rcUnits = tgUnits target, rcFromPrice = loPrice keep,
                            rcFromUnits = loUnits keep - loFilled keep, rcProtective = protective,
                            rcOrderValidUntil = Some (loValidUntil keep)\<rparr>]\<rparr>
                        else none)
         | _ \<Rightarrow> none\<lparr>scCancels := extra @ map (\<lambda>o'. (loId o', True)) (take 1 mine)\<rparr>)"

definition SLOTS :: "slot list" where "SLOTS = [SlotBid, SlotWrite, SlotResale]"

definition cancel_part :: "int \<Rightarrow> (int \<times> bool) list \<Rightarrow> bool \<Rightarrow> mm_action list" where
  "cancel_part longId cancels protective =
     (let part = filter (\<lambda>c. snd c = protective) cancels
      in if part = [] then []
         else [Cancel \<lparr>ccLongId = longId, ccOrderIds = map fst part, ccProtective = protective\<rparr>])"

definition planSeriesActions :: "series_actions \<Rightarrow> mm_action list" where
  "planSeriesActions input =
     (let live = filter (\<lambda>o'. isLiveOrder o' (sxNow input)) (sxOrders input);
          reclaim = filter (\<lambda>o'. isReclaimable o' (sxNow input)) (sxOrders input);
          reclaims = map (\<lambda>o'. (loId o', False)) reclaim
      in case (sxTargets input, sxAskFloors input) of
           (Some targets, Some askFloors) \<Rightarrow>
             let calls = map (slot_calls_of input targets askFloors) SLOTS;
                 cancels = reclaims @ concat (map scCancels calls)
             in cancel_part (sxLongId input) cancels True @ cancel_part (sxLongId input) cancels False
                  @ map Replace (concat (map scReplaces calls)) @ map Place (concat (map scPlaces calls))
         | _ \<Rightarrow>
             let ids = map fst reclaims @ map loId live
             in if ids = [] then []
                else [Cancel \<lparr>ccLongId = sxLongId input, ccOrderIds = ids, ccProtective = (live \<noteq> [])\<rparr>])"

subsection \<open>The order of a tick\<close>

definition is_cancel :: "mm_action \<Rightarrow> bool" where
  "is_cancel a = (case a of Cancel _ \<Rightarrow> True | _ \<Rightarrow> False)"

fun replaces_in :: "mm_action list \<Rightarrow> replace_call list" where
  "replaces_in [] = []"
| "replaces_in (a # as) = (case a of Replace r \<Rightarrow> r # replaces_in as | _ \<Rightarrow> replaces_in as)"

fun places_in :: "mm_action list \<Rightarrow> place_call list" where
  "places_in [] = []"
| "places_in (a # as) = (case a of Place p \<Rightarrow> p # places_in as | _ \<Rightarrow> places_in as)"

definition early :: "replace_call \<Rightarrow> bool" where
  "early a = (rcProtective a \<or> rcUnits a < rcFromUnits a)"

definition escrowOnly :: "replace_call \<Rightarrow> bool" where
  "escrowOnly a = (\<not> early a \<and> rcSlot a = SlotBid \<and> rcUnits a = rcFromUnits a \<and> rcPrice a < rcFromPrice a)"

definition shrinkFirst :: "replace_call list \<Rightarrow> replace_call list" where
  "shrinkFirst xs = filter (\<lambda>a. rcUnits a \<le> rcFromUnits a) xs @ filter (\<lambda>a. rcUnits a > rcFromUnits a) xs"

definition orderActions :: "mm_action list list \<Rightarrow> mm_action list" where
  "orderActions perSeries =
     (let flat = concat perSeries; replaces = replaces_in flat; places = places_in flat
      in filter is_cancel flat
         @ map Replace (shrinkFirst (filter early replaces))
         @ map Place (filter (\<lambda>a. pcSlot a \<noteq> SlotBid) places)
         @ map Replace (filter escrowOnly replaces)
         @ map Place (filter (\<lambda>a. pcSlot a = SlotBid) places)
         @ map Replace (shrinkFirst (filter (\<lambda>a. \<not> early a \<and> \<not> escrowOnly a) replaces)))"

subsection \<open>Nothing is dropped, and no prefix over-commits\<close>

lemma mset_kinds:
  "mset (filter is_cancel as) + mset (map Replace (replaces_in as)) + mset (map Place (places_in as)) = mset as"
  by (induction as) (auto simp: is_cancel_def split: mm_action.split)

lemma mset_shrinkFirst [simp]: "mset (shrinkFirst xs) = mset xs"
  by (induction xs) (auto simp: shrinkFirst_def)

lemma mset_three: "mset (filter early rs) + mset (filter escrowOnly rs) + mset (filter (\<lambda>a. \<not> early a \<and> \<not> escrowOnly a) rs) = mset rs"
  by (induction rs) (auto simp: escrowOnly_def)

lemma mset_two: "mset (filter (\<lambda>a. pcSlot a \<noteq> SlotBid) ps) + mset (filter (\<lambda>a. pcSlot a = SlotBid) ps) = mset ps"
  by (induction ps) auto

lemma orderActions_mset: "mset (orderActions xss) = mset (concat xss)"
proof -
  define f where "f = concat xss"
  have r: "image_mset Replace (mset (filter early (replaces_in f))) + image_mset Replace (mset (filter escrowOnly (replaces_in f)))
      + image_mset Replace (mset (filter (\<lambda>a. \<not> early a \<and> \<not> escrowOnly a) (replaces_in f))) = mset (map Replace (replaces_in f))"
    unfolding image_mset_union [symmetric] mset_three by simp
  have p: "image_mset Place (mset (filter (\<lambda>a. pcSlot a \<noteq> SlotBid) (places_in f)))
      + image_mset Place (mset (filter (\<lambda>a. pcSlot a = SlotBid) (places_in f))) = mset (map Place (places_in f))"
    unfolding image_mset_union [symmetric] mset_two by simp
  have "mset (orderActions xss) = mset (filter is_cancel f) + mset (map Replace (replaces_in f)) + mset (map Place (places_in f))"
    unfolding r [symmetric] p [symmetric] by (simp add: orderActions_def Let_def f_def)
  then show ?thesis by (simp only: mset_kinds f_def)
qed

lemma prefix_sum:
  fixes m :: "'a \<Rightarrow> int"
  assumes "\<And>a. a \<in> set as \<Longrightarrow> m a \<le> 0" and "\<And>b. b \<in> set bs \<Longrightarrow> 0 \<le> m b"
  shows "sum_list (map m (take n (as @ bs))) \<le> max 0 (sum_list (map m (as @ bs)))"
proof (cases "n \<le> length as")
  case True
  have "sum_list (map m xs) \<le> 0" if "\<And>a. a \<in> set xs \<Longrightarrow> m a \<le> 0" for xs
    using that by (induction xs) force+
  then have "sum_list (map m (take n as)) \<le> 0" using assms(1) by (meson in_set_takeD)
  then show ?thesis using True by simp
next
  case False
  have "0 \<le> sum_list (map m (drop (n - length as) bs))"
    using assms(2) by (intro sum_list_nonneg_map) (auto dest: in_set_dropD)
  moreover have "sum_list (map m bs) = sum_list (map m (take (n - length as) bs)) + sum_list (map m (drop (n - length as) bs))"
    by (metis append_take_drop_id map_append sum_list.append)
  ultimately show ?thesis using False by simp
qed

lemma in_replaces: "r \<in> set (replaces_in as) \<longleftrightarrow> Replace r \<in> set as"
  by (induction as) (auto split: mm_action.split)

lemma in_places: "p \<in> set (places_in as) \<longleftrightarrow> Place p \<in> set as"
  by (induction as) (auto split: mm_action.split)

text \<open>
  C1: a budget may cut the tick's list anywhere. The order of the calls is a rearrangement of what the
  series planned; and for every resource that cancels free, that places use and that a replace moves the
  way its units move (notional, write collateral, inventory), every prefix of the list uses at most the
  larger of nothing and what the whole list uses.
\<close>

theorem orderActions_prefix_safe:
  assumes "\<And>c. Cancel c \<in> set (concat xss) \<Longrightarrow> m (Cancel c) \<le> (0 :: int)"
    and "\<And>p. Place p \<in> set (concat xss) \<Longrightarrow> 0 \<le> m (Place p)"
    and "\<And>r. Replace r \<in> set (concat xss) \<Longrightarrow> rcUnits r \<le> rcFromUnits r \<Longrightarrow> m (Replace r) \<le> 0"
    and "\<And>r. Replace r \<in> set (concat xss) \<Longrightarrow> rcFromUnits r \<le> rcUnits r \<Longrightarrow> 0 \<le> m (Replace r)"
  shows "mset (orderActions xss) = mset (concat xss)
    \<and> sum_list (map m (take n (orderActions xss))) \<le> max 0 (sum_list (map m (concat xss)))"
proof -
  define f where "f = concat xss"
  have cancels: "\<And>c. Cancel c \<in> set f \<Longrightarrow> m (Cancel c) \<le> 0" and places: "\<And>p. p \<in> set (places_in f) \<Longrightarrow> 0 \<le> m (Place p)"
    and shrinks: "\<And>r. r \<in> set (replaces_in f) \<Longrightarrow> rcUnits r \<le> rcFromUnits r \<Longrightarrow> m (Replace r) \<le> 0"
    and grows: "\<And>r. r \<in> set (replaces_in f) \<Longrightarrow> rcFromUnits r \<le> rcUnits r \<Longrightarrow> 0 \<le> m (Replace r)"
    using assms by (simp_all only: f_def in_replaces in_places)
  let ?frees = "filter is_cancel f @ map Replace (filter (\<lambda>a. rcUnits a \<le> rcFromUnits a) (filter early (replaces_in f)))"
  let ?adds = "map Replace (filter (\<lambda>a. rcUnits a > rcFromUnits a) (filter early (replaces_in f)))
      @ map Place (filter (\<lambda>a. pcSlot a \<noteq> SlotBid) (places_in f)) @ map Replace (filter escrowOnly (replaces_in f))
      @ map Place (filter (\<lambda>a. pcSlot a = SlotBid) (places_in f))
      @ map Replace (shrinkFirst (filter (\<lambda>a. \<not> early a \<and> \<not> escrowOnly a) (replaces_in f)))"
  have eq: "orderActions xss = ?frees @ ?adds" by (simp add: orderActions_def Let_def shrinkFirst_def f_def)
  have "m a \<le> 0" if "a \<in> set ?frees" for a
    using that cancels shrinks by (auto simp: is_cancel_def split: mm_action.splits)
  moreover have "0 \<le> m b" if "b \<in> set ?adds" for b
    using that places grows by (auto simp: shrinkFirst_def early_def escrowOnly_def)
  ultimately have "sum_list (map m (take n (orderActions xss))) \<le> max 0 (sum_list (map m (orderActions xss)))"
    unfolding eq by (rule prefix_sum)
  moreover have "sum_list (map m (orderActions xss)) = sum_list (map m f)"
    unfolding f_def by (metis orderActions_mset mset_map sum_mset_sum_list)
  ultimately show ?thesis by (simp add: orderActions_mset f_def)
qed

definition unit_change :: "mm_action \<Rightarrow> int" where
  "unit_change a = (case a of Cancel c \<Rightarrow> 0 | Replace r \<Rightarrow> rcUnits r - rcFromUnits r | Place p \<Rightarrow> pcUnits p)"

definition sample_replace :: "slot \<Rightarrow> int \<Rightarrow> int \<Rightarrow> int \<Rightarrow> int \<Rightarrow> mm_action" where
  "sample_replace s price units fromPrice fromUnits =
     Replace \<lparr>rcLongId = 7, rcSlot = s, rcOrderId = 1, rcPrice = price, rcUnits = units, rcFromPrice = fromPrice,
       rcFromUnits = fromUnits, rcProtective = False, rcOrderValidUntil = None\<rparr>"

definition sample_place :: "slot \<Rightarrow> int \<Rightarrow> int \<Rightarrow> mm_action" where
  "sample_place s price units =
     Place \<lparr>pcLongId = 8, pcSlot = s, pcKind = 0, pcPrice = price, pcUnits = units, pcValidUntil = 100, pcProtective = False, pcLife = None\<rparr>"

theorem orderActions_prefix_safe_witness:
  "sum_list (map unit_change (take 2 (orderActions [[sample_place SlotBid 500 30], [sample_replace SlotWrite 900 50 800 90]]))) \<le> 0"
proof -
  let ?xs = "[[sample_place SlotBid 500 30], [sample_replace SlotWrite 900 50 800 90]]"
  have "sum_list (map unit_change (take 2 (orderActions ?xs))) \<le> max 0 (sum_list (map unit_change (concat ?xs)))"
    by (rule conjunct2 [OF orderActions_prefix_safe]) (auto simp: unit_change_def sample_place_def sample_replace_def)
  then show ?thesis by (simp add: unit_change_def sample_place_def sample_replace_def)
qed

text \<open>
  The escrow of the bids is not one of these resources: a routine bid replace to more units at a lower
  price frees escrow and is sent after the bid places, so a prefix can hold more than both ends.
\<close>

definition escrow_change :: "mm_action \<Rightarrow> int" where
  "escrow_change a =
     (case a of Cancel c \<Rightarrow> 0
      | Replace r \<Rightarrow> if rcSlot r = SlotBid then bidEscrowOf (rcPrice r) (rcUnits r) - bidEscrowOf (rcFromPrice r) (rcFromUnits r) else 0
      | Place p \<Rightarrow> if pcSlot p = SlotBid then bidEscrowOf (pcPrice p) (pcUnits p) else 0)"

theorem orderActions_escrow_exceeds:
  "let xss = [[sample_place SlotBid 50000 1000], [sample_replace SlotBid 10000 1010 90000 1000]]
   in sum_list (map escrow_change (concat xss)) < 0 \<and> sum_list (map escrow_change (take 1 (orderActions xss))) = 500000"
  by code_simp

subsection \<open>One quote per slot\<close>

fun cancelled_ids :: "mm_action list \<Rightarrow> int list" where
  "cancelled_ids [] = []"
| "cancelled_ids (a # as) = (case a of Cancel c \<Rightarrow> ccOrderIds c @ cancelled_ids as | _ \<Rightarrow> cancelled_ids as)"

lemma cancelled_ids_append [simp]: "cancelled_ids (xs @ ys) = cancelled_ids xs @ cancelled_ids ys"
  by (induction xs) (auto split: mm_action.split)

lemma replaces_in_append [simp]: "replaces_in (xs @ ys) = replaces_in xs @ replaces_in ys" "places_in (xs @ ys) = places_in xs @ places_in ys"
  by (induction xs; auto split: mm_action.split)+

lemma only_maps [simp]:
  "cancelled_ids (map Replace rs) = []" "cancelled_ids (map Place ps) = []"
  "replaces_in (map Replace rs) = rs" "replaces_in (map Place ps) = []"
  "places_in (map Place ps) = ps" "places_in (map Replace rs) = []"
proof -
  show "cancelled_ids (map Replace rs) = []" "replaces_in (map Replace rs) = rs" "places_in (map Replace rs) = []"
    by (induction rs) simp_all
  show "cancelled_ids (map Place ps) = []" "replaces_in (map Place ps) = []" "places_in (map Place ps) = ps"
    by (induction ps) simp_all
qed

lemma cancel_parts_ids: "set (cancelled_ids (cancel_part l cs True)) \<union> set (cancelled_ids (cancel_part l cs False)) = fst ` set cs"
proof -
  have "set (cancelled_ids (cancel_part l cs b)) = fst ` {c \<in> set cs. snd c = b}" for b
    by (auto simp: cancel_part_def Let_def filter_empty_conv)
  moreover have "fst ` {c \<in> X. snd c = True} \<union> fst ` {c \<in> X. snd c = False} = fst ` X" for X :: "(int \<times> bool) set" by force
  ultimately show ?thesis by simp
qed

lemma cancel_part_parts [simp]:
  "replaces_in (cancel_part l cs b) = []" "places_in (cancel_part l cs b) = []"
  by (auto simp: cancel_part_def Let_def filter_empty_conv)

lemma plan_parts:
  assumes "sxTargets input = Some targets" and "sxAskFloors input = Some floors"
  shows plan_cancels: "set (cancelled_ids (planSeriesActions input)) =
      loId ` {o' \<in> set (sxOrders input). isReclaimable o' (sxNow input)}
      \<union> (\<Union>s \<in> {SlotBid, SlotWrite, SlotResale}. fst ` set (scCancels (slot_calls_of input targets floors s)))"
    and plan_replaces: "replaces_in (planSeriesActions input) =
      concat (map (\<lambda>s. scReplaces (slot_calls_of input targets floors s)) [SlotBid, SlotWrite, SlotResale])"
    and plan_places: "places_in (planSeriesActions input) =
      concat (map (\<lambda>s. scPlaces (slot_calls_of input targets floors s)) [SlotBid, SlotWrite, SlotResale])"
proof -
  show "set (cancelled_ids (planSeriesActions input)) =
      loId ` {o' \<in> set (sxOrders input). isReclaimable o' (sxNow input)}
      \<union> (\<Union>s \<in> {SlotBid, SlotWrite, SlotResale}. fst ` set (scCancels (slot_calls_of input targets floors s)))"
    by (simp add: planSeriesActions_def assms Let_def SLOTS_def cancel_parts_ids image_Un image_image)
qed (simp_all add: planSeriesActions_def assms Let_def SLOTS_def)

definition wanted :: "series_actions \<Rightarrow> (slot \<Rightarrow> slot_target option) \<Rightarrow> slot \<Rightarrow> (slot_target \<times> seconds) option" where
  "wanted input targets s =
     (case (targets s, sxValidUntil input s) of
        (Some t, Some v) \<Rightarrow> if tgUnits t \<le> 0 then None else Some (t, v)
      | _ \<Rightarrow> None)"

text \<open>What the pushes of one slot amount to.\<close>

definition slot_settled :: "series_actions \<Rightarrow> (slot \<Rightarrow> slot_target option) \<Rightarrow> ask_floors \<Rightarrow> slot
    \<Rightarrow> live_order list \<Rightarrow> replace_call list \<Rightarrow> place_call list \<Rightarrow> bool" where
  "slot_settled input targets floors s left rs ps =
     (case wanted input targets s of
        None \<Rightarrow> left = [] \<and> rs = [] \<and> ps = []
      | Some (t, v) \<Rightarrow>
          length left + length ps = 1
          \<and> list_all (\<lambda>p. pcPrice p = tgPrice t \<and> pcUnits p = tgUnits t \<and> pcValidUntil p = v) ps
          \<and> list_all (\<lambda>k.
              if fst (judgeReplace k t s floors (sxBidCap input) (map_option (\<lambda>f. f s) (sxSafeFloor input)) (sxParams input))
              then map rcOrderId rs = [loId k] \<and> list_all (\<lambda>r. rcPrice r = tgPrice t \<and> rcUnits r = tgUnits t) rs
              else rs = []) left
          \<and> (left = [] \<longrightarrow> rs = []))"

lemma slot_calls_settled:
  assumes "distinct (map loId (mine_of input s))"
  shows "slot_settled input targets floors s
      (filter (\<lambda>k. loId k \<notin> fst ` set (scCancels (slot_calls_of input targets floors s))) (mine_of input s))
      (scReplaces (slot_calls_of input targets floors s)) (scPlaces (slot_calls_of input targets floors s))"
proof (cases "mine_of input s")
  case Nil
  then show ?thesis
    by (auto simp: slot_calls_of_def slot_settled_def wanted_def place_of_def split: option.splits)
next
  case (Cons keep rest)
  have id: "loId keep \<notin> loId ` set rest" using assms Cons by simp
  have none: "filter (\<lambda>k. loId k \<notin> insert (loId keep) (loId ` set rest)) rest = []" "filter (\<lambda>k. loId k \<notin> loId ` set rest) rest = []"
    by (auto simp: filter_empty_conv)
  show ?thesis
    using id none
    by (auto simp: slot_calls_of_def slot_settled_def wanted_def place_of_def Let_def Cons image_Un image_image
        split: option.splits prod.splits if_splits)
qed

lemma mine_of_set: "k \<in> set (mine_of input s) \<longleftrightarrow> k \<in> set (sxOrders input) \<and> loKind k = SLOT_KIND s \<and> isLiveOrder k (sxNow input)"
  by (auto simp: mine_of_def)

lemma slot_cancel_ids: "fst ` set (scCancels (slot_calls_of input targets floors s)) \<subseteq> loId ` set (mine_of input s)"
  by (cases "mine_of input s") (auto simp: slot_calls_of_def Let_def split: option.splits prod.splits if_splits)

lemma SLOT_KIND_inj [simp]: "SLOT_KIND s = SLOT_KIND t \<longleftrightarrow> s = t"
  by (cases s; cases t) (simp_all add: SLOT_KIND_def)

lemma cancelled_mine:
  assumes plan: "sxTargets input = Some targets" "sxAskFloors input = Some floors" and ids: "distinct (map loId (sxOrders input))"
    and k: "k \<in> set (mine_of input s)"
  shows "loId k \<in> set (cancelled_ids (planSeriesActions input)) \<longleftrightarrow> loId k \<in> fst ` set (scCancels (slot_calls_of input targets floors s))"
proof -
  have inj: "inj_on loId (set (sxOrders input))" using ids by (simp add: distinct_map)
  have k_in: "k \<in> set (sxOrders input)" "loKind k = SLOT_KIND s" "isLiveOrder k (sxNow input)" using k by (simp_all add: mine_of_set)
  have no_reclaim: False if r: "loId k \<in> loId ` {o' \<in> set (sxOrders input). isReclaimable o' (sxNow input)}"
  proof -
    obtain q where q: "q \<in> set (sxOrders input)" "isReclaimable q (sxNow input)" "loId k = loId q" using r by blast
    have "k = q" using inj q(3) k_in(1) q(1) by (rule inj_onD)
    with q k_in(3) show False by (simp add: isReclaimable_def isLiveOrder_def)
  qed
  have own: "t = s" if c: "loId k \<in> fst ` set (scCancels (slot_calls_of input targets floors t))" for t
  proof -
    obtain q where q: "q \<in> set (mine_of input t)" "loId k = loId q" using subsetD [OF slot_cancel_ids c] by blast
    have "k = q" using inj q(2) k_in(1) by (rule inj_onD) (use q(1) in \<open>simp add: mine_of_set\<close>)
    with q k_in(2) show "t = s" by (simp add: mine_of_set)
  qed
  have s_in: "s \<in> {SlotBid, SlotWrite, SlotResale}" by (cases s) simp_all
  show ?thesis unfolding plan_cancels [OF plan] Un_iff UN_iff using no_reclaim own s_in by blast
qed

lemma slot_calls_slots:
  "r \<in> set (scReplaces (slot_calls_of input targets floors s)) \<Longrightarrow> rcSlot r = s"
  "p \<in> set (scPlaces (slot_calls_of input targets floors s)) \<Longrightarrow> pcSlot p = s"
  by (auto simp: slot_calls_of_def place_of_def Let_def split: option.splits prod.splits if_splits list.splits)

lemma filter_slot:
  "(\<And>t x. x \<in> set (f t) \<Longrightarrow> g x = t) \<Longrightarrow> filter (\<lambda>x. g x = s) (concat (map f [SlotBid, SlotWrite, SlotResale])) = f s"
proof -
  assume g: "\<And>t x. x \<in> set (f t) \<Longrightarrow> g x = t"
  have "filter (\<lambda>x. g x = s) (f t) = (if t = s then f t else [])" for t
    using g [of _ t] by (auto simp: filter_empty_conv filter_id_conv)
  then show ?thesis by (cases s) simp_all
qed

text \<open>
  The orders of the account that are live in a slot, and the newest of them. A kept order must go when
  its target outlives it by more than the refresh time and little of its own time is left, or when it
  needs a new price or size and has less than the replace margin left.
\<close>

definition live_in :: "series_actions \<Rightarrow> slot \<Rightarrow> live_order \<Rightarrow> bool" where
  "live_in input s k = (k \<in> set (sxOrders input) \<and> loKind k = SLOT_KIND s \<and> isLiveOrder k (sxNow input))"

definition newest_in :: "series_actions \<Rightarrow> slot \<Rightarrow> live_order \<Rightarrow> bool" where
  "newest_in input s k = (live_in input s k \<and> (\<forall>q \<in> set (sxOrders input). live_in input s q \<longrightarrow> loId q \<le> loId k))"

definition must_go :: "series_actions \<Rightarrow> ask_floors \<Rightarrow> slot \<Rightarrow> live_order \<Rightarrow> slot_target \<Rightarrow> seconds \<Rightarrow> bool" where
  "must_go input floors s k t v =
     (loValidUntil k - sxNow input < sxRefreshS input \<and> loValidUntil k + sxRefreshS input < v
      \<or> loValidUntil k - sxNow input < or_else (sxReplaceMarginS input) (sxRefreshS input)
        \<and> fst (judgeReplace k t s floors (sxBidCap input) (map_option (\<lambda>f. f s) (sxSafeFloor input)) (sxParams input)))"

interpretation newest_id: comparator newest_id_first
  by unfold_locales (auto simp: newest_id_first_def split: if_splits)

lemma newest_id_le: "newest_id_first a b \<le> 0 \<longleftrightarrow> loId b \<le> loId a"
  by (simp add: newest_id_first_def)

lemma mine_of_live: "k \<in> set (mine_of input s) \<longleftrightarrow> live_in input s k"
  by (simp add: mine_of_set live_in_def)

lemma mine_of_newest:
  assumes "mine_of input s = keep # rest"
  shows "newest_in input s keep" and "k \<in> set rest \<Longrightarrow> loId k \<le> loId keep"
proof -
  have "sorted_wrt (\<lambda>a b. newest_id_first a b \<le> 0) (mine_of input s)"
    unfolding mine_of_def by (rule newest_id.sort_sorted)
  then have le: "\<forall>q \<in> set rest. loId q \<le> loId keep" by (simp add: assms newest_id_le)
  then show "k \<in> set rest \<Longrightarrow> loId k \<le> loId keep" by blast
  have "live_in input s q \<longleftrightarrow> q = keep \<or> q \<in> set rest" for q
    using mine_of_live [of q input s] by (simp add: assms)
  then show "newest_in input s keep" using le by (auto simp: newest_in_def)
qed

lemma newest_unique:
  assumes "distinct (map loId (sxOrders input))" and "newest_in input s k" and "newest_in input s q"
  shows "k = q"
  using assms by (force simp: newest_in_def live_in_def distinct_map dest: inj_onD)

lemma slot_kept:
  assumes ids: "distinct (map loId (sxOrders input))" and mine: "k \<in> set (mine_of input s)"
  shows "loId k \<notin> fst ` set (scCancels (slot_calls_of input targets floors s))
    \<longleftrightarrow> (case wanted input targets s of None \<Rightarrow> False | Some (t, v) \<Rightarrow> newest_in input s k \<and> \<not> must_go input floors s k t v)"
proof (cases "mine_of input s")
  case Nil
  then show ?thesis using mine by simp
next
  case (Cons keep rest)
  have "distinct (map loId (js_sort newest_id_first xs)) = distinct (map loId xs)" for xs
    by (rule mset_eq_imp_distinct_iff) simp
  then have "distinct (map loId (mine_of input s))" using ids by (simp add: mine_of_def distinct_map_filter)
  then have id: "loId keep \<notin> loId ` set rest" by (simp add: Cons)
  have new: "newest_in input s keep" by (rule mine_of_newest(1) [OF Cons])
  have "k \<in> set rest \<Longrightarrow> k \<noteq> keep" using id by blast
  then have rest: "k \<in> set rest \<Longrightarrow> \<not> newest_in input s k" using newest_unique [OF ids new] by blast
  have k: "k = keep \<or> k \<in> set rest" using mine by (simp add: Cons)
  show ?thesis
    using k id new rest
    by (auto simp: slot_calls_of_def wanted_def must_go_def Let_def Cons image_Un image_image
        split: option.splits prod.splits if_splits)
qed

lemma slot_settled_mset:
  assumes "mset left = mset left'"
  shows "slot_settled input targets floors s left rs ps \<longleftrightarrow> slot_settled input targets floors s left' rs ps"
proof -
  have len: "length left = length left'" by (rule mset_eq_length [OF assms])
  have set: "set left = set left'" by (rule mset_eq_setD [OF assms])
  have "left = [] \<longleftrightarrow> left' = []" using set by (metis set_empty)
  with len set show ?thesis unfolding slot_settled_def list_all_iff by (simp only:)
qed

text \<open>
  C5: one quote per slot. The plan of a series that is not halted leaves, in each slot, no order when
  there is no target (or none may live), and otherwise exactly one: a live order of the slot, left at its
  price when it is within the thresholds and replaced at the target's price and size when it is not, or one
  placed fresh at the target, with the target's \<open>validUntil\<close>. The order left standing is the live order of
  the slot with the largest id, and that order is cancelled only when there is no target or too little of
  its time is left; every other live order of the slot is cancelled.
\<close>

theorem planSeriesActions_one_quote:
  assumes "sxTargets input = Some targets" and "sxAskFloors input = Some floors" and "distinct (map loId (sxOrders input))"
  shows "slot_settled input targets floors s
      (filter (\<lambda>k. live_in input s k \<and> loId k \<notin> set (cancelled_ids (planSeriesActions input))) (sxOrders input))
      (filter (\<lambda>r. rcSlot r = s) (replaces_in (planSeriesActions input)))
      (filter (\<lambda>p. pcSlot p = s) (places_in (planSeriesActions input)))
    \<and> (\<forall>k. live_in input s k \<longrightarrow>
        (loId k \<notin> set (cancelled_ids (planSeriesActions input))
          \<longleftrightarrow> (case wanted input targets s of None \<Rightarrow> False
                | Some (t, v) \<Rightarrow> newest_in input s k \<and> \<not> must_go input floors s k t v)))"
proof -
  let ?gone = "set (cancelled_ids (planSeriesActions input))"
  let ?cancels = "fst ` set (scCancels (slot_calls_of input targets floors s))"
  have "distinct (map loId (js_sort newest_id_first xs)) = distinct (map loId xs)" for xs
    by (rule mset_eq_imp_distinct_iff) simp
  then have d: "distinct (map loId (mine_of input s))" using assms(3) by (simp add: mine_of_def distinct_map_filter)
  have gone: "live_in input s k \<Longrightarrow> loId k \<in> ?gone \<longleftrightarrow> loId k \<in> ?cancels" for k
    using cancelled_mine [OF assms(1,2,3)] by (simp add: mine_of_live)
  have kept: "filter (\<lambda>k. live_in input s k \<and> loId k \<notin> ?gone) (sxOrders input)
      = filter (\<lambda>k. loId k \<notin> ?cancels) (filter (live_in input s) (sxOrders input))"
    unfolding filter_filter by (rule filter_cong [OF refl]) (use gone in blast)
  have mine: "mset (filter (live_in input s) (sxOrders input)) = mset (mine_of input s)"
    by (simp add: mine_of_def live_in_def filter_filter flip: mset_filter cong: filter_cong)
      (metis (mono_tags, lifting) filter_cong)
  have left: "mset (filter (\<lambda>k. live_in input s k \<and> loId k \<notin> ?gone) (sxOrders input))
      = mset (filter (\<lambda>k. loId k \<notin> ?cancels) (mine_of input s))"
    unfolding kept by (subst (1 2) mset_filter) (simp only: mine)
  have reps: "filter (\<lambda>r. rcSlot r = s) (replaces_in (planSeriesActions input)) = scReplaces (slot_calls_of input targets floors s)"
    unfolding plan_replaces [OF assms(1,2)] by (rule filter_slot) (rule slot_calls_slots)
  have pls: "filter (\<lambda>p. pcSlot p = s) (places_in (planSeriesActions input)) = scPlaces (slot_calls_of input targets floors s)"
    unfolding plan_places [OF assms(1,2)] by (rule filter_slot) (rule slot_calls_slots)
  show ?thesis
    unfolding reps pls slot_settled_mset [OF left]
    using slot_calls_settled [OF d] slot_kept [OF assms(3)] gone by (simp add: mine_of_live)
qed

definition sample_series :: series_actions where
  "sample_series =
     \<lparr>sxLongId = 7, sxNow = 1000,
      sxOrders = [\<lparr>loId = 3, loKind = Bid, loPrice = 900000, loUnits = 100, loFilled = 0, loValidUntil = 5000, loCancelled = False\<rparr>,
        \<lparr>loId = 4, loKind = Bid, loPrice = 950000, loUnits = 100, loFilled = 40, loValidUntil = 5000, loCancelled = False\<rparr>,
        \<lparr>loId = 5, loKind = AskResale, loPrice = 1200000, loUnits = 50, loFilled = 0, loValidUntil = 900, loCancelled = False\<rparr>],
      sxTargets = Some (\<lambda>s. case s of SlotBid \<Rightarrow> Some \<lparr>tgPrice = 800000, tgUnits = 100\<rparr>
                                  | SlotWrite \<Rightarrow> Some \<lparr>tgPrice = 1300000, tgUnits = 200\<rparr> | SlotResale \<Rightarrow> None),
      sxValidUntil = (\<lambda>s. Some 6000), sxLife = (\<lambda>s. None),
      sxAskFloors = Some \<lparr>afWrite = 1000000, afResale = 1000000\<rparr>, sxBidCap = 850000, sxRefreshS = 120, sxReplaceMarginS = None,
      sxParams = piParams sample_price_input, sxSafeFloor = None\<rparr>"

theorem planSeriesActions_one_quote_witness:
  "cancelled_ids (planSeriesActions sample_series) = [3, 5]
   \<and> (\<exists>targets floors. slot_settled sample_series targets floors SlotBid
        (filter (\<lambda>k. live_in sample_series SlotBid k \<and> loId k \<notin> set (cancelled_ids (planSeriesActions sample_series)))
          (sxOrders sample_series))
        (filter (\<lambda>r. rcSlot r = SlotBid) (replaces_in (planSeriesActions sample_series)))
        (filter (\<lambda>p. pcSlot p = SlotBid) (places_in (planSeriesActions sample_series))))
   \<and> newest_in sample_series SlotBid (sxOrders sample_series ! 1)"
proof (intro conjI)
  let ?k = "sxOrders sample_series ! 1"
  show gone: "cancelled_ids (planSeriesActions sample_series) = [3, 5]" by code_simp
  obtain targets floors where t: "sxTargets sample_series = Some targets" "sxAskFloors sample_series = Some floors"
    by (simp add: sample_series_def)
  have "distinct (map loId (sxOrders sample_series))" by (simp add: sample_series_def)
  note quote = planSeriesActions_one_quote [OF t this, of SlotBid]
  from conjunct1 [OF quote]
  show "\<exists>targets floors. slot_settled sample_series targets floors SlotBid
      (filter (\<lambda>k. live_in sample_series SlotBid k \<and> loId k \<notin> set (cancelled_ids (planSeriesActions sample_series)))
        (sxOrders sample_series))
      (filter (\<lambda>r. rcSlot r = SlotBid) (replaces_in (planSeriesActions sample_series)))
      (filter (\<lambda>p. pcSlot p = SlotBid) (places_in (planSeriesActions sample_series)))" by blast
  have live: "live_in sample_series SlotBid ?k" and "loId ?k = 4"
    by (simp_all add: live_in_def sample_series_def SLOT_KIND_def isLiveOrder_def)
  then have "loId ?k \<notin> set (cancelled_ids (planSeriesActions sample_series))" unfolding gone by simp
  with spec [OF conjunct2 [OF quote], of ?k] live show "newest_in sample_series SlotBid ?k"
    by (auto split: option.splits)
qed

lemma halted_plan:
  assumes "sxTargets input = None \<or> sxAskFloors input = None"
  shows halted_cancels: "set (cancelled_ids (planSeriesActions input)) = loId ` {o' \<in> set (sxOrders input). isKillTarget o' (sxNow input)}"
    and "replaces_in (planSeriesActions input) = []" "places_in (planSeriesActions input) = []"
proof -
  let ?live = "filter (\<lambda>o'. isLiveOrder o' (sxNow input)) (sxOrders input)"
  let ?reclaim = "filter (\<lambda>o'. isReclaimable o' (sxNow input)) (sxOrders input)"
  let ?ids = "map loId ?reclaim @ map loId ?live"
  have "planSeriesActions input = (if ?ids = [] then []
      else [Cancel \<lparr>ccLongId = sxLongId input, ccOrderIds = ?ids, ccProtective = (?live \<noteq> [])\<rparr>])"
    using assms by (auto simp: planSeriesActions_def Let_def comp_def split: option.splits)
  then have "cancelled_ids (planSeriesActions input) = ?ids \<and> replaces_in (planSeriesActions input) = [] \<and> places_in (planSeriesActions input) = []"
    by (simp only: cancelled_ids.simps replaces_in.simps places_in.simps split: if_split) auto
  then show "set (cancelled_ids (planSeriesActions input)) = loId ` {o' \<in> set (sxOrders input). isKillTarget o' (sxNow input)}"
    "replaces_in (planSeriesActions input) = []" "places_in (planSeriesActions input) = []"
    by (auto simp: isKillTarget_def)
qed

text \<open>
  a halt pulls everything. When a series is halted or its ask floors could not be read, the plan
  cancels exactly what the kill switch must cancel (every live order and every expired one that still
  holds escrow) and sends nothing else; and no plan leaves expired escrow standing.
\<close>

theorem planSeriesActions_halted:
  "((sxTargets input = None \<or> sxAskFloors input = None) \<longrightarrow>
      set (cancelled_ids (planSeriesActions input)) = set (map loId (filter (\<lambda>o'. isKillTarget o' (sxNow input)) (sxOrders input)))
      \<and> replaces_in (planSeriesActions input) = [] \<and> places_in (planSeriesActions input) = [])
   \<and> set (map loId (filter (\<lambda>o'. isReclaimable o' (sxNow input)) (sxOrders input))) \<subseteq> set (cancelled_ids (planSeriesActions input))"
proof (cases "sxTargets input = None \<or> sxAskFloors input = None")
  case True
  then show ?thesis using halted_plan [OF True] by (auto simp: isKillTarget_def)
next
  case False
  then obtain targets floors where "sxTargets input = Some targets" "sxAskFloors input = Some floors" by auto
  from plan_cancels [OF this] False show ?thesis by auto
qed

theorem planSeriesActions_halted_witness:
  "set (cancelled_ids (planSeriesActions (sample_series\<lparr>sxTargets := None\<rparr>))) = {3, 4, 5}"
  using planSeriesActions_halted [of "sample_series\<lparr>sxTargets := None\<rparr>"]
  by (simp add: sample_series_def isKillTarget_def isLiveOrder_def isReclaimable_def)

lemma life_cap:
  assumes l_def: "l = quoteLifeOf (input\<lparr>liNow := Some now\<rparr>)"
  shows "qlCap l \<le> pullAtOf (liExpiry input) (liPullMinutes input)"
    "qlCap l \<le> (if liSlot input = SlotWrite then mintCutoffOf (liExpiry input) else liExpiry input)"
    "liSlot input = SlotWrite \<Longrightarrow> liWriteStopAt input = Some w \<Longrightarrow> qlCap l \<le> w"
    "liSessionClose input = Some c \<Longrightarrow> qlCap l \<le> c"
    "0 < liMaxOrderLifetime input \<Longrightarrow> qlCap l \<le> now + liMaxOrderLifetime input"
  unfolding l_def quoteLifeOf_def Let_def
  by (cases "liWriteStopAt input"; cases "liSessionClose input"; simp add: min_le_iff_disj)+

lemma life_lifetime:
  "0 < or_else (liMaxQuoteLifetime input) 0 \<Longrightarrow>
     0 < qlLifetime (quoteLifeOf (input\<lparr>liNow := Some now\<rparr>))
     \<and> qlLifetime (quoteLifeOf (input\<lparr>liNow := Some now\<rparr>)) \<le> or_else (liMaxQuoteLifetime input) 0"
  by (simp add: quoteLifeOf_def Let_def js_min_def)

text \<open>
  a quote ends by itself in time. The \<open>validUntil\<close> of a new quote is in the future and past none of
  its bounds: the series limit of its kind, the pull time, the write stop of a write ask, the session's
  close, the vault's maximum lifetime from the head and the bot's own.
\<close>

theorem quoteValidUntil_bounds:
  "(case quoteValidUntil input now of
      None \<Rightarrow> True
    | Some v \<Rightarrow> now < v \<and> v \<le> pullAtOf (liExpiry input) (liPullMinutes input)
        \<and> v \<le> (if liSlot input = SlotWrite then mintCutoffOf (liExpiry input) else liExpiry input)
        \<and> v \<le> or_else (if liSlot input = SlotWrite then liWriteStopAt input else None) v
        \<and> v \<le> or_else (liSessionClose input) v
        \<and> (liMaxOrderLifetime input \<le> 0 \<or> v \<le> now + liMaxOrderLifetime input)
        \<and> (or_else (liMaxQuoteLifetime input) 0 \<le> 0 \<or> v \<le> now + or_else (liMaxQuoteLifetime input) 0))"
proof (cases "quoteValidUntil input now")
  case (Some v)
  let ?l = "quoteLifeOf (input\<lparr>liNow := Some now\<rparr>)"
  have v: "now < v" "v \<le> qlCap ?l" "0 < qlLifetime ?l \<Longrightarrow> v \<le> now + qlLifetime ?l"
    using Some by (auto simp: quoteValidUntil_def validUntilAt_def Let_def split: if_splits)
  have "v \<le> or_else (if liSlot input = SlotWrite then liWriteStopAt input else None) v"
    using life_cap(3) [OF refl, where input = input and now = now] v(2) by (cases "liWriteStopAt input") (auto intro: order_trans)
  moreover have "v \<le> or_else (liSessionClose input) v"
    using life_cap(4) [OF refl, where input = input and now = now] v(2) by (cases "liSessionClose input") (auto intro: order_trans)
  ultimately show ?thesis
    using Some v life_cap(1) [OF refl, where input = input and now = now] life_cap(2) [OF refl, where input = input and now = now] life_cap(5) [OF refl, where input = input and now = now] life_lifetime [where input = input and now = now] by (simp add: not_less) linarith
qed simp

end
