(* ===== verification/LadderPlan.thy ===== *)
theory LadderPlan
  imports JsPrelude
begin

section \<open>Strike ladders (keeper/src/v2/cranker/planner.ts, LADDERS)\<close>

text \<open>
  The registry ladder around spot, the plan that completes or re-centres it, the expiries it targets
  and the slots a market carries. Prices are bigints; \<open>rungs\<close>, the bps parameters and the times are
  whole numbers. The on-chain calendar read (\<open>NextExpiryRead\<close>) is a parameter whose rejection is \<open>None\<close>.
\<close>

subsection \<open>Rounding to the tick and the strike band\<close>

definition BPS :: int where "BPS = 10000"
definition MIN_SERIES_LEAD :: seconds where "MIN_SERIES_LEAD = 3600"
definition LADDER_LEAD_MARGIN_S :: seconds where "LADDER_LEAD_MARGIN_S = 300"

definition ceilDiv :: "int \<Rightarrow> int \<Rightarrow> int" where
  "ceilDiv a b = (a + b - 1) sdiv b"

definition roundUpToTick :: "int \<Rightarrow> int \<Rightarrow> int" where
  "roundUpToTick value tick = ceilDiv value tick * tick"

definition roundDownToTick :: "int \<Rightarrow> int \<Rightarrow> int" where
  "roundDownToTick value tick = (value sdiv tick) * tick"

definition inStrikeBand :: "int \<Rightarrow> int \<Rightarrow> bool" where
  "inStrikeBand strike spot = (strike > 0 \<and> strike \<ge> spot sdiv 2 \<and> strike \<le> spot * 2)"

definition isOtm :: "int \<Rightarrow> int \<Rightarrow> bool \<Rightarrow> bool" where
  "isOtm strike spot isPut = (if isPut then strike < spot else strike > spot)"

text \<open>
  What any price grid promises of its two roundings. The ladder's rungs and the quote ticks of the
  market maker both rest on it.
\<close>

locale tick_grid =
  fixes up :: "int \<Rightarrow> int" and down :: "int \<Rightarrow> int" and tick :: int and dom_ok :: "int \<Rightarrow> bool"
  assumes tick_pos: "0 < tick"
    and up_dvd: "tick dvd up v" and down_dvd: "tick dvd down v"
    and up_ge: "dom_ok v \<Longrightarrow> v \<le> up v" and up_near: "dom_ok v \<Longrightarrow> up v < v + tick"
    and down_le: "dom_ok v \<Longrightarrow> down v \<le> v" and down_near: "dom_ok v \<Longrightarrow> v - tick < down v"
begin

lemma up_least: "dom_ok v \<Longrightarrow> tick dvd w \<Longrightarrow> v \<le> w \<Longrightarrow> up v \<le> w"
proof (rule ccontr)
  assume v: "dom_ok v" "tick dvd w" "v \<le> w" and "\<not> up v \<le> w"
  then have "0 < up v - w" "up v - w < tick" using up_near [OF v(1)] by auto
  moreover have "tick dvd up v - w" using up_dvd v(2) by (rule dvd_diff)
  ultimately show False using zdvd_not_zless by blast
qed

lemma down_greatest: "dom_ok v \<Longrightarrow> tick dvd w \<Longrightarrow> w \<le> v \<Longrightarrow> w \<le> down v"
proof (rule ccontr)
  assume v: "dom_ok v" "tick dvd w" "w \<le> v" and "\<not> w \<le> down v"
  then have "0 < w - down v" "w - down v < tick" using down_near [OF v(1)] by auto
  moreover have "tick dvd w - down v" using v(2) down_dvd by (rule dvd_diff)
  ultimately show False using zdvd_not_zless by blast
qed

lemma up_of_grid: "dom_ok v \<Longrightarrow> tick dvd v \<Longrightarrow> up v = v"
  using up_least [of v v] up_ge [of v] by simp

lemma down_of_grid: "dom_ok v \<Longrightarrow> tick dvd v \<Longrightarrow> down v = v"
  using down_greatest [of v v] down_le [of v] by simp

lemma up_mono: "dom_ok v \<Longrightarrow> dom_ok w \<Longrightarrow> v \<le> w \<Longrightarrow> up v \<le> up w"
  using up_least [of v "up w"] up_ge [of w] up_dvd [of w] by simp

lemma down_mono: "dom_ok v \<Longrightarrow> dom_ok w \<Longrightarrow> v \<le> w \<Longrightarrow> down v \<le> down w"
  using down_greatest [of w "down v"] down_le [of v] down_dvd [of v] by simp

end

lemma ceilDiv_ge: "0 \<le> a \<Longrightarrow> 0 < b \<Longrightarrow> a \<le> ceilDiv a b * b"
  by (simp add: ceilDiv_def ceil_div_ge)

lemma roundUp_dvd [simp]: "tick dvd roundUpToTick v tick"
  by (simp add: roundUpToTick_def)

lemma roundDown_dvd [simp]: "tick dvd roundDownToTick v tick"
  by (simp add: roundDownToTick_def)

lemma roundUp_bounds: "0 < tick \<Longrightarrow> 0 \<le> v \<Longrightarrow> v \<le> roundUpToTick v tick \<and> roundUpToTick v tick < v + tick"
proof -
  assume a: "0 < tick" "0 \<le> v"
  have "roundUpToTick v tick \<le> v + tick - 1"
    using a div_mult_le_int [of tick "v + tick - 1"] by (simp add: roundUpToTick_def ceilDiv_def)
  then show ?thesis using a ceilDiv_ge [of v tick] by (simp add: roundUpToTick_def)
qed

lemma roundDown_bounds: "0 < tick \<Longrightarrow> 0 \<le> v \<Longrightarrow> roundDownToTick v tick \<le> v \<and> v - tick < roundDownToTick v tick"
  using div_mult_le_int [of tick v] less_div_mult_int [of tick v]
  by (simp add: roundDownToTick_def distrib_right)

text \<open>Every positive tick gives such a grid on the non-negative prices; the quote tick is 100.\<close>

interpretation strike_grid: tick_grid "\<lambda>v. roundUpToTick v (max 1 tick)" "\<lambda>v. roundDownToTick v (max 1 tick)"
  "max 1 tick" "\<lambda>v. 0 \<le> v" for tick
  using roundUp_bounds [of "max 1 tick"] roundDown_bounds [of "max 1 tick"]
  by unfold_locales auto

subsection \<open>The registry ladder\<close>

record ladder_params =
  lpRungs :: int
  lpFirstOtmBps :: bps
  lpStepBps :: bps

text \<open>
  One pass of the \<open>for\<close> loop per recursive call: \<open>i\<close> is the loop variable, \<open>n\<close> the passes left, and
  \<open>strikes\<close> the array so far, whose \<open>at(-1)\<close> is the previous strike.
\<close>

fun ladder_loop :: "int \<Rightarrow> int \<Rightarrow> int \<Rightarrow> bool \<Rightarrow> nat \<Rightarrow> nat \<Rightarrow> int \<Rightarrow> int list \<Rightarrow> int list" where
  "ladder_loop spot step strikeTick isPut i 0 raw strikes = strikes"
| "ladder_loop spot step strikeTick isPut i (Suc n) raw strikes =
     (let raw' = (if i > 0 then (if isPut then (raw * (BPS - step)) sdiv BPS else ceilDiv (raw * (BPS + step)) BPS)
                  else raw);
          strike0 = (if isPut then roundDownToTick raw' strikeTick else roundUpToTick raw' strikeTick);
          strike = (if strikes = [] then strike0
                    else if \<not> isPut \<and> strike0 \<le> last strikes then last strikes + strikeTick
                    else if isPut \<and> strike0 \<ge> last strikes then last strikes - strikeTick
                    else strike0)
      in if \<not> inStrikeBand strike spot then strikes
         else ladder_loop spot step strikeTick isPut (Suc i) n raw' (strikes @ [strike]))"

definition ladderStrikes :: "int \<Rightarrow> ladder_params \<Rightarrow> int \<Rightarrow> bool \<Rightarrow> int list" where
  "ladderStrikes spot ladder strikeTick isPut =
     (if spot \<le> 0 \<or> strikeTick \<le> 0 then []
      else let first = lpFirstOtmBps ladder;
               raw = (if isPut then (spot * (BPS - first)) sdiv BPS else ceilDiv (spot * (BPS + first)) BPS)
           in ladder_loop spot (lpStepBps ladder) strikeTick isPut 0 (nat (lpRungs ladder)) raw [])"

text \<open>Which way is outwards: up for calls, down for puts.\<close>

definition further_out :: "bool \<Rightarrow> int \<Rightarrow> int \<Rightarrow> bool" where
  "further_out isPut a b = (if isPut then b < a else a < b)"

lemma further_out_trans: "further_out p a b \<Longrightarrow> further_out p b c \<Longrightarrow> further_out p a c"
  by (auto simp: further_out_def split: if_splits)

definition ladder_ok :: "int \<Rightarrow> int \<Rightarrow> bool \<Rightarrow> int list \<Rightarrow> bool" where
  "ladder_ok spot tick isPut ss =
     (sorted_wrt (further_out isPut) ss \<and> (\<forall>s \<in> set ss. inStrikeBand s spot \<and> tick dvd s))"

lemma ladder_ok_snoc:
  assumes "ladder_ok spot tick p ss" "inStrikeBand s spot" "tick dvd s" "ss \<noteq> [] \<Longrightarrow> further_out p (last ss) s"
  shows "ladder_ok spot tick p (ss @ [s])"
proof -
  have "sorted_wrt (further_out p) (ss @ [s])"
    using assms(1,4) by (intro sorted_wrt_snoc [OF further_out_trans]) (auto simp: ladder_ok_def)
  with assms show ?thesis by (auto simp: ladder_ok_def)
qed

lemma ladder_loop_ok:
  assumes "0 < tick" "ladder_ok spot tick p ss"
  shows "ladder_ok spot tick p (ladder_loop spot step tick p i n raw ss)
    \<and> length (ladder_loop spot step tick p i n raw ss) \<le> length ss + n"
  using assms(2)
proof (induction n arbitrary: i raw ss)
  case (Suc n)
  define raw' where "raw' = (if i > 0 then (if p then (raw * (BPS - step)) sdiv BPS
    else ceilDiv (raw * (BPS + step)) BPS) else raw)"
  define s0 where "s0 = (if p then roundDownToTick raw' tick else roundUpToTick raw' tick)"
  define s where "s = (if ss = [] then s0 else if \<not> p \<and> s0 \<le> last ss then last ss + tick
    else if p \<and> s0 \<ge> last ss then last ss - tick else s0)"
  have eq: "ladder_loop spot step tick p i (Suc n) raw ss =
    (if \<not> inStrikeBand s spot then ss else ladder_loop spot step tick p (Suc i) n raw' (ss @ [s]))"
    by (simp add: Let_def raw'_def s0_def s_def)
  have "tick dvd s0" by (simp add: s0_def)
  moreover have "ss \<noteq> [] \<Longrightarrow> tick dvd last ss" using Suc.prems by (simp add: ladder_ok_def)
  ultimately have dvd: "tick dvd s" by (simp add: s_def)
  have out: "ss \<noteq> [] \<Longrightarrow> further_out p (last ss) s"
    using assms(1) by (auto simp: s_def further_out_def)
  show ?case
  proof (cases "inStrikeBand s spot")
    case True
    then have "ladder_ok spot tick p (ss @ [s])" using ladder_ok_snoc [OF Suc.prems _ dvd out] by simp
    from Suc.IH [OF this, of "Suc i" raw'] True show ?thesis by (simp add: eq del: ladder_loop.simps)
  qed (use Suc.prems in \<open>simp add: eq del: ladder_loop.simps\<close>)
qed simp

lemma ladder_loop_step: "\<exists>raw' s. ladder_loop spot step tick p i (Suc n) raw ss =
    (if \<not> inStrikeBand s spot then ss else ladder_loop spot step tick p (Suc i) n raw' (ss @ [s]))"
  by (simp only: ladder_loop.simps Let_def) blast

lemma ladder_loop_prefix: "\<exists>ys. ladder_loop spot step tick p i n raw ss = ss @ ys"
proof (induction n arbitrary: i raw ss)
  case (Suc n)
  obtain raw' s where "ladder_loop spot step tick p i (Suc n) raw ss =
      (if \<not> inStrikeBand s spot then ss else ladder_loop spot step tick p (Suc i) n raw' (ss @ [s]))"
    using ladder_loop_step by blast
  then show ?case using Suc.IH [of "Suc i" raw' "ss @ [s]"] by auto
qed simp

lemma ladder_first:
  assumes "ladder_loop spot step tick p 0 n raw [] = s # ss"
  shows "s = (if p then roundDownToTick raw tick else roundUpToTick raw tick)"
proof (cases n)
  case (Suc m)
  let ?s = "if p then roundDownToTick raw tick else roundUpToTick raw tick"
  have "ladder_loop spot step tick p 0 n raw [] = (if \<not> inStrikeBand ?s spot then []
      else ladder_loop spot step tick p 1 m raw [?s])"
    by (simp add: Suc Let_def)
  with assms ladder_loop_prefix [of spot step tick p 1 m raw "[?s]"] show ?thesis
    by (auto split: if_split_asm)
qed (use assms in simp)

lemma put_first_otm: "0 < spot \<Longrightarrow> 0 < first \<Longrightarrow> first \<le> BPS \<Longrightarrow> 0 < tick \<Longrightarrow>
    roundDownToTick ((spot * (BPS - first)) sdiv BPS) tick < spot"
proof -
  assume a: "0 < spot" "0 < first" "first \<le> BPS" "0 < tick"
  let ?r = "(spot * (BPS - first)) sdiv BPS"
  have n: "0 \<le> spot * (BPS - first)" using a by simp
  have "?r * BPS \<le> spot * (BPS - first)" using n by (simp add: sdiv_mult_le BPS_def)
  also have "\<dots> < spot * BPS" using a by (simp add: algebra_simps)
  finally have "?r < spot" by (simp add: BPS_def)
  moreover have "0 \<le> ?r" using n by (simp add: sdiv_ge_0 BPS_def)
  ultimately show ?thesis using roundDown_bounds [of tick ?r] a by simp
qed

lemma call_first_otm: "0 < spot \<Longrightarrow> 0 < first \<Longrightarrow> 0 < tick \<Longrightarrow>
    spot < roundUpToTick (ceilDiv (spot * (BPS + first)) BPS) tick"
proof -
  assume a: "0 < spot" "0 < first" "0 < tick"
  let ?r = "ceilDiv (spot * (BPS + first)) BPS"
  have B: "0 < BPS" by (simp add: BPS_def)
  have "spot * BPS < spot * (BPS + first)" using a by (simp add: algebra_simps)
  also have "\<dots> \<le> ?r * BPS" using a B by (intro ceilDiv_ge) simp_all
  finally have "spot < ?r" using B by simp
  then show ?thesis using roundUp_bounds [of tick ?r] a by simp
qed

lemma ladder_otm:
  assumes "0 < lpFirstOtmBps ladder" "lpFirstOtmBps ladder \<le> BPS" "s \<in> set (ladderStrikes spot ladder tick p)"
  shows "isOtm s spot p"
proof -
  have pos: "0 < spot" "0 < tick" using assms(3) by (auto simp: ladderStrikes_def split: if_splits)
  let ?first = "lpFirstOtmBps ladder"
  let ?raw = "if p then (spot * (BPS - ?first)) sdiv BPS else ceilDiv (spot * (BPS + ?first)) BPS"
  have eq: "ladderStrikes spot ladder tick p = ladder_loop spot (lpStepBps ladder) tick p 0 (nat (lpRungs ladder)) ?raw []"
    using pos by (simp add: ladderStrikes_def Let_def)
  obtain t ts where tts: "ladderStrikes spot ladder tick p = t # ts"
    using assms(3) by (cases "ladderStrikes spot ladder tick p") auto
  then have t: "t = (if p then roundDownToTick ?raw tick else roundUpToTick ?raw tick)"
    unfolding eq by (rule ladder_first)
  have "isOtm t spot p"
    using put_first_otm [OF pos(1) assms(1,2) pos(2)] call_first_otm [OF pos(1) assms(1) pos(2)]
    by (simp add: t isOtm_def)
  moreover have "ladder_ok spot tick p (t # ts)"
    using ladder_loop_ok [of tick spot p "[]"] pos by (simp add: eq tts [symmetric] ladder_ok_def del: ladder_loop.simps)
  ultimately show ?thesis
    using assms(3) by (fastforce simp: tts ladder_ok_def further_out_def isOtm_def split: if_splits)
qed

text \<open>
  a ladder has at most \<open>rungs\<close> strikes, every one on the strike tick and inside the band
  createSeries accepts, and each strictly further out of the money than the one before it, so no two
  are equal, whatever the tick rounds together; all of them are out of the money at spot.
\<close>

theorem ladderStrikes_well_formed:
  assumes "0 \<le> lpRungs ladder" "0 < lpFirstOtmBps ladder" "lpFirstOtmBps ladder \<le> BPS"
  shows "ladder_ok spot tick isPut (ladderStrikes spot ladder tick isPut)
    \<and> int (length (ladderStrikes spot ladder tick isPut)) \<le> lpRungs ladder
    \<and> list_all (\<lambda>s. isOtm s spot isPut) (ladderStrikes spot ladder tick isPut)"
proof (cases "spot \<le> 0 \<or> tick \<le> 0")
  case True
  then show ?thesis using assms by (simp add: ladderStrikes_def ladder_ok_def)
next
  case False
  then show ?thesis
    using assms ladder_loop_ok [of tick spot isPut "[]" "lpStepBps ladder" 0 "nat (lpRungs ladder)"]
      ladder_otm [of ladder _ spot tick isPut]
    by (simp add: ladderStrikes_def Let_def ladder_ok_def le_nat_iff list_all_iff)
qed

theorem ladderStrikes_well_formed_witness:
  "let ss = ladderStrikes 100 \<lparr>lpRungs = 3, lpFirstOtmBps = 200, lpStepBps = 100\<rparr> 5 False
   in ladder_ok 100 5 False ss \<and> int (length ss) \<le> 3 \<and> list_all (\<lambda>s. isOtm s 100 False) ss"
  using ladderStrikes_well_formed [of "\<lparr>lpRungs = 3, lpFirstOtmBps = 200, lpStepBps = 100\<rparr>" 100 5 False]
  by (simp add: Let_def BPS_def)

subsection \<open>Creating, completing and re-centring a ladder\<close>

text \<open>
  The code keys its \<open>Set\<close> and \<open>Map\<close> of strikes by \<open>toString()\<close>, which is injective on bigints: here
  the strikes themselves are the keys.
\<close>

record ladder_input =
  liSpot :: int
  liLadder :: ladder_params
  liStrikeTick :: int
  liIsPut :: bool
  liExisting :: "int list"
  liAnchor :: "int option"

datatype ladder_reason = LadderInitial | LadderComplete | LadderRecentre | LadderOk

record ladder_plan =
  lplCreate :: "int list"
  lplAnchor :: int
  lplReason :: ladder_reason
  lplOtm :: nat

definition missing_strikes :: "int list \<Rightarrow> int \<Rightarrow> int list \<Rightarrow> int list" where
  "missing_strikes existing spot strikes =
     js_sort cmp3 (js_set (filter (\<lambda>s. s \<notin> set existing \<and> inStrikeBand s spot) strikes))"

definition countOtm :: "int \<Rightarrow> bool \<Rightarrow> int list \<Rightarrow> nat" where
  "countOtm spot isPut strikes = length (filter (\<lambda>s. isOtm s spot isPut) strikes)"

definition ladder_span :: "bool \<Rightarrow> int list \<Rightarrow> int \<Rightarrow> bool" where
  "ladder_span isPut atSpot s =
     (if atSpot = [] then True else if isPut then s \<ge> last atSpot else s \<le> last atSpot)"

definition planLadder :: "ladder_input \<Rightarrow> ladder_plan" where
  "planLadder input =
     (let spot = liSpot input; isPut = liIsPut input; existing = liExisting input;
          here = ladderStrikes spot (liLadder input) (liStrikeTick input) isPut
      in case liAnchor input of
           None \<Rightarrow>
             let create = missing_strikes existing spot here
             in \<lparr>lplCreate = create, lplAnchor = spot,
                 lplReason = (if create \<noteq> [] then LadderInitial else LadderOk),
                 lplOtm = countOtm spot isPut (js_set (existing @ create))\<rparr>
         | Some anchor \<Rightarrow>
             let anchored = filter (\<lambda>s. inStrikeBand s spot)
                              (ladderStrikes anchor (liLadder input) (liStrikeTick input) isPut);
                 union = js_set (filter (ladder_span isPut here) existing @ anchored);
                 otm = countOtm spot isPut union
             in if otm < 2 then
                  let create = missing_strikes existing spot here
                  in \<lparr>lplCreate = create, lplAnchor = spot,
                      lplReason = (if create \<noteq> [] then LadderRecentre else LadderOk), lplOtm = otm\<rparr>
                else
                  let create = missing_strikes existing spot anchored
                  in \<lparr>lplCreate = create, lplAnchor = anchor,
                      lplReason = (if create \<noteq> [] then LadderComplete else LadderOk), lplOtm = otm\<rparr>)"

interpretation numeric_order: comparator "cmp3 :: int \<Rightarrow> int \<Rightarrow> int"
  by unfold_locales (auto simp: cmp3_def split: if_splits)

lemma set_missing [simp]:
  "set (missing_strikes existing spot strikes) = {s \<in> set strikes. s \<notin> set existing \<and> inStrikeBand s spot}"
  by (auto simp: missing_strikes_def)

lemma missing_ascending: "sorted_wrt (<) (missing_strikes existing spot strikes)"
proof -
  have "js_sort cmp3 xs = sort xs" for xs :: "int list" using js_sort_key [of "\<lambda>x. x" xs] by simp
  then have "sorted (missing_strikes existing spot strikes)" by (simp add: missing_strikes_def)
  moreover have "distinct (missing_strikes existing spot strikes)" by (simp add: missing_strikes_def)
  ultimately show ?thesis by (simp add: strict_sorted_iff)
qed

lemma missing_Nil: "set strikes \<subseteq> set existing \<Longrightarrow> missing_strikes existing spot strikes = []"
proof -
  assume "set strikes \<subseteq> set existing"
  then have "set (missing_strikes existing spot strikes) = {}" by auto
  then show ?thesis by (simp only: set_empty)
qed

lemma missing_done:
  "(\<And>s. s \<in> set strikes \<Longrightarrow> inStrikeBand s spot) \<Longrightarrow>
     missing_strikes (existing @ missing_strikes existing spot strikes) spot strikes = []"
  by (rule missing_Nil) auto

lemma ladder_in_band: "s \<in> set (ladderStrikes spot ladder tick p) \<Longrightarrow> inStrikeBand s spot"
proof (cases "spot \<le> 0 \<or> tick \<le> 0")
  case False
  then show "s \<in> set (ladderStrikes spot ladder tick p) \<Longrightarrow> ?thesis"
    using ladder_loop_ok [of tick spot p "[]"] by (auto simp: ladderStrikes_def Let_def ladder_ok_def)
qed (simp add: ladderStrikes_def)

lemma countOtm_set: "set xs = set ys \<Longrightarrow> distinct xs \<Longrightarrow> distinct ys \<Longrightarrow> countOtm spot p xs = countOtm spot p ys"
  by (simp add: countOtm_def distinct_length_filter)

text \<open>
  C21: one pass is enough. Once the series a plan creates exist and its anchor is remembered, the next
  plan at the same spot creates nothing: ladders converge instead of growing tick after tick.
\<close>

theorem planLadder_converges:
  "lplCreate (planLadder (input\<lparr>liExisting := liExisting input @ lplCreate (planLadder input),
                               liAnchor := Some (lplAnchor (planLadder input))\<rparr>)) = []"
proof -
  let ?spot = "liSpot input" and ?p = "liIsPut input" and ?ex = "liExisting input"
  let ?lad = "\<lambda>a. ladderStrikes a (liLadder input) (liStrikeTick input) ?p"
  let ?anch = "\<lambda>a. filter (\<lambda>s. inStrikeBand s ?spot) (?lad a)"
  let ?otm = "\<lambda>ex a. countOtm ?spot ?p (js_set (filter (ladder_span ?p (?lad ?spot)) ex @ ?anch a))"
  have here: "missing_strikes (?ex @ missing_strikes ?ex ?spot (?lad ?spot)) ?spot (?lad ?spot) = []"
    by (rule missing_done) (rule ladder_in_band)
  have spot_anch: "?anch ?spot = ?lad ?spot" by (rule filter_True) (auto intro: ladder_in_band)
  have anch: "missing_strikes (?ex @ missing_strikes ?ex ?spot (?anch a)) ?spot (?anch a) = []" for a
    by (rule missing_done) simp
  have otm: "?otm (?ex @ missing_strikes ?ex ?spot (?anch a)) a = ?otm ?ex a" for a
    by (rule countOtm_set) auto
  show ?thesis
  proof (cases "liAnchor input")
    case None
    then show ?thesis using here by (simp add: planLadder_def Let_def spot_anch)
  next
    case (Some a)
    show ?thesis
    proof (cases "?otm ?ex a < 2")
      case True
      then show ?thesis using Some here by (simp add: planLadder_def Let_def spot_anch)
    next
      case False
      then show ?thesis using Some anch [of a] otm [of a] by (simp add: planLadder_def Let_def)
    qed
  qed
qed

text \<open>
  nothing is created twice or out of reach. The strikes to create are ascending and distinct, none
  of them exists already, and each one lies in the band createSeries accepts at today's spot.
\<close>

theorem planLadder_creates_fresh:
  "sorted_wrt (<) (lplCreate (planLadder input))
   \<and> list_all (\<lambda>s. s \<notin> set (liExisting input) \<and> inStrikeBand s (liSpot input)) (lplCreate (planLadder input))"
proof -
  have "\<exists>strikes. lplCreate (planLadder input) = missing_strikes (liExisting input) (liSpot input) strikes"
    by (auto simp: planLadder_def Let_def split: option.splits)
  then show ?thesis by (auto simp: list_all_iff intro: missing_ascending)
qed

text \<open>
  never fewer than two rungs for long. Whatever the anchor was, the ladder at today's spot is
  complete after the plan unless at least two usable rungs already are out of the money.
\<close>

theorem planLadder_covers_spot:
  assumes "lplOtm (planLadder input) < 2 \<or> liAnchor input = None"
  shows "set (ladderStrikes (liSpot input) (liLadder input) (liStrikeTick input) (liIsPut input))
       \<subseteq> set (liExisting input) \<union> set (lplCreate (planLadder input))
     \<and> lplAnchor (planLadder input) = liSpot input"
  using assms by (auto simp: planLadder_def Let_def dest: ladder_in_band split: option.splits if_splits)

theorem planLadder_covers_spot_witness:
  "let i = \<lparr>liSpot = 100, liLadder = \<lparr>lpRungs = 2, lpFirstOtmBps = 500, lpStepBps = 500\<rparr>, liStrikeTick = 5,
            liIsPut = False, liExisting = [105], liAnchor = None\<rparr>
   in set (ladderStrikes (liSpot i) (liLadder i) (liStrikeTick i) (liIsPut i))
        \<subseteq> set (liExisting i) \<union> set (lplCreate (planLadder i))
      \<and> lplAnchor (planLadder i) = liSpot i"
  unfolding Let_def by (rule planLadder_covers_spot) simp

subsection \<open>Target expiries\<close>

definition ladderSearchStart :: "seconds \<Rightarrow> seconds" where
  "ladderSearchStart now = now + MIN_SERIES_LEAD + LADDER_LEAD_MARGIN_S"

fun upcoming_loop :: "(seconds \<Rightarrow> bool \<Rightarrow> seconds option) \<Rightarrow> bool \<Rightarrow> nat \<Rightarrow> seconds \<Rightarrow> seconds list" where
  "upcoming_loop nextExpiry weekly 0 after = []"
| "upcoming_loop nextExpiry weekly (Suc n) after =
     (case nextExpiry after weekly of
        None \<Rightarrow> []
      | Some t \<Rightarrow> t # upcoming_loop nextExpiry weekly n t)"

definition upcomingLadderExpiries ::
  "seconds \<Rightarrow> bool \<Rightarrow> int \<Rightarrow> (seconds \<Rightarrow> bool \<Rightarrow> seconds option) \<Rightarrow> seconds list" where
  "upcomingLadderExpiries now weekly howMany nextExpiry =
     upcoming_loop nextExpiry weekly (nat howMany) (ladderSearchStart now)"

lemma upcoming_loop_after:
  assumes "\<And>t u. nextExpiry t weekly = Some u \<Longrightarrow> t < u"
  shows "sorted_wrt (<) (after # upcoming_loop nextExpiry weekly n after)
    \<and> length (upcoming_loop nextExpiry weekly n after) \<le> n"
proof (induction n arbitrary: after)
  case (Suc n)
  show ?case
  proof (cases "nextExpiry after weekly")
    case (Some t)
    then have "after < t" by (rule assms)
    with Some Suc [of t] show ?thesis by fastforce
  qed simp
qed simp

text \<open>
  with a calendar that answers a close strictly after the time asked (its documented contract),
  the targeted expiries are strictly ascending, at most \<open>howMany\<close>, and each one leaves the creation lead
  and its margin.
\<close>

theorem upcomingLadderExpiries_lead:
  assumes "\<And>t u. nextExpiry t weekly = Some u \<Longrightarrow> t < u" and "0 \<le> howMany"
  shows "sorted_wrt (<) (upcomingLadderExpiries now weekly howMany nextExpiry)
    \<and> int (length (upcomingLadderExpiries now weekly howMany nextExpiry)) \<le> howMany
    \<and> list_all (\<lambda>t. now + MIN_SERIES_LEAD + LADDER_LEAD_MARGIN_S < t) (upcomingLadderExpiries now weekly howMany nextExpiry)"
  using upcoming_loop_after [of nextExpiry weekly "ladderSearchStart now" "nat howMany", OF assms(1)] assms(2)
  by (simp add: upcomingLadderExpiries_def ladderSearchStart_def list_all_iff le_nat_iff)

theorem upcomingLadderExpiries_lead_witness:
  "let xs = upcomingLadderExpiries 1000 False 3 (\<lambda>t w. Some ((t div 86400 + 1) * 86400))
   in sorted_wrt (<) xs \<and> int (length xs) \<le> 3 \<and> list_all (\<lambda>t. 1000 + MIN_SERIES_LEAD + LADDER_LEAD_MARGIN_S < t) xs"
  unfolding Let_def
  by (rule upcomingLadderExpiries_lead) (auto simp: less_div_mult_int)

datatype tenor = TenorWeekly | TenorDaily
datatype utc_day = Sun | Mon | Tue | Wed | Thu | Fri | Sat

definition TENORS :: "tenor list" where "TENORS = [TenorWeekly, TenorDaily]"
definition WEEKDAYS :: "utc_day list" where "WEEKDAYS = [Mon, Tue, Wed, Thu, Fri]"
definition UTC_DAY_NAMES :: "utc_day list" where "UTC_DAY_NAMES = [Sun, Mon, Tue, Wed, Thu, Fri, Sat]"

text \<open>\<open>new Date(t * 1000).getUTCDay()\<close>: 1 January 1970 was a Thursday.\<close>

definition getUTCDay :: "seconds \<Rightarrow> nat" where
  "getUTCDay t = nat ((t div 86400 + 4) mod 7)"

definition listsDailyOn :: "utc_day list \<Rightarrow> seconds \<Rightarrow> bool" where
  "listsDailyOn dailyWeekdays expiry =
     (let day = UTC_DAY_NAMES ! getUTCDay expiry in day \<notin> set WEEKDAYS \<or> day \<in> set dailyWeekdays)"

record ladder_slot =
  lsTenor :: tenor
  lsExpiry :: seconds
  lsIsPut :: bool

definition ladderSlots :: "(tenor \<Rightarrow> int) \<Rightarrow> utc_day list \<Rightarrow> bool \<Rightarrow> (tenor \<Rightarrow> seconds list) \<Rightarrow> ladder_slot list" where
  "ladderSlots expiriesAhead dailyWeekdays puts expiries =
     concat (map (\<lambda>tenor. concat (map (\<lambda>expiry.
         if tenor = TenorDaily \<and> \<not> listsDailyOn dailyWeekdays expiry then []
         else map (\<lambda>isPut. \<lparr>lsTenor = tenor, lsExpiry = expiry, lsIsPut = isPut\<rparr>)
                (if puts then [False, True] else [False]))
       (slice0 (expiries tenor) (expiriesAhead tenor)))) TENORS)"

lemma in_ladderSlots:
  "s \<in> set (ladderSlots ahead days puts expiries) \<longleftrightarrow>
     lsExpiry s \<in> set (slice0 (expiries (lsTenor s)) (ahead (lsTenor s)))
     \<and> (lsTenor s = TenorDaily \<longrightarrow> listsDailyOn days (lsExpiry s)) \<and> (lsIsPut s \<longrightarrow> puts)"
proof -
  have "lsTenor s \<in> set TENORS" by (cases "lsTenor s") (simp_all add: TENORS_def)
  then show ?thesis by (cases s) (auto simp: ladderSlots_def split: if_splits)
qed

end
