(* ===== verification/GasChunks.thy ===== *)
theory GasChunks
  imports LadderPlan
begin

section \<open>Series creation, redemption and gas batches (cranker/planner.ts)\<close>

text \<open>
  What a batch is sent with: the pin budget of a new expiry, the packing of createSeries calls and of
  redemptions into transactions under a gas cap, the split of a batch that did too little, and which
  holders a redemption names. The locale \<open>gas_packer\<close> is the contract of a packing; both packers
  of the module interpret it.
\<close>

subsection \<open>Packing\<close>

record 'a gas_chunk =
  gcItems :: "'a list"
  gcGas :: int

definition items_of :: "'a gas_chunk list \<Rightarrow> 'a list" where
  "items_of cs = concat (map gcItems cs)"

text \<open>
  The contract: every item is sent in exactly one batch, no batch is empty, none is sent with more
  than the cap and none has more items than allowed.
\<close>

locale gas_packer =
  fixes pack :: "'a list \<Rightarrow> 'a gas_chunk list" and cap :: int and maxItems :: int
  assumes pack_mset: "mset (items_of (pack xs)) = mset xs"
    and pack_nonempty: "c \<in> set (pack xs) \<Longrightarrow> gcItems c \<noteq> []"
    and pack_cap: "c \<in> set (pack xs) \<Longrightarrow> gcGas c \<le> cap"
    and pack_max: "c \<in> set (pack xs) \<Longrightarrow> int (length (gcItems c)) \<le> maxItems"
begin

lemma every_item_sent: "(\<exists>c \<in> set (pack xs). x \<in> set (gcItems c)) \<longleftrightarrow> x \<in> set xs"
proof -
  have "set (items_of (pack xs)) = set xs" using pack_mset [of xs] by (metis set_mset_mset)
  then show ?thesis by (auto simp: items_of_def)
qed

lemma sent_once: "distinct xs \<Longrightarrow> distinct (items_of (pack xs))"
  using pack_mset [of xs] mset_eq_imp_distinct_iff by blast

lemma length_items: "length (items_of (pack xs)) = length xs"
  using pack_mset [of xs] by (metis size_mset)

lemma batches_le_items: "length (pack xs) \<le> length xs"
proof -
  have "(\<And>c. c \<in> set cs \<Longrightarrow> gcItems c \<noteq> []) \<Longrightarrow> length cs \<le> length (items_of cs)" for cs :: "'a gas_chunk list"
  proof (induction cs)
    case (Cons c cs)
    then have "1 \<le> length (gcItems c)" by (cases "gcItems c") auto
    with Cons show ?case by (auto simp: items_of_def)
  qed simp
  from this [of "pack xs"] show ?thesis using pack_nonempty by (simp add: length_items)
qed

lemma total_gas: "0 \<le> cap \<Longrightarrow> sum_list (map gcGas (pack xs)) \<le> cap * int (length xs)"
proof -
  assume c: "0 \<le> cap"
  have "(\<And>c. c \<in> set cs \<Longrightarrow> gcGas c \<le> cap) \<Longrightarrow> sum_list (map gcGas cs) \<le> cap * int (length cs)"
    for cs :: "'a gas_chunk list"
    by (induction cs) (auto simp: algebra_simps intro: add_mono)
  from this [of "pack xs"] have "sum_list (map gcGas (pack xs)) \<le> cap * int (length (pack xs))"
    using pack_cap by blast
  also have "\<dots> \<le> cap * int (length xs)" using c batches_le_items by (simp add: mult_left_mono)
  finally show ?thesis .
qed

end

text \<open>
  The loop both packers run, over the cost of adding an item to the batch under construction.
\<close>

fun pack_loop :: "('a list \<Rightarrow> 'a \<Rightarrow> int) \<Rightarrow> int \<Rightarrow> int \<Rightarrow> int \<Rightarrow> 'a list \<Rightarrow> 'a gas_chunk \<Rightarrow> 'a gas_chunk list" where
  "pack_loop cost base cap maxItems [] cur = (if gcItems cur \<noteq> [] then [cur] else [])"
| "pack_loop cost base cap maxItems (x # xs) cur =
     (if gcItems cur \<noteq> [] \<and> (gcGas cur + cost (gcItems cur) x > cap \<or> int (length (gcItems cur)) \<ge> maxItems)
      then cur # pack_loop cost base cap maxItems xs \<lparr>gcItems = [x], gcGas = base + cost [] x\<rparr>
      else pack_loop cost base cap maxItems xs
             \<lparr>gcItems = gcItems cur @ [x], gcGas = gcGas cur + cost (gcItems cur) x\<rparr>)"

fun full_cost :: "('a list \<Rightarrow> 'a \<Rightarrow> int) \<Rightarrow> 'a list \<Rightarrow> 'a list \<Rightarrow> int" where
  "full_cost cost pre [] = 0"
| "full_cost cost pre (x # xs) = cost pre x + full_cost cost (pre @ [x]) xs"

lemma full_cost_snoc: "full_cost cost pre (xs @ [x]) = full_cost cost pre xs + cost (pre @ xs) x"
  by (induction xs arbitrary: pre) auto

lemma pack_items: "items_of (pack_loop cost base cap m xs cur) = gcItems cur @ xs"
  by (induction xs arbitrary: cur) (auto simp: items_of_def)

lemma pack_nonempty_loop: "c \<in> set (pack_loop cost base cap m xs cur) \<Longrightarrow> gcItems c \<noteq> []"
  by (induction xs arbitrary: cur) (auto split: if_splits)

lemma pack_len_loop:
  assumes "1 \<le> m" "int (length (gcItems cur)) \<le> m" "c \<in> set (pack_loop cost base cap m xs cur)"
  shows "int (length (gcItems c)) \<le> m"
  using assms(2,3)
proof (induction xs arbitrary: cur)
  case (Cons x xs)
  show ?case
  proof (cases "gcItems cur \<noteq> [] \<and> (gcGas cur + cost (gcItems cur) x > cap \<or> int (length (gcItems cur)) \<ge> m)")
    case True
    then show ?thesis
      using Cons.prems assms(1) Cons.IH [of "\<lparr>gcItems = [x], gcGas = base + cost [] x\<rparr>"] by auto
  next
    case False
    then have "int (length (gcItems cur @ [x])) \<le> m" using assms(1) by (cases "gcItems cur = []") auto
    with False show ?thesis
      using Cons.prems Cons.IH [of "\<lparr>gcItems = gcItems cur @ [x], gcGas = gcGas cur + cost (gcItems cur) x\<rparr>"]
      by (simp split: if_split_asm)
  qed
qed (auto split: if_splits)

text \<open>Before the final cut every batch carries its full budget, and only a lone item may exceed the cap.\<close>

definition budgeted :: "('a list \<Rightarrow> 'a \<Rightarrow> int) \<Rightarrow> int \<Rightarrow> int \<Rightarrow> 'a gas_chunk \<Rightarrow> bool" where
  "budgeted cost base cap c =
     (gcGas c = base + full_cost cost [] (gcItems c) \<and> (2 \<le> length (gcItems c) \<longrightarrow> gcGas c \<le> cap))"

lemma pack_budgeted:
  "budgeted cost base cap cur \<Longrightarrow> c \<in> set (pack_loop cost base cap m xs cur) \<Longrightarrow> budgeted cost base cap c"
proof (induction xs arbitrary: cur)
  case (Cons x xs)
  show ?case
  proof (cases "gcItems cur \<noteq> [] \<and> (gcGas cur + cost (gcItems cur) x > cap \<or> int (length (gcItems cur)) \<ge> m)")
    case True
    have "budgeted cost base cap \<lparr>gcItems = [x], gcGas = base + cost [] x\<rparr>" by (simp add: budgeted_def)
    with True Cons show ?thesis by auto
  next
    case False
    have "budgeted cost base cap \<lparr>gcItems = gcItems cur @ [x], gcGas = gcGas cur + cost (gcItems cur) x\<rparr>"
      using False Cons.prems(1) by (auto simp: budgeted_def full_cost_snoc Suc_le_eq)
    with False Cons show ?thesis by (auto split: if_split_asm)
  qed
qed (auto split: if_splits)

subsection \<open>Redemption batches\<close>

definition MAX_SAFE_INTEGER :: int where "MAX_SAFE_INTEGER = 9007199254740991"

definition cap_chunk :: "int \<Rightarrow> 'a gas_chunk \<Rightarrow> 'a gas_chunk" where
  "cap_chunk capGas c = \<lparr>gcItems = gcItems c, gcGas = (if gcGas c > capGas then capGas else gcGas c)\<rparr>"

definition chunkByGas :: "('a \<Rightarrow> int) \<Rightarrow> int \<Rightarrow> int \<Rightarrow> int option \<Rightarrow> 'a list \<Rightarrow> 'a gas_chunk list" where
  "chunkByGas gasOf baseGas capGas maxItems items =
     map (cap_chunk capGas)
       (pack_loop (\<lambda>_. gasOf) baseGas capGas (or_else maxItems MAX_SAFE_INTEGER) items
          \<lparr>gcItems = [], gcGas = baseGas\<rparr>)"

lemma items_of_capped [simp]: "items_of (map (cap_chunk cap) cs) = items_of cs"
  by (simp add: items_of_def cap_chunk_def o_def)

lemma full_cost_const: "full_cost (\<lambda>_. f) pre xs = sum_list (map f xs)"
  by (induction xs arbitrary: pre) auto

text \<open>The node's transaction cap is positive and a batch may always hold one item.\<close>

interpretation redeem_packer: gas_packer "\<lambda>xs. chunkByGas gasOf base cap (Some (max 1 m)) xs" cap "max 1 m"
  for gasOf base cap m
proof unfold_locales
  show "mset (items_of (chunkByGas gasOf base cap (Some (max 1 m)) xs)) = mset xs" for xs
    by (simp add: chunkByGas_def pack_items)
next
  fix c xs assume "c \<in> set (chunkByGas gasOf base cap (Some (max 1 m)) xs)"
  then obtain d where d: "d \<in> set (pack_loop (\<lambda>_. gasOf) base cap (max 1 m) xs \<lparr>gcItems = [], gcGas = base\<rparr>)"
      "c = cap_chunk cap d" by (auto simp: chunkByGas_def)
  show "gcItems c \<noteq> []" using pack_nonempty_loop [OF d(1)] by (simp add: d(2) cap_chunk_def)
  show "gcGas c \<le> cap" by (simp add: d(2) cap_chunk_def)
  show "int (length (gcItems c)) \<le> max 1 m"
    using pack_len_loop [OF _ _ d(1)] by (simp add: d(2) cap_chunk_def)
qed

text \<open>
  C37: batches keep the order, lose and repeat nothing, and a batch of several items is sent with the
  whole budget of each of them; only an item that alone exceeds the cap is sent with less than it asks.
\<close>

theorem chunkByGas_budgets:
  assumes "c \<in> set (chunkByGas gasOf base cap maxItems xs)"
  shows "items_of (chunkByGas gasOf base cap maxItems xs) = xs
    \<and> gcItems c \<noteq> [] \<and> gcGas c = min cap (base + sum_list (map gasOf (gcItems c)))
    \<and> (2 \<le> length (gcItems c) \<longrightarrow> gcGas c = base + sum_list (map gasOf (gcItems c)))"
proof -
  obtain d where d: "d \<in> set (pack_loop (\<lambda>_. gasOf) base cap (or_else maxItems MAX_SAFE_INTEGER) xs
      \<lparr>gcItems = [], gcGas = base\<rparr>)" "c = cap_chunk cap d"
    using assms by (auto simp: chunkByGas_def)
  have "budgeted (\<lambda>_. gasOf) base cap d" by (rule pack_budgeted [OF _ d(1)]) (simp add: budgeted_def)
  then show ?thesis using pack_nonempty_loop [OF d(1)]
    by (auto simp: chunkByGas_def pack_items budgeted_def full_cost_const d(2) cap_chunk_def)
qed

theorem chunkByGas_budgets_witness:
  "let cs = chunkByGas (\<lambda>x. x) 10 100 (Some 3) [40, 50, 60 :: int]; c = \<lparr>gcItems = [40, 50], gcGas = 100\<rparr>
   in items_of cs = [40, 50, 60] \<and> gcItems c \<noteq> [] \<and> gcGas c = min 100 (10 + sum_list (map (\<lambda>x. x) (gcItems c)))
    \<and> gcGas c = 10 + sum_list (map (\<lambda>x. x) (gcItems c))"
proof -
  have "\<lparr>gcItems = [40, 50], gcGas = 100\<rparr> \<in> set (chunkByGas (\<lambda>x. x) 10 100 (Some 3) [40, 50, 60 :: int])"
    by (simp add: chunkByGas_def cap_chunk_def)
  from chunkByGas_budgets [OF this] show ?thesis by (simp add: Let_def)
qed

definition splitChunk :: "'a gas_chunk \<Rightarrow> int \<Rightarrow> 'a gas_chunk list" where
  "splitChunk chunk capGas =
     (let n = length (gcItems chunk)
      in if n = 0 then []
         else if n = 1 then [\<lparr>gcItems = gcItems chunk, gcGas = capGas\<rparr>]
         else let gas = (if gcGas chunk > capGas then capGas else gcGas chunk);
                  mid = (n + 1) div 2
              in [\<lparr>gcItems = take mid (gcItems chunk), gcGas = gas\<rparr>,
                  \<lparr>gcItems = drop mid (gcItems chunk), gcGas = gas\<rparr>])"

text \<open>
  splitting keeps every item in order, never exceeds the cap, and halves a batch of two or more,
  so repeating it reaches single items at the full cap.
\<close>

theorem splitChunk_halves:
  "items_of (splitChunk chunk cap) = gcItems chunk
   \<and> list_all (\<lambda>c. gcGas c \<le> cap \<and> gcItems c \<noteq> []
        \<and> (length (gcItems chunk) = 1 \<or> length (gcItems c) \<le> (length (gcItems chunk) + 1) div 2)) (splitChunk chunk cap)
   \<and> (length (gcItems chunk) = 1 \<longrightarrow> map gcGas (splitChunk chunk cap) = [cap])"
proof -
  have "2 \<le> n \<Longrightarrow> (n + 1) div 2 < n" for n :: nat by simp
  moreover have "n - (n + 1) div 2 \<le> (n + 1) div 2" for n :: nat by simp
  moreover have "gcItems chunk \<noteq> [] \<Longrightarrow> length (gcItems chunk) \<noteq> Suc 0 \<Longrightarrow> 2 \<le> length (gcItems chunk)"
    by (cases "gcItems chunk") (auto simp: Suc_le_eq)
  ultimately show ?thesis by (fastforce simp: splitChunk_def Let_def items_of_def)
qed

subsection \<open>Creation batches\<close>

definition CREATE_SERIES_PIN_BASE :: int where "CREATE_SERIES_PIN_BASE = 120000"
definition CREATE_SERIES_PIN_PER_SOURCE :: int where "CREATE_SERIES_PIN_PER_SOURCE = 90000"
definition MAX_ORACLE_SOURCES :: int where "MAX_ORACLE_SOURCES = 8"

definition pinGroupKey :: "address \<Rightarrow> address \<Rightarrow> seconds \<Rightarrow> string" where
  "pinGroupKey oracle underlying expiry = lower oracle @ '':'' @ lower underlying @ '':'' @ show_int expiry"

definition pinGasOf :: "int option \<Rightarrow> int" where
  "pinGasOf sources =
     (let n = (case sources of None \<Rightarrow> MAX_ORACLE_SOURCES | Some k \<Rightarrow> max 1 k)
      in CREATE_SERIES_PIN_BASE + CREATE_SERIES_PIN_PER_SOURCE * n)"

record pin_group_view =
  pgKey :: string
  pgPinnedByUs :: "bool option"
  pgSources :: "int option"
  pgRefusedAt :: "seconds option"

datatype pin_group_action = PinCreate int | PinProbe int | PinSkip seconds

definition planPinGroup :: "pin_group_view \<Rightarrow> seconds \<Rightarrow> seconds \<Rightarrow> pin_group_action" where
  "planPinGroup grp now recheckS =
     (case pgRefusedAt grp of
        Some r \<Rightarrow>
          if now - r < recheckS then PinSkip (r + recheckS)
          else PinProbe (if pgPinnedByUs grp = Some True then 0 else pinGasOf (pgSources grp))
      | None \<Rightarrow>
          if pgPinnedByUs grp = Some True then PinCreate 0
          else PinProbe (if pgPinnedByUs grp = Some True then 0 else pinGasOf (pgSources grp)))"

text \<open>A batch is created unprobed only for an expiry this Clearinghouse pinned and nothing refused.\<close>

lemma planPinGroup_create_iff:
  "planPinGroup grp now recheckS = PinCreate g \<longleftrightarrow>
     g = 0 \<and> pgRefusedAt grp = None \<and> pgPinnedByUs grp = Some True"
  by (auto simp: planPinGroup_def split: option.splits)

lemma planPinGroup_skip_until:
  "planPinGroup grp now recheckS = PinSkip t \<Longrightarrow> now < t \<and> planPinGroup grp t recheckS \<noteq> PinSkip u"
  by (auto simp: planPinGroup_def split: option.splits if_splits)

text \<open>
  \<open>order\<close> maps a group to its rank of first appearance; the array is sorted by rank, then by index.
\<close>

fun group_order :: "('a \<Rightarrow> string) \<Rightarrow> 'a list \<Rightarrow> (string \<times> nat) list \<Rightarrow> (string \<times> nat) list" where
  "group_order grp [] order = order"
| "group_order grp (x # xs) order =
     group_order grp xs (if map_of order (grp x) = None then order @ [(grp x, length order)] else order)"

definition rank_cmp :: "('a \<Rightarrow> string) \<Rightarrow> (string \<times> nat) list \<Rightarrow> 'a \<times> nat \<Rightarrow> 'a \<times> nat \<Rightarrow> int" where
  "rank_cmp grp order a b =
     cmp_or (int (get_or order (grp (fst a)) 0) - int (get_or order (grp (fst b)) 0)) (int (snd a) - int (snd b))"

fun create_loop :: "('a \<Rightarrow> string) \<Rightarrow> (string \<Rightarrow> int) \<Rightarrow> int \<Rightarrow> int \<Rightarrow> int \<Rightarrow> int \<Rightarrow> 'a list \<Rightarrow> 'a gas_chunk \<Rightarrow> string list
    \<Rightarrow> 'a gas_chunk list" where
  "create_loop grp pinGas eachGas base cap maxItems [] cur groups = (if gcItems cur \<noteq> [] then [cur] else [])"
| "create_loop grp pinGas eachGas base cap maxItems (x # xs) cur groups =
     (let cost = (\<lambda>gs. eachGas + (if grp x \<in> set gs then 0 else pinGas (grp x)))
      in if gcItems cur \<noteq> [] \<and> (gcGas cur + cost groups > cap \<or> int (length (gcItems cur)) \<ge> maxItems)
         then cur # create_loop grp pinGas eachGas base cap maxItems xs \<lparr>gcItems = [x], gcGas = base + cost []\<rparr> [grp x]
         else create_loop grp pinGas eachGas base cap maxItems xs
                \<lparr>gcItems = gcItems cur @ [x], gcGas = gcGas cur + cost groups\<rparr> (List.insert (grp x) groups))"

definition chunkCreates :: "('a \<Rightarrow> string) \<Rightarrow> (string \<Rightarrow> int) \<Rightarrow> int \<Rightarrow> int \<Rightarrow> int \<Rightarrow> int \<Rightarrow> 'a list \<Rightarrow> 'a gas_chunk list" where
  "chunkCreates grp pinGas eachGas baseGas capGas maxItems items =
     (let order = group_order grp items [];
          sorted = map fst (js_sort (rank_cmp grp order) (zip items [0..<length items]))
      in map (cap_chunk capGas)
           (create_loop grp pinGas eachGas baseGas capGas maxItems sorted \<lparr>gcItems = [], gcGas = baseGas\<rparr> []))"

definition create_cost :: "('a \<Rightarrow> string) \<Rightarrow> (string \<Rightarrow> int) \<Rightarrow> int \<Rightarrow> 'a list \<Rightarrow> 'a \<Rightarrow> int" where
  "create_cost grp pinGas eachGas pre x = eachGas + (if grp x \<in> grp ` set pre then 0 else pinGas (grp x))"

lemma create_loop_pack:
  "set groups = grp ` set (gcItems cur) \<Longrightarrow>
     create_loop grp pinGas eachGas base cap m xs cur groups
       = pack_loop (create_cost grp pinGas eachGas) base cap m xs cur"
  by (induction xs arbitrary: cur groups) (auto simp: create_cost_def Let_def)

text \<open>Every group of a batch is budgeted once, at its first item.\<close>

lemma full_create_cost:
  "full_cost (create_cost grp pinGas eachGas) pre xs = eachGas * int (length xs)
     + (\<Sum>g \<in> grp ` set xs - grp ` set pre. pinGas g)"
proof (induction xs arbitrary: pre)
  case (Cons x xs)
  have split: "grp ` set (x # xs) - grp ` set pre =
      (if grp x \<in> grp ` set pre then {} else {grp x}) \<union> (grp ` set xs - grp ` set (pre @ [x]))"
    by auto
  show ?case
    unfolding split full_cost.simps Cons.IH
    by (subst sum.union_disjoint) (auto simp: create_cost_def algebra_simps)
qed simp

interpretation rank_order: comparator "rank_cmp grp order" for grp order
  by unfold_locales (auto simp: rank_cmp_def cmp_or_def split: if_splits)

lemma chunkCreates_pack:
  "\<exists>sorted. mset sorted = mset items \<and> chunkCreates grp pinGas eachGas base cap m items =
     map (cap_chunk cap) (pack_loop (create_cost grp pinGas eachGas) base cap m sorted \<lparr>gcItems = [], gcGas = base\<rparr>)"
proof -
  let ?sorted = "map fst (js_sort (rank_cmp grp (group_order grp items [])) (zip items [0..<length items]))"
  have "mset ?sorted = image_mset fst (mset (zip items [0..<length items]))" by simp
  also have "\<dots> = mset (map fst (zip items [0..<length items]))" by (simp only: mset_map)
  also have "\<dots> = mset items" by simp
  finally show ?thesis by (intro exI [of _ ?sorted]) (simp add: chunkCreates_def Let_def create_loop_pack)
qed

interpretation create_packer: gas_packer "\<lambda>xs. chunkCreates grp pinGas eachGas base cap (max 1 m) xs" cap "max 1 m"
  for grp pinGas eachGas base cap m
proof unfold_locales
  fix xs
  show "mset (items_of (chunkCreates grp pinGas eachGas base cap (max 1 m) xs)) = mset xs"
    using chunkCreates_pack [of xs grp pinGas eachGas base cap "max 1 m"] by (auto simp: pack_items)
next
  fix c xs assume "c \<in> set (chunkCreates grp pinGas eachGas base cap (max 1 m) xs)"
  then obtain d ys where d: "d \<in> set (pack_loop (create_cost grp pinGas eachGas) base cap (max 1 m) ys \<lparr>gcItems = [], gcGas = base\<rparr>)"
      "c = cap_chunk cap d" using chunkCreates_pack [of xs grp pinGas eachGas base cap "max 1 m"] by auto
  show "gcItems c \<noteq> []" using pack_nonempty_loop [OF d(1)] by (simp add: d(2) cap_chunk_def)
  show "gcGas c \<le> cap" by (simp add: d(2) cap_chunk_def)
  show "int (length (gcItems c)) \<le> max 1 m"
    using pack_len_loop [OF _ _ d(1)] by (simp add: d(2) cap_chunk_def)
qed

text \<open>
  every series to create is sent exactly once, and each batch pays the settlement pin of every
  group in it once, on top of the flat cost of each of its items (cut only at the transaction cap).
\<close>

theorem chunkCreates_budgets:
  assumes "c \<in> set (chunkCreates grp pinGas eachGas base cap maxItems items)"
  shows "mset (items_of (chunkCreates grp pinGas eachGas base cap maxItems items)) = mset items
    \<and> gcGas c = min cap (base + eachGas * int (length (gcItems c)) + (\<Sum>g \<in> grp ` set (gcItems c). pinGas g))"
proof -
  obtain d ys where ys: "mset ys = mset items" and d: "d \<in> set (pack_loop (create_cost grp pinGas eachGas) base cap maxItems ys
      \<lparr>gcItems = [], gcGas = base\<rparr>)" "c = cap_chunk cap d"
    and eq: "chunkCreates grp pinGas eachGas base cap maxItems items =
      map (cap_chunk cap) (pack_loop (create_cost grp pinGas eachGas) base cap maxItems ys \<lparr>gcItems = [], gcGas = base\<rparr>)"
    using chunkCreates_pack [of items grp pinGas eachGas base cap maxItems] assms by auto
  have "budgeted (create_cost grp pinGas eachGas) base cap d"
    by (rule pack_budgeted [OF _ d(1)]) (simp add: budgeted_def)
  then show ?thesis
    unfolding eq by (auto simp: ys pack_items budgeted_def full_create_cost d(2) cap_chunk_def)
qed

theorem chunkCreates_budgets_witness:
  "mset (items_of (chunkCreates fst (\<lambda>_. 100) 10 5 300 2 [(''a'', 1 :: int), (''b'', 2), (''a'', 3)]))
     = mset [(''a'', 1 :: int), (''b'', 2), (''a'', 3)]
   \<and> (125 :: int) = min 300 (5 + 10 * int (length [(''a'', 1 :: int), (''a'', 3)])
        + (\<Sum>g \<in> fst ` set [(''a'', 1 :: int), (''a'', 3)]. 100))"
proof -
  have "\<lparr>gcItems = [(''a'', 1 :: int), (''a'', 3)], gcGas = 125\<rparr>
      \<in> set (chunkCreates fst (\<lambda>_. 100) 10 5 300 2 [(''a'', 1 :: int), (''b'', 2), (''a'', 3)])"
    by (simp add: chunkCreates_def Let_def cap_chunk_def rank_cmp_def cmp_or_def get_or_def upt_rec)
  from chunkCreates_budgets [OF this] show ?thesis by simp
qed

subsection \<open>Which holders to redeem\<close>

definition REDEEM_IN_KIND_EACH :: int where "REDEEM_IN_KIND_EACH = 180000"
definition REDEEM_CONVERT_EACH :: int where "REDEEM_CONVERT_EACH = 450000"
definition REDEEM_CONVERT_RESERVE :: int where "REDEEM_CONVERT_RESERVE = 1600000"
definition REDEEM_BASE :: int where "REDEEM_BASE = 60000"

record holder_view =
  hvHolder :: address
  hvBalance :: int
  hvThirdPartyAllowed :: bool
  hvInKind :: bool

record redeem_selection =
  rsRedeem :: "holder_view list"
  rsEmpty :: nat
  rsOptedOut :: nat
  rsZeroPayout :: nat

fun redeem_loop :: "int \<Rightarrow> bool \<Rightarrow> string list \<Rightarrow> holder_view list \<Rightarrow> redeem_selection \<Rightarrow> redeem_selection" where
  "redeem_loop perUnitPayout burnZero seen [] out = out"
| "redeem_loop perUnitPayout burnZero seen (h # hs) out =
     (let k = lower (hvHolder h)
      in if k \<in> set seen then redeem_loop perUnitPayout burnZero seen hs out
         else redeem_loop perUnitPayout burnZero (k # seen) hs
           (if hvBalance h = 0 then out\<lparr>rsEmpty := rsEmpty out + 1\<rparr>
            else if \<not> hvThirdPartyAllowed h then out\<lparr>rsOptedOut := rsOptedOut out + 1\<rparr>
            else if perUnitPayout = 0 \<and> \<not> burnZero then out\<lparr>rsZeroPayout := rsZeroPayout out + 1\<rparr>
            else out\<lparr>rsRedeem := rsRedeem out @ [h]\<rparr>))"

definition holder_cmp :: "holder_view \<Rightarrow> holder_view \<Rightarrow> int" where
  "holder_cmp a b = (if lower (hvHolder a) < lower (hvHolder b) then -1 else 1)"

definition selectRedeemable :: "holder_view list \<Rightarrow> int \<Rightarrow> bool \<Rightarrow> redeem_selection" where
  "selectRedeemable holders perUnitPayout burnZero =
     (let out = redeem_loop perUnitPayout burnZero [] holders
                  \<lparr>rsRedeem = [], rsEmpty = 0, rsOptedOut = 0, rsZeroPayout = 0\<rparr>
      in out\<lparr>rsRedeem := js_sort holder_cmp (rsRedeem out)\<rparr>)"

record redeem_token =
  rtIsLong :: bool
  rtIsPut :: bool
  rtPerUnitPayout :: int
  rtAdapterSet :: bool

definition redeemConverts :: "bool \<Rightarrow> redeem_token \<Rightarrow> bool" where
  "redeemConverts inKind token =
     (rtIsLong token \<and> \<not> rtIsPut token \<and> rtPerUnitPayout token > 0 \<and> rtAdapterSet token \<and> \<not> inKind)"

definition redeemGasOf :: "bool \<Rightarrow> redeem_token \<Rightarrow> int" where
  "redeemGasOf inKind token = (if redeemConverts inKind token then REDEEM_CONVERT_EACH else REDEEM_IN_KIND_EACH)"

definition redeemBaseGas :: "bool list \<Rightarrow> redeem_token \<Rightarrow> int" where
  "redeemBaseGas inKinds token =
     (if list_ex (\<lambda>k. redeemConverts k token) inKinds then REDEEM_BASE + REDEEM_CONVERT_RESERVE else REDEEM_BASE)"

definition redeemable :: "int \<Rightarrow> bool \<Rightarrow> holder_view \<Rightarrow> bool" where
  "redeemable payout burnZero h = (hvBalance h \<noteq> 0 \<and> hvThirdPartyAllowed h \<and> (payout \<noteq> 0 \<or> burnZero))"

definition holder_key :: "holder_view \<Rightarrow> string" where "holder_key h = lower (hvHolder h)"

lemma redeem_loop_exact:
  assumes "out' = redeem_loop payout burnZero seen hs out"
  shows "rsRedeem out' = rsRedeem out @ filter (redeemable payout burnZero) (uniq_by holder_key seen hs)
    \<and> rsEmpty out' + rsOptedOut out' + rsZeroPayout out' =
        rsEmpty out + rsOptedOut out + rsZeroPayout out
        + length (filter (\<lambda>h. \<not> redeemable payout burnZero h) (uniq_by holder_key seen hs))"
  unfolding assms
  by (induction hs arbitrary: seen out) (auto simp: Let_def holder_key_def redeemable_def)

lemma holder_insert: "holder_key x \<notin> holder_key ` set ys \<Longrightarrow> js_insert holder_cmp x ys = insort_key holder_key x ys"
  by (induction ys) (auto simp: holder_cmp_def holder_key_def)

lemma holder_sort: "distinct (map holder_key xs) \<Longrightarrow> js_sort holder_cmp xs = sort_key holder_key xs"
  by (induction xs) (auto simp: holder_insert)

lemma selectRedeemable_redeem:
  "rsRedeem (selectRedeemable holders payout burnZero) =
     sort_key holder_key (filter (redeemable payout burnZero) (uniq_by holder_key [] holders))"
  by (simp add: selectRedeemable_def Let_def redeem_loop_exact [OF refl] holder_sort distinct_map_filter uniq_by_distinct)

text \<open>
  every holder is counted exactly once (however its address is cased), and the ones redeemed are
  precisely those with a balance, a consent and a payout (or a cheap burn), in address order.
\<close>

theorem selectRedeemable_partition:
  "length (rsRedeem (selectRedeemable hs payout burnZero)) + rsEmpty (selectRedeemable hs payout burnZero)
      + rsOptedOut (selectRedeemable hs payout burnZero) + rsZeroPayout (selectRedeemable hs payout burnZero)
      = card (holder_key ` set hs)
   \<and> sorted_wrt (<) (map holder_key (rsRedeem (selectRedeemable hs payout burnZero)))
   \<and> list_all (redeemable payout burnZero) (rsRedeem (selectRedeemable hs payout burnZero))"
proof -
  let ?u = "uniq_by holder_key [] hs" and ?R = "redeemable payout burnZero"
  have "rsEmpty (selectRedeemable hs payout burnZero) + rsOptedOut (selectRedeemable hs payout burnZero)
      + rsZeroPayout (selectRedeemable hs payout burnZero) = length (filter (\<lambda>h. \<not> ?R h) ?u)"
    by (simp add: selectRedeemable_def Let_def redeem_loop_exact [OF refl])
  moreover have "length (filter ?R ?u) + length (filter (\<lambda>h. \<not> ?R h) ?u) = card (holder_key ` set hs)"
    by (simp add: sum_length_filter_compl uniq_by_card)
  moreover have "distinct (map holder_key (sort_key holder_key (filter ?R ?u)))"
    using distinct_map_filter [OF uniq_by_distinct [of holder_key "[]" hs], of ?R]
    by (metis mset_eq_imp_distinct_iff mset_map mset_sort)
  ultimately show ?thesis
    by (simp add: selectRedeemable_redeem strict_sorted_iff list_all_iff)
qed

text \<open>
  the redemption order, hence the batches, is stable across ticks: it does not depend on the order
  the holders were read in.
\<close>

theorem selectRedeemable_stable:
  assumes "mset hs = mset hs'" "distinct (map holder_key hs)"
  shows "rsRedeem (selectRedeemable hs payout burnZero) = rsRedeem (selectRedeemable hs' payout burnZero)"
proof -
  have d': "distinct (map holder_key hs')"
    using assms by (metis mset_eq_imp_distinct_iff mset_map)
  let ?f = "filter (redeemable payout burnZero)"
  have "sort_key holder_key (?f hs) = sort_key holder_key (?f hs')"
  proof (rule sort_key_inj_key_eq)
    show "mset (?f hs) = mset (sort_key holder_key (?f hs'))" using assms(1) by simp
    show "inj_on holder_key (set (?f hs))" using assms(2) by (auto simp: distinct_map inj_on_def)
  qed simp
  with assms(2) d' show ?thesis by (simp add: selectRedeemable_redeem uniq_by_id)
qed

theorem selectRedeemable_stable_witness:
  "let a = \<lparr>hvHolder = ''0xB'', hvBalance = 5, hvThirdPartyAllowed = True, hvInKind = False\<rparr>;
       b = \<lparr>hvHolder = ''0xa'', hvBalance = 7, hvThirdPartyAllowed = True, hvInKind = False\<rparr>
   in rsRedeem (selectRedeemable [a, b] 3 False) = rsRedeem (selectRedeemable [b, a] 3 False)"
  unfolding Let_def
  by (rule selectRedeemable_stable) (simp, code_simp)

end
