(* ===== verification/ExpiryPlan.thy ===== *)
theory ExpiryPlan
  imports LadderPlan
begin

section \<open>One expiry, from its close to its last redemption (planExpiry)\<close>

text \<open>
  The state machine of one (underlying, expiry) as the cranker drives it: the snapshot window, the
  first finalize, the uncorroborated and the vetoed candidate, settlement, pruning, redemption, the
  alerts and the wake-up. \<open>planExpiry\<close> is modelled branch by branch with its alert texts and data.
\<close>

definition SNAPSHOT_GRACE :: seconds where "SNAPSHOT_GRACE = 600"
definition FINALIZE_DELAY :: seconds where "FINALIZE_DELAY = 120"

datatype settlement_status = StatusNone | Pending | Finalized | Held

record source_view =
  svAddress :: address
  svWindowOk :: bool
  svRecordedOk :: "bool option"

record series_view =
  seLongId :: int
  seSettled :: bool
  seLongSupply :: int
  seShortSupply :: int
  sePrunableOrders :: int

record expiry_candidate =
  caPrice :: int
  caSourceIndex :: int
  caDisagreed :: bool
  caFinalizableAt :: seconds

record expiry_view =
  exUnderlying :: address
  exExpiry :: seconds
  exNow :: seconds
  exOpenInterest :: int
  exStatus :: settlement_status
  exCaptured :: bool
  exCandidate :: "expiry_candidate option"
  exSourcesKnown :: bool
  exSources :: "source_view list"
  exPinned :: "bool option"
  exSeries :: "series_view list"
  exSnapshotDone :: bool
  exHouseBoundary :: "bool option"

datatype cranker_alert_kind = SourcesDisagree | SettlementHeld | SnapshotMissed | SettleStuck | RedeemBacklog

datatype alert_value = DStr string | DInt int | DStrs "string list" | DCandidate "expiry_candidate option"

record planned_alert =
  paKind :: cranker_alert_kind
  paDedupeKey :: string
  paMessage :: string
  paData :: "(string \<times> alert_value) list"
  paOnce :: bool

datatype expiry_phase =
    PhOpen | PhSnapshotWindow | PhAwaitingSnapshot | PhNoSource | PhPending | PhHeld | PhFinalizing
  | PhSettling | PhRedeeming | PhEmpty | PhDone

record expiry_plan =
  epPhase :: expiry_phase
  epSnapshot :: bool
  epFinalize :: bool
  epSettle :: "int list"
  epPrune :: "int list"
  epRedeem :: "int list"
  epAlerts :: "planned_alert list"
  epWakeAt :: "seconds option"
  epDone :: bool

record expiry_thresholds =
  thNoSourceAlertS :: seconds
  thPendingStuckS :: seconds

definition snapshot_missed_alert :: "expiry_view \<Rightarrow> planned_alert" where
  "snapshot_missed_alert view =
     \<lparr>paKind = SnapshotMissed,
      paDedupeKey = exUnderlying view @ '':'' @ show_int (exExpiry view),
      paMessage = exUnderlying view @ '' expiry '' @ show_int (exExpiry view) @ '' passed [expiry, expiry + ''
        @ show_int SNAPSHOT_GRACE
        @ ''] with a source that still does not price its window: no snapshot recorded it (none sent, or one that recorded nothing), nor did a finalize or settle inside the grace (SO-01), so it cannot vote'',
      paData = [(''underlying'', DStr (exUnderlying view)), (''expiry'', DInt (exExpiry view)),
                (''windowEnd'', DInt (exExpiry view + SNAPSHOT_GRACE)),
                (''sources'', DStrs (map svAddress (filter (\<lambda>s. \<not> svWindowOk s) (exSources view))))],
      paOnce = True\<rparr>"

definition no_source_alert :: "expiry_view \<Rightarrow> planned_alert" where
  "no_source_alert view =
     \<lparr>paKind = SettleStuck,
      paDedupeKey = exUnderlying view @ '':'' @ show_int (exExpiry view) @ '':no-source'',
      paMessage = ''no price source is ok for '' @ exUnderlying view @ '' expiry '' @ show_int (exExpiry view)
        @ '', '' @ show_int (exNow view - exExpiry view) @ '' s after expiry'',
      paData = [(''underlying'', DStr (exUnderlying view)), (''expiry'', DInt (exExpiry view)),
                (''sources'', DStrs (map svAddress (exSources view)))],
      paOnce = False\<rparr>"

definition disagree_alert :: "expiry_view \<Rightarrow> expiry_candidate \<Rightarrow> planned_alert" where
  "disagree_alert view c =
     \<lparr>paKind = SourcesDisagree,
      paDedupeKey = exUnderlying view @ '':'' @ show_int (exExpiry view) @ '':'' @ show_int (caFinalizableAt c),
      paMessage = ''sources disagree on '' @ exUnderlying view @ '' expiry '' @ show_int (exExpiry view)
        @ '': candidate '' @ show_int (caPrice c) @ '' from source '' @ show_int (caSourceIndex c)
        @ '' finalizes at '' @ show_int (caFinalizableAt c) @ '' unless vetoed'',
      paData = [(''underlying'', DStr (exUnderlying view)), (''expiry'', DInt (exExpiry view)),
                (''price'', DInt (caPrice c)), (''sourceIndex'', DInt (caSourceIndex c)),
                (''finalizableAt'', DInt (caFinalizableAt c))],
      paOnce = True\<rparr>"

definition pending_stuck_alert :: "expiry_view \<Rightarrow> expiry_candidate \<Rightarrow> planned_alert" where
  "pending_stuck_alert view c =
     \<lparr>paKind = SettleStuck,
      paDedupeKey = exUnderlying view @ '':'' @ show_int (exExpiry view) @ '':pending'',
      paMessage = exUnderlying view @ '' expiry '' @ show_int (exExpiry view) @ '': the candidate was finalizable at ''
        @ show_int (caFinalizableAt c) @ '' and is still Pending'',
      paData = [(''underlying'', DStr (exUnderlying view)), (''expiry'', DInt (exExpiry view)),
                (''finalizableAt'', DInt (caFinalizableAt c))],
      paOnce = False\<rparr>"

definition held_alert :: "expiry_view \<Rightarrow> planned_alert" where
  "held_alert view =
     \<lparr>paKind = SettlementHeld,
      paDedupeKey = exUnderlying view @ '':'' @ show_int (exExpiry view),
      paMessage = exUnderlying view @ '' expiry '' @ show_int (exExpiry view)
        @ '' is held (vetoed): nothing settles until unveto or adminResolve'',
      paData = [(''underlying'', DStr (exUnderlying view)), (''expiry'', DInt (exExpiry view)),
                (''candidate'', DCandidate (exCandidate view))],
      paOnce = False\<rparr>"

text \<open>The closure \<open>noSource\<close>: the phase, and the alert once finalize has been open for long enough.\<close>

definition no_source_plan :: "expiry_view \<Rightarrow> expiry_thresholds \<Rightarrow> expiry_plan \<Rightarrow> expiry_plan" where
  "no_source_plan view thresholds plan =
     (if exNow view - (exExpiry view + FINALIZE_DELAY) \<ge> thNoSourceAlertS thresholds
      then plan\<lparr>epPhase := PhNoSource, epAlerts := epAlerts plan @ [no_source_alert view]\<rparr>
      else plan\<lparr>epPhase := PhNoSource\<rparr>)"

definition upgrade_of :: "expiry_view \<Rightarrow> bool" where
  "upgrade_of view = (exCaptured view \<and> list_ex (\<lambda>s. svRecordedOk s = Some False \<and> svWindowOk s) (exSources view))"

definition can_capture :: "expiry_view \<Rightarrow> bool" where
  "can_capture view = (exCaptured view \<or> \<not> exSourcesKnown view \<or> list_ex svWindowOk (exSources view))"

text \<open>The \<open>switch\<close> on the settlement status, reached once finalize is open and no snapshot is due.\<close>

definition plan_status :: "expiry_view \<Rightarrow> expiry_thresholds \<Rightarrow> expiry_plan \<Rightarrow> expiry_plan" where
  "plan_status view thresholds plan =
     (case exStatus view of
        StatusNone \<Rightarrow>
          if can_capture view then plan\<lparr>epFinalize := True, epPhase := PhFinalizing\<rparr>
          else no_source_plan view thresholds plan
      | Pending \<Rightarrow>
          if exCandidate view = None \<and> \<not> can_capture view then no_source_plan view thresholds plan
          else let plan1 = (case exCandidate view of
                       Some c \<Rightarrow> if caDisagreed c then plan\<lparr>epAlerts := epAlerts plan @ [disagree_alert view c]\<rparr> else plan
                     | None \<Rightarrow> plan)
               in (case exCandidate view of
                     None \<Rightarrow> plan1\<lparr>epFinalize := True, epPhase := PhFinalizing\<rparr>
                   | Some c \<Rightarrow>
                       if upgrade_of view \<or> exNow view \<ge> caFinalizableAt c then
                         let plan2 = plan1\<lparr>epFinalize := True, epPhase := PhFinalizing\<rparr>
                         in if exNow view - caFinalizableAt c \<ge> thPendingStuckS thresholds
                            then plan2\<lparr>epAlerts := epAlerts plan2 @ [pending_stuck_alert view c]\<rparr> else plan2
                       else plan1\<lparr>epPhase := PhPending, epWakeAt := Some (caFinalizableAt c)\<rparr>)
      | Held \<Rightarrow>
          plan\<lparr>epPhase := PhHeld,
               epFinalize := upgrade_of view \<or> (\<not> exCaptured view \<and> list_ex svWindowOk (exSources view)),
               epAlerts := epAlerts plan @ [held_alert view]\<rparr>
      | Finalized \<Rightarrow> plan)"

definition needs_price :: "expiry_view \<Rightarrow> bool" where
  "needs_price view = (exHouseBoundary view = Some True \<or> exOpenInterest view > 0
     \<or> list_ex (\<lambda>s. seLongSupply s > 0 \<or> seShortSupply s > 0) (exSeries view))"

definition empty_plan :: expiry_plan where
  "empty_plan = \<lparr>epPhase = PhOpen, epSnapshot = False, epFinalize = False, epSettle = [], epPrune = [], epRedeem = [],
     epAlerts = [], epWakeAt = None, epDone = False\<rparr>"

definition planExpiry :: "expiry_view \<Rightarrow> expiry_thresholds \<Rightarrow> expiry_plan" where
  "planExpiry view thresholds =
     (let expiry = exExpiry view; now = exNow view
      in if now < expiry then
           empty_plan\<lparr>epWakeAt := (if exOpenInterest view > 0 \<or> exHouseBoundary view = Some True
                                  \<or> list_ex (\<lambda>s. sePrunableOrders s > 0) (exSeries view) then Some expiry else None)\<rparr>
         else
           let prune = map seLongId (filter (\<lambda>s. sePrunableOrders s > 0) (exSeries view));
               plan = empty_plan\<lparr>epPrune := prune\<rparr>
           in if exStatus view = Finalized then
                let settle = map seLongId (filter (\<lambda>s. \<not> seSettled s \<and> seLongSupply s > 0) (exSeries view));
                    redeem = map seLongId (filter (\<lambda>s. seSettled s \<and> (seLongSupply s > 0 \<or> seShortSupply s > 0)) (exSeries view))
                in plan\<lparr>epSettle := settle, epRedeem := redeem,
                        epPhase := (if settle \<noteq> [] then PhSettling else if redeem \<noteq> [] then PhRedeeming
                                    else if prune \<noteq> [] then PhRedeeming else PhDone),
                        epDone := (settle = [] \<and> redeem = [] \<and> prune = [])\<rparr>
              else if \<not> needs_price view then
                plan\<lparr>epPhase := (if prune \<noteq> [] then PhEmpty else PhDone), epDone := (prune = [])\<rparr>
              else
                let windowEnd = expiry + SNAPSHOT_GRACE;
                    finalizeOpensAt = expiry + FINALIZE_DELAY;
                    inWindow = (now \<le> windowEnd);
                    plan1 = plan\<lparr>epSnapshot := (inWindow \<and> \<not> exSnapshotDone view)\<rparr>;
                    plan2 = (if \<not> inWindow \<and> \<not> exSnapshotDone view \<and> list_ex (\<lambda>s. \<not> svWindowOk s) (exSources view)
                             then plan1\<lparr>epAlerts := epAlerts plan1 @ [snapshot_missed_alert view]\<rparr> else plan1)
                in if now < finalizeOpensAt then plan2\<lparr>epPhase := PhSnapshotWindow, epWakeAt := Some finalizeOpensAt\<rparr>
                   else if epSnapshot plan2 then plan2\<lparr>epPhase := PhAwaitingSnapshot\<rparr>
                   else plan_status view thresholds plan2)"

lemmas expiry_defs = planExpiry_def plan_status_def no_source_plan_def empty_plan_def Let_def

subsection \<open>What the plan guarantees\<close>

text \<open>Once finalize is open for business: expired, not final, something to price, snapshot tried or over.\<close>

definition finalize_open :: "expiry_view \<Rightarrow> bool" where
  "finalize_open view =
     (exExpiry view + FINALIZE_DELAY \<le> exNow view \<and> exStatus view \<noteq> Finalized \<and> needs_price view
      \<and> (exSnapshotDone view \<or> exExpiry view + SNAPSHOT_GRACE < exNow view))"

definition may_finalize :: "expiry_view \<Rightarrow> bool" where
  "may_finalize view =
     (case exStatus view of
        StatusNone \<Rightarrow> can_capture view
      | Pending \<Rightarrow> (case exCandidate view of None \<Rightarrow> can_capture view
                   | Some c \<Rightarrow> upgrade_of view \<or> caFinalizableAt c \<le> exNow view)
      | Held \<Rightarrow> upgrade_of view \<or> \<not> exCaptured view \<and> list_ex svWindowOk (exSources view)
      | Finalized \<Rightarrow> False)"

lemma finalize_consts: "0 < FINALIZE_DELAY" "FINALIZE_DELAY \<le> SNAPSHOT_GRACE"
  by (simp_all add: FINALIZE_DELAY_def SNAPSHOT_GRACE_def)

lemma plan_status_finalize:
  "epFinalize (plan_status view th plan) \<longleftrightarrow> may_finalize view \<or> (epFinalize plan \<and> exStatus view \<noteq> Held)"
  by (cases "exStatus view"; cases "exCandidate view")
    (auto simp: plan_status_def no_source_plan_def may_finalize_def Let_def)

lemma plan_status_keeps:
  "epSnapshot (plan_status view th plan) = epSnapshot plan" "epSettle (plan_status view th plan) = epSettle plan"
  "epRedeem (plan_status view th plan) = epRedeem plan" "epPrune (plan_status view th plan) = epPrune plan"
  "epDone (plan_status view th plan) = epDone plan"
  by (cases "exStatus view"; cases "exCandidate view"; simp add: plan_status_def no_source_plan_def Let_def)+

lemma plan_status_wake:
  "epWakeAt plan = None \<Longrightarrow> epWakeAt (plan_status view th plan) = Some t \<Longrightarrow> exNow view < t"
  by (cases "exStatus view"; cases "exCandidate view")
    (auto simp: plan_status_def no_source_plan_def Let_def split: if_splits)

text \<open>The plan after the snapshot window is judged, before the status is.\<close>

lemma planExpiry_regions:
  assumes "exExpiry view \<le> exNow view" "exStatus view \<noteq> Finalized" "needs_price view"
  shows "\<exists>plan. epFinalize plan = False \<and> epWakeAt plan = None \<and> epSettle plan = [] \<and> epRedeem plan = [] \<and> \<not> epDone plan
     \<and> epSnapshot plan = (exNow view \<le> exExpiry view + SNAPSHOT_GRACE \<and> \<not> exSnapshotDone view)
     \<and> planExpiry view th =
        (if exNow view < exExpiry view + FINALIZE_DELAY
         then plan\<lparr>epPhase := PhSnapshotWindow, epWakeAt := Some (exExpiry view + FINALIZE_DELAY)\<rparr>
         else if epSnapshot plan then plan\<lparr>epPhase := PhAwaitingSnapshot\<rparr> else plan_status view th plan)"
proof -
  let ?plan1 = "empty_plan\<lparr>epPrune := map seLongId (filter (\<lambda>s. sePrunableOrders s > 0) (exSeries view)),
      epSnapshot := (exNow view \<le> exExpiry view + SNAPSHOT_GRACE \<and> \<not> exSnapshotDone view)\<rparr>"
  let ?plan = "if \<not> exNow view \<le> exExpiry view + SNAPSHOT_GRACE \<and> \<not> exSnapshotDone view
        \<and> list_ex (\<lambda>s. \<not> svWindowOk s) (exSources view)
      then ?plan1\<lparr>epAlerts := epAlerts ?plan1 @ [snapshot_missed_alert view]\<rparr> else ?plan1"
  show ?thesis
    using assms by (intro exI [of _ ?plan]) (simp add: planExpiry_def Let_def empty_plan_def)
qed

text \<open>
  exactly when the cranker finalizes. Never before the snapshot was tried (or its window closed),
  never before the delay, never a final or unneeded price, an uncorroborated candidate only after its
  own delay, a vetoed one only to record a first capture or a corroborating upgrade; and whenever all
  of that allows it, it does finalize.
\<close>

theorem planExpiry_finalize_iff:
  "epFinalize (planExpiry view th) \<longleftrightarrow> finalize_open view \<and> may_finalize view"
proof (cases "exExpiry view \<le> exNow view \<and> exStatus view \<noteq> Finalized \<and> needs_price view")
  case True
  then obtain plan where "epFinalize plan = False"
    "epSnapshot plan = (exNow view \<le> exExpiry view + SNAPSHOT_GRACE \<and> \<not> exSnapshotDone view)"
    "planExpiry view th =
        (if exNow view < exExpiry view + FINALIZE_DELAY
         then plan\<lparr>epPhase := PhSnapshotWindow, epWakeAt := Some (exExpiry view + FINALIZE_DELAY)\<rparr>
         else if epSnapshot plan then plan\<lparr>epPhase := PhAwaitingSnapshot\<rparr> else plan_status view th plan)"
    using planExpiry_regions [of view th] by blast
  with True show ?thesis
    by (auto simp: finalize_open_def plan_status_finalize)
next
  case False
  then show ?thesis
    using finalize_consts by (auto simp: planExpiry_def empty_plan_def Let_def finalize_open_def)
qed

text \<open>
  the cranker forgets an expiry only when nothing is left: no order to prune, and either a final
  price with every series settled and redeemed, or nothing that needs one.
\<close>

theorem planExpiry_done_iff:
  "epDone (planExpiry view th) \<longleftrightarrow>
     exExpiry view \<le> exNow view \<and> list_all (\<lambda>s. sePrunableOrders s \<le> 0) (exSeries view)
     \<and> (if exStatus view = Finalized
        then list_all (\<lambda>s. seLongSupply s \<le> 0 \<and> (seSettled s \<longrightarrow> seShortSupply s \<le> 0)) (exSeries view)
        else \<not> needs_price view)"
proof (cases "exExpiry view \<le> exNow view \<and> exStatus view \<noteq> Finalized \<and> needs_price view")
  case True
  then obtain plan where "\<not> epDone plan"
    "planExpiry view th =
        (if exNow view < exExpiry view + FINALIZE_DELAY
         then plan\<lparr>epPhase := PhSnapshotWindow, epWakeAt := Some (exExpiry view + FINALIZE_DELAY)\<rparr>
         else if epSnapshot plan then plan\<lparr>epPhase := PhAwaitingSnapshot\<rparr> else plan_status view th plan)"
    using planExpiry_regions [of view th] by blast
  with True show ?thesis by (simp add: plan_status_keeps)
next
  case False
  then show ?thesis
    by (auto simp: planExpiry_def empty_plan_def Let_def filter_empty_conv list_all_iff not_less)
qed

definition acts :: "expiry_plan \<Rightarrow> bool" where
  "acts plan = (epSnapshot plan \<or> epFinalize plan \<or> epSettle plan \<noteq> [] \<or> epPrune plan \<noteq> [] \<or> epRedeem plan \<noteq> []
     \<or> epAlerts plan \<noteq> [] \<or> epWakeAt plan \<noteq> None)"

lemma plan_status_acts:
  "exStatus view \<noteq> Finalized \<Longrightarrow> acts (plan_status view th plan)
     \<or> epPhase (plan_status view th plan) = PhNoSource \<and> exNow view < exExpiry view + FINALIZE_DELAY + thNoSourceAlertS th"
  by (cases "exStatus view"; cases "exCandidate view")
    (auto simp: plan_status_def no_source_plan_def acts_def Let_def split: if_splits)

text \<open>
  C39: an expired series never stalls unseen. Every plan that is not done sends something, pages, or
  schedules a wake-up, except while no price source answers; that wait turns into a page as soon as
  its threshold passes.
\<close>

theorem planExpiry_progress:
  assumes "exExpiry view \<le> exNow view"
  shows "epDone (planExpiry view th) \<or> acts (planExpiry view th)
     \<or> (epPhase (planExpiry view th) = PhNoSource
        \<and> exNow view < exExpiry view + FINALIZE_DELAY + thNoSourceAlertS th)"
proof (cases "exStatus view \<noteq> Finalized \<and> needs_price view")
  case True
  with assms obtain plan where p: "epSnapshot plan = (exNow view \<le> exExpiry view + SNAPSHOT_GRACE \<and> \<not> exSnapshotDone view)"
    "planExpiry view th =
        (if exNow view < exExpiry view + FINALIZE_DELAY
         then plan\<lparr>epPhase := PhSnapshotWindow, epWakeAt := Some (exExpiry view + FINALIZE_DELAY)\<rparr>
         else if epSnapshot plan then plan\<lparr>epPhase := PhAwaitingSnapshot\<rparr> else plan_status view th plan)"
    using planExpiry_regions [of view th] by blast
  have "acts (plan\<lparr>epPhase := PhSnapshotWindow, epWakeAt := Some (exExpiry view + FINALIZE_DELAY)\<rparr>)"
    "epSnapshot plan \<Longrightarrow> acts (plan\<lparr>epPhase := PhAwaitingSnapshot\<rparr>)" by (simp_all add: acts_def)
  with True show ?thesis unfolding p(2) using plan_status_acts [of view th plan] by (simp split: if_split)
next
  case False
  with assms show ?thesis
    by (auto simp: planExpiry_def empty_plan_def Let_def acts_def)
qed

theorem planExpiry_progress_witness:
  "let v = \<lparr>exUnderlying = ''nvda'', exExpiry = 1000, exNow = 1500, exOpenInterest = 5, exStatus = StatusNone,
           exCaptured = False, exCandidate = None, exSourcesKnown = True, exSources = [], exPinned = None,
           exSeries = [], exSnapshotDone = True, exHouseBoundary = None\<rparr>; th = \<lparr>thNoSourceAlertS = 900, thPendingStuckS = 600\<rparr>
   in epDone (planExpiry v th) \<or> acts (planExpiry v th)
     \<or> (epPhase (planExpiry v th) = PhNoSource \<and> exNow v < exExpiry v + FINALIZE_DELAY + thNoSourceAlertS th)"
  unfolding Let_def by (rule planExpiry_progress) simp

text \<open>
  a wake-up is never in the past, and settlement of an open expiry is never left to the poll: the
  plan asks to be woken at the expiry, and from there at the second finalize opens.
\<close>

theorem planExpiry_wakes_ahead:
  "(\<forall>t. epWakeAt (planExpiry view th) = Some t \<longrightarrow> exNow view < t)
   \<and> (exNow view < exExpiry view \<and> exOpenInterest view > 0 \<longrightarrow> epWakeAt (planExpiry view th) = Some (exExpiry view))
   \<and> (exExpiry view \<le> exNow view \<and> exNow view < exExpiry view + FINALIZE_DELAY \<and> needs_price view \<and> exStatus view \<noteq> Finalized
        \<longrightarrow> epWakeAt (planExpiry view th) = Some (exExpiry view + FINALIZE_DELAY))"
proof (cases "exExpiry view \<le> exNow view \<and> exStatus view \<noteq> Finalized \<and> needs_price view")
  case True
  then obtain plan where p: "epWakeAt plan = None"
    "planExpiry view th =
        (if exNow view < exExpiry view + FINALIZE_DELAY
         then plan\<lparr>epPhase := PhSnapshotWindow, epWakeAt := Some (exExpiry view + FINALIZE_DELAY)\<rparr>
         else if epSnapshot plan then plan\<lparr>epPhase := PhAwaitingSnapshot\<rparr> else plan_status view th plan)"
    using planExpiry_regions [of view th] by blast
  with True show ?thesis using plan_status_wake [OF p(1)] by auto
next
  case False
  then show ?thesis by (auto simp: planExpiry_def empty_plan_def Let_def)
qed

theorem planExpiry_wakes_ahead_witness:
  "let v = \<lparr>exUnderlying = ''nvda'', exExpiry = 1000, exNow = 1060, exOpenInterest = 5, exStatus = StatusNone,
           exCaptured = False, exCandidate = None, exSourcesKnown = True, exSources = [], exPinned = None,
           exSeries = [], exSnapshotDone = True, exHouseBoundary = None\<rparr>
   in epWakeAt (planExpiry v \<lparr>thNoSourceAlertS = 900, thPendingStuckS = 600\<rparr>) = Some 1120"
proof -
  define v where "v = \<lparr>exUnderlying = ''nvda'', exExpiry = 1000, exNow = 1060, exOpenInterest = 5, exStatus = StatusNone,
           exCaptured = False, exCandidate = None, exSourcesKnown = True, exSources = [], exPinned = None,
           exSeries = [], exSnapshotDone = True, exHouseBoundary = None\<rparr>"
  have "exExpiry v \<le> exNow v \<and> exNow v < exExpiry v + FINALIZE_DELAY \<and> needs_price v \<and> exStatus v \<noteq> Finalized"
    by (simp add: v_def needs_price_def FINALIZE_DELAY_def)
  then have "epWakeAt (planExpiry v \<lparr>thNoSourceAlertS = 900, thPendingStuckS = 600\<rparr>) = Some (exExpiry v + FINALIZE_DELAY)"
    using planExpiry_wakes_ahead [of v "\<lparr>thNoSourceAlertS = 900, thPendingStuckS = 600\<rparr>"] by blast
  moreover have "exExpiry v + FINALIZE_DELAY = 1120" by (simp add: v_def FINALIZE_DELAY_def)
  ultimately show ?thesis unfolding Let_def v_def by simp
qed

end
