(* ===== verification/RollPlan.thy ===== *)
theory RollPlan
  imports LadderPlan
begin

section \<open>Orders, rolls, stale asks and the clock of the cranker (cranker/planner.ts)\<close>

text \<open>
  Which orders prune may cancel and in what order, when a writer's position is rolled or its ask
  withdrawn, when fees are swept, when the loop wakes, and which expiries one tick and a run of ticks survey.
\<close>

subsection \<open>Orders\<close>

datatype order_kind = Bid | AskResale | AskWrite

record order_view =
  ovId :: int
  ovMaker :: address
  ovKind :: order_kind
  ovUnits :: int
  ovFilled :: int
  ovValidUntil :: seconds
  ovCancelled :: bool

definition ZERO_ADDRESS :: address where
  "ZERO_ADDRESS = ''0x0000000000000000000000000000000000000000''"

definition isDeadOrder :: "order_view \<Rightarrow> bool" where
  "isDeadOrder order = (lower (ovMaker order) = ZERO_ADDRESS \<or> ovCancelled order \<or> ovFilled order \<ge> ovUnits order)"

fun PRUNE_PRIORITY :: "order_kind \<Rightarrow> int" where
  "PRUNE_PRIORITY AskResale = 0"
| "PRUNE_PRIORITY Bid = 1"
| "PRUNE_PRIORITY AskWrite = 2"

definition prune_cmp :: "order_view \<Rightarrow> order_view \<Rightarrow> int" where
  "prune_cmp a b = cmp_or (PRUNE_PRIORITY (ovKind a) - PRUNE_PRIORITY (ovKind b)) (cmp3 (ovId a) (ovId b))"

definition prunableOrders :: "order_view list \<Rightarrow> seconds \<Rightarrow> order_view list" where
  "prunableOrders orders now = js_sort prune_cmp (filter (\<lambda>p. \<not> isDeadOrder p \<and> now \<ge> ovValidUntil p) orders)"

interpretation prune_order: comparator prune_cmp
  by unfold_locales (auto simp: prune_cmp_def cmp_or_def cmp3_def split: if_splits)

lemma prune_cmp_le:
  "prune_cmp a b \<le> 0 \<longleftrightarrow> PRUNE_PRIORITY (ovKind a) < PRUNE_PRIORITY (ovKind b)
     \<or> PRUNE_PRIORITY (ovKind a) = PRUNE_PRIORITY (ovKind b) \<and> ovId a \<le> ovId b"
  by (auto simp: prune_cmp_def cmp_or_def cmp3_def)

text \<open>
  the orders to prune are exactly the live ones past their validity, each listed as often as it
  was read, resale asks before bids before write asks and by id within a kind.
\<close>

theorem prunableOrders_exact:
  "mset (prunableOrders orders now) = mset (filter (\<lambda>p. \<not> isDeadOrder p \<and> ovValidUntil p \<le> now) orders)
   \<and> sorted_wrt (\<lambda>a b. PRUNE_PRIORITY (ovKind a) < PRUNE_PRIORITY (ovKind b)
        \<or> PRUNE_PRIORITY (ovKind a) = PRUNE_PRIORITY (ovKind b) \<and> ovId a \<le> ovId b) (prunableOrders orders now)"
  using prune_order.sort_sorted by (simp add: prunableOrders_def prune_cmp_le)

subsection \<open>Rolls\<close>

record roll_view =
  roActive :: bool
  roPositionLongId :: int
  roPositionExpiry :: seconds
  roNow :: seconds
  roSessionOpen :: bool
  roSpotFresh :: bool
  roSessionOpenAtGrace :: bool
  roSpotUpdatedAt :: seconds
  roSessionAtSpotObservation :: bool
  roWeekly :: "bool option"
  roDailyListed :: "bool option"

datatype roll_decision =
    RollCloseOut | RollNew
  | NoRoll_RolledThisPeriod | NoRoll_Inactive | NoRoll_DailyNotListed | NoRoll_SessionClosed | NoRoll_SpotStale
  | NoRoll_SpotBeforeOpen

definition utcDay :: "seconds \<Rightarrow> int" where "utcDay t = t div 86400"

definition planRoll :: "roll_view \<Rightarrow> roll_decision" where
  "planRoll view =
     (if roPositionLongId view \<noteq> 0 then
        (if roNow view < roPositionExpiry view then NoRoll_RolledThisPeriod else RollCloseOut)
      else if \<not> roActive view then NoRoll_Inactive
      else if roWeekly view = Some False \<and> roDailyListed view = Some False then NoRoll_DailyNotListed
      else if \<not> roSessionOpen view then NoRoll_SessionClosed
      else if \<not> roSpotFresh view then NoRoll_SpotStale
      else if \<not> roSessionOpenAtGrace view
           \<and> \<not> (utcDay (roSpotUpdatedAt view) = utcDay (roNow view) \<and> roSessionAtSpotObservation view)
        then NoRoll_SpotBeforeOpen
      else RollNew)"

text \<open>
  a position is opened exactly when none is tracked, the strategy is active and listed, the
  session is open and the spot is fresh, and inside the open grace only on a price observed in
  session today; a position is closed out exactly when it has expired, whatever the strategy says.
\<close>

theorem planRoll_iff:
  "(planRoll view = RollNew \<longleftrightarrow>
      roPositionLongId view = 0 \<and> roActive view \<and> (roWeekly view \<noteq> Some False \<or> roDailyListed view \<noteq> Some False)
      \<and> roSessionOpen view \<and> roSpotFresh view
      \<and> (roSessionOpenAtGrace view
         \<or> utcDay (roSpotUpdatedAt view) = utcDay (roNow view) \<and> roSessionAtSpotObservation view))
   \<and> (planRoll view = RollCloseOut \<longleftrightarrow> roPositionLongId view \<noteq> 0 \<and> roPositionExpiry view \<le> roNow view)"
  by (auto simp: planRoll_def)

subsection \<open>Stale asks\<close>

definition overtaken :: "bool \<Rightarrow> int \<Rightarrow> int \<Rightarrow> bool" where
  "overtaken isPut strike spot = (if isPut then spot \<le> strike else spot \<ge> strike)"

record stale_order =
  soUnits :: int
  soFilled :: int
  soValidUntil :: seconds
  soCancelled :: bool

record stale_series =
  ssIsPut :: bool
  ssStrike :: int

record stale_view =
  stOrderId :: int
  stPositionExpiry :: seconds
  stNow :: seconds
  stOrder :: "stale_order option"
  stSeries :: "stale_series option"
  stSpot :: "int option"
  stWitness :: "int option"
  stMinRollUnits :: int

datatype stale_via = ViaSpot | ViaWitness

datatype stale_decision =
    CancelStale int bool stale_via
  | NoAsk | PeriodOver | OrderDead | Unread | SpotStale | NotOvertaken

definition positive_price :: "int option \<Rightarrow> int option" where
  "positive_price p = (case p of Some v \<Rightarrow> if v > 0 then Some v else None | None \<Rightarrow> None)"

definition planStale :: "stale_view \<Rightarrow> stale_decision" where
  "planStale view =
     (if stOrderId view = 0 then NoAsk
      else if stNow view \<ge> stPositionExpiry view then PeriodOver
      else case (stOrder view, stSeries view) of
        (Some order, Some series) \<Rightarrow>
          let remaining = (if soUnits order > soFilled order then soUnits order - soFilled order else 0)
          in if soCancelled order \<or> remaining = 0 \<or> stNow view \<ge> soValidUntil order then OrderDead
             else let spot = positive_price (stSpot view);
                      witness = positive_price (stWitness view);
                      earnsBounty = (remaining \<ge> stMinRollUnits view);
                      hit = (\<lambda>p. case p of None \<Rightarrow> False | Some v \<Rightarrow> overtaken (ssIsPut series) (ssStrike series) v)
                  in if hit spot then CancelStale remaining earnsBounty ViaSpot
                     else if hit witness then CancelStale remaining earnsBounty ViaWitness
                     else if spot = None \<and> witness = None then SpotStale else NotOvertaken
      | _ \<Rightarrow> Unread)"

definition reads_overtaken :: "stale_series \<Rightarrow> int option \<Rightarrow> bool" where
  "reads_overtaken series p = (case p of None \<Rightarrow> False
     | Some v \<Rightarrow> 0 < v \<and> (if ssIsPut series then v \<le> ssStrike series else ssStrike series \<le> v))"

definition live_units :: "stale_view \<Rightarrow> stale_order \<Rightarrow> int" where
  "live_units view order =
     (if soCancelled order \<or> soUnits order \<le> soFilled order \<or> soValidUntil order \<le> stNow view then 0
      else soUnits order - soFilled order)"

text \<open>
  a stale ask is withdrawn exactly when a tracked, live ask of a running period stands on the
  wrong side of a readable price, the oracle's spot or, failing that, the witness; the cancel names
  all of its remaining units.
\<close>

theorem planStale_iff:
  "planStale view = CancelStale n bounty via \<longleftrightarrow>
     stOrderId view \<noteq> 0 \<and> stNow view < stPositionExpiry view
     \<and> (\<exists>order series. stOrder view = Some order \<and> stSeries view = Some series
          \<and> 0 < n \<and> n = live_units view order \<and> bounty = (stMinRollUnits view \<le> n)
          \<and> (if reads_overtaken series (stSpot view) then via = ViaSpot
             else reads_overtaken series (stWitness view) \<and> via = ViaWitness))"
proof (cases "stOrder view"; cases "stSeries view")
  fix order series assume [simp]: "stOrder view = Some order" "stSeries view = Some series"
  have hit: "(case positive_price p of None \<Rightarrow> False | Some v \<Rightarrow> overtaken (ssIsPut series) (ssStrike series) v)
      = reads_overtaken series p" for p
    by (auto simp: positive_price_def reads_overtaken_def overtaken_def split: option.splits)
  show ?thesis
    by (cases "reads_overtaken series (stSpot view)"; cases "reads_overtaken series (stWitness view)")
      (auto simp: planStale_def Let_def hit live_units_def)
qed (simp_all add: planStale_def)

subsection \<open>Housekeeping and the clock\<close>

definition sweepDue :: "int \<Rightarrow> seconds option \<Rightarrow> seconds \<Rightarrow> seconds \<Rightarrow> bool" where
  "sweepDue accrued lastSweepAt now intervalS =
     (if accrued = 0 then False
      else case lastSweepAt of None \<Rightarrow> True | Some t \<Rightarrow> now - t \<ge> intervalS)"

definition WAKE_MARGIN_MS :: int where "WAKE_MARGIN_MS = 1500"
definition MIN_WAKE_DELAY_MS :: int where "MIN_WAKE_DELAY_MS = 500"

record wake_schedule =
  wkAt :: seconds
  wkDelayMs :: int

fun present :: "'a option list \<Rightarrow> 'a list" where
  "present [] = []"
| "present (None # xs) = present xs"
| "present (Some x # xs) = x # present xs"

lemma set_present [simp]: "set (present xs) = {x. Some x \<in> set xs}"
  by (induction xs rule: present.induct) auto

definition scheduleWake ::
  "seconds \<Rightarrow> seconds option list \<Rightarrow> int \<Rightarrow> int option \<Rightarrow> int option \<Rightarrow> seconds option \<Rightarrow> wake_schedule option" where
  "scheduleWake now targets pollIntervalMs marginMs minDelayMs plannedAt =
     (let minDelay = or_else minDelayMs MIN_WAKE_DELAY_MS;
          missed = (case plannedAt of None \<Rightarrow> [] | Some p \<Rightarrow> filter (\<lambda>t. t > p \<and> t \<le> now) (present targets))
      in if missed \<noteq> [] then Some \<lparr>wkAt = js_min missed, wkDelayMs = minDelay\<rparr>
         else let future = filter (\<lambda>t. t > now) (present targets)
              in if future = [] then None
                 else let wakeAt = js_min future;
                          delayMs = max minDelay ((wakeAt - now) * 1000 + or_else marginMs WAKE_MARGIN_MS)
                      in if delayMs \<ge> pollIntervalMs then None else Some \<lparr>wkAt = wakeAt, wkDelayMs = delayMs\<rparr>)"

definition yieldDeadlineMs :: "seconds option list \<Rightarrow> seconds \<Rightarrow> int \<Rightarrow> int option" where
  "yieldDeadlineMs targets headTimestamp headReadAtMs =
     (let future = filter (\<lambda>t. t > headTimestamp) (present targets)
      in if future = [] then None else Some (headReadAtMs + (js_min future - headTimestamp) * 1000))"

lemma js_min_filter: "filter P xs \<noteq> [] \<Longrightarrow> P (js_min (filter P xs)) \<and> js_min (filter P xs) \<in> set xs"
  using js_min_in [of "filter P xs"] by auto

lemma js_min_filter_le: "x \<in> set xs \<Longrightarrow> P x \<Longrightarrow> js_min (filter P xs) \<le> x"
  by (rule js_min_le) simp

text \<open>
  the precise wake-up. When nothing planned was missed, the schedule names the earliest target
  ahead, waits at least until the head has reached it and its margin, and is left out only when no
  target is ahead or the next poll comes first.
\<close>

theorem scheduleWake_earliest:
  assumes "Some t \<in> set targets" "now < t" "or_else minDelayMs MIN_WAKE_DELAY_MS \<le> 1000" "0 \<le> or_else marginMs WAKE_MARGIN_MS"
    and "(t - now) * 1000 + or_else marginMs WAKE_MARGIN_MS < pollIntervalMs"
  shows "\<exists>w. scheduleWake now targets pollIntervalMs marginMs minDelayMs None = Some w
     \<and> Some (wkAt w) \<in> set targets \<and> now < wkAt w \<and> wkAt w \<le> t
     \<and> wkDelayMs w = (wkAt w - now) * 1000 + or_else marginMs WAKE_MARGIN_MS \<and> wkDelayMs w < pollIntervalMs"
proof -
  let ?future = "filter (\<lambda>t. t > now) (present targets)"
  have t: "t \<in> set ?future" using assms(1,2) by simp
  then have ne: "?future \<noteq> []" by (metis empty_iff empty_set)
  have at: "now < js_min ?future \<and> js_min ?future \<in> set (present targets)" using js_min_filter [OF ne] by simp
  have le: "js_min ?future \<le> t" using t by (rule js_min_le)
  from at have "1000 \<le> (js_min ?future - now) * 1000" by simp
  moreover from le have "(js_min ?future - now) * 1000 \<le> (t - now) * 1000" by simp
  ultimately show ?thesis using ne at le assms(3-5) by (simp add: scheduleWake_def Let_def max_def)
qed

theorem scheduleWake_earliest_witness:
  "\<exists>w. scheduleWake 1000 [None, Some 1005, Some 1002] 60000 None None None = Some w
     \<and> Some (wkAt w) \<in> set [None, Some 1005, Some 1002] \<and> 1000 < wkAt w \<and> wkAt w \<le> 1005
     \<and> wkDelayMs w = (wkAt w - 1000) * 1000 + or_else None WAKE_MARGIN_MS \<and> wkDelayMs w < 60000"
  by (rule scheduleWake_earliest) (simp_all add: MIN_WAKE_DELAY_MS_def WAKE_MARGIN_MS_def)

subsection \<open>The expiries one tick surveys\<close>

record expiry_key =
  ekOracle :: address
  ekUnderlying :: address
  ekExpiry :: seconds

definition expiryKeyString :: "expiry_key \<Rightarrow> string" where
  "expiryKeyString k = lower (ekOracle k) @ '':'' @ lower (ekUnderlying k) @ '':'' @ show_int (ekExpiry k)"

fun eligible_loop :: "string list \<Rightarrow> seconds \<Rightarrow> string list \<Rightarrow> expiry_key list \<Rightarrow> expiry_key list" where
  "eligible_loop finished until seen [] = []"
| "eligible_loop finished until seen (k # ks) =
     (let key = expiryKeyString k
      in if key \<in> set seen \<or> key \<in> set finished \<or> ekExpiry k > until then eligible_loop finished until seen ks
         else k # eligible_loop finished until (key # seen) ks)"

definition eligible_expiries :: "expiry_key list \<Rightarrow> string list \<Rightarrow> seconds \<Rightarrow> seconds \<Rightarrow> expiry_key list" where
  "eligible_expiries allKeys finished now horizonS =
     eligible_loop finished (now + horizonS) [] (js_sort (\<lambda>a b. ekExpiry a - ekExpiry b) allKeys)"

definition rotate_from :: "int \<Rightarrow> 'a list \<Rightarrow> int \<Rightarrow> 'a list" where
  "rotate_from start backlog room =
     map (\<lambda>i. backlog ! nat ((start + int i) smod int (length backlog))) [0..<nat room]"

definition selectExpiries ::
  "expiry_key list \<Rightarrow> string list \<Rightarrow> seconds \<Rightarrow> seconds \<Rightarrow> int \<Rightarrow> seconds option \<Rightarrow> int option \<Rightarrow> expiry_key list" where
  "selectExpiries allKeys finished now horizonS limit recentS backlogOffset =
     (let eligible = eligible_expiries allKeys finished now horizonS
      in case recentS of
           None \<Rightarrow> slice0 eligible limit
         | Some r \<Rightarrow>
             let cutoff = now - r;
                 recent = filter (\<lambda>k. ekExpiry k \<ge> cutoff) eligible;
                 backlog = filter (\<lambda>k. ekExpiry k < cutoff) eligible;
                 out = slice0 recent limit;
                 room = min (limit - int (length out)) (int (length backlog));
                 start = (if backlog = [] then 0
                          else ((or_else backlogOffset 0 smod int (length backlog)) + int (length backlog))
                                 smod int (length backlog))
             in out @ rotate_from start backlog room)"

lemma eligible_loop_uniq:
  "eligible_loop fin until seen ks =
     uniq_by expiryKeyString seen (filter (\<lambda>k. expiryKeyString k \<notin> set fin \<and> ekExpiry k \<le> until) ks)"
  by (induction ks arbitrary: seen) (auto simp: Let_def)

lemma eligible_mem:
  "k \<in> set (eligible_expiries keys fin now h) \<Longrightarrow> k \<in> set keys \<and> expiryKeyString k \<notin> set fin \<and> ekExpiry k \<le> now + h"
  unfolding eligible_expiries_def eligible_loop_uniq by (drule subsetD [OF uniq_by_subset]) simp

lemma eligible_keys: "distinct (map expiryKeyString (eligible_expiries keys fin now h))"
  unfolding eligible_expiries_def eligible_loop_uniq by (rule uniq_by_distinct)

lemma rotate_from_nth:
  assumes "backlog \<noteq> []" "0 \<le> start"
  shows "rotate_from start backlog room = map (\<lambda>i. backlog ! ((nat start + i) mod length backlog)) [0..<nat room]"
  using assms by (simp add: rotate_from_def smod_nonneg nat_mod_distrib nat_add_distrib)

lemma rotate_from_mem: "backlog \<noteq> [] \<Longrightarrow> 0 \<le> start \<Longrightarrow> set (rotate_from start backlog room) \<subseteq> set backlog"
  by (auto simp: rotate_from_nth)

lemma rotate_from_distinct:
  assumes "distinct (map f backlog)" "backlog \<noteq> []" "0 \<le> start" "room \<le> int (length backlog)"
  shows "distinct (map f (rotate_from start backlog room))"
proof -
  let ?g = "\<lambda>i. (nat start + i) mod length backlog"
  have "inj_on ?g {0..<nat room}"
  proof (rule inj_onI)
    fix i j assume ij: "i \<in> {0..<nat room}" "j \<in> {0..<nat room}" "?g i = ?g j"
    then have "i < length backlog" "j < length backlog" using assms(4) by auto
    with ij(3) show "i = j" by (blast intro: rotation_inj)
  qed
  moreover have "inj_on ((!) (map f backlog)) (?g ` {0..<nat room})"
    using assms(1,2) by (intro inj_on_nth) auto
  ultimately have "inj_on ((!) (map f backlog) \<circ> ?g) {0..<nat room}" by (rule comp_inj_on)
  then have "inj_on (\<lambda>i. f (backlog ! ?g i)) {0..<nat room}" using assms(2) by (simp add: o_def)
  then show ?thesis using assms(2,3) by (simp add: rotate_from_nth distinct_map o_def)
qed

text \<open>What the tick starts from: the recent part, cut at the limit, then the rotated backlog.\<close>

definition recent_of :: "expiry_key list \<Rightarrow> seconds \<Rightarrow> seconds \<Rightarrow> expiry_key list" where
  "recent_of eligible now r = filter (\<lambda>k. now - r \<le> ekExpiry k) eligible"

definition backlog_of :: "expiry_key list \<Rightarrow> seconds \<Rightarrow> seconds \<Rightarrow> expiry_key list" where
  "backlog_of eligible now r = filter (\<lambda>k. ekExpiry k < now - r) eligible"

lemma selectExpiries_rotation:
  fixes keys fin now h r limit offset
  defines "el \<equiv> eligible_expiries keys fin now h"
  assumes "backlog_of el now r \<noteq> []"
  shows "selectExpiries keys fin now h limit (Some r) offset =
    slice0 (recent_of el now r) limit
    @ rotate_from (or_else offset 0 mod int (length (backlog_of el now r))) (backlog_of el now r)
        (min (limit - int (length (slice0 (recent_of el now r) limit))) (int (length (backlog_of el now r))))"
  using assms by (simp add: selectExpiries_def Let_def el_def recent_of_def backlog_of_def smod_wrap)

lemma rotate_from_Nil: "room \<le> 0 \<Longrightarrow> rotate_from start backlog room = []"
  by (simp add: rotate_from_def)

lemma selectExpiries_no_backlog:
  "backlog_of (eligible_expiries keys fin now h) now r = [] \<Longrightarrow>
     selectExpiries keys fin now h limit (Some r) offset = slice0 (recent_of (eligible_expiries keys fin now h) now r) limit"
  by (simp add: selectExpiries_def Let_def recent_of_def backlog_of_def rotate_from_Nil)

lemma distinct_map_slice0: "distinct (map f xs) \<Longrightarrow> distinct (map f (slice0 xs n))"
  by (simp add: slice0_def take_map [symmetric])

lemma slice0_all: "int (length xs) \<le> n \<Longrightarrow> slice0 xs n = xs"
  by (simp add: slice0_def)

text \<open>
  a tick surveys at most \<open>limit\<close> expiries, none twice and none done or beyond the horizon, and the
  recent ones are never crowded out by an older backlog: whenever they fit, all of them are surveyed.
\<close>

theorem selectExpiries_bounded:
  assumes "0 \<le> limit"
  shows "int (length (selectExpiries keys fin now h limit (Some r) offset)) \<le> limit
    \<and> distinct (map expiryKeyString (selectExpiries keys fin now h limit (Some r) offset))
    \<and> set (selectExpiries keys fin now h limit (Some r) offset) \<subseteq> set (eligible_expiries keys fin now h)
    \<and> (int (length (recent_of (eligible_expiries keys fin now h) now r)) \<le> limit \<longrightarrow>
        set (recent_of (eligible_expiries keys fin now h) now r)
          \<subseteq> set (selectExpiries keys fin now h limit (Some r) offset))"
proof -
  let ?el = "eligible_expiries keys fin now h"
  let ?rec = "recent_of ?el now r" and ?bl = "backlog_of ?el now r"
  have keys: "distinct (map expiryKeyString ?rec)" "distinct (map expiryKeyString ?bl)"
    using eligible_keys [of keys fin now h] by (simp_all add: recent_of_def backlog_of_def distinct_map_filter)
  have disj: "expiryKeyString ` set ?rec \<inter> expiryKeyString ` set ?bl = {}"
    using eligible_keys [of keys fin now h]
    by (auto simp: recent_of_def backlog_of_def distinct_map dest!: inj_onD)
  have len: "int (length (slice0 ?rec limit)) \<le> limit" using assms by (rule length_slice0)
  have sub: "set (slice0 ?rec limit) \<subseteq> set ?rec" by (rule set_slice0)
  show ?thesis
  proof (cases "?bl = []")
    case True
    then show ?thesis using keys(1) len sub
      by (auto simp: selectExpiries_no_backlog distinct_map_slice0 slice0_all recent_of_def)
  next
    case False
    let ?start = "or_else offset 0 mod int (length ?bl)"
    let ?room = "min (limit - int (length (slice0 ?rec limit))) (int (length ?bl))"
    have s: "0 \<le> ?start" using False by simp
    have rot: "set (rotate_from ?start ?bl ?room) \<subseteq> set ?bl" using False s by (rule rotate_from_mem)
    have "distinct (map expiryKeyString (rotate_from ?start ?bl ?room))"
      using keys(2) False s by (rule rotate_from_distinct) simp
    moreover have "int (length (rotate_from ?start ?bl ?room)) \<le> limit - int (length (slice0 ?rec limit))"
      using len by (simp add: rotate_from_def)
    moreover have "expiryKeyString ` set (slice0 ?rec limit) \<inter> expiryKeyString ` set (rotate_from ?start ?bl ?room) = {}"
      using disj sub rot by blast
    ultimately show ?thesis
      using keys(1) sub rot False
      by (auto simp: selectExpiries_rotation distinct_map_slice0 slice0_all recent_of_def backlog_of_def)
  qed
qed

theorem selectExpiries_bounded_witness:
  "let sel = selectExpiries [] [] 1000 100 5 (Some 50) None
   in int (length sel) \<le> 5 \<and> distinct (map expiryKeyString sel) \<and> set sel \<subseteq> set (eligible_expiries [] [] 1000 100)
"
  unfolding Let_def using selectExpiries_bounded [of 5 "[]" "[]" 1000 100 50 None] by simp

subsection \<open>The expiries of the ticks (cranker/cranker.ts)\<close>

text \<open>
  How the cranker calls it: at most two hundred expiries a tick, those of the last three days first, and the
  place in the older backlog moved on by as many of it as were surveyed.
\<close>

definition MAX_EXPIRIES_PER_TICK :: int where "MAX_EXPIRIES_PER_TICK = 200"
definition RECENT_EXPIRY_S :: seconds where "RECENT_EXPIRY_S = 3 * 86400"

record survey_input =
  svKeys :: "expiry_key list"
  svDone :: "string list"
  svNow :: seconds

definition survey_tick :: "seconds \<Rightarrow> survey_input \<Rightarrow> int \<Rightarrow> expiry_key list \<times> int" where
  "survey_tick horizonS i backlogOffset =
     (let keys = selectExpiries (svKeys i) (svDone i) (svNow i) horizonS MAX_EXPIRIES_PER_TICK (Some RECENT_EXPIRY_S) (Some backlogOffset)
      in (keys, backlogOffset + int (length (filter (\<lambda>k. ekExpiry k < svNow i - RECENT_EXPIRY_S) keys))))"

fun survey_ticks :: "seconds \<Rightarrow> survey_input list \<Rightarrow> int \<Rightarrow> expiry_key list list" where
  "survey_ticks horizonS [] backlogOffset = []"
| "survey_ticks horizonS (i # is) backlogOffset =
     (let (keys, next_offset) = survey_tick horizonS i backlogOffset in keys # survey_ticks horizonS is next_offset)"

text \<open>What a tick finds: the expiries of the last three days that are not done, and the older ones.\<close>

definition survey_recent :: "seconds \<Rightarrow> survey_input \<Rightarrow> expiry_key list" where
  "survey_recent horizonS i = recent_of (eligible_expiries (svKeys i) (svDone i) (svNow i) horizonS) (svNow i) 259200"

definition survey_backlog :: "seconds \<Rightarrow> survey_input \<Rightarrow> expiry_key list" where
  "survey_backlog horizonS i = backlog_of (eligible_expiries (svKeys i) (svDone i) (svNow i) horizonS) (svNow i) 259200"

text \<open>A tick surveys a window of the backlog that starts at the offset, and moves the offset to its end.\<close>

lemma survey_window:
  assumes "survey_backlog h i = B" "B \<noteq> []" "int (length (survey_recent h i)) + p \<le> 200" "1 \<le> p"
  shows "\<exists>w. min p (int (length B)) \<le> w \<and> w \<le> int (length B) \<and> snd (survey_tick h i off) = off + w
    \<and> set (rotate_from (off mod int (length B)) B w) \<subseteq> set (fst (survey_tick h i off))"
proof -
  let ?el = "eligible_expiries (svKeys i) (svDone i) (svNow i) h"
  let ?w = "min (200 - int (length (survey_recent h i))) (int (length B))"
  have bl: "backlog_of ?el (svNow i) RECENT_EXPIRY_S = B" using assms(1) by (simp add: survey_backlog_def RECENT_EXPIRY_S_def)
  have rec: "recent_of ?el (svNow i) RECENT_EXPIRY_S = survey_recent h i" by (simp add: survey_recent_def RECENT_EXPIRY_S_def)
  have "slice0 (survey_recent h i) 200 = survey_recent h i" by (rule slice0_all) (use assms(3,4) in linarith)
  then have sel: "fst (survey_tick h i off) = survey_recent h i @ rotate_from (off mod int (length B)) B ?w"
    using selectExpiries_rotation [of "svKeys i" "svDone i" "svNow i" h RECENT_EXPIRY_S MAX_EXPIRIES_PER_TICK "Some off"] assms(2)
    by (simp add: survey_tick_def Let_def bl rec MAX_EXPIRIES_PER_TICK_def or_else_def)
  have old: "b \<in> set B \<Longrightarrow> ekExpiry b < svNow i - RECENT_EXPIRY_S" for b by (auto simp: bl [symmetric] backlog_of_def)
  have "set (rotate_from (off mod int (length B)) B ?w) \<subseteq> set B" using assms(2) by (intro rotate_from_mem) simp_all
  then have "filter (\<lambda>k. ekExpiry k < svNow i - RECENT_EXPIRY_S) (rotate_from (off mod int (length B)) B ?w)
      = rotate_from (off mod int (length B)) B ?w" using old by (intro filter_True) blast
  moreover have "filter (\<lambda>k. ekExpiry k < svNow i - RECENT_EXPIRY_S) (survey_recent h i) = []"
    unfolding rec [symmetric] by (auto simp: recent_of_def filter_empty_conv)
  moreover have "0 \<le> ?w" using assms(3,4) by simp
  ultimately have "snd (survey_tick h i off) = off + ?w"
    using sel by (simp add: survey_tick_def Let_def rotate_from_def)
  then show ?thesis using sel assms(3,4) by (intro exI [of _ ?w]) auto
qed

lemma rotate_from_has:
  assumes "B \<noteq> []" "j < length B" "(int j - off) mod int (length B) < w"
  shows "B ! j \<in> set (rotate_from (off mod int (length B)) B w)"
proof -
  let ?L = "int (length B)" and ?d = "(int j - off) mod int (length B)"
  have L: "0 < ?L" using assms(1) by simp
  have d: "0 \<le> ?d" "0 \<le> off mod ?L" using L by simp_all
  have "(off mod ?L + ?d) mod ?L = int j" using assms(2) by (simp add: mod_add_eq)
  then have "int ((nat (off mod ?L) + nat ?d) mod length B) = int j"
    using d by (simp add: of_nat_mod)
  then have "(nat (off mod ?L) + nat ?d) mod length B = j" by simp
  moreover have "nat ?d < nat w" using d(1) assms(3) by simp
  ultimately show ?thesis
    unfolding rotate_from_nth [OF assms(1) d(2)] by (auto simp: image_iff intro!: bexI [of _ "nat ?d"])
qed

lemma survey_reaches:
  assumes "\<forall>i \<in> set inputs. survey_backlog h i = B \<and> int (length (survey_recent h i)) + p \<le> 200" "1 \<le> p"
    and "j < length B" "(int j - off) mod int (length B) < p * int (length inputs)"
  shows "B ! j \<in> set (concat (survey_ticks h inputs off))"
  using assms(1,4)
proof (induction inputs arbitrary: off)
  case Nil
  have "0 \<le> (int j - off) mod int (length B)" by (rule pos_mod_sign) (use assms(3) in auto)
  then show ?case using Nil.prems(2) by simp
next
  case (Cons i inputs)
  let ?d = "(int j - off) mod int (length B)"
  have ne: "B \<noteq> []" using assms(3) by auto
  obtain w where w: "min p (int (length B)) \<le> w" "w \<le> int (length B)" "snd (survey_tick h i off) = off + w"
    "set (rotate_from (off mod int (length B)) B w) \<subseteq> set (fst (survey_tick h i off))"
    using survey_window [OF _ ne _ assms(2), of h i off] Cons.prems(1) by auto
  have tick: "survey_ticks h (i # inputs) off = fst (survey_tick h i off) # survey_ticks h inputs (off + w)"
    using w(3) by (cases "survey_tick h i off") simp
  show ?case
  proof (cases "?d < w")
    case True
    then show ?thesis using rotate_from_has [OF ne assms(3) True] w(4) unfolding tick by auto
  next
    case False
    have d: "0 \<le> ?d" "?d < int (length B)" using ne by simp_all
    then have "p \<le> w" using w(1) False by auto
    have "(int j - (off + w)) mod int (length B) = (?d - w) mod int (length B)"
      by (simp add: mod_diff_left_eq diff_diff_eq)
    also have "\<dots> = ?d - w" using False d w(1) assms(2) by (intro mod_pos_pos_trivial) auto
    finally have "(int j - (off + w)) mod int (length B) < p * int (length inputs)"
      using Cons.prems(2) \<open>p \<le> w\<close> by (simp add: algebra_simps)
    then have "B ! j \<in> set (concat (survey_ticks h inputs (off + w)))" using Cons.IH Cons.prems(1) by simp
    then show ?thesis unfolding tick by simp
  qed
qed

text \<open>
  C38: no expiry starves. Over consecutive ticks that find the same older backlog, wherever the rotation stands,
  and each with at least \<open>p\<close> of the two hundred places left by the expiries of the last three days, every
  expiry of the backlog is surveyed once the ticks have had a place for each: within its length divided by \<open>p\<close>.
\<close>

theorem selectExpiries_fair:
  assumes "\<forall>i \<in> set inputs. survey_backlog h i = B \<and> int (length (survey_recent h i)) + p \<le> 200" "1 \<le> p"
    and "int (length B) \<le> p * int (length inputs)"
  shows "set B \<subseteq> set (concat (survey_ticks h inputs off))"
proof
  fix k
  assume "k \<in> set B"
  then obtain j where j: "j < length B" "B ! j = k" by (auto simp: in_set_conv_nth)
  have "(int j - off) mod int (length B) < int (length B)" by (rule pos_mod_bound) (use j(1) in auto)
  then have "(int j - off) mod int (length B) < p * int (length inputs)" using assms(3) by linarith
  from survey_reaches [OF assms(1,2) j(1) this] show "k \<in> set (concat (survey_ticks h inputs off))" by (simp add: j(2))
qed

definition sample_survey :: "seconds \<Rightarrow> survey_input" where
  "sample_survey now =
     \<lparr>svKeys = [\<lparr>ekOracle = ''a'', ekUnderlying = ''b'', ekExpiry = 20\<rparr>, \<lparr>ekOracle = ''c'', ekUnderlying = ''b'', ekExpiry = 10\<rparr>,
        \<lparr>ekOracle = ''d'', ekUnderlying = ''b'', ekExpiry = now\<rparr>], svDone = [], svNow = now\<rparr>"

theorem selectExpiries_fair_witness:
  "let B = survey_backlog 100 (sample_survey 400000)
   in map ekExpiry B = [10, 20] \<and> set B \<subseteq> set (concat (survey_ticks 100 [sample_survey 400000, sample_survey 400900] 7))"
proof -
  let ?B = "survey_backlog 100 (sample_survey 400000)" and ?is = "[sample_survey 400000, sample_survey 400900]"
  have l: "lower ''a'' = ''a''" "lower ''b'' = ''b''" "lower ''c'' = ''c''" "lower ''d'' = ''d''" by code_simp+
  have B: "survey_backlog 100 (sample_survey 400900) = ?B" "map ekExpiry ?B = [10, 20]"
    and r: "length (survey_recent 100 (sample_survey 400000)) = 1" "length (survey_recent 100 (sample_survey 400900)) = 1"
    by (simp_all add: survey_backlog_def survey_recent_def sample_survey_def eligible_expiries_def eligible_loop.simps
        expiryKeyString_def l backlog_of_def recent_of_def Let_def)
  have "\<forall>i \<in> set ?is. survey_backlog 100 i = ?B \<and> int (length (survey_recent 100 i)) + 1 \<le> 200" using B(1) r by simp
  moreover have "length ?B = 2" using B(2) by (metis length_map list.size(3,4) One_nat_def Suc_1 add_Suc_right add_0_right)
  ultimately have "set ?B \<subseteq> set (concat (survey_ticks 100 ?is 7))" by (intro selectExpiries_fair [where p = 1]) simp_all
  then show ?thesis using B(2) unfolding Let_def by blast
qed

end
