(* ===== verification/PricerPlan.thy ===== *)
theory PricerPlan
  imports RollPlan
begin

section \<open>Smart repricing of a writer's ask (keeper/src/v2/pricer/planner.ts)\<close>

text \<open>
  The band AutoRoller.reprice accepts, the clamped target, the largest step one reprice may take, the
  cadence, the preconditions of an evaluation and the decision itself. Prices are bigints on a tick of
  100 base units; the roundings are those of the ladder, and the grid lemmas come from their locale.
\<close>

definition PRICE_TICK :: int where "PRICE_TICK = 100"
definition MAX_REPRICE_DROP_BPS :: int where "MAX_REPRICE_DROP_BPS = 2500"
definition REPRICE_PAGE_DROP_BPS :: int where "REPRICE_PAGE_DROP_BPS = 2000"
definition PRICER_MAX_STEP_DROP_BPS :: int where "PRICER_MAX_STEP_DROP_BPS = 1900"
definition CUTOFF_MARGIN_S :: seconds where "CUTOFF_MARGIN_S = 60"

record band =
  bdMin :: int
  bdMax :: int

definition priceBand :: "int \<Rightarrow> int \<Rightarrow> int \<Rightarrow> band option" where
  "priceBand spot minAskBps maxAskBps =
     (if spot \<le> 0 \<or> minAskBps > maxAskBps then None
      else let min0 = roundUpToTick (ceilDiv (spot * minAskBps) BPS) PRICE_TICK;
               lo = (if min0 = 0 then PRICE_TICK else min0);
               hi = roundDownToTick ((spot * maxAskBps) sdiv BPS) PRICE_TICK
           in if lo > hi then None else Some \<lparr>bdMin = lo, bdMax = hi\<rparr>)"

definition inBand :: "int \<Rightarrow> int \<Rightarrow> int \<Rightarrow> int \<Rightarrow> bool" where
  "inBand price spot minAskBps maxAskBps =
     (if price \<le> 0 \<or> price smod PRICE_TICK \<noteq> 0 then False
      else let scaled = price * BPS in scaled \<ge> spot * minAskBps \<and> scaled \<le> spot * maxAskBps)"

datatype clamp_side = ClampFloor | ClampCeiling

record target =
  tgPrice :: int
  tgRaw :: int
  tgBand :: band
  tgClamped :: "clamp_side option"

text \<open>\<open>None\<close> is \<open>{ ok: false, reason: 'band-empty' }\<close>.\<close>

definition targetPrice :: "int \<Rightarrow> int \<Rightarrow> int \<Rightarrow> int \<Rightarrow> int \<Rightarrow> target option" where
  "targetPrice fair0 edgeBps spot minAskBps maxAskBps =
     (case priceBand spot minAskBps maxAskBps of
        None \<Rightarrow> None
      | Some b \<Rightarrow>
          let factor = BPS + edgeBps;
              fair = (if fair0 < 0 then 0 else fair0);
              raw = (if factor \<le> 0 then 0 else roundUpToTick (ceilDiv (fair * factor) BPS) PRICE_TICK)
          in if raw < bdMin b then Some \<lparr>tgPrice = bdMin b, tgRaw = raw, tgBand = b, tgClamped = Some ClampFloor\<rparr>
             else if raw > bdMax b then Some \<lparr>tgPrice = bdMax b, tgRaw = raw, tgBand = b, tgClamped = Some ClampCeiling\<rparr>
             else Some \<lparr>tgPrice = raw, tgRaw = raw, tgBand = b, tgClamped = None\<rparr>)"

definition repriceFloor :: "int \<Rightarrow> int" where
  "repriceFloor live =
     (if live \<le> 0 then 0 else roundUpToTick (ceilDiv (live * (BPS - MAX_REPRICE_DROP_BPS)) BPS) PRICE_TICK)"

definition stepFloor :: "int \<Rightarrow> int" where
  "stepFloor live =
     (if live \<le> 0 then 0
      else let own = roundUpToTick (ceilDiv (live * (BPS - PRICER_MAX_STEP_DROP_BPS)) BPS) PRICE_TICK;
               contract = repriceFloor live
           in if own > contract then own else contract)"

definition differsEnough :: "int \<Rightarrow> int \<Rightarrow> int \<Rightarrow> bool" where
  "differsEnough tgt live thresholdBps =
     (if live \<le> 0 then tgt \<noteq> live
      else let diff = (if tgt > live then tgt - live else live - tgt) in diff * BPS > live * thresholdBps)"

subsection \<open>Cadence and preconditions\<close>

record evaluation_memory =
  emLongId :: int
  emCheckedAt :: seconds

datatype why_due = NewPosition | Interval
datatype due = Due why_due | NotDueUntil seconds

definition evaluationDue :: "int \<Rightarrow> evaluation_memory option \<Rightarrow> seconds \<Rightarrow> seconds \<Rightarrow> due" where
  "evaluationDue positionLongId memory now minIntervalS =
     (case memory of
        None \<Rightarrow> Due NewPosition
      | Some m \<Rightarrow>
          if emLongId m \<noteq> positionLongId then Due NewPosition
          else let nextAt = emCheckedAt m + minIntervalS
               in if now \<ge> nextAt then Due Interval else NotDueUntil nextAt)"

record strategy_view =
  syActive :: bool
  sySmartPricing :: bool
  syMinAskBps :: int
  syMaxAskBps :: int

record position_view =
  poLongId :: int
  poOrderId :: int
  poExpiry :: seconds

record ask_view =
  avPrice :: int
  avUnits :: int
  avFilled :: int
  avValidUntil :: seconds
  avCancelled :: bool

record check_view =
  ckStrategy :: strategy_view
  ckPosition :: position_view
  ckOrder :: "ask_view option"
  ckSpot :: "int option"
  ckSeries :: "stale_series option"
  ckNow :: seconds
  ckSessionOpen :: "bool option"
  ckMemory :: "evaluation_memory option"

datatype check_decision =
    CheckOk why_due int ask_view
  | SkipInactive | SkipNotSmartPricing | SkipNoPosition | SkipNoTrackedAsk | SkipOrderNotLive | SkipNearCutoff
  | SkipNotDue seconds | SkipMarketClosed | SkipSessionUnavailable | SkipSpotStale | SkipInTheMoney

definition remainingUnits :: "ask_view \<Rightarrow> int" where
  "remainingUnits a = (if avUnits a > avFilled a then avUnits a - avFilled a else 0)"

definition askLive :: "ask_view \<Rightarrow> seconds \<Rightarrow> bool" where
  "askLive a now = (\<not> avCancelled a \<and> remainingUnits a > 0 \<and> now < avValidUntil a)"

definition planCheck :: "check_view \<Rightarrow> seconds \<Rightarrow> bool \<Rightarrow> check_decision" where
  "planCheck view minIntervalS repriceOffHours =
     (if \<not> syActive (ckStrategy view) then SkipInactive
      else if \<not> sySmartPricing (ckStrategy view) then SkipNotSmartPricing
      else if poLongId (ckPosition view) = 0 then SkipNoPosition
      else if poOrderId (ckPosition view) = 0 then SkipNoTrackedAsk
      else case ckOrder view of
        None \<Rightarrow> SkipOrderNotLive
      | Some order \<Rightarrow>
          if \<not> askLive order (ckNow view) then SkipOrderNotLive
          else if ckNow view + CUTOFF_MARGIN_S \<ge> avValidUntil order then SkipNearCutoff
          else case evaluationDue (poLongId (ckPosition view)) (ckMemory view) (ckNow view) minIntervalS of
            NotDueUntil nextAt \<Rightarrow> SkipNotDue nextAt
          | Due why \<Rightarrow>
              if \<not> repriceOffHours \<and> ckSessionOpen view = None then SkipSessionUnavailable
              else if \<not> repriceOffHours \<and> ckSessionOpen view \<noteq> Some True then SkipMarketClosed
              else case ckSpot view of
                None \<Rightarrow> SkipSpotStale
              | Some spot \<Rightarrow>
                  if spot \<le> 0 then SkipSpotStale
                  else case ckSeries view of
                    None \<Rightarrow> CheckOk why spot order
                  | Some s \<Rightarrow> if overtaken (ssIsPut s) (ssStrike s) spot then SkipInTheMoney else CheckOk why spot order)"

subsection \<open>The decision\<close>

record ceiling_step =
  csStepFloor :: int
  csDropBps :: int

datatype reprice_decision =
    Reprice int target "int option" "ceiling_step option"
  | BandEmpty
  | WithinThreshold target
  | DropFloorAboveBand target int int

definition planReprice :: "int \<Rightarrow> int \<Rightarrow> int \<Rightarrow> int \<Rightarrow> int \<Rightarrow> int \<Rightarrow> int \<Rightarrow> reprice_decision" where
  "planReprice fair spot livePrice minAskBps maxAskBps edgeBps thresholdBps =
     (case targetPrice fair edgeBps spot minAskBps maxAskBps of
        None \<Rightarrow> BandEmpty
      | Some t \<Rightarrow>
          if \<not> differsEnough (tgPrice t) livePrice thresholdBps then WithinThreshold t
          else let flr = stepFloor livePrice
               in if tgPrice t \<ge> flr then Reprice (tgPrice t) t None None
                  else if flr \<le> bdMax (tgBand t) then Reprice flr t (Some flr) None
                  else let contractFloor = repriceFloor livePrice
                       in if bdMax (tgBand t) < contractFloor then DropFloorAboveBand t flr contractFloor
                          else let dropBps = ((livePrice - bdMax (tgBand t)) * BPS) sdiv livePrice
                               in Reprice (bdMax (tgBand t)) t None (Some \<lparr>csStepFloor = flr, csDropBps = dropBps\<rparr>))"

subsection \<open>The band is the contract's band\<close>

lemma BPS_pos: "0 < BPS" by (simp add: BPS_def)
lemma PRICE_TICK_pos: "0 < PRICE_TICK" by (simp add: PRICE_TICK_def)

text \<open>The first tick whose scaled price reaches \<open>x\<close>.\<close>

definition first_tick :: "int \<Rightarrow> int" where
  "first_tick x = roundUpToTick (ceilDiv x BPS) PRICE_TICK"

lemma ceilDiv_nonneg: "0 \<le> x \<Longrightarrow> 0 \<le> ceilDiv x BPS"
  by (simp add: ceilDiv_def BPS_def)

lemma first_tick_reaches: "0 \<le> x \<Longrightarrow> x \<le> first_tick x * BPS"
proof -
  assume x: "0 \<le> x"
  have "x \<le> ceilDiv x BPS * BPS" using x BPS_pos by (rule ceilDiv_ge)
  also have "ceilDiv x BPS \<le> first_tick x"
    using roundUp_bounds [OF PRICE_TICK_pos ceilDiv_nonneg [OF x]] by (simp add: first_tick_def)
  then have "ceilDiv x BPS * BPS \<le> first_tick x * BPS" by (simp add: BPS_def)
  finally show ?thesis .
qed

lemma first_tick_least: "0 \<le> x \<Longrightarrow> PRICE_TICK dvd p \<Longrightarrow> x \<le> p * BPS \<Longrightarrow> first_tick x \<le> p"
proof -
  assume a: "0 \<le> x" "PRICE_TICK dvd p" "x \<le> p * BPS"
  have "ceilDiv x BPS \<le> p" using a BPS_pos by (simp add: ceilDiv_def ceil_div_least [symmetric] BPS_def)
  then show ?thesis
    using strike_grid.up_least [of "ceilDiv x BPS" PRICE_TICK p] ceilDiv_nonneg [OF a(1)] a(2)
    by (simp add: first_tick_def PRICE_TICK_def)
qed

lemma first_tick_dvd [simp]: "PRICE_TICK dvd first_tick x"
  by (simp add: first_tick_def)

lemma first_tick_nonneg: "0 \<le> x \<Longrightarrow> 0 \<le> first_tick x"
  using roundUp_bounds [OF PRICE_TICK_pos ceilDiv_nonneg [of x]] ceilDiv_nonneg [of x] by (simp add: first_tick_def)

lemma last_tick: "0 \<le> y \<Longrightarrow> PRICE_TICK dvd p \<Longrightarrow> (p \<le> roundDownToTick (y sdiv BPS) PRICE_TICK) = (p * BPS \<le> y)"
proof -
  assume a: "0 \<le> y" "PRICE_TICK dvd p"
  have d: "0 \<le> y div BPS" using a BPS_pos by (simp add: pos_imp_zdiv_nonneg_iff)
  have "(p \<le> roundDownToTick (y div BPS) PRICE_TICK) = (p \<le> y div BPS)"
    using strike_grid.down_greatest [of "y div BPS" PRICE_TICK p] strike_grid.down_le [of "y div BPS" PRICE_TICK] d a(2)
    by (auto simp: PRICE_TICK_def)
  also have "\<dots> = (p * BPS \<le> y)" using BPS_pos by (rule le_div_iff_mult_le_int)
  finally show ?thesis using a by (simp add: BPS_def)
qed

lemma inBand_iff: "inBand p spot mn mx \<longleftrightarrow> 0 < p \<and> PRICE_TICK dvd p \<and> spot * mn \<le> p * BPS \<and> p * BPS \<le> spot * mx"
proof (cases "0 < p")
  case True
  then have "p smod PRICE_TICK = p mod PRICE_TICK" by (simp add: smod_nonneg PRICE_TICK_def)
  with True show ?thesis by (auto simp: inBand_def Let_def dvd_eq_mod_eq_0)
qed (simp add: inBand_def)

text \<open>The least positive price the floor allows.\<close>

lemma band_min:
  assumes "0 \<le> x" "PRICE_TICK dvd p"
  shows "((if first_tick x = 0 then PRICE_TICK else first_tick x) \<le> p) = (0 < p \<and> x \<le> p * BPS)"
proof -
  have up: "x \<le> p * BPS \<longleftrightarrow> first_tick x \<le> p"
  proof
    assume "first_tick x \<le> p"
    then have "first_tick x * BPS \<le> p * BPS" by (simp add: BPS_def)
    then show "x \<le> p * BPS" using first_tick_reaches [OF assms(1)] by simp
  qed (use assms first_tick_least in blast)
  have "0 < p \<Longrightarrow> PRICE_TICK \<le> p" using assms(2) by (auto dest: zdvd_imp_le)
  then show ?thesis
    using first_tick_nonneg [OF assms(1)] PRICE_TICK_pos by (auto simp: up)
qed

lemma priceBand_mem:
  assumes "0 < spot" "0 \<le> mn" "mn \<le> mx" "PRICE_TICK dvd p"
  shows "inBand p spot mn mx \<longleftrightarrow> (\<exists>b. priceBand spot mn mx = Some b \<and> bdMin b \<le> p \<and> p \<le> bdMax b)"
proof -
  have n: "0 \<le> spot * mn" "0 \<le> spot * mx" using assms by simp_all
  show ?thesis
    using band_min [OF n(1) assms(4)] last_tick [OF n(2) assms(4)] assms
    by (auto simp: inBand_iff priceBand_def Let_def first_tick_def [symmetric])
qed

lemma band_shape:
  assumes "priceBand spot mn mx = Some b"
  shows "0 < spot" "mn \<le> mx" "bdMin b \<le> bdMax b" "PRICE_TICK dvd bdMin b" "PRICE_TICK dvd bdMax b"
  using assms by (auto simp: priceBand_def Let_def split: if_splits)

text \<open>
  the band the pricer works in is the contract's band to the base unit: on the tick grid a price
  is offered if and only if reprice's own exact check accepts it.
\<close>

theorem priceBand_exact:
  assumes "0 \<le> minAskBps"
  shows "(\<exists>b. priceBand spot minAskBps maxAskBps = Some b \<and> bdMin b \<le> p \<and> p \<le> bdMax b \<and> PRICE_TICK dvd p)
     \<longleftrightarrow> 0 < spot \<and> minAskBps \<le> maxAskBps \<and> inBand p spot minAskBps maxAskBps"
  using assms priceBand_mem [of spot minAskBps maxAskBps p] band_shape(1,2) inBand_iff [of p spot minAskBps maxAskBps]
  by blast

theorem priceBand_exact_witness:
  "(\<exists>b. priceBand 180000000 100 900 = Some b \<and> bdMin b \<le> 1800000 \<and> 1800000 \<le> bdMax b \<and> PRICE_TICK dvd 1800000)
     \<longleftrightarrow> 0 < (180000000 :: int) \<and> (100 :: int) \<le> 900 \<and> inBand 1800000 180000000 100 900"
  by (rule priceBand_exact) simp

subsection \<open>Every price sent is accepted\<close>

lemma targetPrice_shape:
  assumes "targetPrice fair edge spot mn mx = Some t"
  shows "priceBand spot mn mx = Some (tgBand t)" "bdMin (tgBand t) \<le> tgPrice t" "tgPrice t \<le> bdMax (tgBand t)"
    "PRICE_TICK dvd tgPrice t"
  using assms band_shape(3-5) [of spot mn mx]
  by (auto simp: targetPrice_def Let_def split: option.splits if_splits)

lemma repriceFloor_first: "0 < live \<Longrightarrow> repriceFloor live = first_tick (live * (BPS - MAX_REPRICE_DROP_BPS))"
  by (simp add: repriceFloor_def first_tick_def)

lemma stepFloor_first:
  "0 < live \<Longrightarrow> stepFloor live = max (first_tick (live * (BPS - PRICER_MAX_STEP_DROP_BPS))) (repriceFloor live)"
  by (simp add: stepFloor_def first_tick_def max_def)

lemma drop_ok: "0 < live \<Longrightarrow> repriceFloor live \<le> p \<Longrightarrow> live * (BPS - MAX_REPRICE_DROP_BPS) \<le> p * BPS"
proof -
  assume a: "0 < live" "repriceFloor live \<le> p"
  then have "0 \<le> live * (BPS - MAX_REPRICE_DROP_BPS)" by (simp add: BPS_def MAX_REPRICE_DROP_BPS_def)
  then have "live * (BPS - MAX_REPRICE_DROP_BPS) \<le> repriceFloor live * BPS"
    using a(1) by (simp add: repriceFloor_first first_tick_reaches)
  also have "\<dots> \<le> p * BPS" using a(2) by (simp add: BPS_def)
  finally show ?thesis .
qed

lemma step_ok: "0 < live \<Longrightarrow> stepFloor live \<le> p \<Longrightarrow> live * (BPS - PRICER_MAX_STEP_DROP_BPS) \<le> p * BPS"
proof -
  assume a: "0 < live" "stepFloor live \<le> p"
  then have n: "0 \<le> live * (BPS - PRICER_MAX_STEP_DROP_BPS)" by (simp add: BPS_def PRICER_MAX_STEP_DROP_BPS_def)
  then have "live * (BPS - PRICER_MAX_STEP_DROP_BPS) \<le> first_tick (live * (BPS - PRICER_MAX_STEP_DROP_BPS)) * BPS"
    by (rule first_tick_reaches)
  also have "\<dots> \<le> p * BPS" using a by (simp add: stepFloor_first BPS_def)
  finally show ?thesis .
qed

lemma step_above_contract: "repriceFloor live \<le> stepFloor live"
  by (simp add: stepFloor_def repriceFloor_def Let_def)

lemma stepFloor_dvd [simp]: "PRICE_TICK dvd stepFloor live"
  by (simp add: stepFloor_def repriceFloor_def Let_def)

lemma planReprice_cases:
  assumes "planReprice fair spot live mn mx edge th = Reprice price t sf cs"
  shows "targetPrice fair edge spot mn mx = Some t \<and> differsEnough (tgPrice t) live th
    \<and> (price = tgPrice t \<and> stepFloor live \<le> price \<and> cs = None
      \<or> price = stepFloor live \<and> tgPrice t < price \<and> price \<le> bdMax (tgBand t) \<and> cs = None
      \<or> price = bdMax (tgBand t) \<and> price < stepFloor live \<and> repriceFloor live \<le> price \<and> cs \<noteq> None)"
  using assms by (auto simp: planReprice_def Let_def split: option.splits if_splits)

text \<open>
  whatever the fair value, a price the pricer sends passes all of reprice's checks: it is on the
  tick and in the contract's exact band, and at most 25 percent below the ask it replaces. Unless it
  is the flagged ceiling step, the drop also stays strictly under the monitor's page.
\<close>

theorem planReprice_accepted:
  assumes "planReprice fair spot live minAskBps maxAskBps edgeBps thresholdBps = Reprice price t sf cs"
    and "0 \<le> minAskBps" "0 < live"
  shows "inBand price spot minAskBps maxAskBps
    \<and> live * (BPS - MAX_REPRICE_DROP_BPS) \<le> price * BPS
    \<and> (cs = None \<longrightarrow> (live - price) * BPS < live * REPRICE_PAGE_DROP_BPS)"
proof -
  note c = planReprice_cases [OF assms(1)]
  have t: "targetPrice fair edgeBps spot minAskBps maxAskBps = Some t" using c by simp
  note ts = targetPrice_shape [OF t] and bs = band_shape [OF targetPrice_shape(1) [OF t]]
  have "PRICE_TICK dvd price" "bdMin (tgBand t) \<le> price" "price \<le> bdMax (tgBand t)"
    using c ts(2-4) bs(3,5) by auto
  then have "inBand price spot minAskBps maxAskBps"
    using priceBand_mem [OF bs(1) assms(2) bs(2)] ts(1) by blast
  moreover have "repriceFloor live \<le> price" using c step_above_contract [of live] by auto
  then have "live * (BPS - MAX_REPRICE_DROP_BPS) \<le> price * BPS" using assms(3) by (rule drop_ok [rotated])
  moreover have "cs = None \<Longrightarrow> stepFloor live \<le> price" using c by auto
  then have "cs = None \<Longrightarrow> (live - price) * BPS < live * REPRICE_PAGE_DROP_BPS"
    using step_ok [of live price] assms(3)
    by (simp add: BPS_def PRICER_MAX_STEP_DROP_BPS_def REPRICE_PAGE_DROP_BPS_def algebra_simps)
  ultimately show ?thesis by blast
qed

theorem planReprice_accepted_witness:
  "inBand 1620000 180000000 50 900 \<and> 2000000 * (BPS - MAX_REPRICE_DROP_BPS) \<le> 1620000 * BPS
    \<and> (2000000 - 1620000) * BPS < 2000000 * REPRICE_PAGE_DROP_BPS"
proof -
  have "\<exists>t. planReprice 1000000 180000000 2000000 50 900 0 1000 = Reprice 1620000 t (Some 1620000) None"
    by (simp add: planReprice_def targetPrice_def priceBand_def differsEnough_def stepFloor_def repriceFloor_def
        roundUpToTick_def roundDownToTick_def ceilDiv_def BPS_def PRICE_TICK_def MAX_REPRICE_DROP_BPS_def
        PRICER_MAX_STEP_DROP_BPS_def Let_def)
  then obtain t where "planReprice 1000000 180000000 2000000 50 900 0 1000 = Reprice 1620000 t (Some 1620000) None" ..
  from planReprice_accepted [OF this] show ?thesis by simp
qed

subsection \<open>Large falls are walked down\<close>

text \<open>The live price after one evaluation and, if one is planned, its reprice.\<close>

definition evaluate :: "int \<Rightarrow> int \<Rightarrow> int \<Rightarrow> int \<Rightarrow> int \<Rightarrow> int \<Rightarrow> int \<Rightarrow> int" where
  "evaluate fair spot mn mx edge th live =
     (case planReprice fair spot live mn mx edge th of Reprice price t sf cs \<Rightarrow> price | _ \<Rightarrow> live)"

lemma stepFloor_le_live: "0 < live \<Longrightarrow> PRICE_TICK dvd live \<Longrightarrow> stepFloor live \<le> live"
  by (simp add: stepFloor_first repriceFloor_first first_tick_least BPS_def PRICER_MAX_STEP_DROP_BPS_def
      MAX_REPRICE_DROP_BPS_def)

lemma stepFloor_lowers: "600 \<le> live \<Longrightarrow> PRICE_TICK dvd live \<Longrightarrow> stepFloor live < live"
proof -
  assume a: "600 \<le> live" "PRICE_TICK dvd live"
  then have d: "PRICE_TICK dvd live - PRICE_TICK" by simp
  have "first_tick (live * (BPS - PRICER_MAX_STEP_DROP_BPS)) \<le> live - PRICE_TICK"
    by (rule first_tick_least [OF _ d])
      (use a(1) in \<open>simp_all add: BPS_def PRICER_MAX_STEP_DROP_BPS_def PRICE_TICK_def\<close>)
  moreover have "first_tick (live * (BPS - MAX_REPRICE_DROP_BPS)) \<le> live - PRICE_TICK"
    by (rule first_tick_least [OF _ d])
      (use a(1) in \<open>simp_all add: BPS_def MAX_REPRICE_DROP_BPS_def PRICE_TICK_def\<close>)
  ultimately show ?thesis using a(1) PRICE_TICK_pos by (simp add: stepFloor_first repriceFloor_first)
qed

text \<open>
  On the few ticks below 600 base units the rounded-up step floor is the live price itself: the plan
  then sends a reprice that changes nothing, however far below the target lies.
\<close>

theorem stepFloor_stuck_low:
  "list_all (\<lambda>live. stepFloor live = live) [200, 300, 400, 500]
   \<and> (\<exists>t. planReprice 0 1000000 500 0 100 0 1000 = Reprice 500 t (Some 500) None \<and> tgPrice t = 100)"
  by (simp add: planReprice_def targetPrice_def priceBand_def differsEnough_def stepFloor_def repriceFloor_def
      roundUpToTick_def roundDownToTick_def ceilDiv_def BPS_def PRICE_TICK_def MAX_REPRICE_DROP_BPS_def
      PRICER_MAX_STEP_DROP_BPS_def Let_def)

lemma evaluate_above:
  assumes t: "targetPrice fair edge spot mn mx = Some t" and "differsEnough (tgPrice t) live th"
    and "PRICE_TICK dvd live" "0 < live" "live \<le> bdMax (tgBand t)"
  shows "evaluate fair spot mn mx edge th live = max (tgPrice t) (stepFloor live)
    \<and> (\<exists>sf. planReprice fair spot live mn mx edge th = Reprice (max (tgPrice t) (stepFloor live)) t sf None)"
  using assms stepFloor_le_live [of live] by (simp add: evaluate_def planReprice_def Let_def max_def)

text \<open>
  A step that goes through: planned as an ordinary reprice, to a price above zero, on the tick of a hundred and within
  the band around spot, at most a quarter below the ask it replaces, and by less than the fifth that pages.
\<close>

definition sound_step :: "int \<Rightarrow> int \<Rightarrow> int \<Rightarrow> int \<Rightarrow> int \<Rightarrow> int \<Rightarrow> int \<Rightarrow> int \<Rightarrow> bool" where
  "sound_step fair spot mn mx edge th live price =
     ((\<exists>t sf. planReprice fair spot live mn mx edge th = Reprice price t sf None)
      \<and> 0 < price \<and> 100 dvd price \<and> spot * mn \<le> price * 10000 \<and> price * 10000 \<le> spot * mx
      \<and> live * 7500 \<le> price * 10000 \<and> (live - price) * 10000 < live * 2000)"

lemma planReprice_sound:
  assumes "planReprice fair spot live mn mx edge th = Reprice price t sf None" "0 \<le> mn" "0 < live"
  shows "sound_step fair spot mn mx edge th live price"
proof -
  note c = planReprice_cases [OF assms(1)]
  then have target: "targetPrice fair edge spot mn mx = Some t" and floor: "stepFloor live \<le> price" by auto
  note ts = targetPrice_shape [OF target] and bs = band_shape [OF targetPrice_shape(1) [OF target]]
  have "PRICE_TICK dvd price" "bdMin (tgBand t) \<le> price" "price \<le> bdMax (tgBand t)"
    using c ts(2-4) bs(3,5) by auto
  then have "inBand price spot mn mx" using priceBand_mem [OF bs(1) assms(2) bs(2)] ts(1) by blast
  moreover have "live * (BPS - PRICER_MAX_STEP_DROP_BPS) \<le> price * BPS" by (rule step_ok [OF assms(3) floor])
  moreover have "live * (BPS - MAX_REPRICE_DROP_BPS) \<le> price * BPS"
    by (rule drop_ok [OF assms(3) order_trans [OF step_above_contract floor]])
  ultimately show ?thesis using assms(1,3) unfolding sound_step_def inBand_iff
    by (auto simp: BPS_def PRICER_MAX_STEP_DROP_BPS_def MAX_REPRICE_DROP_BPS_def PRICE_TICK_def algebra_simps)
qed

text \<open>
  C35: with a steady spot and fair value, evaluations reach the target, or a price close enough to it
  not to be worth a transaction, in finitely many reprices; the ask starts inside the band and the target is at
  least 500 base units. Every evaluation on the way plans an ordinary reprice, and each is a step the
  contract and the monitor accept: on the tick, in the band around spot, at most 25 percent down and by
  less than the 20 percent that page.
\<close>

theorem reprices_reach_target:
  assumes "targetPrice fair edge spot mn mx = Some t" and "PRICE_TICK dvd live" "0 < live" "live \<le> bdMax (tgBand t)"
    and "500 \<le> tgPrice t" and "0 \<le> mn"
  shows "\<exists>n. ((evaluate fair spot mn mx edge th ^^ n) live = tgPrice t
      \<or> \<not> differsEnough (tgPrice t) ((evaluate fair spot mn mx edge th ^^ n) live) th)
    \<and> (\<forall>m < n. sound_step fair spot mn mx edge th
        ((evaluate fair spot mn mx edge th ^^ m) live) ((evaluate fair spot mn mx edge th ^^ Suc m) live))"
  using assms(2-4)
proof (induction "nat (live - tgPrice t)" arbitrary: live rule: less_induct)
  case less
  let ?ev = "evaluate fair spot mn mx edge th"
  let ?sound = "sound_step fair spot mn mx edge th"
  show ?case
  proof (cases "differsEnough (tgPrice t) live th \<and> live \<noteq> tgPrice t")
    case False
    then show ?thesis by (intro exI [of _ 0]) auto
  next
    case True
    note above = evaluate_above [OF assms(1) conjunct1 [OF True] less.prems]
    from above have ev: "?ev live = max (tgPrice t) (stepFloor live)" by blast
    from above obtain sf where "planReprice fair spot live mn mx edge th = Reprice (?ev live) t sf None" by auto
    from planReprice_sound [OF this assms(6) less.prems(2)] have first: "?sound live (?ev live)" .
    show ?thesis
    proof (cases "stepFloor live \<le> tgPrice t")
      case True
      then show ?thesis using ev first by (intro exI [of _ 1]) simp
    next
      case False
      then have "tgPrice t < live" using stepFloor_le_live [OF less.prems(2,1)] by simp
      moreover have "PRICE_TICK dvd live - tgPrice t"
        using less.prems(1) targetPrice_shape(4) [OF assms(1)] by simp
      ultimately have "PRICE_TICK \<le> live - tgPrice t" by (auto dest: zdvd_imp_le)
      then have "600 \<le> live" using assms(5) by (simp add: PRICE_TICK_def)
      then have lower: "stepFloor live < live" using less.prems(1) by (rule stepFloor_lowers)
      have "nat (stepFloor live - tgPrice t) < nat (live - tgPrice t)" using lower False by simp
      moreover have "0 < stepFloor live" using False assms(5) by simp
      moreover have "stepFloor live \<le> bdMax (tgBand t)" using lower less.prems(3) by simp
      ultimately obtain n where n: "(?ev ^^ n) (stepFloor live) = tgPrice t
          \<or> \<not> differsEnough (tgPrice t) ((?ev ^^ n) (stepFloor live)) th"
        and steps: "\<forall>m < n. ?sound ((?ev ^^ m) (stepFloor live)) ((?ev ^^ Suc m) (stepFloor live))"
        using less.hyps [of "stepFloor live"] by auto
      have shift: "(?ev ^^ Suc m) live = (?ev ^^ m) (stepFloor live)" for m
        using ev False by (simp add: funpow_Suc_right del: funpow.simps)
      have "?sound ((?ev ^^ m) live) ((?ev ^^ Suc m) live)" if "m < Suc n" for m
      proof (cases m)
        case 0
        then show ?thesis using first by simp
      next
        case (Suc k)
        then show ?thesis using steps that unfolding Suc shift by simp
      qed
      then show ?thesis using n unfolding shift [symmetric] by (intro exI [of _ "Suc n"]) blast
    qed
  qed
qed

theorem reprices_reach_target_witness:
  "\<exists>n. let price = (evaluate 1000000 180000000 50 900 0 1000 ^^ n) 2000000
     in (price = 1000000 \<or> \<not> differsEnough 1000000 price 1000)
       \<and> sound_step 1000000 180000000 50 900 0 1000 2000000 (evaluate 1000000 180000000 50 900 0 1000 2000000)"
proof -
  obtain t where t: "targetPrice 1000000 0 180000000 50 900 = Some t" "tgPrice t = 1000000" "2000000 \<le> bdMax (tgBand t)"
    by (simp add: targetPrice_def priceBand_def roundUpToTick_def roundDownToTick_def ceilDiv_def BPS_def
        PRICE_TICK_def Let_def)
  have d: "differsEnough 1000000 2000000 1000" by code_simp
  have "PRICE_TICK dvd 2000000" "(500 :: int) \<le> tgPrice t" by (simp_all add: PRICE_TICK_def t(2))
  from reprices_reach_target [OF t(1) this(1) _ t(3) this(2), of 1000] obtain n where
    n: "(evaluate 1000000 180000000 50 900 0 1000 ^^ n) 2000000 = 1000000
        \<or> \<not> differsEnough 1000000 ((evaluate 1000000 180000000 50 900 0 1000 ^^ n) 2000000) 1000"
    and steps: "\<forall>m < n. sound_step 1000000 180000000 50 900 0 1000 ((evaluate 1000000 180000000 50 900 0 1000 ^^ m) 2000000)
        ((evaluate 1000000 180000000 50 900 0 1000 ^^ Suc m) 2000000)" unfolding t(2) by auto
  have "0 < n" using n d by (cases n) auto
  then have "sound_step 1000000 180000000 50 900 0 1000 2000000 (evaluate 1000000 180000000 50 900 0 1000 2000000)"
    using spec [OF steps, of 0] by simp
  with n show ?thesis unfolding Let_def by blast
qed

lemma planCheck_ok_iff:
  "planCheck view interval offHours = CheckOk why spot order \<longleftrightarrow>
     syActive (ckStrategy view) \<and> sySmartPricing (ckStrategy view) \<and> poLongId (ckPosition view) \<noteq> 0
     \<and> poOrderId (ckPosition view) \<noteq> 0 \<and> ckOrder view = Some order \<and> askLive order (ckNow view)
     \<and> ckNow view + CUTOFF_MARGIN_S < avValidUntil order
     \<and> evaluationDue (poLongId (ckPosition view)) (ckMemory view) (ckNow view) interval = Due why
     \<and> (offHours \<or> ckSessionOpen view = Some True) \<and> ckSpot view = Some spot \<and> 0 < spot
     \<and> (case ckSeries view of None \<Rightarrow> True | Some s \<Rightarrow> \<not> overtaken (ssIsPut s) (ssStrike s) spot)"
  by (auto simp: planCheck_def not_le split: option.splits due.splits if_splits)

end
