(* ===== verification/GuardianPlan.thy ===== *)
theory GuardianPlan
  imports ExpiryPlan RollPlan JsFloat
begin

section \<open>The guardian's veto (keeper/src/v2/guardian/planner.ts)\<close>

text \<open>
  When the guardian pages and when it vetoes an uncorroborated settlement candidate: a price many
  times away from every reference it can read, or a stale feed round the pool disagrees with.
\<close>

datatype round_age = RoundAge seconds | RoundNull | RoundUnread

record guardian_view =
  guUnderlying :: address
  guExpiry :: seconds
  guStatus :: settlement_status
  guCandidate :: "expiry_candidate option"
  guPoolPrice :: "int option"
  guLastFinalizedPrice :: "int option"
  guRoundAge :: round_age
  guMaxDeviationBps :: "int option"
  guNow :: seconds

record guardian_thresholds =
  gtScaleFactor :: int
  gtAutoVeto :: bool
  gtStaleRoundAfterS :: seconds

datatype guardian_reason =
  GrNotPending | GrNoCandidate | GrNoReference | GrInBand | GrScaleFault | GrStaleRound | GrRoundUnread

record guardian_ratios =
  grPool :: "double option"
  grLastFinalized :: "double option"

record guardian_plan =
  gpPage :: bool
  gpScaleFault :: bool
  gpStaleRound :: bool
  gpPoolDisagrees :: bool
  gpVeto :: bool
  gpLate :: bool
  gpRatios :: guardian_ratios
  gpReason :: guardian_reason

definition scaleApart :: "int \<Rightarrow> int \<Rightarrow> int \<Rightarrow> bool" where
  "scaleApart a b factor = (if a \<le> 0 \<or> b \<le> 0 then False else a \<ge> b * factor \<or> b \<ge> a * factor)"

definition agree :: "int \<Rightarrow> int \<Rightarrow> int \<Rightarrow> bool" where
  "agree a b maxDeviationBps =
     (let lo = (if a < b then a else b); hi = (if a < b then b else a)
      in (hi - lo) * 10000 \<le> lo * maxDeviationBps)"

definition ratio :: "int \<Rightarrow> int option \<Rightarrow> double option" where
  "ratio a b = (case b of None \<Rightarrow> None
     | Some v \<Rightarrow> if v \<le> 0 then None else Some (fdiv (number_of a) (number_of v)))"

definition no_guardian_plan :: "guardian_reason \<Rightarrow> guardian_plan" where
  "no_guardian_plan reason = \<lparr>gpPage = False, gpScaleFault = False, gpStaleRound = False, gpPoolDisagrees = False,
     gpVeto = False, gpLate = False, gpRatios = \<lparr>grPool = None, grLastFinalized = None\<rparr>, gpReason = reason\<rparr>"

definition stale_round :: "guardian_view \<Rightarrow> guardian_thresholds \<Rightarrow> bool" where
  "stale_round view thresholds =
     (case guRoundAge view of RoundAge a \<Rightarrow> a > gtStaleRoundAfterS thresholds | _ \<Rightarrow> False)"

definition pool_disagrees :: "guardian_view \<Rightarrow> int \<Rightarrow> bool" where
  "pool_disagrees view price =
     (case guPoolPrice view of
        None \<Rightarrow> False
      | Some p \<Rightarrow> p > 0 \<and> (case guMaxDeviationBps view of None \<Rightarrow> False | Some m \<Rightarrow> \<not> agree price p m))"

definition guardian_refs :: "guardian_view \<Rightarrow> int list" where
  "guardian_refs view = filter (\<lambda>r. r > 0) (present [guPoolPrice view, guLastFinalizedPrice view])"

definition scale_fault :: "guardian_view \<Rightarrow> int \<Rightarrow> int \<Rightarrow> bool" where
  "scale_fault view price factor =
     (guardian_refs view \<noteq> [] \<and> list_all (\<lambda>r. scaleApart price r factor) (guardian_refs view))"

definition planGuardian :: "guardian_view \<Rightarrow> guardian_thresholds \<Rightarrow> guardian_plan" where
  "planGuardian view thresholds =
     (if guStatus view \<noteq> Pending then no_guardian_plan GrNotPending
      else case guCandidate view of
        None \<Rightarrow> no_guardian_plan GrNoCandidate
      | Some c \<Rightarrow>
          if caPrice c \<le> 0 then no_guardian_plan GrNoCandidate
          else
            let late = (guNow view \<ge> caFinalizableAt c);
                ratios = \<lparr>grPool = ratio (caPrice c) (guPoolPrice view),
                          grLastFinalized = ratio (caPrice c) (guLastFinalizedPrice view)\<rparr>;
                staleRound = stale_round view thresholds;
                poolDisagrees = pool_disagrees view (caPrice c);
                base = \<lparr>gpPage = True, gpScaleFault = False, gpStaleRound = staleRound, gpPoolDisagrees = poolDisagrees,
                        gpVeto = False, gpLate = late, gpRatios = ratios, gpReason = GrInBand\<rparr>
            in if scale_fault view (caPrice c) (gtScaleFactor thresholds)
               then base\<lparr>gpScaleFault := True, gpVeto := gtAutoVeto thresholds, gpReason := GrScaleFault\<rparr>
               else if staleRound then base\<lparr>gpVeto := (gtAutoVeto thresholds \<and> poolDisagrees), gpReason := GrStaleRound\<rparr>
               else if guRoundAge view = RoundUnread then base\<lparr>gpReason := GrRoundUnread\<rparr>
               else base\<lparr>gpReason := (if guardian_refs view = [] then GrNoReference else GrInBand)\<rparr>)"

text \<open>The two grounds for a veto, stated over the view.\<close>

definition reference :: "guardian_view \<Rightarrow> int \<Rightarrow> bool" where
  "reference view r = (0 < r \<and> (guPoolPrice view = Some r \<or> guLastFinalizedPrice view = Some r))"

definition far_from_all :: "guardian_view \<Rightarrow> int \<Rightarrow> int \<Rightarrow> bool" where
  "far_from_all view price factor =
     ((\<exists>r. reference view r) \<and> (\<forall>r. reference view r \<longrightarrow> r * factor \<le> price \<or> price * factor \<le> r))"

definition stale_and_disputed :: "guardian_view \<Rightarrow> int \<Rightarrow> seconds \<Rightarrow> bool" where
  "stale_and_disputed view price limit =
     (\<exists>age pool band. guRoundAge view = RoundAge age \<and> limit < age \<and> guPoolPrice view = Some pool \<and> 0 < pool
        \<and> guMaxDeviationBps view = Some band \<and> \<not> agree price pool band)"

lemma refs_reference: "r \<in> set (guardian_refs view) \<longleftrightarrow> reference view r"
  by (auto simp: guardian_refs_def reference_def)

lemma scale_fault_far: "0 < price \<Longrightarrow> scale_fault view price factor = far_from_all view price factor"
proof -
  assume "0 < price"
  then have "reference view r \<Longrightarrow> scaleApart price r factor = (r * factor \<le> price \<or> price * factor \<le> r)" for r
    by (auto simp: scaleApart_def reference_def)
  moreover have "guardian_refs view \<noteq> [] \<longleftrightarrow> (\<exists>r. reference view r)"
    unfolding refs_reference [symmetric] by (cases "guardian_refs view") auto
  ultimately show ?thesis by (auto simp: scale_fault_def far_from_all_def list_all_iff refs_reference)
qed

lemma stale_disputed: "stale_round view th \<and> pool_disagrees view price \<longleftrightarrow>
    stale_and_disputed view price (gtStaleRoundAfterS th)"
  by (auto simp: stale_and_disputed_def stale_round_def pool_disagrees_def split: round_age.splits option.splits)

lemma agree_sym: "agree a b m = agree b a m"
  by (auto simp: agree_def Let_def)

text \<open>
  the veto is never a reflex. It is sent exactly when automatic vetoes are on, the expiry is
  pending with a positive candidate, and either the candidate is a scale factor away from every
  reference that could be read (at least one), or its feed round was stale and the pool disputes it.
\<close>

theorem planGuardian_veto_iff:
  "gpVeto (planGuardian view th) \<longleftrightarrow> gtAutoVeto th \<and> guStatus view = Pending
     \<and> (\<exists>c. guCandidate view = Some c \<and> 0 < caPrice c
          \<and> (far_from_all view (caPrice c) (gtScaleFactor th)
             \<or> stale_and_disputed view (caPrice c) (gtStaleRoundAfterS th)))"
proof (cases "guStatus view = Pending \<and> (\<exists>c. guCandidate view = Some c \<and> 0 < caPrice c)")
  case False
  then show ?thesis by (auto simp: planGuardian_def no_guardian_plan_def not_le split: option.splits)
next
  case True
  then obtain c where c: "guStatus view = Pending" "guCandidate view = Some c" "0 < caPrice c" by blast
  show ?thesis
    using c scale_fault_far [OF c(3), of view "gtScaleFactor th"] stale_disputed [of view th "caPrice c"]
    by (auto simp: planGuardian_def Let_def)
qed

end
