(* ===== verification/EarnPlan.thy ===== *)
theory EarnPlan
  imports JsPrelude
begin

section \<open>Keeping an earn vault's venue and queue (keeper/src/v2/earn, v2/loop.ts)\<close>

text \<open>
  What one tick moves between an earn vault's wallet and its venue, the loop that pays its withdrawal
  queue, the watch on a queue that stands still, and the poll loop every mode runs in.
  \<open>drainQueue\<close> reads and sends through an interface: here the chain is a state of any type with a view,
  and a send that returns whether it landed and the chain afterwards.
\<close>

subsection \<open>The plan of one tick\<close>

record earn_state =
  esAdapter :: "address option"
  esHasOpenPosition :: bool
  esVenueUnreadable :: bool
  esQueueHead :: int
  esQueueTail :: int
  esWallet :: usdg6
  esEscrowed :: usdg6
  esDeferred :: "usdg6 option"
  esTotalAssets :: usdg6
  esVenueWithdrawable :: usdg6
  esNow :: seconds
  esLastSkimAt :: "seconds option"

record earn_knobs =
  ekBufferUsdg6 :: usdg6
  ekBufferBps :: bps
  ekMaxMoveUsdg6 :: usdg6
  ekDustUsdg6 :: usdg6
  ekQueueBatch :: int
  ekSkimIntervalS :: seconds

datatype pull_reason = PullQueue | PullBuffer
datatype earn_action = Sweep usdg6 | Pull usdg6 pull_reason | ProcessQueue int | Skim
datatype earn_skip = SkipNoAdapter | SkipOpenPosition | SkipVenueUnreadable | SkipDeferredUnreadable

record earn_plan =
  eaActions :: "earn_action list"
  eaSkipped :: "earn_skip option"
  eaQueueOpen :: bool
  eaUnescrowed :: "usdg6 option"
  eaBuffer :: usdg6

definition queueOpen :: "int \<Rightarrow> int \<Rightarrow> bool" where "queueOpen head tail = (head \<le> tail)"

definition walletBuffer :: "usdg6 \<Rightarrow> earn_knobs \<Rightarrow> usdg6" where
  "walletBuffer totalAssets k =
     (let pct = (totalAssets * ekBufferBps k) sdiv 10000 in if pct > ekBufferUsdg6 k then pct else ekBufferUsdg6 k)"

definition unescrowedOf :: "earn_state \<Rightarrow> usdg6 option" where
  "unescrowedOf s =
     (case esDeferred s of None \<Rightarrow> None
      | Some d \<Rightarrow> let reserved = esEscrowed s + d
                 in Some (if esWallet s > reserved then esWallet s - reserved else 0))"

definition planEarn :: "earn_state \<Rightarrow> earn_knobs \<Rightarrow> earn_plan" where
  "planEarn s k =
     (let isOpen = queueOpen (esQueueHead s) (esQueueTail s);
          unescrowed = unescrowedOf s;
          buffer = walletBuffer (esTotalAssets s) k;
          plan = \<lparr>eaActions = [], eaSkipped = None, eaQueueOpen = isOpen, eaUnescrowed = unescrowed, eaBuffer = buffer\<rparr>
      in if esAdapter s = None then plan\<lparr>eaSkipped := Some SkipNoAdapter\<rparr>
         else if esHasOpenPosition s then plan\<lparr>eaSkipped := Some SkipOpenPosition\<rparr>
         else if esVenueUnreadable s then plan\<lparr>eaSkipped := Some SkipVenueUnreadable\<rparr>
         else if isOpen then
           let pull = min (esVenueWithdrawable s) (ekMaxMoveUsdg6 k)
           in plan\<lparr>eaActions := (if pull \<ge> ekDustUsdg6 k \<and> pull > 0 then [Pull pull PullQueue] else [])
                                @ [ProcessQueue (ekQueueBatch k)]\<rparr>
         else case unescrowed of
           None \<Rightarrow> plan\<lparr>eaSkipped := Some SkipDeferredUnreadable\<rparr>
         | Some u \<Rightarrow>
             let move = (if u > buffer then
                           let sweep = min (u - buffer) (ekMaxMoveUsdg6 k)
                           in if sweep \<ge> ekDustUsdg6 k \<and> sweep > 0 then [Sweep sweep] else []
                         else if u < buffer then
                           let pull = min (min (buffer - u) (esVenueWithdrawable s)) (ekMaxMoveUsdg6 k)
                           in if pull \<ge> ekDustUsdg6 k \<and> pull > 0 then [Pull pull PullBuffer] else []
                         else []);
                 skim = (case esLastSkimAt s of None \<Rightarrow> [Skim]
                         | Some t \<Rightarrow> if esNow s - t \<ge> ekSkimIntervalS k then [Skim] else [])
             in plan\<lparr>eaActions := move @ skim\<rparr>)"

definition is_move :: "earn_action \<Rightarrow> bool" where
  "is_move a = (case a of Sweep _ \<Rightarrow> True | Pull _ _ \<Rightarrow> True | _ \<Rightarrow> False)"

definition venueMoves :: "earn_plan \<Rightarrow> earn_action list" where
  "venueMoves plan = filter is_move (eaActions plan)"

record earn_venue_knobs =
  vkBufferUsdg6 :: usdg6
  vkBufferBps :: bps
  vkMaxMoveUsdg6 :: usdg6
  vkDustUsdg6 :: usdg6

definition planVenue :: "earn_state \<Rightarrow> earn_venue_knobs \<Rightarrow> earn_plan \<times> earn_action list" where
  "planVenue s k =
     (let plan = planEarn s \<lparr>ekBufferUsdg6 = vkBufferUsdg6 k, ekBufferBps = vkBufferBps k,
                             ekMaxMoveUsdg6 = vkMaxMoveUsdg6 k, ekDustUsdg6 = vkDustUsdg6 k,
                             ekQueueBatch = 0, ekSkimIntervalS = 0\<rparr>
      in (plan, venueMoves plan))"

text \<open>
  a sweep never touches money that is spoken for. It happens only with the queue empty, no open
  position and everything readable, leaves escrow, deferred payments and the buffer in the wallet, and
  never exceeds the per-tick cap.
\<close>

theorem planEarn_sweep_safe:
  assumes "Sweep amount \<in> set (eaActions (planEarn s k))"
  shows "\<exists>d. esDeferred s = Some d \<and> esQueueTail s < esQueueHead s \<and> \<not> esHasOpenPosition s \<and> \<not> esVenueUnreadable s
     \<and> 0 < amount \<and> amount \<le> ekMaxMoveUsdg6 k
     \<and> (0 \<le> walletBuffer (esTotalAssets s) k \<longrightarrow> esEscrowed s + d + walletBuffer (esTotalAssets s) k \<le> esWallet s - amount)"
  using assms
  by (auto simp: planEarn_def unescrowedOf_def queueOpen_def Let_def split: option.splits if_splits)

theorem planEarn_sweep_safe_witness:
  "let s = \<lparr>esAdapter = Some ''a'', esHasOpenPosition = False, esVenueUnreadable = False, esQueueHead = 1, esQueueTail = 0,
            esWallet = 1000, esEscrowed = 100, esDeferred = Some 50, esTotalAssets = 1000, esVenueWithdrawable = 0,
            esNow = 10, esLastSkimAt = Some 5\<rparr>;
       k = \<lparr>ekBufferUsdg6 = 200, ekBufferBps = 0, ekMaxMoveUsdg6 = 5000, ekDustUsdg6 = 10, ekQueueBatch = 1, ekSkimIntervalS = 60\<rparr>
   in \<exists>d. esDeferred s = Some d \<and> esQueueTail s < esQueueHead s \<and> \<not> esHasOpenPosition s \<and> \<not> esVenueUnreadable s
     \<and> 0 < (650 :: int) \<and> 650 \<le> ekMaxMoveUsdg6 k
     \<and> esEscrowed s + d + walletBuffer (esTotalAssets s) k \<le> esWallet s - 650"
proof -
  let ?s = "\<lparr>esAdapter = Some ''a'', esHasOpenPosition = False, esVenueUnreadable = False, esQueueHead = 1, esQueueTail = 0,
            esWallet = 1000, esEscrowed = 100, esDeferred = Some 50, esTotalAssets = 1000, esVenueWithdrawable = 0,
            esNow = 10, esLastSkimAt = Some 5\<rparr>"
  let ?k = "\<lparr>ekBufferUsdg6 = 200, ekBufferBps = 0, ekMaxMoveUsdg6 = 5000, ekDustUsdg6 = 10, ekQueueBatch = 1, ekSkimIntervalS = 60\<rparr>"
  have "Sweep 650 \<in> set (eaActions (planEarn ?s ?k))"
    by (simp add: planEarn_def unescrowedOf_def queueOpen_def walletBuffer_def Let_def)
  from planEarn_sweep_safe [OF this] show ?thesis by (simp add: walletBuffer_def)
qed

text \<open>
  a tick makes at most one move, within the cap and above dust, and an open queue is always served
  when the vault can serve it, with everything the venue can give first.
\<close>

theorem planEarn_serves_queue:
  "length (venueMoves (planEarn s k)) \<le> 1
   \<and> (esAdapter s \<noteq> None \<and> \<not> esHasOpenPosition s \<and> \<not> esVenueUnreadable s \<and> esQueueHead s \<le> esQueueTail s \<longrightarrow>
        last (eaActions (planEarn s k)) = ProcessQueue (ekQueueBatch k)
        \<and> (0 < ekDustUsdg6 k \<and> ekDustUsdg6 k \<le> min (esVenueWithdrawable s) (ekMaxMoveUsdg6 k) \<longrightarrow>
             venueMoves (planEarn s k) = [Pull (min (esVenueWithdrawable s) (ekMaxMoveUsdg6 k)) PullQueue]))"
  by (auto simp: planEarn_def queueOpen_def venueMoves_def is_move_def Let_def split: option.splits)

theorem planEarn_serves_queue_witness:
  "let s = \<lparr>esAdapter = Some ''a'', esHasOpenPosition = False, esVenueUnreadable = False, esQueueHead = 1, esQueueTail = 3,
            esWallet = 0, esEscrowed = 0, esDeferred = None, esTotalAssets = 1000, esVenueWithdrawable = 700,
            esNow = 10, esLastSkimAt = Some 5\<rparr>;
       k = \<lparr>ekBufferUsdg6 = 200, ekBufferBps = 0, ekMaxMoveUsdg6 = 500, ekDustUsdg6 = 10, ekQueueBatch = 4, ekSkimIntervalS = 60\<rparr>
   in last (eaActions (planEarn s k)) = ProcessQueue 4 \<and> venueMoves (planEarn s k) = [Pull 500 PullQueue]"
  unfolding Let_def
  using planEarn_serves_queue [of "\<lparr>esAdapter = Some ''a'', esHasOpenPosition = False, esVenueUnreadable = False, esQueueHead = 1,
      esQueueTail = 3, esWallet = 0, esEscrowed = 0, esDeferred = None, esTotalAssets = 1000, esVenueWithdrawable = 700,
      esNow = 10, esLastSkimAt = Some 5\<rparr>"
    "\<lparr>ekBufferUsdg6 = 200, ekBufferBps = 0, ekMaxMoveUsdg6 = 500, ekDustUsdg6 = 10, ekQueueBatch = 4, ekSkimIntervalS = 60\<rparr>"]
  by simp

subsection \<open>Draining the withdrawal queue\<close>

record queue_view =
  qvHead :: int
  qvTail :: int
  qvHasOpenPosition :: bool
  qvVenueUnreadable :: bool

datatype drain_stop = StopEmpty | StopOpenPosition | StopVenueUnreadable | StopNoProgress | StopMaxCalls | StopNotConfirmed

record drain_result =
  drCalls :: int
  drServed :: int
  drStop :: drain_stop
  drLast :: queue_view

definition queueIsOpen :: "queue_view \<Rightarrow> bool" where "queueIsOpen q = (qvHead q \<le> qvTail q)"

text \<open>
  \<open>read\<close> answers a view and the chain it was read on, \<open>send maxEntries headBefore\<close> whether the call
  landed and the chain afterwards; \<open>None\<close> is a rejected promise, which \<open>drainQueue\<close> passes on.
\<close>

function drain_loop :: "('s \<Rightarrow> (queue_view \<times> 's) option) \<Rightarrow> (int \<Rightarrow> int \<Rightarrow> 's \<Rightarrow> (bool \<times> 's) option) \<Rightarrow> int \<Rightarrow> int \<Rightarrow> int
    \<Rightarrow> int \<Rightarrow> queue_view \<Rightarrow> 's \<Rightarrow> (drain_result \<times> 's) option" where
  "drain_loop read send maxEntries maxCalls start calls view st =
     (let finish = (\<lambda>calls stop v st. Some (\<lparr>drCalls = calls, drServed = qvHead v - start, drStop = stop, drLast = v\<rparr>, st))
      in if \<not> queueIsOpen view then finish calls StopEmpty view st
         else if qvHasOpenPosition view then finish calls StopOpenPosition view st
         else if qvVenueUnreadable view then finish calls StopVenueUnreadable view st
         else if calls \<ge> maxCalls then finish calls StopMaxCalls view st
         else case send maxEntries (qvHead view) st of
           None \<Rightarrow> None
         | Some (landed, st1) \<Rightarrow>
             if \<not> landed then finish (calls + 1) StopNotConfirmed view st1
             else case read st1 of
               None \<Rightarrow> None
             | Some (view', st2) \<Rightarrow>
                 if qvHead view' = qvHead view then finish (calls + 1) StopNoProgress view' st2
                 else drain_loop read send maxEntries maxCalls start (calls + 1) view' st2)"
  by pat_completeness auto
termination
  by (relation "measure (\<lambda>(read, send, maxEntries, maxCalls, start, calls, view, st). nat (maxCalls - calls))") auto

declare drain_loop.simps [simp del]

definition drainQueue :: "('s \<Rightarrow> (queue_view \<times> 's) option) \<Rightarrow> (int \<Rightarrow> int \<Rightarrow> 's \<Rightarrow> (bool \<times> 's) option) \<Rightarrow> int \<Rightarrow> int
    \<Rightarrow> 's \<Rightarrow> (drain_result \<times> 's) option" where
  "drainQueue read send maxEntries maxCalls st =
     (case read st of
        None \<Rightarrow> None
      | Some (view, st') \<Rightarrow> drain_loop read send maxEntries maxCalls (qvHead view) 0 view st')"

definition honest_stop :: "int \<Rightarrow> drain_result \<Rightarrow> bool" where
  "honest_stop maxCalls r =
     (case drStop r of
        StopEmpty \<Rightarrow> \<not> queueIsOpen (drLast r)
      | StopOpenPosition \<Rightarrow> queueIsOpen (drLast r) \<and> qvHasOpenPosition (drLast r)
      | StopVenueUnreadable \<Rightarrow> queueIsOpen (drLast r) \<and> qvVenueUnreadable (drLast r)
      | StopMaxCalls \<Rightarrow> queueIsOpen (drLast r) \<and> drCalls r \<ge> maxCalls
      | _ \<Rightarrow> drCalls r > 0)"

text \<open>One pass: the loop has stopped for a reason that holds, or it has sent once and goes on.\<close>

lemma drain_loop_step:
  assumes "drain_loop read send maxEntries maxCalls start calls view st = Some (r, st')" "0 \<le> calls"
  shows "(calls \<le> drCalls r \<and> drCalls r \<le> max calls maxCalls \<and> honest_stop maxCalls r \<and> drServed r = qvHead (drLast r) - start)
    \<or> (calls < maxCalls \<and> (\<exists>view' st2. drain_loop read send maxEntries maxCalls start (calls + 1) view' st2 = Some (r, st')))"
  using assms by (subst (asm) drain_loop.simps)
    (auto simp: Let_def honest_stop_def split: if_splits option.splits prod.splits)

lemma drain_loop_bounded:
  "drain_loop read send maxEntries maxCalls start calls view st = Some (r, st') \<Longrightarrow> 0 \<le> calls \<Longrightarrow>
     calls \<le> drCalls r \<and> drCalls r \<le> max calls maxCalls \<and> honest_stop maxCalls r \<and> drServed r = qvHead (drLast r) - start"
proof (induction "nat (maxCalls - calls)" arbitrary: calls view st rule: less_induct)
  case less
  from drain_loop_step [OF less.prems] show ?case
  proof
    assume "calls < maxCalls \<and> (\<exists>view' st2. drain_loop read send maxEntries maxCalls start (calls + 1) view' st2 = Some (r, st'))"
    then obtain view' st2 where lt: "calls < maxCalls"
      and rest: "drain_loop read send maxEntries maxCalls start (calls + 1) view' st2 = Some (r, st')" by blast
    have "nat (maxCalls - (calls + 1)) < nat (maxCalls - calls)" using lt by simp
    from less.hyps [OF this rest] less.prems(2) lt show ?thesis by simp
  qed
qed

text \<open>
  draining always ends, after at most \<open>maxCalls\<close> transactions, and the reason it reports is true of
  the last view it read.
\<close>

theorem drainQueue_honest:
  assumes "drainQueue read send maxEntries maxCalls st = Some (r, st')"
  shows "0 \<le> drCalls r \<and> drCalls r \<le> max 0 maxCalls \<and> honest_stop maxCalls r"
  using assms drain_loop_bounded [of read send maxEntries maxCalls _ 0 _ _ r st']
  by (auto simp: drainQueue_def split: option.splits prod.splits)

theorem drainQueue_honest_witness:
  "honest_stop 5 \<lparr>drCalls = 0, drServed = 0, drStop = StopEmpty,
     drLast = \<lparr>qvHead = 4, qvTail = 3, qvHasOpenPosition = False, qvVenueUnreadable = False\<rparr>\<rparr>"
  using drainQueue_honest [of "\<lambda>s. Some (\<lparr>qvHead = 4, qvTail = 3, qvHasOpenPosition = False, qvVenueUnreadable = False\<rparr>, s)"
      "\<lambda>_ _ s. Some (True, s)" 10 5 "()" "\<lparr>drCalls = 0, drServed = 0, drStop = StopEmpty,
     drLast = \<lparr>qvHead = 4, qvTail = 3, qvHasOpenPosition = False, qvVenueUnreadable = False\<rparr>\<rparr>" "()"]
  by (simp add: drainQueue_def drain_loop.simps queueIsOpen_def)

text \<open>
  on a vault without a position whose venue reads, where every call lands and serves at least one
  entry of an open queue, the queue is empty after the loop, given enough calls.
\<close>

theorem drainQueue_empties:
  fixes view :: "'s \<Rightarrow> queue_view"
  assumes "\<And>s. read s = Some (view s, s)"
    and "\<And>s. queueIsOpen (view s) \<Longrightarrow> \<exists>s'. send maxEntries (qvHead (view s)) s = Some (True, s')
        \<and> qvHead (view s) < qvHead (view s') \<and> qvTail (view s') = qvTail (view s)"
    and "\<And>s. \<not> qvHasOpenPosition (view s) \<and> \<not> qvVenueUnreadable (view s)"
    and "qvTail (view st) - qvHead (view st) < maxCalls"
  shows "\<exists>r st'. drainQueue read send maxEntries maxCalls st = Some (r, st') \<and> drStop r = StopEmpty \<and> \<not> queueIsOpen (view st')"
proof -
  have "\<exists>r st'. drain_loop read send maxEntries maxCalls start calls (view st) st = Some (r, st')
      \<and> drStop r = StopEmpty \<and> \<not> queueIsOpen (view st')"
    if "qvTail (view st) - qvHead (view st) < maxCalls - calls" "0 \<le> calls" "calls \<le> maxCalls" for start calls st
    using that
  proof (induction "nat (maxCalls - calls)" arbitrary: calls st rule: less_induct)
    case less
    show ?case
    proof (cases "queueIsOpen (view st)")
      case False
      then show ?thesis by (simp add: drain_loop.simps Let_def)
    next
      case True
      then obtain s' where s': "send maxEntries (qvHead (view st)) st = Some (True, s')"
        "qvHead (view st) < qvHead (view s')" "qvTail (view s') = qvTail (view st)" using assms(2) by blast
      have lt: "calls < maxCalls" using True less.prems(1) by (simp add: queueIsOpen_def)
      have "drain_loop read send maxEntries maxCalls start calls (view st) st
          = drain_loop read send maxEntries maxCalls start (calls + 1) (view s') s'"
        using True lt s' assms(1,3) by (subst drain_loop.simps) (simp add: Let_def)
      moreover have "nat (maxCalls - (calls + 1)) < nat (maxCalls - calls)" using lt by simp
      ultimately show ?thesis using less.hyps [of "calls + 1" s'] less.prems s'(2,3) lt by simp
    qed
  qed
  from this [of st 0] assms(1,4) show ?thesis
    by (cases "0 \<le> maxCalls") (auto simp: drainQueue_def drain_loop.simps Let_def queueIsOpen_def)
qed

theorem drainQueue_empties_witness:
  "\<exists>r st'. drainQueue (\<lambda>h. Some (\<lparr>qvHead = h, qvTail = 3, qvHasOpenPosition = False, qvVenueUnreadable = False\<rparr>, h))
      (\<lambda>_ _ h. Some (True, h + 1)) 10 5 (1 :: int) = Some (r, st') \<and> drStop r = StopEmpty
      \<and> \<not> queueIsOpen \<lparr>qvHead = st', qvTail = 3, qvHasOpenPosition = False, qvVenueUnreadable = False\<rparr>"
  by (rule drainQueue_empties) simp_all

subsection \<open>The venue step of the market maker\<close>

record queue_watch =
  qwHead :: int
  qwSince :: seconds

definition watchQueue :: "queue_watch option \<Rightarrow> earn_state \<Rightarrow> queue_watch option" where
  "watchQueue prev s =
     (if \<not> queueOpen (esQueueHead s) (esQueueTail s) then None
      else case prev of
        Some w \<Rightarrow> if qwHead w = esQueueHead s then prev else Some \<lparr>qwHead = esQueueHead s, qwSince = esNow s\<rparr>
      | None \<Rightarrow> Some \<lparr>qwHead = esQueueHead s, qwSince = esNow s\<rparr>)"

definition stuckReason :: "earn_state \<Rightarrow> earn_plan \<Rightarrow> string" where
  "stuckReason s plan =
     (if eaSkipped plan = Some SkipNoAdapter then
        ''no venue adapter is set, so the vault can pay only from its wallet''
      else if eaSkipped plan = Some SkipOpenPosition then
        ''the vault holds a position: processQueue serves nothing until its series settle or the mm bot closes them''
      else if eaSkipped plan = Some SkipVenueUnreadable then
        ''the venue adapter cannot be read, so the vault prices nothing: processQueue serves nothing until the venue ''
        @ ''reads again or TREASURY_ADMIN writes it off with setAdapter (VenueWrittenOff)''
      else if esVenueWithdrawable s = 0 then
        ''the venue has nothing withdrawable and the wallet cannot cover the head entry''
      else ''the venue still has USDG to pull: check that the mm bot pulls and the cranker house step sends processQueue'')"

record earn_keep_result =
  krState :: earn_state
  krPlan :: earn_plan
  krSent :: "(earn_action \<times> bool) list"
  krWatch :: "queue_watch option"
  krStuckForS :: seconds

fun send_moves :: "(earn_action \<Rightarrow> 's \<Rightarrow> (bool \<times> 's) option) \<Rightarrow> earn_action list \<Rightarrow> 's \<Rightarrow> ((earn_action \<times> bool) list \<times> 's) option" where
  "send_moves send [] st = Some ([], st)"
| "send_moves send (m # ms) st =
     (case send m st of
        None \<Rightarrow> None
      | Some (confirmed, st') \<Rightarrow>
          (case send_moves send ms st' of None \<Rightarrow> None | Some (sent, st'') \<Rightarrow> Some ((m, confirmed) # sent, st'')))"

definition keepEarn :: "('s \<Rightarrow> (earn_state \<times> 's) option) \<Rightarrow> (earn_action \<Rightarrow> 's \<Rightarrow> (bool \<times> 's) option) \<Rightarrow> earn_venue_knobs
    \<Rightarrow> queue_watch option \<Rightarrow> 's \<Rightarrow> (earn_keep_result \<times> 's) option" where
  "keepEarn read send k prev st =
     (case read st of
        None \<Rightarrow> None
      | Some (state, st1) \<Rightarrow>
          let (plan, moves) = planVenue state k
          in case send_moves send moves st1 of
               None \<Rightarrow> None
             | Some (sent, st2) \<Rightarrow>
                 let watch = watchQueue prev state
                 in Some (\<lparr>krState = state, krPlan = plan, krSent = sent, krWatch = watch,
                           krStuckForS = (case watch of None \<Rightarrow> 0 | Some w \<Rightarrow> esNow state - qwSince w)\<rparr>, st2))"

lemma send_moves_map: "send_moves send ms st = Some (sent, st') \<Longrightarrow> map fst sent = ms"
  by (induction ms arbitrary: st sent) (auto split: option.splits prod.splits)

text \<open>The watch dates the head it watches from the first look that saw it, over any run of looks.\<close>

lemma watch_since_first:
  assumes "list_all (\<lambda>s. queueOpen (esQueueHead s) (esQueueTail s) \<and> esQueueHead s = h) (s # ss)"
  shows "foldl watchQueue None (s # ss) = Some \<lparr>qwHead = h, qwSince = esNow s\<rparr>"
proof -
  have "foldl watchQueue (Some \<lparr>qwHead = h, qwSince = t\<rparr>) ss = Some \<lparr>qwHead = h, qwSince = t\<rparr>" for t
    using assms by (induction ss) (auto simp: watchQueue_def)
  moreover have "watchQueue None s = Some \<lparr>qwHead = h, qwSince = esNow s\<rparr>" using assms by (auto simp: watchQueue_def)
  ultimately show ?thesis by simp
qed

end
