(* ===== verification/PollLoop.thy ===== *)
theory PollLoop
  imports JsPrelude
begin

section \<open>The poll loop (keeper/src/v2/loop.ts)\<close>

text \<open>
  \<open>startLoop\<close> as a state machine: its four variables, the function \<open>run\<close>, and one transition per thing
  the event loop can do to it (a wake, a timer firing, the in-flight tick finishing, \<open>stop\<close>). The ghost
  field \<open>lpRunning\<close> counts the ticks started and not finished; the code has no such counter, and that
  it never exceeds one is what the invariant shows.
\<close>

datatype timer = TimerZero | TimerInterval

record loop_state =
  loStopping :: bool
  loTimer :: "timer option"
  loInFlight :: bool
  loWakePending :: bool
  loRunning :: nat
  loStarted :: nat

definition loop_init :: loop_state where
  "loop_init = \<lparr>loStopping = False, loTimer = None, loInFlight = False, loWakePending = False, loRunning = 0, loStarted = 0\<rparr>"

definition run :: "loop_state \<Rightarrow> loop_state" where
  "run s =
     (if loStopping s then s
      else if loInFlight s then s\<lparr>loWakePending := True\<rparr>
      else s\<lparr>loTimer := None, loWakePending := False, loInFlight := True,
            loRunning := loRunning s + 1, loStarted := loStarted s + 1\<rparr>)"

text \<open>The \<open>finally\<close> of a tick, whether it succeeded or raised (the error handler cannot end the loop).\<close>

definition finish_tick :: "loop_state \<Rightarrow> loop_state" where
  "finish_tick s =
     (let s1 = s\<lparr>loInFlight := False, loRunning := loRunning s - 1\<rparr>
      in if loStopping s1 then s1
         else if loWakePending s1 then s1\<lparr>loWakePending := False, loTimer := Some TimerZero\<rparr>
         else s1\<lparr>loTimer := Some TimerInterval\<rparr>)"

definition stop_loop :: "loop_state \<Rightarrow> loop_state" where
  "stop_loop s = s\<lparr>loStopping := True, loTimer := None\<rparr>"

datatype loop_event = Wake | TimerFires | TickFinishes | Stop

inductive loop_step :: "loop_state \<Rightarrow> loop_event \<Rightarrow> loop_state \<Rightarrow> bool" where
  wake: "loop_step s Wake (run s)"
| timer: "loTimer s = Some t \<Longrightarrow> loop_step s TimerFires (run s)"
| tick: "loInFlight s \<Longrightarrow> loop_step s TickFinishes (finish_tick s)"
| stop: "loop_step s Stop (stop_loop s)"

inductive_simps loop_wake_iff: "loop_step s Wake t"
inductive_simps loop_tick_iff: "loop_step s TickFinishes t"

inductive loop_reachable :: "loop_state \<Rightarrow> bool" where
  started: "loop_reachable (run loop_init)"
| step: "loop_reachable s \<Longrightarrow> loop_step s e t \<Longrightarrow> loop_reachable t"

definition loop_inv :: "loop_state \<Rightarrow> bool" where
  "loop_inv s =
     (loRunning s = (if loInFlight s then 1 else 0)
      \<and> (loInFlight s \<longrightarrow> loTimer s = None)
      \<and> (loStopping s \<longrightarrow> loTimer s = None)
      \<and> (\<not> loStopping s \<longrightarrow> loInFlight s \<or> loTimer s \<noteq> None)
      \<and> (loWakePending s \<longrightarrow> loInFlight s \<or> loStopping s))"

lemmas loop_defs = run_def finish_tick_def stop_loop_def loop_init_def Let_def

lemma loop_inv_start: "loop_inv (run loop_init)"
  by (simp add: loop_inv_def loop_defs)

lemma run_inv: "loop_inv s \<Longrightarrow> loop_inv (run s)"
  by (simp add: loop_inv_def run_def)

lemma finish_inv: "loop_inv s \<Longrightarrow> loInFlight s \<Longrightarrow> loop_inv (finish_tick s)"
  by (simp add: loop_inv_def finish_tick_def Let_def)

lemma stop_inv: "loop_inv s \<Longrightarrow> loop_inv (stop_loop s)"
  by (simp add: loop_inv_def stop_loop_def)

lemma loop_inv_step: "loop_inv s \<Longrightarrow> loop_step s e t \<Longrightarrow> loop_inv t"
  by (erule loop_step.cases) (simp_all add: run_inv finish_inv stop_inv)

lemma stopped_stays: "loStopping s \<Longrightarrow> loop_step s e t \<Longrightarrow> loStopping t \<and> loStarted t = loStarted s"
  by (erule loop_step.cases) (simp_all add: loop_defs)

lemma loop_inv_reachable: "loop_reachable s \<Longrightarrow> loop_inv s"
  by (induction rule: loop_reachable.induct) (auto intro: loop_inv_start loop_inv_step)

text \<open>
  C36: ticks never overlap, and the loop never dies: in every reachable state at most one tick is
  running, and unless it was stopped either a tick is running or the next one is scheduled.
\<close>

theorem loop_never_overlaps:
  assumes "loop_reachable s"
  shows "loRunning s \<le> 1 \<and> (loStopping s \<or> loInFlight s \<or> loTimer s \<noteq> None)"
  using loop_inv_reachable [OF assms] by (auto simp: loop_inv_def)

theorem loop_never_overlaps_witness:
  "loRunning (run loop_init) \<le> 1"
  by (rule conjunct1 [OF loop_never_overlaps]) (rule loop_reachable.started)

text \<open>
  no wake is lost and no tick starts after a stop. A wake in a running loop has a tick running
  for it at once, or is remembered and schedules one with no delay when the running tick finishes;
  once stopped, no event starts another tick.
\<close>

theorem loop_wake_and_stop:
  assumes "loop_reachable s"
  shows "(\<not> loStopping s \<longrightarrow> (if loInFlight s then loTimer (finish_tick (run s)) = Some TimerZero
            else loInFlight (run s) \<and> loStarted (run s) = loStarted s + 1))
    \<and> (loStopping s \<longrightarrow> loop_step s e t \<longrightarrow> loStopping t \<and> loStarted t = loStarted s)"
proof -
  have "loop_inv s" using assms by (rule loop_inv_reachable)
  then have "\<not> loStopping s \<Longrightarrow> if loInFlight s then loTimer (finish_tick (run s)) = Some TimerZero
      else loInFlight (run s) \<and> loStarted (run s) = loStarted s + 1"
    by (simp add: loop_inv_def loop_defs)
  then show ?thesis using stopped_stays [of s e t] by blast
qed

theorem loop_wake_and_stop_witness:
  "loTimer (finish_tick (run (run loop_init))) = Some TimerZero"
  using loop_wake_and_stop [OF loop_reachable.started, of Wake loop_init] by (simp add: loop_defs)

end
