(* ===== verification/FifoLots.thy ===== *)
theory FifoLots
  imports JsPrelude
begin

section \<open>Cost basis and positions (indexer/lib/v2/fifo.ts, pnl.ts)\<close>

text \<open>
  The FIFO lots a sale consumes, the division of a call's taker fee among its fills, and the running
  totals of a position with the leaderboard's rule for a win. A raised error is an \<open>Inl\<close>; a division
  by the bigint zero raises, as it does in the language.
\<close>

subsection \<open>Consuming lots\<close>

datatype lot_source = LotFill | LotTransfer | LotMint

record cost_lot =
  clUnits :: int
  clCost :: int
  clSource :: lot_source

text \<open>The lot may carry more fields: \<open>T extends CostLot\<close> is the record scheme.\<close>

record 'l consumed_lot =
  cnLot :: 'l
  cnUnits :: int
  cnCost :: int

record 'l fifo_result =
  frConsumed :: "'l consumed_lot list"
  frCost :: int
  frTransferIn :: bool

datatype fifo_error =
    NegativeQuantity | InvalidLot | InventoryShort int
  | NegativeFeeOrPremium | FeeWithoutFills | FeeWithoutPremium | DivisionByZero | NegativePayout

fun fifo_loop :: "'a cost_lot_scheme list \<Rightarrow> int \<Rightarrow> 'a cost_lot_scheme fifo_result
    \<Rightarrow> fifo_error + (int \<times> 'a cost_lot_scheme fifo_result)" where
  "fifo_loop [] remaining r = Inr (remaining, r)"
| "fifo_loop (lot # lots) remaining r =
     (if remaining = 0 then Inr (remaining, r)
      else if clUnits lot < 0 \<or> clCost lot < 0 then Inl InvalidLot
      else if clUnits lot = 0 then fifo_loop lots remaining r
      else let tk = (if remaining < clUnits lot then remaining else clUnits lot);
               cost = (if tk = clUnits lot then clCost lot else (clCost lot * tk) sdiv clUnits lot)
           in fifo_loop lots (remaining - tk)
                \<lparr>frConsumed = frConsumed r @ [\<lparr>cnLot = lot, cnUnits = tk, cnCost = cost\<rparr>],
                 frCost = frCost r + cost,
                 frTransferIn = (frTransferIn r \<or> clSource lot \<noteq> LotFill)\<rparr>)"

definition consumeFifo :: "'a cost_lot_scheme list \<Rightarrow> int \<Rightarrow> fifo_error + 'a cost_lot_scheme fifo_result" where
  "consumeFifo orderedLots units =
     (if units < 0 then Inl NegativeQuantity
      else case fifo_loop orderedLots units \<lparr>frConsumed = [], frCost = 0, frTransferIn = False\<rparr> of
             Inl e \<Rightarrow> Inl e
           | Inr (remaining, r) \<Rightarrow> if remaining > 0 then Inl (InventoryShort remaining) else Inr r)"

definition valid_lot :: "'a cost_lot_scheme \<Rightarrow> bool" where
  "valid_lot l = (0 \<le> clUnits l \<and> 0 \<le> clCost l \<and> (clUnits l = 0 \<longrightarrow> clCost l = 0))"

definition lot_units :: "'a cost_lot_scheme list \<Rightarrow> int" where "lot_units ls = sum_list (map clUnits ls)"
definition lot_cost :: "'a cost_lot_scheme list \<Rightarrow> int" where "lot_cost ls = sum_list (map clCost ls)"

lemma lot_units_nonneg: "list_all valid_lot ls \<Longrightarrow> 0 \<le> lot_units ls"
  unfolding lot_units_def by (rule sum_list_nonneg_map) (auto simp: list_all_iff valid_lot_def)

lemma lot_cost_nonneg: "list_all valid_lot ls \<Longrightarrow> 0 \<le> lot_cost ls"
  unfolding lot_cost_def by (rule sum_list_nonneg_map) (auto simp: list_all_iff valid_lot_def)

lemma no_units_no_cost: "list_all valid_lot ls \<Longrightarrow> lot_units ls = 0 \<Longrightarrow> lot_cost ls = 0"
proof (induction ls)
  case (Cons l ls)
  then have v: "valid_lot l" "list_all valid_lot ls" by simp_all
  have "clUnits l + lot_units ls = 0" using Cons.prems(2) by (simp add: lot_units_def)
  with v(1) lot_units_nonneg [OF v(2)] have "clUnits l = 0" "lot_units ls = 0" by (simp_all add: valid_lot_def)
  with Cons.IH [OF v(2)] v(1) show ?case by (simp add: valid_lot_def lot_cost_def)
qed (simp add: lot_cost_def)

text \<open>A partial take carries at most its share of the lot's cost.\<close>

lemma partial_cost: "0 < t \<Longrightarrow> t < u \<Longrightarrow> 0 \<le> c \<Longrightarrow> 0 \<le> c * t sdiv u \<and> c * t sdiv u \<le> c" for t u c :: int
proof -
  assume a: "0 < t" "t < u" "0 \<le> c"
  have "c * t \<le> c * u" using a by (intro mult_left_mono) auto
  then have "c * t div u \<le> c * u div u" using a by (intro zdiv_mono1) auto
  then show ?thesis using a by (simp add: pos_imp_zdiv_nonneg_iff)
qed

lemma fifo_loop_total:
  assumes "list_all valid_lot lots" "0 \<le> remaining"
  shows "\<exists>r'. fifo_loop lots remaining r = Inr (max 0 (remaining - lot_units lots), r')
    \<and> sum_list (map cnUnits (frConsumed r')) = sum_list (map cnUnits (frConsumed r)) + min remaining (lot_units lots)
    \<and> frCost r \<le> frCost r' \<and> frCost r' \<le> frCost r + lot_cost lots
    \<and> (lot_units lots \<le> remaining \<longrightarrow> frCost r' = frCost r + lot_cost lots)
    \<and> frCost r' - sum_list (map cnCost (frConsumed r')) = frCost r - sum_list (map cnCost (frConsumed r))"
  using assms
proof (induction lots remaining r rule: fifo_loop.induct)
  case (1 remaining r)
  then show ?case by (simp add: lot_units_def lot_cost_def)
next
  case (2 lot lots remaining r)
  have v: "valid_lot lot" "list_all valid_lot lots" using "2.prems" by simp_all
  note nn = lot_units_nonneg [OF v(2)] lot_cost_nonneg [OF v(2)]
  have eqs: "lot_units (lot # lots) = clUnits lot + lot_units lots" "lot_cost (lot # lots) = clCost lot + lot_cost lots"
    by (simp_all add: lot_units_def lot_cost_def)
  show ?case
  proof (cases "remaining = 0")
    case True
    have "lot_units (lot # lots) \<le> 0 \<Longrightarrow> lot_cost (lot # lots) = 0"
      using no_units_no_cost [OF "2.prems"(1)] lot_units_nonneg [OF "2.prems"(1)] by simp
    with True show ?thesis
      using lot_units_nonneg [OF "2.prems"(1)] lot_cost_nonneg [OF "2.prems"(1)] by simp
  next
    case pos: False
    show ?thesis
    proof (cases "clUnits lot = 0")
      case True
      with v(1) have "clCost lot = 0" by (simp add: valid_lot_def)
      with True pos "2.IH"(1) "2.prems" v show ?thesis by (simp add: eqs valid_lot_def)
    next
      case False
      with v(1) have u: "0 < clUnits lot" "0 \<le> clCost lot" by (auto simp: valid_lot_def)
      let ?t = "if remaining < clUnits lot then remaining else clUnits lot"
      let ?c = "if ?t = clUnits lot then clCost lot else (clCost lot * ?t) sdiv clUnits lot"
      have t: "0 \<le> remaining - ?t" using "2.prems" by simp
      have c: "0 \<le> ?c \<and> ?c \<le> clCost lot" using u pos "2.prems"(2) partial_cost [of ?t "clUnits lot" "clCost lot"] by auto
      from "2.IH"(2) [OF pos _ False refl refl v(2) t] u c False pos nn show ?thesis
        by (auto simp: eqs Let_def)
    qed
  qed
qed

text \<open>
  C28: FIFO consumption conserves units and cost. Over valid lots it succeeds exactly when the
  inventory covers the sale; then the consumed units add up to the sale, the cost is the sum of the
  parts and never more than the lots hold, and consuming everything consumes every base unit of cost,
  so no dust is created or lost.
\<close>

theorem consumeFifo_conserves:
  assumes "list_all valid_lot lots" "0 \<le> units"
  shows "(if units \<le> lot_units lots
      then \<exists>r. consumeFifo lots units = Inr r \<and> sum_list (map cnUnits (frConsumed r)) = units
        \<and> frCost r = sum_list (map cnCost (frConsumed r)) \<and> 0 \<le> frCost r \<and> frCost r \<le> lot_cost lots
        \<and> (units = lot_units lots \<longrightarrow> frCost r = lot_cost lots)
      else consumeFifo lots units = Inl (InventoryShort (units - lot_units lots)))"
  using fifo_loop_total [OF assms, of "\<lparr>frConsumed = [], frCost = 0, frTransferIn = False\<rparr>"] assms(2)
  by (auto simp: consumeFifo_def)

theorem consumeFifo_conserves_witness:
  "let lots = [\<lparr>clUnits = 3, clCost = 100, clSource = LotFill\<rparr>, \<lparr>clUnits = 2, clCost = 50, clSource = LotMint\<rparr>]
   in \<exists>r. consumeFifo lots 4 = Inr r \<and> sum_list (map cnUnits (frConsumed r)) = 4
        \<and> frCost r = sum_list (map cnCost (frConsumed r)) \<and> 0 \<le> frCost r \<and> frCost r \<le> lot_cost lots"
  using consumeFifo_conserves [of "[\<lparr>clUnits = 3, clCost = 100, clSource = LotFill\<rparr>, \<lparr>clUnits = 2, clCost = 50, clSource = LotMint\<rparr>]" 4]
  by (simp add: valid_lot_def lot_units_def)

subsection \<open>Dividing a taker fee\<close>

fun share_loop :: "int \<Rightarrow> int \<Rightarrow> int \<Rightarrow> int list \<Rightarrow> fifo_error + int list" where
  "share_loop fee tot allocated [] = Inr []"
| "share_loop fee tot allocated [p] = Inr [fee - allocated]"
| "share_loop fee tot allocated (p # q # ps) =
     (if tot = 0 then Inl DivisionByZero
      else let share = (fee * p) sdiv tot
           in case share_loop fee tot (allocated + share) (q # ps) of
                Inl e \<Rightarrow> Inl e
              | Inr shares \<Rightarrow> Inr (share # shares))"

definition feeShares :: "int list \<Rightarrow> int \<Rightarrow> fifo_error + int list" where
  "feeShares premiums fee =
     (if fee < 0 \<or> list_ex (\<lambda>p. p < 0) premiums then Inl NegativeFeeOrPremium
      else if premiums = [] then (if fee \<noteq> 0 then Inl FeeWithoutFills else Inr [])
      else let tot = foldl (+) 0 premiums
           in if tot = 0 \<and> fee \<noteq> 0 then Inl FeeWithoutPremium
              else share_loop fee tot 0 premiums)"

definition payoutValueUsdg :: "int \<Rightarrow> int \<Rightarrow> bool \<Rightarrow> fifo_error + int" where
  "payoutValueUsdg amount settlementPrice assetIsUsdg =
     (if amount < 0 \<or> settlementPrice < 0 then Inl NegativePayout
      else Inr (if assetIsUsdg then amount else (amount * settlementPrice) sdiv 10 ^ 18))"

lemma foldl_plus: "foldl (+) a xs = a + sum_list xs" for a :: int
  using foldl_add_sum [of "\<lambda>x. x" a xs] by simp

lemma sum_list_floor_le:
  assumes "0 < (tot :: int)" "0 \<le> fee" "\<And>p. p \<in> set ps \<Longrightarrow> 0 \<le> p"
  shows "sum_list (map (\<lambda>p. (fee * p) sdiv tot) ps) * tot \<le> fee * sum_list ps"
  using assms(3)
proof (induction ps)
  case (Cons p ps)
  have "((fee * p) sdiv tot) * tot \<le> fee * p" using assms Cons.prems by (intro sdiv_mult_le) simp_all
  with Cons show ?case by (simp add: algebra_simps)
qed simp

text \<open>Every fill but the last gets its floor share, the last one the rest.\<close>

lemma share_loop_shares:
  assumes "tot \<noteq> 0" "ps \<noteq> []"
  shows "share_loop fee tot allocated ps =
     Inr (map (\<lambda>p. (fee * p) sdiv tot) (butlast ps)
          @ [fee - allocated - sum_list (map (\<lambda>p. (fee * p) sdiv tot) (butlast ps))])"
  using assms(2)
proof (induction ps arbitrary: allocated rule: induct_list012)
  case (3 p q ps)
  then show ?case using assms(1) by (simp add: Let_def algebra_simps)
qed (use assms in simp_all)

text \<open>
  the fee of a call is divided without a base unit lost: the shares add up to it, one per fill,
  none is negative, and each but the last is the fill's exact proportion rounded down.
\<close>

theorem feeShares_sum:
  assumes "0 \<le> fee" "list_all (\<lambda>p. 0 \<le> p) premiums" "0 < sum_list premiums"
  shows "\<exists>shares. feeShares premiums fee = Inr shares \<and> length shares = length premiums \<and> sum_list shares = fee
     \<and> list_all (\<lambda>s. 0 \<le> s) shares
     \<and> butlast shares = map (\<lambda>p. (fee * p) div sum_list premiums) (butlast premiums)"
proof -
  let ?t = "sum_list premiums" and ?fl = "\<lambda>p. (fee * p) sdiv sum_list premiums"
  have ne: "premiums \<noteq> []" using assms(3) by auto
  have nn: "\<And>p. p \<in> set premiums \<Longrightarrow> 0 \<le> p" using assms(2) by (simp add: list_all_iff)
  then have nb: "\<And>p. p \<in> set (butlast premiums) \<Longrightarrow> 0 \<le> p" by (auto dest: in_set_butlastD)
  have "feeShares premiums fee = share_loop fee ?t 0 premiums"
  proof -
    have "\<not> list_ex (\<lambda>p. p < 0) premiums" using assms(2) by (auto simp: list_ex_iff list_all_iff)
    then show ?thesis using assms(1,3) ne by (simp add: feeShares_def foldl_plus)
  qed
  then have eq: "feeShares premiums fee = Inr (map ?fl (butlast premiums) @ [fee - sum_list (map ?fl (butlast premiums))])"
    using share_loop_shares [of ?t premiums fee 0] assms(3) ne by simp
  have split: "?t = sum_list (butlast premiums) + last premiums"
    using ne by (metis append_butlast_last_id sum_list_append sum_list.Cons sum_list.Nil add.right_neutral)
  have "sum_list (map ?fl (butlast premiums)) * ?t \<le> fee * sum_list (butlast premiums)"
    using assms(1,3) nb by (intro sum_list_floor_le)
  also have "\<dots> \<le> fee * ?t" using split nn ne assms(1) by (intro mult_left_mono) auto
  finally have "sum_list (map ?fl (butlast premiums)) \<le> fee" using assms(3) by simp
  moreover have "0 \<le> (fee * p) div ?t \<and> ?fl p = (fee * p) div ?t" if "p \<in> set (butlast premiums)" for p
    using assms(1,3) nb [OF that] by (simp add: pos_imp_zdiv_nonneg_iff)
  ultimately show ?thesis using ne by (auto simp: eq list_all_iff cong: map_cong)
qed

theorem feeShares_sum_witness:
  "\<exists>shares. feeShares [10, 20, 5] 100 = Inr shares \<and> length shares = length [10, 20, 5 :: int] \<and> sum_list shares = 100
     \<and> list_all (\<lambda>s. 0 \<le> s) shares
     \<and> butlast shares = map (\<lambda>p. (100 * p) div sum_list [10, 20, 5]) (butlast [10, 20, 5])"
  by (rule feeShares_sum) simp_all

text \<open>
  Two or more fills without premium and no fee pass every check of the function, whose checks only
  refuse a fee without premium, and then divide by the zero total.
\<close>

theorem feeShares_zero_premiums_raise:
  "feeShares [0, 0] 0 = Inl DivisionByZero \<and> feeShares [0] 0 = Inr [0]"
  by (simp add: feeShares_def)

subsection \<open>Positions\<close>

record position_totals =
  ptUnitsBought :: int
  ptCostUsdg :: int
  ptUnitsSold :: int
  ptProceedsUsdg :: int
  ptUnitsTransferredOut :: int
  ptUnitsRedeemed :: int
  ptPayoutUsdgValue :: int
  ptRealisedUsdg :: int
  ptMultiple :: "string option"
  ptMultiplePpm :: "int option"
  ptClosedAt :: "int option"
  ptSelfFill :: bool
  ptBelowMinCost :: bool
  ptOffMarket :: bool
  ptTransferIn :: bool
  ptTransferredOut :: bool

datatype position_error = InvalidBuy | InvalidSale | InvalidRedemption | InvalidTransfer | NegativeClose

definition emptyPosition :: position_totals where
  "emptyPosition = \<lparr>ptUnitsBought = 0, ptCostUsdg = 0, ptUnitsSold = 0, ptProceedsUsdg = 0, ptUnitsTransferredOut = 0,
     ptUnitsRedeemed = 0, ptPayoutUsdgValue = 0, ptRealisedUsdg = 0, ptMultiple = None, ptMultiplePpm = None,
     ptClosedAt = None, ptSelfFill = False, ptBelowMinCost = False, ptOffMarket = False, ptTransferIn = False,
     ptTransferredOut = False\<rparr>"

text \<open>\<open>s.padStart(n, c)\<close>.\<close>

definition pad_start :: "nat \<Rightarrow> char \<Rightarrow> string \<Rightarrow> string" where
  "pad_start n c s = replicate (n - length s) c @ s"

definition multiple_ppm :: "position_totals \<Rightarrow> int option" where
  "multiple_ppm p =
     (if ptCostUsdg p \<le> 0 then None
      else Some (((ptProceedsUsdg p + ptPayoutUsdgValue p) * 1000000) sdiv ptCostUsdg p))"

definition with_multiple :: "position_totals \<Rightarrow> position_totals" where
  "with_multiple p =
     (case multiple_ppm p of
        None \<Rightarrow> p\<lparr>ptMultiple := None, ptMultiplePpm := None\<rparr>
      | Some ppm \<Rightarrow> p\<lparr>ptMultiple := Some (show_int (ppm sdiv 1000000) @ ''.'' @ pad_start 6 (CHR ''0'') (show_int (ppm smod 1000000))),
                     ptMultiplePpm := Some ppm\<rparr>)"

definition buyPosition :: "position_totals \<Rightarrow> int \<Rightarrow> int \<Rightarrow> bool \<Rightarrow> bool \<Rightarrow> position_error + position_totals" where
  "buyPosition p units cost selfFill offMarket =
     (if units \<le> 0 \<or> cost < 0 then Inl InvalidBuy
      else Inr (with_multiple (p\<lparr>ptUnitsBought := ptUnitsBought p + units, ptCostUsdg := ptCostUsdg p + cost,
             ptSelfFill := (ptSelfFill p \<or> selfFill), ptOffMarket := (ptOffMarket p \<or> offMarket), ptClosedAt := None\<rparr>)))"

definition sellPosition :: "position_totals \<Rightarrow> int \<Rightarrow> int \<Rightarrow> int \<Rightarrow> bool \<Rightarrow> position_error + position_totals" where
  "sellPosition p units proceeds consumedCost transferIn =
     (if units \<le> 0 \<or> proceeds < 0 \<or> consumedCost < 0 then Inl InvalidSale
      else Inr (with_multiple (p\<lparr>ptUnitsSold := ptUnitsSold p + units, ptProceedsUsdg := ptProceedsUsdg p + proceeds,
             ptRealisedUsdg := ptRealisedUsdg p + proceeds - consumedCost, ptTransferIn := (ptTransferIn p \<or> transferIn)\<rparr>)))"

definition redeemPosition :: "position_totals \<Rightarrow> int \<Rightarrow> int \<Rightarrow> int \<Rightarrow> bool \<Rightarrow> position_error + position_totals" where
  "redeemPosition p units payout consumedCost transferIn =
     (if units \<le> 0 \<or> payout < 0 \<or> consumedCost < 0 then Inl InvalidRedemption
      else Inr (with_multiple (p\<lparr>ptUnitsRedeemed := ptUnitsRedeemed p + units, ptPayoutUsdgValue := ptPayoutUsdgValue p + payout,
             ptRealisedUsdg := ptRealisedUsdg p + payout - consumedCost, ptTransferIn := (ptTransferIn p \<or> transferIn)\<rparr>)))"

definition transferOutPosition :: "position_totals \<Rightarrow> int \<Rightarrow> position_error + position_totals" where
  "transferOutPosition p units =
     (if units \<le> 0 then Inl InvalidTransfer
      else Inr (p\<lparr>ptUnitsTransferredOut := ptUnitsTransferredOut p + units, ptTransferredOut := True\<rparr>))"

definition markTransferIn :: "position_totals \<Rightarrow> position_totals" where
  "markTransferIn p = p\<lparr>ptTransferIn := True\<rparr>"

definition closePosition :: "position_totals \<Rightarrow> int \<Rightarrow> position_error + position_totals" where
  "closePosition p closeAt =
     (if closeAt < 0 then Inl NegativeClose
      else Inr (with_multiple (p\<lparr>ptClosedAt := Some closeAt, ptBelowMinCost := (ptCostUsdg p < 100000)\<rparr>)))"

definition MIN_FEED_COST_USDG :: int where "MIN_FEED_COST_USDG = 100000"

definition isExcludedFromLeaderboard :: "position_totals \<Rightarrow> bool" where
  "isExcludedFromLeaderboard p = (ptSelfFill p \<or> ptBelowMinCost p \<or> ptOffMarket p \<or> ptTransferIn p \<or> ptTransferredOut p
     \<or> ptCostUsdg p \<le> 0)"

definition isWin :: "position_totals \<Rightarrow> bool" where
  "isWin p = (ptClosedAt p \<noteq> None \<and> (case ptMultiplePpm p of None \<Rightarrow> False | Some m \<Rightarrow> m > 1000000)
     \<and> \<not> isExcludedFromLeaderboard p)"

text \<open>The positions the reducer can reach; \<open>flag\<close> is what the caller of a sale adds to the position it passes.\<close>

inductive reachable_position :: "position_totals \<Rightarrow> bool" where
  empty: "reachable_position emptyPosition"
| buy: "reachable_position p \<Longrightarrow> buyPosition p u c sf om = Inr q \<Longrightarrow> reachable_position q"
| sell: "reachable_position p \<Longrightarrow> sellPosition p u pr cc ti = Inr q \<Longrightarrow> reachable_position q"
| redeem: "reachable_position p \<Longrightarrow> redeemPosition p u pay cc ti = Inr q \<Longrightarrow> reachable_position q"
| transfer_out: "reachable_position p \<Longrightarrow> transferOutPosition p u = Inr q \<Longrightarrow> reachable_position q"
| transfer_in: "reachable_position p \<Longrightarrow> reachable_position (markTransferIn p)"
| flag: "reachable_position p \<Longrightarrow> reachable_position (p\<lparr>ptSelfFill := (ptSelfFill p \<or> sf), ptOffMarket := (ptOffMarket p \<or> om)\<rparr>)"
| close: "reachable_position p \<Longrightarrow> closePosition p t = Inr q \<Longrightarrow> reachable_position q"

lemmas position_ops = buyPosition_def sellPosition_def redeemPosition_def transferOutPosition_def markTransferIn_def
  closePosition_def emptyPosition_def

definition position_inv :: "position_totals \<Rightarrow> bool" where
  "position_inv p =
     (ptMultiplePpm p = multiple_ppm p \<and> 0 \<le> ptProceedsUsdg p \<and> 0 \<le> ptPayoutUsdgValue p \<and> 0 \<le> ptCostUsdg p
      \<and> (ptClosedAt p \<noteq> None \<longrightarrow> ptBelowMinCost p = (ptCostUsdg p < MIN_FEED_COST_USDG)))"

lemma with_multiple_sel [simp]:
  "ptMultiplePpm (with_multiple p) = multiple_ppm p" "ptProceedsUsdg (with_multiple p) = ptProceedsUsdg p"
  "ptPayoutUsdgValue (with_multiple p) = ptPayoutUsdgValue p" "ptCostUsdg (with_multiple p) = ptCostUsdg p"
  "ptClosedAt (with_multiple p) = ptClosedAt p" "ptBelowMinCost (with_multiple p) = ptBelowMinCost p"
  "multiple_ppm (with_multiple p) = multiple_ppm p" "ptRealisedUsdg (with_multiple p) = ptRealisedUsdg p"
  by (simp_all add: with_multiple_def multiple_ppm_def split: option.splits)

lemma position_inv_reachable: "reachable_position p \<Longrightarrow> position_inv p"
  by (induction rule: reachable_position.induct)
    (auto simp: position_ops position_inv_def multiple_ppm_def MIN_FEED_COST_USDG_def split: if_splits)

lemma win_facts:
  assumes "reachable_position p" "isWin p"
  shows "ptClosedAt p \<noteq> None \<and> ptCostUsdg p < ptProceedsUsdg p + ptPayoutUsdgValue p \<and> MIN_FEED_COST_USDG \<le> ptCostUsdg p
     \<and> \<not> ptSelfFill p \<and> \<not> ptOffMarket p \<and> \<not> ptTransferIn p \<and> \<not> ptTransferredOut p"
proof -
  have inv: "position_inv p" using assms(1) by (rule position_inv_reachable)
  have cost: "0 < ptCostUsdg p" using assms(2) by (auto simp: isWin_def isExcludedFromLeaderboard_def)
  let ?returned = "ptProceedsUsdg p + ptPayoutUsdgValue p"
  have "1000000 < (?returned * 1000000) div ptCostUsdg p"
    using assms(2) inv cost by (auto simp: isWin_def position_inv_def multiple_ppm_def)
  then have "1000001 \<le> (?returned * 1000000) div ptCostUsdg p" by simp
  then have "1000001 * ptCostUsdg p \<le> ?returned * 1000000" using cost by (simp add: le_div_iff_mult_le_int)
  moreover have "1000000 * ptCostUsdg p < 1000001 * ptCostUsdg p" using cost by simp
  ultimately have "ptCostUsdg p * 1000000 < ?returned * 1000000" by (simp only: mult.commute)
  then have "ptCostUsdg p < ?returned" by simp
  with assms(2) inv show ?thesis by (auto simp: isWin_def isExcludedFromLeaderboard_def position_inv_def)
qed

text \<open>
  a win on the leaderboard is real. Whatever sequence of buys, sells, redemptions, transfers and
  closes produced it, it is closed, returned strictly more than it cost, cost at least 0.10 USDG, and
  carries none of the exclusion flags.
\<close>

theorem isWin_sound:
  assumes "reachable_position p" "isWin p"
  shows "ptClosedAt p \<noteq> None \<and> ptCostUsdg p < ptProceedsUsdg p + ptPayoutUsdgValue p \<and> MIN_FEED_COST_USDG \<le> ptCostUsdg p
     \<and> \<not> ptSelfFill p \<and> \<not> ptOffMarket p \<and> \<not> ptTransferIn p \<and> \<not> ptTransferredOut p"
  by (rule win_facts [OF assms])

theorem isWin_sound_witness:
  "\<exists>p. reachable_position p \<and> isWin p \<and> MIN_FEED_COST_USDG \<le> ptCostUsdg p"
proof -
  obtain b where b: "buyPosition emptyPosition 10 200000 False False = Inr b" by (simp add: position_ops)
  obtain s where s: "sellPosition b 10 500000 200000 False = Inr s" by (simp add: position_ops)
  obtain c where c: "closePosition s 99 = Inr c" by (simp add: position_ops)
  have r: "reachable_position c"
    using reachable_position.close [OF reachable_position.sell [OF reachable_position.buy
        [OF reachable_position.empty b] s] c] .
  have w: "isWin c" using b s c
    by (auto simp: position_ops isWin_def isExcludedFromLeaderboard_def with_multiple_def multiple_ppm_def)
  show ?thesis using isWin_sound [OF r w] r w by blast
qed

end
