(* ===== verification/BookEvents.thy ===== *)
theory BookEvents
  imports JsPrelude
begin

section \<open>Event reductions of the indexer (indexer/lib/v2/fees.ts, orderBook.ts, oracle.ts, clearinghouse.ts)\<close>

text \<open>
  The scheduled fee parameters and their database columns, the life of an order, the settlement
  verdict of an expiry, and the wallet and open-interest movements of an ERC-1155 transfer. All of
  them fold the chain's event log; a raised error is an \<open>Inl\<close>.
\<close>

unbundle bit_operations_syntax

subsection \<open>Fee schedule\<close>

record order_book_fees =
  obPremiumFeeBps :: bps
  obResaleFeeBps :: bps
  obTakerFeeFlat :: int
  obTakerFeeCapBps :: bps
  obMakerRebateBps :: bps

record fee_schedule =
  fsFees :: order_book_fees
  fsEffectiveAt :: int

record fee_state =
  ftActive :: order_book_fees
  ftPending :: "fee_schedule option"

datatype fee_error = FeeRangeError | IncompleteScheduledFees

definition effectiveFees :: "fee_state \<Rightarrow> int \<Rightarrow> order_book_fees" where
  "effectiveFees state t =
     (case ftPending state of
        Some p \<Rightarrow> if t \<ge> fsEffectiveAt p then fsFees p else ftActive state
      | None \<Rightarrow> ftActive state)"

definition scheduleFees :: "fee_state \<Rightarrow> order_book_fees \<Rightarrow> int \<Rightarrow> int \<Rightarrow> fee_error + fee_state" where
  "scheduleFees state fees effectiveAt scheduledAt =
     (if effectiveAt \<le> scheduledAt then Inl FeeRangeError
      else Inr \<lparr>ftActive = effectiveFees state scheduledAt, ftPending = Some \<lparr>fsFees = fees, fsEffectiveAt = effectiveAt\<rparr>\<rparr>)"

definition feesEqual :: "order_book_fees \<Rightarrow> order_book_fees \<Rightarrow> bool" where
  "feesEqual a b = (obPremiumFeeBps a = obPremiumFeeBps b \<and> obResaleFeeBps a = obResaleFeeBps b
     \<and> obTakerFeeFlat a = obTakerFeeFlat b \<and> obTakerFeeCapBps a = obTakerFeeCapBps b
     \<and> obMakerRebateBps a = obMakerRebateBps b)"

record stored_fee_state =
  sfPremiumFeeBps :: "bps option"
  sfResaleFeeBps :: "bps option"
  sfTakerFeeFlat :: "int option"
  sfTakerFeeCapBps :: "bps option"
  sfMakerRebateBps :: "bps option"
  sfPendingPremiumFeeBps :: "bps option"
  sfPendingResaleFeeBps :: "bps option"
  sfPendingTakerFeeFlat :: "int option"
  sfPendingTakerFeeCapBps :: "bps option"
  sfPendingMakerRebateBps :: "bps option"
  sfPendingEffectiveAt :: "int option"

definition feeStateFromRow :: "stored_fee_state option \<Rightarrow> order_book_fees \<Rightarrow> fee_error + fee_state" where
  "feeStateFromRow row defaults =
     (case row of
        None \<Rightarrow> Inr \<lparr>ftActive = defaults, ftPending = None\<rparr>
      | Some r \<Rightarrow>
          let active = \<lparr>obPremiumFeeBps = or_else (sfPremiumFeeBps r) (obPremiumFeeBps defaults),
                        obResaleFeeBps = or_else (sfResaleFeeBps r) (obResaleFeeBps defaults),
                        obTakerFeeFlat = or_else (sfTakerFeeFlat r) (obTakerFeeFlat defaults),
                        obTakerFeeCapBps = or_else (sfTakerFeeCapBps r) (obTakerFeeCapBps defaults),
                        obMakerRebateBps = or_else (sfMakerRebateBps r) (obMakerRebateBps defaults)\<rparr>
          in case sfPendingEffectiveAt r of
               None \<Rightarrow> Inr \<lparr>ftActive = active, ftPending = None\<rparr>
             | Some eff \<Rightarrow>
                 (case (sfPendingPremiumFeeBps r, sfPendingResaleFeeBps r, sfPendingTakerFeeFlat r,
                        sfPendingTakerFeeCapBps r, sfPendingMakerRebateBps r) of
                    (Some pf, Some rf, Some tf, Some tc, Some mr) \<Rightarrow>
                      Inr \<lparr>ftActive = active, ftPending = Some \<lparr>fsFees = \<lparr>obPremiumFeeBps = pf, obResaleFeeBps = rf,
                             obTakerFeeFlat = tf, obTakerFeeCapBps = tc, obMakerRebateBps = mr\<rparr>, fsEffectiveAt = eff\<rparr>\<rparr>
                  | _ \<Rightarrow> Inl IncompleteScheduledFees))"

definition feeStateColumns :: "fee_state \<Rightarrow> stored_fee_state" where
  "feeStateColumns state =
     (let pending = map_option fsFees (ftPending state); a = ftActive state
      in \<lparr>sfPremiumFeeBps = Some (obPremiumFeeBps a), sfResaleFeeBps = Some (obResaleFeeBps a),
          sfTakerFeeFlat = Some (obTakerFeeFlat a), sfTakerFeeCapBps = Some (obTakerFeeCapBps a),
          sfMakerRebateBps = Some (obMakerRebateBps a),
          sfPendingPremiumFeeBps = map_option obPremiumFeeBps pending,
          sfPendingResaleFeeBps = map_option obResaleFeeBps pending,
          sfPendingTakerFeeFlat = map_option obTakerFeeFlat pending,
          sfPendingTakerFeeCapBps = map_option obTakerFeeCapBps pending,
          sfPendingMakerRebateBps = map_option obMakerRebateBps pending,
          sfPendingEffectiveAt = map_option fsEffectiveAt (ftPending state)\<rparr>)"

definition scheduledFeeColumns ::
  "stored_fee_state option \<Rightarrow> order_book_fees \<Rightarrow> order_book_fees \<Rightarrow> int \<Rightarrow> int \<Rightarrow> fee_error + stored_fee_state" where
  "scheduledFeeColumns row defaults fees effectiveAt scheduledAt =
     (case feeStateFromRow row defaults of
        Inl e \<Rightarrow> Inl e
      | Inr state \<Rightarrow>
          (case scheduleFees state fees effectiveAt scheduledAt of Inl e \<Rightarrow> Inl e | Inr s \<Rightarrow> Inr (feeStateColumns s)))"

lemma fee_columns_roundtrip: "feeStateFromRow (Some (feeStateColumns state)) defaults = Inr state"
  by (cases state; cases "ftPending state") (auto simp: feeStateFromRow_def feeStateColumns_def Let_def)

text \<open>The reference: the fees in force at a time, given every schedule that was made before it.\<close>

fun scheduled_rows :: "order_book_fees \<Rightarrow> stored_fee_state option \<Rightarrow> (order_book_fees \<times> int \<times> int) list
    \<Rightarrow> fee_error + stored_fee_state option" where
  "scheduled_rows defaults row [] = Inr row"
| "scheduled_rows defaults row ((fees, eff, sched) # logs) =
     (case scheduledFeeColumns row defaults fees eff sched of
        Inl e \<Rightarrow> Inl e | Inr r \<Rightarrow> scheduled_rows defaults (Some r) logs)"

fun scheduled_states :: "fee_state \<Rightarrow> (order_book_fees \<times> int \<times> int) list \<Rightarrow> fee_error + fee_state" where
  "scheduled_states state [] = Inr state"
| "scheduled_states state ((fees, eff, sched) # logs) =
     (case scheduleFees state fees eff sched of Inl e \<Rightarrow> Inl e | Inr s \<Rightarrow> scheduled_states s logs)"

text \<open>
  C24: the database columns are a faithful store of the schedule. Reducing any log of schedules through
  the columns, from a complete row or from none, gives exactly the state that reducing it in memory
  gives, errors included.
\<close>

theorem fee_columns_refine:
  "(case scheduled_rows defaults (Some (feeStateColumns state)) logs of Inl e \<Rightarrow> Inl e
     | Inr row \<Rightarrow> feeStateFromRow row defaults) = scheduled_states state logs
   \<and> (case scheduled_rows defaults None logs of Inl e \<Rightarrow> Inl e | Inr row \<Rightarrow> feeStateFromRow row defaults)
      = scheduled_states \<lparr>ftActive = defaults, ftPending = None\<rparr> logs"
proof -
  have cols: "(case scheduled_rows defaults (Some (feeStateColumns state)) logs of Inl e \<Rightarrow> Inl e
     | Inr row \<Rightarrow> feeStateFromRow row defaults) = scheduled_states state logs" for state logs
    by (induction state logs rule: scheduled_states.induct)
      (auto simp: scheduledFeeColumns_def fee_columns_roundtrip split: sum.splits)
  moreover have "(case scheduled_rows defaults None logs of Inl e \<Rightarrow> Inl e | Inr row \<Rightarrow> feeStateFromRow row defaults)
      = scheduled_states \<lparr>ftActive = defaults, ftPending = None\<rparr> logs"
  proof (cases logs)
    case Nil
    then show ?thesis by (simp add: feeStateFromRow_def)
  next
    case (Cons l ls)
    have "feeStateFromRow None defaults = Inr \<lparr>ftActive = defaults, ftPending = None\<rparr>" by (simp add: feeStateFromRow_def)
    then show ?thesis using cols [of _ ls] by (cases l) (auto simp: Cons scheduledFeeColumns_def split: sum.splits)
  qed
  ultimately show ?thesis by blast
qed

text \<open>
  a schedule changes nothing before its date. After one, the fees in force are the old ones until
  the new date and the new ones from it, and a change that was already due is not lost.
\<close>

theorem scheduleFees_timeline:
  assumes "scheduleFees state fees effectiveAt scheduledAt = Inr state'" and "scheduledAt \<le> t"
  shows "effectiveFees state' t = (if effectiveAt \<le> t then fees else effectiveFees state scheduledAt)"
  using assms by (auto simp: scheduleFees_def effectiveFees_def split: if_splits)

theorem scheduleFees_timeline_witness:
  "let f = \<lparr>obPremiumFeeBps = 100, obResaleFeeBps = 50, obTakerFeeFlat = 5, obTakerFeeCapBps = 1000, obMakerRebateBps = 0\<rparr>;
       s = \<lparr>ftActive = f, ftPending = None\<rparr>; g = f\<lparr>obPremiumFeeBps := 200\<rparr>
   in effectiveFees \<lparr>ftActive = f, ftPending = Some \<lparr>fsFees = g, fsEffectiveAt = 500\<rparr>\<rparr> 400
        = (if 500 \<le> (400 :: int) then g else effectiveFees s 100)"
  unfolding Let_def
  by (rule scheduleFees_timeline [where scheduledAt = 100]) (simp_all add: scheduleFees_def effectiveFees_def)

subsection \<open>The life of an order\<close>

datatype book_kind = BkBid | BkAskResale | BkAskWrite
datatype order_status = StOpen | StFilled | StCancelled | StPruned | StExpired

record order_row =
  orUnits :: int
  orFilled :: int
  orStatus :: order_status

datatype order_error =
    UnknownOrderKind int | NegativeOrderTime | NonPositiveUnits | CannotFill order_status | FillOutsideRemaining
  | CannotCancel order_status | CancelRemainingMismatch

definition orderKind :: "int \<Rightarrow> order_error + book_kind" where
  "orderKind v = (if v = 0 then Inr BkBid else if v = 1 then Inr BkAskResale else if v = 2 then Inr BkAskWrite
     else Inl (UnknownOrderKind v))"

definition orderValidUntil :: "book_kind \<Rightarrow> int \<Rightarrow> int \<Rightarrow> int \<Rightarrow> order_error + int" where
  "orderValidUntil kind specified mintCutoff expiry =
     (if specified < 0 \<or> mintCutoff < 0 \<or> expiry < 0 then Inl NegativeOrderTime
      else let deadline = (if kind = BkAskWrite then mintCutoff else expiry)
           in Inr (if specified = 0 then deadline else if specified < deadline then specified else deadline))"

definition placeOrder :: "int \<Rightarrow> order_error + order_row" where
  "placeOrder units =
     (if units \<le> 0 then Inl NonPositiveUnits else Inr \<lparr>orUnits = units, orFilled = 0, orStatus = StOpen\<rparr>)"

definition fillOrder :: "order_row \<Rightarrow> int \<Rightarrow> order_error + order_row" where
  "fillOrder order units =
     (if orStatus order \<noteq> StOpen then Inl (CannotFill (orStatus order))
      else if units \<le> 0 \<or> orFilled order + units > orUnits order then Inl FillOutsideRemaining
      else let filled = orFilled order + units
           in Inr (order\<lparr>orFilled := filled, orStatus := (if filled = orUnits order then StFilled else StOpen)\<rparr>))"

definition cancelOrder :: "order_row \<Rightarrow> int \<Rightarrow> bool \<Rightarrow> order_error + order_row" where
  "cancelOrder order remaining pruned =
     (if orStatus order \<noteq> StOpen \<and> orStatus order \<noteq> StExpired then Inl (CannotCancel (orStatus order))
      else if remaining \<noteq> orUnits order - orFilled order then Inl CancelRemainingMismatch
      else Inr (order\<lparr>orStatus := (if pruned then StPruned else StCancelled)\<rparr>))"

definition expireOrder :: "order_row \<Rightarrow> int \<Rightarrow> int \<Rightarrow> order_row" where
  "expireOrder order validUntil now =
     (if orStatus order = StOpen \<and> now \<ge> validUntil then order\<lparr>orStatus := StExpired\<rparr> else order)"

inductive order_step :: "order_row \<Rightarrow> order_row \<Rightarrow> bool" where
  fill: "fillOrder a u = Inr b \<Longrightarrow> order_step a b"
| cancel: "cancelOrder a r p = Inr b \<Longrightarrow> order_step a b"
| expire: "order_step a (expireOrder a v n)"

inductive order_reachable :: "order_row \<Rightarrow> bool" where
  placed: "placeOrder u = Inr a \<Longrightarrow> order_reachable a"
| stepped: "order_reachable a \<Longrightarrow> order_step a b \<Longrightarrow> order_reachable b"

inductive_cases order_stepE: "order_step a b"

lemmas order_ops = placeOrder_def fillOrder_def cancelOrder_def expireOrder_def Let_def

definition order_inv :: "order_row \<Rightarrow> bool" where
  "order_inv a = (0 < orUnits a \<and> 0 \<le> orFilled a \<and> orFilled a \<le> orUnits a
     \<and> (orStatus a = StFilled \<longleftrightarrow> orFilled a = orUnits a))"

lemma order_step_inv: "order_inv a \<Longrightarrow> order_step a b \<Longrightarrow> order_inv b"
  by (erule order_step.cases) (auto simp: order_inv_def order_ops split: if_splits)

lemma order_inv_reachable: "order_reachable a \<Longrightarrow> order_inv a"
proof (induction rule: order_reachable.induct)
  case (placed u a)
  then show ?case by (auto simp: order_inv_def order_ops split: if_splits)
qed (rule order_step_inv)

lemma order_step_progress:
  "order_step a b \<Longrightarrow> orUnits b = orUnits a \<and> orFilled a \<le> orFilled b
     \<and> (orStatus a \<in> {StFilled, StCancelled, StPruned} \<longrightarrow> b = a)
     \<and> (orStatus a = StExpired \<longrightarrow> orFilled b = orFilled a)"
  by (erule order_step.cases) (auto simp: order_ops split: if_splits)

text \<open>
  C40: the life of an order, over every log. Its filled units only grow and never pass its size, it is
  marked filled exactly when nothing is left, and once filled, cancelled or pruned no event changes it.
\<close>

theorem order_lifecycle:
  assumes "order_reachable a" "order_step a b"
  shows "0 < orUnits a \<and> 0 \<le> orFilled a \<and> orFilled b \<le> orUnits b
    \<and> (orStatus a = StFilled \<longleftrightarrow> orFilled a = orUnits a)
    \<and> orUnits b = orUnits a \<and> orFilled a \<le> orFilled b
    \<and> (orStatus a \<in> {StFilled, StCancelled, StPruned} \<longrightarrow> b = a)"
  using order_inv_reachable [OF assms(1)] order_step_inv [OF order_inv_reachable [OF assms(1)] assms(2)]
    order_step_progress [OF assms(2)]
  by (auto simp: order_inv_def)

theorem order_lifecycle_witness:
  "let a = \<lparr>orUnits = 5, orFilled = 0, orStatus = StOpen\<rparr>; b = \<lparr>orUnits = 5, orFilled = 5, orStatus = StFilled\<rparr>
   in orFilled b \<le> orUnits b \<and> orFilled a \<le> orFilled b"
proof -
  have a: "order_reachable \<lparr>orUnits = 5, orFilled = 0, orStatus = StOpen\<rparr>"
    by (rule order_reachable.placed [of 5]) (simp add: placeOrder_def)
  have b: "order_step \<lparr>orUnits = 5, orFilled = 0, orStatus = StOpen\<rparr> \<lparr>orUnits = 5, orFilled = 5, orStatus = StFilled\<rparr>"
    by (rule order_step.fill [of _ 5]) (simp add: fillOrder_def)
  show ?thesis unfolding Let_def using order_lifecycle [OF a b] by (elim conjE) (intro conjI)
qed

record replacement_candidate =
  rcOrderId :: int
  rcMaker :: address
  rcLongId :: int
  rcCancelledTx :: "string option"
  rcCancelledLogIndex :: "int option"
  rcReplacedBy :: "int option"
  rcStatus :: order_status

fun predecessor_loop :: "address \<Rightarrow> int \<Rightarrow> string \<Rightarrow> int \<Rightarrow> (int \<times> int) option \<Rightarrow> replacement_candidate list \<Rightarrow> (int \<times> int) option" where
  "predecessor_loop maker longId tx logIndex match [] = match"
| "predecessor_loop maker longId tx logIndex match (c # cs) =
     predecessor_loop maker longId tx logIndex
       (case rcCancelledLogIndex c of
          None \<Rightarrow> match
        | Some li \<Rightarrow>
            if rcStatus c \<noteq> StCancelled \<or> rcReplacedBy c \<noteq> None then match
            else if map_option lower (rcCancelledTx c) \<noteq> Some (lower tx) then match
            else if lower (rcMaker c) \<noteq> lower maker \<or> rcLongId c \<noteq> longId then match
            else if li \<ge> logIndex then match
            else case match of
                   None \<Rightarrow> Some (rcOrderId c, li)
                 | Some (_, best) \<Rightarrow> if li > best then Some (rcOrderId c, li) else match) cs"

definition replacementPredecessor :: "replacement_candidate list \<Rightarrow> address \<Rightarrow> int \<Rightarrow> string \<Rightarrow> int \<Rightarrow> int option" where
  "replacementPredecessor candidates maker longId tx logIndex =
     map_option fst (predecessor_loop maker longId tx logIndex None candidates)"

definition fillParties :: "'a \<Rightarrow> 'a \<Rightarrow> 'a \<Rightarrow> bool \<Rightarrow> 'a \<times> 'a" where
  "fillParties maker taker recipient takerIsBuyer = (if takerIsBuyer then (recipient, maker) else (maker, taker))"

subsection \<open>The settlement verdict\<close>

text \<open>
  \<open>recordedSources\<close> is a JSON object in a text column, parsed and printed by each event that touches
  it; the model keeps the object itself, a map from the source index to its record.
\<close>

datatype verdict_status = VdNone | VdPending | VdFinalized | VdHeld

record recorded_source =
  rdOk :: bool
  rdPrice :: int
  rdRecordedAt :: int

record settlement_state =
  slStatus :: verdict_status
  slPrice :: "int option"
  slSourceIndex :: "int option"
  slCorroborated :: "bool option"
  slCandidatePrice :: "int option"
  slCandidateSourceIndex :: "int option"
  slCandidateDisagreed :: "bool option"
  slCandidateAt :: "int option"
  slFinalizableAt :: "int option"
  slRecordedSources :: "(int \<times> recorded_source) list"
  slFinalizedAt :: "int option"
  slFinalizedTx :: "string option"
  slHeldAt :: "int option"

datatype oracle_event =
    SourceRecorded int bool int
  | SettlementCandidate int int bool int
  | SettlementFinalized int int bool string
  | SettlementResolved int string
  | SettlementVetoed
  | SettlementUnvetoed int

definition settlementId :: "address \<Rightarrow> int \<Rightarrow> string" where
  "settlementId underlying expiry = lower underlying @ ''-'' @ show_int expiry"

definition emptySettlement :: settlement_state where
  "emptySettlement = \<lparr>slStatus = VdNone, slPrice = None, slSourceIndex = None, slCorroborated = None,
     slCandidatePrice = None, slCandidateSourceIndex = None, slCandidateDisagreed = None, slCandidateAt = None,
     slFinalizableAt = None, slRecordedSources = [], slFinalizedAt = None, slFinalizedTx = None, slHeldAt = None\<rparr>"

definition finalize_verdict :: "settlement_state \<Rightarrow> int \<Rightarrow> int option \<Rightarrow> bool option \<Rightarrow> string \<Rightarrow> int \<Rightarrow> settlement_state" where
  "finalize_verdict current price sourceIndex corroborated tx t =
     current\<lparr>slStatus := VdFinalized, slPrice := Some price, slSourceIndex := sourceIndex, slCorroborated := corroborated,
       slCandidatePrice := None, slCandidateSourceIndex := None, slCandidateDisagreed := None, slCandidateAt := None,
       slFinalizableAt := None, slFinalizedAt := Some t, slFinalizedTx := Some tx, slHeldAt := None\<rparr>"

fun reduceOracle :: "settlement_state \<Rightarrow> oracle_event \<Rightarrow> int \<Rightarrow> settlement_state" where
  "reduceOracle current (SourceRecorded i ok price) t =
     current\<lparr>slRecordedSources := AList.update i \<lparr>rdOk = ok, rdPrice = price, rdRecordedAt = t\<rparr> (slRecordedSources current)\<rparr>"
| "reduceOracle current (SettlementCandidate price i disagreed finalizableAt) t =
     current\<lparr>slStatus := VdPending, slCandidatePrice := Some price, slCandidateSourceIndex := Some i,
       slCandidateDisagreed := Some disagreed, slCandidateAt := Some t, slFinalizableAt := Some finalizableAt, slHeldAt := None\<rparr>"
| "reduceOracle current (SettlementFinalized price i corroborated tx) t =
     finalize_verdict current price (Some i) (Some corroborated) tx t"
| "reduceOracle current (SettlementResolved price tx) t = finalize_verdict current price None None tx t"
| "reduceOracle current SettlementVetoed t = current\<lparr>slStatus := VdHeld, slHeldAt := Some t\<rparr>"
| "reduceOracle current (SettlementUnvetoed finalizableAt) t =
     current\<lparr>slStatus := VdPending, slCandidateAt := Some t, slFinalizableAt := Some finalizableAt, slHeldAt := None\<rparr>"

definition replay_oracle :: "(oracle_event \<times> int) list \<Rightarrow> settlement_state" where
  "replay_oracle tape = foldl (\<lambda>s (e, t). reduceOracle s e t) emptySettlement tape"

datatype series_status = SsOpen | SsCutoff | SsExpired | SsSettling | SsHeld | SsSettled

definition oracleSeriesStatus :: "series_status \<Rightarrow> verdict_status \<Rightarrow> series_status" where
  "oracleSeriesStatus current settlement =
     (if current = SsSettled then current
      else if settlement = VdHeld then SsHeld
      else if settlement = VdPending \<or> settlement = VdFinalized then SsSettling
      else current)"

definition seriesStatusOnVerdict :: "series_status \<Rightarrow> verdict_status option \<Rightarrow> int \<Rightarrow> int \<Rightarrow> series_status" where
  "seriesStatusOnVerdict current settlement expiry t =
     (if t < expiry \<and> (current = SsOpen \<or> current = SsCutoff) then current
      else case settlement of None \<Rightarrow> current | Some v \<Rightarrow> oracleSeriesStatus current v)"

definition verdict_inv :: "settlement_state \<Rightarrow> bool" where
  "verdict_inv s =
     ((slHeldAt s \<noteq> None \<longleftrightarrow> slStatus s = VdHeld)
      \<and> (slStatus s = VdFinalized \<longrightarrow> slPrice s \<noteq> None \<and> slFinalizedAt s \<noteq> None \<and> slFinalizedTx s \<noteq> None
           \<and> slCandidatePrice s = None \<and> slFinalizableAt s = None)
      \<and> (slStatus s = VdPending \<longrightarrow> slFinalizableAt s \<noteq> None \<and> slCandidateAt s \<noteq> None)
      \<and> (slStatus s = VdNone \<longrightarrow> slPrice s = None \<and> slCandidatePrice s = None))"

lemma verdict_inv_step: "verdict_inv s \<Longrightarrow> verdict_inv (reduceOracle s e t)"
  by (cases e) (auto simp: verdict_inv_def finalize_verdict_def)

text \<open>
  the verdict row is coherent after any tape of oracle events: a held mark exists exactly while it
  is held, a final one carries its price, time and transaction and no candidate, a pending one always
  says when it can be finalized; and a price once recorded survives every event but the next final one.
\<close>

theorem replay_oracle_coherent:
  "verdict_inv (replay_oracle tape)
   \<and> (slPrice (reduceOracle (replay_oracle tape) e t) \<noteq> slPrice (replay_oracle tape)
        \<longrightarrow> slStatus (reduceOracle (replay_oracle tape) e t) = VdFinalized)"
proof -
  have "verdict_inv s \<Longrightarrow> verdict_inv (foldl (\<lambda>s (e, t). reduceOracle s e t) s tape)" for s
    by (induction tape arbitrary: s) (auto intro: verdict_inv_step)
  then have "verdict_inv (replay_oracle tape)"
    by (simp add: replay_oracle_def verdict_inv_def emptySettlement_def)
  then show ?thesis by (cases e) (auto simp: finalize_verdict_def)
qed

theorem replay_oracle_coherent_witness:
  "slStatus (reduceOracle (replay_oracle []) (SettlementResolved 5 ''0x1'') 9) = VdFinalized"
proof -
  have "slPrice (reduceOracle (replay_oracle []) (SettlementResolved 5 ''0x1'') 9) \<noteq> slPrice (replay_oracle [])"
    by (simp add: replay_oracle_def emptySettlement_def finalize_verdict_def)
  then show ?thesis using replay_oracle_coherent [of "[]" "SettlementResolved 5 ''0x1''" 9] by blast
qed

text \<open>
  a verdict never hides a live market and never reopens a settled series: before expiry an open
  series stays open whatever the oracle says, and settled is final.
\<close>

theorem seriesStatusOnVerdict_safe:
  "(t < expiry \<longrightarrow> seriesStatusOnVerdict SsOpen v expiry t = SsOpen \<and> seriesStatusOnVerdict SsCutoff v expiry t = SsCutoff)
   \<and> seriesStatusOnVerdict SsSettled v expiry t = SsSettled
   \<and> (seriesStatusOnVerdict c v expiry t = SsSettled \<longrightarrow> c = SsSettled)"
  by (auto simp: seriesStatusOnVerdict_def oracleSeriesStatus_def split: option.splits if_splits)

theorem seriesStatusOnVerdict_safe_witness:
  "seriesStatusOnVerdict SsOpen (Some VdHeld) 100 50 = SsOpen"
  using seriesStatusOnVerdict_safe [of 50 100 "Some VdHeld" SsOpen] by simp

subsection \<open>Token movements\<close>

definition ZERO_ADDRESS_LC :: address where "ZERO_ADDRESS_LC = ''0x0000000000000000000000000000000000000000''"

datatype token_side = LongSide | ShortSide

definition positionId :: "int \<Rightarrow> int \<times> token_side" where
  "positionId tokenId = (tokenId AND NOT 1, if tokenId AND 1 = 0 then LongSide else ShortSide)"

definition balanceId :: "int \<Rightarrow> address \<Rightarrow> string" where
  "balanceId tokenId holder = show_int tokenId @ ''-'' @ lower holder"

definition ledgerId :: "address \<Rightarrow> address \<Rightarrow> string" where
  "ledgerId account asset = lower account @ ''-'' @ lower asset"

definition isWallet :: "address \<Rightarrow> address \<Rightarrow> bool" where
  "isWallet a escrow = (lower a \<noteq> ZERO_ADDRESS_LC \<and> lower a \<noteq> lower escrow)"

record token_transfer =
  ttFrom :: address
  ttTo :: address
  ttTokenId :: int
  ttUnits :: int

datatype ledger_error = NegativeTransfer | Underflow string int int

definition walletDeltas :: "token_transfer \<Rightarrow> address \<Rightarrow> ledger_error + (address \<times> int) list" where
  "walletDeltas transfer escrow =
     (if ttUnits transfer < 0 then Inl NegativeTransfer
      else if lower (ttFrom transfer) = lower (ttTo transfer) then Inr []
      else Inr ((if isWallet (ttFrom transfer) escrow then [(ttFrom transfer, - ttUnits transfer)] else [])
                @ (if isWallet (ttTo transfer) escrow then [(ttTo transfer, ttUnits transfer)] else [])))"

definition openInterestDelta :: "token_transfer \<Rightarrow> int" where
  "openInterestDelta transfer =
     (if snd (positionId (ttTokenId transfer)) = ShortSide then 0
      else if lower (ttFrom transfer) = ZERO_ADDRESS_LC \<and> lower (ttTo transfer) \<noteq> ZERO_ADDRESS_LC then ttUnits transfer
      else if lower (ttTo transfer) = ZERO_ADDRESS_LC \<and> lower (ttFrom transfer) \<noteq> ZERO_ADDRESS_LC then - ttUnits transfer
      else 0)"

definition addNonnegative :: "int \<Rightarrow> int \<Rightarrow> string \<Rightarrow> ledger_error + int" where
  "addNonnegative current delta label = (let next = current + delta in if next < 0 then Inl (Underflow label current delta) else Inr next)"

lemma positionId_side: "snd (positionId t) = LongSide \<longleftrightarrow> even t"
  by (simp add: positionId_def and_one_eq even_iff_mod_2_eq_zero)

text \<open>What the book's escrow gains by a transfer; the reducer stores wallets only.\<close>

definition escrow_delta :: "token_transfer \<Rightarrow> address \<Rightarrow> int" where
  "escrow_delta transfer escrow =
     (if lower (ttTo transfer) = lower escrow then ttUnits transfer else 0)
     - (if lower (ttFrom transfer) = lower escrow then ttUnits transfer else 0)"

text \<open>
  units are conserved by every movement of a long token: what the wallets gain plus what the
  book's escrow gains is what the open interest gains, mints, burns and self-transfers included.
\<close>

theorem walletDeltas_conserve:
  assumes "walletDeltas transfer escrow = Inr deltas" "even (ttTokenId transfer)" "lower escrow \<noteq> ZERO_ADDRESS_LC"
  shows "sum_list (map snd deltas) + escrow_delta transfer escrow = openInterestDelta transfer"
  using assms
  by (auto simp: walletDeltas_def openInterestDelta_def escrow_delta_def isWallet_def positionId_side [symmetric]
      split: if_splits)

theorem walletDeltas_conserve_witness:
  "let tr = \<lparr>ttFrom = ''0xaa'', ttTo = ''0xbb'', ttTokenId = 4, ttUnits = 7\<rparr>
   in sum_list (map snd [(''0xaa'', -7), (''0xbb'', 7 :: int)]) + escrow_delta tr ''0xcc'' = openInterestDelta tr"
  unfolding Let_def
  by (rule walletDeltas_conserve) (simp_all add: walletDeltas_def isWallet_def lower_def lower_char_def ZERO_ADDRESS_LC_def)

end
