(* ===== verification/BookView.thy ===== *)
theory BookView
  imports MintFee BookEvents
begin

section \<open>The aggregated book (indexer/lib/v2/book.ts)\<close>

text \<open>
  The two-sided book the API serves: which stored orders are executable now, how much of each write
  ask its maker's collateral still backs, and the price levels. The JSON operator flags of an account
  row are represented by the object they encode; everything that can raise is an error sum.
\<close>

record book_order =
  boOrderId :: int
  boMaker :: address
  boLongId :: int
  boKind :: book_kind
  boPrice :: int
  boUnits :: int
  boFilled :: int
  boValidUntil :: int
  boStatus :: order_status
  boPlacedAt :: int
  boPlacedBlock :: int

record book_series =
  bsLongId :: int
  bsIsPut :: bool
  bsStrike :: int
  bsMintCutoff :: int
  bsMintFeePpm :: int
  bsExpiry :: int
  bsStatus :: series_status

record fillable_order =
  flOrderId :: int
  flMaker :: address
  flKind :: book_kind
  flPrice :: int
  flUnits :: int
  flOnChainRemainingUnits :: int
  flMakerFreeUnits :: "int option"
  flMakerFreeCollateral :: "int option"
  flCollateralDecimals :: int
  flValidUntil :: int
  flPlacedAt :: int
  flPlacedBlock :: int

record book_level =
  blPrice :: int
  blUnits :: int
  blOrders :: "fillable_order list"

record aggregated_book =
  abBids :: "book_level list"
  abAsks :: "book_level list"
  abUpdatedBlock :: int
  abSnapshotTimestamp :: int

record book_input =
  biSeries :: book_series
  biOrders :: "book_order list"
  biFreeByMaker :: "(string \<times> int) list"
  biNow :: int
  biSnapshotTimestamp :: "int option"
  biMarketEnabled :: "bool option"
  biMintPaused :: "bool option"
  biTradingPaused :: "bool option"
  biBookIsMinter :: "bool option"
  biOperators :: "string list option"
  biDepth :: "int option"

datatype book_error = StrikeNotPositive | RentError rent_error

definition UNIT :: int where "UNIT = 10 ^ 16"
definition BOOK_UNITS_PER_SHARE :: int where "BOOK_UNITS_PER_SHARE = 100"

definition collateralPerUnit :: "bool \<Rightarrow> int \<Rightarrow> book_error + int" where
  "collateralPerUnit isPut strike =
     (if strike \<le> 0 then Inl StrikeNotPositive else Inr (if isPut then strike sdiv BOOK_UNITS_PER_SHARE else UNIT))"

definition makerKey :: "address \<Rightarrow> string" where "makerKey maker = lower maker"

definition compare :: "bool \<Rightarrow> fillable_order \<Rightarrow> fillable_order \<Rightarrow> int" where
  "compare descending a b =
     (if flPrice a \<noteq> flPrice b then
        (if flPrice a < flPrice b then (if descending then 1 else -1) else (if descending then -1 else 1))
      else if flPlacedBlock a \<noteq> flPlacedBlock b then (if flPlacedBlock a < flPlacedBlock b then -1 else 1)
      else if flPlacedAt a \<noteq> flPlacedAt b then (if flPlacedAt a < flPlacedAt b then -1 else 1)
      else if flOrderId a < flOrderId b then -1 else if flOrderId a > flOrderId b then 1 else 0)"

text \<open>The loop extends the last level or pushes a new one; \<open>out\<close> is held with its last level first.\<close>

fun levels_loop :: "fillable_order list \<Rightarrow> book_level list \<Rightarrow> book_level list" where
  "levels_loop [] out = rev out"
| "levels_loop (p # ps) [] = levels_loop ps [\<lparr>blPrice = flPrice p, blUnits = flUnits p, blOrders = [p]\<rparr>]"
| "levels_loop (p # ps) (l # out) =
     (if blPrice l = flPrice p
      then levels_loop ps (l\<lparr>blOrders := blOrders l @ [p], blUnits := blUnits l + flUnits p\<rparr> # out)
      else levels_loop ps (\<lparr>blPrice = flPrice p, blUnits = flUnits p, blOrders = [p]\<rparr> # l # out))"

definition levels :: "fillable_order list \<Rightarrow> bool \<Rightarrow> book_level list" where
  "levels orders descending = levels_loop (js_sort (compare descending) orders) []"

interpretation book_order: comparator "compare descending" for descending
  by unfold_locales (auto simp: compare_def split: if_splits)

subsection \<open>Which orders are executable\<close>

definition snapshot_of :: "book_input \<Rightarrow> int" where
  "snapshot_of input = or_else (biSnapshotTimestamp input) (biNow input)"

definition live_at :: "book_input \<Rightarrow> int" where
  "live_at input = (if biNow input > snapshot_of input then biNow input else snapshot_of input)"

text \<open>One order of the first loop: \<open>None\<close> is \<open>continue\<close>.\<close>

definition fillable_of :: "book_input \<Rightarrow> int \<Rightarrow> book_order \<Rightarrow> book_error + fillable_order option" where
  "fillable_of input cpu order =
     (let series = biSeries input; liveAt = live_at input
      in if boLongId order \<noteq> bsLongId series \<or> boStatus order \<noteq> StOpen \<or> boPrice order \<le> 0 then Inr None
         else let seriesDeadline = (if boKind order = BkAskWrite then bsMintCutoff series else bsExpiry series);
                  validUntil = (if boValidUntil order = 0 \<or> boValidUntil order > seriesDeadline then seriesDeadline
                                else boValidUntil order);
                  units = boUnits order - boFilled order;
                  fillable = \<lparr>flOrderId = boOrderId order, flMaker = boMaker order, flKind = boKind order,
                    flPrice = boPrice order, flUnits = units, flOnChainRemainingUnits = units,
                    flMakerFreeUnits = None, flMakerFreeCollateral = None,
                    flCollateralDecimals = (if bsIsPut series then 6 else 18), flValidUntil = validUntil,
                    flPlacedAt = boPlacedAt order, flPlacedBlock = boPlacedBlock order\<rparr>
              in if validUntil \<le> liveAt then Inr None
                 else if units \<le> 0 then Inr None
                 else if boKind order = BkAskWrite then
                   (if liveAt \<ge> bsMintCutoff series \<or> biMarketEnabled input = Some False \<or> biMintPaused input = Some True
                       \<or> biBookIsMinter input = Some False then Inr None
                    else if (case biOperators input of None \<Rightarrow> False | Some ops \<Rightarrow> makerKey (boMaker order) \<notin> set ops)
                      then Inr None
                    else let free = get_or (biFreeByMaker input) (makerKey (boMaker order)) 0
                         in case rentCapacity free cpu (bsMintFeePpm series) (bsExpiry series - snapshot_of input) MAX_UNITS of
                              Inl e \<Rightarrow> Inl (RentError e)
                            | Inr k \<Rightarrow>
                                if k \<le> 0 then Inr None
                                else Inr (Some (fillable\<lparr>flMakerFreeUnits := Some k, flMakerFreeCollateral := Some free\<rparr>)))
                 else Inr (Some fillable))"

record book_acc =
  acBids :: "fillable_order list"
  acAsks :: "fillable_order list"
  acWrites :: "fillable_order list"
  acUpdatedBlock :: int

definition bump_block :: "fillable_order \<Rightarrow> book_acc \<Rightarrow> book_acc" where
  "bump_block f acc = (if flPlacedBlock f > acUpdatedBlock acc then acc\<lparr>acUpdatedBlock := flPlacedBlock f\<rparr> else acc)"

fun book_loop :: "book_input \<Rightarrow> int \<Rightarrow> book_order list \<Rightarrow> book_acc \<Rightarrow> book_error + book_acc" where
  "book_loop input cpu [] acc = Inr acc"
| "book_loop input cpu (p # ps) acc =
     (case fillable_of input cpu p of
        Inl e \<Rightarrow> Inl e
      | Inr None \<Rightarrow> book_loop input cpu ps acc
      | Inr (Some f) \<Rightarrow>
          book_loop input cpu ps
            (if flKind f = BkAskWrite then acc\<lparr>acWrites := acWrites acc @ [f]\<rparr>
             else if flKind f = BkBid then bump_block f (acc\<lparr>acBids := acBids acc @ [f]\<rparr>)
             else bump_block f (acc\<lparr>acAsks := acAsks acc @ [f]\<rparr>)))"

subsection \<open>One collateral budget per writer\<close>

fun spend_loop :: "book_input \<Rightarrow> int \<Rightarrow> int \<Rightarrow> (string \<times> int) list \<Rightarrow> fillable_order list \<Rightarrow> book_acc \<Rightarrow> book_error + book_acc" where
  "spend_loop input cpu remaining left [] acc = Inr acc"
| "spend_loop input cpu remaining left (w # ws) acc =
     (let key = makerKey (flMaker w);
          ppm = bsMintFeePpm (biSeries input);
          free = (case map_of left key of Some v \<Rightarrow> v | None \<Rightarrow> get_or (biFreeByMaker input) key 0)
      in case rentCapacity free cpu ppm remaining MAX_UNITS of
           Inl e \<Rightarrow> Inl (RentError e)
         | Inr covered \<Rightarrow>
             let units = (if flUnits w < covered then flUnits w else covered)
             in if units \<le> 0 then spend_loop input cpu remaining left ws acc
                else case collateralWithRent units cpu ppm remaining of
                       Inl e \<Rightarrow> Inl (RentError e)
                     | Inr need \<Rightarrow>
                         spend_loop input cpu remaining (AList.update key (free - need) left) ws
                           (bump_block w (acc\<lparr>acAsks := acAsks acc @ [w\<lparr>flUnits := units\<rparr>]\<rparr>)))"

definition MAX_DEPTH :: int where "MAX_DEPTH = 9007199254740991"

definition aggregateBook :: "book_input \<Rightarrow> book_error + aggregated_book" where
  "aggregateBook input =
     (let series = biSeries input;
          emptyBook = \<lparr>abBids = [], abAsks = [], abUpdatedBlock = 0, abSnapshotTimestamp = snapshot_of input\<rparr>
      in if (bsStatus series \<noteq> SsOpen \<and> bsStatus series \<noteq> SsCutoff) \<or> live_at input \<ge> bsExpiry series
            \<or> biTradingPaused input = Some True then Inr emptyBook
         else case collateralPerUnit (bsIsPut series) (bsStrike series) of
           Inl e \<Rightarrow> Inl e
         | Inr cpu \<Rightarrow>
             (case book_loop input cpu (biOrders input) \<lparr>acBids = [], acAsks = [], acWrites = [], acUpdatedBlock = 0\<rparr> of
                Inl e \<Rightarrow> Inl e
              | Inr acc \<Rightarrow>
                  (case spend_loop input cpu (bsExpiry series - snapshot_of input) []
                          (js_sort (compare False) (acWrites acc)) acc of
                     Inl e \<Rightarrow> Inl e
                   | Inr acc2 \<Rightarrow>
                       let depth = (case biDepth input of None \<Rightarrow> MAX_DEPTH | Some d \<Rightarrow> max 0 d)
                       in Inr \<lparr>abBids = slice0 (levels (acBids acc2) True) depth,
                               abAsks = slice0 (levels (acAsks acc2) False) depth,
                               abUpdatedBlock = acUpdatedBlock acc2, abSnapshotTimestamp = snapshot_of input\<rparr>)))"

definition writeGatesFromRows ::
  "address option \<Rightarrow> (address \<times> bool) list \<Rightarrow> (address \<times> (string \<times> bool) list) list \<Rightarrow> bool \<times> string list" where
  "writeGatesFromRows orderBook minterRows accountRows =
     (case orderBook of
        None \<Rightarrow> (False, [])
      | Some b \<Rightarrow>
          let book = lower b
          in (list_ex (\<lambda>(minter, allowed). lower minter = book \<and> allowed) minterRows,
              js_set (map (\<lambda>(account, flags). makerKey account)
                        (filter (\<lambda>(account, flags). map_of flags book = Some True) accountRows))))"

definition totalUnits :: "book_level list \<Rightarrow> int" where
  "totalUnits ls = foldl (\<lambda>s l. s + blUnits l) 0 ls"

text \<open>The fair value's \<open>iv\<close> and \<open>delta\<close> are copied through; their type is a parameter.\<close>

record 'n book_quote =
  bqBestBid :: "int option"
  bqBestAsk :: "int option"
  bqBidUnits :: int
  bqAskUnits :: int
  bqBestBidUnits :: int
  bqBestAskUnits :: int
  bqFair :: "int option"
  bqIv :: "'n option"
  bqDelta :: "'n option"
  bqLast :: "int option"

definition first_level :: "book_level list \<Rightarrow> book_level option" where
  "first_level ls = (case ls of [] \<Rightarrow> None | l # _ \<Rightarrow> Some l)"

definition quoteFromBook :: "aggregated_book \<Rightarrow> int option \<Rightarrow> (int \<times> 'n \<times> 'n) option \<Rightarrow> 'n book_quote" where
  "quoteFromBook book lastTrade fair =
     \<lparr>bqBestBid = map_option blPrice (first_level (abBids book)),
      bqBestAsk = map_option blPrice (first_level (abAsks book)),
      bqBidUnits = totalUnits (abBids book), bqAskUnits = totalUnits (abAsks book),
      bqBestBidUnits = or_else (map_option blUnits (first_level (abBids book))) 0,
      bqBestAskUnits = or_else (map_option blUnits (first_level (abAsks book))) 0,
      bqFair = map_option fst fair, bqIv = map_option (fst \<circ> snd) fair, bqDelta = map_option (snd \<circ> snd) fair,
      bqLast = lastTrade\<rparr>"

subsection \<open>Levels\<close>

definition ahead :: "bool \<Rightarrow> int \<Rightarrow> int \<Rightarrow> bool" where
  "ahead descending a b = (if descending then b < a else a < b)"

lemma ahead_trans: "ahead d a b \<Longrightarrow> ahead d b c \<Longrightarrow> ahead d a c"
  by (auto simp: ahead_def split: if_splits)

definition level_ok :: "book_level \<Rightarrow> bool" where
  "level_ok l = (blUnits l = sum_list (map flUnits (blOrders l)) \<and> blOrders l \<noteq> []
     \<and> list_all (\<lambda>p. flPrice p = blPrice l) (blOrders l))"

lemma levels_orders: "concat (map blOrders (levels_loop ps out)) = concat (map blOrders (rev out)) @ ps"
  by (induction ps out rule: levels_loop.induct) auto

lemma levels_level_ok: "list_all level_ok out \<Longrightarrow> list_all level_ok (levels_loop ps out)"
  by (induction ps out rule: levels_loop.induct) (auto simp: level_ok_def)

lemma levels_strict:
  assumes "sorted_wrt (\<lambda>a b. \<not> ahead d (flPrice b) (flPrice a)) ps"
    and "sorted_wrt (\<lambda>a b. ahead d (blPrice b) (blPrice a)) out"
    and "\<And>l p. out \<noteq> [] \<Longrightarrow> l = hd out \<Longrightarrow> p \<in> set ps \<Longrightarrow> \<not> ahead d (flPrice p) (blPrice l)"
  shows "sorted_wrt (\<lambda>a b. ahead d (blPrice a) (blPrice b)) (levels_loop ps out)"
  using assms
proof (induction ps out rule: levels_loop.induct)
  case (1 out)
  then show ?case by (simp add: sorted_wrt_rev)
next
  case (2 p ps)
  then show ?case by simp
next
  case (3 p ps l out)
  show ?case
  proof (cases "blPrice l = flPrice p")
    case True
    with 3 show ?thesis by simp
  next
    case False
    then have "ahead d (blPrice l) (flPrice p)"
      using "3.prems"(3) [of l p] by (auto simp: ahead_def split: if_splits)
    then have "sorted_wrt (\<lambda>a b. ahead d (blPrice b) (blPrice a))
        (\<lparr>blPrice = flPrice p, blUnits = flUnits p, blOrders = [p]\<rparr> # l # out)"
      using "3.prems"(2) by (auto intro: ahead_trans)
    with False 3 show ?thesis by simp
  qed
qed

lemma compare_price: "compare d a b \<le> 0 \<Longrightarrow> \<not> ahead d (flPrice b) (flPrice a)"
  by (auto simp: compare_def ahead_def split: if_splits)

lemma sorted_wrt_weaken: "sorted_wrt P xs \<Longrightarrow> (\<And>a b. P a b \<Longrightarrow> Q a b) \<Longrightarrow> sorted_wrt Q xs"
  by (rule sorted_wrt_mono_rel)

lemma level_orders: "concat (map blOrders (levels os d)) = js_sort (compare d) os"
  by (simp add: levels_def levels_orders)

text \<open>
  price-time priority. The levels of a side hold exactly its orders, sorted by price, then block,
  time and id; no two levels share a price, the best comes first, and a level's units are the sum of
  its orders'.
\<close>

theorem levels_priority:
  "concat (map blOrders (levels os d)) = js_sort (compare d) os
   \<and> sorted_wrt (\<lambda>a b. compare d a b \<le> 0) (concat (map blOrders (levels os d)))
   \<and> sorted_wrt (\<lambda>a b. ahead d (blPrice a) (blPrice b)) (levels os d)
   \<and> list_all level_ok (levels os d)"
proof -
  have s: "sorted_wrt (\<lambda>a b. compare d a b \<le> 0) (js_sort (compare d) os)" by (rule book_order.sort_sorted)
  then have "sorted_wrt (\<lambda>a b. \<not> ahead d (flPrice b) (flPrice a)) (js_sort (compare d) os)"
    by (rule sorted_wrt_weaken) (rule compare_price)
  then have "sorted_wrt (\<lambda>a b. ahead d (blPrice a) (blPrice b)) (levels os d)"
    unfolding levels_def by (rule levels_strict) simp_all
  moreover have "list_all level_ok (levels os d)" unfolding levels_def by (rule levels_level_ok) simp
  ultimately show ?thesis using s by (simp add: level_orders)
qed

subsection \<open>What a writer's collateral backs\<close>

definition write_need :: "book_input \<Rightarrow> fillable_order \<Rightarrow> int" where
  "write_need input a =
     (case collateralPerUnit (bsIsPut (biSeries input)) (bsStrike (biSeries input)) of
        Inl _ \<Rightarrow> 0
      | Inr cpu \<Rightarrow> (case collateralWithRent (flUnits a) cpu (bsMintFeePpm (biSeries input))
                        (bsExpiry (biSeries input) - snapshot_of input) of Inl _ \<Rightarrow> 0 | Inr n \<Rightarrow> n))"

definition writer_need :: "book_input \<Rightarrow> string \<Rightarrow> fillable_order list \<Rightarrow> int" where
  "writer_need input k asks =
     sum_list (map (write_need input) (filter (\<lambda>a. flKind a = BkAskWrite \<and> makerKey (flMaker a) = k) asks))"

lemma writer_need_append [simp]: "writer_need input k (xs @ ys) = writer_need input k xs + writer_need input k ys"
  by (simp add: writer_need_def)

definition left_of :: "book_input \<Rightarrow> (string \<times> int) list \<Rightarrow> string \<Rightarrow> int" where
  "left_of input left k = (case map_of left k of Some v \<Rightarrow> v | None \<Rightarrow> get_or (biFreeByMaker input) k 0)"

lemma bump_asks [simp]: "acAsks (bump_block f acc) = acAsks acc" "acBids (bump_block f acc) = acBids acc"
  "acWrites (bump_block f acc) = acWrites acc"
  by (simp_all add: bump_block_def)

lemma spend_loop_budget:
  assumes "collateralPerUnit (bsIsPut (biSeries input)) (bsStrike (biSeries input)) = Inr cpu"
    and "spend_loop input cpu (bsExpiry (biSeries input) - snapshot_of input) left ws acc = Inr acc2"
    and "list_all (\<lambda>w. flKind w = BkAskWrite) ws"
  shows "writer_need input k (acAsks acc2) \<le> writer_need input k (acAsks acc) + max 0 (left_of input left k)"
  using assms(2,3)
proof (induction ws arbitrary: left acc)
  case (Cons w ws)
  let ?rem = "bsExpiry (biSeries input) - snapshot_of input" and ?ppm = "bsMintFeePpm (biSeries input)"
  let ?key = "makerKey (flMaker w)"
  have free: "(case map_of left ?key of Some v \<Rightarrow> v | None \<Rightarrow> get_or (biFreeByMaker input) ?key 0) = left_of input left ?key"
    by (simp add: left_of_def)
  from Cons.prems obtain covered where cov: "rentCapacity (left_of input left ?key) cpu ?ppm ?rem MAX_UNITS = Inr covered"
    by (auto simp: Let_def free split: sum.splits)
  let ?units = "if flUnits w < covered then flUnits w else covered"
  show ?case
  proof (cases "?units \<le> 0")
    case True
    with Cons.prems cov have "spend_loop input cpu ?rem left ws acc = Inr acc2" by (simp add: Let_def free)
    with Cons show ?thesis by simp
  next
    case False
    then have "0 < ?units" "?units \<le> covered" by (simp_all only: not_le) simp
    then obtain m where m: "collateralWithRent ?units cpu ?ppm ?rem = Inr m" "0 \<le> m" "m \<le> left_of input left ?key"
      using rentCapacity_affordable [OF cov] by blast
    let ?left = "AList.update ?key (left_of input left ?key - m) left"
    let ?acc = "bump_block w (acc\<lparr>acAsks := acAsks acc @ [w\<lparr>flUnits := ?units\<rparr>]\<rparr>)"
    have "spend_loop input cpu ?rem ?left ws ?acc = Inr acc2"
      using Cons.prems cov m(1) False by (simp add: Let_def free)
    then have IH: "writer_need input k (acAsks acc2) \<le> writer_need input k (acAsks ?acc) + max 0 (left_of input ?left k)"
      by (rule Cons.IH) (use Cons.prems(2) in simp)
    have "write_need input (w\<lparr>flUnits := ?units\<rparr>) = m" using assms(1) m(1) by (simp add: write_need_def)
    then have "writer_need input k (acAsks ?acc) = writer_need input k (acAsks acc) + (if ?key = k then m else 0)"
      using Cons.prems(2) by (simp add: writer_need_def)
    moreover have "left_of input ?left k = (if ?key = k then left_of input left k - m else left_of input left k)"
      by (auto simp: left_of_def)
    ultimately show ?thesis using IH m(2,3) by (auto split: if_splits)
  qed
qed simp

lemma book_loop_kinds:
  "book_loop input cpu ps acc = Inr acc2 \<Longrightarrow> list_all (\<lambda>w. flKind w = BkAskWrite) (acWrites acc) \<Longrightarrow>
     list_all (\<lambda>w. flKind w \<noteq> BkAskWrite) (acAsks acc) \<Longrightarrow>
     list_all (\<lambda>w. flKind w = BkAskWrite) (acWrites acc2) \<and> list_all (\<lambda>w. flKind w \<noteq> BkAskWrite) (acAsks acc2)"
  by (induction ps arbitrary: acc) (auto split: sum.splits option.splits)

lemma writer_need_nonneg:
  "(\<And>a. a \<in> set asks \<Longrightarrow> 0 \<le> write_need input a) \<Longrightarrow> 0 \<le> writer_need input k asks"
  unfolding writer_need_def by (rule sum_list_nonneg_map) simp

lemma mintRent_nonneg: "mintRent c p r = Inr m \<Longrightarrow> 0 \<le> m"
proof -
  assume m: "mintRent c p r = Inr m"
  then have "0 \<le> c" "0 \<le> p" "p \<le> MINT_FEE_CEIL_PPM" by (auto simp: mintRent_def split: if_splits)
  then show ?thesis using m mintRent_mintFee [of c p r] by auto
qed

lemma collateralWithRent_nonneg: "collateralWithRent n c p r = Inr m \<Longrightarrow> 0 \<le> m"
  by (auto simp: collateralWithRent_def Let_def not_less split: if_splits sum.splits dest!: mintRent_nonneg
      intro!: add_nonneg_nonneg mult_nonneg_nonneg)

lemma write_need_nonneg: "0 \<le> write_need input a"
  by (auto simp: write_need_def split: sum.splits dest: collateralWithRent_nonneg)

lemma writer_need_mset: "mset xs = mset ys \<Longrightarrow> writer_need input k xs = writer_need input k ys"
  unfolding writer_need_def by (simp only: sum_mset_sum_list [symmetric] mset_map mset_filter)

lemma slice_prefix: "0 \<le> n \<Longrightarrow> \<exists>rest. concat (map f ls) = concat (map f (slice0 ls n)) @ rest"
proof -
  assume "0 \<le> n"
  then have "ls = slice0 ls n @ drop (nat n) ls" by (simp add: slice0_def)
  then have "concat (map f ls) = concat (map f (slice0 ls n)) @ concat (map f (drop (nat n) ls))"
    by (metis concat_append map_append)
  then show ?thesis by blast
qed

definition listed_asks :: "aggregated_book \<Rightarrow> fillable_order list" where
  "listed_asks book = concat (map blOrders (abAsks book))"

lemma aggregate_asks:
  assumes "aggregateBook input = Inr book"
  shows "listed_asks book = [] \<or> (\<exists>cpu acc acc2 rest. collateralPerUnit (bsIsPut (biSeries input)) (bsStrike (biSeries input)) = Inr cpu
    \<and> book_loop input cpu (biOrders input) \<lparr>acBids = [], acAsks = [], acWrites = [], acUpdatedBlock = 0\<rparr> = Inr acc
    \<and> spend_loop input cpu (bsExpiry (biSeries input) - snapshot_of input) [] (js_sort (compare False) (acWrites acc)) acc = Inr acc2
    \<and> js_sort (compare False) (acAsks acc2) = listed_asks book @ rest)"
proof -
  have n: "0 \<le> (case biDepth input of None \<Rightarrow> MAX_DEPTH | Some d \<Rightarrow> max 0 d)"
    by (simp add: MAX_DEPTH_def split: option.splits)
  have sl: "\<exists>rest. js_sort (compare False) os = concat (map blOrders (slice0 (levels os False)
      (case biDepth input of None \<Rightarrow> MAX_DEPTH | Some d \<Rightarrow> max 0 d))) @ rest" for os
    using slice_prefix [OF n, of blOrders "levels os False"] by (simp add: level_orders)
  show ?thesis
    using assms sl unfolding aggregateBook_def listed_asks_def Let_def
    by (auto split: if_splits sum.splits)
qed

text \<open>
  C23: a writer's collateral backs its asks once. In every aggregated book the listed write asks of one
  maker, taken together with the rent each fill pays, never need more than the maker's free balance.
\<close>

theorem aggregateBook_one_budget:
  assumes "aggregateBook input = Inr book"
  shows "writer_need input k (listed_asks book) \<le> max 0 (get_or (biFreeByMaker input) k 0)"
  using aggregate_asks [OF assms]
proof
  assume "listed_asks book = []"
  then show ?thesis by (simp add: writer_need_def)
next
  assume "\<exists>cpu acc acc2 rest. collateralPerUnit (bsIsPut (biSeries input)) (bsStrike (biSeries input)) = Inr cpu
    \<and> book_loop input cpu (biOrders input) \<lparr>acBids = [], acAsks = [], acWrites = [], acUpdatedBlock = 0\<rparr> = Inr acc
    \<and> spend_loop input cpu (bsExpiry (biSeries input) - snapshot_of input) [] (js_sort (compare False) (acWrites acc)) acc = Inr acc2
    \<and> js_sort (compare False) (acAsks acc2) = listed_asks book @ rest"
  then obtain cpu acc acc2 rest where cpu: "collateralPerUnit (bsIsPut (biSeries input)) (bsStrike (biSeries input)) = Inr cpu"
    and bl: "book_loop input cpu (biOrders input) \<lparr>acBids = [], acAsks = [], acWrites = [], acUpdatedBlock = 0\<rparr> = Inr acc"
    and sp: "spend_loop input cpu (bsExpiry (biSeries input) - snapshot_of input) [] (js_sort (compare False) (acWrites acc)) acc = Inr acc2"
    and asks: "js_sort (compare False) (acAsks acc2) = listed_asks book @ rest" by blast
  have kinds: "list_all (\<lambda>w. flKind w = BkAskWrite) (acWrites acc)" "list_all (\<lambda>w. flKind w \<noteq> BkAskWrite) (acAsks acc)"
    using book_loop_kinds [OF bl] by simp_all
  have "writer_need input k (acAsks acc2) \<le> writer_need input k (acAsks acc) + max 0 (left_of input [] k)"
    by (rule spend_loop_budget [OF cpu sp]) (use kinds(1) in \<open>simp add: list_all_iff\<close>)
  also have "writer_need input k (acAsks acc) = 0"
    using kinds(2) by (simp add: writer_need_def list_all_iff filter_empty_conv [THEN iffD2])
  finally have "writer_need input k (acAsks acc2) \<le> max 0 (get_or (biFreeByMaker input) k 0)" by (simp add: left_of_def)
  moreover have "writer_need input k (acAsks acc2) = writer_need input k (listed_asks book @ rest)"
    by (rule writer_need_mset) (simp flip: asks)
  ultimately show ?thesis using writer_need_nonneg [of rest input k] write_need_nonneg by simp
qed

definition sample_input :: book_input where
  "sample_input = \<lparr>biSeries = \<lparr>bsLongId = 2, bsIsPut = True, bsStrike = 100, bsMintCutoff = 900, bsMintFeePpm = 0, bsExpiry = 1000,
       bsStatus = SsOpen\<rparr>,
     biOrders = [\<lparr>boOrderId = 1, boMaker = ''0xA'', boLongId = 2, boKind = BkAskWrite, boPrice = 500, boUnits = 3, boFilled = 0,
       boValidUntil = 0, boStatus = StOpen, boPlacedAt = 10, boPlacedBlock = 5\<rparr>],
     biFreeByMaker = [(''0xa'', 2)], biNow = 100, biSnapshotTimestamp = None, biMarketEnabled = None, biMintPaused = None,
     biTradingPaused = None, biBookIsMinter = None, biOperators = None, biDepth = Some 5\<rparr>"

theorem aggregateBook_one_budget_witness:
  "\<exists>book. aggregateBook sample_input = Inr book \<and> writer_need sample_input ''0xa'' (listed_asks book) \<le> 2
     \<and> length (listed_asks book) = 1"
proof -
  have "case aggregateBook sample_input of Inl _ \<Rightarrow> False | Inr book \<Rightarrow> length (listed_asks book) = 1" by code_simp
  then obtain book where b: "aggregateBook sample_input = Inr book" "length (listed_asks book) = 1"
    by (auto split: sum.splits)
  have "max 0 (get_or (biFreeByMaker sample_input) ''0xa'' 0) = 2" by (simp add: sample_input_def get_or_def)
  with aggregateBook_one_budget [OF b(1), of "''0xa''"] b show ?thesis by (intro exI [of _ book]) simp
qed

subsection \<open>Everything listed is executable\<close>

definition stands_for :: "book_input \<Rightarrow> fillable_order \<Rightarrow> book_order \<Rightarrow> bool" where
  "stands_for input f p =
     (flOrderId f = boOrderId p \<and> flMaker f = boMaker p \<and> flKind f = boKind p \<and> flPrice f = boPrice p
      \<and> 0 < flUnits f \<and> flUnits f \<le> boUnits p - boFilled p
      \<and> boLongId p = bsLongId (biSeries input) \<and> boStatus p = StOpen \<and> 0 < boPrice p
      \<and> live_at input < bsExpiry (biSeries input) \<and> (boValidUntil p = 0 \<or> live_at input < boValidUntil p)
      \<and> (boKind p = BkAskWrite \<longrightarrow> live_at input < bsMintCutoff (biSeries input)
           \<and> biMarketEnabled input \<noteq> Some False \<and> biMintPaused input \<noteq> Some True \<and> biBookIsMinter input \<noteq> Some False))"

lemma fillable_of_stands:
  assumes "fillable_of input cpu p = Inr (Some f)" "live_at input < bsExpiry (biSeries input)"
  shows "stands_for input f p"
  using assms
  by (auto simp: fillable_of_def stands_for_def Let_def split: if_splits sum.splits option.splits)

definition all_stand :: "book_input \<Rightarrow> book_order list \<Rightarrow> fillable_order list \<Rightarrow> bool" where
  "all_stand input ps fs = list_all (\<lambda>f. \<exists>p \<in> set ps. stands_for input f p) fs"

lemma all_stand_append [simp]: "all_stand input ps (xs @ ys) = (all_stand input ps xs \<and> all_stand input ps ys)"
  by (simp add: all_stand_def)

lemma book_loop_stands:
  assumes "live_at input < bsExpiry (biSeries input)"
  shows "book_loop input cpu ps acc = Inr acc2 \<Longrightarrow> set ps \<subseteq> set all \<Longrightarrow>
     all_stand input all (acBids acc @ acAsks acc @ acWrites acc) \<Longrightarrow>
     all_stand input all (acBids acc2 @ acAsks acc2 @ acWrites acc2)"
proof (induction ps arbitrary: acc)
  case (Cons p ps)
  show ?case
  proof (cases "fillable_of input cpu p")
    case (Inr r)
    show ?thesis
    proof (cases r)
      case None
      with Inr Cons show ?thesis by simp
    next
      case (Some f)
      then have "stands_for input f p" using Inr assms by (auto intro: fillable_of_stands)
      then have "all_stand input all [f]" using Cons.prems(2) by (auto simp: all_stand_def)
      with Inr Some Cons.prems show ?thesis
        by (intro Cons.IH [of "if flKind f = BkAskWrite then acc\<lparr>acWrites := acWrites acc @ [f]\<rparr>
             else if flKind f = BkBid then bump_block f (acc\<lparr>acBids := acBids acc @ [f]\<rparr>)
             else bump_block f (acc\<lparr>acAsks := acAsks acc @ [f]\<rparr>)"]) auto
    qed
  qed (use Cons in simp)
qed simp

lemma stands_shrink:
  "all_stand input all [w] \<Longrightarrow> 0 < u \<Longrightarrow> u \<le> flUnits w \<Longrightarrow> all_stand input all [w\<lparr>flUnits := u\<rparr>]"
proof -
  assume a: "all_stand input all [w]" "0 < u" "u \<le> flUnits w"
  then obtain p where "p \<in> set all" "stands_for input w p" by (auto simp: all_stand_def)
  moreover from this a have "stands_for input (w\<lparr>flUnits := u\<rparr>) p" by (simp add: stands_for_def)
  ultimately show ?thesis by (auto simp: all_stand_def)
qed

lemma spend_loop_step:
  assumes "spend_loop input cpu rem left (w # ws) acc = Inr acc2"
  shows "\<exists>left' acc'. spend_loop input cpu rem left' ws acc' = Inr acc2
    \<and> (acc' = acc \<or> (\<exists>u. 0 < u \<and> u \<le> flUnits w \<and> acc' = bump_block w (acc\<lparr>acAsks := acAsks acc @ [w\<lparr>flUnits := u\<rparr>]\<rparr>)))"
proof -
  define free where "free = (case map_of left (makerKey (flMaker w)) of Some v \<Rightarrow> v
    | None \<Rightarrow> get_or (biFreeByMaker input) (makerKey (flMaker w)) 0)"
  obtain covered where cov: "rentCapacity free cpu (bsMintFeePpm (biSeries input)) rem MAX_UNITS = Inr covered"
    using assms by (auto simp: Let_def free_def split: sum.splits)
  define u where "u = (if flUnits w < covered then flUnits w else covered)"
  show ?thesis
  proof (cases "u \<le> 0")
    case True
    then have "spend_loop input cpu rem left ws acc = Inr acc2"
      using assms cov by (simp add: Let_def free_def [symmetric] u_def [symmetric])
    then show ?thesis by blast
  next
    case False
    then obtain need where "collateralWithRent u cpu (bsMintFeePpm (biSeries input)) rem = Inr need"
      using assms cov by (auto simp: Let_def free_def [symmetric] u_def [symmetric] split: sum.splits)
    then have "spend_loop input cpu rem (AList.update (makerKey (flMaker w)) (free - need) left) ws
        (bump_block w (acc\<lparr>acAsks := acAsks acc @ [w\<lparr>flUnits := u\<rparr>]\<rparr>)) = Inr acc2"
      using False assms cov by (simp add: Let_def free_def [symmetric] u_def [symmetric])
    moreover have "0 < u" "u \<le> flUnits w" using False by (simp_all add: u_def)
    ultimately show ?thesis by blast
  qed
qed

lemma spend_loop_stands:
  "spend_loop input cpu rem left ws acc = Inr acc2 \<Longrightarrow> all_stand input all ws \<Longrightarrow>
     all_stand input all (acAsks acc) \<Longrightarrow> all_stand input all (acAsks acc2) \<and> acBids acc2 = acBids acc"
proof (induction ws arbitrary: left acc)
  case (Cons w ws)
  have w: "all_stand input all [w]" "all_stand input all ws" using Cons.prems(2) by (simp_all add: all_stand_def)
  have "\<exists>left' acc'. spend_loop input cpu rem left' ws acc' = Inr acc2
      \<and> (acc' = acc \<or> (\<exists>u. 0 < u \<and> u \<le> flUnits w \<and> acc' = bump_block w (acc\<lparr>acAsks := acAsks acc @ [w\<lparr>flUnits := u\<rparr>]\<rparr>)))"
    using Cons.prems(1) by (rule spend_loop_step)
  then obtain left' acc' where rest: "spend_loop input cpu rem left' ws acc' = Inr acc2"
    and acc': "acc' = acc \<or> (\<exists>u. 0 < u \<and> u \<le> flUnits w \<and> acc' = bump_block w (acc\<lparr>acAsks := acAsks acc @ [w\<lparr>flUnits := u\<rparr>]\<rparr>))"
    by blast
  have "all_stand input all (acAsks acc') \<and> acBids acc' = acBids acc"
    using acc' w(1) Cons.prems(3) by (auto intro: stands_shrink)
  then show ?case using Cons.IH [OF rest w(2)] by simp
qed simp

text \<open>
  the book never shows depth that is not there. Every listed order is an open stored order of the
  series, at its price, with at least one and at most its remaining units, still valid now; and a
  write ask is listed only before the mint cutoff on an enabled, unpaused market.
\<close>

theorem aggregateBook_executable:
  assumes "aggregateBook input = Inr book"
  shows "\<forall>f \<in> set (concat (map blOrders (abBids book)) @ concat (map blOrders (abAsks book))).
    \<exists>p \<in> set (biOrders input). stands_for input f p"
proof (cases "(bsStatus (biSeries input) \<noteq> SsOpen \<and> bsStatus (biSeries input) \<noteq> SsCutoff)
    \<or> live_at input \<ge> bsExpiry (biSeries input) \<or> biTradingPaused input = Some True")
  case True
  then show ?thesis using assms by (auto simp: aggregateBook_def Let_def)
next
  case False
  let ?init = "\<lparr>acBids = [], acAsks = [], acWrites = [], acUpdatedBlock = 0\<rparr>"
  let ?depth = "case biDepth input of None \<Rightarrow> MAX_DEPTH | Some d \<Rightarrow> max 0 d"
  from assms False obtain cpu acc acc2 where
    bl: "book_loop input cpu (biOrders input) ?init = Inr acc"
    and sp: "spend_loop input cpu (bsExpiry (biSeries input) - snapshot_of input) [] (js_sort (compare False) (acWrites acc)) acc = Inr acc2"
    and book: "abBids book = slice0 (levels (acBids acc2) True) ?depth" "abAsks book = slice0 (levels (acAsks acc2) False) ?depth"
    by (auto simp: aggregateBook_def Let_def split: sum.splits)
  have "all_stand input (biOrders input) (acBids acc @ acAsks acc @ acWrites acc)"
    using False by (intro book_loop_stands [OF _ bl]) (auto simp: all_stand_def)
  then have s: "all_stand input (biOrders input) (acAsks acc2)" "all_stand input (biOrders input) (acBids acc2)"
    using spend_loop_stands [OF sp, of "biOrders input"] by (auto simp: all_stand_def list_all_iff)
  have "set (concat (map blOrders (slice0 (levels os d) n))) \<subseteq> set os" for os d n
  proof -
    have "set (concat (map blOrders (slice0 (levels os d) n))) \<subseteq> set (concat (map blOrders (levels os d)))"
      using set_slice0 [of "levels os d" n] by auto
    then show ?thesis by (simp add: level_orders)
  qed
  then show ?thesis using s by (fastforce simp: book all_stand_def list_all_iff)
qed

theorem aggregateBook_executable_witness:
  "\<exists>book f p. aggregateBook sample_input = Inr book \<and> concat (map blOrders (abAsks book)) = [f]
     \<and> stands_for sample_input f p \<and> p \<in> set (biOrders sample_input)"
proof -
  have "case aggregateBook sample_input of Inl _ \<Rightarrow> False | Inr book \<Rightarrow> length (concat (map blOrders (abAsks book))) = 1" by code_simp
  then obtain book where b: "aggregateBook sample_input = Inr book" "length (concat (map blOrders (abAsks book))) = 1"
    by (auto split: sum.splits)
  then obtain f where "concat (map blOrders (abAsks book)) = [f]" by (metis One_nat_def length_0_conv length_Suc_conv)
  with aggregateBook_executable [OF b(1)] b show ?thesis by (intro exI [of _ book] exI [of _ f]) auto
qed

end
