(* ===== verification/MakerScoring.thy ===== *)
theory MakerScoring
  imports BookView
begin

section \<open>Maker scoring (indexer/lib/v2/makerScoring.ts)\<close>

text \<open>
  How a maker's quotes are sampled against a reference price, how an epoch row averages its samples,
  and how the rows of an epoch are ranked and scored. A raised \<open>RangeError\<close> is the error of the sum.
\<close>

datatype score_error = InvalidFair | InvalidBand | NegativeTime | NotMonday | NegativeIndex | OtherPolicy

definition DAY :: int where "DAY = 86400"
definition WEEK :: int where "WEEK = 7 * DAY"
definition SCORE_BPS :: int where "SCORE_BPS = 10000"
definition SCORE_PPM :: int where "SCORE_PPM = 1000000"
definition MIN_RESTING_ORDERS :: int where "MIN_RESTING_ORDERS = 2"
definition DEPTH_BAND_BPS :: int where "DEPTH_BAND_BPS = 100"
definition MAKER_BENCHMARK_POLICY :: int where "MAKER_BENCHMARK_POLICY = 2"

record scoring_band =
  sbBps :: int
  sbMinUsdg :: usdg6

record score_weights =
  swUptime :: int
  swDepth :: int
  swSpread :: int
  swVolume :: int

record scoring_policy =
  spVersion :: int
  spBand :: scoring_band
  spWeights :: score_weights

definition MAKER_SCORING_POLICY :: scoring_policy where
  "MAKER_SCORING_POLICY =
     \<lparr>spVersion = 1, spBand = \<lparr>sbBps = 1000, sbMinUsdg = 20000\<rparr>,
      spWeights = \<lparr>swUptime = 50, swDepth = 30, swSpread = 20, swVolume = 0\<rparr>\<rparr>"

text \<open>The check at load: a set of weights that does not sum to 100 is refused.\<close>

definition WEIGHT_TOTAL :: int where
  "WEIGHT_TOTAL = swUptime (spWeights MAKER_SCORING_POLICY) + swDepth (spWeights MAKER_SCORING_POLICY)
     + swSpread (spWeights MAKER_SCORING_POLICY) + swVolume (spWeights MAKER_SCORING_POLICY)"

definition enrolledMakerKeys :: "(string \<times> int) list \<Rightarrow> (string \<times> int) list \<Rightarrow> string list \<Rightarrow> string list" where
  "enrolledMakerKeys tiers orderCounts currentEpochMakers =
     js_set (currentEpochMakers @ map fst (filter (\<lambda>(maker, tier). tier > 0) tiers)
       @ map fst (filter (\<lambda>(maker, n). n \<ge> MIN_RESTING_ORDERS) orderCounts))"

subsection \<open>Epochs\<close>

definition makerWeekStartUtc :: "int \<Rightarrow> score_error + int" where
  "makerWeekStartUtc t =
     (if t < 0 then Inl NegativeTime
      else let day = t sdiv DAY; daysAfterMonday = (day + 3) smod 7 in Inr ((day - daysAfterMonday) * DAY))"

definition makerWeekIndex :: "int \<Rightarrow> score_error + int" where
  "makerWeekIndex start =
     (case makerWeekStartUtc start of
        Inl e \<Rightarrow> Inl e
      | Inr s \<Rightarrow> if s \<noteq> start then Inl NotMonday else Inr (start sdiv WEEK))"

definition makerWeekStartFromIndex :: "int \<Rightarrow> score_error + int" where
  "makerWeekStartFromIndex index = (if index < 0 then Inl NegativeIndex else Inr (index * WEEK + 4 * DAY))"

subsection \<open>Samples\<close>

record maker_quality =
  mqTwoSided :: bool
  mqSpreadBps :: "int option"
  mqDepthWithin100bps :: int
  mqDepthInBand :: int

datatype maker_sample = SampleAbsent | SampleValid maker_quality | SampleMissingReference

definition within_bps :: "int \<Rightarrow> int \<Rightarrow> int \<Rightarrow> bool" where
  "within_bps price fair bandBps =
     (let delta = (if price > fair then price - fair else fair - price) in delta * SCORE_BPS \<le> fair * bandBps)"

definition withinBand :: "int \<Rightarrow> int \<Rightarrow> scoring_band \<Rightarrow> bool" where
  "withinBand price fair band =
     (let delta = (if price > fair then price - fair else fair - price);
          proportional = (fair * sbBps band) sdiv SCORE_BPS;
          allowed = (if proportional > sbMinUsdg band then proportional else sbMinUsdg band)
      in delta \<le> allowed)"

record sample_acc =
  smBestBid :: "int option"
  smBestAsk :: "int option"
  smDepth100 :: int
  smDepthBand :: int

fun sample_loop :: "int \<Rightarrow> scoring_band \<Rightarrow> fillable_order list \<Rightarrow> sample_acc \<Rightarrow> sample_acc" where
  "sample_loop fair band [] acc = acc"
| "sample_loop fair band (p # ps) acc =
     (if flUnits p \<le> 0 then sample_loop fair band ps acc
      else let acc1 = (if within_bps (flPrice p) fair DEPTH_BAND_BPS then acc\<lparr>smDepth100 := smDepth100 acc + flUnits p\<rparr> else acc)
           in if \<not> withinBand (flPrice p) fair band then sample_loop fair band ps acc1
              else let acc2 = acc1\<lparr>smDepthBand := smDepthBand acc1 + flUnits p\<rparr>
                   in sample_loop fair band ps
                        (if flKind p = BkBid then
                           (if case smBestBid acc2 of None \<Rightarrow> True | Some b \<Rightarrow> flPrice p > b
                            then acc2\<lparr>smBestBid := Some (flPrice p)\<rparr> else acc2)
                         else if case smBestAsk acc2 of None \<Rightarrow> True | Some a \<Rightarrow> flPrice p < a
                            then acc2\<lparr>smBestAsk := Some (flPrice p)\<rparr> else acc2))"

definition sampleMakerSeries :: "fillable_order list \<Rightarrow> int \<Rightarrow> scoring_band option \<Rightarrow> score_error + maker_quality" where
  "sampleMakerSeries orders fair band0 =
     (let band = or_else band0 (spBand MAKER_SCORING_POLICY)
      in if fair \<le> 0 then Inl InvalidFair
         else if sbBps band < 0 \<or> sbBps band > SCORE_BPS \<or> sbMinUsdg band < 0 then Inl InvalidBand
         else let acc = sample_loop fair band orders \<lparr>smBestBid = None, smBestAsk = None, smDepth100 = 0, smDepthBand = 0\<rparr>
              in Inr (case (smBestBid acc, smBestAsk acc) of
                   (Some bestBid, Some bestAsk) \<Rightarrow>
                     let difference = (if bestAsk > bestBid then bestAsk - bestBid else 0)
                     in \<lparr>mqTwoSided = True, mqSpreadBps = Some ((difference * SCORE_BPS) sdiv fair),
                         mqDepthWithin100bps = smDepth100 acc, mqDepthInBand = smDepthBand acc\<rparr>
                 | _ \<Rightarrow> \<lparr>mqTwoSided = False, mqSpreadBps = None, mqDepthWithin100bps = smDepth100 acc,
                         mqDepthInBand = smDepthBand acc\<rparr>))"

subsection \<open>The epoch row\<close>

record flow_totals =
  ftFills :: int
  ftVolumeUsdg :: usdg6
  ftRebatesUsdg :: usdg6

record maker_epoch =
  meMaker :: address
  meEpoch :: int
  meTierBps :: bps
  meBenchmarkPolicy :: int
  meSamples :: int
  meAbsentSamples :: int
  meValidSamples :: int
  meMissingReferenceSamples :: int
  meTwoSidedSamples :: int
  meUptimePpm :: int
  meAvgSpreadBps :: int
  meDepthWithin100bps :: int
  meDepthInBand :: int
  meFills :: int
  meVolumeUsdg :: usdg6
  meRebatesUsdg :: usdg6
  meScorePpm :: int

definition emptyMakerEpoch :: "address \<Rightarrow> int \<Rightarrow> bps option \<Rightarrow> maker_epoch" where
  "emptyMakerEpoch maker epoch tierBps =
     \<lparr>meMaker = maker, meEpoch = epoch, meTierBps = or_else tierBps 0, meBenchmarkPolicy = MAKER_BENCHMARK_POLICY, meSamples = 0,
      meAbsentSamples = 0, meValidSamples = 0, meMissingReferenceSamples = 0, meTwoSidedSamples = 0, meUptimePpm = 0,
      meAvgSpreadBps = 0, meDepthWithin100bps = 0, meDepthInBand = 0, meFills = 0, meVolumeUsdg = 0, meRebatesUsdg = 0,
      meScorePpm = 0\<rparr>"

fun measured_of :: "maker_sample list \<Rightarrow> maker_quality list" where
  "measured_of [] = []"
| "measured_of (s # ss) = (case s of SampleValid q \<Rightarrow> q # measured_of ss | _ \<Rightarrow> measured_of ss)"

definition count_of :: "('a \<Rightarrow> bool) \<Rightarrow> 'a list \<Rightarrow> int" where
  "count_of P xs = int (length (filter P xs))"

definition advanceMakerEpoch :: "maker_epoch \<Rightarrow> maker_sample list \<Rightarrow> flow_totals \<Rightarrow> bps \<Rightarrow> score_error + maker_epoch" where
  "advanceMakerEpoch previous samples flows tierBps =
     (if meBenchmarkPolicy previous \<noteq> MAKER_BENCHMARK_POLICY then Inl OtherPolicy
      else let measured = measured_of samples;
               absent = count_of (\<lambda>s. s = SampleAbsent) samples;
               missingReference = count_of (\<lambda>s. s = SampleMissingReference) samples;
               n = meSamples previous + absent + int (length measured);
               sided = meTwoSidedSamples previous + count_of mqTwoSided measured;
               spreadSum = foldl (\<lambda>s q. s + or_else (mqSpreadBps q) 0) 0 measured;
               depthSum = foldl (\<lambda>s q. s + mqDepthWithin100bps q) 0 measured;
               bandDepthSum = foldl (\<lambda>s q. s + mqDepthInBand q) 0 measured
           in Inr (previous\<lparr>meTierBps := tierBps, meSamples := n, meAbsentSamples := meAbsentSamples previous + absent,
                meValidSamples := meValidSamples previous + int (length measured),
                meMissingReferenceSamples := meMissingReferenceSamples previous + missingReference,
                meTwoSidedSamples := sided,
                meUptimePpm := (if n = 0 then 0 else (sided * SCORE_PPM) sdiv n),
                meAvgSpreadBps := (if sided = 0 then 0 else (meAvgSpreadBps previous * meTwoSidedSamples previous + spreadSum) sdiv sided),
                meDepthWithin100bps := (if n = 0 then 0 else (meDepthWithin100bps previous * meSamples previous + depthSum) sdiv n),
                meDepthInBand := (if n = 0 then 0 else (meDepthInBand previous * meSamples previous + bandDepthSum) sdiv n),
                meFills := ftFills flows, meVolumeUsdg := ftVolumeUsdg flows, meRebatesUsdg := ftRebatesUsdg flows\<rparr>))"

subsection \<open>Ranks and scores\<close>

definition rank_of :: "maker_epoch list \<Rightarrow> maker_epoch \<Rightarrow> (maker_epoch \<Rightarrow> int) \<Rightarrow> bool \<Rightarrow> int" where
  "rank_of rows current val lowerIsBetter =
     (let currentValue = val current
      in if currentValue \<le> 0 then 0
         else let eligible = filter (\<lambda>row. val row > 0) rows
              in if length eligible \<le> 1 then SCORE_PPM
                 else let better = count_of (\<lambda>row. if lowerIsBetter then val row < currentValue else val row > currentValue) eligible
                      in SCORE_PPM - (better * SCORE_PPM) sdiv (int (length eligible) - 1))"

definition spread_value :: "maker_epoch \<Rightarrow> int" where
  "spread_value row = (if meTwoSidedSamples row > 0 then meAvgSpreadBps row + 1 else 0)"

definition scoreMakerEpochs :: "maker_epoch list \<Rightarrow> maker_epoch list" where
  "scoreMakerEpochs rows =
     (let weights = spWeights MAKER_SCORING_POLICY
      in map (\<lambda>row.
           let depthRank = rank_of rows row meDepthInBand False;
               spreadRank = (if meTwoSidedSamples row = 0 then 0 else rank_of rows row spread_value True);
               volumeRank = rank_of rows row meVolumeUsdg False;
               scorePpm = (swUptime weights * meUptimePpm row + swDepth weights * depthRank
                 + swSpread weights * spreadRank + swVolume weights * volumeRank) sdiv 100
           in row\<lparr>meScorePpm := scorePpm\<rparr>) rows)"

record flow_row =
  fwMaker :: address
  fwPremium :: usdg6
  fwMakerRebate :: usdg6

definition flowTotalsForMaker :: "flow_row list \<Rightarrow> address \<Rightarrow> flow_totals" where
  "flowTotalsForMaker rows maker =
     (let filtered = filter (\<lambda>row. lower (fwMaker row) = lower maker) rows
      in \<lparr>ftFills = int (length filtered), ftVolumeUsdg = foldl (\<lambda>s row. s + fwPremium row) 0 filtered,
          ftRebatesUsdg = foldl (\<lambda>s row. s + fwMakerRebate row) 0 filtered\<rparr>)"


subsection \<open>Weeks\<close>

lemmas week_consts = DAY_def WEEK_def

lemma makerWeekStartUtc_eq:
  "makerWeekStartUtc t = (if t < 0 then Inl NegativeTime else Inr ((t div DAY - (t div DAY + 3) mod 7) * DAY))"
  by (simp add: makerWeekStartUtc_def Let_def week_consts smod_nonneg pos_imp_zdiv_nonneg_iff)

lemma week_mod: "s mod WEEK = DAY * (s div DAY mod 7) + s mod DAY"
  by (simp add: WEEK_def mult.commute [of 7] zmod_zmult2_eq)

lemma day_split: "s = s div DAY * DAY + s mod DAY" "0 \<le> s mod DAY" "s mod DAY < DAY"
  by (simp_all add: DAY_def)

lemma monday: "(d - (d + 3) mod 7) mod 7 = 4" "((d + 3) mod 7 = 0) = (d mod 7 = 4)" "4 \<le> d \<Longrightarrow> 4 \<le> d - (d + 3) mod 7"
  for d :: int
  by presburger+

lemma day_arith:
  fixes s d r q :: int
  assumes "s = d * DAY + r" "0 \<le> r" "r < DAY" "0 \<le> q"
  shows "((d - q) * DAY = s) = (q = 0 \<and> r = 0)" "q < 7 \<Longrightarrow> (d - q) * DAY \<le> s \<and> s < (d - q) * DAY + WEEK"
  using assms by (auto simp: week_consts algebra_simps)

lemma week_rem_iff: "0 \<le> r \<Longrightarrow> r < DAY \<Longrightarrow> (DAY * x + r = 4 * DAY) = (x = 4 \<and> r = 0)" for x r :: int
  by (cases x "4::int" rule: linorder_cases) (auto simp: DAY_def)

lemma week_start_iff:
  "makerWeekStartUtc s = Inr s \<longleftrightarrow> 0 \<le> s \<and> s mod WEEK = 4 * DAY"
proof (cases "s < 0")
  case False
  let ?d = "s div DAY" and ?r = "s mod DAY"
  have q: "0 \<le> (?d + 3) mod 7" "0 \<le> ?d mod 7" by simp_all
  have "((?d - (?d + 3) mod 7) * DAY = s) = ((?d + 3) mod 7 = 0 \<and> ?r = 0)"
    using day_split [of s] q by (intro day_arith(1))
  also have "\<dots> = (DAY * (?d mod 7) + ?r = 4 * DAY)"
    unfolding monday using day_split(2,3) [of s] by (subst week_rem_iff) simp_all
  finally show ?thesis using False by (simp add: makerWeekStartUtc_eq week_mod)
qed (simp add: makerWeekStartUtc_eq)

lemma div_rem_unique: "((s::int) mod k = c \<and> s div k = i) = (i * k + c = s)" if "0 \<le> c" "c < k"
  using that by (auto simp: mult.commute)

lemma week_index_iff:
  "(makerWeekIndex s = Inr i) = (makerWeekStartFromIndex i = Inr s)"
proof -
  have idx: "(makerWeekIndex s = Inr i) = (makerWeekStartUtc s = Inr s \<and> s sdiv WEEK = i)"
    by (auto simp: makerWeekIndex_def split: sum.splits if_splits)
  have "(0 \<le> s \<and> s mod WEEK = 4 * DAY \<and> s div WEEK = i) = (0 \<le> s \<and> i * WEEK + 4 * DAY = s)"
    by (subst div_rem_unique) (simp_all add: week_consts)
  also have "\<dots> = (0 \<le> i \<and> i * WEEK + 4 * DAY = s)"
    by (auto simp: week_consts)
  finally show ?thesis
    by (auto simp: idx week_start_iff makerWeekStartFromIndex_def WEEK_def DAY_def)
qed

text \<open>Every time from the first Monday on lies in the week that its start opens.\<close>

lemma maker_week_contains:
  assumes "4 * DAY \<le> t"
  shows "\<exists>i s. makerWeekStartUtc t = Inr s \<and> makerWeekStartFromIndex i = Inr s \<and> s \<le> t \<and> t < s + WEEK"
proof -
  let ?d = "t div DAY"
  let ?m = "?d - (?d + 3) mod 7"
  have d: "4 \<le> ?d" using assms by (simp add: DAY_def le_div_iff_mult_le_int)
  have m: "?m mod 7 = 4" "4 \<le> ?m" using monday [of ?d] d by simp_all
  have "0 \<le> (?d + 3) mod 7" "(?d + 3) mod 7 < 7" by simp_all
  then have "?m * DAY \<le> t \<and> t < ?m * DAY + WEEK"
    using day_split [of t] by (intro day_arith(2))
  moreover have "makerWeekStartUtc (?m * DAY) = Inr (?m * DAY)"
    using m by (subst week_start_iff) (simp add: week_mod DAY_def)
  then have "makerWeekStartFromIndex (?m * DAY sdiv WEEK) = Inr (?m * DAY)"
    by (subst week_index_iff [symmetric]) (simp add: makerWeekIndex_def)
  moreover have "makerWeekStartUtc t = Inr (?m * DAY)"
    using assms by (simp add: makerWeekStartUtc_eq DAY_def)
  ultimately show ?thesis by blast
qed

text \<open>
  the epoch number of a Monday start and the start of an epoch number are inverse to each other: a
  time has an epoch number exactly when it is the start of that epoch, and every other time raises; and every
  time from the first Monday on lies in the week of exactly one such number.
\<close>

theorem maker_week_roundtrip:
  "(makerWeekIndex s = Inr i) = (makerWeekStartFromIndex i = Inr s)"
  by (rule week_index_iff)

subsection \<open>What a sample measures\<close>

lemma within_default_band:
  assumes "within_bps price fair DEPTH_BAND_BPS" "DEPTH_BAND_BPS \<le> sbBps band" "0 < fair"
  shows "withinBand price fair band"
proof -
  let ?d = "if price > fair then price - fair else fair - price"
  have "?d * 10000 \<le> fair * 100" using assms(1)
    unfolding within_bps_def Let_def SCORE_BPS_def DEPTH_BAND_BPS_def .
  also have "\<dots> \<le> fair * sbBps band" using assms(2,3) by (simp add: DEPTH_BAND_BPS_def mult_left_mono)
  finally have "?d \<le> (fair * sbBps band) div 10000"
    by (simp only: le_div_iff_mult_le_int)
  moreover have "0 \<le> fair * sbBps band" using assms(2,3) by (simp add: DEPTH_BAND_BPS_def)
  ultimately show ?thesis
    unfolding withinBand_def Let_def SCORE_BPS_def by (simp only: sdiv_nonneg) (simp split: if_splits)
qed

definition units_of :: "fillable_order list \<Rightarrow> int" where
  "units_of ps = sum_list (map flUnits ps)"

definition in_band :: "int \<Rightarrow> scoring_band \<Rightarrow> fillable_order \<Rightarrow> bool" where
  "in_band fair band p = (0 < flUnits p \<and> withinBand (flPrice p) fair band)"

definition side_prices :: "int \<Rightarrow> scoring_band \<Rightarrow> bool \<Rightarrow> fillable_order list \<Rightarrow> int list" where
  "side_prices fair band bid ps = map flPrice (filter (\<lambda>p. in_band fair band p \<and> (flKind p = BkBid) = bid) ps)"

lemma side_prices_Cons:
  "side_prices fair band bid (p # ps) =
     (if in_band fair band p \<and> (flKind p = BkBid) = bid then [flPrice p] else []) @ side_prices fair band bid ps"
  by (simp add: side_prices_def)

definition best_from :: "(int \<Rightarrow> int \<Rightarrow> int) \<Rightarrow> int option \<Rightarrow> int list \<Rightarrow> int option" where
  "best_from f a xs = foldl (\<lambda>b x. Some (case b of None \<Rightarrow> x | Some y \<Rightarrow> f y x)) a xs"

lemma best_from_simps:
  "best_from f a [] = a"
  "best_from f None (x # xs) = best_from f (Some x) xs"
  "best_from f (Some y) (x # xs) = best_from f (Some (f y x)) xs"
  by (simp_all add: best_from_def)

lemma best_bid_step:
  "(if case b of None \<Rightarrow> True | Some y \<Rightarrow> y < x then Some x else b) = Some (case b of None \<Rightarrow> x | Some y \<Rightarrow> max y x)"
  "(if case b of None \<Rightarrow> True | Some y \<Rightarrow> x < y then Some x else b) = Some (case b of None \<Rightarrow> x | Some y \<Rightarrow> min y x)"
  for x :: int
  by (auto simp: max_def min_def split: option.splits)

lemma best_from_Cons: "best_from f a (x # xs) = best_from f (Some (case a of None \<Rightarrow> x | Some y \<Rightarrow> f y x)) xs"
  by (simp add: best_from_def)

definition sample_result :: "int \<Rightarrow> scoring_band \<Rightarrow> fillable_order list \<Rightarrow> sample_acc \<Rightarrow> sample_acc" where
  "sample_result fair band ps acc =
     \<lparr>smBestBid = best_from max (smBestBid acc) (side_prices fair band True ps),
      smBestAsk = best_from min (smBestAsk acc) (side_prices fair band False ps),
      smDepth100 = smDepth100 acc + units_of (filter (\<lambda>p. 0 < flUnits p \<and> within_bps (flPrice p) fair DEPTH_BAND_BPS) ps),
      smDepthBand = smDepthBand acc + units_of (filter (in_band fair band) ps)\<rparr>"

lemma sample_loop_eq: "sample_loop fair band ps acc = sample_result fair band ps acc"
proof (induction ps arbitrary: acc)
  case Nil
  then show ?case by (simp add: sample_result_def side_prices_def best_from_simps units_of_def)
next
  case (Cons p ps)
  note eqs = Cons.IH Let_def sample_result_def side_prices_Cons in_band_def units_of_def best_from_Cons
  show ?case
  proof (cases "0 < flUnits p")
    case True
    then show ?thesis
      by (cases "withinBand (flPrice p) fair band"; cases "within_bps (flPrice p) fair DEPTH_BAND_BPS"; cases "flKind p = BkBid";
          cases "smBestBid acc"; cases "smBestAsk acc") (simp_all add: eqs max_def min_def)
  next
    case False
    then show ?thesis by (simp add: eqs)
  qed
qed

lemma best_from_append: "best_from f a (xs @ ys) = best_from f (best_from f a xs) ys"
  by (simp add: best_from_def)

lemma best_from_max: "best_from max (Some a) xs = Some (Max (set (a # xs)))"
proof (induction xs arbitrary: a)
  case (Cons x xs)
  have "Max (insert (max a x) (set xs)) = Max (insert a (insert x (set xs)))"
    by (cases "xs = []") (simp_all add: max.assoc)
  with Cons show ?case by (simp add: best_from_simps)
qed (simp add: best_from_simps)

lemma best_from_min: "best_from min (Some a) xs = Some (Min (set (a # xs)))"
proof (induction xs arbitrary: a)
  case (Cons x xs)
  have "Min (insert (min a x) (set xs)) = Min (insert a (insert x (set xs)))"
    by (cases "xs = []") (simp_all add: min.assoc)
  with Cons show ?case by (simp add: best_from_simps)
qed (simp add: best_from_simps)

lemma best_from_None:
  "best_from max None xs = (if xs = [] then None else Some (Max (set xs)))"
  "best_from min None xs = (if xs = [] then None else Some (Min (set xs)))"
  by (cases xs; simp add: best_from_simps best_from_max best_from_min)+

text \<open>
  C10: a sample of a maker's orders is exactly what the policy says. The maker is two-sided when a bid and an ask
  of it lie in the band; the spread is that of its best bid and best ask in the band, zero when they
  cross, in basis points of the fair price; and each depth is the sum of the units in its band.
\<close>

theorem sampleMakerSeries_exact:
  assumes "sampleMakerSeries orders fair band0 = Inr q"
  defines "band \<equiv> or_else band0 (spBand MAKER_SCORING_POLICY)"
  defines "bids \<equiv> side_prices fair band True orders"
  defines "asks \<equiv> side_prices fair band False orders"
  shows "q = \<lparr>mqTwoSided = (bids \<noteq> [] \<and> asks \<noteq> []),
     mqSpreadBps = (if bids \<noteq> [] \<and> asks \<noteq> [] then Some (max 0 (Min (set asks) - Max (set bids)) * SCORE_BPS div fair) else None),
     mqDepthWithin100bps = units_of (filter (\<lambda>p. 0 < flUnits p \<and> within_bps (flPrice p) fair DEPTH_BAND_BPS) orders),
     mqDepthInBand = units_of (filter (in_band fair band) orders)\<rparr>"
proof -
  have "0 < fair" using assms(1) by (auto simp: sampleMakerSeries_def Let_def split: if_splits)
  then show ?thesis
    using assms(1) unfolding sampleMakerSeries_def band_def [symmetric] Let_def sample_loop_eq sample_result_def
    by (cases "bids = []"; cases "asks = []")
      (auto simp: best_from_None SCORE_BPS_def max_def not_less sdiv_nonneg simp flip: bids_def asks_def
        simp del: Min_less_iff Min_le_iff Max_less_iff Max_le_iff Min_gr_iff Max_ge_iff Min_ge_iff Max_gr_iff split: if_splits)
qed

definition sample_orders :: "fillable_order list" where
  "sample_orders =
    [\<lparr>flOrderId = 1, flMaker = ''0xa'', flKind = BkBid, flPrice = 960000, flUnits = 4, flOnChainRemainingUnits = 4, flMakerFreeUnits = None,
       flMakerFreeCollateral = None, flCollateralDecimals = 6, flValidUntil = 0, flPlacedAt = 1, flPlacedBlock = 1\<rparr>,
     \<lparr>flOrderId = 2, flMaker = ''0xa'', flKind = BkAskResale, flPrice = 1050000, flUnits = 3, flOnChainRemainingUnits = 3, flMakerFreeUnits = None,
       flMakerFreeCollateral = None, flCollateralDecimals = 6, flValidUntil = 0, flPlacedAt = 1, flPlacedBlock = 1\<rparr>,
     \<lparr>flOrderId = 3, flMaker = ''0xa'', flKind = BkBid, flPrice = 995000, flUnits = 2, flOnChainRemainingUnits = 2, flMakerFreeUnits = None,
       flMakerFreeCollateral = None, flCollateralDecimals = 6, flValidUntil = 0, flPlacedAt = 1, flPlacedBlock = 1\<rparr>,
     \<lparr>flOrderId = 4, flMaker = ''0xa'', flKind = BkAskResale, flPrice = 1300000, flUnits = 9, flOnChainRemainingUnits = 9, flMakerFreeUnits = None,
       flMakerFreeCollateral = None, flCollateralDecimals = 6, flValidUntil = 0, flPlacedAt = 1, flPlacedBlock = 1\<rparr>]"

theorem sampleMakerSeries_exact_witness:
  "\<exists>q. sampleMakerSeries sample_orders 1000000 None = Inr q \<and> mqTwoSided q \<and>
     mqDepthInBand q = units_of (filter (in_band 1000000 (spBand MAKER_SCORING_POLICY)) sample_orders)"
proof -
  have "case sampleMakerSeries sample_orders 1000000 None of Inl _ \<Rightarrow> False | Inr q \<Rightarrow> mqTwoSided q" by code_simp
  then obtain q where q: "sampleMakerSeries sample_orders 1000000 None = Inr q" "mqTwoSided q" by (auto split: sum.splits)
  have "mqDepthInBand q = units_of (filter (in_band 1000000 (spBand MAKER_SCORING_POLICY)) sample_orders)"
    by (subst sampleMakerSeries_exact [OF q(1)]) simp
  with q show ?thesis by blast
qed

text \<open>A sample of the published policy never measures less depth in its band than within one percent.\<close>

lemma units_filter_mono:
  "(\<And>p. p \<in> set ps \<Longrightarrow> P p \<Longrightarrow> Q p) \<Longrightarrow> (\<And>p. p \<in> set ps \<Longrightarrow> Q p \<Longrightarrow> 0 \<le> flUnits p) \<Longrightarrow>
     units_of (filter P ps) \<le> units_of (filter Q ps)"
proof (induction ps)
  case (Cons p ps)
  have "units_of (filter P ps) \<le> units_of (filter Q ps)" using Cons by simp
  then show ?case using Cons.prems(1) [of p] Cons.prems(2) [of p] by (auto simp: units_of_def)
qed (simp add: units_of_def)

lemma units_filter_nonneg: "(\<And>p. p \<in> set ps \<Longrightarrow> P p \<Longrightarrow> 0 \<le> flUnits p) \<Longrightarrow> 0 \<le> units_of (filter P ps)"
  unfolding units_of_def by (rule sum_list_nonneg_map) auto

definition quality_ok :: "maker_quality \<Rightarrow> bool" where
  "quality_ok q = (0 \<le> mqDepthWithin100bps q \<and> 0 \<le> mqDepthInBand q \<and>
     (case mqSpreadBps q of None \<Rightarrow> \<not> mqTwoSided q | Some s \<Rightarrow> mqTwoSided q \<and> 0 \<le> s))"

lemma sample_unfold:
  "sampleMakerSeries orders fair band0 = Inr q \<Longrightarrow> 0 < fair \<and>
     mqDepthWithin100bps q = units_of (filter (\<lambda>p. 0 < flUnits p \<and> within_bps (flPrice p) fair DEPTH_BAND_BPS) orders) \<and>
     mqDepthInBand q = units_of (filter (in_band fair (or_else band0 (spBand MAKER_SCORING_POLICY))) orders)"
  by (auto simp: sampleMakerSeries_def Let_def sample_loop_eq sample_result_def split: if_splits option.splits)

lemma sample_quality_ok: "sampleMakerSeries orders fair band0 = Inr q \<Longrightarrow> quality_ok q"
proof -
  assume q: "sampleMakerSeries orders fair band0 = Inr q"
  have "0 \<le> mqDepthWithin100bps q" "0 \<le> mqDepthInBand q"
    using sample_unfold [OF q] by (auto simp: in_band_def intro!: units_filter_nonneg)
  moreover have "case mqSpreadBps q of None \<Rightarrow> \<not> mqTwoSided q | Some s \<Rightarrow> mqTwoSided q \<and> 0 \<le> s"
    using q by (auto simp: sampleMakerSeries_def Let_def SCORE_BPS_def pos_imp_zdiv_nonneg_iff split: if_splits option.splits)
  ultimately show ?thesis by (simp add: quality_ok_def)
qed

lemma sample_depth_order:
  assumes q: "sampleMakerSeries orders fair None = Inr q"
  shows "mqDepthWithin100bps q \<le> mqDepthInBand q"
proof -
  have "withinBand (flPrice p) fair (spBand MAKER_SCORING_POLICY)" if "within_bps (flPrice p) fair DEPTH_BAND_BPS" for p
    using within_default_band [OF that, of "spBand MAKER_SCORING_POLICY"] sample_unfold [OF q]
    by (simp add: MAKER_SCORING_POLICY_def DEPTH_BAND_BPS_def)
  then show ?thesis using sample_unfold [OF q]
    by (auto simp: in_band_def intro!: units_filter_mono)
qed

subsection \<open>What an epoch row says\<close>

text \<open>The ticks of an epoch, one after the other.\<close>

fun advance_ticks :: "maker_epoch \<Rightarrow> (maker_sample list \<times> flow_totals \<times> bps) list \<Rightarrow> score_error + maker_epoch" where
  "advance_ticks row [] = Inr row"
| "advance_ticks row ((samples, flows, tierBps) # ticks) =
     (case advanceMakerEpoch row samples flows tierBps of Inl e \<Rightarrow> Inl e | Inr r \<Rightarrow> advance_ticks r ticks)"

definition total_of :: "(maker_quality \<Rightarrow> int) \<Rightarrow> maker_sample list \<Rightarrow> int" where
  "total_of f samples = sum_list (map f (measured_of samples))"

definition spread_or_0 :: "maker_quality \<Rightarrow> int" where
  "spread_or_0 q = or_else (mqSpreadBps q) 0"

definition row_matches :: "maker_epoch \<Rightarrow> maker_sample list \<Rightarrow> bool" where
  "row_matches row samples =
     (meBenchmarkPolicy row = MAKER_BENCHMARK_POLICY \<and>
      meAbsentSamples row = count_of (\<lambda>s. s = SampleAbsent) samples \<and>
      meValidSamples row = int (length (measured_of samples)) \<and>
      meMissingReferenceSamples row = count_of (\<lambda>s. s = SampleMissingReference) samples \<and>
      meSamples row = meAbsentSamples row + meValidSamples row \<and>
      meTwoSidedSamples row = count_of mqTwoSided (measured_of samples) \<and>
      meUptimePpm row = (if meSamples row = 0 then 0 else meTwoSidedSamples row * SCORE_PPM div meSamples row) \<and>
      0 \<le> meAvgSpreadBps row \<and> meAvgSpreadBps row * meTwoSidedSamples row \<le> total_of spread_or_0 samples \<and>
      0 \<le> meDepthWithin100bps row \<and> meDepthWithin100bps row * meSamples row \<le> total_of mqDepthWithin100bps samples \<and>
      0 \<le> meDepthInBand row \<and> meDepthInBand row * meSamples row \<le> total_of mqDepthInBand samples)"

lemma measured_append [simp]: "measured_of (xs @ ys) = measured_of xs @ measured_of ys"
  by (induction xs) (auto split: maker_sample.splits)

lemma count_append [simp]: "count_of P (xs @ ys) = count_of P xs + count_of P ys"
  by (simp add: count_of_def)

lemma count_nonneg [simp]: "0 \<le> count_of P xs"
  by (simp add: count_of_def)

lemma count_le_length: "count_of P xs \<le> int (length xs)"
  by (simp add: count_of_def)

lemma total_append [simp]: "total_of f (xs @ ys) = total_of f xs + total_of f ys"
  by (simp add: total_of_def)

lemma total_nonneg: "list_all quality_ok (measured_of xs) \<Longrightarrow> 0 \<le> total_of spread_or_0 xs \<and> 0 \<le> total_of mqDepthWithin100bps xs
    \<and> 0 \<le> total_of mqDepthInBand xs"
  unfolding total_of_def
  by (intro conjI sum_list_nonneg_map) (auto simp: list_all_iff quality_ok_def spread_or_0_def split: option.splits)

text \<open>A running mean that truncates stays at most the true mean.\<close>

lemma running_mean:
  fixes a n s k T :: int
  assumes "0 \<le> a" "0 \<le> n" "a * n \<le> T" "0 \<le> s" "0 \<le> k"
  shows "0 \<le> (if k = 0 then 0 else (a * n + s) sdiv k)" "(if k = 0 then 0 else (a * n + s) sdiv k) * k \<le> T + s"
proof -
  have T: "0 \<le> a * n" using assms by simp
  show "0 \<le> (if k = 0 then 0 else (a * n + s) sdiv k)" using assms(4,5) T sdiv_ge_0 [of "a * n + s" k] by (auto simp del: sdiv_nonneg)
  show "(if k = 0 then 0 else (a * n + s) sdiv k) * k \<le> T + s"
    using sdiv_mult_le [of "a * n + s" k] assms(3-5) T by (cases "k = 0") (linarith | simp del: sdiv_nonneg)+
qed

lemma advance_matches:
  assumes "row_matches row xs" "list_all quality_ok (measured_of ys)"
  shows "\<exists>r. advanceMakerEpoch row ys flows tierBps = Inr r \<and> row_matches r (xs @ ys)
    \<and> meFills r = ftFills flows \<and> meVolumeUsdg r = ftVolumeUsdg flows \<and> meRebatesUsdg r = ftRebatesUsdg flows"
proof -
  note old = assms(1) [unfolded row_matches_def]
  have n: "0 \<le> meSamples row" "0 \<le> meTwoSidedSamples row" using old by auto
  define n' where "n' = meSamples row + count_of (\<lambda>s. s = SampleAbsent) ys + int (length (measured_of ys))"
  define k where "k = meTwoSidedSamples row + count_of mqTwoSided (measured_of ys)"
  have k: "0 \<le> n'" "0 \<le> k" using n by (simp_all add: n'_def k_def)
  have o: "0 \<le> meAvgSpreadBps row" "meAvgSpreadBps row * meTwoSidedSamples row \<le> total_of spread_or_0 xs"
    "0 \<le> meDepthWithin100bps row" "meDepthWithin100bps row * meSamples row \<le> total_of mqDepthWithin100bps xs"
    "0 \<le> meDepthInBand row" "meDepthInBand row * meSamples row \<le> total_of mqDepthInBand xs"
    using old by blast+
  have tn: "0 \<le> total_of spread_or_0 ys" "0 \<le> total_of mqDepthWithin100bps ys" "0 \<le> total_of mqDepthInBand ys"
    using total_nonneg [OF assms(2)] by blast+
  note m1 = running_mean [OF o(1) n(2) o(2) tn(1) k(2)]
  note m2 = running_mean [OF o(3) n(1) o(4) tn(2) k(1)]
  note m3 = running_mean [OF o(5) n(1) o(6) tn(3) k(1)]
  have sums: "foldl (\<lambda>s q. s + or_else (mqSpreadBps q) 0) 0 (measured_of ys) = total_of spread_or_0 ys"
    "foldl (\<lambda>s q. s + mqDepthWithin100bps q) 0 (measured_of ys) = total_of mqDepthWithin100bps ys"
    "foldl (\<lambda>s q. s + mqDepthInBand q) 0 (measured_of ys) = total_of mqDepthInBand ys"
    by (simp_all add: foldl_add_sum total_of_def spread_or_0_def [abs_def])
  obtain r where r: "advanceMakerEpoch row ys flows tierBps = Inr r"
    using old by (auto simp: advanceMakerEpoch_def Let_def)
  have fields: "meSamples r = n'" "meTwoSidedSamples r = k" "meBenchmarkPolicy r = MAKER_BENCHMARK_POLICY"
    "meAbsentSamples r = meAbsentSamples row + count_of (\<lambda>s. s = SampleAbsent) ys"
    "meValidSamples r = meValidSamples row + int (length (measured_of ys))"
    "meMissingReferenceSamples r = meMissingReferenceSamples row + count_of (\<lambda>s. s = SampleMissingReference) ys"
    "meUptimePpm r = (if n' = 0 then 0 else (k * SCORE_PPM) sdiv n')"
    "meAvgSpreadBps r = (if k = 0 then 0 else (meAvgSpreadBps row * meTwoSidedSamples row + total_of spread_or_0 ys) sdiv k)"
    "meDepthWithin100bps r = (if n' = 0 then 0 else (meDepthWithin100bps row * meSamples row + total_of mqDepthWithin100bps ys) sdiv n')"
    "meDepthInBand r = (if n' = 0 then 0 else (meDepthInBand row * meSamples row + total_of mqDepthInBand ys) sdiv n')"
    "meFills r = ftFills flows \<and> meVolumeUsdg r = ftVolumeUsdg flows \<and> meRebatesUsdg r = ftRebatesUsdg flows"
    using r unfolding advanceMakerEpoch_def Let_def sums n'_def k_def by (auto split: if_splits)
  have "row_matches r (xs @ ys)"
    unfolding row_matches_def
  proof (intro conjI)
    show "meUptimePpm r = (if meSamples r = 0 then 0 else meTwoSidedSamples r * SCORE_PPM div meSamples r)"
      using k by (simp add: fields SCORE_PPM_def)
    show "0 \<le> meAvgSpreadBps r" "meAvgSpreadBps r * meTwoSidedSamples r \<le> total_of spread_or_0 (xs @ ys)"
      unfolding fields total_append by (fact m1)+
    show "0 \<le> meDepthWithin100bps r" "meDepthWithin100bps r * meSamples r \<le> total_of mqDepthWithin100bps (xs @ ys)"
      unfolding fields total_append by (fact m2)+
    show "0 \<le> meDepthInBand r" "meDepthInBand r * meSamples r \<le> total_of mqDepthInBand (xs @ ys)"
      unfolding fields total_append by (fact m3)+
  qed (use old in \<open>simp_all add: fields n'_def k_def\<close>)
  then show ?thesis using r fields by blast
qed

lemma advance_ticks_matches:
  assumes "row_matches row xs" "list_all (\<lambda>(ys, flows, tierBps). list_all quality_ok (measured_of ys)) ticks"
  shows "\<exists>r. advance_ticks row ticks = Inr r \<and> row_matches r (xs @ concat (map fst ticks))"
  using assms
proof (induction ticks arbitrary: row xs)
  case (Cons t ticks)
  obtain ys flows tierBps where t: "t = (ys, flows, tierBps)" by (cases t)
  obtain r where r: "advanceMakerEpoch row ys flows tierBps = Inr r" "row_matches r (xs @ ys)"
    using advance_matches [OF Cons.prems(1), of ys flows tierBps] Cons.prems(2) t by auto
  then show ?case using Cons.IH [OF r(2)] Cons.prems(2) by (simp add: t)
qed simp

lemma empty_matches: "row_matches (emptyMakerEpoch maker epoch tierBps) []"
  by (simp add: row_matches_def emptyMakerEpoch_def count_of_def total_of_def)

text \<open>
  an epoch row that starts empty and is advanced tick after tick says of all its samples together, however
  they were split into ticks: how many were absent, measured and without reference, and the share that
  was two-sided. Its averages, truncated at every tick, never exceed the true ones, and the flows are
  those of the last tick, never added up. The advance of such a row never raises.
\<close>

theorem maker_epoch_counts_samples:
  assumes "list_all (\<lambda>(ys, flows, tierBps). list_all quality_ok (measured_of ys)) ticks"
  shows "\<exists>row. advance_ticks (emptyMakerEpoch maker epoch tierBps) ticks = Inr row \<and> row_matches row (concat (map fst ticks))"
  using advance_ticks_matches [OF empty_matches assms] by simp

theorem maker_epoch_counts_samples_witness:
  "\<exists>row. advance_ticks (emptyMakerEpoch ''0xa'' 3 None)
      [([SampleAbsent, SampleValid \<lparr>mqTwoSided = True, mqSpreadBps = Some 12, mqDepthWithin100bps = 5, mqDepthInBand = 9\<rparr>],
        \<lparr>ftFills = 1, ftVolumeUsdg = 7, ftRebatesUsdg = 1\<rparr>, 5), ([SampleMissingReference], \<lparr>ftFills = 2, ftVolumeUsdg = 9, ftRebatesUsdg = 1\<rparr>, 5)] = Inr row
    \<and> row_matches row [SampleAbsent, SampleValid \<lparr>mqTwoSided = True, mqSpreadBps = Some 12, mqDepthWithin100bps = 5, mqDepthInBand = 9\<rparr>, SampleMissingReference]"
  using maker_epoch_counts_samples [where ticks = "[([SampleAbsent, SampleValid \<lparr>mqTwoSided = True, mqSpreadBps = Some 12, mqDepthWithin100bps = 5, mqDepthInBand = 9\<rparr>],
        \<lparr>ftFills = 1, ftVolumeUsdg = 7, ftRebatesUsdg = 1\<rparr>, 5), ([SampleMissingReference], \<lparr>ftFills = 2, ftVolumeUsdg = 9, ftRebatesUsdg = 1\<rparr>, 5)]"
      and maker = "''0xa''" and epoch = 3 and tierBps = None]
  by (simp add: quality_ok_def)

subsection \<open>What a score rewards\<close>

lemma rank_bounds:
  assumes "row \<in> set rows"
  shows "0 \<le> rank_of rows row f low \<and> rank_of rows row f low \<le> SCORE_PPM"
proof (cases "f row \<le> 0 \<or> length (filter (\<lambda>row. 0 < f row) rows) \<le> 1")
  case True
  then show ?thesis by (auto simp: rank_of_def Let_def SCORE_PPM_def)
next
  case False
  define el where "el = filter (\<lambda>row. 0 < f row) rows"
  define P where "P = (\<lambda>r. if low then f r < f row else f row < f r)"
  have "row \<in> set el" "\<not> P row" using assms False by (auto simp: el_def P_def)
  then have "length (filter P el) < length el" by (rule length_filter_less)
  then have b: "0 \<le> count_of P el" "count_of P el \<le> int (length el) - 1" by (simp_all add: count_of_def)
  have l: "0 < int (length el) - 1" using False by (simp add: el_def)
  have "0 \<le> count_of P el * SCORE_PPM" using b by (simp add: SCORE_PPM_def)
  then have "rank_of rows row f low = SCORE_PPM - (count_of P el * SCORE_PPM) div (int (length el) - 1)"
    using False sdiv_nonneg [OF _ less_imp_le [OF l], of "count_of P el * SCORE_PPM"]
    by (simp add: rank_of_def Let_def flip: el_def P_def del: sdiv_nonneg)
  moreover have "(count_of P el * SCORE_PPM) div (int (length el) - 1) \<le> SCORE_PPM"
  proof -
    have "count_of P el * SCORE_PPM \<le> (int (length el) - 1) * SCORE_PPM"
      using b by (intro mult_right_mono) (simp_all add: SCORE_PPM_def)
    then show ?thesis using zdiv_mono1 [OF _ l] l by fastforce
  qed
  moreover have "0 \<le> (count_of P el * SCORE_PPM) div (int (length el) - 1)"
    using b l by (simp add: pos_imp_zdiv_nonneg_iff SCORE_PPM_def)
  ultimately show ?thesis by linarith
qed

lemma count_mono: "(\<And>x. x \<in> set xs \<Longrightarrow> P x \<Longrightarrow> Q x) \<Longrightarrow> count_of P xs \<le> count_of Q xs"
  by (induction xs) (auto simp: count_of_def)

lemma rank_mono:
  assumes "a \<in> set rows" "0 < f b \<Longrightarrow> 0 < f a \<and> (if low then f a \<le> f b else f b \<le> f a)"
  shows "rank_of rows b f low \<le> rank_of rows a f low"
proof (cases "f b \<le> 0")
  case True
  then show ?thesis using rank_bounds [OF assms(1)] by (simp add: rank_of_def)
next
  case False
  define el where "el = filter (\<lambda>row. 0 < f row) rows"
  define P where "P = (\<lambda>x r. if low then f r < f x else f x < f r)"
  have le: "count_of (P a) el \<le> count_of (P b) el"
    using False assms(2) by (intro count_mono) (auto simp: P_def split: if_splits)
  have eq: "0 < f x \<Longrightarrow> rank_of rows x f low =
      (if length el \<le> 1 then SCORE_PPM else SCORE_PPM - (count_of (P x) el * SCORE_PPM) sdiv (int (length el) - 1))" for x
    by (simp add: rank_of_def Let_def el_def P_def)
  have "(count_of (P a) el * SCORE_PPM) sdiv (int (length el) - 1) \<le> (count_of (P b) el * SCORE_PPM) sdiv (int (length el) - 1)"
    if "1 < length el"
    using that le by (intro sdiv_mono1) (auto simp: SCORE_PPM_def simp flip: length_greater_0_conv)
  then show ?thesis using eq [of a] eq [of b] False assms(2) by (simp add: not_le)
qed

definition score_of :: "maker_epoch list \<Rightarrow> maker_epoch \<Rightarrow> int" where
  "score_of rows row =
     (50 * meUptimePpm row + 30 * rank_of rows row meDepthInBand False
      + 20 * (if meTwoSidedSamples row = 0 then 0 else rank_of rows row spread_value True)) sdiv 100"

lemma scoreMakerEpochs_eq: "scoreMakerEpochs rows = map (\<lambda>row. row\<lparr>meScorePpm := score_of rows row\<rparr>) rows"
  by (simp add: scoreMakerEpochs_def score_of_def MAKER_SCORING_POLICY_def Let_def)

lemma spread_rank_mono:
  assumes "a \<in> set rows" "0 \<le> meAvgSpreadBps a" "0 \<le> meTwoSidedSamples b"
    "0 < meTwoSidedSamples b \<Longrightarrow> 0 < meTwoSidedSamples a \<and> meAvgSpreadBps a \<le> meAvgSpreadBps b"
  shows "(if meTwoSidedSamples b = 0 then 0 else rank_of rows b spread_value True)
      \<le> (if meTwoSidedSamples a = 0 then 0 else rank_of rows a spread_value True)"
  using rank_mono [where f = spread_value and low = True, OF assms(1), of b] rank_bounds [OF assms(1), of spread_value True] assms
  by (auto simp: spread_value_def split: if_splits)

text \<open>
  in the ranking of an epoch's rows, a maker that was two-sided at least as often as another, kept at least
  its depth and quoted at most its average spread, scores at least as much.
\<close>

theorem score_dominance:
  assumes "a \<in> set rows" "meUptimePpm b \<le> meUptimePpm a" "meDepthInBand b \<le> meDepthInBand a"
    "0 \<le> meUptimePpm b" "0 \<le> meAvgSpreadBps a" "0 \<le> meTwoSidedSamples b" "b \<in> set rows"
    "0 < meTwoSidedSamples b \<Longrightarrow> 0 < meTwoSidedSamples a \<and> meAvgSpreadBps a \<le> meAvgSpreadBps b"
  shows "\<exists>a' b'. a' \<in> set (scoreMakerEpochs rows) \<and> b' \<in> set (scoreMakerEpochs rows) \<and>
     a' = a\<lparr>meScorePpm := meScorePpm a'\<rparr> \<and> b' = b\<lparr>meScorePpm := meScorePpm b'\<rparr> \<and> meScorePpm b' \<le> meScorePpm a'"
proof -
  have "rank_of rows b meDepthInBand False \<le> rank_of rows a meDepthInBand False"
    using assms(1,3) by (intro rank_mono) auto
  moreover have "0 \<le> rank_of rows b meDepthInBand False" "0 \<le> rank_of rows b spread_value True"
    using rank_bounds [OF assms(7)] by auto
  ultimately have "score_of rows b \<le> score_of rows a"
    unfolding score_of_def using spread_rank_mono [OF assms(1,5,6,8)] assms(2,4)
    by (intro sdiv_mono1) (auto simp del: sdiv_nonneg split: if_splits)
  then show ?thesis using assms(1,7)
    by (intro exI [of _ "a\<lparr>meScorePpm := score_of rows a\<rparr>"] exI [of _ "b\<lparr>meScorePpm := score_of rows b\<rparr>"])
      (simp add: scoreMakerEpochs_eq)
qed

definition sample_rows :: "maker_epoch list" where
  "sample_rows = [(emptyMakerEpoch ''0xa'' 1 None)\<lparr>meUptimePpm := 900000, meDepthInBand := 50, meAvgSpreadBps := 10, meTwoSidedSamples := 9\<rparr>,
     (emptyMakerEpoch ''0xb'' 1 None)\<lparr>meUptimePpm := 400000, meDepthInBand := 20, meAvgSpreadBps := 30, meTwoSidedSamples := 4\<rparr>,
     (emptyMakerEpoch ''0xc'' 1 None)\<lparr>meUptimePpm := 0, meDepthInBand := 0, meAvgSpreadBps := 0, meTwoSidedSamples := 0\<rparr>]"

theorem score_dominance_witness:
  "\<exists>a' b'. a' \<in> set (scoreMakerEpochs sample_rows) \<and> b' \<in> set (scoreMakerEpochs sample_rows) \<and>
     a' = (sample_rows ! 0)\<lparr>meScorePpm := meScorePpm a'\<rparr> \<and> b' = (sample_rows ! 1)\<lparr>meScorePpm := meScorePpm b'\<rparr> \<and> meScorePpm b' \<le> meScorePpm a'"
  by (rule score_dominance) (simp_all add: sample_rows_def emptyMakerEpoch_def)

text \<open>
  a score lies between zero and one million and no volume can change it: the scores of an epoch are
  the same whatever premium volume its rows report.
\<close>

theorem scores_bounded_volume_blind:
  assumes "list_all (\<lambda>r. 0 \<le> meUptimePpm r \<and> meUptimePpm r \<le> SCORE_PPM) rows"
  shows "list_all (\<lambda>s. 0 \<le> s \<and> s \<le> SCORE_PPM) (map meScorePpm (scoreMakerEpochs rows))
    \<and> map meScorePpm (scoreMakerEpochs (map (\<lambda>r. r\<lparr>meVolumeUsdg := volume r\<rparr>) rows)) = map meScorePpm (scoreMakerEpochs rows)"
proof
  have "0 \<le> score_of rows r \<and> score_of rows r \<le> SCORE_PPM" if r: "r \<in> set rows" for r
  proof -
    have "0 \<le> meUptimePpm r" "meUptimePpm r \<le> SCORE_PPM" using assms r by (auto simp: list_all_iff)
    then have "0 \<le> 50 * meUptimePpm r + 30 * rank_of rows r meDepthInBand False
        + 20 * (if meTwoSidedSamples r = 0 then 0 else rank_of rows r spread_value True)"
      "50 * meUptimePpm r + 30 * rank_of rows r meDepthInBand False
        + 20 * (if meTwoSidedSamples r = 0 then 0 else rank_of rows r spread_value True) \<le> 100 * SCORE_PPM"
      using rank_bounds [OF r, of meDepthInBand False] rank_bounds [OF r, of spread_value True] by (auto split: if_splits)
    then show ?thesis unfolding score_of_def SCORE_PPM_def by (auto simp: pos_imp_zdiv_nonneg_iff)
  qed
  then show "list_all (\<lambda>s. 0 \<le> s \<and> s \<le> SCORE_PPM) (map meScorePpm (scoreMakerEpochs rows))"
    by (simp add: scoreMakerEpochs_eq list_all_iff)
next
  let ?g = "\<lambda>r. r\<lparr>meVolumeUsdg := volume r\<rparr>"
  have rank: "rank_of (map ?g rows) (?g r) f low = rank_of rows r f low" if "\<And>x. f (?g x) = f x" for r f low
    using that by (simp add: rank_of_def Let_def count_of_def filter_map o_def)
  have "score_of (map ?g rows) (?g r) = score_of rows r" for r
    by (simp add: score_of_def rank spread_value_def)
  then show "map meScorePpm (scoreMakerEpochs (map ?g rows)) = map meScorePpm (scoreMakerEpochs rows)"
    by (simp add: scoreMakerEpochs_eq)
qed

theorem scores_bounded_volume_blind_witness:
  "map meScorePpm (scoreMakerEpochs (map (\<lambda>r. r\<lparr>meVolumeUsdg := 5000\<rparr>) sample_rows)) = map meScorePpm (scoreMakerEpochs sample_rows)"
  using scores_bounded_volume_blind [of sample_rows "\<lambda>r. 5000"] by (simp add: sample_rows_def emptyMakerEpoch_def SCORE_PPM_def)

end
