(* ===== verification/Reconcile.thy ===== *)
theory Reconcile
  imports JsPrelude
begin

section \<open>Deliveries and fees of fills (indexer/lib/v2/reconcile.ts)\<close>

text \<open>
  Which transfer of a transaction delivered each fill, mint and exit, and how a taker call's fee is
  divided over the fills it took. Identifiers are strings, a \<open>Set\<close> of them a list in insertion order.
\<close>

record indexed_transfer =
  itId :: string
  itTx :: string
  itLongId :: int
  itFrom :: address
  itTo :: address
  itUnits :: int
  itLogIndex :: int

record indexed_fill =
  ifId :: string
  ifTx :: string
  ifLongId :: int
  ifBuyer :: address
  ifSeller :: address
  ifTakerIsBuyer :: bool
  ifUnits :: int
  ifLogIndex :: int
  ifPrimary :: bool

record indexed_mint =
  imId :: string
  imTx :: string
  imLongId :: int
  imLongTo :: address
  imUnits :: int
  imLogIndex :: int

record indexed_exit =
  ieId :: string
  ieTx :: string
  ieLongId :: int
  ieHolder :: address
  ieUnits :: int
  ieLogIndex :: int

datatype match_error =
    FillWithoutDelivery string | PrimaryWithoutMint string | MintWithoutDelivery string | ExitWithoutBurn string

definition ZERO :: address where "ZERO = ''0x0000000000000000000000000000000000000000''"

definition same :: "string \<Rightarrow> string \<Rightarrow> bool" where
  "same a b = (lower a = lower b)"

definition set_add :: "string \<Rightarrow> string list \<Rightarrow> string list" where
  "set_add x s = (if x \<in> set s then s else s @ [x])"

definition first_opt :: "'a list \<Rightarrow> 'a option" where
  "first_opt xs = (case xs of [] \<Rightarrow> None | x # _ \<Rightarrow> Some x)"

text \<open>\<open>.sort((a, b) => b.logIndex - a.logIndex)[0]\<close>: the latest of the candidates.\<close>

definition latest :: "('a \<Rightarrow> int) \<Rightarrow> 'a list \<Rightarrow> 'a option" where
  "latest lg xs = first_opt (js_sort (\<lambda>a b. lg b - lg a) xs)"

definition preceding ::
  "indexed_transfer list \<Rightarrow> string list \<Rightarrow> string \<times> int \<times> int \<times> int \<Rightarrow> (indexed_transfer \<Rightarrow> bool) \<Rightarrow> indexed_transfer option" where
  "preceding transfers matched input predicate =
     (case input of (tx, longId, units, logIndex) \<Rightarrow>
        latest itLogIndex (filter (\<lambda>transfer. itId transfer \<notin> set matched \<and> same (itTx transfer) tx \<and>
          itLongId transfer = longId \<and> itUnits transfer = units \<and> itLogIndex transfer < logIndex \<and> predicate transfer) transfers))"

definition fill_delivery :: "address \<Rightarrow> indexed_fill \<Rightarrow> indexed_transfer \<Rightarrow> bool" where
  "fill_delivery book fill transfer =
     (same (itTo transfer) (ifBuyer fill) \<and>
      (if ifPrimary fill then same (itFrom transfer) ZERO
       else if ifTakerIsBuyer fill then same (itFrom transfer) book else same (itFrom transfer) (ifSeller fill)))"

definition fill_mint :: "indexed_mint list \<Rightarrow> string list \<Rightarrow> indexed_fill \<Rightarrow> indexed_mint option" where
  "fill_mint mints matchedMints fill =
     latest imLogIndex (filter (\<lambda>item. imId item \<notin> set matchedMints \<and> same (imTx item) (ifTx fill) \<and>
       imLongId item = ifLongId fill \<and> imUnits item = ifUnits fill \<and> same (imLongTo item) (ifBuyer fill) \<and>
       imLogIndex item < ifLogIndex fill) mints)"

fun fill_loop :: "indexed_transfer list \<Rightarrow> indexed_mint list \<Rightarrow> address \<Rightarrow> indexed_fill list \<Rightarrow>
    string list \<times> string list \<Rightarrow> match_error + (string list \<times> string list)" where
  "fill_loop transfers mints book [] m = Inr m"
| "fill_loop transfers mints book (fill # fills) (matchedTransfers, matchedMints) =
     (case preceding transfers matchedTransfers (ifTx fill, ifLongId fill, ifUnits fill, ifLogIndex fill) (fill_delivery book fill) of
        None \<Rightarrow> Inl (FillWithoutDelivery (ifId fill))
      | Some delivery \<Rightarrow>
          (let mt = set_add (itId delivery) matchedTransfers
           in if ifPrimary fill then
                (case fill_mint mints matchedMints fill of
                   None \<Rightarrow> Inl (PrimaryWithoutMint (ifId fill))
                 | Some mint \<Rightarrow> fill_loop transfers mints book fills (mt, set_add (imId mint) matchedMints))
              else fill_loop transfers mints book fills (mt, matchedMints)))"

fun mint_loop :: "indexed_transfer list \<Rightarrow> string list \<Rightarrow> indexed_mint list \<Rightarrow> string list \<Rightarrow> match_error + string list" where
  "mint_loop transfers matchedMints [] mt = Inr mt"
| "mint_loop transfers matchedMints (mint # mints) mt =
     (if imId mint \<in> set matchedMints then mint_loop transfers matchedMints mints mt
      else case preceding transfers mt (imTx mint, imLongId mint, imUnits mint, imLogIndex mint)
                  (\<lambda>transfer. same (itFrom transfer) ZERO \<and> same (itTo transfer) (imLongTo mint)) of
             None \<Rightarrow> Inl (MintWithoutDelivery (imId mint))
           | Some delivery \<Rightarrow> mint_loop transfers matchedMints mints (set_add (itId delivery) mt))"

fun exit_loop :: "indexed_transfer list \<Rightarrow> indexed_exit list \<Rightarrow> string list \<Rightarrow> match_error + string list" where
  "exit_loop transfers [] mt = Inr mt"
| "exit_loop transfers (ex # exits) mt =
     (case preceding transfers mt (ieTx ex, ieLongId ex, ieUnits ex, ieLogIndex ex)
             (\<lambda>transfer. same (itFrom transfer) (ieHolder ex) \<and> same (itTo transfer) ZERO) of
        None \<Rightarrow> Inl (ExitWithoutBurn (ieId ex))
      | Some burn \<Rightarrow> exit_loop transfers exits (set_add (itId burn) mt))"

definition matchDeliveries ::
  "indexed_transfer list \<Rightarrow> indexed_fill list \<Rightarrow> indexed_mint list \<Rightarrow> indexed_exit list \<Rightarrow> address \<Rightarrow>
     match_error + (string list \<times> string list)" where
  "matchDeliveries transfers fills mints exits book =
     (case fill_loop transfers mints book (js_sort (\<lambda>a b. ifLogIndex a - ifLogIndex b) fills) ([], []) of
        Inl e \<Rightarrow> Inl e
      | Inr (mt, mm) \<Rightarrow>
          (case mint_loop transfers mm mints mt of
             Inl e \<Rightarrow> Inl e
           | Inr mt2 \<Rightarrow>
               (case exit_loop transfers exits mt2 of
                  Inl e \<Rightarrow> Inl e
                | Inr mt3 \<Rightarrow> Inr (mt3, mm))))"

subsection \<open>The fee of a taker call\<close>

record fee_fill =
  ffId :: string
  ffTx :: string
  ffLongId :: int
  ffTaker :: address
  ffTakerIsBuyer :: bool
  ffUnits :: int
  ffPremium :: int
  ffLogIndex :: int

record taken_call =
  tcTx :: string
  tcLongId :: int
  tcTaker :: address
  tcBuying :: bool
  tcUnits :: int
  tcPremium :: int
  tcTakerFee :: int
  tcLogIndex :: int

datatype take_error =
    SpansPart | MissingUnits string int int | PremiumMismatch string int | TakerFeeWithoutPremium
  | PremiumDivisionByZero | FillWithoutTaken

text \<open>The walk over the candidates, latest first: the fills it pushes and the units still missing.\<close>

fun walk_fills :: "int \<Rightarrow> fee_fill list \<Rightarrow> take_error + (fee_fill list \<times> int)" where
  "walk_fills missing [] = Inr ([], missing)"
| "walk_fills missing (fill # fills) =
     (if missing = 0 then Inr ([], missing)
      else if ffUnits fill > missing then Inl SpansPart
      else case walk_fills (missing - ffUnits fill) fills of
             Inl e \<Rightarrow> Inl e
           | Inr (matched, left) \<Rightarrow> Inr (fill # matched, left))"

definition call_candidates :: "fee_fill list \<Rightarrow> string list \<Rightarrow> taken_call \<Rightarrow> fee_fill list" where
  "call_candidates fills assigned call =
     js_sort (\<lambda>a b. ffLogIndex b - ffLogIndex a)
       (filter (\<lambda>fill. ffId fill \<notin> set assigned \<and> same (ffTx fill) (tcTx call) \<and> ffLongId fill = tcLongId call \<and>
          same (ffTaker fill) (tcTaker call) \<and> ffTakerIsBuyer fill = tcBuying call \<and> ffLogIndex fill < tcLogIndex call) fills)"

text \<open>The \<open>forEach\<close> over the fills in log order; the last one takes what is left.\<close>

fun allocate_fees :: "int \<Rightarrow> int \<Rightarrow> fee_fill list \<Rightarrow> int \<Rightarrow> (string \<times> int) list \<Rightarrow> take_error + (string \<times> int) list" where
  "allocate_fees takerFee premium [] allocated fees = Inr fees"
| "allocate_fees takerFee premium [fill] allocated fees = Inr (AList.update (ffId fill) (takerFee - allocated) fees)"
| "allocate_fees takerFee premium (fill # f # fills) allocated fees =
     (if premium = 0 then Inl PremiumDivisionByZero
      else let fee = (takerFee * ffPremium fill) sdiv premium
           in allocate_fees takerFee premium (f # fills) (allocated + fee) (AList.update (ffId fill) fee fees))"

definition match_call :: "fee_fill list \<Rightarrow> string list \<Rightarrow> taken_call \<Rightarrow> take_error + fee_fill list" where
  "match_call fills assigned call =
     (case walk_fills (tcUnits call) (call_candidates fills assigned call) of
        Inl e \<Rightarrow> Inl e
      | Inr (matched, missing) \<Rightarrow>
          (if missing \<noteq> 0 then Inl (MissingUnits (tcTx call) (tcLogIndex call) missing)
           else let inLogOrder = rev matched;
                    premium = foldl (\<lambda>s fill. s + ffPremium fill) 0 inLogOrder
                in if premium \<noteq> tcPremium call then Inl (PremiumMismatch (tcTx call) (tcLogIndex call))
                   else if premium = 0 \<and> tcTakerFee call \<noteq> 0 then Inl TakerFeeWithoutPremium
                   else Inr inLogOrder))"

fun take_loop :: "fee_fill list \<Rightarrow> taken_call list \<Rightarrow> string list \<Rightarrow> (string \<times> int) list \<Rightarrow>
    take_error + (string list \<times> (string \<times> int) list)" where
  "take_loop fills [] assigned fees = Inr (assigned, fees)"
| "take_loop fills (call # calls) assigned fees =
     (case match_call fills assigned call of
        Inl e \<Rightarrow> Inl e
      | Inr inLogOrder \<Rightarrow>
          (case allocate_fees (tcTakerFee call) (tcPremium call) inLogOrder 0 fees of
             Inl e \<Rightarrow> Inl e
           | Inr fees2 \<Rightarrow> take_loop fills calls (foldl (\<lambda>a fill. set_add (ffId fill) a) assigned inLogOrder) fees2))"

definition matchTakeFees :: "fee_fill list \<Rightarrow> taken_call list \<Rightarrow> take_error + (string \<times> int) list" where
  "matchTakeFees fills calls =
     (case take_loop fills (js_sort (\<lambda>a b. tcLogIndex a - tcLogIndex b) calls) [] [] of
        Inl e \<Rightarrow> Inl e
      | Inr (assigned, fees) \<Rightarrow> if length assigned \<noteq> length fills then Inl FillWithoutTaken else Inr fees)"

subsection \<open>Every receipt claims a transfer of its own\<close>

text \<open>Sorting by log index, from the first and from the last.\<close>

lemma log_order: "comparator (\<lambda>a b. lg a - lg b)" "comparator (\<lambda>a b. lg b - lg a)" for lg :: "'a \<Rightarrow> int"
  by (unfold_locales; simp)+

interpretation fills_up: comparator "\<lambda>a b. ifLogIndex a - ifLogIndex b" by (rule log_order)
interpretation calls_up: comparator "\<lambda>a b. tcLogIndex a - tcLogIndex b" by (rule log_order)
interpretation transfers_down: comparator "\<lambda>a b. itLogIndex b - itLogIndex a" by (rule log_order)
interpretation fee_fills_down: comparator "\<lambda>a b. ffLogIndex b - ffLogIndex a" by (rule log_order)

lemma latest_in: "latest lg xs = Some x \<Longrightarrow> x \<in> set xs"
proof -
  assume "latest lg xs = Some x"
  then obtain ys where "js_sort (\<lambda>a b. lg b - lg a) xs = x # ys"
    by (auto simp: latest_def first_opt_def split: list.splits)
  then have "x \<in> set (js_sort (\<lambda>a b. lg b - lg a) xs)" by (simp del: set_js_sort)
  then show "x \<in> set xs" by simp
qed

lemma latest_None: "latest lg xs = None \<longleftrightarrow> xs = []"
proof -
  have "(js_sort cmp xs = []) = (xs = [])" for cmp :: "'a \<Rightarrow> 'a \<Rightarrow> int"
    by (metis length_0_conv length_js_sort)
  then show ?thesis by (auto simp: latest_def first_opt_def split: list.splits)
qed

text \<open>The candidate chosen is the last one before the receipt.\<close>

lemma preceding_latest:
  assumes "preceding transfers matched (tx, longId, units, logIndex) P = Some d"
  shows "d \<in> set transfers \<and> itId d \<notin> set matched \<and> itUnits d = units \<and> itLogIndex d < logIndex \<and> P d
    \<and> (\<forall>t. t \<in> set transfers \<and> itId t \<notin> set matched \<and> same (itTx t) tx \<and> itLongId t = longId \<and> itUnits t = units
          \<and> itLogIndex t < logIndex \<and> P t \<longrightarrow> itLogIndex t \<le> itLogIndex d)"
proof -
  define cs where "cs = filter (\<lambda>transfer. itId transfer \<notin> set matched \<and> same (itTx transfer) tx \<and>
     itLongId transfer = longId \<and> itUnits transfer = units \<and> itLogIndex transfer < logIndex \<and> P transfer) transfers"
  have l: "latest itLogIndex cs = Some d" using assms by (simp add: preceding_def cs_def)
  then obtain ds where ds: "js_sort (\<lambda>a b. itLogIndex b - itLogIndex a) cs = d # ds"
    by (auto simp: latest_def first_opt_def split: list.splits)
  have "itLogIndex t \<le> itLogIndex d" if "t \<in> set cs" for t
  proof -
    have "t \<in> set (d # ds)" using that by (metis ds set_js_sort)
    then show ?thesis using transfers_down.sort_sorted [of cs] by (auto simp: ds)
  qed
  then show ?thesis using latest_in [OF l] by (auto simp: cs_def)
qed

definition claimed :: "('a \<Rightarrow> string) \<Rightarrow> ('a \<Rightarrow> int) \<Rightarrow> 'a list \<Rightarrow> string list \<Rightarrow> int" where
  "claimed idf uf xs m = sum_list (map uf (filter (\<lambda>x. idf x \<in> set m) xs))"

lemma claimed_Nil [simp]: "claimed idf uf xs [] = 0"
  by (simp add: claimed_def)

lemma claimed_add:
  "distinct (map idf xs) \<Longrightarrow> d \<in> set xs \<Longrightarrow> idf d \<notin> set m \<Longrightarrow>
     claimed idf uf xs (set_add (idf d) m) = claimed idf uf xs m + uf d"
proof (induction xs)
  case (Cons x xs)
  show ?case
  proof (cases "x = d")
    case True
    then have "filter (\<lambda>x. idf x = idf d \<or> idf x \<in> set m) xs = filter (\<lambda>x. idf x \<in> set m) xs"
      using Cons.prems(1) by (intro filter_cong) (auto simp: image_iff)
    with True Cons.prems show ?thesis by (simp add: claimed_def set_add_def)
  next
    case False
    then have "idf x \<noteq> idf d" using Cons.prems(1,2) by (auto simp: image_iff)
    with False Cons show ?thesis by (simp add: claimed_def set_add_def)
  qed
qed simp

lemma claimed_rest: "claimed idf uf xs m + sum_list (map uf (filter (\<lambda>x. idf x \<notin> set m) xs)) = sum_list (map uf xs)"
  by (induction xs) (simp_all add: claimed_def)

lemma set_add_fresh [simp]: "x \<notin> set m \<Longrightarrow> set_add x m = m @ [x]"
  by (simp add: set_add_def)

definition claims_ok :: "indexed_transfer list \<Rightarrow> string list \<Rightarrow> int \<Rightarrow> int \<Rightarrow> bool" where
  "claims_ok transfers m n u = (distinct m \<and> set m \<subseteq> itId ` set transfers \<and> int (length m) = n \<and> claimed itId itUnits transfers m = u)"

lemma claims_step:
  assumes "claims_ok transfers m n u" "distinct (map itId transfers)"
    "preceding transfers m (tx, longId, units, logIndex) P = Some d"
  shows "claims_ok transfers (set_add (itId d) m) (n + 1) (u + units)"
  using assms preceding_latest [OF assms(3)] claimed_add [of itId transfers d m itUnits]
  by (auto simp: claims_ok_def)

lemma fill_loop_claims:
  assumes "fill_loop transfers mints book fills (mt, mm) = Inr (mt', mm')" "claims_ok transfers mt n u"
    "distinct (map itId transfers)" "distinct (map imId mints)" "claimed imId imUnits mints mm = w"
  shows "claims_ok transfers mt' (n + int (length fills)) (u + sum_list (map ifUnits fills))
    \<and> claimed imId imUnits mints mm' = w + sum_list (map ifUnits (filter ifPrimary fills))"
  using assms
proof (induction fills arbitrary: mt mm n u w)
  case (Cons fill fills)
  obtain d where d: "preceding transfers mt (ifTx fill, ifLongId fill, ifUnits fill, ifLogIndex fill) (fill_delivery book fill) = Some d"
    using Cons.prems(1) by (auto split: option.splits)
  note step = claims_step [OF Cons.prems(2,3) d]
  show ?case
  proof (cases "ifPrimary fill")
    case True
    then obtain mi where mi: "fill_mint mints mm fill = Some mi"
      using Cons.prems(1) d by (auto split: option.splits)
    then have m: "mi \<in> set mints" "imId mi \<notin> set mm" "imUnits mi = ifUnits fill"
      by (auto simp: fill_mint_def dest!: latest_in)
    have "claimed imId imUnits mints (set_add (imId mi) mm) = w + ifUnits fill"
      using claimed_add [OF Cons.prems(4) m(1,2), of imUnits] m(3) Cons.prems(5) by (simp del: set_add_fresh)
    from Cons.IH [OF _ step Cons.prems(3,4) this] Cons.prems(1) True d mi show ?thesis
      by (simp add: algebra_simps del: set_add_fresh)
  next
    case False
    then show ?thesis using Cons.IH [OF _ step Cons.prems(3-5)] Cons.prems(1) d
      by (simp add: algebra_simps del: set_add_fresh)
  qed
qed simp

lemma mint_loop_claims:
  assumes "mint_loop transfers mm mints mt = Inr mt'" "claims_ok transfers mt n u" "distinct (map itId transfers)"
  shows "claims_ok transfers mt' (n + int (length (filter (\<lambda>m. imId m \<notin> set mm) mints)))
     (u + sum_list (map imUnits (filter (\<lambda>m. imId m \<notin> set mm) mints)))"
  using assms
proof (induction mints arbitrary: mt n u)
  case (Cons m mints)
  show ?case
  proof (cases "imId m \<in> set mm")
    case False
    then obtain d where d: "preceding transfers mt (imTx m, imLongId m, imUnits m, imLogIndex m)
        (\<lambda>transfer. same (itFrom transfer) ZERO \<and> same (itTo transfer) (imLongTo m)) = Some d"
      using Cons.prems(1) by (auto split: option.splits)
    from Cons.IH [OF _ claims_step [OF Cons.prems(2,3) d] Cons.prems(3)] Cons.prems(1) False d show ?thesis
      by (simp add: algebra_simps del: set_add_fresh)
  qed (use Cons in simp)
qed simp

lemma exit_loop_claims:
  assumes "exit_loop transfers exits mt = Inr mt'" "claims_ok transfers mt n u" "distinct (map itId transfers)"
  shows "claims_ok transfers mt' (n + int (length exits)) (u + sum_list (map ieUnits exits))"
  using assms
proof (induction exits arbitrary: mt n u)
  case (Cons ex exits)
  then obtain d where d: "preceding transfers mt (ieTx ex, ieLongId ex, ieUnits ex, ieLogIndex ex)
      (\<lambda>transfer. same (itFrom transfer) (ieHolder ex) \<and> same (itTo transfer) ZERO) = Some d"
    by (auto split: option.splits)
  from Cons.IH [OF _ claims_step [OF Cons.prems(2,3) d] Cons.prems(3)] Cons.prems(1) d show ?case
    by (simp add: algebra_simps del: set_add_fresh)
qed simp

text \<open>
  What a transfer must be to deliver a fill, a mint or an exit, and what a mint must be to pay for a fill: of the
  same transaction, series and size, logged before it, between the right parties (addresses in any case).
\<close>

definition delivers_fill :: "address \<Rightarrow> indexed_fill \<Rightarrow> indexed_transfer \<Rightarrow> bool" where
  "delivers_fill book f t =
     (lower (itTx t) = lower (ifTx f) \<and> itLongId t = ifLongId f \<and> itUnits t = ifUnits f \<and> itLogIndex t < ifLogIndex f
      \<and> lower (itTo t) = lower (ifBuyer f)
      \<and> lower (itFrom t) = lower (if ifPrimary f then ZERO else if ifTakerIsBuyer f then book else ifSeller f))"

definition pays_fill :: "indexed_fill \<Rightarrow> indexed_mint \<Rightarrow> bool" where
  "pays_fill f m =
     (lower (imTx m) = lower (ifTx f) \<and> imLongId m = ifLongId f \<and> imUnits m = ifUnits f \<and> imLogIndex m < ifLogIndex f
      \<and> lower (imLongTo m) = lower (ifBuyer f))"

definition delivers_mint :: "indexed_mint \<Rightarrow> indexed_transfer \<Rightarrow> bool" where
  "delivers_mint m t =
     (lower (itTx t) = lower (imTx m) \<and> itLongId t = imLongId m \<and> itUnits t = imUnits m \<and> itLogIndex t < imLogIndex m
      \<and> lower (itFrom t) = lower ZERO \<and> lower (itTo t) = lower (imLongTo m))"

definition burns_exit :: "indexed_exit \<Rightarrow> indexed_transfer \<Rightarrow> bool" where
  "burns_exit e t =
     (lower (itTx t) = lower (ieTx e) \<and> itLongId t = ieLongId e \<and> itUnits t = ieUnits e \<and> itLogIndex t < ieLogIndex e
      \<and> lower (itFrom t) = lower (ieHolder e) \<and> lower (itTo t) = lower ZERO)"

text \<open>Pairs of a receipt and what it claims: each claim right, and the claims what a pass adds to the used ids.\<close>

definition pairing :: "('a \<Rightarrow> 'b \<Rightarrow> bool) \<Rightarrow> 'b list \<Rightarrow> ('b \<Rightarrow> string) \<Rightarrow> string list \<Rightarrow> string list \<Rightarrow> ('a \<times> 'b) list \<Rightarrow> bool" where
  "pairing R pool idf m m' ps =
     (list_all (\<lambda>(a, b). b \<in> set pool \<and> R a b) ps \<and> m' = m @ map (idf \<circ> snd) ps \<and> (distinct m \<longrightarrow> distinct m'))"

lemma pairing_Nil: "pairing R pool idf m m []"
  by (simp add: pairing_def)

lemma pairing_Cons:
  assumes "pairing R pool idf (set_add (idf b) m) m' ps" and b: "b \<in> set pool" "R a b" "idf b \<notin> set m"
  shows "pairing R pool idf m m' ((a, b) # ps)"
proof -
  have p: "list_all (\<lambda>(a, b). b \<in> set pool \<and> R a b) ps" "m' = set_add (idf b) m @ map (idf \<circ> snd) ps"
    and d: "distinct (set_add (idf b) m) \<longrightarrow> distinct m'"
    using assms(1) unfolding pairing_def by blast+
  from d have "distinct m \<longrightarrow> distinct m'" using b(3) by simp
  moreover have "m' = m @ map (idf \<circ> snd) ((a, b) # ps)" using p(2) b(3) by simp
  ultimately show ?thesis using p(1) b(1,2) unfolding pairing_def by (intro conjI) simp_all
qed

lemma preceding_in:
  assumes "preceding transfers matched (tx, longId, units, logIndex) P = Some d"
  shows "d \<in> set transfers" "itId d \<notin> set matched" "lower (itTx d) = lower tx" "itLongId d = longId" "itUnits d = units"
    "itLogIndex d < logIndex" "P d"
  using assms by (auto simp: preceding_def same_def dest!: latest_in)

lemma fill_loop_pairs:
  assumes "fill_loop transfers mints book fills (mt, mm) = Inr (mt', mm')"
  shows "(\<exists>fd. map fst fd = fills \<and> pairing (delivers_fill book) transfers itId mt mt' fd)
    \<and> (\<exists>pm. map fst pm = filter ifPrimary fills \<and> pairing pays_fill mints imId mm mm' pm)"
  using assms
proof (induction fills arbitrary: mt mm)
  case Nil
  then show ?case by (auto intro: pairing_Nil)
next
  case (Cons fill fills)
  obtain d where d: "preceding transfers mt (ifTx fill, ifLongId fill, ifUnits fill, ifLogIndex fill) (fill_delivery book fill) = Some d"
    using Cons.prems by (auto split: option.splits)
  have del: "delivers_fill book fill d"
    using preceding_in [OF d] by (auto simp: delivers_fill_def fill_delivery_def same_def split: if_splits)
  note cons = pairing_Cons [where R = "delivers_fill book" and a = fill and idf = itId, OF _ preceding_in(1) [OF d] del preceding_in(2) [OF d]]
  show ?case
  proof (cases "ifPrimary fill")
    case True
    then obtain mi where mi: "fill_mint mints mm fill = Some mi" using Cons.prems d by (auto split: option.splits)
    then have m: "mi \<in> set mints" "pays_fill fill mi" "imId mi \<notin> set mm"
      by (auto simp: fill_mint_def pays_fill_def same_def dest!: latest_in)
    have "fill_loop transfers mints book fills (set_add (itId d) mt, set_add (imId mi) mm) = Inr (mt', mm')"
      using Cons.prems d mi True by simp
    from Cons.IH [OF this] obtain fd pm where "map fst fd = fills" "pairing (delivers_fill book) transfers itId (set_add (itId d) mt) mt' fd"
      "map fst pm = filter ifPrimary fills" "pairing pays_fill mints imId (set_add (imId mi) mm) mm' pm" by blast
    then show ?thesis using cons [of mt' fd] pairing_Cons [of pays_fill mints imId mi mm mm' pm fill] m True
      by (intro conjI exI [of _ "(fill, d) # fd"] exI [of _ "(fill, mi) # pm"]) (simp_all del: set_add_fresh)
  next
    case False
    then have "fill_loop transfers mints book fills (set_add (itId d) mt, mm) = Inr (mt', mm')" using Cons.prems d by simp
    from Cons.IH [OF this] obtain fd where "map fst fd = fills" "pairing (delivers_fill book) transfers itId (set_add (itId d) mt) mt' fd"
      and pm: "\<exists>pm. map fst pm = filter ifPrimary fills \<and> pairing pays_fill mints imId mm mm' pm" by blast
    then show ?thesis using cons [of mt' fd] False
      by (intro conjI exI [of _ "(fill, d) # fd"]) (simp_all del: set_add_fresh)
  qed
qed

lemma mint_loop_pairs:
  assumes "mint_loop transfers mm mints mt = Inr mt'"
  shows "\<exists>md. map fst md = filter (\<lambda>m. imId m \<notin> set mm) mints \<and> pairing delivers_mint transfers itId mt mt' md"
  using assms
proof (induction mints arbitrary: mt)
  case (Cons m mints)
  show ?case
  proof (cases "imId m \<in> set mm")
    case False
    then obtain d where d: "preceding transfers mt (imTx m, imLongId m, imUnits m, imLogIndex m)
        (\<lambda>transfer. same (itFrom transfer) ZERO \<and> same (itTo transfer) (imLongTo m)) = Some d"
      using Cons.prems by (auto split: option.splits)
    have del: "delivers_mint m d" using preceding_in [OF d] by (simp add: delivers_mint_def same_def)
    have "mint_loop transfers mm mints (set_add (itId d) mt) = Inr mt'" using Cons.prems False d by simp
    from Cons.IH [OF this] obtain md where "map fst md = filter (\<lambda>m. imId m \<notin> set mm) mints"
      "pairing delivers_mint transfers itId (set_add (itId d) mt) mt' md" by blast
    then show ?thesis using pairing_Cons [where R = delivers_mint and a = m and idf = itId, OF _ preceding_in(1) [OF d] del preceding_in(2) [OF d]] False
      by (intro exI [of _ "(m, d) # md"]) (simp del: set_add_fresh)
  qed (use Cons in simp)
qed (auto intro: pairing_Nil)

lemma exit_loop_pairs:
  assumes "exit_loop transfers exits mt = Inr mt'"
  shows "\<exists>ed. map fst ed = exits \<and> pairing burns_exit transfers itId mt mt' ed"
  using assms
proof (induction exits arbitrary: mt)
  case (Cons ex exits)
  obtain d where d: "preceding transfers mt (ieTx ex, ieLongId ex, ieUnits ex, ieLogIndex ex)
      (\<lambda>transfer. same (itFrom transfer) (ieHolder ex) \<and> same (itTo transfer) ZERO) = Some d"
    using Cons.prems by (auto split: option.splits)
  have del: "burns_exit ex d" using preceding_in [OF d] by (simp add: burns_exit_def same_def)
  have "exit_loop transfers exits (set_add (itId d) mt) = Inr mt'" using Cons.prems d by simp
  from Cons.IH [OF this] obtain ed where "map fst ed = exits" "pairing burns_exit transfers itId (set_add (itId d) mt) mt' ed" by blast
  then show ?case using pairing_Cons [where R = burns_exit and a = ex and idf = itId, OF _ preceding_in(1) [OF d] del preceding_in(2) [OF d]]
    by (intro exI [of _ "(ex, d) # ed"]) (simp del: set_add_fresh)
qed (auto intro: pairing_Nil)

text \<open>The three passes of a run that finds a claim for every receipt.\<close>

lemma matchDeliveries_passes:
  assumes "matchDeliveries transfers fills mints exits book = Inr (mt, mm)"
  shows "\<exists>fs mt1 mt2. mset fs = mset fills \<and> fill_loop transfers mints book fs ([], []) = Inr (mt1, mm)
    \<and> mint_loop transfers mm mints mt1 = Inr mt2 \<and> exit_loop transfers exits mt2 = Inr mt"
  using assms unfolding matchDeliveries_def
  by (intro exI [of _ "js_sort (\<lambda>a b. ifLogIndex a - ifLogIndex b) fills"]) (auto split: sum.splits)

lemma matchDeliveries_pairs:
  assumes "matchDeliveries transfers fills mints exits book = Inr (mt, mm)"
  shows "\<exists>fd pm md ed. mset (map fst fd) = mset fills \<and> mset (map fst pm) = mset (filter ifPrimary fills)
    \<and> map fst md = filter (\<lambda>m. imId m \<notin> set mm) mints \<and> map fst ed = exits
    \<and> (\<forall>(f, t) \<in> set fd. t \<in> set transfers \<and> delivers_fill book f t) \<and> (\<forall>(f, m) \<in> set pm. m \<in> set mints \<and> pays_fill f m)
    \<and> (\<forall>(m, t) \<in> set md. t \<in> set transfers \<and> delivers_mint m t) \<and> (\<forall>(e, t) \<in> set ed. t \<in> set transfers \<and> burns_exit e t)
    \<and> mm = map (imId \<circ> snd) pm \<and> mt = map (itId \<circ> snd) fd @ map (itId \<circ> snd) md @ map (itId \<circ> snd) ed
    \<and> distinct mm \<and> distinct mt"
proof -
  obtain fs mt1 mt2 where fs: "mset fs = mset fills" and f: "fill_loop transfers mints book fs ([], []) = Inr (mt1, mm)"
    and m: "mint_loop transfers mm mints mt1 = Inr mt2" and e: "exit_loop transfers exits mt2 = Inr mt"
    using matchDeliveries_passes [OF assms] by blast
  obtain fd pm where "map fst fd = fs" "map fst pm = filter ifPrimary fs"
    and p1: "pairing (delivers_fill book) transfers itId [] mt1 fd" "pairing pays_fill mints imId [] mm pm"
    using fill_loop_pairs [OF f] by blast
  then have fst: "mset (map fst fd) = mset fills" "mset (map fst pm) = mset (filter ifPrimary fills)" using fs by simp_all
  obtain md where md: "map fst md = filter (\<lambda>m. imId m \<notin> set mm) mints" and p2: "pairing delivers_mint transfers itId mt1 mt2 md"
    using mint_loop_pairs [OF m] by blast
  obtain ed where ed: "map fst ed = exits" and p3: "pairing burns_exit transfers itId mt2 mt ed" using exit_loop_pairs [OF e] by blast
  have right: "\<forall>(f, t) \<in> set fd. t \<in> set transfers \<and> delivers_fill book f t" "\<forall>(f, m) \<in> set pm. m \<in> set mints \<and> pays_fill f m"
    "\<forall>(m, t) \<in> set md. t \<in> set transfers \<and> delivers_mint m t" "\<forall>(e, t) \<in> set ed. t \<in> set transfers \<and> burns_exit e t"
    using p1 p2 p3 unfolding pairing_def list_all_iff by blast+
  have ids: "mm = map (imId \<circ> snd) pm" "mt = map (itId \<circ> snd) fd @ map (itId \<circ> snd) md @ map (itId \<circ> snd) ed"
    using p1 p2 p3 unfolding pairing_def by simp_all
  have "distinct mm" "distinct mt" using p1 p2 p3 unfolding pairing_def by (simp only: distinct.simps simp_thms)+
  then show ?thesis using fst md ed right ids by blast
qed

text \<open>
  C25: when every receipt finds its transfer, each has one of its own and the books balance. Every fill is delivered by a
  transfer of its transaction, series and units, logged before it, to its buyer from the minter, the book or the
  seller; every primary fill is paid for by a mint of its own, of its transaction, series and units, to its buyer; every mint
  that pays for no fill is delivered by a transfer from nobody to its owner, and every exit by one from its holder to
  nobody; no transfer and no mint is used twice. So the matched mints carry exactly the units of the primary fills, and the matched
  transfers those of the resale fills, of all mints and of the exits.
\<close>

theorem matchDeliveries_balance:
  assumes "matchDeliveries transfers fills mints exits book = Inr (mt, mm)"
    "distinct (map itId transfers)" "distinct (map imId mints)"
  shows "(\<exists>fd pm md ed. mset (map fst fd) = mset fills \<and> mset (map fst pm) = mset (filter ifPrimary fills)
      \<and> map fst md = filter (\<lambda>m. imId m \<notin> set mm) mints \<and> map fst ed = exits
      \<and> (\<forall>(f, t) \<in> set fd. t \<in> set transfers \<and> delivers_fill book f t) \<and> (\<forall>(f, m) \<in> set pm. m \<in> set mints \<and> pays_fill f m)
      \<and> (\<forall>(m, t) \<in> set md. t \<in> set transfers \<and> delivers_mint m t) \<and> (\<forall>(e, t) \<in> set ed. t \<in> set transfers \<and> burns_exit e t)
      \<and> mm = map (imId \<circ> snd) pm \<and> mt = map (itId \<circ> snd) fd @ map (itId \<circ> snd) md @ map (itId \<circ> snd) ed)
    \<and> distinct mm \<and> distinct mt
    \<and> claimed imId imUnits mints mm = sum_list (map ifUnits (filter ifPrimary fills))
    \<and> claimed itId itUnits transfers mt =
        sum_list (map ifUnits (filter (\<lambda>f. \<not> ifPrimary f) fills)) + sum_list (map imUnits mints) + sum_list (map ieUnits exits)"
proof -
  obtain fs mt1 mt2 where mset: "mset fs = mset fills" and f: "fill_loop transfers mints book fs ([], []) = Inr (mt1, mm)"
    and m: "mint_loop transfers mm mints mt1 = Inr mt2" and e: "exit_loop transfers exits mt2 = Inr mt"
    using matchDeliveries_passes [OF assms(1)] by blast
  have "claims_ok transfers [] 0 0" by (simp add: claims_ok_def)
  note c1 = fill_loop_claims [OF f this assms(2,3) claimed_Nil]
  note c2 = mint_loop_claims [OF m conjunct1 [OF c1] assms(2)]
  note c3 = exit_loop_claims [OF e c2 assms(2)]
  have sums: "sum_list (map ifUnits (filter P fs)) = sum_list (map ifUnits (filter P fills))" for P
    by (metis mset mset_filter mset_map sum_mset_sum_list)
  have all: "sum_list (map ifUnits fs) = sum_list (map ifUnits fills)" using sums [of "\<lambda>_. True"] by simp
  have split: "sum_list (map ifUnits fills) = sum_list (map ifUnits (filter ifPrimary fills)) + sum_list (map ifUnits (filter (\<lambda>f. \<not> ifPrimary f) fills))"
    by (induction fills) auto
  have "claimed imId imUnits mints mm = sum_list (map ifUnits (filter ifPrimary fills))
    \<and> claimed itId itUnits transfers mt =
        sum_list (map ifUnits (filter (\<lambda>f. \<not> ifPrimary f) fills)) + sum_list (map imUnits mints) + sum_list (map ieUnits exits)"
    using c1 c3 claimed_rest [of imId imUnits mints mm] by (simp add: claims_ok_def sums all split)
  with matchDeliveries_pairs [OF assms(1)] show ?thesis by blast
qed

definition sample_transfers :: "indexed_transfer list" where
  "sample_transfers = [\<lparr>itId = ''m'', itTx = ''0xt'', itLongId = 2, itFrom = ZERO, itTo = ''0xa'', itUnits = 3, itLogIndex = 1\<rparr>,
     \<lparr>itId = ''r'', itTx = ''0xt'', itLongId = 2, itFrom = ''0xbook'', itTo = ''0xb'', itUnits = 2, itLogIndex = 4\<rparr>, \<lparr>itId = ''x'', itTx = ''0xt'', itLongId = 2, itFrom = ''0xb'', itTo = ZERO, itUnits = 2, itLogIndex = 7\<rparr>]"

definition sample_fills :: "indexed_fill list" where
  "sample_fills = [\<lparr>ifId = ''f2'', ifTx = ''0xT'', ifLongId = 2, ifBuyer = ''0xB'', ifSeller = ''0xa'', ifTakerIsBuyer = True, ifUnits = 2, ifLogIndex = 5, ifPrimary = False\<rparr>,
     \<lparr>ifId = ''f1'', ifTx = ''0xT'', ifLongId = 2, ifBuyer = ''0xA'', ifSeller = ''0xw'', ifTakerIsBuyer = True, ifUnits = 3, ifLogIndex = 3, ifPrimary = True\<rparr>]"

definition sample_mints :: "indexed_mint list" where
  "sample_mints = [\<lparr>imId = ''mm'', imTx = ''0xt'', imLongId = 2, imLongTo = ''0xa'', imUnits = 3, imLogIndex = 2\<rparr>]"

definition sample_exits :: "indexed_exit list" where
  "sample_exits = [\<lparr>ieId = ''e'', ieTx = ''0xt'', ieLongId = 2, ieHolder = ''0xb'', ieUnits = 2, ieLogIndex = 8\<rparr>]"

theorem matchDeliveries_balance_witness:
  "\<exists>mt mm. matchDeliveries sample_transfers sample_fills sample_mints sample_exits ''0xbook'' = Inr (mt, mm) \<and>
     claimed itId itUnits sample_transfers mt = 2 + 3 + 2 \<and> distinct mt"
proof -
  have "case matchDeliveries sample_transfers sample_fills sample_mints sample_exits ''0xbook'' of Inl _ \<Rightarrow> False | Inr _ \<Rightarrow> True"
    by code_simp
  then obtain mt mm where m: "matchDeliveries sample_transfers sample_fills sample_mints sample_exits ''0xbook'' = Inr (mt, mm)"
    by (auto split: sum.splits)
  have "distinct (map itId sample_transfers)" "distinct (map imId sample_mints)"
    by (simp_all add: sample_transfers_def sample_mints_def)
  from matchDeliveries_balance [OF m this] m show ?thesis
    by (simp add: sample_fills_def sample_mints_def sample_exits_def)
qed

subsection \<open>The parts of a fee\<close>

lemma walk_fills_eq:
  "walk_fills missing cs = Inr (m, left) \<Longrightarrow> (\<exists>rest. cs = m @ rest) \<and> missing = sum_list (map ffUnits m) + left"
proof (induction missing cs arbitrary: m left rule: walk_fills.induct)
  case (2 missing fill fills)
  show ?case
  proof (cases "missing = 0")
    case False
    then obtain m' where "m = fill # m'" "walk_fills (missing - ffUnits fill) fills = Inr (m', left)"
      using "2.prems" by (auto split: if_splits sum.splits)
    with "2.IH" [OF False] "2.prems" False show ?thesis by (auto split: if_splits)
  qed (use "2.prems" in simp)
qed simp

text \<open>What one call takes: fills of its own before it, worth its units and its premium.\<close>

definition call_part :: "taken_call \<Rightarrow> fee_fill list \<Rightarrow> bool" where
  "call_part call part =
     (list_all (\<lambda>f. same (ffTx f) (tcTx call) \<and> ffLongId f = tcLongId call \<and> same (ffTaker f) (tcTaker call) \<and>
        ffTakerIsBuyer f = tcBuying call \<and> ffLogIndex f < tcLogIndex call) part \<and>
      sum_list (map ffUnits part) = tcUnits call \<and> sum_list (map ffPremium part) = tcPremium call \<and>
      sorted_wrt (\<lambda>a b. ffLogIndex a \<le> ffLogIndex b) part \<and> (part = [] \<longrightarrow> tcTakerFee call = 0))"

lemma match_call_part:
  assumes "match_call fills assigned call = Inr part"
  shows "call_part call part \<and> (\<forall>f \<in> set part. f \<in> set fills \<and> ffId f \<notin> set assigned) \<and>
    (distinct (map ffId fills) \<longrightarrow> distinct (map ffId part))"
proof -
  from assms obtain m where w: "walk_fills (tcUnits call) (call_candidates fills assigned call) = Inr (m, 0)"
    and part: "part = rev m" and prem: "foldl (\<lambda>s fill. s + ffPremium fill) 0 part = tcPremium call"
    and fee: "tcPremium call = 0 \<longrightarrow> tcTakerFee call = 0"
    by (auto simp: match_call_def Let_def split: sum.splits if_splits)
  obtain rest where rest: "call_candidates fills assigned call = m @ rest" and u: "tcUnits call = sum_list (map ffUnits m)"
    using walk_fills_eq [OF w] by auto
  have "set m \<subseteq> set (call_candidates fills assigned call)" by (simp add: rest)
  then have mem: "f \<in> set m \<Longrightarrow> f \<in> set fills \<and> ffId f \<notin> set assigned \<and> same (ffTx f) (tcTx call) \<and> ffLongId f = tcLongId call \<and>
      same (ffTaker f) (tcTaker call) \<and> ffTakerIsBuyer f = tcBuying call \<and> ffLogIndex f < tcLogIndex call" for f
    by (auto simp: call_candidates_def)
  have "sorted_wrt (\<lambda>a b. ffLogIndex b - ffLogIndex a \<le> 0) (m @ rest)"
    using fee_fills_down.sort_sorted by (simp flip: rest add: call_candidates_def)
  then have sorted: "sorted_wrt (\<lambda>a b. ffLogIndex a \<le> ffLogIndex b) part"
    by (simp add: part sorted_wrt_append sorted_wrt_rev)
  have "distinct (map ffId (m @ rest))" if "distinct (map ffId fills)"
  proof -
    have "mset (map ffId (m @ rest)) = mset (map ffId (filter (\<lambda>fill. ffId fill \<notin> set assigned \<and> same (ffTx fill) (tcTx call) \<and> ffLongId fill = tcLongId call \<and>
          same (ffTaker fill) (tcTaker call) \<and> ffTakerIsBuyer fill = tcBuying call \<and> ffLogIndex fill < tcLogIndex call) fills))"
      by (simp flip: rest mset_map add: call_candidates_def) (simp only: mset_map mset_js_sort)
    then show ?thesis using that mset_eq_imp_distinct_iff distinct_map_filter by blast
  qed
  then have "distinct (map ffId fills) \<Longrightarrow> distinct (map ffId part)"
    by (simp add: part flip: rev_map)
  moreover have "call_part call part"
    using mem u prem fee sorted
    by (auto simp: call_part_def list_all_iff part foldl_add_sum rev_map [symmetric])
  ultimately show ?thesis using mem part by auto
qed

lemma allocate_fees_sum:
  assumes "allocate_fees takerFee premium part allocated fees = Inr fees'" "distinct (map ffId part)"
    "distinct (map fst fees)" "\<forall>f \<in> set part. ffId f \<notin> fst ` set fees"
  shows "distinct (map fst fees') \<and> fst ` set fees' = fst ` set fees \<union> ffId ` set part
    \<and> (part \<noteq> [] \<longrightarrow> sum_list (map (\<lambda>f. get_or fees' (ffId f) 0) part) = takerFee - allocated)
    \<and> (\<forall>k. k \<notin> ffId ` set part \<longrightarrow> map_of fees' k = map_of fees k)"
  using assms
proof (induction takerFee premium part allocated fees arbitrary: fees' rule: allocate_fees.induct)
  case (2 takerFee premium fill allocated fees)
  then have eq: "fees' = AList.update (ffId fill) (takerFee - allocated) fees" by simp
  have "distinct (map fst fees')" unfolding eq by (rule distinct_keys_update [OF "2.prems"(3)])
  moreover have "fst ` set fees' = fst ` set fees \<union> ffId ` set [fill]" unfolding eq keys_update by simp
  ultimately show ?case by (simp add: eq)
next
  case (3 takerFee premium fill f fills allocated fees)
  let ?fee = "(takerFee * ffPremium fill) sdiv premium"
  let ?fees = "AList.update (ffId fill) ?fee fees"
  have ne: "premium \<noteq> 0" and rec: "allocate_fees takerFee premium (f # fills) (allocated + ?fee) ?fees = Inr fees'"
    using "3.prems"(1) by (auto simp: Let_def split: if_splits)
  have "\<forall>g \<in> set (f # fills). ffId g \<notin> fst ` set ?fees"
  proof
    fix g
    assume g: "g \<in> set (f # fills)"
    then have "ffId g \<in> ffId ` set (f # fills)" by (rule imageI)
    moreover have "ffId fill \<notin> ffId ` set (f # fills)" using "3.prems"(2) by simp
    ultimately have "ffId g \<noteq> ffId fill" by metis
    moreover have "ffId g \<notin> fst ` set fees" using g "3.prems"(4) by auto
    ultimately show "ffId g \<notin> fst ` set ?fees" unfolding keys_update by simp
  qed
  note ih = "3.IH" [OF ne refl rec _ distinct_keys_update [OF "3.prems"(3)] this]
  have k: "ffId fill \<notin> ffId ` set (f # fills)" and dist: "distinct (map ffId (f # fills))" using "3.prems"(2) by auto
  have "get_or fees' (ffId fill) 0 = ?fee" using ih [OF dist] k by (simp add: get_or_def)
  moreover have "map_of fees' j = map_of fees j" if "j \<notin> ffId ` set (fill # f # fills)" for j
    using that ih [OF dist] by auto
  moreover have "fst ` set fees' = fst ` set fees \<union> ffId ` set (fill # f # fills)"
    using ih [OF dist] by (auto simp only: keys_update) (auto simp: image_iff)
  ultimately show ?case using ih [OF dist] by (intro conjI allI impI) simp_all
qed simp

lemma add_part: "distinct (map ffId part) \<Longrightarrow> \<forall>f \<in> set part. ffId f \<notin> set assigned \<Longrightarrow>
    foldl (\<lambda>a fill. set_add (ffId fill) a) assigned part = assigned @ map ffId part"
proof (induction part arbitrary: assigned)
  case (Cons f part)
  have "\<forall>g \<in> set part. ffId g \<notin> set (assigned @ [ffId f])" using Cons.prems by (auto simp: image_iff)
  with Cons.IH [of "assigned @ [ffId f]"] Cons.prems show ?case by simp
qed simp

lemma add_part_set:
  "distinct assigned \<Longrightarrow> distinct (foldl (\<lambda>a fill. set_add (ffId fill) a) assigned part)
     \<and> set (foldl (\<lambda>a fill. set_add (ffId fill) a) assigned part) = set assigned \<union> ffId ` set part"
  by (induction part arbitrary: assigned) (auto simp: set_add_def)

lemma take_loop_assigned:
  "take_loop fills calls assigned fees = Inr (assigned', fees') \<Longrightarrow> distinct assigned \<Longrightarrow> set assigned \<subseteq> ffId ` set fills \<Longrightarrow>
     distinct assigned' \<and> set assigned' \<subseteq> ffId ` set fills"
proof (induction fills calls assigned fees rule: take_loop.induct)
  case (2 fills call calls assigned fees)
  obtain part fees2 where m: "match_call fills assigned call = Inr part"
    and a: "allocate_fees (tcTakerFee call) (tcPremium call) part 0 fees = Inr fees2"
    using "2.prems"(1) by (auto split: sum.splits)
  have "set part \<subseteq> set fills" using match_call_part [OF m] by blast
  then show ?case
    using "2.IH" [OF m a] "2.prems" m a add_part_set [OF "2.prems"(2), of part] by auto
qed simp

definition fee_of :: "(string \<times> int) list \<Rightarrow> fee_fill list \<Rightarrow> int" where
  "fee_of fees part = sum_list (map (\<lambda>f. get_or fees (ffId f) 0) part)"

lemma fee_of_cong: "(\<And>f. f \<in> set part \<Longrightarrow> map_of fees (ffId f) = map_of fees' (ffId f)) \<Longrightarrow> fee_of fees part = fee_of fees' part"
  unfolding fee_of_def get_or_def by (induction part) auto

definition parts_ok ::
  "fee_fill list \<Rightarrow> taken_call list \<Rightarrow> (string \<times> int) list \<Rightarrow> string list \<Rightarrow> string list \<Rightarrow> (string \<times> int) list \<Rightarrow> fee_fill list list \<Rightarrow> bool" where
  "parts_ok fills calls fees' assigned' assigned fees parts =
     (list_all2 (\<lambda>call part. call_part call part \<and> fee_of fees' part = tcTakerFee call) calls parts
    \<and> assigned' = assigned @ map ffId (concat parts) \<and> distinct assigned' \<and> set (concat parts) \<subseteq> set fills
    \<and> fst ` set fees' = set assigned' \<and> distinct (map fst fees') \<and> (\<forall>k \<in> set assigned. map_of fees' k = map_of fees k))"

lemma take_loop_parts:
  assumes "take_loop fills calls assigned fees = Inr (assigned', fees')" "distinct (map ffId fills)"
    "distinct (map fst fees)" "fst ` set fees = set assigned" "distinct assigned"
  shows "\<exists>parts. parts_ok fills calls fees' assigned' assigned fees parts"
  using assms
proof (induction fills calls assigned fees rule: take_loop.induct)
  case (2 fills call calls assigned fees)
  obtain part fees2 where m: "match_call fills assigned call = Inr part"
    and a: "allocate_fees (tcTakerFee call) (tcPremium call) part 0 fees = Inr fees2"
    using "2.prems"(1) by (auto split: sum.splits)
  note mp = match_call_part [OF m]
  have dp: "distinct (map ffId part)" and fresh: "\<forall>f \<in> set part. ffId f \<notin> set assigned" using mp "2.prems"(2) by auto
  have af: "distinct (map fst fees2) \<and> fst ` set fees2 = fst ` set fees \<union> ffId ` set part
    \<and> (part \<noteq> [] \<longrightarrow> sum_list (map (\<lambda>f. get_or fees2 (ffId f) 0) part) = tcTakerFee call - 0)
    \<and> (\<forall>k. k \<notin> ffId ` set part \<longrightarrow> map_of fees2 k = map_of fees k)"
    using allocate_fees_sum [OF a dp "2.prems"(3)] fresh "2.prems"(4) by blast
  let ?as = "assigned @ map ffId part"
  have rec: "take_loop fills calls ?as fees2 = Inr (assigned', fees')"
    using "2.prems"(1) m a add_part [OF dp fresh] by simp
  have d: "distinct ?as" using dp fresh "2.prems"(5) by auto
  have keys: "fst ` set fees2 = set ?as" using af "2.prems"(4) by auto
  have "take_loop fills calls (foldl (\<lambda>a fill. set_add (ffId fill) a) assigned part) fees2 = Inr (assigned', fees')"
    using rec by (simp only: add_part [OF dp fresh])
  then have "\<exists>parts. parts_ok fills calls fees' assigned' ?as fees2 parts"
    using "2.IH" [OF m a] "2.prems"(2) af keys d unfolding add_part [OF dp fresh] by blast
  then obtain parts where ih: "parts_ok fills calls fees' assigned' ?as fees2 parts" ..
  note ih = ih [unfolded parts_ok_def, THEN conjunct1]
    ih [unfolded parts_ok_def, THEN conjunct2, THEN conjunct1]
    ih [unfolded parts_ok_def, THEN conjunct2, THEN conjunct2]
  have "fee_of fees' part = fee_of fees2 part" using ih(3) by (intro fee_of_cong) simp
  also have "\<dots> = tcTakerFee call"
    using af mp by (cases "part = []") (simp_all add: fee_of_def call_part_def)
  finally have "list_all2 (\<lambda>call part. call_part call part \<and> fee_of fees' part = tcTakerFee call) (call # calls) (part # parts)"
    using ih(1) mp by simp
  moreover have "\<forall>k \<in> set assigned. map_of fees' k = map_of fees k"
  proof
    fix k assume k: "k \<in> set assigned"
    then have "k \<notin> ffId ` set part" using fresh by auto
    then show "map_of fees' k = map_of fees k" using ih(3) af k by simp
  qed
  moreover have "assigned' = assigned @ map ffId (concat (part # parts))" using ih(2) by simp
  moreover have "set (concat (part # parts)) \<subseteq> set fills" using ih(3) mp by auto
  ultimately have "parts_ok fills (call # calls) fees' assigned' assigned fees (part # parts)"
    unfolding parts_ok_def using ih(3) by blast
  then show ?case ..
next
  case (1 fills assigned fees)
  then have "parts_ok fills [] fees' assigned' assigned fees []" by (simp add: parts_ok_def)
  then show ?case ..
qed

text \<open>
  a successful match divides all fills among the calls, in log order: every call gets its own fills, worth
  exactly its units and its premium, and the fees of those fills add up to the call's fee to the
  last base unit. Every fill has exactly one call and exactly one fee.
\<close>

theorem matchTakeFees_exact:
  assumes "matchTakeFees fills calls = Inr fees"
  shows "\<exists>parts. list_all2 (\<lambda>call part. call_part call part \<and> fee_of fees part = tcTakerFee call)
      (js_sort (\<lambda>a b. tcLogIndex a - tcLogIndex b) calls) parts
    \<and> mset (concat parts) = mset fills \<and> distinct (map fst fees) \<and> fst ` set fees = ffId ` set fills"
proof -
  obtain assigned where t: "take_loop fills (js_sort (\<lambda>a b. tcLogIndex a - tcLogIndex b) calls) [] [] = Inr (assigned, fees)"
    and l: "length assigned = length fills"
    using assms by (auto simp: matchTakeFees_def split: sum.splits if_splits)
  have a: "distinct assigned" "set assigned \<subseteq> ffId ` set fills" using take_loop_assigned [OF t] by auto
  have "length fills \<le> card (ffId ` set fills)" using card_mono [OF _ a(2)] a(1) l by (simp add: distinct_card)
  then have "card (set (map ffId fills)) = length (map ffId fills)" using card_length [of "map ffId fills"] by simp
  then have df: "distinct (map ffId fills)" by (rule card_distinct)
  obtain parts where p: "list_all2 (\<lambda>call part. call_part call part \<and> fee_of fees part = tcTakerFee call)
      (js_sort (\<lambda>a b. tcLogIndex a - tcLogIndex b) calls) parts"
    "assigned = [] @ map ffId (concat parts)" "distinct assigned" "set (concat parts) \<subseteq> set fills"
    "fst ` set fees = set assigned" "distinct (map fst fees)"
    using take_loop_parts [OF t df] unfolding parts_ok_def by auto
  have dc: "distinct (concat parts)" and lc: "length (concat parts) = length fills"
    using p(2,3) l by (simp_all only: append_Nil distinct_map length_map)
  have "card (set (concat parts)) = card (set fills)"
    using distinct_card [OF dc] lc df distinct_card [of fills] by (simp add: distinct_map del: set_concat)
  then have "set (concat parts) = set fills" using p(4) by (intro card_subset_eq) auto
  then have "mset (concat parts) = mset fills" using dc df by (metis distinct_map set_eq_iff_mset_eq_distinct)
  then show ?thesis using p \<open>set (concat parts) = set fills\<close> by (intro exI [of _ parts]) auto
qed

definition sample_fee_fills :: "fee_fill list" where
  "sample_fee_fills = [\<lparr>ffId = ''a'', ffTx = ''0xt'', ffLongId = 2, ffTaker = ''0xA'', ffTakerIsBuyer = True, ffUnits = 1, ffPremium = 10, ffLogIndex = 3\<rparr>,
     \<lparr>ffId = ''b'', ffTx = ''0xt'', ffLongId = 2, ffTaker = ''0xA'', ffTakerIsBuyer = True, ffUnits = 2, ffPremium = 20, ffLogIndex = 5\<rparr>]"

definition sample_calls :: "taken_call list" where
  "sample_calls = [\<lparr>tcTx = ''0xT'', tcLongId = 2, tcTaker = ''0xa'', tcBuying = True, tcUnits = 3, tcPremium = 30, tcTakerFee = 7, tcLogIndex = 6\<rparr>]"

theorem matchTakeFees_exact_witness:
  "\<exists>fees parts. matchTakeFees sample_fee_fills sample_calls = Inr fees \<and> get_or fees ''a'' 0 = 2 \<and> get_or fees ''b'' 0 = 5
     \<and> mset (concat parts) = mset sample_fee_fills \<and> distinct (map fst fees)"
proof -
  have "case matchTakeFees sample_fee_fills sample_calls of Inl _ \<Rightarrow> False | Inr fees \<Rightarrow> get_or fees ''a'' 0 = 2 \<and> get_or fees ''b'' 0 = 5"
    by code_simp
  then obtain fees where f: "matchTakeFees sample_fee_fills sample_calls = Inr fees" "get_or fees ''a'' 0 = 2" "get_or fees ''b'' 0 = 5"
    by (auto split: sum.splits)
  with matchTakeFees_exact [OF f(1)] show ?thesis by blast
qed

end
