(* ===== verification/LinkGraph.thy ===== *)
theory LinkGraph
  imports JsPrelude
begin

section \<open>Linked wallets (the class Links of indexer/lib/v2/selfTrade.ts)\<close>

text \<open>
  Wallets are joined by a union-find structure with path compression. The search for a root recurses
  without a bound, so it is a partial function whose value \<open>None\<close> means that it does not return; a structure
  built by \<open>add\<close> always returns, and two wallets are connected exactly when a chain of added pairs joins them.
\<close>

record self_link =
  slId :: string
  slLeft :: address
  slRight :: address

record links =
  lkEdges :: "(string \<times> self_link) list"
  lkParent :: "(string \<times> string) list"

partial_function (option) find_root :: "(string \<times> string) list \<Rightarrow> string \<Rightarrow> (string \<times> (string \<times> string) list) option" where
  "find_root parents v =
     (case map_of parents v of
        None \<Rightarrow> Some (v, AList.update v v parents)
      | Some p \<Rightarrow> if p = v then Some (v, parents)
          else Option.bind (find_root parents p) (\<lambda>(root, ps). Some (root, AList.update v root ps)))"

declare find_root.simps [code]

definition add_link :: "string list \<Rightarrow> string \<times> string \<Rightarrow> links \<Rightarrow> links option" where
  "add_link excluded raw g =
     (let left = lower (fst raw); right = lower (snd raw)
      in if left = right \<or> left \<in> set excluded \<or> right \<in> set excluded then Some g
         else let (first, second) = (if left < right then (left, right) else (right, left));
                  eid = first @ '':'' @ second;
                  edges = AList.update eid \<lparr>slId = eid, slLeft = first, slRight = second\<rparr> (lkEdges g)
              in Option.bind (find_root (lkParent g) first) (\<lambda>(firstRoot, ps1).
                 Option.bind (find_root ps1 second) (\<lambda>(secondRoot, ps2).
                   Some \<lparr>lkEdges = edges,
                         lkParent = (if firstRoot \<noteq> secondRoot then AList.update secondRoot firstRoot ps2 else ps2)\<rparr>)))"

fun add_links :: "string list \<Rightarrow> (string \<times> string) list \<Rightarrow> links \<Rightarrow> links option" where
  "add_links excluded [] g = Some g"
| "add_links excluded (p # ps) g = Option.bind (add_link excluded p g) (add_links excluded ps)"

definition connected :: "string list \<Rightarrow> (string \<times> string) list \<Rightarrow> string \<Rightarrow> string \<Rightarrow> (bool \<times> (string \<times> string) list) option" where
  "connected excluded parents leftRaw rightRaw =
     (let left = lower leftRaw; right = lower rightRaw
      in if left \<in> set excluded \<or> right \<in> set excluded then Some (False, parents)
         else if left = right then Some (True, parents)
         else if map_of parents left = None \<or> map_of parents right = None then Some (False, parents)
         else Option.bind (find_root parents left) (\<lambda>(r1, ps1).
              Option.bind (find_root ps1 right) (\<lambda>(r2, ps2). Some (r1 = r2, ps2))))"

subsection \<open>Roots\<close>

inductive root :: "(string \<rightharpoonup> string) \<Rightarrow> string \<Rightarrow> string \<Rightarrow> bool" for p where
  root_self: "p v = Some v \<Longrightarrow> root p v v"
| root_step: "p v = Some w \<Longrightarrow> w \<noteq> v \<Longrightarrow> root p w r \<Longrightarrow> root p v r"

inductive_cases root_cases: "root p v r"

lemma root_dom: "root p v r \<Longrightarrow> v \<in> dom p \<and> p r = Some r"
  by (induction rule: root.induct) auto

lemma root_det: "root p v r \<Longrightarrow> root p v s \<Longrightarrow> r = s"
proof (induction arbitrary: s rule: root.induct)
  case (root_self v)
  then show ?case by (auto elim: root_cases)
next
  case (root_step v w r)
  from root_step.prems root_step.hyps have "root p w s" by (auto elim: root_cases)
  then show ?case by (rule root_step.IH)
qed

lemma root_root: "root p v r \<Longrightarrow> root p r s \<longleftrightarrow> s = r"
  using root_dom root_det root_self by metis

text \<open>Pointing a wallet at its own root changes no root.\<close>

lemma compress_root:
  assumes "root p v r"
  shows "root (p(v \<mapsto> r)) u s \<longleftrightarrow> root p u s"
proof
  assume "root (p(v \<mapsto> r)) u s"
  then show "root p u s"
  proof (induction rule: root.induct)
    case (root_self u)
    then show ?case using assms root_dom [OF assms] by (auto simp: root.root_self split: if_splits)
  next
    case (root_step u w s)
    show ?case
    proof (cases "u = v")
      case True
      then have "w = r" using root_step.hyps by simp
      then have "s = r" using root_step.IH root_root [OF assms] by simp
      then show ?thesis using True assms by simp
    next
      case False
      then show ?thesis using root_step by (auto intro: root.root_step)
    qed
  qed
next
  have rr: "root (p(v \<mapsto> r)) r r" using root_dom [OF assms] by (intro root.root_self) (auto split: if_splits)
  assume "root p u s"
  then show "root (p(v \<mapsto> r)) u s"
  proof (induction rule: root.induct)
    case (root_self u)
    then have "root p u u" by (rule root.root_self)
    show ?case
    proof (cases "u = v")
      case True
      then have "r = v" using assms \<open>root p u u\<close> root_det by blast
      then show ?thesis using rr True by (simp del: fun_upd_apply)
    next
      case False
      then show ?thesis using root_self by (intro root.root_self) simp
    qed
  next
    case (root_step u w s)
    show ?case
    proof (cases "u = v")
      case True
      have "root p u s" using root_step.hyps by (rule root.root_step)
      then have sr: "s = r" using True assms root_det by blast
      show ?thesis
      proof (cases "r = v")
        case True
        then show ?thesis using rr sr \<open>u = v\<close> by (simp del: fun_upd_apply)
      next
        case False
        then show ?thesis using rr sr \<open>u = v\<close> by - (rule root.root_step [where w = r], simp, simp, simp del: fun_upd_apply)
      qed
    next
      case False
      then show ?thesis using root_step by (auto intro: root.root_step)
    qed
  qed
qed

definition rooted :: "(string \<rightharpoonup> string) \<Rightarrow> bool" where
  "rooted p = (\<forall>v \<in> dom p. \<exists>r. root p v r)"

text \<open>A wallet seen for the first time is its own root.\<close>

lemma fresh_root:
  assumes "rooted p" "v \<notin> dom p"
  shows "root (p(v \<mapsto> v)) u s \<longleftrightarrow> root p u s \<or> (u = v \<and> s = v)"
proof
  assume "root (p(v \<mapsto> v)) u s"
  then show "root p u s \<or> (u = v \<and> s = v)"
  proof (induction rule: root.induct)
    case (root_self u)
    then show ?case by (cases "u = v") (simp_all add: root.root_self)
  next
    case (root_step u w s)
    then have u: "u \<noteq> v" "p u = Some w" by (auto split: if_splits)
    then obtain r where "root p u r" using assms(1) by (auto simp: rooted_def)
    then have "root p w r" using u root_step.hyps by (auto elim: root_cases)
    then have "w \<noteq> v" using assms(2) root_dom by blast
    then have "root p w s" using root_step.IH by simp
    then show ?case using root_step.hyps(2) u by (simp add: root.root_step)
  qed
next
  have vv: "root (p(v \<mapsto> v)) v v" by (rule root.root_self) simp
  assume "root p u s \<or> (u = v \<and> s = v)"
  then show "root (p(v \<mapsto> v)) u s"
  proof
    assume "root p u s"
    then show ?thesis
    proof (induction rule: root.induct)
      case (root_self u)
      then have "u \<noteq> v" using assms(2) by auto
      then show ?case using root_self by (intro root.root_self) simp
    next
      case (root_step u w s)
      then have "u \<noteq> v" using assms(2) by auto
      then show ?case using root_step by - (rule root.root_step [where w = w], auto)
    qed
  next
    assume "u = v \<and> s = v"
    then show ?thesis using vv by (simp del: fun_upd_apply)
  qed
qed

lemma find_root_Some:
  "root (map_of ps) v r \<Longrightarrow> \<exists>ps'. find_root ps v = Some (r, ps') \<and> dom (map_of ps') = dom (map_of ps)
     \<and> (\<forall>u s. root (map_of ps') u s \<longleftrightarrow> root (map_of ps) u s)"
proof (induction rule: root.induct)
  case (root_self v)
  then show ?case by (simp add: find_root.simps)
next
  case (root_step v w r)
  then obtain ps' where ps': "find_root ps w = Some (r, ps')" "dom (map_of ps') = dom (map_of ps)"
    "\<forall>u s. root (map_of ps') u s \<longleftrightarrow> root (map_of ps) u s" by auto
  have "root (map_of ps) v r" using root_step.hyps by (rule root.root_step)
  then have "root (map_of ps') v r" using ps'(3) by simp
  note c = compress_root [OF this]
  have "find_root ps v = Some (r, AList.update v r ps')"
    using root_step.hyps ps'(1) by (simp add: find_root.simps [of ps v])
  moreover have "v \<in> dom (map_of ps)" using root_step.hyps by auto
  ultimately show ?case using c ps'(2,3) by auto
qed

lemma find_root_total:
  assumes "rooted (map_of ps)"
  shows "\<exists>r ps'. find_root ps v = Some (r, ps') \<and> dom (map_of ps') = insert v (dom (map_of ps)) \<and> root (map_of ps') v r
     \<and> rooted (map_of ps') \<and> (\<forall>u s. root (map_of ps') u s \<longleftrightarrow> root (map_of ps) u s \<or> (v \<notin> dom (map_of ps) \<and> u = v \<and> s = v))"
proof (cases "v \<in> dom (map_of ps)")
  case True
  then obtain r where r: "root (map_of ps) v r" using assms by (auto simp: rooted_def)
  from find_root_Some [OF r] obtain ps' where "find_root ps v = Some (r, ps')" "dom (map_of ps') = dom (map_of ps)"
    "\<forall>u s. root (map_of ps') u s \<longleftrightarrow> root (map_of ps) u s" by blast
  then show ?thesis using True r assms
    by (intro exI [of _ r] exI [of _ ps']) (simp add: rooted_def insert_absorb)
next
  case False
  note fr = fresh_root [OF assms False]
  have "find_root ps v = Some (v, AList.update v v ps)" using False by (simp add: find_root.simps domIff)
  moreover have "rooted (map_of (AList.update v v ps))" using assms fr by (auto simp: rooted_def)
  ultimately show ?thesis using fr False by auto
qed

subsection \<open>Chains of pairs\<close>

text \<open>The pairs that count: different wallets, neither excluded; and the wallets that chains of them join.\<close>

fun edge_set :: "string list \<Rightarrow> (string \<times> string) list \<Rightarrow> (string \<times> string) set" where
  "edge_set excluded [] = {}"
| "edge_set excluded (p # ps) =
     (let l = lower (fst p); r = lower (snd p)
      in if l = r \<or> l \<in> set excluded \<or> r \<in> set excluded then {} else {(l, r), (r, l)}) \<union> edge_set excluded ps"

definition linked_by :: "string list \<Rightarrow> (string \<times> string) list \<Rightarrow> string \<Rightarrow> string \<Rightarrow> bool" where
  "linked_by excluded ps l r =
     (lower l \<notin> set excluded \<and> lower r \<notin> set excluded \<and> (lower l, lower r) \<in> (edge_set excluded ps)\<^sup>*)"

definition graph_ok :: "(string \<rightharpoonup> string) \<Rightarrow> (string \<times> string) set \<Rightarrow> bool" where
  "graph_ok p E = (rooted p \<and> Field E \<subseteq> dom p \<and>
     (\<forall>u \<in> dom p. \<forall>v \<in> dom p. (\<exists>r. root p u r \<and> root p v r) \<longleftrightarrow> (u, v) \<in> E\<^sup>*))"

lemma rtrancl_outside: "v \<notin> Field E \<Longrightarrow> (v, u) \<in> E\<^sup>* \<longleftrightarrow> u = v" "v \<notin> Field E \<Longrightarrow> (u, v) \<in> E\<^sup>* \<longleftrightarrow> u = v"
  by (auto elim: converse_rtranclE rtranclE simp: Field_def)

lemma find_root_ok:
  assumes "graph_ok (map_of ps) E"
  shows "\<exists>r ps'. find_root ps v = Some (r, ps') \<and> graph_ok (map_of ps') E \<and> root (map_of ps') v r
    \<and> (\<forall>u s. root (map_of ps) u s \<longrightarrow> root (map_of ps') u s)"
proof -
  obtain r ps' where f: "find_root ps v = Some (r, ps')" "dom (map_of ps') = insert v (dom (map_of ps))" "root (map_of ps') v r"
    "rooted (map_of ps')"
    "\<And>u s. root (map_of ps') u s \<longleftrightarrow> root (map_of ps) u s \<or> (v \<notin> dom (map_of ps) \<and> u = v \<and> s = v)"
    using find_root_total [of ps v] assms by (auto simp: graph_ok_def)
  have "graph_ok (map_of ps') E"
  proof (cases "v \<in> dom (map_of ps)")
    case True
    then show ?thesis using f assms by (simp add: graph_ok_def insert_absorb)
  next
    case False
    then have out: "v \<notin> Field E" using assms by (auto simp: graph_ok_def)
    have new: "root (map_of ps') u s \<longleftrightarrow> (if u = v then s = v else root (map_of ps) u s)" for u s
      using f(5) [of u s] False root_dom [of "map_of ps" u s] by auto
    have old: "root (map_of ps) u s \<Longrightarrow> s \<noteq> v" for u s using root_dom False by blast
    have "(\<exists>r. root (map_of ps') a r \<and> root (map_of ps') b r) \<longleftrightarrow> (a, b) \<in> E\<^sup>*" if "a \<in> dom (map_of ps')" "b \<in> dom (map_of ps')" for a b
      using that assms old out f(2) by (cases "a = v"; cases "b = v") (auto simp: new graph_ok_def rtrancl_outside)
    then show ?thesis using f(2,4) assms unfolding graph_ok_def by blast
  qed
  then show ?thesis using f by blast
qed

lemma rtrancl_add_edge:
  assumes "sym E"
  shows "(u, v) \<in> (E \<union> {(a, b), (b, a)})\<^sup>* \<longleftrightarrow>
    (u, v) \<in> E\<^sup>* \<or> (u, a) \<in> E\<^sup>* \<and> (b, v) \<in> E\<^sup>* \<or> (u, b) \<in> E\<^sup>* \<and> (a, v) \<in> E\<^sup>*"
    (is "?L \<longleftrightarrow> ?R u v")
proof
  assume ?L
  then show "?R u v"
  proof (induction rule: rtrancl_induct)
    case base
    then show ?case by simp
  next
    case (step y z)
    have s: "(x, y) \<in> E\<^sup>* \<longleftrightarrow> (y, x) \<in> E\<^sup>*" for x y using sym_rtrancl [OF assms] by (auto dest: symD)
    from step.hyps(2) consider "(y, z) \<in> E" | "y = a" "z = b" | "y = b" "z = a" by blast
    then show ?case
    proof cases
      case 1
      then show ?thesis using step.IH by (meson rtrancl.rtrancl_into_rtrancl)
    next
      case 2
      then show ?thesis using step.IH s by (meson rtrancl.rtrancl_refl rtrancl_trans)
    next
      case 3
      then show ?thesis using step.IH s by (meson rtrancl.rtrancl_refl rtrancl_trans)
    qed
  qed
next
  have m: "E\<^sup>* \<subseteq> (E \<union> {(a, b), (b, a)})\<^sup>*" by (rule rtrancl_mono) blast
  have e: "(a, b) \<in> (E \<union> {(a, b), (b, a)})\<^sup>*" "(b, a) \<in> (E \<union> {(a, b), (b, a)})\<^sup>*" by auto
  assume "?R u v"
  then show ?L using m e by (meson rtrancl_trans subsetD)
qed

text \<open>Joining two roots joins their classes.\<close>

lemma union_root:
  assumes "p r1 = Some r1" "p r2 = Some r2" "r1 \<noteq> r2"
  shows "root (p(r2 \<mapsto> r1)) u s \<longleftrightarrow> (if root p u r2 then s = r1 else root p u s)"
proof -
  have new1: "root (p(r2 \<mapsto> r1)) r1 r1" using assms by - (rule root.root_self, simp)
  have fwd: "root p u s \<Longrightarrow> root (p(r2 \<mapsto> r1)) u (if s = r2 then r1 else s)" for u s
  proof (induction rule: root.induct)
    case (root_self v)
    show ?case
    proof (cases "v = r2")
      case True
      then show ?thesis using new1 assms(3) by - (rule root.root_step [where w = r1], simp, simp, simp del: fun_upd_apply)
    next
      case False
      then show ?thesis using root_self by - (simp, rule root.root_self, simp)
    qed
  next
    case (root_step v w r)
    then have "v \<noteq> r2" using assms(2) by auto
    then show ?case using root_step by - (rule root.root_step [where w = w], auto)
  qed
  have bwd: "root (p(r2 \<mapsto> r1)) u s \<Longrightarrow> (root p u r2 \<and> s = r1) \<or> (root p u s \<and> s \<noteq> r2)" for u s
  proof (induction rule: root.induct)
    case (root_self v)
    then show ?case using assms(3) by (auto intro: root.root_self split: if_splits)
  next
    case (root_step v w r)
    show ?case
    proof (cases "v = r2")
      case True
      then have "w = r1" "root p v r2" using root_step.hyps assms root.root_self by auto
      moreover have "root p r1 r1" using assms by - (rule root.root_self)
      then have "r = r1" using root_step.IH \<open>w = r1\<close> root_det assms(3) by metis
      ultimately show ?thesis by simp
    next
      case False
      then show ?thesis using root_step by (auto intro: root.root_step)
    qed
  qed
  show ?thesis using fwd bwd root_det by metis
qed

lemma edge_sym: "sym (edge_set excluded ps)"
  by (induction ps) (auto simp: Let_def sym_def split: if_splits)

lemma add_link_ok:
  assumes "graph_ok (map_of (lkParent g)) E" "sym E"
  shows "\<exists>g'. add_link excluded p g = Some g' \<and> graph_ok (map_of (lkParent g')) (edge_set excluded [p] \<union> E)"
proof -
  let ?l = "lower (fst p)" and ?r = "lower (snd p)"
  show ?thesis
  proof (cases "?l = ?r \<or> ?l \<in> set excluded \<or> ?r \<in> set excluded")
    case True
    then show ?thesis using assms by (auto simp: add_link_def Let_def)
  next
    case False
    obtain a b where ab: "(a, b) = (if ?l < ?r then (?l, ?r) else (?r, ?l))" by (metis surj_pair)
    then have es: "edge_set excluded [p] = {(a, b), (b, a)}" using False by (auto simp: Let_def split: if_splits)
    obtain r1 ps1 where f1: "find_root (lkParent g) a = Some (r1, ps1)" "graph_ok (map_of ps1) E" "root (map_of ps1) a r1"
      using find_root_ok [OF assms(1), of a] by blast
    obtain r2 ps2 where f2: "find_root ps1 b = Some (r2, ps2)" "graph_ok (map_of ps2) E" "root (map_of ps2) b r2"
      "\<forall>u s. root (map_of ps1) u s \<longrightarrow> root (map_of ps2) u s"
      using find_root_ok [OF f1(2), of b] by blast
    have ra: "root (map_of ps2) a r1" using f1(3) f2(4) by blast
    let ?p = "map_of ps2"
    let ?E = "E \<union> {(a, b), (b, a)}"
    let ?q = "if r1 \<noteq> r2 then ?p(r2 \<mapsto> r1) else ?p"
    obtain g' where g': "add_link excluded p g = Some g'" "map_of (lkParent g') = ?q"
      using False f1(1) f2(1) ab [symmetric] by (simp add: add_link_def Let_def split: prod.splits)
    have dom: "a \<in> dom ?p" "b \<in> dom ?p" "r1 \<in> dom ?p" "r2 \<in> dom ?p" "?p r1 = Some r1" "?p r2 = Some r2"
      using root_dom [OF ra] root_dom [OF f2(3)] by auto
    have rooted: "rooted ?p" and field: "Field E \<subseteq> dom ?p"
      and same: "\<And>u v. u \<in> dom ?p \<Longrightarrow> v \<in> dom ?p \<Longrightarrow> (\<exists>r. root ?p u r \<and> root ?p v r) \<longleftrightarrow> (u, v) \<in> E\<^sup>*"
      using f2(2) by (auto simp: graph_ok_def)
    have dq: "dom ?q = dom ?p" using dom by auto
    have ex: "\<exists>r. root ?p u r" if "u \<in> dom ?p" for u using rooted that by (auto simp: rooted_def)
    have q: "root ?q u s \<longleftrightarrow> (if root ?p u r2 then s = r1 else root ?p u s)" for u s
      using union_root [OF dom(5,6)] root_det by (cases "r1 = r2") auto
    have toA: "root ?p u r1 \<longleftrightarrow> (u, a) \<in> E\<^sup>*" and toB: "root ?p u r2 \<longleftrightarrow> (u, b) \<in> E\<^sup>*" if "u \<in> dom ?p" for u
      using same [OF that dom(1)] same [OF that dom(2)] ra f2(3) root_det by metis+
    have s: "(x, y) \<in> E\<^sup>* \<longleftrightarrow> (y, x) \<in> E\<^sup>*" for x y using sym_rtrancl [OF assms(2)] by (auto dest: symD)
    have "(\<exists>r. root ?q u r \<and> root ?q v r) \<longleftrightarrow> (u, v) \<in> ?E\<^sup>*" if uv: "u \<in> dom ?p" "v \<in> dom ?p" for u v
    proof -
      have "(\<exists>r. root ?q u r \<and> root ?q v r) \<longleftrightarrow>
          (\<exists>r. root ?p u r \<and> root ?p v r) \<or> root ?p u r1 \<and> root ?p v r2 \<or> root ?p u r2 \<and> root ?p v r1"
      proof -
        obtain ru rv where "root ?p u ru" "root ?p v rv" using ex uv by metis
        then have "root ?p u x \<longleftrightarrow> x = ru" "root ?p v x \<longleftrightarrow> x = rv" for x using root_det by metis+
        then show ?thesis unfolding q by auto
      qed
      also have "\<dots> \<longleftrightarrow> (u, v) \<in> ?E\<^sup>*"
        unfolding rtrancl_add_edge [OF assms(2)] same [OF uv] toA [OF uv(1)] toB [OF uv(1)] toA [OF uv(2)] toB [OF uv(2)]
        using s by blast
      finally show ?thesis .
    qed
    moreover have "rooted ?q" unfolding rooted_def dq using ex q by metis
    moreover have "Field ?E \<subseteq> dom ?p" using field dom by (auto simp: Field_def)
    ultimately have "graph_ok ?q ?E" unfolding graph_ok_def dq by blast
    then show ?thesis using g' es by (auto simp: Un_commute)
  qed
qed

lemma add_links_ok:
  assumes "graph_ok (map_of (lkParent g)) E" "sym E"
  shows "\<exists>g'. add_links excluded ps g = Some g' \<and> graph_ok (map_of (lkParent g')) (edge_set excluded ps \<union> E)"
  using assms
proof (induction ps arbitrary: g E)
  case (Cons p ps)
  obtain g1 where g1: "add_link excluded p g = Some g1" "graph_ok (map_of (lkParent g1)) (edge_set excluded [p] \<union> E)"
    using add_link_ok [OF Cons.prems] by blast
  have "sym (edge_set excluded [p] \<union> E)" using Cons.prems(2) edge_sym by (rule sym_Un [rotated])
  from Cons.IH [OF g1(2) this] g1(1) show ?case by (auto simp: Un_ac)
qed simp

lemma graph_ok_empty: "graph_ok Map.empty {}"
  by (auto simp: graph_ok_def rooted_def)

lemma connected_ok:
  assumes "graph_ok (map_of parents) (edge_set excluded ps)"
  shows "\<exists>parents'. connected excluded parents l r = Some (linked_by excluded ps l r, parents')
    \<and> graph_ok (map_of parents') (edge_set excluded ps)"
proof -
  let ?E = "edge_set excluded ps" and ?l = "lower l" and ?r = "lower r"
  consider "?l \<in> set excluded \<or> ?r \<in> set excluded" | "?l \<notin> set excluded" "?r \<notin> set excluded" "?l = ?r"
    | "?l \<notin> set excluded" "?r \<notin> set excluded" "?l \<noteq> ?r" "?l \<notin> dom (map_of parents) \<or> ?r \<notin> dom (map_of parents)"
    | "?l \<notin> set excluded" "?r \<notin> set excluded" "?l \<noteq> ?r" "?l \<in> dom (map_of parents)" "?r \<in> dom (map_of parents)" by blast
  then show ?thesis
  proof cases
    case 3
    then have "?l \<notin> Field ?E \<or> ?r \<notin> Field ?E" using assms by (auto simp: graph_ok_def)
    then have "\<not> linked_by excluded ps l r" using 3(3) by (auto simp: linked_by_def rtrancl_outside)
    then show ?thesis using 3 assms by (simp add: connected_def Let_def domIff)
  next
    case 4
    obtain r1 ps1 where f1: "find_root parents ?l = Some (r1, ps1)" "graph_ok (map_of ps1) ?E" "root (map_of ps1) ?l r1"
      using find_root_ok [OF assms, of ?l] by blast
    obtain r2 ps2 where f2: "find_root ps1 ?r = Some (r2, ps2)" "graph_ok (map_of ps2) ?E" "root (map_of ps2) ?r r2"
      "\<forall>u s. root (map_of ps1) u s \<longrightarrow> root (map_of ps2) u s"
      using find_root_ok [OF f1(2), of ?r] by blast
    have l: "root (map_of ps2) ?l r1" using f1(3) f2(4) by blast
    have "(\<exists>s. root (map_of ps2) ?l s \<and> root (map_of ps2) ?r s) \<longleftrightarrow> (?l, ?r) \<in> ?E\<^sup>*"
      using f2(2) root_dom [OF l] root_dom [OF f2(3)] by (auto simp: graph_ok_def)
    then have "r1 = r2 \<longleftrightarrow> (?l, ?r) \<in> ?E\<^sup>*" using l f2(3) root_det by metis
    moreover have "map_of parents ?l \<noteq> None" "map_of parents ?r \<noteq> None" using 4(4,5) by auto
    ultimately show ?thesis using 4 f1(1) f2(1,2) by (auto simp: connected_def Let_def linked_by_def)
  qed (use assms in \<open>auto simp: connected_def Let_def linked_by_def\<close>)
qed

text \<open>
  C9: the graph of linked wallets always answers, and its answer is reachability: after any pairs were added, in
  any order, two wallets are connected exactly when neither is excluded and a chain of added pairs,
  which no excluded wallet is part of, joins them (or they are the same wallet).
\<close>

theorem connected_is_reachability:
  "\<exists>g parents. add_links excluded ps \<lparr>lkEdges = [], lkParent = []\<rparr> = Some g \<and>
     connected excluded (lkParent g) l r = Some (linked_by excluded ps l r, parents)"
proof -
  obtain g where "add_links excluded ps \<lparr>lkEdges = [], lkParent = []\<rparr> = Some g" "graph_ok (map_of (lkParent g)) (edge_set excluded ps)"
    using add_links_ok [of "\<lparr>lkEdges = [], lkParent = []\<rparr>" "{}" excluded ps] graph_ok_empty by (auto simp: sym_def)
  then show ?thesis using connected_ok by blast
qed

end
