(* ===== verification/SelfTrade.thy ===== *)
theory SelfTrade
  imports LinkGraph
begin

section \<open>Linked-wallet resales (indexer/lib/v2/selfTrade.ts)\<close>

text \<open>
  The reduction that counts units a writer sold at the floor price to a wallet linked to it and that
  this wallet then resold. Wallets are joined by a union-find structure; inventory is a list of lots.
  \<open>localeCompare\<close> is the argument \<open>collate\<close>. The lots are shared, mutable objects: the copy of the array
  that \<open>consume\<close> sorts holds the positions of its lots, and a write goes to the position.
  An endless search for a root would be the error \<open>NoReturn\<close>; a theorem below shows that it does not happen.
\<close>

definition ZERO_ADDRESS :: address where "ZERO_ADDRESS = ''0x0000000000000000000000000000000000000000''"
definition ST_PRICE_TICK :: int where "ST_PRICE_TICK = 100"
definition SELF_TRADE_MIN_PRICE_TICKS :: int where "SELF_TRADE_MIN_PRICE_TICKS = 1"
definition SELF_TRADE_SUSPECT_PRICE_TICKS :: int where "SELF_TRADE_SUSPECT_PRICE_TICKS = 10"

record st_fill =
  sfMaker :: address
  sfTaker :: address
  sfRecipient :: address
  sfBuyer :: address
  sfSeller :: address
  sfPrice :: int
  sfPrimary :: bool
  sfTakerIsBuyer :: bool
  sfFairAtFill :: "int option"

datatype st_kind = KFill st_fill | KTransfer address address | KMint address | KClose address | KRedemption address

record st_event =
  evBlock :: int
  evLogIndex :: int
  evTs :: seconds
  evId :: string
  evLongId :: int
  evUnits :: int
  evKind :: st_kind

datatype link_source = CashFlow | Operator | Approval | Delegate

record link_evidence =
  leLeft :: address
  leRight :: address
  leSource :: link_source

text \<open>A text column with a JSON object; the flag says whether the value is \<open>true\<close>.\<close>

datatype link_map = LinkObject "(string \<times> bool) list" | NotAnObject

record account_links =
  alAccount :: address
  alOperators :: link_map
  alApprovals :: link_map
  alDelegates :: link_map

record cash_flow =
  cfAccount :: address
  cfActor :: address

record st_lot =
  loId :: string
  loLongId :: int
  loHolder :: address
  loWriter :: "address option"
  loPrimaryFillId :: "string option"
  loUnits :: int
  loRemaining :: int
  loCreatedBlock :: int
  loCreatedLogIndex :: int
  loSourceId :: string

record st_maker =
  smWriter :: address
  smUnits :: int

datatype unseen_reason = PriceAboveCountedBand | NoLinkEvidence

record st_unseen =
  suReason :: unseen_reason
  suUnits :: int
  suFills :: int

record st_state =
  stCursor :: int
  stLinks :: "self_link list"
  stLots :: "st_lot list"
  stMakers :: "st_maker list"
  stUnseen :: "st_unseen list option"

record st_batch =
  sbThrough :: int
  sbThroughTimestamp :: seconds
  sbEvents :: "st_event list"
  sbLinkEvidence :: "link_evidence list"
  sbSeriesExpiries :: "(int \<times> int) list"
  sbMatchedTransferIds :: "string list"
  sbProtocolAddresses :: "address option list"

datatype st_error = InvalidLinkMap | NegativeUnits string | NegativeConsumption | NoReturn

definition flags :: "link_map \<Rightarrow> st_error + string list" where
  "flags json = (case json of NotAnObject \<Rightarrow> Inl InvalidLinkMap | LinkObject entries \<Rightarrow> Inr (map fst (filter snd entries)))"

definition evidence_of :: "address \<Rightarrow> link_source \<Rightarrow> string list \<Rightarrow> link_evidence list" where
  "evidence_of account source others = map (\<lambda>r. \<lparr>leLeft = account, leRight = r, leSource = source\<rparr>) others"

fun account_evidence :: "account_links list \<Rightarrow> st_error + link_evidence list" where
  "account_evidence [] = Inr []"
| "account_evidence (a # as) =
     (case flags (alOperators a) of Inl e \<Rightarrow> Inl e | Inr os \<Rightarrow>
      case flags (alApprovals a) of Inl e \<Rightarrow> Inl e | Inr ps \<Rightarrow>
      case flags (alDelegates a) of Inl e \<Rightarrow> Inl e | Inr ds \<Rightarrow>
      case account_evidence as of Inl e \<Rightarrow> Inl e | Inr rest \<Rightarrow>
        Inr (evidence_of (alAccount a) Operator os @ evidence_of (alAccount a) Approval ps
          @ evidence_of (alAccount a) Delegate ds @ rest))"

definition indexedSelfTradeLinks :: "account_links list \<Rightarrow> cash_flow list \<Rightarrow> st_error + link_evidence list" where
  "indexedSelfTradeLinks accounts cashFlows =
     (case account_evidence accounts of
        Inl e \<Rightarrow> Inl e
      | Inr rest \<Rightarrow> Inr (map (\<lambda>flow. \<lparr>leLeft = cfAccount flow, leRight = cfActor flow, leSource = CashFlow\<rparr>)
          (filter (\<lambda>flow. lower (cfAccount flow) \<noteq> lower (cfActor flow)) cashFlows) @ rest))"

definition emptySelfTradeState :: "int option \<Rightarrow> st_state" where
  "emptySelfTradeState cursor =
     \<lparr>stCursor = or_else cursor (-1), stLinks = [], stLots = [], stMakers = [], stUnseen = Some []\<rparr>"

subsection \<open>Lots\<close>

definition comparePosition :: "(string \<Rightarrow> string \<Rightarrow> int) \<Rightarrow> st_event \<Rightarrow> st_event \<Rightarrow> int" where
  "comparePosition collate left right =
     (if evBlock left < evBlock right then -1 else if evBlock left > evBlock right then 1
      else cmp_or (evLogIndex left - evLogIndex right) (collate (evId left) (evId right)))"

definition compareLots :: "(string \<Rightarrow> string \<Rightarrow> int) \<Rightarrow> st_lot \<Rightarrow> st_lot \<Rightarrow> int" where
  "compareLots collate left right =
     (if loCreatedBlock left < loCreatedBlock right then -1 else if loCreatedBlock left > loCreatedBlock right then 1
      else cmp_or (loCreatedLogIndex left - loCreatedLogIndex right) (collate (loId left) (loId right)))"

record st_portion =
  poWriter :: "address option"
  poPrimaryFillId :: "string option"
  poUnits :: int

definition keyed_lot :: "st_lot \<Rightarrow> st_lot" where
  "keyed_lot lot = lot\<lparr>loHolder := lower (loHolder lot), loWriter := map_option lower (loWriter lot)\<rparr>"

definition expire_lots :: "(int \<times> int) list \<Rightarrow> int \<Rightarrow> int option \<Rightarrow> st_lot list \<Rightarrow> st_lot list" where
  "expire_lots expiries ts onlyLongId lots =
     map (\<lambda>lot. if loRemaining lot = 0 \<or> (case onlyLongId of None \<Rightarrow> False | Some l \<Rightarrow> loLongId lot \<noteq> l) then lot
                else case map_of expiries (loLongId lot) of
                       None \<Rightarrow> lot
                     | Some expiry \<Rightarrow> if ts \<ge> expiry then lot\<lparr>loRemaining := 0\<rparr> else lot) lots"

definition addLot :: "st_lot \<Rightarrow> st_lot list \<Rightarrow> st_lot list" where
  "addLot lot lots = (if loUnits lot \<le> 0 then lots else lots @ [keyed_lot lot])"

fun take_open :: "(nat \<times> st_lot) list \<Rightarrow> int \<Rightarrow> st_lot list \<Rightarrow> st_portion list \<times> int \<times> st_lot list" where
  "take_open [] missing lots = ([], missing, lots)"
| "take_open ((i, lot) # opens) missing lots =
     (if missing = 0 then ([], missing, lots)
      else let taken = (if loRemaining lot < missing then loRemaining lot else missing);
               (portions, left, lots') = take_open opens (missing - taken) (lots[i := lot\<lparr>loRemaining := loRemaining lot - taken\<rparr>])
           in (\<lparr>poWriter = loWriter lot, poPrimaryFillId = loPrimaryFillId lot, poUnits = taken\<rparr> # portions, left, lots'))"

definition open_lots :: "(string \<Rightarrow> string \<Rightarrow> int) \<Rightarrow> int \<Rightarrow> address \<Rightarrow> st_lot list \<Rightarrow> (nat \<times> st_lot) list" where
  "open_lots collate longId holder lots =
     js_sort (\<lambda>a b. compareLots collate (snd a) (snd b))
       (filter (\<lambda>(i, lot). loLongId lot = longId \<and> loHolder lot = holder \<and> loRemaining lot > 0) (enumerate 0 lots))"

definition consume :: "(string \<Rightarrow> string \<Rightarrow> int) \<Rightarrow> int \<Rightarrow> address \<Rightarrow> int \<Rightarrow> st_lot list \<Rightarrow> st_error + (st_portion list \<times> st_lot list)" where
  "consume collate longId holderRaw units lots =
     (if units < 0 then Inl NegativeConsumption
      else let (portions, missing, lots') = take_open (open_lots collate longId (lower holderRaw) lots) units lots
           in Inr (if missing > 0 then portions @ [\<lparr>poWriter = None, poPrimaryFillId = None, poUnits = missing\<rparr>] else portions, lots'))"

subsection \<open>One block range\<close>

record st_run =
  rnParent :: "(string \<times> string) list"
  rnLots :: "st_lot list"
  rnMakers :: "(address \<times> int) list"
  rnUnseen :: "(unseen_reason \<times> (int \<times> int)) list"

definition recordUnseen :: "unseen_reason \<Rightarrow> int \<Rightarrow> st_run \<Rightarrow> st_run" where
  "recordUnseen reason units r =
     (if units \<le> 0 then r
      else let carried = get_or (rnUnseen r) reason (0, 0)
           in r\<lparr>rnUnseen := AList.update reason (fst carried + units, snd carried + 1) (rnUnseen r)\<rparr>)"

text \<open>The lots that a transfer gives to the receiver; each of its two uses of the graph may shorten paths.\<close>

fun transfer_lots :: "string list \<Rightarrow> st_event \<Rightarrow> address \<Rightarrow> address \<Rightarrow> nat \<Rightarrow> st_portion list \<Rightarrow> st_run \<Rightarrow> st_error + st_run" where
  "transfer_lots excluded event from to index [] r = Inr r"
| "transfer_lots excluded event from to index (portion # portions) r =
     (case connected excluded (rnParent r) from to of
        None \<Rightarrow> Inl NoReturn
      | Some (c1, ps1) \<Rightarrow>
          (case connected excluded ps1 from to of
             None \<Rightarrow> Inl NoReturn
           | Some (c2, ps2) \<Rightarrow>
               transfer_lots excluded event from to (Suc index) portions
                 (r\<lparr>rnParent := ps2, rnLots := addLot
                    \<lparr>loId = ''transfer:'' @ evId event @ '':'' @ show_nat index, loLongId = evLongId event, loHolder = to,
                     loWriter = (if c1 then poWriter portion else None),
                     loPrimaryFillId = (if c2 then poPrimaryFillId portion else None),
                     loUnits = poUnits portion, loRemaining = poUnits portion, loCreatedBlock = evBlock event,
                     loCreatedLogIndex = evLogIndex event, loSourceId = evId event\<rparr> (rnLots r)\<rparr>)))"

definition fill_lot :: "st_event \<Rightarrow> st_fill \<Rightarrow> address option \<Rightarrow> st_lot" where
  "fill_lot event f writer =
     \<lparr>loId = ''fill:'' @ evId event, loLongId = evLongId event, loHolder = sfBuyer f, loWriter = writer,
      loPrimaryFillId = (if writer = None then None else Some (evId event)),
      loUnits = evUnits event, loRemaining = evUnits event, loCreatedBlock = evBlock event,
      loCreatedLogIndex = evLogIndex event, loSourceId = evId event\<rparr>"

text \<open>\<open>graph.connected(seller, buyer) || graph.connected(seller, recipient)\<close>\<close>

definition linked_fill :: "string list \<Rightarrow> (string \<times> string) list \<Rightarrow> st_fill \<Rightarrow> (bool \<times> (string \<times> string) list) option" where
  "linked_fill excluded parents f =
     Option.bind (connected excluded parents (sfSeller f) (sfBuyer f)) (\<lambda>(c, ps).
       if c then Some (True, ps) else connected excluded ps (sfSeller f) (sfRecipient f))"

definition minimum_price :: "int \<Rightarrow> bool" where
  "minimum_price price = (price > 0 \<and> price \<le> SELF_TRADE_MIN_PRICE_TICKS * ST_PRICE_TICK)"

definition suspect_price :: "int \<Rightarrow> bool" where
  "suspect_price price = (price > 0 \<and> price \<le> SELF_TRADE_SUSPECT_PRICE_TICKS * ST_PRICE_TICK)"

definition primary_fill :: "string list \<Rightarrow> st_event \<Rightarrow> st_fill \<Rightarrow> st_run \<Rightarrow> st_error + st_run" where
  "primary_fill excluded event f r =
     (case linked_fill excluded (rnParent r) f of
        None \<Rightarrow> Inl NoReturn
      | Some (linked, ps) \<Rightarrow>
          (let minimumPrice = minimum_price (sfPrice f);
               suspectPrice = suspect_price (sfPrice f);
               writer = (if sfTakerIsBuyer f \<and> minimumPrice \<and> linked then Some (lower (sfSeller f)) else None);
               r1 = r\<lparr>rnParent := ps\<rparr>;
               r2 = (if writer = None \<and> sfTakerIsBuyer f then
                       (if linked \<and> \<not> minimumPrice \<and> suspectPrice then recordUnseen PriceAboveCountedBand (evUnits event) r1
                        else if minimumPrice \<and> \<not> linked then recordUnseen NoLinkEvidence (evUnits event) r1
                        else r1)
                     else r1)
           in Inr (r2\<lparr>rnLots := addLot (fill_lot event f writer) (rnLots r2)\<rparr>)))"

fun count_resold :: "st_portion list \<Rightarrow> (address \<times> int) list \<Rightarrow> (address \<times> int) list" where
  "count_resold [] makers = makers"
| "count_resold (portion # portions) makers =
     (case poWriter portion of
        None \<Rightarrow> count_resold portions makers
      | Some w \<Rightarrow> count_resold portions (AList.update w (get_or makers w 0 + poUnits portion) makers))"

definition resale_fill :: "(string \<Rightarrow> string \<Rightarrow> int) \<Rightarrow> st_event \<Rightarrow> st_fill \<Rightarrow> st_run \<Rightarrow> st_error + st_run" where
  "resale_fill collate event f r =
     (case consume collate (evLongId event) (sfSeller f) (evUnits event) (rnLots r) of
        Inl e \<Rightarrow> Inl e
      | Inr (portions, lots) \<Rightarrow>
          Inr (r\<lparr>rnMakers := count_resold portions (rnMakers r), rnLots := addLot (fill_lot event f None) lots\<rparr>))"

definition transfer_event ::
  "(string \<Rightarrow> string \<Rightarrow> int) \<Rightarrow> string list \<Rightarrow> string list \<Rightarrow> st_event \<Rightarrow> address \<Rightarrow> address \<Rightarrow> st_run \<Rightarrow> st_error + st_run" where
  "transfer_event collate excluded matched event fromRaw toRaw r =
     (let from = lower fromRaw; to = lower toRaw
      in if evId event \<in> set matched \<or> from \<in> set excluded \<or> to \<in> set excluded \<or> from = to then Inr r
         else case consume collate (evLongId event) from (evUnits event) (rnLots r) of
                Inl e \<Rightarrow> Inl e
              | Inr (portions, lots) \<Rightarrow> transfer_lots excluded event from to 0 portions (r\<lparr>rnLots := lots\<rparr>))"

definition exit_event :: "(string \<Rightarrow> string \<Rightarrow> int) \<Rightarrow> st_event \<Rightarrow> address \<Rightarrow> st_run \<Rightarrow> st_error + st_run" where
  "exit_event collate event holder r =
     (case consume collate (evLongId event) holder (evUnits event) (rnLots r) of
        Inl e \<Rightarrow> Inl e
      | Inr (portions, lots) \<Rightarrow> Inr (r\<lparr>rnLots := lots\<rparr>))"

definition mint_lot :: "st_event \<Rightarrow> address \<Rightarrow> st_lot" where
  "mint_lot event holder =
     \<lparr>loId = ''mint:'' @ evId event, loLongId = evLongId event, loHolder = holder, loWriter = None, loPrimaryFillId = None,
      loUnits = evUnits event, loRemaining = evUnits event, loCreatedBlock = evBlock event,
      loCreatedLogIndex = evLogIndex event, loSourceId = evId event\<rparr>"

definition event_step ::
  "(string \<Rightarrow> string \<Rightarrow> int) \<Rightarrow> string list \<Rightarrow> string list \<Rightarrow> (int \<times> int) list \<Rightarrow> st_event \<Rightarrow> st_run \<Rightarrow> st_error + st_run" where
  "event_step collate excluded matched expiries event r0 =
     (if evUnits event < 0 then Inl (NegativeUnits (evId event))
      else let r = r0\<lparr>rnLots := expire_lots expiries (evTs event) (Some (evLongId event)) (rnLots r0)\<rparr>
           in if get_or expiries (evLongId event) (evTs event + 1) \<le> evTs event \<or> evUnits event = 0 then Inr r
              else case evKind event of
                     KMint holder \<Rightarrow> Inr (r\<lparr>rnLots := addLot (mint_lot event holder) (rnLots r)\<rparr>)
                   | KTransfer from to \<Rightarrow> transfer_event collate excluded matched event from to r
                   | KClose holder \<Rightarrow> exit_event collate event holder r
                   | KRedemption holder \<Rightarrow> exit_event collate event holder r
                   | KFill f \<Rightarrow> if sfPrimary f then primary_fill excluded event f r else resale_fill collate event f r)"

fun event_loop ::
  "(string \<Rightarrow> string \<Rightarrow> int) \<Rightarrow> string list \<Rightarrow> string list \<Rightarrow> (int \<times> int) list \<Rightarrow> st_event list \<Rightarrow> st_run \<Rightarrow> st_error + st_run" where
  "event_loop collate excluded matched expiries [] r = Inr r"
| "event_loop collate excluded matched expiries (e # es) r =
     (case event_step collate excluded matched expiries e r of
        Inl err \<Rightarrow> Inl err
      | Inr r' \<Rightarrow> event_loop collate excluded matched expiries es r')"

definition excluded_of :: "address option list \<Rightarrow> string list" where
  "excluded_of protocolAddresses =
     js_set (map lower (concat (map (\<lambda>v. case v of None \<Rightarrow> [] | Some a \<Rightarrow> if a = [] then [] else [a]) protocolAddresses)) @ [ZERO_ADDRESS])"

fun event_links :: "string list \<Rightarrow> st_event list \<Rightarrow> (string \<times> string) list" where
  "event_links matched [] = []"
| "event_links matched (e # es) =
     (case evKind e of
        KFill f \<Rightarrow> [(sfTaker f, sfRecipient f)]
      | KTransfer from to \<Rightarrow> (if evId e \<notin> set matched then [(from, to)] else [])
      | _ \<Rightarrow> []) @ event_links matched es"

definition range_events :: "(string \<Rightarrow> string \<Rightarrow> int) \<Rightarrow> int \<Rightarrow> st_batch \<Rightarrow> st_event list" where
  "range_events collate cursor batch =
     js_sort (comparePosition collate) (filter (\<lambda>e. evBlock e > cursor \<and> evBlock e \<le> sbThrough batch) (sbEvents batch))"

definition carried_makers :: "st_maker list \<Rightarrow> (address \<times> int) list" where
  "carried_makers rows = foldl (\<lambda>m row. AList.update (lower (smWriter row)) (get_or m (lower (smWriter row)) 0 + smUnits row) m) [] rows"

definition carried_unseen :: "st_unseen list \<Rightarrow> (unseen_reason \<times> (int \<times> int)) list" where
  "carried_unseen rows =
     foldl (\<lambda>m row. let carried = get_or m (suReason row) (0, 0)
            in AList.update (suReason row) (fst carried + suUnits row, snd carried + suFills row) m) [] rows"

definition map_from :: "(int \<times> int) list \<Rightarrow> (int \<times> int) list" where
  "map_from rows = foldl (\<lambda>m row. AList.update (fst row) (snd row) m) [] rows"

definition reason_text :: "unseen_reason \<Rightarrow> string" where
  "reason_text r = (case r of PriceAboveCountedBand \<Rightarrow> ''price-above-counted-band'' | NoLinkEvidence \<Rightarrow> ''no-link-evidence'')"

text \<open>The pairs given to \<open>graph.add\<close>, in order.\<close>

definition batch_links :: "(string \<Rightarrow> string \<Rightarrow> int) \<Rightarrow> st_state \<Rightarrow> st_batch \<Rightarrow> (string \<times> string) list" where
  "batch_links collate state batch =
     map (\<lambda>l. (slLeft l, slRight l)) (stLinks state) @ map (\<lambda>l. (leLeft l, leRight l)) (sbLinkEvidence batch)
       @ event_links (sbMatchedTransferIds batch) (range_events collate (stCursor state) batch)"

definition start_run :: "links \<Rightarrow> st_state \<Rightarrow> st_run" where
  "start_run graph state =
     \<lparr>rnParent = lkParent graph, rnLots = map keyed_lot (stLots state), rnMakers = carried_makers (stMakers state),
      rnUnseen = carried_unseen (or_else (stUnseen state) [])\<rparr>"

definition finish_run :: "(string \<Rightarrow> string \<Rightarrow> int) \<Rightarrow> (int \<times> int) list \<Rightarrow> st_batch \<Rightarrow> links \<Rightarrow> st_run \<Rightarrow> st_state" where
  "finish_run collate expiries batch graph r =
     \<lparr>stCursor = sbThrough batch,
      stLinks = js_sort (\<lambda>a b. collate (slId a) (slId b)) (map snd (lkEdges graph)),
      stLots = js_sort (compareLots collate) (expire_lots expiries (sbThroughTimestamp batch) None (rnLots r)),
      stMakers = js_sort (\<lambda>a b. collate (smWriter a) (smWriter b)) (map (\<lambda>(w, u). \<lparr>smWriter = w, smUnits = u\<rparr>) (rnMakers r)),
      stUnseen = Some (js_sort (\<lambda>a b. collate (reason_text (suReason a)) (reason_text (suReason b)))
        (map (\<lambda>(reason, u, n). \<lparr>suReason = reason, suUnits = u, suFills = n\<rparr>) (rnUnseen r)))\<rparr>"

definition reduceSelfTrade :: "(string \<Rightarrow> string \<Rightarrow> int) \<Rightarrow> st_state \<Rightarrow> st_batch \<Rightarrow> st_error + st_state" where
  "reduceSelfTrade collate state batch =
     (if sbThrough batch \<le> stCursor state then Inr state
      else let excluded = excluded_of (sbProtocolAddresses batch);
               events = range_events collate (stCursor state) batch;
               expiries = map_from (sbSeriesExpiries batch)
           in case add_links excluded (batch_links collate state batch) \<lparr>lkEdges = [], lkParent = []\<rparr> of
                None \<Rightarrow> Inl NoReturn
              | Some graph \<Rightarrow>
                  (case event_loop collate excluded (sbMatchedTransferIds batch) expiries events (start_run graph state) of
                     Inl e \<Rightarrow> Inl e
                   | Inr r \<Rightarrow> Inr (finish_run collate expiries batch graph r)))"

subsection \<open>Reading the state\<close>

definition selfTradeUnitsFor :: "st_state \<Rightarrow> string \<Rightarrow> int" where
  "selfTradeUnitsFor state writer =
     (case List.find (\<lambda>row. smWriter row = lower writer) (stMakers state) of None \<Rightarrow> 0 | Some row \<Rightarrow> smUnits row)"

definition totalSelfTradeUnits :: "st_state \<Rightarrow> int" where
  "totalSelfTradeUnits state = foldl (\<lambda>s row. s + smUnits row) 0 (stMakers state)"

definition totalSelfTradeUnseenUnits :: "st_state \<Rightarrow> int" where
  "totalSelfTradeUnseenUnits state = foldl (\<lambda>s row. s + suUnits row) 0 (or_else (stUnseen state) [])"

datatype coverage_status = Detected | Clean | Blind

record coverage =
  cvStatus :: coverage_status
  cvUnits :: int
  cvUnseenUnits :: int
  cvUnseen :: "st_unseen list"

definition selfTradeCoverage :: "st_state \<Rightarrow> coverage" where
  "selfTradeCoverage state =
     (let units = totalSelfTradeUnits state;
          rows = or_else (stUnseen state) [];
          unseenUnits = totalSelfTradeUnseenUnits state;
          status = (if units > 0 then Detected else if unseenUnits > 0 then Blind else Clean)
      in \<lparr>cvStatus = status, cvUnits = units, cvUnseenUnits = unseenUnits, cvUnseen = rows\<rparr>)"

subsection \<open>The order of events and lots\<close>

lemma position_comparator:
  assumes "comparator collate"
  shows "comparator (comparePosition collate)" "comparator (compareLots collate)"
proof -
  note flip = comparator.cmp_flip [OF assms] and trans = comparator.cmp_trans [OF assms]
  show "comparator (comparePosition collate)"
    by unfold_locales (auto simp: comparePosition_def cmp_or_def split: if_splits dest: flip trans)
  show "comparator (compareLots collate)"
    by unfold_locales (auto simp: compareLots_def cmp_or_def split: if_splits dest: flip trans)
qed

subsection \<open>Consuming lots\<close>

definition open_of :: "address \<Rightarrow> st_lot \<Rightarrow> int" where
  "open_of w lot = (if loWriter lot = Some w then loRemaining lot else 0)"

definition writer_open :: "address \<Rightarrow> st_lot list \<Rightarrow> int" where
  "writer_open w lots = sum_list (map (open_of w) lots)"

definition portion_units :: "address \<Rightarrow> st_portion list \<Rightarrow> int" where
  "portion_units w ps = sum_list (map (\<lambda>p. if poWriter p = Some w then poUnits p else 0) ps)"

definition lots_ok :: "st_lot list \<Rightarrow> bool" where
  "lots_ok lots = list_all (\<lambda>l. 0 \<le> loRemaining l \<and> loRemaining l \<le> loUnits l \<and> map_option lower (loWriter l) = loWriter l) lots"

definition portion_ok :: "st_portion \<Rightarrow> bool" where
  "portion_ok p = (0 < poUnits p \<and> map_option lower (poWriter p) = poWriter p)"

lemma writer_open_simps [simp]:
  "writer_open w [] = 0" "writer_open w (l # ls) = open_of w l + writer_open w ls" "writer_open w (ls @ ms) = writer_open w ls + writer_open w ms"
  by (simp_all add: writer_open_def)

lemma portion_units_simps [simp]:
  "portion_units w [] = 0" "portion_units w (p # ps) = (if poWriter p = Some w then poUnits p else 0) + portion_units w ps"
  "portion_units w (ps @ qs) = portion_units w ps + portion_units w qs"
  by (simp_all add: portion_units_def)

lemma writer_open_nonneg: "lots_ok lots \<Longrightarrow> 0 \<le> writer_open w lots"
  unfolding writer_open_def by (rule sum_list_nonneg_map) (auto simp: lots_ok_def list_all_iff open_of_def)

lemma writer_open_set: "i < length lots \<Longrightarrow> writer_open w (lots[i := l]) = writer_open w lots + open_of w l - open_of w (lots ! i)"
proof (induction lots arbitrary: i)
  case (Cons a lots)
  then show ?case by (cases i) auto
qed simp

lemma lots_ok_set: "lots_ok lots \<Longrightarrow> 0 \<le> loRemaining l \<Longrightarrow> loRemaining l \<le> loUnits l \<Longrightarrow>
    map_option lower (loWriter l) = loWriter l \<Longrightarrow> lots_ok (lots[i := l])"
  by (auto simp: lots_ok_def list_all_iff dest: set_update_subset_insert [THEN subsetD])

lemma take_open_conserves:
  assumes "take_open opens missing lots = (portions, left, lots')" "0 \<le> missing" "lots_ok lots" "distinct (map fst opens)"
    "\<forall>(i, lot) \<in> set opens. i < length lots \<and> lots ! i = lot \<and> 0 < loRemaining lot"
  shows "lots_ok lots' \<and> 0 \<le> left \<and> list_all portion_ok portions
    \<and> sum_list (map poUnits portions) + left = missing
    \<and> portion_units w portions + writer_open w lots' = writer_open w lots"
  using assms
proof (induction opens missing lots arbitrary: portions left lots' rule: take_open.induct)
  case (2 i lot opens missing lots)
  show ?case
  proof (cases "missing = 0")
    case False
    define taken where "taken = (if loRemaining lot < missing then loRemaining lot else missing)"
    let ?lot = "lot\<lparr>loRemaining := loRemaining lot - taken\<rparr>"
    obtain ps lf ls where rec: "take_open opens (missing - taken) (lots[i := ?lot]) = (ps, lf, ls)" by (metis surj_pair)
    have eqs: "portions = \<lparr>poWriter = loWriter lot, poPrimaryFillId = loPrimaryFillId lot, poUnits = taken\<rparr> # ps" "left = lf" "lots' = ls"
      using "2.prems"(1) False rec by (auto simp: Let_def taken_def [symmetric])
    have i: "i < length lots" "lots ! i = lot" "0 < loRemaining lot" using "2.prems"(5) by auto
    then have "lot \<in> set lots" using nth_mem by metis
    then have ok: "loRemaining lot \<le> loUnits lot" "map_option lower (loWriter lot) = loWriter lot" using "2.prems"(3) by (auto simp: lots_ok_def list_all_iff)
    have t: "0 < taken" "taken \<le> missing" "taken \<le> loRemaining lot" using i(3) "2.prems"(2) False by (auto simp: taken_def)
    have "lots_ok (lots[i := ?lot])" using t ok by (intro lots_ok_set "2.prems"(3)) auto
    moreover have "\<forall>(j, l) \<in> set opens. j < length (lots[i := ?lot]) \<and> lots[i := ?lot] ! j = l \<and> 0 < loRemaining l"
    proof (clarify)
      fix j l
      assume jl: "(j, l) \<in> set opens"
      then have "j \<noteq> i" using "2.prems"(4) by (metis distinct.simps(2) fst_conv image_eqI list.simps(9) set_map)
      then show "j < length (lots[i := ?lot]) \<and> lots[i := ?lot] ! j = l \<and> 0 < loRemaining l"
        using jl "2.prems"(5) by auto
    qed
    ultimately have ih: "lots_ok ls \<and> 0 \<le> lf \<and> list_all portion_ok ps \<and> sum_list (map poUnits ps) + lf = missing - taken
        \<and> portion_units w ps + writer_open w ls = writer_open w (lots[i := ?lot])"
      using "2.IH" [OF False taken_def] rec t "2.prems"(4) by simp
    moreover have "portion_ok \<lparr>poWriter = loWriter lot, poPrimaryFillId = loPrimaryFillId lot, poUnits = taken\<rparr>"
      using t ok by (simp add: portion_ok_def)
    ultimately show ?thesis using t i ok by (auto simp: eqs writer_open_set open_of_def)
  qed (use "2.prems" in auto)
qed auto

lemma open_lots_ok:
  "distinct (map fst (open_lots collate longId holder lots))"
  "\<forall>(i, lot) \<in> set (open_lots collate longId holder lots). i < length lots \<and> lots ! i = lot \<and> 0 < loRemaining lot"
proof -
  let ?P = "\<lambda>(i::nat, lot). loLongId lot = longId \<and> loHolder lot = holder \<and> loRemaining lot > 0"
  have "mset (map fst (open_lots collate longId holder lots)) = mset (map fst (filter ?P (enumerate 0 lots)))"
    by (simp add: open_lots_def)
  moreover have "distinct (map fst (filter ?P (enumerate 0 lots)))" by (rule distinct_map_filter) simp
  ultimately show "distinct (map fst (open_lots collate longId holder lots))" using mset_eq_imp_distinct_iff by blast
qed (auto simp: open_lots_def in_set_enumerate_eq)

lemma consume_conserves:
  assumes "0 \<le> units" "lots_ok lots"
  shows "\<exists>portions lots'. consume collate longId holder units lots = Inr (portions, lots') \<and> lots_ok lots'
    \<and> list_all portion_ok portions \<and> sum_list (map poUnits portions) = units
    \<and> (\<forall>w. portion_units w portions + writer_open w lots' = writer_open w lots)"
proof -
  obtain ps left lots' where t: "take_open (open_lots collate longId (lower holder) lots) units lots = (ps, left, lots')" by (metis surj_pair)
  note c = take_open_conserves [OF t assms open_lots_ok]
  have f: "lots_ok lots'" "0 \<le> left" "list_all portion_ok ps" "sum_list (map poUnits ps) + left = units"
    "\<And>w. portion_units w ps + writer_open w lots' = writer_open w lots" using c by blast+
  let ?ps = "if left > 0 then ps @ [\<lparr>poWriter = None, poPrimaryFillId = None, poUnits = left\<rparr>] else ps"
  have "consume collate longId holder units lots = Inr (?ps, lots')" using assms by (simp add: consume_def t)
  moreover have "list_all portion_ok ?ps" "sum_list (map poUnits ?ps) = units" using f(2-4) by (auto simp: portion_ok_def)
  moreover have "portion_units w ?ps + writer_open w lots' = writer_open w lots" for w using f(5) by simp
  ultimately show ?thesis using f(1) by blast
qed

subsection \<open>What an event does to the counts\<close>

definition expired_event :: "(int \<times> int) list \<Rightarrow> st_event \<Rightarrow> bool" where
  "expired_event expiries e = (get_or expiries (evLongId e) (evTs e + 1) \<le> evTs e)"

definition fill_linked :: "string list \<Rightarrow> (string \<times> string) list \<Rightarrow> st_fill \<Rightarrow> bool" where
  "fill_linked excluded ps f = (linked_by excluded ps (sfSeller f) (sfBuyer f) \<or> linked_by excluded ps (sfSeller f) (sfRecipient f))"

text \<open>The primary units that the rule counts for a writer, and those it refuses to judge.\<close>

definition counted_units :: "string list \<Rightarrow> (string \<times> string) list \<Rightarrow> (int \<times> int) list \<Rightarrow> address \<Rightarrow> st_event \<Rightarrow> int" where
  "counted_units excluded ps expiries w e =
     (case evKind e of
        KFill f \<Rightarrow> if sfPrimary f \<and> sfTakerIsBuyer f \<and> minimum_price (sfPrice f) \<and> fill_linked excluded ps f
            \<and> lower (sfSeller f) = w \<and> \<not> expired_event expiries e then evUnits e else 0
      | _ \<Rightarrow> 0)"

definition refused_units :: "string list \<Rightarrow> (string \<times> string) list \<Rightarrow> (int \<times> int) list \<Rightarrow> st_event \<Rightarrow> int" where
  "refused_units excluded ps expiries e =
     (case evKind e of
        KFill f \<Rightarrow> if sfPrimary f \<and> sfTakerIsBuyer f \<and> \<not> expired_event expiries e
            \<and> (if minimum_price (sfPrice f) then \<not> fill_linked excluded ps f else suspect_price (sfPrice f) \<and> fill_linked excluded ps f)
          then evUnits e else 0
      | _ \<Rightarrow> 0)"

definition unseen_total :: "(unseen_reason \<times> (int \<times> int)) list \<Rightarrow> int" where
  "unseen_total m = sum_list (map (\<lambda>kv. fst (snd kv)) m)"

definition run_ok :: "string list \<Rightarrow> (string \<times> string) list \<Rightarrow> st_run \<Rightarrow> bool" where
  "run_ok excluded ps r = (graph_ok (map_of (rnParent r)) (edge_set excluded ps) \<and> lots_ok (rnLots r)
     \<and> distinct (map fst (rnMakers r)) \<and> distinct (map fst (rnUnseen r)))"

text \<open>What a writer has counted already and may still have counted.\<close>

definition potential :: "address \<Rightarrow> st_run \<Rightarrow> int" where
  "potential w r = get_or (rnMakers r) w 0 + writer_open w (rnLots r)"

lemma expire_ok: "lots_ok lots \<Longrightarrow> lots_ok (expire_lots expiries ts only lots)"
  by (auto simp: lots_ok_def list_all_iff expire_lots_def split: option.splits if_splits)

lemma expire_open: "lots_ok lots \<Longrightarrow> writer_open w (expire_lots expiries ts only lots) \<le> writer_open w lots"
  by (induction lots) (auto simp: expire_lots_def lots_ok_def open_of_def split: option.splits if_splits)

lemma addLot_ok: "lots_ok lots \<Longrightarrow> 0 \<le> loRemaining l \<Longrightarrow> loRemaining l \<le> loUnits l \<Longrightarrow> lots_ok (addLot l lots)"
  by (cases "loWriter l") (auto simp: addLot_def lots_ok_def keyed_lot_def)

lemma addLot_open: "0 \<le> loUnits l \<Longrightarrow> loRemaining l = loUnits l \<Longrightarrow>
    writer_open w (addLot l lots) = writer_open w lots + (if map_option lower (loWriter l) = Some w then loUnits l else 0)"
  by (auto simp: addLot_def keyed_lot_def open_of_def)

lemma transfer_lots_ok:
  assumes "run_ok excluded ps r" "list_all portion_ok portions"
  shows "\<exists>r'. transfer_lots excluded event from to index portions r = Inr r' \<and> run_ok excluded ps r' \<and> rnMakers r' = rnMakers r
    \<and> rnUnseen r' = rnUnseen r \<and> (\<forall>w. writer_open w (rnLots r') \<le> writer_open w (rnLots r) + portion_units w portions)"
  using assms
proof (induction portions arbitrary: index r)
  case (Cons p portions)
  have g: "graph_ok (map_of (rnParent r)) (edge_set excluded ps)" using Cons.prems(1) by (simp add: run_ok_def)
  let ?c = "linked_by excluded ps from to"
  obtain ps1 where c1: "connected excluded (rnParent r) from to = Some (?c, ps1)" "graph_ok (map_of ps1) (edge_set excluded ps)"
    using connected_ok [OF g] by blast
  obtain ps2 where c2: "connected excluded ps1 from to = Some (?c, ps2)" "graph_ok (map_of ps2) (edge_set excluded ps)"
    using connected_ok [OF c1(2)] by blast
  define lot where "lot = \<lparr>loId = ''transfer:'' @ evId event @ '':'' @ show_nat index, loLongId = evLongId event, loHolder = to,
     loWriter = (if ?c then poWriter p else None), loPrimaryFillId = (if ?c then poPrimaryFillId p else None),
     loUnits = poUnits p, loRemaining = poUnits p, loCreatedBlock = evBlock event,
     loCreatedLogIndex = evLogIndex event, loSourceId = evId event\<rparr>"
  let ?r = "r\<lparr>rnParent := ps2, rnLots := addLot lot (rnLots r)\<rparr>"
  have p: "0 < poUnits p" "map_option lower (poWriter p) = poWriter p" using Cons.prems(2) by (auto simp: portion_ok_def)
  have ok: "run_ok excluded ps ?r"
    using Cons.prems(1) c2(2) p(1) by (auto simp: run_ok_def lot_def intro!: addLot_ok)
  have step: "transfer_lots excluded event from to index (p # portions) r = transfer_lots excluded event from to (Suc index) portions ?r"
    using c1(1) c2(1) by (simp add: lot_def)
  have "writer_open w (rnLots ?r) \<le> writer_open w (rnLots r) + (if poWriter p = Some w then poUnits p else 0)" for w
    using p addLot_open [of lot w "rnLots r"] by (auto simp: lot_def split: if_splits)
  then show ?case using Cons.IH [OF ok, of "Suc index"] Cons.prems(2) unfolding step
    by (fastforce intro: order_trans)
qed simp

lemma count_resold_get: "list_all portion_ok portions \<Longrightarrow> get_or (count_resold portions m) w 0 = get_or m w 0 + portion_units w portions"
  by (induction portions m rule: count_resold.induct) (auto split: option.splits)

lemma count_resold_distinct: "distinct (map fst m) \<Longrightarrow> distinct (map fst (count_resold portions m))"
  by (induction portions m rule: count_resold.induct) (auto simp: distinct_keys_update split: option.splits)

lemma linked_fill_ok:
  assumes "graph_ok (map_of parents) (edge_set excluded ps)"
  shows "\<exists>parents'. linked_fill excluded parents f = Some (fill_linked excluded ps f, parents') \<and> graph_ok (map_of parents') (edge_set excluded ps)"
proof -
  obtain ps1 where c1: "connected excluded parents (sfSeller f) (sfBuyer f) = Some (linked_by excluded ps (sfSeller f) (sfBuyer f), ps1)"
    "graph_ok (map_of ps1) (edge_set excluded ps)" using connected_ok [OF assms] by blast
  obtain ps2 where c2: "connected excluded ps1 (sfSeller f) (sfRecipient f) = Some (linked_by excluded ps (sfSeller f) (sfRecipient f), ps2)"
    "graph_ok (map_of ps2) (edge_set excluded ps)" using connected_ok [OF c1(2)] by blast
  show ?thesis using c1 c2 by (cases "linked_by excluded ps (sfSeller f) (sfBuyer f)") (auto simp: linked_fill_def fill_linked_def)
qed

lemma record_total:
  assumes "distinct (map fst (rnUnseen r))" "0 \<le> units"
  shows "unseen_total (rnUnseen (recordUnseen reason units r)) = unseen_total (rnUnseen r) + units
    \<and> distinct (map fst (rnUnseen (recordUnseen reason units r)))
    \<and> rnLots (recordUnseen reason units r) = rnLots r \<and> rnMakers (recordUnseen reason units r) = rnMakers r
    \<and> rnParent (recordUnseen reason units r) = rnParent r"
  using assms sum_values_update [of "rnUnseen r" fst "(0, 0)" reason]
  by (auto simp: recordUnseen_def Let_def unseen_total_def distinct_keys_update split: if_splits)

lemma minimum_suspect: "minimum_price p \<Longrightarrow> suspect_price p"
  by (simp add: minimum_price_def suspect_price_def SELF_TRADE_MIN_PRICE_TICKS_def SELF_TRADE_SUSPECT_PRICE_TICKS_def ST_PRICE_TICK_def)

text \<open>The claim of one step: it succeeds and moves the counts by what the event contributes.\<close>

definition step_ok :: "string list \<Rightarrow> (string \<times> string) list \<Rightarrow> (int \<times> int) list \<Rightarrow> st_event list \<Rightarrow> st_run \<Rightarrow> st_run \<Rightarrow> bool" where
  "step_ok excluded ps expiries es r r' =
     (run_ok excluded ps r' \<and>
      unseen_total (rnUnseen r') = unseen_total (rnUnseen r) + sum_list (map (refused_units excluded ps expiries) es) \<and>
      (\<forall>w. get_or (rnMakers r) w 0 \<le> get_or (rnMakers r') w 0) \<and>
      (\<forall>w. potential w r' \<le> potential w r + sum_list (map (counted_units excluded ps expiries w) es)))"

lemma primary_fill_ok:
  assumes "run_ok excluded ps r" "0 < evUnits e" "evKind e = KFill f" "sfPrimary f" "\<not> expired_event expiries e"
  shows "\<exists>r'. primary_fill excluded e f r = Inr r' \<and> step_ok excluded ps expiries [e] r r'"
proof -
  have g: "graph_ok (map_of (rnParent r)) (edge_set excluded ps)" and du: "distinct (map fst (rnUnseen r))"
    using assms(1) by (auto simp: run_ok_def)
  let ?L = "fill_linked excluded ps f"
  obtain ps' where l: "linked_fill excluded (rnParent r) f = Some (?L, ps')" "graph_ok (map_of ps') (edge_set excluded ps)"
    using linked_fill_ok [OF g] by blast
  define wr where "wr = (if sfTakerIsBuyer f \<and> minimum_price (sfPrice f) \<and> ?L then Some (lower (sfSeller f)) else None)"
  define r2 where "r2 = (if wr = None \<and> sfTakerIsBuyer f then
      (if ?L \<and> \<not> minimum_price (sfPrice f) \<and> suspect_price (sfPrice f) then recordUnseen PriceAboveCountedBand (evUnits e) (r\<lparr>rnParent := ps'\<rparr>)
       else if minimum_price (sfPrice f) \<and> \<not> ?L then recordUnseen NoLinkEvidence (evUnits e) (r\<lparr>rnParent := ps'\<rparr>)
       else r\<lparr>rnParent := ps'\<rparr>) else r\<lparr>rnParent := ps'\<rparr>)"
  let ?r = "r2\<lparr>rnLots := addLot (fill_lot e f wr) (rnLots r2)\<rparr>"
  have run: "primary_fill excluded e f r = Inr ?r" using l(1) by (simp add: primary_fill_def Let_def wr_def r2_def)
  have r2: "unseen_total (rnUnseen r2) = unseen_total (rnUnseen r) + refused_units excluded ps expiries e
      \<and> distinct (map fst (rnUnseen r2)) \<and> rnLots r2 = rnLots r \<and> rnMakers r2 = rnMakers r \<and> rnParent r2 = ps'"
    using record_total [of "r\<lparr>rnParent := ps'\<rparr>" "evUnits e"] du assms(2-5)
    by (auto simp: r2_def wr_def refused_units_def)
  have open_eq: "writer_open w (rnLots ?r) = writer_open w (rnLots r) + (if wr = Some w then evUnits e else 0)" for w
    using addLot_open [of "fill_lot e f wr" w "rnLots r"] r2 assms(2) by (auto simp: fill_lot_def wr_def)
  have ok: "run_ok excluded ps ?r"
    using assms(1,2) l(2) r2 by (auto simp: run_ok_def fill_lot_def intro!: addLot_ok)
  have pot: "potential w ?r \<le> potential w r + counted_units excluded ps expiries w e" for w
    using open_eq r2 assms(3-5) unfolding potential_def counted_units_def by (auto simp: wr_def)
  have "step_ok excluded ps expiries [e] r ?r"
    using ok pot r2 by (simp add: step_ok_def)
  then show ?thesis using run by blast
qed

lemma consume_run:
  assumes "run_ok excluded ps r" "0 \<le> evUnits e"
  obtains portions lots where "consume collate l h (evUnits e) (rnLots r) = Inr (portions, lots)" "lots_ok lots"
    "list_all portion_ok portions" "\<And>w. portion_units w portions + writer_open w lots = writer_open w (rnLots r)"
    "\<And>w. 0 \<le> portion_units w portions"
proof -
  have "lots_ok (rnLots r)" using assms(1) by (simp add: run_ok_def)
  from consume_conserves [OF assms(2) this, of collate l h] obtain portions lots where
    c: "consume collate l h (evUnits e) (rnLots r) = Inr (portions, lots)" "lots_ok lots" "list_all portion_ok portions"
    "\<forall>w. portion_units w portions + writer_open w lots = writer_open w (rnLots r)" by blast
  moreover have "0 \<le> portion_units w portions" for w
    using c(3) unfolding portion_units_def by (intro sum_list_nonneg_map) (auto simp: list_all_iff portion_ok_def)
  ultimately show thesis using that by blast
qed

lemma other_counts: "\<not> (\<exists>f. evKind e = KFill f \<and> sfPrimary f) \<Longrightarrow>
    counted_units excluded ps expiries w e = 0 \<and> refused_units excluded ps expiries e = 0"
  by (auto simp: counted_units_def refused_units_def split: st_kind.splits)

lemma resale_fill_ok:
  assumes "run_ok excluded ps r" "0 < evUnits e" "evKind e = KFill f" "\<not> sfPrimary f"
  shows "\<exists>r'. resale_fill collate e f r = Inr r' \<and> step_ok excluded ps expiries [e] r r'"
proof -
  obtain portions lots where c: "consume collate (evLongId e) (sfSeller f) (evUnits e) (rnLots r) = Inr (portions, lots)" "lots_ok lots"
    "list_all portion_ok portions" "\<And>w. portion_units w portions + writer_open w lots = writer_open w (rnLots r)"
    "\<And>w. 0 \<le> portion_units w portions"
    using consume_run [OF assms(1) less_imp_le [OF assms(2)]] by metis
  let ?r = "r\<lparr>rnMakers := count_resold portions (rnMakers r), rnLots := addLot (fill_lot e f None) lots\<rparr>"
  have none: "counted_units excluded ps expiries w e = 0" "refused_units excluded ps expiries e = 0" for w
    using other_counts [of e] assms(3,4) by auto
  have "run_ok excluded ps ?r"
    using assms(1,2) c(2) by (auto simp: run_ok_def fill_lot_def count_resold_distinct intro!: addLot_ok)
  moreover have "writer_open w (rnLots ?r) = writer_open w lots" for w
    using addLot_open [of "fill_lot e f None" w lots] assms(2) by (simp add: fill_lot_def)
  ultimately have "step_ok excluded ps expiries [e] r ?r"
    using c(4,5) by (auto simp: step_ok_def none potential_def count_resold_get [OF c(3)])
  then show ?thesis using c(1) by (simp add: resale_fill_def)
qed

lemma transfer_event_ok:
  assumes "run_ok excluded ps r" "0 < evUnits e" "evKind e = KTransfer a b"
  shows "\<exists>r'. transfer_event collate excluded matched e a b r = Inr r' \<and> step_ok excluded ps expiries [e] r r'"
proof -
  have none: "counted_units excluded ps expiries w e = 0" "refused_units excluded ps expiries e = 0" for w
    using other_counts [of e] assms(3) by auto
  have self: "step_ok excluded ps expiries [e] r r" using assms(1) by (simp add: step_ok_def none)
  obtain portions lots where c: "consume collate (evLongId e) (lower a) (evUnits e) (rnLots r) = Inr (portions, lots)" "lots_ok lots"
    "list_all portion_ok portions" "\<And>w. portion_units w portions + writer_open w lots = writer_open w (rnLots r)"
    "\<And>w. 0 \<le> portion_units w portions"
    using consume_run [OF assms(1) less_imp_le [OF assms(2)]] by metis
  have "run_ok excluded ps (r\<lparr>rnLots := lots\<rparr>)" using assms(1) c(2) by (simp add: run_ok_def)
  from transfer_lots_ok [OF this c(3), of e "lower a" "lower b" 0] obtain r' where
    t: "transfer_lots excluded e (lower a) (lower b) 0 portions (r\<lparr>rnLots := lots\<rparr>) = Inr r'" "run_ok excluded ps r'"
    "rnMakers r' = rnMakers r" "rnUnseen r' = rnUnseen r" "\<And>w. writer_open w (rnLots r') \<le> writer_open w lots + portion_units w portions"
    by auto
  have "potential w r' \<le> potential w r" for w using t(3) t(5) [of w] c(4) [of w] by (simp add: potential_def)
  then have "step_ok excluded ps expiries [e] r r'" using t by (simp add: step_ok_def none)
  then show ?thesis using t(1) c(1) self by (simp add: transfer_event_def Let_def)
qed

lemma exit_event_ok:
  assumes "run_ok excluded ps r" "0 < evUnits e" "evKind e = KClose h \<or> evKind e = KRedemption h"
  shows "\<exists>r'. exit_event collate e h r = Inr r' \<and> step_ok excluded ps expiries [e] r r'"
proof -
  have none: "counted_units excluded ps expiries w e = 0" "refused_units excluded ps expiries e = 0" for w
    using other_counts [of e] assms(3) by auto
  obtain portions lots where c: "consume collate (evLongId e) h (evUnits e) (rnLots r) = Inr (portions, lots)" "lots_ok lots"
    "list_all portion_ok portions" "\<And>w. portion_units w portions + writer_open w lots = writer_open w (rnLots r)"
    "\<And>w. 0 \<le> portion_units w portions"
    using consume_run [OF assms(1) less_imp_le [OF assms(2)]] by metis
  have "potential w (r\<lparr>rnLots := lots\<rparr>) \<le> potential w r" for w using c(4,5) [of w] by (simp add: potential_def)
  then have "step_ok excluded ps expiries [e] r (r\<lparr>rnLots := lots\<rparr>)" using assms(1) c(2) by (simp add: step_ok_def none run_ok_def)
  then show ?thesis using c(1) by (simp add: exit_event_def)
qed

lemma step_ok_trans:
  "step_ok excluded ps expiries es r r' \<Longrightarrow> step_ok excluded ps expiries es' r' r'' \<Longrightarrow> step_ok excluded ps expiries (es @ es') r r''"
  unfolding step_ok_def by (auto intro: order_trans)

lemma event_step_ok:
  assumes "run_ok excluded ps r" "0 \<le> evUnits e"
  shows "\<exists>r'. event_step collate excluded matched expiries e r = Inr r' \<and> step_ok excluded ps expiries [e] r r'"
proof -
  define r1 where "r1 = r\<lparr>rnLots := expire_lots expiries (evTs e) (Some (evLongId e)) (rnLots r)\<rparr>"
  have lots: "lots_ok (rnLots r)" using assms(1) by (simp add: run_ok_def)
  have ok1: "run_ok excluded ps r1" using assms(1) expire_ok [OF lots] by (simp add: run_ok_def r1_def)
  have s1: "step_ok excluded ps expiries [] r r1"
    using ok1 expire_open [OF lots] by (simp add: step_ok_def potential_def r1_def)
  note unf = event_step_def Let_def r1_def [symmetric]
  show ?thesis
  proof (cases "expired_event expiries e \<or> evUnits e = 0")
    case True
    then have "counted_units excluded ps expiries w e = 0" "refused_units excluded ps expiries e = 0" for w
      by (auto simp: counted_units_def refused_units_def split: st_kind.splits)
    then have "step_ok excluded ps expiries [e] r1 r1" using ok1 by (simp add: step_ok_def)
    from step_ok_trans [OF s1 this] True assms(2) show ?thesis by (auto simp: unf expired_event_def)
  next
    case False
    then have u: "0 < evUnits e" and ne: "\<not> expired_event expiries e" using assms(2) by auto
    have "\<exists>r'. event_step collate excluded matched expiries e r = Inr r' \<and> step_ok excluded ps expiries [e] r1 r'"
    proof (cases "evKind e")
      case (KFill f)
      then show ?thesis using primary_fill_ok [OF ok1 u KFill _ ne] resale_fill_ok [OF ok1 u KFill, of collate expiries] u ne
        by (simp add: unf expired_event_def)
    next
      case (KTransfer a b)
      then show ?thesis using transfer_event_ok [OF ok1 u KTransfer, of collate matched expiries] u ne by (simp add: unf expired_event_def)
    next
      case (KMint h)
      then have none: "counted_units excluded ps expiries w e = 0" "refused_units excluded ps expiries e = 0" for w
        by (simp_all add: counted_units_def refused_units_def)
      have "writer_open w (addLot (mint_lot e h) (rnLots r1)) = writer_open w (rnLots r1)" for w
        using addLot_open [of "mint_lot e h" w "rnLots r1"] u by (simp add: mint_lot_def)
      then have "step_ok excluded ps expiries [e] r1 (r1\<lparr>rnLots := addLot (mint_lot e h) (rnLots r1)\<rparr>)"
        using ok1 u by (auto simp: step_ok_def none run_ok_def potential_def mint_lot_def intro!: addLot_ok)
      then show ?thesis using KMint u ne by (simp add: unf expired_event_def)
    next
      case (KClose h)
      then show ?thesis using exit_event_ok [OF ok1 u, of h collate expiries] u ne by (simp add: unf expired_event_def)
    next
      case (KRedemption h)
      then show ?thesis using exit_event_ok [OF ok1 u, of h collate expiries] u ne by (simp add: unf expired_event_def)
    qed
    then show ?thesis using step_ok_trans [OF s1] by auto
  qed
qed

lemma event_loop_ok:
  assumes "run_ok excluded ps r" "list_all (\<lambda>e. 0 \<le> evUnits e) es"
  shows "\<exists>r'. event_loop collate excluded matched expiries es r = Inr r' \<and> step_ok excluded ps expiries es r r'"
  using assms
proof (induction es arbitrary: r)
  case Nil
  then show ?case by (simp add: step_ok_def)
next
  case (Cons e es)
  obtain r1 where r1: "event_step collate excluded matched expiries e r = Inr r1" "step_ok excluded ps expiries [e] r r1"
    using event_step_ok [OF Cons.prems(1), of e collate matched expiries] Cons.prems(2) by auto
  then have "run_ok excluded ps r1" by (simp add: step_ok_def)
  from Cons.IH [OF this] Cons.prems(2) r1 step_ok_trans [OF r1(2)] show ?case by fastforce
qed

lemma event_loop_error:
  assumes "run_ok excluded ps r" "event_loop collate excluded matched expiries es r = Inl err"
  shows "\<exists>e \<in> set es. evUnits e < 0 \<and> err = NegativeUnits (evId e)"
  using assms
proof (induction es arbitrary: r)
  case (Cons e es)
  show ?case
  proof (cases "evUnits e < 0")
    case True
    then show ?thesis using Cons.prems(2) by (simp add: event_step_def)
  next
    case False
    then obtain r1 where r1: "event_step collate excluded matched expiries e r = Inr r1" "step_ok excluded ps expiries [e] r r1"
      using event_step_ok [OF Cons.prems(1)] by (metis not_less)
    then have "run_ok excluded ps r1" by (simp add: step_ok_def)
    from Cons.IH [OF this] Cons.prems(2) r1 show ?thesis by auto
  qed
qed simp

subsection \<open>A whole range\<close>

definition state_ok :: "st_state \<Rightarrow> bool" where
  "state_ok state = list_all (\<lambda>l. 0 \<le> loRemaining l \<and> loRemaining l \<le> loUnits l) (stLots state)"

text \<open>What a state has counted for a writer, and the units of it that may still be counted.\<close>

definition counted_before :: "address \<Rightarrow> st_state \<Rightarrow> int" where
  "counted_before w state = sum_list (map (\<lambda>row. if lower (smWriter row) = w then smUnits row else 0) (stMakers state))"

definition open_before :: "address \<Rightarrow> st_state \<Rightarrow> int" where
  "open_before w state = sum_list (map (\<lambda>l. if map_option lower (loWriter l) = Some w then loRemaining l else 0) (stLots state))"

lemma keyed_lots: "state_ok state \<Longrightarrow> lots_ok (map keyed_lot (stLots state))"
  by (auto simp: state_ok_def lots_ok_def list_all_iff keyed_lot_def option.map_comp o_def)

lemma keyed_open: "writer_open w (map keyed_lot (stLots state)) = open_before w state"
proof -
  have "open_of w (keyed_lot l) = (if map_option lower (loWriter l) = Some w then loRemaining l else 0)" for l
    by (cases "loWriter l") (simp_all add: open_of_def keyed_lot_def)
  then show ?thesis by (simp add: writer_open_def open_before_def o_def)
qed

lemma carried_makers_aux:
  fixes m :: "(address \<times> int) list"
  assumes "distinct (map fst m)"
  shows "distinct (map fst (foldl (\<lambda>m row. AList.update (lower (smWriter row)) (get_or m (lower (smWriter row)) 0 + smUnits row) m) m rows))
    \<and> get_or (foldl (\<lambda>m row. AList.update (lower (smWriter row)) (get_or m (lower (smWriter row)) 0 + smUnits row) m) m rows) w 0
      = get_or m w 0 + sum_list (map (\<lambda>row. if lower (smWriter row) = w then smUnits row else 0) rows)"
  using assms by (induction rows arbitrary: m) (auto simp: distinct_keys_update)

lemma carried_makers_get: "distinct (map fst (carried_makers (stMakers state)))"
    "get_or (carried_makers (stMakers state)) w 0 = counted_before w state"
  unfolding carried_makers_def counted_before_def using carried_makers_aux [where m = "[]" and w = w and rows = "stMakers state"] by simp_all

lemma carried_unseen_aux:
  fixes m :: "(unseen_reason \<times> (int \<times> int)) list"
  assumes "distinct (map fst m)"
  shows "distinct (map fst (foldl (\<lambda>m row. let carried = get_or m (suReason row) (0, 0)
            in AList.update (suReason row) (fst carried + suUnits row, snd carried + suFills row) m) m rows))
    \<and> unseen_total (foldl (\<lambda>m row. let carried = get_or m (suReason row) (0, 0)
            in AList.update (suReason row) (fst carried + suUnits row, snd carried + suFills row) m) m rows)
      = unseen_total m + sum_list (map suUnits rows)"
  using assms
proof (induction rows arbitrary: m)
  case (Cons row rows)
  let ?c = "get_or m (suReason row) (0, 0)"
  let ?m = "AList.update (suReason row) (fst ?c + suUnits row, snd ?c + suFills row) m"
  have "unseen_total ?m = unseen_total m + suUnits row"
    using sum_values_update [OF Cons.prems, of fst "(0, 0)"] by (simp add: unseen_total_def)
  then show ?case using Cons.IH [OF distinct_keys_update [OF Cons.prems]] by (simp add: Let_def)
qed simp

lemma carried_unseen_total:
  "distinct (map fst (carried_unseen rows))" "unseen_total (carried_unseen rows) = sum_list (map suUnits rows)"
  unfolding carried_unseen_def using carried_unseen_aux [of "[]" rows] by (simp_all add: unseen_total_def)

text \<open>What a range reduces with: the graph is ready and the run starts well-formed.\<close>

lemma start_run_ok:
  assumes "state_ok state"
  obtains graph where "add_links excluded ps \<lparr>lkEdges = [], lkParent = []\<rparr> = Some graph" "run_ok excluded ps (start_run graph state)"
proof -
  obtain graph where "add_links excluded ps \<lparr>lkEdges = [], lkParent = []\<rparr> = Some graph" "graph_ok (map_of (lkParent graph)) (edge_set excluded ps)"
    using add_links_ok [of "\<lparr>lkEdges = [], lkParent = []\<rparr>" "{}" excluded ps] graph_ok_empty by (auto simp: sym_def)
  then show thesis using that [of graph] keyed_lots [OF assms] carried_makers_get(1) [of state] carried_unseen_total(1)
    by (simp add: run_ok_def start_run_def)
qed

lemma mset_sum: "mset xs = mset ys \<Longrightarrow> sum_list (map f xs) = sum_list (map f ys)" for f :: "'a \<Rightarrow> int"
  by (metis mset_map sum_mset_sum_list)

lemma find_writer:
  assumes "distinct (map smWriter rows)"
  shows "(case List.find (\<lambda>row. smWriter row = w) rows of None \<Rightarrow> 0 | Some row \<Rightarrow> smUnits row)
    = sum_list (map (\<lambda>row. if smWriter row = w then smUnits row else 0) rows)"
  using assms
proof (induction rows)
  case (Cons row rows)
  have "w \<notin> set (map smWriter rows) \<Longrightarrow> sum_list (map (\<lambda>row. if smWriter row = w then smUnits row else 0) rows) = 0"
    by (induction rows) auto
  then show ?case using Cons by auto
qed simp

lemma finish_makers:
  assumes "distinct (map fst (rnMakers r))"
  shows "selfTradeUnitsFor (finish_run collate expiries batch graph r) writer = get_or (rnMakers r) (lower writer) 0"
proof -
  define rows where "rows = map (\<lambda>(w, u). \<lparr>smWriter = w, smUnits = u\<rparr>) (rnMakers r)"
  define sorted where "sorted = js_sort (\<lambda>a b. collate (smWriter a) (smWriter b)) rows"
  have ms: "mset sorted = mset rows" by (simp add: sorted_def)
  have "map smWriter rows = map fst (rnMakers r)" by (simp add: rows_def split_beta o_def)
  then have "distinct (map smWriter sorted)" using assms ms by (metis mset_eq_imp_distinct_iff mset_map)
  note f = find_writer [OF this, of "lower writer"]
  have "sum_list (map (\<lambda>row. if smWriter row = w then smUnits row else 0) (map (\<lambda>(w, u). \<lparr>smWriter = w, smUnits = u\<rparr>) m)) = get_or m w 0"
    if "distinct (map fst m)" for m w
    using that
  proof (induction m)
    case (Cons kv m)
    have "fst kv \<notin> fst ` set m \<Longrightarrow> get_or m (fst kv) 0 = (0::int)" by (rule get_or_absent)
    then show ?case using Cons by (cases kv) (auto simp: get_or_def)
  qed simp
  from this [OF assms] have "sum_list (map (\<lambda>row. if smWriter row = w then smUnits row else 0) rows) = get_or (rnMakers r) w 0" for w
    unfolding rows_def .
  then show ?thesis using f mset_sum [OF ms] by (simp add: selfTradeUnitsFor_def finish_run_def flip: rows_def sorted_def)
qed

lemma finish_unseen:
  "totalSelfTradeUnseenUnits (finish_run collate expiries batch graph r) = unseen_total (rnUnseen r)"
proof -
  have "sum_list (map suUnits (map (\<lambda>(reason, u, n). \<lparr>suReason = reason, suUnits = u, suFills = n\<rparr>) m)) = unseen_total m" for m
    by (induction m) (auto simp: unseen_total_def)
  moreover have "sum_list (map suUnits (js_sort c xs)) = sum_list (map suUnits xs)" for c and xs :: "st_unseen list"
    by (rule mset_sum) simp
  ultimately show ?thesis
    by (simp only: totalSelfTradeUnseenUnits_def finish_run_def st_state.select_convs or_else_simps foldl_add_sum add_0)
qed

lemma finish_lots:
  assumes "lots_ok (rnLots r)"
  shows "state_ok (finish_run collate expiries batch graph r)"
    "open_before w (finish_run collate expiries batch graph r) \<le> writer_open w (rnLots r)"
proof -
  define lots where "lots = expire_lots expiries (sbThroughTimestamp batch) None (rnLots r)"
  have ok: "lots_ok lots" using assms expire_ok by (simp add: lots_def)
  show "state_ok (finish_run collate expiries batch graph r)"
    using ok by (auto simp: state_ok_def finish_run_def lots_ok_def list_all_iff simp flip: lots_def)
  have "open_before w (finish_run collate expiries batch graph r)
      = sum_list (map (\<lambda>l. if map_option lower (loWriter l) = Some w then loRemaining l else 0) lots)"
    unfolding open_before_def finish_run_def by (simp flip: lots_def) (rule mset_sum, simp)
  also have "\<dots> = writer_open w lots"
    unfolding writer_open_def using ok
    by (intro arg_cong [where f = sum_list] map_cong) (auto simp: lots_ok_def list_all_iff open_of_def)
  finally show "open_before w (finish_run collate expiries batch graph r) \<le> writer_open w (rnLots r)"
    using expire_open [OF assms] by (simp add: lots_def)
qed

text \<open>Everything the reduction of a range says about its counts, for the sets of its batch.\<close>

definition batch_counted :: "(string \<Rightarrow> string \<Rightarrow> int) \<Rightarrow> st_state \<Rightarrow> st_batch \<Rightarrow> address \<Rightarrow> int" where
  "batch_counted collate state batch w =
     sum_list (map (counted_units (excluded_of (sbProtocolAddresses batch)) (batch_links collate state batch)
       (map_from (sbSeriesExpiries batch)) w) (range_events collate (stCursor state) batch))"

definition batch_refused :: "(string \<Rightarrow> string \<Rightarrow> int) \<Rightarrow> st_state \<Rightarrow> st_batch \<Rightarrow> int" where
  "batch_refused collate state batch =
     sum_list (map (refused_units (excluded_of (sbProtocolAddresses batch)) (batch_links collate state batch)
       (map_from (sbSeriesExpiries batch))) (range_events collate (stCursor state) batch))"

lemma reduce_run:
  assumes "state_ok state" "stCursor state < sbThrough batch" "list_all (\<lambda>e. 0 \<le> evUnits e) (range_events collate (stCursor state) batch)"
  obtains graph r where
    "reduceSelfTrade collate state batch = Inr (finish_run collate (map_from (sbSeriesExpiries batch)) batch graph r)"
    "step_ok (excluded_of (sbProtocolAddresses batch)) (batch_links collate state batch) (map_from (sbSeriesExpiries batch))
       (range_events collate (stCursor state) batch) (start_run graph state) r"
proof -
  let ?ex = "excluded_of (sbProtocolAddresses batch)" and ?ps = "batch_links collate state batch"
  obtain graph where g: "add_links ?ex ?ps \<lparr>lkEdges = [], lkParent = []\<rparr> = Some graph" "run_ok ?ex ?ps (start_run graph state)"
    using start_run_ok [OF assms(1)] by metis
  from event_loop_ok [OF g(2) assms(3), of collate "sbMatchedTransferIds batch" "map_from (sbSeriesExpiries batch)"] obtain r where
    "event_loop collate ?ex (sbMatchedTransferIds batch) (map_from (sbSeriesExpiries batch)) (range_events collate (stCursor state) batch)
      (start_run graph state) = Inr r"
    "step_ok ?ex ?ps (map_from (sbSeriesExpiries batch)) (range_events collate (stCursor state) batch) (start_run graph state) r" by blast
  then show thesis using that [of graph r] g(1) assms(2) by (simp add: reduceSelfTrade_def Let_def)
qed

lemma counts_of:
  assumes "state_ok state" "stCursor state < sbThrough batch" "list_all (\<lambda>e. 0 \<le> evUnits e) (range_events collate (stCursor state) batch)"
  shows "\<exists>state'. reduceSelfTrade collate state batch = Inr state' \<and> state_ok state' \<and> stCursor state' = sbThrough batch \<and>
     counted_before (lower w) state \<le> selfTradeUnitsFor state' w \<and>
     selfTradeUnitsFor state' w + open_before (lower w) state'
       \<le> counted_before (lower w) state + open_before (lower w) state + batch_counted collate state batch (lower w) \<and>
     totalSelfTradeUnseenUnits state' = totalSelfTradeUnseenUnits state + batch_refused collate state batch"
proof -
  obtain graph r where red: "reduceSelfTrade collate state batch = Inr (finish_run collate (map_from (sbSeriesExpiries batch)) batch graph r)"
    and st: "step_ok (excluded_of (sbProtocolAddresses batch)) (batch_links collate state batch) (map_from (sbSeriesExpiries batch))
       (range_events collate (stCursor state) batch) (start_run graph state) r"
    using reduce_run [OF assms] by metis
  let ?s = "finish_run collate (map_from (sbSeriesExpiries batch)) batch graph r"
  have ok: "lots_ok (rnLots r)" "distinct (map fst (rnMakers r))" using st by (auto simp: step_ok_def run_ok_def)
  have start: "get_or (rnMakers (start_run graph state)) (lower w) 0 = counted_before (lower w) state"
    "potential (lower w) (start_run graph state) = counted_before (lower w) state + open_before (lower w) state"
    "unseen_total (rnUnseen (start_run graph state)) = totalSelfTradeUnseenUnits state"
    by (simp_all add: start_run_def potential_def carried_makers_get keyed_open carried_unseen_total totalSelfTradeUnseenUnits_def foldl_add_sum)
  have "selfTradeUnitsFor ?s w = get_or (rnMakers r) (lower w) 0" by (rule finish_makers [OF ok(2)])
  moreover have "open_before (lower w) ?s \<le> writer_open (lower w) (rnLots r)" by (rule finish_lots(2) [OF ok(1)])
  moreover have "get_or (rnMakers (start_run graph state)) (lower w) 0 \<le> get_or (rnMakers r) (lower w) 0"
    "potential (lower w) r \<le> potential (lower w) (start_run graph state) + batch_counted collate state batch (lower w)"
    "unseen_total (rnUnseen r) = unseen_total (rnUnseen (start_run graph state)) + batch_refused collate state batch"
    using st by (auto simp: step_ok_def batch_counted_def batch_refused_def)
  ultimately have "counted_before (lower w) state \<le> selfTradeUnitsFor ?s w"
    "selfTradeUnitsFor ?s w + open_before (lower w) ?s
       \<le> counted_before (lower w) state + open_before (lower w) state + batch_counted collate state batch (lower w)"
    "totalSelfTradeUnseenUnits ?s = totalSelfTradeUnseenUnits state + batch_refused collate state batch"
    by (simp_all add: start finish_unseen) (simp add: start potential_def)
  moreover have "stCursor ?s = sbThrough batch" by (simp add: finish_run_def)
  ultimately show ?thesis using red finish_lots(1) [OF ok(1)] by blast
qed

text \<open>
  C8: the reduction of a range of well-formed events always succeeds and never loses a count. What a
  writer has counted grows, and together with the open units that could still be counted it never
  exceeds what was there plus the primary units of this range that the writer sold at the floor price to a linked
  wallet: each counted unit is one such unit, counted at most once. The refused legs are recorded unit for unit.
\<close>

theorem reduceSelfTrade_counts:
  assumes "state_ok state" "stCursor state < sbThrough batch" "list_all (\<lambda>e. 0 \<le> evUnits e) (range_events collate (stCursor state) batch)"
  shows "\<exists>state'. reduceSelfTrade collate state batch = Inr state' \<and> state_ok state' \<and> stCursor state' = sbThrough batch \<and>
     counted_before (lower w) state \<le> selfTradeUnitsFor state' w \<and>
     selfTradeUnitsFor state' w + open_before (lower w) state'
       \<le> counted_before (lower w) state + open_before (lower w) state + batch_counted collate state batch (lower w) \<and>
     totalSelfTradeUnseenUnits state' = totalSelfTradeUnseenUnits state + batch_refused collate state batch"
  by (rule counts_of [OF assms])

text \<open>
  the only error of the reduction is an event of the range with negative units. The search for a root
  always returns and lots are never asked for a negative amount.
\<close>

theorem reduceSelfTrade_error:
  assumes "state_ok state" "reduceSelfTrade collate state batch = Inl err"
  shows "\<exists>e. e \<in> set (sbEvents batch) \<and> stCursor state < evBlock e \<and> evBlock e \<le> sbThrough batch \<and> evUnits e < 0 \<and> err = NegativeUnits (evId e)"
proof -
  let ?ex = "excluded_of (sbProtocolAddresses batch)" and ?ps = "batch_links collate state batch"
  obtain graph where g: "add_links ?ex ?ps \<lparr>lkEdges = [], lkParent = []\<rparr> = Some graph" "run_ok ?ex ?ps (start_run graph state)"
    using start_run_ok [OF assms(1)] by metis
  have "event_loop collate ?ex (sbMatchedTransferIds batch) (map_from (sbSeriesExpiries batch)) (range_events collate (stCursor state) batch)
      (start_run graph state) = Inl err"
    using assms(2) g(1) by (auto simp: reduceSelfTrade_def Let_def split: if_splits sum.splits)
  from event_loop_error [OF g(2) this] show ?thesis by (auto simp: range_events_def)
qed

text \<open>
  from an empty state, the coverage is \<open>blind\<close> exactly when nothing was counted although legs were refused, and
  \<open>clean\<close> only when no leg of the range looked like the pattern and escaped it: a zero that is called clean is a real zero.
\<close>

theorem coverage_not_blind:
  assumes "cur < sbThrough batch" "list_all (\<lambda>e. 0 \<le> evUnits e) (range_events collate cur batch)"
  shows "\<exists>state'. reduceSelfTrade collate (emptySelfTradeState (Some cur)) batch = Inr state' \<and>
     (cvStatus (selfTradeCoverage state') = Blind \<longleftrightarrow>
        totalSelfTradeUnits state' \<le> 0 \<and> 0 < batch_refused collate (emptySelfTradeState (Some cur)) batch) \<and>
     (cvStatus (selfTradeCoverage state') = Clean \<longleftrightarrow>
        totalSelfTradeUnits state' \<le> 0 \<and> batch_refused collate (emptySelfTradeState (Some cur)) batch \<le> 0)"
proof -
  let ?s = "emptySelfTradeState (Some cur)"
  have e: "state_ok ?s" "stCursor ?s = cur" "totalSelfTradeUnseenUnits ?s = 0"
    by (simp_all add: emptySelfTradeState_def state_ok_def totalSelfTradeUnseenUnits_def)
  obtain state' where s': "reduceSelfTrade collate ?s batch = Inr state'" "totalSelfTradeUnseenUnits state' = batch_refused collate ?s batch"
    using counts_of [OF e(1), of batch collate] assms e by auto
  then show ?thesis by (intro exI [of _ state']) (auto simp: selfTradeCoverage_def Let_def)
qed

text \<open>
  input ordering cannot change the result: events at different positions may be given in any order.
\<close>

theorem reduce_event_order:
  assumes "comparator collate" "mset evs = mset (sbEvents batch)" "distinct (map (\<lambda>e. (evBlock e, evLogIndex e)) (sbEvents batch))"
  shows "reduceSelfTrade collate state (batch\<lparr>sbEvents := evs\<rparr>) = reduceSelfTrade collate state batch"
proof -
  let ?P = "\<lambda>e. evBlock e > stCursor state \<and> evBlock e \<le> sbThrough batch"
  note sorted = comparator.sort_sorted [OF position_comparator(1) [OF assms(1)]]
  have inj: "inj_on (\<lambda>e. (evBlock e, evLogIndex e)) (set (sbEvents batch))" using assms(3) by (simp add: distinct_map)
  have "js_sort (comparePosition collate) (filter ?P evs) = js_sort (comparePosition collate) (filter ?P (sbEvents batch))"
  proof (rule sorted_wrt_unique [OF sorted sorted])
    show "mset (js_sort (comparePosition collate) (filter ?P evs)) = mset (js_sort (comparePosition collate) (filter ?P (sbEvents batch)))"
      using assms(2) by simp
    fix a b
    assume "a \<in> set (js_sort (comparePosition collate) (filter ?P evs))" "b \<in> set (js_sort (comparePosition collate) (filter ?P evs))"
      and le: "comparePosition collate a b \<le> 0" "comparePosition collate b a \<le> 0"
    then have "a \<in> set (sbEvents batch)" "b \<in> set (sbEvents batch)" using assms(2) by (auto dest: mset_eq_setD)
    moreover have "evBlock a = evBlock b" "evLogIndex a = evLogIndex b"
      using le by (auto simp: comparePosition_def cmp_or_def split: if_splits)
    ultimately show "a = b" using inj by (auto dest: inj_onD)
  qed
  then have "range_events collate (stCursor state) (batch\<lparr>sbEvents := evs\<rparr>) = range_events collate (stCursor state) batch"
    by (simp add: range_events_def)
  then show ?thesis by (auto simp: reduceSelfTrade_def batch_links_def finish_run_def Let_def split: option.splits sum.splits)
qed

subsection \<open>One pair of linked wallets\<close>

text \<open>A writer sells five units at the floor to a wallet it funded, which resells three of them.\<close>

definition sample_batch :: st_batch where
  "sample_batch = \<lparr>sbThrough = 9, sbThroughTimestamp = 950,
     sbEvents = [\<lparr>evBlock = 5, evLogIndex = 3, evTs = 500, evId = ''p'', evLongId = 2, evUnits = 5, evKind = KFill \<lparr>sfMaker = ''0xW'', sfTaker = ''0xB'', sfRecipient = ''0xB'', sfBuyer = ''0xB'', sfSeller = ''0xW'', sfPrice = 100,
       sfPrimary = True, sfTakerIsBuyer = True, sfFairAtFill = None\<rparr>\<rparr>,
      \<lparr>evBlock = 6, evLogIndex = 1, evTs = 600, evId = ''r'', evLongId = 2, evUnits = 3, evKind = KFill \<lparr>sfMaker = ''0xW'', sfTaker = ''0xC'', sfRecipient = ''0xC'', sfBuyer = ''0xC'', sfSeller = ''0xb'', sfPrice = 5000,
       sfPrimary = False, sfTakerIsBuyer = True, sfFairAtFill = None\<rparr>\<rparr>],
     sbLinkEvidence = [\<lparr>leLeft = ''0xw'', leRight = ''0xF'', leSource = CashFlow\<rparr>, \<lparr>leLeft = ''0xf'', leRight = ''0xb'', leSource = Operator\<rparr>],
     sbSeriesExpiries = [(2, 100000)], sbMatchedTransferIds = [], sbProtocolAddresses = [Some ''0xBook'', None]\<rparr>"

lemma sample_events_ok: "list_all (\<lambda>e. 0 \<le> evUnits e) (range_events cmp3 (-1) sample_batch)"
  by (simp add: range_events_def sample_batch_def list_all_iff)

theorem reduceSelfTrade_counts_witness:
  "\<exists>state'. reduceSelfTrade cmp3 (emptySelfTradeState None) sample_batch = Inr state' \<and> selfTradeUnitsFor state' ''0xW'' = 3 \<and>
     selfTradeUnitsFor state' ''0xW'' + open_before (lower ''0xW'') state'
       \<le> counted_before (lower ''0xW'') (emptySelfTradeState None) + open_before (lower ''0xW'') (emptySelfTradeState None)
         + batch_counted cmp3 (emptySelfTradeState None) sample_batch (lower ''0xW'')"
proof -
  have "case reduceSelfTrade cmp3 (emptySelfTradeState None) sample_batch of Inl _ \<Rightarrow> False | Inr s \<Rightarrow> selfTradeUnitsFor s ''0xW'' = 3"
    by code_simp
  then show ?thesis
    using reduceSelfTrade_counts [where state = "emptySelfTradeState None" and batch = sample_batch and collate = cmp3 and w = "''0xW''"]
      sample_events_ok
    by (auto simp: state_ok_def emptySelfTradeState_def sample_batch_def)
qed

theorem reduceSelfTrade_error_witness:
  "\<exists>e. e \<in> set (sbEvents (sample_batch\<lparr>sbEvents := [(sbEvents sample_batch ! 0)\<lparr>evUnits := -1\<rparr>]\<rparr>)) \<and> evUnits e < 0 \<and> NegativeUnits ''p'' = NegativeUnits (evId e)"
proof -
  let ?b = "sample_batch\<lparr>sbEvents := [(sbEvents sample_batch ! 0)\<lparr>evUnits := -1\<rparr>]\<rparr>"
  have "case reduceSelfTrade cmp3 (emptySelfTradeState None) ?b of Inl (NegativeUnits e) \<Rightarrow> e = ''p'' | _ \<Rightarrow> False" by code_simp
  then have "reduceSelfTrade cmp3 (emptySelfTradeState None) ?b = Inl (NegativeUnits ''p'')"
    by (auto split: sum.splits st_error.splits)
  from reduceSelfTrade_error [OF _ this] show ?thesis by (auto simp: state_ok_def emptySelfTradeState_def)
qed

theorem coverage_not_blind_witness:
  "\<exists>state'. reduceSelfTrade cmp3 (emptySelfTradeState (Some (-1))) (sample_batch\<lparr>sbLinkEvidence := []\<rparr>) = Inr state' \<and>
     cvStatus (selfTradeCoverage state') = Blind \<and>
     0 < batch_refused cmp3 (emptySelfTradeState (Some (-1))) (sample_batch\<lparr>sbLinkEvidence := []\<rparr>)"
proof -
  let ?b = "sample_batch\<lparr>sbLinkEvidence := []\<rparr>"
  have ev: "list_all (\<lambda>e. 0 \<le> evUnits e) (range_events cmp3 (-1) ?b)"
    by (simp add: range_events_def sample_batch_def list_all_iff)
  have "case reduceSelfTrade cmp3 (emptySelfTradeState (Some (-1))) ?b of Inl _ \<Rightarrow> False | Inr s \<Rightarrow> cvStatus (selfTradeCoverage s) = Blind"
    by code_simp
  then show ?thesis
    using coverage_not_blind [where cur = "-1" and batch = ?b and collate = cmp3, OF _ ev] by (auto simp: sample_batch_def)
qed

lemma collate_strings: "comparator (cmp3 :: string \<Rightarrow> string \<Rightarrow> int)"
  by unfold_locales (auto simp: cmp3_def split: if_splits)

theorem reduce_event_order_witness:
  "reduceSelfTrade cmp3 (emptySelfTradeState None) (sample_batch\<lparr>sbEvents := rev (sbEvents sample_batch)\<rparr>)
     = reduceSelfTrade cmp3 (emptySelfTradeState None) sample_batch"
  by (rule reduce_event_order [OF collate_strings]) (simp_all add: sample_batch_def)

end
