(* ===== verification/RiskSizes.thy ===== *)
theory RiskSizes
  imports MintFee Outflow JsFloat
begin

section \<open>Quote sizes inside the vault's guards (keeper/src/v2/mm/risk.ts)\<close>

text \<open>
  How many units each side of each series may offer: the series and notional caps of the vault and the bot,
  the per-expiry cap, the write collateral with its rent, the wallet and the outflow cap; and the gate
  that stops the side of a series which would push its market's net delta or gamma further past a limit.
  \<open>size_step\<close> is the body of the loop of \<open>planSizes\<close>; its state holds the budgets that run down.
\<close>

definition WRITE_OVERSUBSCRIBE_BPS_EXACT :: int where "WRITE_OVERSUBSCRIBE_BPS_EXACT = 10000"

record size_series =
  zsLongId :: int
  zsStrike :: int
  zsLongs :: int
  zsResale :: int
  zsShorts :: int
  zsSeriesNotional :: int
  zsCollateralAsset :: address
  zsCollateralPerUnit :: int
  zsMintFeePpm :: int
  zsExpiry :: seconds
  zsBidPrice :: "int option"
  zsAskPrice :: "int option"
  zsWriteAllowed :: bool

record size_limits =
  zlNow :: seconds
  zlVaultMaxSeriesUnits :: int
  zlBotMaxSeriesUnits :: int
  zlVaultMaxTotalNotional :: int
  zlBotMaxTotalNotional :: int
  zlTotalNotional :: int
  zlUsdgBudget :: int
  zlOutflowBudget :: int
  zlFreeCollateral :: "(address \<times> int) list"
  zlWriteOversubscribeBps :: "int option"
  zlBidUnits :: int
  zlAskUnits :: int
  zlMaxExpiryNotional :: "int option"
  zlExpiryNotional :: "(seconds \<times> int) list option"
  zlExpiryNotionalUnread :: "seconds list option"

datatype size_cap = SeriesUnits | TotalNotional | CapUsdg | Collateral | CapOutflow | ExpiryNotional | CapDelta | CapGamma

record series_sizes =
  ssLongId :: int
  ssBid :: int
  ssWrite :: int
  ssResale :: int
  ssExposure :: int
  ssNotional :: int
  ssCapped :: "size_cap list"

definition combine :: "int \<Rightarrow> int \<Rightarrow> int" where
  "combine vault own = (if own > 0 then min vault own else vault)"

definition exposureUnits :: "int \<Rightarrow> int \<Rightarrow> int \<Rightarrow> int \<Rightarrow> int \<Rightarrow> int \<Rightarrow> int" where
  "exposureUnits longs resale shorts bid write resaleOrder =
     (let totalLongs = longs + resale;
          up = totalLongs + bid - shorts;
          down = shorts + write - (totalLongs - resaleOrder)
      in max (max up down) 0)"

definition notionalOf :: "int \<Rightarrow> int \<Rightarrow> int" where
  "notionalOf units strike = (units * strike) sdiv UNITS_PER_SHARE"

definition cap_add :: "size_cap \<Rightarrow> size_cap list \<Rightarrow> size_cap list" where
  "cap_add c cs = (if c \<in> set cs then cs else cs @ [c])"

record size_run =
  zrRunning :: int
  zrByExpiry :: "(seconds \<times> int) list"
  zrUsdgLeft :: int
  zrOutflowLeft :: int
  zrCollateralLeft :: "(address \<times> int) list"

text \<open>The cap on a series' exposure and the name of the limit that binds.\<close>

definition room_of :: "int \<Rightarrow> int \<Rightarrow> int \<Rightarrow> int" where
  "room_of cap others strike =
     (let room = (if cap > others then cap - others else 0)
      in if strike > 0 then (room * UNITS_PER_SHARE) sdiv strike else 0)"

definition series_cap :: "size_limits \<Rightarrow> size_series \<Rightarrow> size_run \<Rightarrow> int \<times> size_cap" where
  "series_cap limits s r =
     (let seriesCap = combine (zlVaultMaxSeriesUnits limits) (zlBotMaxSeriesUnits limits);
          totalCap = combine (zlVaultMaxTotalNotional limits) (zlBotMaxTotalNotional limits);
          expiryCap = or_else (zlMaxExpiryNotional limits) 0;
          others = zrRunning r - zsSeriesNotional s;
          byNotional = room_of totalCap others (zsStrike s);
          expiryOthers = get_or (zrByExpiry r) (zsExpiry s) (zsSeriesNotional s) - zsSeriesNotional s;
          expiryUnread = (case zlExpiryNotionalUnread limits of None \<Rightarrow> False | Some u \<Rightarrow> zsExpiry s \<in> set u);
          expiryRoom = (if \<not> expiryUnread \<and> expiryCap > expiryOthers then expiryCap - expiryOthers else 0);
          byExpiry = (if expiryCap > 0 then
                        Some (if zsStrike s > 0 then (expiryRoom * UNITS_PER_SHARE) sdiv zsStrike s else 0) else None);
          cap = min seriesCap byNotional;
          binding = (if byNotional < seriesCap then TotalNotional else SeriesUnits)
      in case byExpiry of
           None \<Rightarrow> (cap, binding)
         | Some e \<Rightarrow> if e < cap then (e, ExpiryNotional) else (cap, binding))"

text \<open>The ask side: inventory first, writes for the rest, cut to the room; then what the collateral covers.\<close>

definition ask_units :: "size_limits \<Rightarrow> size_series \<Rightarrow> int \<times> size_cap \<Rightarrow> int \<times> int \<times> size_cap list" where
  "ask_units limits s cb =
     (let totalLongs = zsLongs s + zsResale s;
          resale = min (zlAskUnits limits) totalLongs;
          write = (if zsWriteAllowed s then zlAskUnits limits - resale else 0);
          downRoom = max (fst cb + totalLongs - zsShorts s) 0
      in if write + resale > downRoom then
           (let over = write + resale - downRoom; cutWrite = min write over
            in (resale - (over - cutWrite), write - cutWrite, [snd cb]))
         else (resale, write, []))"

definition ask_collateral :: "size_limits \<Rightarrow> (address \<times> int) list \<Rightarrow> size_series \<Rightarrow> int \<Rightarrow> size_cap list \<Rightarrow> (address \<times> int) list
    \<Rightarrow> int \<times> size_cap list \<times> (address \<times> int) list" where
  "ask_collateral limits freeActual s write capped collateralLeft =
     (let asset = lower (zsCollateralAsset s);
          left = get_or collateralLeft asset 0;
          remaining = remainingLife (zsExpiry s) (zlNow limits);
          cpu = zsCollateralPerUnit s
      in if write > 0 \<and> cpu > 0 then
           (let single = maxWriteUnits (get_or freeActual asset 0) cpu (zsMintFeePpm s) remaining;
                affordable = min (maxWriteUnits left cpu (zsMintFeePpm s) remaining) single;
                write2 = (if affordable < write then affordable else write)
            in (write2, if affordable < write then cap_add Collateral capped else capped,
                AList.update asset (left - collateralNeeded write2 cpu (zsMintFeePpm s) remaining) collateralLeft))
         else if write > 0 then (0, cap_add Collateral capped, collateralLeft)
         else (write, capped, collateralLeft))"

definition size_ask :: "size_limits \<Rightarrow> (address \<times> int) list \<Rightarrow> size_series \<Rightarrow> int \<times> size_cap \<Rightarrow> (address \<times> int) list
    \<Rightarrow> int \<times> int \<times> size_cap list \<times> (address \<times> int) list" where
  "size_ask limits freeActual s cb collateralLeft =
     (if zsAskPrice s \<noteq> None \<and> zlAskUnits limits > 0 then
        (let (resale, write, capped) = ask_units limits s cb;
             (write2, capped2, left2) = ask_collateral limits freeActual s write capped collateralLeft
         in (resale, write2, capped2, left2))
      else (0, 0, [], collateralLeft))"

text \<open>The bid side: its units, the caps that cut them, and its escrow.\<close>

definition size_bid :: "size_limits \<Rightarrow> size_series \<Rightarrow> int \<times> size_cap \<Rightarrow> int \<Rightarrow> int \<Rightarrow> size_cap list \<Rightarrow> int \<times> size_cap list \<times> int" where
  "size_bid limits s cb usdgLeft outflowLeft capped0 =
     (case zsBidPrice s of
        None \<Rightarrow> (0, capped0, 0)
      | Some bidPrice \<Rightarrow>
          if \<not> (bidPrice > 0 \<and> zlBidUnits limits > 0) then (0, capped0, 0)
          else let (cap, binding) = cb;
                   totalLongs = zsLongs s + zsResale s;
                   upRoom = max (cap + zsShorts s - totalLongs) 0;
                   (bid1, capped1) = (if zlBidUnits limits > upRoom then (upRoom, cap_add binding capped0) else (zlBidUnits limits, capped0));
                   affordable = (usdgLeft * UNITS_PER_SHARE) sdiv bidPrice;
                   (bid2, capped2) = (if affordable < bid1 then (affordable, cap_add CapUsdg capped1) else (bid1, capped1));
                   withinOutflow = (outflowLeft * UNITS_PER_SHARE) sdiv bidPrice;
                   (bid, capped) = (if withinOutflow < bid2 then (withinOutflow, cap_add CapOutflow capped2) else (bid2, capped2))
               in (bid, capped, (bidPrice * bid) sdiv UNITS_PER_SHARE))"

definition size_step :: "size_limits \<Rightarrow> (address \<times> int) list \<Rightarrow> size_series \<Rightarrow> size_run \<Rightarrow> series_sizes \<times> size_run" where
  "size_step limits freeActual s r =
     (let cb = series_cap limits s r;
          (resale, write, capped1, collateralLeft) = size_ask limits freeActual s cb (zrCollateralLeft r);
          (bid, capped, escrow) = size_bid limits s cb (zrUsdgLeft r) (zrOutflowLeft r) capped1;
          exposure = exposureUnits (zsLongs s) (zsResale s) (zsShorts s) bid write resale;
          notional = notionalOf exposure (zsStrike s);
          others = zrRunning r - zsSeriesNotional s;
          expiryOthers = get_or (zrByExpiry r) (zsExpiry s) (zsSeriesNotional s) - zsSeriesNotional s
      in (\<lparr>ssLongId = zsLongId s, ssBid = bid, ssWrite = write, ssResale = resale, ssExposure = exposure,
           ssNotional = notional, ssCapped = capped\<rparr>,
          \<lparr>zrRunning = others + notional, zrByExpiry = AList.update (zsExpiry s) (expiryOthers + notional) (zrByExpiry r),
           zrUsdgLeft = zrUsdgLeft r - escrow, zrOutflowLeft = zrOutflowLeft r - escrow, zrCollateralLeft = collateralLeft\<rparr>))"

fun size_loop :: "size_limits \<Rightarrow> (address \<times> int) list \<Rightarrow> size_series list \<Rightarrow> size_run \<Rightarrow> series_sizes list \<times> size_run" where
  "size_loop limits freeActual [] r = ([], r)"
| "size_loop limits freeActual (s # ss) r =
     (let (z, r1) = size_step limits freeActual s r; (zs, r2) = size_loop limits freeActual ss r1 in (z # zs, r2))"

definition start_sizes :: "size_limits \<Rightarrow> size_run" where
  "start_sizes limits =
     (let oversubscribe = or_else (zlWriteOversubscribeBps limits) WRITE_OVERSUBSCRIBE_BPS_EXACT
      in \<lparr>zrRunning = zlTotalNotional limits, zrByExpiry = or_else (zlExpiryNotional limits) [],
          zrUsdgLeft = zlUsdgBudget limits, zrOutflowLeft = max (zlOutflowBudget limits) 0,
          zrCollateralLeft = foldl (\<lambda>m af. AList.update (lower (fst af)) ((snd af * oversubscribe) sdiv WRITE_OVERSUBSCRIBE_BPS_EXACT) m)
            [] (zlFreeCollateral limits)\<rparr>)"

definition free_actual :: "size_limits \<Rightarrow> (address \<times> int) list" where
  "free_actual limits = foldl (\<lambda>m af. AList.update (lower (fst af)) (snd af) m) [] (zlFreeCollateral limits)"

definition planSizes :: "size_series list \<Rightarrow> size_limits \<Rightarrow> series_sizes list" where
  "planSizes series limits = fst (size_loop limits (free_actual limits) series (start_sizes limits))"

subsection \<open>One series\<close>

definition size_series_ok :: "size_series \<Rightarrow> bool" where
  "size_series_ok s = (0 \<le> zsLongs s \<and> 0 \<le> zsResale s \<and> 0 \<le> zsShorts s \<and> 0 \<le> zsStrike s)"

text \<open>The exposure that the series has with no orders at all.\<close>

definition held_exposure :: "size_series \<Rightarrow> int" where
  "held_exposure s = exposureUnits (zsLongs s) (zsResale s) (zsShorts s) 0 0 0"

lemma ask_units_facts:
  assumes "ask_units limits s cb = (resale, write, capped)" "size_series_ok s" "0 < zlAskUnits limits"
  shows "0 \<le> resale \<and> 0 \<le> write \<and> resale \<le> zsLongs s + zsResale s \<and>
    write + resale \<le> max (fst cb + (zsLongs s + zsResale s) - zsShorts s) 0 \<and> (\<not> zsWriteAllowed s \<longrightarrow> write = 0)"
  using assms by (auto simp: ask_units_def Let_def size_series_ok_def min_def split: if_splits)

text \<open>What a write ask needs of its asset, rent included.\<close>

definition ask_need :: "size_limits \<Rightarrow> size_series \<Rightarrow> int \<Rightarrow> int" where
  "ask_need limits s write =
     collateralNeeded write (zsCollateralPerUnit s) (zsMintFeePpm s) (remainingLife (zsExpiry s) (zlNow limits))"

lemma maxWriteUnits_neg: "free \<le> 0 \<Longrightarrow> maxWriteUnits free c p r = 0"
  by (simp add: maxWriteUnits_def)

lemma affordable_need:
  "0 < c \<Longrightarrow> n \<le> maxWriteUnits free c p r \<Longrightarrow> 0 < n \<Longrightarrow> collateralNeeded n c p r \<le> free"
proof -
  assume a: "0 < c" "n \<le> maxWriteUnits free c p r" "0 < n"
  then have "0 \<le> free" using maxWriteUnits_neg [of free c p r] by (cases "0 \<le> free") auto
  then show ?thesis using collateralNeeded_mono [OF a(2), of c p r] maxWriteUnits_fits [of free c p r] by simp
qed

lemma ask_collateral_facts:
  assumes "ask_collateral limits freeActual s write capped left = (write2, capped2, left2)" "0 \<le> write"
  shows "0 \<le> write2 \<and> write2 \<le> write
    \<and> get_or left2 a 0 = get_or left a 0 - (if a = lower (zsCollateralAsset s) then ask_need limits s write2 else 0)
    \<and> (0 < write2 \<longrightarrow> 0 < zsCollateralPerUnit s \<and> ask_need limits s write2 \<le> get_or left (lower (zsCollateralAsset s)) 0
        \<and> ask_need limits s write2 \<le> get_or freeActual (lower (zsCollateralAsset s)) 0)"
proof (cases "write > 0 \<and> zsCollateralPerUnit s > 0")
  case True
  define aff where "aff = min (maxWriteUnits (get_or left (lower (zsCollateralAsset s)) 0) (zsCollateralPerUnit s) (zsMintFeePpm s) (remainingLife (zsExpiry s) (zlNow limits)))
     (maxWriteUnits (get_or freeActual (lower (zsCollateralAsset s)) 0) (zsCollateralPerUnit s) (zsMintFeePpm s) (remainingLife (zsExpiry s) (zlNow limits)))"
  have w: "write2 = (if aff < write then aff else write)"
    and l: "left2 = AList.update (lower (zsCollateralAsset s)) (get_or left (lower (zsCollateralAsset s)) 0 - ask_need limits s write2) left"
    using assms(1) True by (auto simp: ask_collateral_def Let_def aff_def ask_need_def)
  have "0 \<le> aff" by (simp add: aff_def)
  then have b: "0 \<le> write2" "write2 \<le> write" "write2 \<le> aff" using w assms(2) by auto
  have "0 < write2 \<Longrightarrow> ask_need limits s write2 \<le> get_or left (lower (zsCollateralAsset s)) 0"
    "0 < write2 \<Longrightarrow> ask_need limits s write2 \<le> get_or freeActual (lower (zsCollateralAsset s)) 0"
    unfolding ask_need_def using b(3) True by (auto simp: aff_def intro!: affordable_need)
  then show ?thesis using b True by (simp add: l)
next
  case False
  then have "write2 = 0 \<and> left2 = left" using assms by (auto simp: ask_collateral_def Let_def split: if_splits)
  then show ?thesis using assms(2) by (simp add: ask_need_def)
qed

lemma size_ask_facts:
  assumes "size_ask limits freeActual s cb left = (resale, write, capped, left2)" "size_series_ok s"
  shows "0 \<le> resale \<and> 0 \<le> write \<and> resale \<le> zsLongs s + zsResale s
    \<and> (0 < resale + write \<longrightarrow> zsShorts s + write - (zsLongs s + zsResale s - resale) \<le> fst cb)
    \<and> (zsAskPrice s = None \<longrightarrow> resale = 0 \<and> write = 0) \<and> (\<not> zsWriteAllowed s \<longrightarrow> write = 0)
    \<and> get_or left2 a 0 = get_or left a 0 - (if a = lower (zsCollateralAsset s) then ask_need limits s write else 0)
    \<and> (0 < write \<longrightarrow> ask_need limits s write \<le> get_or left (lower (zsCollateralAsset s)) 0
        \<and> ask_need limits s write \<le> get_or freeActual (lower (zsCollateralAsset s)) 0)"
proof (cases "zsAskPrice s \<noteq> None \<and> zlAskUnits limits > 0")
  case True
  obtain r w c where u: "ask_units limits s cb = (r, w, c)" by (metis surj_pair)
  obtain w2 c2 l2 where k: "ask_collateral limits freeActual s w c left = (w2, c2, l2)" by (metis surj_pair)
  have eq: "resale = r" "write = w2" "left2 = l2" using assms(1) True u k by (auto simp: size_ask_def)
  note uf = ask_units_facts [OF u assms(2)] and kf = ask_collateral_facts [OF k]
  have "0 \<le> w" using uf True by blast
  then show ?thesis using uf kf [of a] True unfolding eq by auto
next
  case False
  then have "resale = 0" "write = 0" "left2 = left" using assms(1) by (auto simp: size_ask_def)
  then show ?thesis using assms(2) by (auto simp: size_series_ok_def ask_need_def)
qed

lemma size_bid_facts:
  assumes "size_bid limits s cb usdg outflow capped = (bid, capped2, escrow)" "0 \<le> usdg" "0 \<le> outflow"
  shows "0 \<le> bid \<and> (0 < bid \<longrightarrow> zsLongs s + zsResale s + bid - zsShorts s \<le> fst cb)
    \<and> (zsBidPrice s = None \<longrightarrow> bid = 0)
    \<and> escrow = (or_else (zsBidPrice s) 0 * bid) div UNITS_PER_SHARE \<and> 0 \<le> escrow \<and> escrow \<le> usdg \<and> escrow \<le> outflow"
proof (cases "zsBidPrice s")
  case None
  then show ?thesis using assms by (simp add: size_bid_def)
next
  case (Some p)
  show ?thesis
  proof (cases "p > 0 \<and> zlBidUnits limits > 0")
    case False
    then have "bid = 0" "escrow = 0" using assms(1) Some by (auto simp: size_bid_def)
    then show ?thesis using assms Some by simp
  next
    case True
    define up where "up = max (fst cb + zsShorts s - (zsLongs s + zsResale s)) 0"
    define b1 where "b1 = min (zlBidUnits limits) up"
    define b2 where "b2 = min b1 ((usdg * UNITS_PER_SHARE) div p)"
    define b3 where "b3 = min b2 ((outflow * UNITS_PER_SHARE) div p)"
    have u: "UNITS_PER_SHARE = 100" by (simp add: UNITS_PER_SHARE_def)
    have d: "0 \<le> (usdg * UNITS_PER_SHARE) div p" "0 \<le> (outflow * UNITS_PER_SHARE) div p"
      using True assms by (simp_all add: u pos_imp_zdiv_nonneg_iff)
    have b: "bid = b3" "escrow = (p * bid) sdiv UNITS_PER_SHARE"
      using assms Some True by (auto simp: size_bid_def Let_def b3_def b2_def b1_def up_def u min_def split_beta split: if_splits)
    have b0: "0 \<le> b3" using True d by (simp add: b3_def b2_def b1_def up_def)
    have le: "p * b3 div UNITS_PER_SHARE \<le> x" if "b3 \<le> (x * UNITS_PER_SHARE) div p" for x
    proof -
      have "b3 * p \<le> x * UNITS_PER_SHARE" using that True by (simp add: le_div_iff_mult_le_int)
      then have "(p * b3) div UNITS_PER_SHARE \<le> (x * UNITS_PER_SHARE) div UNITS_PER_SHARE"
        by (intro zdiv_mono1) (simp_all add: u mult.commute)
      then show ?thesis by (simp add: u)
    qed
    have "b3 \<le> (usdg * UNITS_PER_SHARE) div p" "b3 \<le> (outflow * UNITS_PER_SHARE) div p" by (simp_all add: b3_def b2_def)
    moreover have "0 < b3 \<Longrightarrow> zsLongs s + zsResale s + b3 - zsShorts s \<le> fst cb"
      by (auto simp: b3_def b2_def b1_def up_def)
    moreover have "0 \<le> p * b3" using True b0 by simp
    ultimately show ?thesis using b b0 le Some True by (simp add: u pos_imp_zdiv_nonneg_iff)
  qed
qed

lemma room_notional:
  assumes "0 \<le> x" "x \<le> room_of cap others strike" "0 \<le> strike"
  shows "notionalOf x strike \<le> max (cap - others) 0"
proof (cases "strike = 0")
  case True
  then show ?thesis by (simp add: notionalOf_def UNITS_PER_SHARE_def)
next
  case False
  define room where "room = max (cap - others) 0"
  have "x \<le> (room * UNITS_PER_SHARE) div strike"
    using assms False by (simp add: room_of_def Let_def room_def max_def UNITS_PER_SHARE_def split: if_splits)
  then have "x * strike \<le> room * UNITS_PER_SHARE" using assms False by (simp add: le_div_iff_mult_le_int)
  then have "(x * strike) div UNITS_PER_SHARE \<le> (room * UNITS_PER_SHARE) div UNITS_PER_SHARE"
    by (intro zdiv_mono1) (simp_all add: UNITS_PER_SHARE_def)
  then show ?thesis using assms by (simp add: notionalOf_def UNITS_PER_SHARE_def room_def)
qed

definition expiry_others :: "size_series \<Rightarrow> size_run \<Rightarrow> int" where
  "expiry_others s r = get_or (zrByExpiry r) (zsExpiry s) (zsSeriesNotional s) - zsSeriesNotional s"

definition unread_expiry :: "size_limits \<Rightarrow> seconds \<Rightarrow> bool" where
  "unread_expiry limits e = (case zlExpiryNotionalUnread limits of None \<Rightarrow> False | Some u \<Rightarrow> e \<in> set u)"

definition series_cap_of :: "size_limits \<Rightarrow> int" where
  "series_cap_of limits = combine (zlVaultMaxSeriesUnits limits) (zlBotMaxSeriesUnits limits)"

definition total_cap_of :: "size_limits \<Rightarrow> int" where
  "total_cap_of limits = combine (zlVaultMaxTotalNotional limits) (zlBotMaxTotalNotional limits)"

definition expiry_cap_of :: "size_limits \<Rightarrow> int" where
  "expiry_cap_of limits = or_else (zlMaxExpiryNotional limits) 0"

lemma series_cap_le:
  "fst (series_cap limits s r) \<le> series_cap_of limits"
  "fst (series_cap limits s r) \<le> room_of (total_cap_of limits) (zrRunning r - zsSeriesNotional s) (zsStrike s)"
  "0 < expiry_cap_of limits \<Longrightarrow> fst (series_cap limits s r) \<le> room_of (expiry_cap_of limits) (expiry_others s r) (zsStrike s)"
  "0 < expiry_cap_of limits \<Longrightarrow> unread_expiry limits (zsExpiry s) \<Longrightarrow> fst (series_cap limits s r) \<le> 0"
proof -
  define others where "others = expiry_others s r"
  define room where "room = (if \<not> unread_expiry limits (zsExpiry s) \<and> expiry_cap_of limits > others then expiry_cap_of limits - others else 0)"
  define byExp where "byExp = (if zsStrike s > 0 then (room * UNITS_PER_SHARE) sdiv zsStrike s else 0)"
  define total where "total = room_of (total_cap_of limits) (zrRunning r - zsSeriesNotional s) (zsStrike s)"
  have cap: "fst (series_cap limits s r) =
      (let c = min (series_cap_of limits) total in if 0 < expiry_cap_of limits \<and> byExp < c then byExp else c)"
    unfolding series_cap_def Let_def others_def room_def byExp_def total_def expiry_others_def unread_expiry_def
      series_cap_of_def total_cap_of_def expiry_cap_of_def
    by (simp split: option.splits)
  show "fst (series_cap limits s r) \<le> series_cap_of limits" by (simp add: cap Let_def)
  show "fst (series_cap limits s r) \<le> room_of (total_cap_of limits) (zrRunning r - zsSeriesNotional s) (zsStrike s)"
    by (simp add: cap Let_def flip: total_def)
  have nn: "0 \<le> x \<Longrightarrow> 0 < y \<Longrightarrow> 0 \<le> (x * UNITS_PER_SHARE) sdiv y" for x y :: int
    by (rule sdiv_ge_0) (simp_all add: UNITS_PER_SHARE_def)
  have "byExp \<le> room_of (expiry_cap_of limits) others (zsStrike s)"
    by (auto simp: byExp_def room_def room_of_def Let_def simp del: sdiv_nonneg intro!: nn)
  moreover have le: "fst (series_cap limits s r) \<le> byExp" if "0 < expiry_cap_of limits"
    using that unfolding cap Let_def by (cases "byExp < min (series_cap_of limits) total") (simp, simp add: not_less del: min_less_iff_conj min_le_iff_disj)
  ultimately show "0 < expiry_cap_of limits \<Longrightarrow> fst (series_cap limits s r) \<le> room_of (expiry_cap_of limits) (expiry_others s r) (zsStrike s)"
    unfolding others_def by (meson order_trans)
  show "0 < expiry_cap_of limits \<Longrightarrow> unread_expiry limits (zsExpiry s) \<Longrightarrow> fst (series_cap limits s r) \<le> 0"
    using le by (cases "0 < zsStrike s") (simp_all add: byExp_def room_def)
qed

definition bid_escrow :: "size_series \<Rightarrow> series_sizes \<Rightarrow> int" where
  "bid_escrow s z = (or_else (zsBidPrice s) 0 * ssBid z) div UNITS_PER_SHARE"

lemma exposure_grows:
  assumes "0 \<le> b" "0 \<le> w" "0 \<le> rs" "0 < b \<longrightarrow> l + q + b - sh \<le> c" "0 < rs + w \<longrightarrow> sh + w - (l + q - rs) \<le> c"
  shows "exposureUnits l q sh 0 0 0 \<le> exposureUnits l q sh b w rs \<and>
    (exposureUnits l q sh 0 0 0 < exposureUnits l q sh b w rs \<longrightarrow> exposureUnits l q sh b w rs \<le> c)"
  using assms unfolding exposureUnits_def Let_def by (cases "b = 0"; cases "rs + w = 0") linarith+

text \<open>Everything one step says about the sizes it plans and the budgets it leaves.\<close>

lemma size_step_facts:
  assumes "size_step limits fa s r = (z, r')" "size_series_ok s" "0 \<le> zrUsdgLeft r" "0 \<le> zrOutflowLeft r"
  shows "0 \<le> ssBid z \<and> 0 \<le> ssWrite z \<and> 0 \<le> ssResale z \<and> ssResale z \<le> zsLongs s + zsResale s"
    and "held_exposure s \<le> ssExposure z \<and> (held_exposure s < ssExposure z \<longrightarrow> ssExposure z \<le> fst (series_cap limits s r))"
    and "ssNotional z = notionalOf (ssExposure z) (zsStrike s)"
    and "zrRunning r' = zrRunning r - zsSeriesNotional s + ssNotional z"
    and "get_or (zrByExpiry r') e d = (if e = zsExpiry s then expiry_others s r + ssNotional z else get_or (zrByExpiry r) e d)"
    and "zrUsdgLeft r' = zrUsdgLeft r - bid_escrow s z \<and> 0 \<le> zrUsdgLeft r'"
    and "zrOutflowLeft r' = zrOutflowLeft r - bid_escrow s z \<and> 0 \<le> zrOutflowLeft r' \<and> 0 \<le> bid_escrow s z"
    and "get_or (zrCollateralLeft r') a 0 = get_or (zrCollateralLeft r) a 0 - (if a = lower (zsCollateralAsset s) then ask_need limits s (ssWrite z) else 0)"
    and "0 < ssWrite z \<longrightarrow> ask_need limits s (ssWrite z) \<le> get_or (zrCollateralLeft r) (lower (zsCollateralAsset s)) 0
       \<and> ask_need limits s (ssWrite z) \<le> get_or fa (lower (zsCollateralAsset s)) 0"
proof -
  let ?cb = "series_cap limits s r"
  obtain resale wr capped1 left2 where k: "size_ask limits fa s ?cb (zrCollateralLeft r) = (resale, wr, capped1, left2)" by (metis surj_pair)
  obtain bid capped escrow where b: "size_bid limits s ?cb (zrUsdgLeft r) (zrOutflowLeft r) capped1 = (bid, capped, escrow)" by (metis surj_pair)
  note kf = size_ask_facts [OF k assms(2)] and bf = size_bid_facts [OF b assms(3,4)]
  have z: "ssBid z = bid" "ssWrite z = wr" "ssResale z = resale" "ssExposure z = exposureUnits (zsLongs s) (zsResale s) (zsShorts s) bid wr resale"
    "ssNotional z = notionalOf (ssExposure z) (zsStrike s)"
    and r': "r' = \<lparr>zrRunning = zrRunning r - zsSeriesNotional s + ssNotional z,
       zrByExpiry = AList.update (zsExpiry s) (expiry_others s r + ssNotional z) (zrByExpiry r),
       zrUsdgLeft = zrUsdgLeft r - escrow, zrOutflowLeft = zrOutflowLeft r - escrow, zrCollateralLeft = left2\<rparr>"
    using assms(1) k b by (auto simp: size_step_def Let_def expiry_others_def)
  have esc: "bid_escrow s z = escrow" using bf by (simp add: bid_escrow_def z)
  show "0 \<le> ssBid z \<and> 0 \<le> ssWrite z \<and> 0 \<le> ssResale z \<and> ssResale z \<le> zsLongs s + zsResale s"
    using kf bf by (simp add: z)
  show "held_exposure s \<le> ssExposure z \<and> (held_exposure s < ssExposure z \<longrightarrow> ssExposure z \<le> fst (series_cap limits s r))"
    unfolding z held_exposure_def using kf bf by (intro exposure_grows) blast+
  show "ssNotional z = notionalOf (ssExposure z) (zsStrike s)" by (rule z)
  show "zrRunning r' = zrRunning r - zsSeriesNotional s + ssNotional z" by (simp add: r')
  show "get_or (zrByExpiry r') e d = (if e = zsExpiry s then expiry_others s r + ssNotional z else get_or (zrByExpiry r) e d)" by (simp add: r')
  show "zrUsdgLeft r' = zrUsdgLeft r - bid_escrow s z \<and> 0 \<le> zrUsdgLeft r'" using bf by (simp add: r' esc)
  show "zrOutflowLeft r' = zrOutflowLeft r - bid_escrow s z \<and> 0 \<le> zrOutflowLeft r' \<and> 0 \<le> bid_escrow s z" using bf by (simp add: r' esc)
  show "get_or (zrCollateralLeft r') a 0 = get_or (zrCollateralLeft r) a 0 - (if a = lower (zsCollateralAsset s) then ask_need limits s (ssWrite z) else 0)"
    using kf by (simp add: r' z)
  show "0 < ssWrite z \<longrightarrow> ask_need limits s (ssWrite z) \<le> get_or (zrCollateralLeft r) (lower (zsCollateralAsset s)) 0
       \<and> ask_need limits s (ssWrite z) \<le> get_or fa (lower (zsCollateralAsset s)) 0"
    using kf by (simp add: z)
qed

text \<open>A step keeps the total notional under the cap, or does not raise it.\<close>

lemma notional_mono: "x \<le> y \<Longrightarrow> 0 \<le> x \<Longrightarrow> 0 \<le> strike \<Longrightarrow> notionalOf x strike \<le> notionalOf y strike"
  unfolding notionalOf_def by (intro sdiv_mono1 mult_right_mono) (simp_all add: UNITS_PER_SHARE_def)

lemma held_nonneg: "0 \<le> held_exposure s"
  by (simp add: held_exposure_def exposureUnits_def Let_def)

lemma step_notional:
  assumes "size_step limits fa s r = (z, r')" "size_series_ok s" "0 \<le> zrUsdgLeft r" "0 \<le> zrOutflowLeft r"
    "notionalOf (held_exposure s) (zsStrike s) \<le> zsSeriesNotional s"
  shows "zrRunning r' \<le> max (total_cap_of limits) (zrRunning r)"
    and "0 < expiry_cap_of limits \<Longrightarrow> expiry_others s r + ssNotional z \<le> max (expiry_cap_of limits) (expiry_others s r + zsSeriesNotional s)"
proof -
  note f = size_step_facts [OF assms(1-4)]
  have strike: "0 \<le> zsStrike s" using assms(2) by (simp add: size_series_ok_def)
  have e0: "0 \<le> ssExposure z" using f(2) held_nonneg [of s] by linarith
  consider "ssExposure z = held_exposure s" | "ssExposure z \<le> fst (series_cap limits s r)" using f(2) by linarith
  then have "ssNotional z \<le> zsSeriesNotional s \<or> ssExposure z \<le> fst (series_cap limits s r)"
    using f(3) assms(5) by cases auto
  note alt = this
  have stored: "0 \<le> zsSeriesNotional s"
    using assms(5) notional_mono [OF held_nonneg [of s] order_refl strike] strike held_nonneg [of s]
    by (auto simp: notionalOf_def UNITS_PER_SHARE_def pos_imp_zdiv_nonneg_iff intro: order_trans [rotated])
  have room: "ssNotional z \<le> max (c - others) 0" if "ssExposure z \<le> room_of c others (zsStrike s)" for c others
    using room_notional [OF e0 that strike] f(3) by simp
  show "zrRunning r' \<le> max (total_cap_of limits) (zrRunning r)"
    using alt
  proof
    assume "ssExposure z \<le> fst (series_cap limits s r)"
    then have "ssNotional z \<le> max (total_cap_of limits - (zrRunning r - zsSeriesNotional s)) 0"
      using series_cap_le(2) by (intro room) (rule order_trans)
    then show ?thesis using f(4) stored by linarith
  qed (use f(4) in linarith)
  show "expiry_others s r + ssNotional z \<le> max (expiry_cap_of limits) (expiry_others s r + zsSeriesNotional s)"
    if "0 < expiry_cap_of limits"
    using alt
  proof
    assume "ssExposure z \<le> fst (series_cap limits s r)"
    then have "ssNotional z \<le> max (expiry_cap_of limits - expiry_others s r) 0"
      using series_cap_le(3) [OF that] by (intro room) (rule order_trans)
    then show ?thesis using stored by linarith
  qed linarith
qed

subsection \<open>All series\<close>

lemma size_loop_length: "length (fst (size_loop limits fa ss r)) = length ss"
  by (induction ss arbitrary: r) (auto simp: split_beta Let_def)

definition sum2 :: "('a \<Rightarrow> 'b \<Rightarrow> int) \<Rightarrow> 'a list \<Rightarrow> 'b list \<Rightarrow> int" where
  "sum2 f xs ys = sum_list (map2 f xs ys)"

lemma sum2_simps [simp]: "sum2 f [] ys = 0" "sum2 f (x # xs) (y # ys) = f x y + sum2 f xs ys"
  by (simp_all add: sum2_def)

lemma size_loop_caps:
  assumes "size_loop limits fa ss r = (zs, r')" "list_all size_series_ok ss" "0 \<le> zrUsdgLeft r" "0 \<le> zrOutflowLeft r"
  shows "list_all2 (\<lambda>s z. 0 \<le> ssBid z \<and> 0 \<le> ssWrite z \<and> 0 \<le> ssResale z \<and> ssResale z \<le> zsLongs s + zsResale s
      \<and> ssExposure z \<le> max (held_exposure s) (series_cap_of limits)
      \<and> (0 < expiry_cap_of limits \<and> unread_expiry limits (zsExpiry s) \<longrightarrow> ssExposure z = held_exposure s)) ss zs
    \<and> sum2 bid_escrow ss zs \<le> zrUsdgLeft r \<and> sum2 bid_escrow ss zs \<le> zrOutflowLeft r"
  using assms
proof (induction ss arbitrary: r zs)
  case (Cons s ss)
  obtain z r1 where z: "size_step limits fa s r = (z, r1)" by (metis surj_pair)
  obtain zs' where zs': "size_loop limits fa ss r1 = (zs', r')" "zs = z # zs'"
    using Cons.prems(1) z by (auto simp: Let_def split: prod.splits)
  have s: "size_series_ok s" "list_all size_series_ok ss" using Cons.prems(2) by simp_all
  note f = size_step_facts [OF z s(1) Cons.prems(3,4)]
  have "ssExposure z \<le> max (held_exposure s) (series_cap_of limits)"
    using f(2) series_cap_le(1) [of limits s r] by linarith
  moreover have "ssExposure z = held_exposure s" if "0 < expiry_cap_of limits" "unread_expiry limits (zsExpiry s)"
    using f(2) series_cap_le(4) [OF that, of r] held_nonneg [of s] by linarith
  moreover have "0 \<le> zrUsdgLeft r1" "0 \<le> zrOutflowLeft r1" using f(6,7) by auto
  note ih = Cons.IH [OF zs'(1) s(2) this]
  ultimately show ?case using ih f(1,6,7) by (simp add: zs'(2))
qed auto

lemma size_loop_notional:
  assumes "size_loop limits fa ss r = (zs, r')" "list_all size_series_ok ss" "0 \<le> zrUsdgLeft r" "0 \<le> zrOutflowLeft r"
    "list_all (\<lambda>s. notionalOf (held_exposure s) (zsStrike s) \<le> zsSeriesNotional s) ss"
  shows "zrRunning r' = zrRunning r + sum2 (\<lambda>s z. ssNotional z - zsSeriesNotional s) ss zs
    \<and> zrRunning r' \<le> max (total_cap_of limits) (zrRunning r)
    \<and> (map_of (zrByExpiry r) e = Some b \<longrightarrow>
        map_of (zrByExpiry r') e = Some (b + sum2 (\<lambda>s z. if zsExpiry s = e then ssNotional z - zsSeriesNotional s else 0) ss zs)
        \<and> (0 < expiry_cap_of limits \<longrightarrow>
            b + sum2 (\<lambda>s z. if zsExpiry s = e then ssNotional z - zsSeriesNotional s else 0) ss zs \<le> max (expiry_cap_of limits) b))"
  using assms
proof (induction ss arbitrary: r zs b)
  case (Cons s ss)
  obtain z r1 where z: "size_step limits fa s r = (z, r1)" by (metis surj_pair)
  obtain zs' where zs': "size_loop limits fa ss r1 = (zs', r')" "zs = z # zs'"
    using Cons.prems(1) z by (auto simp: Let_def split: prod.splits)
  have s: "size_series_ok s" "list_all size_series_ok ss" using Cons.prems(2) by simp_all
  have st: "notionalOf (held_exposure s) (zsStrike s) \<le> zsSeriesNotional s" using Cons.prems(5) by simp
  note f = size_step_facts [OF z s(1) Cons.prems(3,4)]
  note n = step_notional [OF z s(1) Cons.prems(3,4) st]
  let ?b = "if zsExpiry s = e then b + (ssNotional z - zsSeriesNotional s) else b"
  have r1: "map_of (zrByExpiry r1) e = Some ?b" if "map_of (zrByExpiry r) e = Some b"
    using z that by (auto simp: size_step_def Let_def get_or_def split_beta)
  have eo: "expiry_others s r + zsSeriesNotional s = b" if "map_of (zrByExpiry r) e = Some b" "zsExpiry s = e"
    using that by (simp add: expiry_others_def get_or_def)
  have "list_all (\<lambda>s. notionalOf (held_exposure s) (zsStrike s) \<le> zsSeriesNotional s) ss" using Cons.prems(5) by simp
  note ih = Cons.IH [OF zs'(1) s(2) _ _ this, of ?b]
  have left: "0 \<le> zrUsdgLeft r1" "0 \<le> zrOutflowLeft r1" using f(6,7) by auto
  show ?case
  proof (intro conjI impI)
    show "zrRunning r' = zrRunning r + sum2 (\<lambda>s z. ssNotional z - zsSeriesNotional s) (s # ss) zs"
      using ih [OF left] f(4) by (simp add: zs'(2))
    show "zrRunning r' \<le> max (total_cap_of limits) (zrRunning r)" using ih [OF left] n(1) by linarith
    assume m: "map_of (zrByExpiry r) e = Some b"
    then show "map_of (zrByExpiry r') e = Some (b + sum2 (\<lambda>s z. if zsExpiry s = e then ssNotional z - zsSeriesNotional s else 0) (s # ss) zs)"
      using ih [OF left] r1 by (simp add: zs'(2))
    assume c: "0 < expiry_cap_of limits"
    have "?b \<le> max (expiry_cap_of limits) b" using n(2) [OF c] eo [OF m] by (cases "zsExpiry s = e") auto
    then show "b + sum2 (\<lambda>s z. if zsExpiry s = e then ssNotional z - zsSeriesNotional s else 0) (s # ss) zs \<le> max (expiry_cap_of limits) b"
      using ih [OF left] r1 [OF m] c by (auto simp: zs'(2) split: if_splits)
  qed
qed simp

lemma size_loop_collateral:
  assumes "size_loop limits fa ss r = (zs, r')" "list_all size_series_ok ss" "0 \<le> zrUsdgLeft r" "0 \<le> zrOutflowLeft r"
    "0 \<le> get_or (zrCollateralLeft r) a 0" "0 \<le> get_or fa a 0"
  shows "sum2 (\<lambda>s z. if lower (zsCollateralAsset s) = a then ask_need limits s (ssWrite z) else 0) ss zs \<le> get_or (zrCollateralLeft r) a 0
    \<and> list_all2 (\<lambda>s z. lower (zsCollateralAsset s) = a \<longrightarrow> ask_need limits s (ssWrite z) \<le> get_or fa a 0) ss zs"
  using assms
proof (induction ss arbitrary: r zs)
  case (Cons s ss)
  obtain z r1 where z: "size_step limits fa s r = (z, r1)" by (metis surj_pair)
  obtain zs' where zs': "size_loop limits fa ss r1 = (zs', r')" "zs = z # zs'"
    using Cons.prems(1) z by (auto simp: Let_def split: prod.splits)
  have s: "size_series_ok s" "list_all size_series_ok ss" using Cons.prems(2) by simp_all
  note f = size_step_facts [OF z s(1) Cons.prems(3,4)]
  have zero: "ssWrite z = 0 \<Longrightarrow> ask_need limits s (ssWrite z) = 0" by (simp add: ask_need_def)
  have w: "0 \<le> ssWrite z" using f(1) by simp
  have c: "0 \<le> get_or (zrCollateralLeft r1) a 0" using f(8) f(9) Cons.prems(5) zero w
    by (cases "lower (zsCollateralAsset s) = a"; cases "ssWrite z = 0") auto
  have left: "0 \<le> zrUsdgLeft r1" "0 \<le> zrOutflowLeft r1" using f(6,7) by auto
  have one: "lower (zsCollateralAsset s) = a \<Longrightarrow> ask_need limits s (ssWrite z) \<le> get_or fa a 0"
    using f(9) zero w Cons.prems(6) by (cases "ssWrite z = 0") auto
  from Cons.IH [OF zs'(1) s(2) left c Cons.prems(6)] one f(8) [of a] show ?case by (auto simp: zs'(2))
qed auto

lemma plan_loop:
  obtains r' where "size_loop limits (free_actual limits) series (start_sizes limits) = (planSizes series limits, r')"
  by (metis planSizes_def prod.collapse)

text \<open>
  the sizes of a tick stay inside the vault's guards and its funds. No series is taken past the series cap unless
  it is past it already with no orders at all, nothing grows in an expiry whose notional could not be
  read, a resale never offers more than is held, and the escrow of all bids together fits both the
  wallet's budget and the outflow budget.
\<close>

theorem planSizes_within_guards:
  assumes "list_all size_series_ok series" "0 \<le> zlUsdgBudget limits"
  shows "list_all2 (\<lambda>s z. 0 \<le> ssBid z \<and> 0 \<le> ssWrite z \<and> 0 \<le> ssResale z \<and> ssResale z \<le> zsLongs s + zsResale s
      \<and> ssExposure z \<le> max (held_exposure s) (series_cap_of limits)
      \<and> (0 < expiry_cap_of limits \<and> unread_expiry limits (zsExpiry s) \<longrightarrow> ssExposure z = held_exposure s)) series (planSizes series limits)
    \<and> sum2 bid_escrow series (planSizes series limits) \<le> zlUsdgBudget limits
    \<and> sum2 bid_escrow series (planSizes series limits) \<le> max (zlOutflowBudget limits) 0"
proof -
  obtain r' where "size_loop limits (free_actual limits) series (start_sizes limits) = (planSizes series limits, r')" by (rule plan_loop)
  from size_loop_caps [OF this assms(1)] assms(2) show ?thesis by (simp add: start_sizes_def Let_def)
qed

text \<open>
  when the stored notionals cover what is held, the planned notionals together stay under the total cap, and those
  of each expiry under the expiry cap, or do not rise at all.
\<close>

theorem planSizes_notional:
  assumes "list_all size_series_ok series" "0 \<le> zlUsdgBudget limits"
    "list_all (\<lambda>s. notionalOf (held_exposure s) (zsStrike s) \<le> zsSeriesNotional s) series"
    "map_of (or_else (zlExpiryNotional limits) []) e = Some b" "0 < expiry_cap_of limits"
  shows "zlTotalNotional limits + sum2 (\<lambda>s z. ssNotional z - zsSeriesNotional s) series (planSizes series limits)
      \<le> max (total_cap_of limits) (zlTotalNotional limits)
    \<and> b + sum2 (\<lambda>s z. if zsExpiry s = e then ssNotional z - zsSeriesNotional s else 0) series (planSizes series limits)
      \<le> max (expiry_cap_of limits) b"
proof -
  obtain r' where l: "size_loop limits (free_actual limits) series (start_sizes limits) = (planSizes series limits, r')" by (rule plan_loop)
  have s: "0 \<le> zrUsdgLeft (start_sizes limits)" "0 \<le> zrOutflowLeft (start_sizes limits)"
    "zrRunning (start_sizes limits) = zlTotalNotional limits" "map_of (zrByExpiry (start_sizes limits)) e = Some b"
    using assms(2,4) by (simp_all add: start_sizes_def Let_def)
  from size_loop_notional [OF l assms(1) s(1,2) assms(3), of e b] s(3,4) assms(5) show ?thesis by auto
qed

definition oversubscribe_of :: "size_limits \<Rightarrow> int" where
  "oversubscribe_of limits = or_else (zlWriteOversubscribeBps limits) WRITE_OVERSUBSCRIBE_BPS_EXACT"

lemma free_fold:
  fixes m1 m2 :: "(address \<times> int) list"
  assumes "get_or m1 a 0 = (get_or m2 a 0 * k) sdiv d"
  shows "get_or (foldl (\<lambda>m af. AList.update (lower (fst af)) ((snd af * k) sdiv d) m) m1 fs) a 0
    = (get_or (foldl (\<lambda>m af. AList.update (lower (fst af)) (snd af) m) m2 fs) a 0 * k) sdiv d"
  using assms by (induction fs arbitrary: m1 m2) auto

lemma start_collateral:
  "get_or (zrCollateralLeft (start_sizes limits)) a 0
     = (get_or (free_actual limits) a 0 * oversubscribe_of limits) sdiv WRITE_OVERSUBSCRIBE_BPS_EXACT"
  unfolding start_sizes_def free_actual_def oversubscribe_of_def Let_def size_run.select_convs
  by (rule free_fold) simp

text \<open>
  C26: the write asks of one collateral asset fit the pool they share. With their rent they need together at most the
  sizing budget, which at ten thousand basis points is the free balance itself, and each one alone
  always fits the free balance.
\<close>

theorem planSizes_collateral:
  assumes "list_all size_series_ok series" "0 \<le> zlUsdgBudget limits" "0 \<le> get_or (free_actual limits) a 0" "0 \<le> oversubscribe_of limits"
  shows "sum2 (\<lambda>s z. if lower (zsCollateralAsset s) = a then ask_need limits s (ssWrite z) else 0) series (planSizes series limits)
      \<le> (get_or (free_actual limits) a 0 * oversubscribe_of limits) div WRITE_OVERSUBSCRIBE_BPS_EXACT
    \<and> list_all2 (\<lambda>s z. lower (zsCollateralAsset s) = a \<longrightarrow> ask_need limits s (ssWrite z) \<le> get_or (free_actual limits) a 0)
        series (planSizes series limits)"
proof -
  obtain r' where l: "size_loop limits (free_actual limits) series (start_sizes limits) = (planSizes series limits, r')" by (rule plan_loop)
  have s: "0 \<le> zrUsdgLeft (start_sizes limits)" "0 \<le> zrOutflowLeft (start_sizes limits)"
    using assms(2) by (simp_all add: start_sizes_def Let_def)
  have p: "0 \<le> get_or (free_actual limits) a 0 * oversubscribe_of limits" using assms(3,4) by simp
  have c: "get_or (zrCollateralLeft (start_sizes limits)) a 0 = (get_or (free_actual limits) a 0 * oversubscribe_of limits) div WRITE_OVERSUBSCRIBE_BPS_EXACT"
    using p by (simp add: start_collateral WRITE_OVERSUBSCRIBE_BPS_EXACT_def)
  have "0 \<le> get_or (zrCollateralLeft (start_sizes limits)) a 0"
    using p by (simp add: c WRITE_OVERSUBSCRIBE_BPS_EXACT_def pos_imp_zdiv_nonneg_iff)
  from size_loop_collateral [OF l assms(1) s this assms(3)] show ?thesis unfolding c .
qed

definition sample_series :: "size_series list" where
  "sample_series =
    [\<lparr>zsLongId = 2, zsStrike = 30000, zsLongs = 3, zsResale = 1, zsShorts = 10, zsSeriesNotional = 1800, zsCollateralAsset = ''0xAA'',
      zsCollateralPerUnit = 10, zsMintFeePpm = 5000, zsExpiry = 700000, zsBidPrice = Some 250, zsAskPrice = Some 900, zsWriteAllowed = True\<rparr>,
     \<lparr>zsLongId = 4, zsStrike = 20000, zsLongs = 0, zsResale = 0, zsShorts = 0, zsSeriesNotional = 0, zsCollateralAsset = ''0xaa'',
      zsCollateralPerUnit = 10, zsMintFeePpm = 5000, zsExpiry = 700000, zsBidPrice = Some 100, zsAskPrice = Some 400, zsWriteAllowed = True\<rparr>]"

definition sample_limits :: size_limits where
  "sample_limits = \<lparr>zlNow = 95200, zlVaultMaxSeriesUnits = 60, zlBotMaxSeriesUnits = 50, zlVaultMaxTotalNotional = 20000, zlBotMaxTotalNotional = 0,
     zlTotalNotional = 1800, zlUsdgBudget = 150, zlOutflowBudget = 120, zlFreeCollateral = [(''0xaA'', 500)], zlWriteOversubscribeBps = None,
     zlBidUnits = 40, zlAskUnits = 40, zlMaxExpiryNotional = Some 15000, zlExpiryNotional = Some [(700000, 1800)], zlExpiryNotionalUnread = None\<rparr>"

lemma sample_series_ok: "list_all size_series_ok sample_series" "0 \<le> zlUsdgBudget sample_limits"
  by (simp_all add: sample_series_def size_series_ok_def sample_limits_def)

theorem planSizes_within_guards_witness:
  "map ssBid (planSizes sample_series sample_limits) = [40, 6] \<and> map ssWrite (planSizes sample_series sample_limits) = [36, 6]
   \<and> sum2 bid_escrow sample_series (planSizes sample_series sample_limits) \<le> 120"
proof -
  have "map ssBid (planSizes sample_series sample_limits) = [40, 6] \<and> map ssWrite (planSizes sample_series sample_limits) = [36, 6]"
    by code_simp
  then show ?thesis using planSizes_within_guards [OF sample_series_ok] by (simp add: sample_limits_def)
qed

theorem planSizes_notional_witness:
  "1800 + sum2 (\<lambda>s z. ssNotional z - zsSeriesNotional s) sample_series (planSizes sample_series sample_limits) \<le> 20000 \<and>
   1800 + sum2 (\<lambda>s z. if zsExpiry s = 700000 then ssNotional z - zsSeriesNotional s else 0) sample_series (planSizes sample_series sample_limits) \<le> 15000"
  using planSizes_notional [OF sample_series_ok, of 700000 1800]
  by (simp add: sample_series_def sample_limits_def held_exposure_def exposureUnits_def Let_def notionalOf_def UNITS_PER_SHARE_def
      expiry_cap_of_def total_cap_of_def combine_def)

lemma sample_free: "get_or (free_actual sample_limits) ''0xaa'' 0 = 500" "oversubscribe_of sample_limits = 10000"
  by code_simp+

theorem planSizes_collateral_witness:
  "sum2 (\<lambda>s z. if lower (zsCollateralAsset s) = ''0xaa'' then ask_need sample_limits s (ssWrite z) else 0) sample_series
     (planSizes sample_series sample_limits) \<le> 500"
  using planSizes_collateral [OF sample_series_ok, of "''0xaa''"] by (simp add: sample_free WRITE_OVERSUBSCRIBE_BPS_EXACT_def)

subsection \<open>The greek gate\<close>

text \<open>
  Numbers with fractions are doubles. The mutable range of a market is passed in and returned, and a
  reason is the tag of its text.
\<close>

record greek_limits =
  glMaxDeltaShares :: double
  glMaxGamma :: double

record greek_range =
  grLo :: double
  grHi :: double

record market_greeks =
  mgDelta :: greek_range
  mgGamma :: greek_range
  mgDeltaUnknown :: bool
  mgGammaUnknown :: bool

datatype gate_name = GateBid | GateAsk
datatype gate_reason =
    SeriesDeltaUnknown gate_name | SeriesGammaUnknown gate_name | MarketDeltaUnknown gate_name | MarketGammaUnknown gate_name
  | NetDelta gate_name | NetGamma gate_name

record greek_position =
  gpUnderlying :: address
  gpUnits :: int
  gpDelta :: "double option"
  gpGamma :: "double option"

definition known_greek :: "double option \<Rightarrow> bool" where
  "known_greek g = (case g of None \<Rightarrow> False | Some x \<Rightarrow> is_finite x)"

definition shares_of :: "int \<Rightarrow> double" where
  "shares_of units = fdiv (number_of units) (number_of UNITS_PER_SHARE)"

definition shift_range :: "greek_range \<Rightarrow> double \<Rightarrow> greek_range" where
  "shift_range g x = \<lparr>grLo = fadd (grLo g) x, grHi = fadd (grHi g) x\<rparr>"

definition no_greeks :: market_greeks where
  "no_greeks = \<lparr>mgDelta = \<lparr>grLo = Fin 0, grHi = Fin 0\<rparr>, mgGamma = \<lparr>grLo = Fin 0, grHi = Fin 0\<rparr>,
     mgDeltaUnknown = False, mgGammaUnknown = False\<rparr>"

definition add_position :: "greek_position \<Rightarrow> market_greeks \<Rightarrow> market_greeks" where
  "add_position p row =
     (let shares = shares_of (gpUnits p);
          row1 = (if known_greek (gpDelta p) then row\<lparr>mgDelta := shift_range (mgDelta row) (fmul shares (the (gpDelta p)))\<rparr>
                  else row\<lparr>mgDeltaUnknown := True\<rparr>)
      in if known_greek (gpGamma p) then row1\<lparr>mgGamma := shift_range (mgGamma row1) (fmul shares (the (gpGamma p)))\<rparr>
         else row1\<lparr>mgGammaUnknown := True\<rparr>)"

definition marketGreeksOf :: "greek_position list \<Rightarrow> (address \<times> market_greeks) list" where
  "marketGreeksOf positions =
     foldl (\<lambda>out p. if gpUnits p = 0 then out
              else let key = lower (gpUnderlying p)
                   in AList.update key (add_position p (get_or out key no_greeks)) out) [] positions"

definition fabs :: "double \<Rightarrow> double" where
  "fabs x = (case x of Fin r \<Rightarrow> Fin \<bar>r\<bar> | NaN \<Rightarrow> NaN | _ \<Rightarrow> PosInf)"

definition moved_bound :: "greek_range \<Rightarrow> double \<Rightarrow> double" where
  "moved_bound rng change = (if flt change (Fin 0) then grLo rng else grHi rng)"

definition greekBreach :: "greek_range \<Rightarrow> double \<Rightarrow> double \<Rightarrow> bool" where
  "greekBreach rng change limit =
     (if \<not> flt (Fin 0) limit \<or> change = Fin 0 then False
      else let from = moved_bound rng change; to = fadd from change
           in flt limit (fabs to) \<and> flt (fabs from) (fabs to))"

definition widen :: "greek_range \<Rightarrow> double \<Rightarrow> greek_range" where
  "widen rng change =
     (if flt change (Fin 0) then rng\<lparr>grLo := fadd (grLo rng) change\<rparr> else rng\<lparr>grHi := fadd (grHi rng) change\<rparr>)"

definition gate_change :: "double \<Rightarrow> double option \<Rightarrow> double" where
  "gate_change shares g = (if known_greek g then fmul shares (the g) else Fin 0)"

definition gate_side :: "gate_name \<Rightarrow> int \<Rightarrow> rat \<Rightarrow> double option \<Rightarrow> double option \<Rightarrow> greek_limits \<Rightarrow> market_greeks
    \<Rightarrow> bool \<times> gate_reason list \<times> market_greeks" where
  "gate_side name units sign delta gamma limits market =
     (if units \<le> 0 then (True, [], market)
      else let shares = fmul (shares_of units) (Fin sign);
               dOn = flt (Fin 0) (glMaxDeltaShares limits);
               gOn = flt (Fin 0) (glMaxGamma limits);
               dChange = gate_change shares delta;
               gChange = gate_change shares gamma
           in if dOn \<and> \<not> known_greek delta then (False, [SeriesDeltaUnknown name], market)
              else if gOn \<and> \<not> known_greek gamma then (False, [SeriesGammaUnknown name], market)
              else if dOn \<and> mgDeltaUnknown market then (False, [MarketDeltaUnknown name], market)
              else if gOn \<and> mgGammaUnknown market then (False, [MarketGammaUnknown name], market)
              else if greekBreach (mgDelta market) dChange (glMaxDeltaShares limits) then (False, [NetDelta name], market)
              else if greekBreach (mgGamma market) gChange (glMaxGamma limits) then (False, [NetGamma name], market)
              else (True, [], market\<lparr>mgDelta := widen (mgDelta market) dChange, mgGamma := widen (mgGamma market) gChange\<rparr>))"

definition gateGreeks :: "market_greeks \<Rightarrow> double option \<Rightarrow> double option \<Rightarrow> int \<Rightarrow> int \<Rightarrow> greek_limits
    \<Rightarrow> bool \<times> bool \<times> gate_reason list \<times> market_greeks" where
  "gateGreeks market delta gamma bidUnits askUnits limits =
     (let (bid, r1, m1) = gate_side GateBid bidUnits 1 delta gamma limits market;
          (ask, r2, m2) = gate_side GateAsk askUnits (- 1) delta gamma limits m1
      in (bid, ask, r1 @ r2, m2))"

text \<open>What an allowed side leaves behind: a bound inside the limit, or no further from zero than before.\<close>

definition bound_ok :: "double \<Rightarrow> double \<Rightarrow> double \<Rightarrow> bool" where
  "bound_ok limit from to = (\<not> flt limit (fabs to) \<or> \<not> flt (fabs from) (fabs to))"

lemma not_breach_bound:
  "\<not> greekBreach rng change limit \<Longrightarrow> flt (Fin 0) limit \<Longrightarrow> change \<noteq> Fin 0 \<Longrightarrow>
     bound_ok limit (moved_bound rng change) (moved_bound (widen rng change) change)"
  by (auto simp: greekBreach_def Let_def bound_ok_def moved_bound_def widen_def split: if_splits)

text \<open>
  the greek gate fails closed and stops only what adds risk. While a limit is on, a side whose own delta or gamma, or
  whose market's, is unknown is refused; a refused side changes nothing; a side that is allowed leaves the bound of
  the net delta it moves inside the limit or no further from zero than it was; and a side that moves both
  nets towards zero is never refused when everything is known.
\<close>

theorem gate_side_safe:
  fixes delta gamma sign
  assumes "gate_side name units sign delta gamma limits market = (ok, reasons, market')" "0 < units"
  defines "dChange \<equiv> gate_change (fmul (shares_of units) (Fin sign)) delta"
  defines "gChange \<equiv> gate_change (fmul (shares_of units) (Fin sign)) gamma"
  shows "(ok = (reasons = []))
    \<and> (flt (Fin 0) (glMaxDeltaShares limits) \<and> (\<not> known_greek delta \<or> mgDeltaUnknown market) \<longrightarrow> \<not> ok)
    \<and> (flt (Fin 0) (glMaxGamma limits) \<and> (\<not> known_greek gamma \<or> mgGammaUnknown market) \<longrightarrow> \<not> ok)
    \<and> (\<not> ok \<longrightarrow> market' = market)
    \<and> (ok \<and> flt (Fin 0) (glMaxDeltaShares limits) \<and> dChange \<noteq> Fin 0 \<longrightarrow>
        bound_ok (glMaxDeltaShares limits) (moved_bound (mgDelta market) dChange) (moved_bound (mgDelta market') dChange))
    \<and> (known_greek delta \<and> known_greek gamma \<and> \<not> mgDeltaUnknown market \<and> \<not> mgGammaUnknown market
        \<and> \<not> flt (fabs (moved_bound (mgDelta market) dChange)) (fabs (fadd (moved_bound (mgDelta market) dChange) dChange))
        \<and> \<not> flt (fabs (moved_bound (mgGamma market) gChange)) (fabs (fadd (moved_bound (mgGamma market) gChange) gChange)) \<longrightarrow> ok)"
proof -
  have "ok \<and> flt (Fin 0) (glMaxDeltaShares limits) \<and> dChange \<noteq> Fin 0 \<longrightarrow>
      bound_ok (glMaxDeltaShares limits) (moved_bound (mgDelta market) dChange) (moved_bound (mgDelta market') dChange)"
    using assms(1,2) not_breach_bound [of "mgDelta market" dChange "glMaxDeltaShares limits"]
    unfolding gate_side_def Let_def by (auto simp flip: dChange_def gChange_def split: if_splits)
  then show ?thesis
    using assms(1,2) unfolding gate_side_def Let_def
    by (auto simp: greekBreach_def Let_def simp flip: dChange_def gChange_def split: if_splits)
qed

end
