(* ===== verification/SpotLag.thy ===== *)
theory SpotLag
  imports QuoteHalts
begin

section \<open>The spot-lag floor (keeper/src/v2/mm/spot-lag.ts)\<close>

text \<open>
  Between two prints of the oracle the market can already be elsewhere: no ask rests below the option's
  value at the spot the market can have reached, no bid above its value at the spot it can have fallen to.
  The Black-Scholes price, the trading clock and the square root are the fields of \<open>bs_model\<close>, an
  argument: pricing/bs.ts computes them with transcendental functions. \<open>None\<close> is a raised error.
\<close>

definition SPOT_CORROBORATION_AGE_S :: seconds where "SPOT_CORROBORATION_AGE_S = 1800"
definition MIN_ASK_BPS_OF_SPOT :: int where "MIN_ASK_BPS_OF_SPOT = 50"

record bs_model =
  bmPrice :: "bool \<Rightarrow> double \<Rightarrow> double \<Rightarrow> double \<Rightarrow> double \<Rightarrow> double option" \<comment> \<open>is a put, spot, strike, vol, years\<close>
  bmYears :: "seconds \<Rightarrow> seconds \<Rightarrow> double option"
  bmSqrt :: "double \<Rightarrow> double"

record spot_lag_params =
  lpSpotLagBps :: int
  lpSpotLagStaleBps :: int

record slot_prices =
  spWrite :: usdg6
  spResale :: usdg6

record lag_floor = slot_prices +
  spBid :: usdg6

record spot_lag =
  slSpotRef :: usdg6
  slSpotQ :: usdg6
  slBandBps :: int
  slLagFair :: usdg6
  slBidSpotRef :: usdg6
  slBidSpotQ :: usdg6
  slBidLagFair :: usdg6
  slBidAt :: seconds
  slBidCushionBps :: int
  slBidCapAhead :: usdg6
  slAskCushionBps :: int
  slLagFairAhead :: usdg6
  slAskAhead :: slot_prices
  slFloor :: lag_floor

record spot_lag_quote = spot_lag +
  slRaised :: bool
  slBidCapped :: bool

record lag_input =
  laNow :: seconds
  laSeries :: series_info
  laFair :: fair_value
  laSpot :: usdg6
  laSpotUpdatedAt :: "seconds option"
  laOracleBandBps :: "int option"
  laFees :: quote_fees
  laParams :: spot_lag_params
  laBidAt :: "seconds option"
  laVaultFloor :: "(ask_floors \<times> bps) option"

definition spotLagOn :: "spot_lag_params \<Rightarrow> bool" where
  "spotLagOn params = (lpSpotLagBps params > 0 \<or> lpSpotLagStaleBps params > 0)"

definition vaultAskBaseOf :: "bool \<Rightarrow> usdg6 \<Rightarrow> usdg6 \<Rightarrow> bps \<Rightarrow> usdg6" where
  "vaultAskBaseOf isPut strike spot askToleranceBps =
     (let intrinsic = (if isPut then (if strike > spot then strike - spot else 0) else if spot > strike then spot - strike else 0);
          tolerance = (spot * askToleranceBps) sdiv MM_BPS
      in (if intrinsic > tolerance then intrinsic - tolerance else 0) + (spot * MIN_ASK_BPS_OF_SPOT + MM_BPS - 1) sdiv MM_BPS)"

text \<open>The two ways a spot is moved by a number of basis points, each rounded away from the quote.\<close>

definition up_by :: "int \<Rightarrow> usdg6 \<Rightarrow> usdg6" where
  "up_by band s = (s * (MM_BPS + band) + MM_BPS - 1) sdiv MM_BPS"

definition down_by :: "int \<Rightarrow> usdg6 \<Rightarrow> usdg6" where
  "down_by band s = (s * (MM_BPS - band)) sdiv MM_BPS"

definition price_at :: "bs_model \<Rightarrow> series_info \<Rightarrow> double \<Rightarrow> usdg6 \<Rightarrow> seconds \<Rightarrow> double option" where
  "price_at bs series iv spot t =
     (case bmYears bs t (siExpiry series) of
        None \<Rightarrow> None
      | Some years \<Rightarrow>
          (case bmPrice bs (siIsPut series) (fdiv (number_of spot) (number_of 1000000))
                  (fdiv (number_of (siStrike series)) (number_of 1000000)) iv years of
             None \<Rightarrow> None
           | Some price \<Rightarrow> if is_finite price \<and> fle (Fin 0) price then Some price else None))"

text \<open>\<open>Math.ceil\<close>, which leaves what is not finite as it is.\<close>

definition fceil :: "double \<Rightarrow> double" where
  "fceil x = (case x of Fin r \<Rightarrow> Fin (of_int \<lceil>r\<rceil>) | _ \<Rightarrow> x)"

definition band_of :: "lag_input \<Rightarrow> int" where
  "band_of input =
     (let fresh = (case laSpotUpdatedAt input of None \<Rightarrow> False | Some t \<Rightarrow> laNow input - t \<le> SPOT_CORROBORATION_AGE_S);
          live = or_else (laOracleBandBps input) 0
      in if fresh then lpSpotLagBps (laParams input) else max (lpSpotLagStaleBps (laParams input)) live)"

text \<open>The horizon's one-sigma move in basis points: \<open>None\<close> when the clock or \<open>BigInt\<close> raises.\<close>

definition cushion_of :: "bs_model \<Rightarrow> double \<Rightarrow> seconds \<Rightarrow> seconds \<Rightarrow> int option" where
  "cushion_of bs iv now bidAt =
     (case (if bidAt = now then Some (Fin 0) else bmYears bs now bidAt) of
        None \<Rightarrow> None
      | Some horizon \<Rightarrow>
          to_bigint_ceil (fmin (number_of (MM_BPS - 1)) (fceil (fmul (fmul iv (bmSqrt bs horizon)) (number_of MM_BPS)))))"

text \<open>The most the vault's own ask floor can rise when the spot moves between \<open>lo\<close> and \<open>hi\<close>.\<close>

definition vault_rise :: "lag_input \<Rightarrow> usdg6 \<Rightarrow> usdg6 \<Rightarrow> int \<Rightarrow> usdg6" where
  "vault_rise input high low cushion =
     (case laVaultFloor input of
        None \<Rightarrow> 0
      | Some (floors, tolerance) \<Rightarrow>
          let base = (\<lambda>s. vaultAskBaseOf (siIsPut (laSeries input)) (siStrike (laSeries input)) s tolerance);
              here = base (laSpot input)
          in foldl (\<lambda>rise s. if base s - here > rise then base s - here else rise) 0 [up_by cushion high, down_by cushion low])"

definition ask_ahead_of :: "lag_input \<Rightarrow> usdg6 \<Rightarrow> usdg6 \<Rightarrow> order_kind \<Rightarrow> usdg6 option \<Rightarrow> usdg6" where
  "ask_ahead_of input netAhead vaultRise kind floor_read =
     (let fee = quoteFeeBpsOf kind (laFees input);
          priced = fst (grossUpToTick netAhead fee)
      in case floor_read of
           None \<Rightarrow> priced
         | Some r \<Rightarrow>
             let vault = roundUpToTick (r + (if vaultRise = 0 then 0 else fst (grossUpToTick vaultRise fee)))
             in if vault > priced then vault else priced)"

text \<open>The two conversions of a price to base units: \<open>None\<close> is the RangeError of \<open>BigInt\<close>.\<close>

definition units_up :: "double \<Rightarrow> int option" where
  "units_up price = to_bigint_ceil (fmul price (number_of 1000000))"

definition units_down :: "double \<Rightarrow> int option" where
  "units_down price = to_bigint_floor (fmul price (number_of 1000000))"

definition or_range :: "'a option \<Rightarrow> ('a \<Rightarrow> quote_error + 'b) \<Rightarrow> quote_error + 'b" where
  "or_range x f = (case x of None \<Rightarrow> Inl RangeErrorBigInt | Some v \<Rightarrow> f v)"

definition or_null :: "'a option \<Rightarrow> ('a \<Rightarrow> quote_error + 'b option) \<Rightarrow> quote_error + 'b option" where
  "or_null x f = (case x of None \<Rightarrow> Inr None | Some v \<Rightarrow> f v)"

definition other_spot :: "lag_input \<Rightarrow> usdg6" where
  "other_spot input = (case faSpot (laFair input) of Some s \<Rightarrow> if s > 0 then s else laSpot input | None \<Rightarrow> laSpot input)"

definition bid_at_of :: "lag_input \<Rightarrow> seconds" where
  "bid_at_of input =
     (case laBidAt input of
        Some t \<Rightarrow> if t > laNow input then min t (siExpiry (laSeries input)) else laNow input
      | None \<Rightarrow> laNow input)"

text \<open>A price that is recomputed only where the spot or the time moved.\<close>

definition moved_price :: "bool \<Rightarrow> double \<Rightarrow> double option \<Rightarrow> double option" where
  "moved_price same here there = (if same then Some here else there)"

definition spotLagOf :: "bs_model \<Rightarrow> lag_input \<Rightarrow> quote_error + spot_lag option" where
  "spotLagOf bs input =
     (let series = laSeries input; fair = laFair input; now = laNow input; isPut = siIsPut series
      in if laSpot input \<le> 0 \<or> siStrike series \<le> 0 \<or> \<not> is_finite (faIv fair) \<or> flt (faIv fair) (Fin 0) then Inr None
         else
           let other = other_spot input;
               high = max other (laSpot input);
               low = min other (laSpot input);
               spotRef = (if isPut then low else high);
               bidSpotRef = (if isPut then high else low);
               band = band_of input
           in if band \<ge> MM_BPS then Inr None
              else
                let spotQ = (if isPut then down_by band spotRef else up_by band spotRef);
                    bidSpotQ = (if isPut then up_by band bidSpotRef else down_by band bidSpotRef)
                in or_null (price_at bs series (faIv fair) spotQ now) (\<lambda>askPrice.
                   or_null (price_at bs series (faIv fair) bidSpotQ now) (\<lambda>bidPrice.
                   or_range (units_up askPrice) (\<lambda>lagFair.
                   or_range (units_down bidPrice) (\<lambda>bidLagFair.
                     let net = roundUpToTick lagFair;
                         bidCap = roundDownToTick bidLagFair;
                         bidAt = bid_at_of input
                     in or_range (cushion_of bs (faIv fair) now bidAt) (\<lambda>cushion.
                        or_null (moved_price (bidAt = now) bidPrice
                          (price_at bs series (faIv fair) (if isPut then up_by cushion bidSpotQ else down_by cushion bidSpotQ) bidAt)) (\<lambda>aheadPrice.
                        or_range (map_option roundDownToTick (units_down aheadPrice)) (\<lambda>ahead.
                        or_null (moved_price (cushion = 0) askPrice
                          (price_at bs series (faIv fair) (if isPut then down_by cushion spotQ else up_by cushion spotQ) now)) (\<lambda>askAheadPrice.
                        or_range (units_up askAheadPrice) (\<lambda>aheadFair.
                          let lagFairAhead = max aheadFair lagFair;
                              netAhead = roundUpToTick lagFairAhead;
                              rise = vault_rise input high low cushion;
                              floors = map_option fst (laVaultFloor input);
                              fee = (\<lambda>kind. quoteFeeBpsOf kind (laFees input))
                          in Inr (Some \<lparr>slSpotRef = spotRef, slSpotQ = spotQ, slBandBps = band, slLagFair = lagFair,
                               slBidSpotRef = bidSpotRef, slBidSpotQ = bidSpotQ, slBidLagFair = bidLagFair, slBidAt = bidAt,
                               slBidCushionBps = cushion, slBidCapAhead = min ahead bidCap, slAskCushionBps = cushion,
                               slLagFairAhead = lagFairAhead,
                               slAskAhead = \<lparr>spWrite = ask_ahead_of input netAhead rise AskWrite (map_option afWrite floors),
                                 spResale = ask_ahead_of input netAhead rise AskResale (map_option afResale floors)\<rparr>,
                               slFloor = \<lparr>spWrite = fst (grossUpToTick net (fee AskWrite)),
                                 spResale = fst (grossUpToTick net (fee AskResale)), spBid = bidCap\<rparr>\<rparr>)))))))))))"

definition most :: "int list \<Rightarrow> int" where
  "most xs = (case xs of [] \<Rightarrow> 0 | x # rest \<Rightarrow> foldl (\<lambda>a b. if b > a then b else a) x rest)"

definition withSpotLag :: "quote_prices \<Rightarrow> quote_prices \<Rightarrow> spot_lag \<Rightarrow> quote_prices \<times> spot_lag_quote" where
  "withSpotLag prices lagged lag =
     (let ask = most [qrAsk prices, qrAsk lagged, spWrite (slFloor lag), spWrite (slAskAhead lag)];
          resale = most [qrResale prices, qrResale lagged, spResale (slFloor lag), spResale (slAskAhead lag)];
          cap = (if slBidCapAhead lag < spBid (slFloor lag) then slBidCapAhead lag else spBid (slFloor lag));
          bidCapped = (case qrBid prices of None \<Rightarrow> False | Some b \<Rightarrow> b > cap);
          bid = (if \<not> bidCapped then qrBid prices else if cap \<ge> PRICE_TICK then Some cap else None);
          clampedBy = js_set (qrClampedBy prices @ filter (\<lambda>c. c = FeeOutOfRange) (qrClampedBy lagged))
      in (prices\<lparr>qrBid := bid, qrAsk := ask, qrResale := resale, qrClampedBy := clampedBy\<rparr>,
          spot_lag.extend lag (spot_lag_quote.fields (ask > qrAsk prices \<or> resale > qrResale prices) bidCapped)))"

subsection \<open>What the floor and the cap guarantee\<close>

lemma up_by_ge: "0 \<le> s \<Longrightarrow> 0 \<le> band \<Longrightarrow> s \<le> up_by band s"
proof -
  assume a: "0 \<le> s" "0 \<le> band"
  then have "s * MM_BPS \<le> s * (MM_BPS + band)" by (simp add: distrib_left)
  then have "s * MM_BPS \<le> s * (MM_BPS + band) + MM_BPS - 1" by (simp add: MM_BPS_def)
  then show ?thesis using a by (simp add: up_by_def MM_BPS_def le_div_iff_mult_le_int)
qed

lemma down_by_le: "0 \<le> s \<Longrightarrow> 0 \<le> band \<Longrightarrow> band \<le> MM_BPS \<Longrightarrow> 0 \<le> down_by band s \<and> down_by band s \<le> s"
proof -
  assume a: "0 \<le> s" "0 \<le> band" "band \<le> MM_BPS"
  have "s * (MM_BPS - band) div MM_BPS \<le> s * MM_BPS div MM_BPS"
    using a by (intro zdiv_mono1 mult_left_mono) simp_all
  also have "\<dots> = s" by (simp add: MM_BPS_def)
  finally show ?thesis using a by (simp add: down_by_def pos_imp_zdiv_nonneg_iff)
qed

lemma up_by_stress:
  assumes "0 \<le> band" "0 \<le> s" "s \<le> ref"
  shows "s * (MM_BPS + band) \<le> up_by band ref * MM_BPS"
proof -
  have "s * (MM_BPS + band) \<le> ref * (MM_BPS + band)" using assms by (simp add: MM_BPS_def mult_right_mono)
  moreover have "0 \<le> ref * (MM_BPS + band)" using assms by (simp add: MM_BPS_def)
  ultimately show ?thesis by (simp add: up_by_def MM_BPS_def)
qed

lemma down_by_stress:
  assumes "0 \<le> band" "band < MM_BPS" "0 \<le> ref" "ref \<le> s"
  shows "down_by band ref * MM_BPS \<le> s * (MM_BPS - band)"
proof -
  have "ref * (MM_BPS - band) \<le> s * (MM_BPS - band)" using assms by (simp add: mult_right_mono)
  moreover have "0 \<le> ref * (MM_BPS - band)" using assms by simp
  ultimately show ?thesis by (simp add: down_by_def MM_BPS_def)
qed

lemma most_ge: "x \<in> set xs \<Longrightarrow> x \<le> most xs"
proof -
  have f: "a \<le> foldl (\<lambda>a b. if b > a then b else a) a ys \<and> (\<forall>y \<in> set ys. y \<le> foldl (\<lambda>a b. if b > a then b else a) a ys)"
    for a :: int and ys
  proof (induction ys arbitrary: a)
    case (Cons y ys)
    from Cons [of "if y > a then y else a"] show ?case by (auto split: if_splits)
  qed simp
  show "x \<in> set xs \<Longrightarrow> x \<le> most xs"
    using f [of "hd xs" "tl xs"] by (cases xs) (auto simp: most_def)
qed

lemma or_cases [simp]:
  "or_null x f = Inr (Some v) \<longleftrightarrow> (\<exists>y. x = Some y \<and> f y = Inr (Some v))"
  "or_range x g = Inr w \<longleftrightarrow> (\<exists>y. x = Some y \<and> g y = Inr w)"
  by (auto simp: or_null_def or_range_def split: option.split)


lemma gross_nets: "fee < MM_BPS \<Longrightarrow> 0 \<le> x \<Longrightarrow> x * MM_BPS \<le> fst (grossUpToTick (roundUpToTick x) fee) * (MM_BPS - max 0 fee)"
proof (cases "x = 0")
  case True
  moreover have "0 \<le> fst (grossUpToTick (roundUpToTick 0) fee)" by (simp add: grossUpToTick_def Let_def)
  ultimately show "fee < MM_BPS \<Longrightarrow> ?thesis" by simp
next
  case False
  assume fee: "fee < MM_BPS" and x: "0 \<le> x"
  have "0 < roundUpToTick x" using False x roundUp_ge [of x] by linarith
  then have "roundUpToTick x * MM_BPS \<le> fst (grossUpToTick (roundUpToTick x) fee) * (MM_BPS - max 0 fee)"
    using fee by (rule gross_covers)
  moreover have "x * MM_BPS \<le> roundUpToTick x * MM_BPS" by (simp add: mult_right_mono roundUp_ge)
  ultimately show ?thesis by linarith
qed

lemma price_at_nonneg: "price_at bs series iv spot t = Some p \<Longrightarrow> \<exists>r. p = Fin r \<and> 0 \<le> r"
  by (cases p) (auto simp: price_at_def is_finite_def fle_def not_less split: option.splits if_splits)

lemma fl_nonneg: "0 \<le> x \<Longrightarrow> fl x = PosInf \<or> (\<exists>r. fl x = Fin r \<and> 0 \<le> r)"
proof -
  assume x: "0 \<le> x"
  have s: "0 \<le> scale2 y e" if "0 \<le> y" for y e using that by (simp add: scale2_def)
  have r: "0 \<le> round_even y" if "0 \<le> y" for y using round_even_mono [OF that] by (simp add: round_even_int [of 0, simplified])
  let ?r = "scale2 (of_int (round_even (scale2 x (- max (binade \<bar>x\<bar> - 52) (- 1074))))) (max (binade \<bar>x\<bar> - 52) (- 1074))"
  have "0 \<le> ?r" using x s r by simp
  then show ?thesis by (auto simp: fl_def Let_def)
qed

lemma units_nonneg:
  assumes "price_at bs series iv spot t = Some p"
  shows "units_up p = Some n \<Longrightarrow> 0 \<le> n" and "units_down p = Some n \<Longrightarrow> 0 \<le> n"
proof -
  obtain r where p: "p = Fin r" "0 \<le> r" using price_at_nonneg [OF assms] by blast
  obtain k where k: "number_of 1000000 = Fin k" "0 \<le> k"
  proof
    show "number_of 1000000 = Fin 1000000" by code_simp
  qed simp
  then show "units_up p = Some n \<Longrightarrow> 0 \<le> n" "units_down p = Some n \<Longrightarrow> 0 \<le> n"
    using fl_nonneg [of "r * k"] p by (auto simp: units_up_def units_down_def to_bigint_ceil_def to_bigint_floor_def zero_le_ceiling less_le_trans [of "-1" 0])
qed

text \<open>What a lag quote satisfies, field by field.\<close>

definition lag_ok :: "lag_input \<Rightarrow> spot_lag \<Rightarrow> bool" where
  "lag_ok input lag =
     (0 \<le> slLagFair lag \<and> 0 \<le> slBidLagFair lag \<and> slLagFair lag \<le> slLagFairAhead lag
      \<and> slFloor lag = \<lparr>spWrite = fst (grossUpToTick (roundUpToTick (slLagFair lag)) (quoteFeeBpsOf AskWrite (laFees input))),
          spResale = fst (grossUpToTick (roundUpToTick (slLagFair lag)) (quoteFeeBpsOf AskResale (laFees input))),
          spBid = roundDownToTick (slBidLagFair lag)\<rparr>
      \<and> slBidCapAhead lag \<le> spBid (slFloor lag)
      \<and> (if siIsPut (laSeries input)
         then slSpotQ lag \<le> slSpotRef lag \<and> slSpotRef lag \<le> laSpot input \<and> laSpot input \<le> slBidSpotRef lag \<and> slBidSpotRef lag \<le> slBidSpotQ lag
         else slBidSpotQ lag \<le> slBidSpotRef lag \<and> slBidSpotRef lag \<le> laSpot input \<and> laSpot input \<le> slSpotRef lag \<and> slSpotRef lag \<le> slSpotQ lag))"

lemma spotLagOf_ok:
  assumes "spotLagOf bs input = Inr (Some lag)" and "0 \<le> lpSpotLagBps (laParams input)" "0 \<le> lpSpotLagStaleBps (laParams input)"
  shows "lag_ok input lag"
proof -
  have band: "0 \<le> band_of input" using assms(2,3) by (simp add: band_of_def Let_def le_max_iff_disj split: option.split)
  define other where "other = other_spot input"
  define isPut where "isPut = siIsPut (laSeries input)"
  define ref where "ref = (if isPut then min other (laSpot input) else max other (laSpot input))"
  define bref where "bref = (if isPut then max other (laSpot input) else min other (laSpot input))"
  define sq where "sq = (if isPut then down_by (band_of input) ref else up_by (band_of input) ref)"
  define bq where "bq = (if isPut then up_by (band_of input) bref else down_by (band_of input) bref)"
  let ?price = "\<lambda>x t. price_at bs (laSeries input) (faIv (laFair input)) x t"
  have eq: "0 < laSpot input \<and> band_of input < MM_BPS \<and> (\<exists>a b c. ?price sq (laNow input) = Some a \<and> ?price bq (laNow input) = Some b
      \<and> units_up a = Some (slLagFair lag) \<and> units_down b = Some (slBidLagFair lag))
    \<and> slSpotRef lag = ref \<and> slSpotQ lag = sq \<and> slBidSpotRef lag = bref \<and> slBidSpotQ lag = bq
    \<and> slLagFair lag \<le> slLagFairAhead lag \<and> slBidCapAhead lag \<le> spBid (slFloor lag)
    \<and> slFloor lag = \<lparr>spWrite = fst (grossUpToTick (roundUpToTick (slLagFair lag)) (quoteFeeBpsOf AskWrite (laFees input))),
          spResale = fst (grossUpToTick (roundUpToTick (slLagFair lag)) (quoteFeeBpsOf AskResale (laFees input))),
          spBid = roundDownToTick (slBidLagFair lag)\<rparr>"
    using assms(1) unfolding spotLagOf_def Let_def other_def [symmetric] isPut_def [symmetric] ref_def [symmetric] bref_def [symmetric]
      sq_def [symmetric] bq_def [symmetric]
    by (auto split: if_split_asm)
  have "0 < other" using eq by (auto simp: other_def other_spot_def split: option.split)
  then have pos: "0 \<le> ref" "0 \<le> bref" using eq by (auto simp: ref_def bref_def)
  have q: "if isPut then sq \<le> ref \<and> bref \<le> bq else bq \<le> bref \<and> ref \<le> sq"
    using pos band eq by (auto simp: sq_def bq_def up_by_ge down_by_le)
  show ?thesis
    using eq q units_nonneg unfolding lag_ok_def by (auto simp: ref_def bref_def simp flip: isPut_def)
qed

text \<open>
  The band a spot may have moved by: the spread of a fresh print, or else the wider one of a stale print. The stressed
  spots of a quote lie at least the band beyond a spot on the side that hurts it: an ask is priced where the
  option is worth more, a bid where it is worth less.
\<close>

definition lag_band :: "lag_input \<Rightarrow> int" where
  "lag_band input =
     (if \<exists>t. laSpotUpdatedAt input = Some t \<and> laNow input \<le> t + 1800 then lpSpotLagBps (laParams input)
      else max (lpSpotLagStaleBps (laParams input)) (case laOracleBandBps input of Some b \<Rightarrow> b | None \<Rightarrow> 0))"

definition stressed :: "bool \<Rightarrow> int \<Rightarrow> usdg6 \<Rightarrow> usdg6 \<Rightarrow> usdg6 \<Rightarrow> bool" where
  "stressed isPut band s ask_spot bid_spot =
     (if isPut then ask_spot * 10000 \<le> s * (10000 - band) \<and> s * (10000 + band) \<le> bid_spot * 10000
      else s * (10000 + band) \<le> ask_spot * 10000 \<and> bid_spot * 10000 \<le> s * (10000 - band))"

lemma lag_band_eq: "band_of input = lag_band input"
  by (auto simp: band_of_def lag_band_def Let_def SPOT_CORROBORATION_AGE_S_def or_else_def split: option.split)

lemma spotLagOf_stressed:
  assumes "spotLagOf bs input = Inr (Some lag)" and "0 \<le> lpSpotLagBps (laParams input)" "0 \<le> lpSpotLagStaleBps (laParams input)"
  shows "(\<exists>a. price_at bs (laSeries input) (faIv (laFair input)) (slSpotQ lag) (laNow input) = Some a
        \<and> to_bigint_ceil (fmul a (number_of 1000000)) = Some (slLagFair lag))
    \<and> (\<exists>b. price_at bs (laSeries input) (faIv (laFair input)) (slBidSpotQ lag) (laNow input) = Some b
        \<and> to_bigint_floor (fmul b (number_of 1000000)) = Some (slBidLagFair lag))
    \<and> stressed (siIsPut (laSeries input)) (lag_band input) (laSpot input) (slSpotQ lag) (slBidSpotQ lag)
    \<and> stressed (siIsPut (laSeries input)) (lag_band input) (other_spot input) (slSpotQ lag) (slBidSpotQ lag)"
proof -
  define isPut where "isPut = siIsPut (laSeries input)"
  have band: "0 \<le> band_of input" using assms(2,3) by (simp add: band_of_def Let_def le_max_iff_disj split: option.split)
  have eq: "0 < laSpot input \<and> band_of input < MM_BPS
    \<and> (\<exists>a. price_at bs (laSeries input) (faIv (laFair input)) (slSpotQ lag) (laNow input) = Some a \<and> units_up a = Some (slLagFair lag))
    \<and> (\<exists>b. price_at bs (laSeries input) (faIv (laFair input)) (slBidSpotQ lag) (laNow input) = Some b \<and> units_down b = Some (slBidLagFair lag))
    \<and> slSpotQ lag = (if isPut then down_by (band_of input) (min (other_spot input) (laSpot input))
        else up_by (band_of input) (max (other_spot input) (laSpot input)))
    \<and> slBidSpotQ lag = (if isPut then up_by (band_of input) (max (other_spot input) (laSpot input))
        else down_by (band_of input) (min (other_spot input) (laSpot input)))"
    using assms(1) unfolding spotLagOf_def Let_def isPut_def [symmetric]
    by (auto split: if_split_asm)
  have other: "0 < other_spot input" using eq by (auto simp: other_spot_def split: option.split)
  have "stressed isPut (band_of input) s (slSpotQ lag) (slBidSpotQ lag)" if "s \<in> {laSpot input, other_spot input}" for s
    using that eq other band up_by_stress [OF band, of s] down_by_stress [OF band, of _ s]
    unfolding stressed_def MM_BPS_def by (cases isPut) (auto simp: MM_BPS_def)
  then have "stressed isPut (band_of input) (laSpot input) (slSpotQ lag) (slBidSpotQ lag)"
    "stressed isPut (band_of input) (other_spot input) (slSpotQ lag) (slBidSpotQ lag)" by simp_all
  with eq show ?thesis unfolding isPut_def units_up_def units_down_def lag_band_eq [symmetric] by blast
qed

text \<open>
  C27: no quote is behind the market. The lag fairs are the option's values, rounded against the quoter, at the oracle's
  spot and the fair's own moved by at least the band: an ask's up for a call and down for a put, a bid's the other
  way. With the floor applied, both asks net, after their seller fee, at least the ask's lag fair, and neither is
  below the plain quote nor below the price an ask may be left resting at; the bid is at most the cap,
  which is at most the bid's lag fair, and the plain bid. So an uncrossed quote stays uncrossed, and what is
  quoted is never what the next judgement must replace.
\<close>

theorem withSpotLag_behind_nobody:
  fixes prices lagged
  assumes "spotLagOf bs input = Inr (Some lag)" and "0 \<le> lpSpotLagBps (laParams input)" "0 \<le> lpSpotLagStaleBps (laParams input)"
    and "quoteFeeBpsOf AskWrite (laFees input) < MM_BPS" "quoteFeeBpsOf AskResale (laFees input) < MM_BPS"
    and "q = fst (withSpotLag prices lagged lag)" "bid = qrBid q"
  shows "(\<exists>a. price_at bs (laSeries input) (faIv (laFair input)) (slSpotQ lag) (laNow input) = Some a
        \<and> to_bigint_ceil (fmul a (number_of 1000000)) = Some (slLagFair lag))
    \<and> (\<exists>b. price_at bs (laSeries input) (faIv (laFair input)) (slBidSpotQ lag) (laNow input) = Some b
        \<and> to_bigint_floor (fmul b (number_of 1000000)) = Some (slBidLagFair lag))
    \<and> stressed (siIsPut (laSeries input)) (lag_band input) (laSpot input) (slSpotQ lag) (slBidSpotQ lag)
    \<and> stressed (siIsPut (laSeries input)) (lag_band input) (other_spot input) (slSpotQ lag) (slBidSpotQ lag)
    \<and> slLagFair lag * MM_BPS \<le> qrAsk q * (MM_BPS - max 0 (quoteFeeBpsOf AskWrite (laFees input)))
    \<and> slLagFair lag * MM_BPS \<le> qrResale q * (MM_BPS - max 0 (quoteFeeBpsOf AskResale (laFees input)))
    \<and> qrAsk prices \<le> qrAsk q \<and> qrResale prices \<le> qrResale q
    \<and> spWrite (slFloor lag) \<le> qrAsk q \<and> spResale (slFloor lag) \<le> qrResale q
    \<and> (case bid of None \<Rightarrow> True
       | Some b \<Rightarrow> b \<le> spBid (slFloor lag) \<and> b \<le> slBidCapAhead lag \<and> b \<le> slBidLagFair lag
           \<and> (case qrBid prices of None \<Rightarrow> False
              | Some p \<Rightarrow> b \<le> p \<and> (p < qrAsk prices \<and> p < qrResale prices \<longrightarrow> b < qrAsk q \<and> b < qrResale q)))"
proof -
  have ok: "lag_ok input lag" using assms(1-3) by (rule spotLagOf_ok)
  have fl: "spWrite (slFloor lag) = fst (grossUpToTick (roundUpToTick (slLagFair lag)) (quoteFeeBpsOf AskWrite (laFees input)))"
    "spResale (slFloor lag) = fst (grossUpToTick (roundUpToTick (slLagFair lag)) (quoteFeeBpsOf AskResale (laFees input)))"
    and lf: "0 \<le> slLagFair lag" and cap: "spBid (slFloor lag) \<le> slBidLagFair lag"
    using ok by (auto simp: lag_ok_def roundDown_le)
  have ask: "qrAsk prices \<le> qrAsk q" "spWrite (slFloor lag) \<le> qrAsk q"
    and resale: "qrResale prices \<le> qrResale q" "spResale (slFloor lag) \<le> qrResale q"
    unfolding assms(6) withSpotLag_def Let_def by (auto intro: most_ge)
  have "slLagFair lag * MM_BPS \<le> qrAsk q * (MM_BPS - max 0 (quoteFeeBpsOf AskWrite (laFees input)))"
    using gross_nets [OF assms(4) lf] ask(2) assms(4) by (auto simp: fl intro: order_trans mult_right_mono)
  moreover have "slLagFair lag * MM_BPS \<le> qrResale q * (MM_BPS - max 0 (quoteFeeBpsOf AskResale (laFees input)))"
    using gross_nets [OF assms(5) lf] resale(2) assms(5) by (auto simp: fl intro: order_trans mult_right_mono)
  moreover have "case bid of None \<Rightarrow> True
       | Some b \<Rightarrow> b \<le> spBid (slFloor lag) \<and> b \<le> slBidCapAhead lag
           \<and> (case qrBid prices of None \<Rightarrow> False | Some p \<Rightarrow> b \<le> p)"
    unfolding assms(6,7) withSpotLag_def Let_def by (auto split: option.splits if_splits)
  ultimately show ?thesis using ask resale cap spotLagOf_stressed [OF assms(1-3)] by (auto split: option.splits)
qed

text \<open>A pricing model for the example: every option is worth two, and no time passes.\<close>

definition flat_bs :: bs_model where
  "flat_bs = \<lparr>bmPrice = (\<lambda>isPut spot strike vol t. Some (Fin 2)), bmYears = (\<lambda>a b. Some (Fin 0)), bmSqrt = (\<lambda>x. x)\<rparr>"

definition sample_lag_input :: lag_input where
  "sample_lag_input =
     \<lparr>laNow = 1000, laSeries = \<lparr>siLongId = 7, siUnderlying = ''0xaa'', siIsPut = False, siStrike = 192000000, siExpiry = 100000\<rparr>,
      laFair = \<lparr>faFair = 2000000, faDelta = Fin (1 / 4), faIv = Fin (1 / 2), faAsOf = 900, faSource = ''cboe'', faSpot = None,
        faAskIv = None, faVega = None, faGamma = None, faQuality = None\<rparr>,
      laSpot = 200000000, laSpotUpdatedAt = Some 900, laOracleBandBps = None,
      laFees = \<lparr>qfCurrent = \<lparr>frPremiumFeeBps = 500, frResaleFeeBps = 0\<rparr>, qfPending = None\<rparr>,
      laParams = \<lparr>lpSpotLagBps = 50, lpSpotLagStaleBps = 150\<rparr>, laBidAt = None, laVaultFloor = None\<rparr>"

definition sample_prices :: quote_prices where
  "sample_prices = \<lparr>qrBid = Some 7500000, qrAsk = 8400000, qrResale = 8399900, qrHalfSpread = 100000, qrSkew = 0, qrWiden = 10000,
     qrClampedBy = [], qrVolBump = 0\<rparr>"

lemma flat_price: "price_at flat_bs series iv spot t = Some (Fin 2)"
  by (simp add: price_at_def flat_bs_def is_finite_def fle_def)

lemma flat_units: "units_up (Fin 2) = Some 2000000"
  by code_simp

lemma flat_units_down: "units_down (Fin 2) = Some 2000000"
  by code_simp

lemma flat_cushion: "cushion_of flat_bs (Fin (1 / 2)) 1000 1000 = Some 0"
  by code_simp

lemma sample_lag_facts:
  "\<not> (laSpot sample_lag_input \<le> 0 \<or> siStrike (laSeries sample_lag_input) \<le> 0
      \<or> \<not> is_finite (Fin (1 / 2)) \<or> flt (Fin (1 / 2)) (Fin 0))"
  "faIv (laFair sample_lag_input) = Fin (1 / 2)" "laNow sample_lag_input = 1000"
  by (simp_all add: sample_lag_input_def is_finite_def)

lemma sample_lag_bid_at: "bid_at_of sample_lag_input = 1000"
  by code_simp

lemma sample_lag_band: "\<not> MM_BPS \<le> band_of sample_lag_input"
  by code_simp

lemma sample_lag: "\<exists>lag. spotLagOf flat_bs sample_lag_input = Inr (Some lag) \<and> slLagFair lag = 2000000"
  unfolding spotLagOf_def
  by (simp only: Let_def sample_lag_facts(2,3) sample_lag_bid_at flat_price if_not_P [OF sample_lag_facts(1)]
      if_not_P [OF sample_lag_band] or_null_def or_range_def option.case option.map flat_units flat_units_down flat_cushion moved_price_def
      if_True simp_thms)
    (rule exI, rule conjI, rule refl, simp only: spot_lag.select_convs)

theorem withSpotLag_behind_nobody_witness:
  "\<exists>lag. spotLagOf flat_bs sample_lag_input = Inr (Some lag) \<and> slLagFair lag = 2000000
     \<and> 2000000 * MM_BPS \<le> qrAsk (fst (withSpotLag sample_prices sample_prices lag)) * 9500
     \<and> 200000000 * 10050 \<le> slSpotQ lag * 10000 \<and> slBidSpotQ lag * 10000 \<le> 200000000 * 9950"
proof -
  obtain lag where lag: "spotLagOf flat_bs sample_lag_input = Inr (Some lag)" "slLagFair lag = 2000000" using sample_lag by blast
  have f: "quoteFeeBpsOf AskWrite (laFees sample_lag_input) = 500" "quoteFeeBpsOf AskResale (laFees sample_lag_input) = 0"
    by (simp_all add: sample_lag_input_def quoteFeeBpsOf_def sellerFeeBpsOf_def)
  from withSpotLag_behind_nobody [OF lag(1) _ _ _ _ refl refl, of sample_prices sample_prices] lag show ?thesis
    unfolding f by (simp add: sample_lag_input_def MM_BPS_def stressed_def lag_band_def)
qed

end
