(* ===== verification/TickInputs.thy ===== *)
theory TickInputs
  imports SeriesActions RiskSizes SpotLag
begin

section \<open>What a tick plans from (keeper/src/v2/mm/planner.ts, selection in mm/engine.ts)\<close>

text \<open>
  The input of a tick; the safety inputs that must be present; the series a tick selects to quote and
  those it asks a fair value for; and the asks of other makers it steps aside for. The Black-Scholes
  greeks and price are the fields of \<open>tick_env\<close>, an argument.
\<close>

subsection \<open>The input\<close>

text \<open>
  What a field can hold when the caller is not the compiler's: nothing, \<open>null\<close>, something of the
  wrong kind (or a number that is not finite), or a value.
\<close>

datatype 'a js = Undefined | JsNull | Bad | Val 'a

definition val_of :: "'a js \<Rightarrow> 'a option" where
  "val_of x = (case x of Val v \<Rightarrow> Some v | _ \<Rightarrow> None)"

record greeks =
  gkDelta :: double
  gkGamma :: double
  gkVega :: double

record tick_env =
  teBs :: bs_model
  teGreeks :: "seconds \<Rightarrow> series_info \<Rightarrow> usdg6 \<Rightarrow> double \<Rightarrow> greeks option"

record mm_plan_params =
  mpQuote :: quote_params
  mpMaxSeries :: int
  mpMaxSeriesPerMarket :: int
  mpBidUnits :: int
  mpAskUnits :: int
  mpAskFallbackOnly :: "bool option"
  mpWriteOversubscribeBps :: "int option"
  mpMaxSeriesUnits :: int
  mpMaxTotalNotionalUsdg6 :: usdg6
  mpDeltaAlertShares :: double
  mpSyncIntervalS :: seconds
  mpDepositTokens :: bool
  mpMaxQuoteLifetimeS :: seconds
  mpEpochWindDownS :: "seconds js"
  mpLag :: spot_lag_params
  mpFairFromSession :: bool
  mpWriteStopMinutes :: int

record vault_limits =
  vlMaxSeriesUnits :: int
  vlMaxTotalNotional :: usdg6
  vlAskToleranceBps :: bps
  vlMaxBidBpsOfSpot :: bps
  vlMaxOrderLifetime :: seconds
  vlMaxDailyOutflow :: usdg6

record tracked_series =
  trLongId :: int
  trStored :: usdg6
  trMeasured :: "usdg6 option"
  trHeld :: "bool option"

record settled_holding =
  shTokenId :: int
  shLongId :: int
  shUnits :: int

record vault_view =
  vvIsQuoter :: bool
  vvTradingPaused :: bool
  vvQuotingPaused :: "bool option"
  vvFees :: quote_fees
  vvLimits :: vault_limits
  vvOutflowUsed :: usdg6
  vvTotalNotional :: usdg6
  vvUsdgWallet :: usdg6
  vvUsdgReserved :: "usdg6 js"
  vvOwed :: usdg6
  vvFreeCollateral :: "(address \<times> int) list"
  vvWalletTokens :: "(address \<times> int) list"
  vvWalletReserved :: "(address \<times> int) list option"
  vvTracked :: "tracked_series list"
  vvSettledHeld :: "settled_holding list option"
  vvEpoch :: "epoch_view js"

record market_view =
  mvUnderlying :: address
  mvTicker :: string
  mvEnabled :: bool
  mvMintPaused :: bool
  mvSpot :: "usdg6 option"
  mvHalt :: "halt option"

record exposure_detail =
  exLongs :: int
  exShorts :: int
  exBids :: int
  exResale :: int
  exWrites :: int
  exLive :: int

record series_view =
  svInfo :: series_info
  svTicker :: string
  svSettled :: bool
  svSpotFresh :: bool
  svSpot :: "usdg6 option"
  svSpotUpdatedAt :: "seconds option"
  svOracleBandBps :: "int option"
  svExposure :: "exposure_detail option"
  svSeriesNotional :: usdg6
  svSeriesNotionalUnread :: "bool option"
  svAskFloors :: "ask_floors option"
  svBidCap :: "usdg6 option"
  svCollateralAsset :: address
  svCollateralPerUnit :: int
  svMintFeePpm :: int
  svOrders :: "live_order list"

datatype ask_kind = OtherAskWrite | OtherAskResale

record other_ask =
  oaId :: int
  oaMaker :: address
  oaKind :: ask_kind
  oaPrice :: usdg6
  oaRemaining :: int
  oaMakerFree :: "int option"
  oaSibling :: "bool option"

record tick_input =
  tiNow :: seconds
  tiSessionOpen :: bool
  tiSessionClose :: "seconds option"
  tiKilled :: bool
  tiLossStop :: loss_stop
  tiLastSync :: "seconds option"
  tiVault :: vault_view
  tiMarkets :: "(address \<times> market_view) list"
  tiSeries :: "series_view list"
  tiFairs :: "(string \<times> fair_input) list"
  tiParams :: mm_plan_params
  tiRefreshS :: seconds
  tiReplaceMarginS :: "seconds option"
  tiBidCapAheadS :: "seconds option"
  tiProtocolAccounts :: "address list js"
  tiProtocolBook :: "protocol_resting list js"
  tiOtherAskers :: "(string \<times> other_ask list) list option"
  tiSessionOpenedAt :: "seconds js"

definition inventoryOf :: "exposure_detail option \<Rightarrow> int" where
  "inventoryOf e = (case e of None \<Rightarrow> 0 | Some x \<Rightarrow> exLongs x + exResale x - exShorts x)"

definition hasInventory :: "exposure_detail option \<Rightarrow> bool" where
  "hasInventory e = (case e of None \<Rightarrow> False | Some x \<Rightarrow> exLongs x > 0 \<or> exShorts x > 0 \<or> exResale x > 0)"

definition key_of :: "series_view \<Rightarrow> string" where
  "key_of v = show_int (siLongId (svInfo v))"

definition market_of :: "tick_input \<Rightarrow> series_view \<Rightarrow> market_view option" where
  "market_of input v = map_of (tiMarkets input) (lower (siUnderlying (svInfo v)))"

subsection \<open>Required safety inputs\<close>

datatype safety_input = VaultEpoch | VaultUsdgReserved | ParamsEpochWindDownS | ProtocolAccounts | ProtocolBook | SessionOpenedAt

definition safety_missing :: "tick_input \<Rightarrow> safety_input \<Rightarrow> bool" where
  "safety_missing input name =
     (case name of
        VaultEpoch \<Rightarrow> vvEpoch (tiVault input) = Undefined
      | VaultUsdgReserved \<Rightarrow> vvUsdgReserved (tiVault input) = Undefined
          \<or> (vvEpoch (tiVault input) \<noteq> JsNull \<and> val_of (vvUsdgReserved (tiVault input)) = None)
      | ParamsEpochWindDownS \<Rightarrow> val_of (mpEpochWindDownS (tiParams input)) = None
      | ProtocolAccounts \<Rightarrow> val_of (tiProtocolAccounts input) = None
      | ProtocolBook \<Rightarrow> val_of (tiProtocolBook input) = None
      | SessionOpenedAt \<Rightarrow> tiSessionOpenedAt input = Undefined
          \<or> (tiSessionOpenedAt input \<noteq> JsNull \<and> val_of (tiSessionOpenedAt input) = None))"

fun requireSafetyInputs :: "tick_input \<Rightarrow> safety_input list \<Rightarrow> safety_input option" where
  "requireSafetyInputs input [] = None"
| "requireSafetyInputs input (name # names) =
     (if safety_missing input name then Some name else requireSafetyInputs input names)"

definition sessionInputs :: "mm_plan_params \<Rightarrow> safety_input list" where
  "sessionInputs params = (if \<not> mpFairFromSession params then [] else [SessionOpenedAt])"

lemma requireSafetyInputs_None: "requireSafetyInputs input names = None \<longleftrightarrow> (\<forall>n \<in> set names. \<not> safety_missing input n)"
  by (induction names) simp_all

subsection \<open>Selection\<close>

record delta_band =
  dbLo :: double
  dbHi :: double
  dbVol :: double

record band_rank =
  rkOutside :: double
  rkFromMid :: double

text \<open>\<open>!==\<close> on numbers: a value that is not a number differs from itself.\<close>

definition fne :: "double \<Rightarrow> double \<Rightarrow> bool" where
  "fne x y = (x = NaN \<or> y = NaN \<or> x \<noteq> y)"

definition deltaBandRank :: "tick_env \<Rightarrow> series_info \<Rightarrow> usdg6 option \<Rightarrow> seconds \<Rightarrow> delta_band \<Rightarrow> band_rank" where
  "deltaBandRank env series spot now band =
     (let unknown = \<lparr>rkOutside = PosInf, rkFromMid = PosInf\<rparr>
      in case spot of
           None \<Rightarrow> unknown
         | Some s \<Rightarrow>
             if s \<le> 0 then unknown
             else case teGreeks env now series s (dbVol band) of
                    None \<Rightarrow> unknown
                  | Some g \<Rightarrow>
                      let d = fabs (gkDelta g);
                          outside = (if flt d (dbLo band) then fsub (dbLo band) d
                                     else if flt (dbHi band) d then fsub d (dbHi band) else Fin 0)
                      in \<lparr>rkOutside = outside, rkFromMid = fabs (fsub d (fdiv (fadd (dbLo band) (dbHi band)) (Fin 2)))\<rparr>)"

definition moneynessBps :: "usdg6 \<Rightarrow> usdg6 option \<Rightarrow> double" where
  "moneynessBps strike spot =
     (case spot of
        None \<Rightarrow> PosInf
      | Some s \<Rightarrow> if s \<le> 0 then PosInf
                  else let diff = (if strike > s then strike - s else s - strike) in number_of ((diff * MM_BPS) sdiv s))"

record select_input =
  seNow :: seconds
  seCandidates :: "series_info list"
  seSpots :: "(address \<times> usdg6) list"
  sePullMinutes :: int
  seMaxSeries :: int
  seMaxSeriesPerMarket :: int
  seEpoch :: "epoch_view option"
  seDeltaBand :: "delta_band option"

definition band_in_use :: "select_input \<Rightarrow> delta_band option" where
  "band_in_use input = (case seDeltaBand input of None \<Rightarrow> None | Some b \<Rightarrow> if fle (dbHi b) (Fin 0) then None else Some b)"

definition eligible :: "select_input \<Rightarrow> series_info \<Rightarrow> bool" where
  "eligible input s =
     (seNow input < pullAtOf (siExpiry s) (sePullMinutes input)
      \<and> (case seEpoch input of None \<Rightarrow> True | Some e \<Rightarrow> \<not> siExpiry s > evEpochEnd e))"

definition series_order :: "tick_env \<Rightarrow> select_input \<Rightarrow> series_info \<Rightarrow> series_info \<Rightarrow> int" where
  "series_order env input a b =
     (let spot = (\<lambda>s. map_of (seSpots input) (lower (siUnderlying s)));
          by_number = (\<lambda>x y rest. if fne x y then (if flt x y then -1 else 1) else rest);
          tie = (if siExpiry a \<noteq> siExpiry b then siExpiry a - siExpiry b
                 else if siLongId a < siLongId b then -1 else if siLongId a > siLongId b then 1 else 0)
      in case band_in_use input of
           Some band \<Rightarrow>
             let ra = deltaBandRank env a (spot a) (seNow input) band; rb = deltaBandRank env b (spot b) (seNow input) band
             in by_number (rkOutside ra) (rkOutside rb) (by_number (rkFromMid ra) (rkFromMid rb) tie)
         | None \<Rightarrow> by_number (moneynessBps (siStrike a) (spot a)) (moneynessBps (siStrike b) (spot b)) tie)"

text \<open>The loop that fills the list: \<open>taken\<close> is how many have been pushed, \<open>perMarket\<close> their counts.\<close>

fun pick_loop :: "int \<Rightarrow> int \<Rightarrow> int \<Rightarrow> (address \<times> int) list \<Rightarrow> series_info list \<Rightarrow> series_info list" where
  "pick_loop maxSeries maxPerMarket taken perMarket [] = []"
| "pick_loop maxSeries maxPerMarket taken perMarket (s # ss) =
     (if taken \<ge> maxSeries then []
      else let u = lower (siUnderlying s); n = get_or perMarket u 0
           in if n \<ge> maxPerMarket then pick_loop maxSeries maxPerMarket taken perMarket ss
              else s # pick_loop maxSeries maxPerMarket (taken + 1) (AList.update u (n + 1) perMarket) ss)"

definition selectSeries :: "tick_env \<Rightarrow> select_input \<Rightarrow> series_info list" where
  "selectSeries env input =
     pick_loop (seMaxSeries input) (seMaxSeriesPerMarket input) 0 []
       (js_sort (series_order env input) (filter (eligible input) (seCandidates input)))"

definition selectedSeries :: "tick_env \<Rightarrow> tick_input \<Rightarrow> safety_input + series_info list" where
  "selectedSeries env input =
     (case requireSafetyInputs input [VaultEpoch] of
        Some name \<Rightarrow> Inl name
      | None \<Rightarrow>
          let spots = foldl (\<lambda>m um. case mvSpot (snd um) of None \<Rightarrow> m | Some s \<Rightarrow> AList.update (lower (fst um)) s m) [] (tiMarkets input);
              candidates = map svInfo (filter (\<lambda>v. \<not> svSettled v \<and> market_of input v \<noteq> None) (tiSeries input));
              safest = safestAskOf (qpKnobs (mpQuote (tiParams input)))
          in Inr (selectSeries env \<lparr>seNow = tiNow input, seCandidates = candidates, seSpots = spots,
               sePullMinutes = qpPullMinutes (mpQuote (tiParams input)), seMaxSeries = mpMaxSeries (tiParams input),
               seMaxSeriesPerMarket = mpMaxSeriesPerMarket (tiParams input), seEpoch = val_of (vvEpoch (tiVault input)),
               seDeltaBand = (if flt (Fin 0) (saDeltaBandHi safest)
                              then Some \<lparr>dbLo = saDeltaBandLo safest, dbHi = saDeltaBandHi safest, dbVol = saSelectVol safest\<rparr>
                              else None)\<rparr>))"

subsection \<open>Fair values to ask for\<close>

text \<open>The context of the halt checks; the fair value and the guards are added by the callers.\<close>

definition haltContext :: "tick_input \<Rightarrow> series_view \<Rightarrow> bool \<Rightarrow> bool \<Rightarrow> halt_input" where
  "haltContext input v selected mtmTripped =
     (let market = market_of input v
      in \<lparr>hiNow = tiNow input, hiSeries = svInfo v, hiParams = mpQuote (tiParams input), hiKilled = tiKilled input,
          hiLossStopped = (stTripped (tiLossStop input) \<or> mtmTripped), hiIsQuoter = vvIsQuoter (tiVault input),
          hiTradingPaused = vvTradingPaused (tiVault input), hiQuotingPaused = Some (vvQuotingPaused (tiVault input) = Some True),
          hiSessionOpen = tiSessionOpen input,
          hiMarketEnabled = (case market of None \<Rightarrow> False | Some m \<Rightarrow> mvEnabled m),
          hiMarketQuoted = Some (market \<noteq> None), hiSpotFresh = svSpotFresh v,
          hiMarketHalt = (case market of None \<Rightarrow> None | Some m \<Rightarrow> mvHalt m), hiSelected = selected,
          hiEpoch = val_of (vvEpoch (tiVault input)), hiEpochWindDownS = val_of (mpEpochWindDownS (tiParams input)),
          hiFair = None, hiSpot = None,
          hiSessionOpenedAt = (if mpFairFromSession (tiParams input)
             then (case tiSessionOpenedAt input of Undefined \<Rightarrow> None | x \<Rightarrow> Some (val_of x)) else None),
          hiGuardsOk = False\<rparr>)"

definition fairRequests :: "tick_env \<Rightarrow> tick_input \<Rightarrow> safety_input + series_view list" where
  "fairRequests env input =
     (case requireSafetyInputs input ([VaultEpoch, ParamsEpochWindDownS] @ sessionInputs (tiParams input)) of
        Some name \<Rightarrow> Inl name
      | None \<Rightarrow>
          (case selectedSeries env input of
             Inl name \<Rightarrow> Inl name
           | Inr infos \<Rightarrow>
               let selected = map (\<lambda>s. show_int (siLongId s)) infos
               in Inr (filter (\<lambda>v.
                    if tiNow input \<ge> siExpiry (svInfo v) \<or> svSettled v then False
                    else if hasInventory (svExposure v) then True
                    else haltBeforeFair (haltContext input v (key_of v \<in> set selected) False) = None) (tiSeries input))))"

subsection \<open>Other makers' asks\<close>

definition STEP_ASIDE_MIN_UNITS :: int where "STEP_ASIDE_MIN_UNITS = UNITS_PER_SHARE"

definition fillableUnits :: "other_ask \<Rightarrow> seconds \<Rightarrow> int \<Rightarrow> int \<Rightarrow> seconds \<Rightarrow> bool \<Rightarrow> int" where
  "fillableUnits ask expiry collateralPerUnit mintFeePpm now mintPaused =
     (if oaRemaining ask \<le> 0 then 0
      else if oaKind ask = OtherAskResale then oaRemaining ask
      else if mintPaused \<or> now \<ge> mintCutoffOf expiry then 0
      else case oaMakerFree ask of
             None \<Rightarrow> 0
           | Some free \<Rightarrow>
               if collateralPerUnit \<le> 0 then 0
               else let capacity = maxWriteUnits free collateralPerUnit mintFeePpm (remainingLife expiry now)
                    in if capacity < oaRemaining ask then capacity else oaRemaining ask)"

definition stepAsideAsks ::
  "other_ask list \<Rightarrow> usdg6 option \<Rightarrow> seconds \<Rightarrow> int \<Rightarrow> int \<Rightarrow> seconds \<Rightarrow> bool \<Rightarrow> int \<Rightarrow> bps \<Rightarrow> (other_ask \<times> int) list" where
  "stepAsideAsks asks botAsk expiry collateralPerUnit mintFeePpm now mintPaused minUnits siblingBandBps =
     (case botAsk of
        None \<Rightarrow> []
      | Some own \<Rightarrow>
          filter (\<lambda>(ask, fillable). fillable \<ge> minUnits
              \<and> (oaPrice ask \<le> own \<or> (oaSibling ask = Some True \<and> fle (moveBps (oaPrice ask) own) (number_of siblingBandBps))))
            (map (\<lambda>ask. (ask, fillableUnits ask expiry collateralPerUnit mintFeePpm now mintPaused)) asks))"

subsection \<open>What the selection keeps\<close>

definition in_market :: "address \<Rightarrow> series_info list \<Rightarrow> int" where
  "in_market u ss = int (length (filter (\<lambda>s. lower (siUnderlying s) = u) ss))"

lemma in_market_simps [simp]:
  "in_market u [] = 0" "in_market u (s # ss) = (if lower (siUnderlying s) = u then 1 else 0) + in_market u ss"
  by (simp_all add: in_market_def)

lemma in_market_nonneg [simp]: "0 \<le> in_market u ss"
  by (simp add: in_market_def)

lemma pick_loop_caps:
  "int (length (pick_loop m p t pm ss)) \<le> max 0 (m - t)
   \<and> in_market u (pick_loop m p t pm ss) \<le> max 0 (p - get_or pm u 0)
   \<and> set (pick_loop m p t pm ss) \<subseteq> set ss \<and> (distinct ss \<longrightarrow> distinct (pick_loop m p t pm ss))"
proof (induction ss arbitrary: t pm)
  case (Cons s ss)
  let ?u = "lower (siUnderlying s)"
  consider "m \<le> t" | "t < m" "p \<le> get_or pm ?u 0" | "t < m" "get_or pm ?u 0 < p" by linarith
  then show ?case
  proof cases
    case 2
    then have "pick_loop m p t pm (s # ss) = pick_loop m p t pm ss" by simp
    then show ?thesis using Cons.IH [of t pm] by auto
  next
    case 3
    let ?rest = "pick_loop m p (t + 1) (AList.update ?u (get_or pm ?u 0 + 1) pm) ss"
    have e: "pick_loop m p t pm (s # ss) = s # ?rest" using 3 by (simp add: Let_def)
    have ih: "int (length ?rest) \<le> max 0 (m - (t + 1))" "set ?rest \<subseteq> set ss" "distinct ss \<longrightarrow> distinct ?rest"
      "in_market u ?rest \<le> max 0 (p - (if u = ?u then get_or pm ?u 0 + 1 else get_or pm u 0))"
      using Cons.IH [of "t + 1" "AList.update ?u (get_or pm ?u 0 + 1) pm"] by simp_all
    have "in_market u (s # ?rest) \<le> max 0 (p - get_or pm u 0)" using ih(4) 3 by (cases "u = ?u") simp_all
    then show ?thesis unfolding e using ih(1-3) 3 by auto
  qed simp
qed simp

lemma pick_loop_greedy:
  "s \<in> set ss \<Longrightarrow> s \<notin> set (pick_loop m p t pm ss) \<Longrightarrow>
     m - t \<le> int (length (pick_loop m p t pm ss))
     \<or> p \<le> get_or pm (lower (siUnderlying s)) 0 + in_market (lower (siUnderlying s)) (pick_loop m p t pm ss)"
proof (induction ss arbitrary: t pm)
  case (Cons a ss)
  let ?u = "lower (siUnderlying a)"
  show ?case
  proof (cases "m \<le> t \<or> p \<le> get_or pm ?u 0")
    case True
    have "0 \<le> in_market ?u (pick_loop m p t pm ss)" by simp
    then show ?thesis using True Cons.prems Cons.IH [of t pm] by (auto simp: Let_def add_increasing2)
  next
    case False
    then show ?thesis
      using Cons.prems Cons.IH [of "t + 1" "AList.update ?u (get_or pm ?u 0 + 1) pm"] by (auto simp: Let_def split: if_splits)
  qed
qed simp

text \<open>
  C32: the selection is within its caps and wastes none of them. It quotes only series that have not reached their pull
  time and expire inside the epoch, none twice, at most the configured number in all and per market; and an
  eligible series is left out only when the list is full or its own market is.
\<close>

theorem selectSeries_greedy:
  assumes "distinct (seCandidates input)" "sel = selectSeries env input"
  shows "set sel \<subseteq> {s \<in> set (seCandidates input). eligible input s} \<and> distinct sel
    \<and> int (length sel) \<le> max 0 (seMaxSeries input) \<and> in_market u sel \<le> max 0 (seMaxSeriesPerMarket input)
    \<and> (\<forall>s \<in> set (seCandidates input). eligible input s \<longrightarrow> s \<notin> set sel \<longrightarrow>
         seMaxSeries input \<le> int (length sel) \<or> seMaxSeriesPerMarket input \<le> in_market (lower (siUnderlying s)) sel)"
proof -
  let ?ranked = "js_sort (series_order env input) (filter (eligible input) (seCandidates input))"
  have "distinct ?ranked" using assms(1) by simp
  then show ?thesis
    using pick_loop_caps [of "seMaxSeries input" "seMaxSeriesPerMarket input" 0 "[]" ?ranked u]
      pick_loop_greedy [of _ ?ranked "seMaxSeries input" "seMaxSeriesPerMarket input" 0 "[]"]
    by (auto simp: assms(2) selectSeries_def)
qed

definition no_greeks_env :: tick_env where
  "no_greeks_env = \<lparr>teBs = flat_bs, teGreeks = (\<lambda>now s spot vol. None)\<rparr>"

definition sample_select :: select_input where
  "sample_select =
     \<lparr>seNow = 1000,
      seCandidates = [\<lparr>siLongId = 2, siUnderlying = ''0xAA'', siIsPut = False, siStrike = 250, siExpiry = 90000\<rparr>,
        \<lparr>siLongId = 4, siUnderlying = ''0xaa'', siIsPut = False, siStrike = 220, siExpiry = 90000\<rparr>,
        \<lparr>siLongId = 6, siUnderlying = ''0xbb'', siIsPut = True, siStrike = 90, siExpiry = 3000\<rparr>],
      seSpots = [], sePullMinutes = 5, seMaxSeries = 5, seMaxSeriesPerMarket = 1, seEpoch = None, seDeltaBand = None\<rparr>"

theorem selectSeries_greedy_witness:
  "map siLongId (selectSeries no_greeks_env sample_select) = [2]
   \<and> in_market ''0xaa'' (selectSeries no_greeks_env sample_select) \<le> 1"
proof
  show "map siLongId (selectSeries no_greeks_env sample_select) = [2]" by code_simp
  show "in_market ''0xaa'' (selectSeries no_greeks_env sample_select) \<le> 1"
    using selectSeries_greedy [where input = sample_select and env = no_greeks_env and u = "''0xaa''", OF _ refl] by (simp add: sample_select_def)
qed

subsection \<open>What steps aside\<close>

lemma le_maxWriteUnits: "0 < c \<Longrightarrow> 0 < n \<Longrightarrow> n \<le> maxWriteUnits free c p r \<longleftrightarrow> collateralNeeded n c p r \<le> free"
proof
  assume c: "0 < c" and n: "0 < n"
  show "n \<le> maxWriteUnits free c p r \<Longrightarrow> collateralNeeded n c p r \<le> free" using c n by (simp add: affordable_need)
  assume fit: "collateralNeeded n c p r \<le> free"
  have "n * c \<le> collateralNeeded n c p r" using collateralNeeded_ge [of n c p r] c n by simp
  then have "0 \<le> free" using fit mult_pos_pos [OF n c] by linarith
  then show "n \<le> maxWriteUnits free c p r"
    using keeper_rent.more_does_not_fit [of c free p r n] c fit by (auto simp: maxWriteUnits_capacity not_less [symmetric])
qed

lemma le_fillableUnits:
  "0 < n \<Longrightarrow> n \<le> fillableUnits ask expiry cpu fee now paused \<longleftrightarrow>
     n \<le> oaRemaining ask
     \<and> (oaKind ask = OtherAskWrite \<longrightarrow> \<not> paused \<and> now < mintCutoffOf expiry \<and> 0 < cpu
         \<and> (case oaMakerFree ask of None \<Rightarrow> False | Some free \<Rightarrow> collateralNeeded n cpu fee (remainingLife expiry now) \<le> free))"
proof (cases "oaKind ask")
  case OtherAskWrite
  assume n: "0 < n"
  show ?thesis
  proof (cases "oaMakerFree ask")
    case (Some free)
    have "n \<le> (if m < k then m else k) \<longleftrightarrow> n \<le> m \<and> n \<le> k" for m k :: int by auto
    then show ?thesis
      using n le_maxWriteUnits [of cpu n free fee "remainingLife expiry now"] OtherAskWrite Some
      by (auto simp: fillableUnits_def Let_def)
  qed (use n OtherAskWrite in \<open>auto simp: fillableUnits_def\<close>)
qed (auto simp: fillableUnits_def)

text \<open>
  the fallback steps aside for exactly the asks a buyer can really use instead. An ask counts when every one of the first
  hundred units can be filled at a price at or below the bot's own (or, for one of its own vaults, within the requote
  band): a resale by what is escrowed, a write only before the cutoff, while the mint is open, with a known free balance
  that covers the collateral and its rent.
\<close>

theorem stepAsideAsks_iff:
  assumes "0 < minUnits"
  shows "(ask, n) \<in> set (stepAsideAsks asks (Some own) expiry cpu fee now paused minUnits band) \<longleftrightarrow>
    ask \<in> set asks \<and> n = fillableUnits ask expiry cpu fee now paused
    \<and> (oaPrice ask \<le> own \<or> oaSibling ask = Some True \<and> fle (moveBps (oaPrice ask) own) (number_of band))
    \<and> minUnits \<le> oaRemaining ask
    \<and> (oaKind ask = OtherAskWrite \<longrightarrow> \<not> paused \<and> now < mintCutoffOf expiry \<and> 0 < cpu
        \<and> (case oaMakerFree ask of None \<Rightarrow> False | Some free \<Rightarrow> collateralNeeded minUnits cpu fee (remainingLife expiry now) \<le> free))"
  using le_fillableUnits [OF assms, of ask expiry cpu fee now paused] by (auto simp: stepAsideAsks_def)

theorem stepAsideAsks_iff_witness:
  "let ask = \<lparr>oaId = 1, oaMaker = ''0xcc'', oaKind = OtherAskWrite, oaPrice = 90, oaRemaining = 150, oaMakerFree = Some 2000, oaSibling = None\<rparr>
   in (ask, 150) \<in> set (stepAsideAsks [ask] (Some 95) 90000 10 0 1000 False STEP_ASIDE_MIN_UNITS 100)"
  unfolding Let_def
  by (subst stepAsideAsks_iff) (simp_all add: STEP_ASIDE_MIN_UNITS_def UNITS_PER_SHARE_def fillableUnits_def mintCutoffOf_def SETTLEMENT_WINDOW_def
      maxWriteUnits_def collateralNeeded_def mintFee_def nonNegative_def Let_def)

end
