(* ===== verification/TickPlan.thy ===== *)
theory TickPlan
  imports TickInputs
begin

section \<open>The plan of one tick (keeper/src/v2/mm/planner.ts)\<close>

text \<open>
  \<open>planTick\<close> in the stages of the function: greeks and marks, halts and prices of every series, sizes in
  quoting priority, the targets and calls of each series, and the transactions of the tick. Then what a
  plan books against the outflow bucket. Reasons and details of transactions are not represented.
\<close>

definition CANCEL_CHUNK :: nat where "CANCEL_CHUNK = 20"
definition SYNC_CHUNK :: nat where "SYNC_CHUNK = 25"

text \<open>\<open>NullExposure\<close> is the TypeError of \<open>exposure!\<close> on a series whose exposure was not read.\<close>

datatype plan_error = MissingInput safety_input | Raised quote_error | NullExposure

datatype mm_tx =
    TxCancel "int list" "int list" bool
  | TxReplace replace_call
  | TxPlace place_call
  | TxSync "int list"
  | TxClose int int
  | TxClaimOwed int
  | TxRedeem int int int
  | TxDeposit address int

text \<open>\<open>xs.map(f)\<close> with an \<open>f\<close> that may raise: the first error ends it.\<close>

fun map_raise :: "('a \<Rightarrow> 'e + 'b) \<Rightarrow> 'a list \<Rightarrow> 'e + 'b list" where
  "map_raise f [] = Inr []"
| "map_raise f (x # xs) =
     (case f x of Inl e \<Rightarrow> Inl e | Inr y \<Rightarrow> (case map_raise f xs of Inl e \<Rightarrow> Inl e | Inr ys \<Rightarrow> Inr (y # ys)))"

subsection \<open>Greeks, marks and net delta\<close>

definition okFair :: "tick_input \<Rightarrow> series_view \<Rightarrow> fair_value option" where
  "okFair input v = (case map_of (tiFairs input) (key_of v) of Some (FairOk f) \<Rightarrow> Some f | _ \<Rightarrow> None)"

definition greeksOf :: "tick_env \<Rightarrow> tick_input \<Rightarrow> series_view \<Rightarrow> double option \<times> double option \<times> double option" where
  "greeksOf env input v =
     (case okFair input v of
        None \<Rightarrow> (None, None, None)
      | Some f \<Rightarrow>
          let local = (case svSpot v of Some s \<Rightarrow> if s > 0 then teGreeks env (tiNow input) (svInfo v) s (faIv f) else None | None \<Rightarrow> None)
          in (Some (faDelta f),
              (case faGamma f of Some g \<Rightarrow> Some g | None \<Rightarrow> map_option gkGamma local),
              (case faVega f of Some g \<Rightarrow> Some g | None \<Rightarrow> map_option gkVega local)))"

definition mark_of :: "tick_input \<Rightarrow> series_view \<Rightarrow> quote_error + string \<times> usdg6 option" where
  "mark_of input v =
     (let spot = (case svSpot v of Some s \<Rightarrow> if s > 0 then Some s else None | None \<Rightarrow> None);
          by_spot = map_option (intrinsicOf (siIsPut (svInfo v)) (siStrike (svInfo v))) spot
      in case okFair input v of
           None \<Rightarrow> Inr (key_of v, by_spot)
         | Some f \<Rightarrow>
             if faFair f > 0 then
               (case spot of
                  None \<Rightarrow> Inr (key_of v, Some (faFair f))
                | Some s \<Rightarrow> (case fairAtSpot (faFair f) (faDelta f) (faSpot f) s of Inl e \<Rightarrow> Inl e | Inr x \<Rightarrow> Inr (key_of v, Some x)))
             else Inr (key_of v, by_spot))"

definition marks_of :: "(string \<times> usdg6 option) list \<Rightarrow> (string \<times> usdg6 option) list" where
  "marks_of pairs = foldl (\<lambda>m kv. AList.update (fst kv) (snd kv) m) [] pairs"

record net_delta =
  ndDeltaShares :: double
  ndUnknown :: int
  ndPositions :: int

definition netDeltaByUnderlying :: "(address \<times> int \<times> double option) list \<Rightarrow> (address \<times> net_delta) list" where
  "netDeltaByUnderlying positions =
     foldl (\<lambda>out (underlying, units, delta).
       if units = 0 then out
       else let key = lower underlying;
                row = get_or out key \<lparr>ndDeltaShares = Fin 0, ndUnknown = 0, ndPositions = 0\<rparr>;
                row1 = row\<lparr>ndPositions := ndPositions row + 1\<rparr>
            in AList.update key
                 (case delta of
                    None \<Rightarrow> row1\<lparr>ndUnknown := ndUnknown row1 + 1\<rparr>
                  | Some d \<Rightarrow>
                      if \<not> is_finite d then row1\<lparr>ndUnknown := ndUnknown row1 + 1\<rparr>
                      else row1\<lparr>ndDeltaShares := fadd (ndDeltaShares row1) (fmul (fdiv (number_of units) (number_of UNITS_PER_SHARE)) d)\<rparr>) out)
       [] positions"

definition is_held :: "tick_input \<Rightarrow> series_view \<Rightarrow> bool" where
  "is_held input v = (tiNow input < siExpiry (svInfo v) \<and> \<not> svSettled v)"

definition net_deltas :: "tick_input \<Rightarrow> (address \<times> net_delta) list" where
  "net_deltas input =
     netDeltaByUnderlying (map (\<lambda>v. (siUnderlying (svInfo v), inventoryOf (svExposure v), map_option faDelta (okFair input v)))
       (filter (is_held input) (tiSeries input)))"

record net_delta_row =
  nrUnderlying :: address
  nrTicker :: string
  nrSpot :: "usdg6 option"
  nrDelta :: net_delta
  nrAlert :: bool

definition net_delta_row_of :: "tick_input \<Rightarrow> market_view \<Rightarrow> net_delta_row" where
  "net_delta_row_of input m =
     (let row = get_or (net_deltas input) (lower (mvUnderlying m)) \<lparr>ndDeltaShares = Fin 0, ndUnknown = 0, ndPositions = 0\<rparr>;
          limit = mpDeltaAlertShares (tiParams input)
      in \<lparr>nrUnderlying = lower (mvUnderlying m), nrTicker = mvTicker m, nrSpot = mvSpot m, nrDelta = row,
          nrAlert = (flt (Fin 0) limit \<and> flt limit (fabs (ndDeltaShares row)))\<rparr>)"

subsection \<open>Halts and prices\<close>

record working =
  wkView :: series_view
  wkSelected :: bool
  wkHalt :: "halt option"
  wkFair :: "fair_value option"
  wkFairReason :: "string option"
  wkPrices :: "quote_prices option"
  wkLag :: "spot_lag_quote option"
  wkWriteHold :: bool

definition session_close_of :: "tick_input \<Rightarrow> seconds option" where
  "session_close_of input = (if qpQuoteOffHours (mpQuote (tiParams input)) then None else tiSessionClose input)"

definition life_input_of :: "tick_input \<Rightarrow> series_view \<Rightarrow> slot \<Rightarrow> quote_life_input" where
  "life_input_of input v s =
     \<lparr>liExpiry = siExpiry (svInfo v), liSlot = s, liPullMinutes = qpPullMinutes (mpQuote (tiParams input)),
      liSessionClose = session_close_of input, liMaxOrderLifetime = vlMaxOrderLifetime (vvLimits (tiVault input)),
      liMaxQuoteLifetime = Some (mpMaxQuoteLifetimeS (tiParams input)), liWriteStopAt = None, liNow = Some (tiNow input)\<rparr>"

definition bid_at :: "tick_input \<Rightarrow> series_view \<Rightarrow> seconds option" where
  "bid_at input v =
     (let ahead = or_else (tiBidCapAheadS input) 0
      in if ahead > 0 then
           Some (min (tiNow input + ahead) (or_else (quoteValidUntil (life_input_of input v SlotBid) (tiNow input)) (tiNow input)))
         else None)"

text \<open>The quote at the checked fair value, with the spot-lag floor when that is on: prices, lag, and the halt it adds.\<close>

definition price_quoted ::
  "tick_env \<Rightarrow> tick_input \<Rightarrow> series_view \<Rightarrow> fair_value \<Rightarrow> usdg6 \<Rightarrow> usdg6 \<Rightarrow> ask_floors \<Rightarrow> usdg6
    \<Rightarrow> quote_error + quote_prices option \<times> spot_lag_quote option \<times> halt option" where
  "price_quoted env input v fair quoted spot floors cap =
     (let args = \<lparr>piNow = tiNow input, piExpiry = siExpiry (svInfo v), piTerms = Some (siIsPut (svInfo v), siStrike (svInfo v)),
            piFair = quoted, piDelta = faDelta fair, piIv = Some (faIv fair), piAskIv = faAskIv fair,
            piVega = snd (snd (greeksOf env input v)), piSpot = spot,
            piNetDeltaShares = (case map_of (net_deltas input) (lower (siUnderlying (svInfo v))) of None \<Rightarrow> Fin 0 | Some n \<Rightarrow> ndDeltaShares n),
            piAskFloors = floors, piBidCap = cap, piFees = vvFees (tiVault input), piParams = mpQuote (tiParams input)\<rparr>
      in case quotePrices args of
           Inl e \<Rightarrow> Inl e
         | Inr prices \<Rightarrow>
             if \<not> spotLagOn (mpLag (tiParams input)) then Inr (Some prices, None, None)
             else (case spotLagOf (teBs env)
                      \<lparr>laNow = tiNow input, laSeries = svInfo v, laFair = fair, laSpot = spot, laSpotUpdatedAt = svSpotUpdatedAt v,
                       laOracleBandBps = svOracleBandBps v, laFees = vvFees (tiVault input), laParams = mpLag (tiParams input),
                       laBidAt = bid_at input v, laVaultFloor = Some (floors, vlAskToleranceBps (vvLimits (tiVault input)))\<rparr> of
                     Inl e \<Rightarrow> Inl e
                   | Inr None \<Rightarrow> Inr (None, None, Some HFairUnavailable)
                   | Inr (Some bound) \<Rightarrow>
                       (case quotePrices (args\<lparr>piFair := slLagFair bound\<rparr>) of
                          Inl e \<Rightarrow> Inl e
                        | Inr lagged \<Rightarrow>
                            let (merged, lag) = withSpotLag prices lagged bound in Inr (Some merged, Some lag, None))))"

definition price_series :: "tick_env \<Rightarrow> tick_input \<Rightarrow> series_info list \<Rightarrow> bool \<Rightarrow> series_view \<Rightarrow> quote_error + working" where
  "price_series env input selectedInfo mtmTripped v =
     (let selected = (siLongId (svInfo v) \<in> siLongId ` set selectedInfo);
          answer = map_of (tiFairs input) (key_of v);
          context1 = haltContext input v selected mtmTripped;
          guardsOk = (svAskFloors v \<noteq> None \<and> svBidCap v \<noteq> None \<and> svExposure v \<noteq> None);
          fair = okFair input v;
          reason = (case answer of Some (FairRefused r) \<Rightarrow> Some r | _ \<Rightarrow> None);
          now = tiNow input;
          held = (now \<ge> writeStopAtOf (siExpiry (svInfo v)) (mpWriteStopMinutes (tiParams input)));
          result = (\<lambda>halt prices lag. \<lparr>wkView = v, wkSelected = selected, wkHalt = halt, wkFair = fair, wkFairReason = reason,
                      wkPrices = prices, wkLag = lag, wkWriteHold = (prices \<noteq> None \<and> held)\<rparr>)
      in case haltOf (context1\<lparr>hiFair := answer, hiSpot := svSpot v, hiGuardsOk := guardsOk\<rparr>) of
           Inl e \<Rightarrow> Inl e
         | Inr halt \<Rightarrow>
             (case (halt = None \<or> halt = Some HEpochWinddown, fair, svAskFloors v, svBidCap v, svSpot v) of
                (True, Some f, Some floors, Some cap, Some spot) \<Rightarrow>
                  (case fairCheckOf (context1\<lparr>hiFair := Some (FairOk f), hiSpot := Some spot\<rparr>) of
                     Inl e \<Rightarrow> Inl e
                   | Inr (Inl h) \<Rightarrow> Inr (result (Some h) None None)
                   | Inr (Inr None) \<Rightarrow> Inr (result (Some HFairUnavailable) None None)
                   | Inr (Inr (Some quoted)) \<Rightarrow>
                       (case price_quoted env input v f quoted spot floors cap of
                          Inl e \<Rightarrow> Inl e
                        | Inr (prices, lag, added) \<Rightarrow> Inr (result (if added = None then halt else added) prices lag)))
              | _ \<Rightarrow> Inr (result halt None None)))"

subsection \<open>Sizes\<close>

definition rank_of :: "series_info list \<Rightarrow> int \<Rightarrow> series_view \<Rightarrow> int" where
  "rank_of selectedInfo absent v =
     (case map_of (rev (zip (map siLongId selectedInfo) [0..<length selectedInfo])) (siLongId (svInfo v)) of
        None \<Rightarrow> absent | Some i \<Rightarrow> int i)"

definition by_rank :: "series_info list \<Rightarrow> int \<Rightarrow> working list \<Rightarrow> working list" where
  "by_rank selectedInfo absent ws =
     js_sort (\<lambda>a b. rank_of selectedInfo absent (wkView a) - rank_of selectedInfo absent (wkView b)) ws"

definition MAX_SAFE_INTEGER :: int where "MAX_SAFE_INTEGER = 9007199254740991"

definition housekeeping :: "tick_input \<Rightarrow> bool" where
  "housekeeping input = (\<not> tiKilled input \<and> vvIsQuoter (tiVault input))"

definition closePair :: "tick_input \<Rightarrow> series_view \<Rightarrow> int" where
  "closePair input v =
     (case svExposure v of
        None \<Rightarrow> 0
      | Some e \<Rightarrow>
          if \<not> housekeeping input \<or> svSettled v \<or> tiNow input \<ge> siExpiry (svInfo v) then 0
          else if exLongs e < exShorts e then exLongs e else exShorts e)"

text \<open>The map of the asks each series steps aside for.\<close>

definition stepAside :: "tick_input \<Rightarrow> working list \<Rightarrow> (string \<times> (other_ask \<times> int) list) list" where
  "stepAside input ws =
     foldl (\<lambda>m w. case wkPrices w of
         None \<Rightarrow> m
       | Some prices \<Rightarrow>
           if \<not> or_else (mpAskFallbackOnly (tiParams input)) True then m
           else let v = wkView w;
                    asks = (case tiOtherAskers input of None \<Rightarrow> [] | Some a \<Rightarrow> get_or a (key_of v) []);
                    mintPaused = (case market_of input v of None \<Rightarrow> True | Some mk \<Rightarrow> mvMintPaused mk);
                    qualified = stepAsideAsks asks (Some (qrAsk prices)) (siExpiry (svInfo v)) (svCollateralPerUnit v) (svMintFeePpm v)
                      (tiNow input) mintPaused STEP_ASIDE_MIN_UNITS (qpRequoteBps (mpQuote (tiParams input)))
                in if asks = [] then m else if qualified \<noteq> [] then AList.update (key_of v) qualified m else m) [] ws"

type_synonym gate = "bool \<times> bool \<times> gate_reason list"

definition market_greeks_start :: "tick_env \<Rightarrow> tick_input \<Rightarrow> (address \<times> market_greeks) list" where
  "market_greeks_start env input =
     marketGreeksOf (map (\<lambda>v. let (d, g, _) = greeksOf env input v
         in \<lparr>gpUnderlying = siUnderlying (svInfo v), gpUnits = inventoryOf (svExposure v), gpDelta = d, gpGamma = g\<rparr>)
       (filter (is_held input) (tiSeries input)))"

text \<open>The greek gate over the quoted series, in quoting priority; only refusals are kept.\<close>

fun gate_loop :: "tick_env \<Rightarrow> tick_input \<Rightarrow> (address \<times> market_greeks) list \<Rightarrow> working list \<Rightarrow> (string \<times> gate) list \<Rightarrow> (string \<times> gate) list" where
  "gate_loop env input markets [] refused = refused"
| "gate_loop env input markets (w # ws) refused =
     (let u = lower (siUnderlying (svInfo (wkView w)));
          (d, g, _) = greeksOf env input (wkView w);
          safest = safestAskOf (qpKnobs (mpQuote (tiParams input)));
          (bid, ask, reasons, market) = gateGreeks (get_or markets u no_greeks) d g (mpBidUnits (tiParams input)) (mpAskUnits (tiParams input))
            \<lparr>glMaxDeltaShares = saMaxDeltaShares safest, glMaxGamma = saMaxGamma safest\<rparr>
      in gate_loop env input (AList.update u market markets) ws
           (if \<not> bid \<or> \<not> ask then AList.update (key_of (wkView w)) (bid, ask, reasons) refused else refused))"

definition expiry_notional :: "tick_input \<Rightarrow> (seconds \<times> usdg6) list" where
  "expiry_notional input =
     foldl (\<lambda>m v. if svSettled v then m
        else AList.update (siExpiry (svInfo v)) (get_or m (siExpiry (svInfo v)) 0 + svSeriesNotional v) m) [] (tiSeries input)"

definition expiry_notional_unread :: "tick_input \<Rightarrow> seconds list" where
  "expiry_notional_unread input =
     js_set (map (\<lambda>v. siExpiry (svInfo v)) (filter (\<lambda>v. \<not> svSettled v \<and> svSeriesNotionalUnread v = Some True) (tiSeries input)))"

definition escrowOf :: "live_order \<Rightarrow> usdg6" where
  "escrowOf o' = (loPrice o' * (loUnits o' - loFilled o')) sdiv UNITS_PER_SHARE"

definition live_bid_escrow :: "tick_input \<Rightarrow> usdg6" where
  "live_bid_escrow input =
     foldl (\<lambda>sum v. sum + foldl (\<lambda>s o'. s + escrowOf o') 0 (filter (\<lambda>o'. loKind o' = Bid \<and> isLiveOrder o' (tiNow input)) (svOrders v)))
       0 (tiSeries input)"

definition bidBudget :: "usdg6 \<Rightarrow> usdg6 \<Rightarrow> usdg6 option \<Rightarrow> usdg6" where
  "bidBudget usdgWallet liveBidEscrow usdgReserved =
     (let free = usdgWallet + liveBidEscrow - or_else usdgReserved 0 in if free > 0 then free else 0)"

definition size_series_of :: "tick_input \<Rightarrow> (string \<times> (other_ask \<times> int) list) list \<Rightarrow> (string \<times> gate) list \<Rightarrow> working \<Rightarrow> plan_error + size_series" where
  "size_series_of input aside refused w =
     (let v = wkView w;
          pair = closePair input v;
          (bidOk, askOk, _) = get_or refused (key_of v) (True, True, [])
      in case svExposure v of
           None \<Rightarrow> Inl NullExposure
         | Some e \<Rightarrow>
             Inr \<lparr>zsLongId = siLongId (svInfo v), zsStrike = siStrike (svInfo v), zsLongs = exLongs e - pair, zsResale = exResale e,
               zsShorts = exShorts e - pair, zsSeriesNotional = svSeriesNotional v, zsCollateralAsset = svCollateralAsset v,
               zsCollateralPerUnit = svCollateralPerUnit v, zsMintFeePpm = svMintFeePpm v, zsExpiry = siExpiry (svInfo v),
               zsBidPrice = (if bidOk then (case wkPrices w of Some p \<Rightarrow> qrBid p | None \<Rightarrow> None) else None),
               zsAskPrice = (if get_or aside (key_of v) [] \<noteq> [] \<or> \<not> askOk then None else map_option qrAsk (wkPrices w)),
               zsWriteAllowed = (case market_of input v of None \<Rightarrow> False | Some m \<Rightarrow> \<not> mvMintPaused m \<and> \<not> wkWriteHold w)\<rparr>)"

definition size_limits_of :: "tick_input \<Rightarrow> size_limits" where
  "size_limits_of input =
     (let vault = tiVault input; params = tiParams input; safest = safestAskOf (qpKnobs (mpQuote params)); escrow = live_bid_escrow input
      in \<lparr>zlNow = tiNow input, zlVaultMaxSeriesUnits = vlMaxSeriesUnits (vvLimits vault), zlBotMaxSeriesUnits = mpMaxSeriesUnits params,
          zlVaultMaxTotalNotional = vlMaxTotalNotional (vvLimits vault), zlBotMaxTotalNotional = mpMaxTotalNotionalUsdg6 params,
          zlTotalNotional = vvTotalNotional vault,
          zlUsdgBudget = bidBudget (vvUsdgWallet vault) escrow (val_of (vvUsdgReserved vault)),
          zlOutflowBudget = budgetFor (vlMaxDailyOutflow (vvLimits vault)) (vvOutflowUsed vault) escrow,
          zlFreeCollateral = vvFreeCollateral vault, zlWriteOversubscribeBps = mpWriteOversubscribeBps params,
          zlBidUnits = mpBidUnits params, zlAskUnits = mpAskUnits params, zlMaxExpiryNotional = Some (saMaxExpiryNotionalUsdg6 safest),
          zlExpiryNotional = Some (expiry_notional input), zlExpiryNotionalUnread = Some (expiry_notional_unread input)\<rparr>)"

definition is_gamma :: "gate_reason \<Rightarrow> bool" where
  "is_gamma r = (case r of SeriesGammaUnknown _ \<Rightarrow> True | MarketGammaUnknown _ \<Rightarrow> True | NetGamma _ \<Rightarrow> True | _ \<Rightarrow> False)"

definition add_gate_caps :: "(string \<times> gate) list \<Rightarrow> series_sizes \<Rightarrow> series_sizes" where
  "add_gate_caps refused s =
     (case map_of refused (show_int (ssLongId s)) of
        None \<Rightarrow> s
      | Some (_, _, reasons) \<Rightarrow>
          s\<lparr>ssCapped := js_set (ssCapped s @ map (\<lambda>r. if is_gamma r then CapGamma else CapDelta) reasons)\<rparr>)"

subsection \<open>The targets and calls of one series\<close>

type_synonym targets = "slot \<Rightarrow> slot_target option"

definition drop_slot :: "slot \<Rightarrow> targets \<Rightarrow> targets" where
  "drop_slot s t = t(s := None)"

definition sized_targets :: "quote_prices \<Rightarrow> series_sizes \<Rightarrow> targets" where
  "sized_targets prices z s =
     (case s of
        SlotBid \<Rightarrow> (case qrBid prices of Some b \<Rightarrow> if ssBid z > 0 then Some \<lparr>tgPrice = b, tgUnits = ssBid z\<rparr> else None | None \<Rightarrow> None)
      | SlotWrite \<Rightarrow> (if ssWrite z > 0 then Some \<lparr>tgPrice = qrAsk prices, tgUnits = ssWrite z\<rparr> else None)
      | SlotResale \<Rightarrow> (if ssResale z > 0 then Some \<lparr>tgPrice = qrResale prices, tgUnits = ssResale z\<rparr> else None))"

definition wind_down :: "series_view \<Rightarrow> targets \<Rightarrow> targets" where
  "wind_down v t =
     (let wd = windDownAction (map_option exLongs (svExposure v));
          t1 = (if wdBid wd then t else drop_slot SlotBid t);
          t2 = (if wdWrite wd then t1 else drop_slot SlotWrite t1)
      in if wdResale wd then t2 else drop_slot SlotResale t2)"

definition side_of_slot :: "slot \<Rightarrow> quote_side" where
  "side_of_slot s = (if s = SlotBid then BidSide else AskSide)"

definition protocol_book_of :: "tick_input \<Rightarrow> protocol_book" where
  "protocol_book_of input =
     \<lparr>pbAccounts = or_else (val_of (tiProtocolAccounts input)) [], pbResting = or_else (val_of (tiProtocolBook input)) []\<rparr>"

text \<open>One of the three protocol checks: the targets, and whether anything crossed.\<close>

definition cross_check :: "tick_input \<Rightarrow> int \<Rightarrow> slot \<Rightarrow> targets \<times> bool \<Rightarrow> targets \<times> bool" where
  "cross_check input longId s tc =
     (case fst tc s of
        None \<Rightarrow> tc
      | Some t \<Rightarrow>
          if crossesProtocol \<lparr>ptLongId = longId, ptSide = side_of_slot s, ptPrice = tgPrice t\<rparr> (protocol_book_of input)
          then (drop_slot s (fst tc), True) else tc)"

definition targets_of :: "tick_input \<Rightarrow> (string \<times> (other_ask \<times> int) list) list \<Rightarrow> working \<Rightarrow> series_sizes option \<Rightarrow> targets option \<times> halt option" where
  "targets_of input aside w sizes =
     (case (wkPrices w, sizes) of
        (Some prices, Some z) \<Rightarrow>
          let v = wkView w;
              t0 = sized_targets prices z;
              t1 = (if wkHalt w = Some HEpochWinddown then wind_down v t0 else t0);
              longId = siLongId (svInfo v);
              (t2, crossed) = cross_check input longId SlotResale (cross_check input longId SlotWrite (cross_check input longId SlotBid (t1, False)));
              halt1 = (if crossed \<and> wkHalt w = None then Some HProtocolCross else wkHalt w)
          in if get_or aside (key_of v) [] \<noteq> [] then
               (Some (drop_slot SlotResale (drop_slot SlotWrite t2)), if halt1 = None then Some HOtherAsker else halt1)
             else (Some t2, halt1)
      | _ \<Rightarrow> (None, wkHalt w))"

definition slot_life :: "tick_input \<Rightarrow> series_view \<Rightarrow> slot \<Rightarrow> quote_life" where
  "slot_life input v s =
     quoteLifeOf ((life_input_of input v s)\<lparr>liWriteStopAt := Some (writeStopAtOf (siExpiry (svInfo v)) (mpWriteStopMinutes (tiParams input)))\<rparr>)"

definition floor_slots :: "lag_floor \<Rightarrow> slot \<Rightarrow> usdg6" where
  "floor_slots f s = (case s of SlotBid \<Rightarrow> spBid f | SlotWrite \<Rightarrow> spWrite f | SlotResale \<Rightarrow> spResale f)"

definition series_actions_of :: "tick_input \<Rightarrow> working \<Rightarrow> targets option \<Rightarrow> series_actions" where
  "series_actions_of input w targets =
     (let v = wkView w
      in \<lparr>sxLongId = siLongId (svInfo v), sxNow = tiNow input, sxOrders = svOrders v, sxTargets = targets,
          sxValidUntil = (\<lambda>s. validUntilAt (slot_life input v s) (tiNow input)), sxLife = (\<lambda>s. Some (slot_life input v s)),
          sxAskFloors = svAskFloors v, sxBidCap = or_else (svBidCap v) 0, sxRefreshS = tiRefreshS input,
          sxReplaceMarginS = tiReplaceMarginS input, sxParams = mpQuote (tiParams input),
          sxSafeFloor = map_option (\<lambda>l. floor_slots (slFloor l)) (wkLag w)\<rparr>)"

record live_row =
  lrId :: int
  lrKind :: order_kind
  lrPrice :: usdg6
  lrRemaining :: int
  lrValidUntil :: seconds

record series_plan =
  slpLongId :: int
  slpTicker :: string
  slpIsPut :: bool
  slpStrike :: usdg6
  slpExpiry :: seconds
  slpSelected :: bool
  slpHalt :: "halt option"
  slpFair :: "fair_value option"
  slpFairReason :: "string option"
  slpPrices :: "quote_prices option"
  slpLag :: "spot_lag_quote option"
  slpWriteHold :: bool
  slpSizes :: "series_sizes option"
  slpTargets :: "targets option"
  slpInventory :: int
  slpLive :: "live_row list"

definition plan_series :: "tick_input \<Rightarrow> (string \<times> (other_ask \<times> int) list) list \<Rightarrow> (string \<times> series_sizes) list \<Rightarrow> working \<Rightarrow> mm_action list \<times> series_plan" where
  "plan_series input aside sizeOf w =
     (let v = wkView w; z = map_of sizeOf (key_of v);
          (targets, halt) = targets_of input aside w z
      in (planSeriesActions (series_actions_of input w targets),
          \<lparr>slpLongId = siLongId (svInfo v), slpTicker = svTicker v, slpIsPut = siIsPut (svInfo v), slpStrike = siStrike (svInfo v),
           slpExpiry = siExpiry (svInfo v), slpSelected = wkSelected w, slpHalt = halt, slpFair = wkFair w, slpFairReason = wkFairReason w,
           slpPrices = wkPrices w, slpLag = wkLag w, slpWriteHold = wkWriteHold w, slpSizes = z, slpTargets = targets,
           slpInventory = inventoryOf (svExposure v),
           slpLive = map (\<lambda>o'. \<lparr>lrId = loId o', lrKind = loKind o', lrPrice = loPrice o', lrRemaining = loUnits o' - loFilled o',
               lrValidUntil = loValidUntil o'\<rparr>) (filter (\<lambda>o'. isLiveOrder o' (tiNow input)) (svOrders v))\<rparr>))"

subsection \<open>The transactions of the tick\<close>

function chunks :: "nat \<Rightarrow> 'a list \<Rightarrow> 'a list list" where
  "chunks k xs = (if xs = [] \<or> k = 0 then [] else take k xs # chunks k (drop k xs))"
  by auto
termination by (relation "measure (\<lambda>(k, xs). length xs)") auto

declare chunks.simps [simp del]

fun cancels_in :: "mm_action list \<Rightarrow> cancel_call list" where
  "cancels_in [] = []"
| "cancels_in (a # as) = (case a of Cancel c \<Rightarrow> c # cancels_in as | _ \<Rightarrow> cancels_in as)"

definition cancel_txs :: "cancel_call list \<Rightarrow> bool \<Rightarrow> mm_tx list" where
  "cancel_txs cancels protective =
     (let ids = concat (map (\<lambda>c. map (\<lambda>i. (i, ccLongId c)) (ccOrderIds c)) (filter (\<lambda>c. ccProtective c = protective) cancels))
      in map (\<lambda>part. TxCancel (map fst part) (js_set (map snd part)) protective) (chunks CANCEL_CHUNK ids))"

definition sync_txs :: "tick_input \<Rightarrow> series_sizes list \<Rightarrow> mm_tx list" where
  "sync_txs input sizes =
     (let cappedByTotal = list_ex (\<lambda>s. TotalNotional \<in> set (ssCapped s)) sizes;
          shrunk = (\<lambda>t. case trMeasured t of None \<Rightarrow> False | Some m \<Rightarrow> m < trStored t);
          over = filter shrunk (vvTracked (tiVault input));
          flat = filter (\<lambda>t. trMeasured t \<noteq> None \<and> \<not> shrunk t \<and> trHeld t = Some False) (vvTracked (tiVault input));
          stale = map trLongId (over @ flat);
          due = (case tiLastSync input of None \<Rightarrow> True | Some t \<Rightarrow> tiNow input - t \<ge> mpSyncIntervalS (tiParams input))
      in if stale \<noteq> [] \<and> (due \<or> cappedByTotal) then map TxSync (chunks SYNC_CHUNK stale) else [])"

definition close_txs :: "tick_input \<Rightarrow> mm_tx list" where
  "close_txs input =
     map (\<lambda>v. TxClose (siLongId (svInfo v)) (closePair input v)) (filter (\<lambda>v. closePair input v > 0) (tiSeries input))"

definition redeem_txs :: "tick_input \<Rightarrow> mm_tx list" where
  "redeem_txs input =
     map (\<lambda>h. TxRedeem (shTokenId h) (shLongId h) (shUnits h)) (filter (\<lambda>h. shUnits h > 0) (or_else (vvSettledHeld (tiVault input)) []))"

definition unreserved :: "vault_view \<Rightarrow> address \<Rightarrow> int \<Rightarrow> int" where
  "unreserved vault asset held =
     (let reserved = (case vvWalletReserved vault of None \<Rightarrow> 0 | Some m \<Rightarrow> get_or m (lower asset) 0)
      in if held > reserved then held - reserved else 0)"

definition deposit_txs :: "tick_input \<Rightarrow> mm_tx list" where
  "deposit_txs input =
     (if mpDepositTokens (tiParams input)
      then map (\<lambda>(asset, held). TxDeposit asset (unreserved (tiVault input) asset held))
             (filter (\<lambda>(asset, held). unreserved (tiVault input) asset held > 0) (vvWalletTokens (tiVault input)))
      else [])"

definition claim_txs :: "tick_input \<Rightarrow> mm_tx list" where
  "claim_txs input = (if vvOwed (tiVault input) > 0 then [TxClaimOwed (vvOwed (tiVault input))] else [])"

fun quote_txs :: "mm_action list \<Rightarrow> mm_tx list" where
  "quote_txs [] = []"
| "quote_txs (a # as) = (case a of Cancel _ \<Rightarrow> quote_txs as | Replace r \<Rightarrow> TxReplace r # quote_txs as | Place p \<Rightarrow> TxPlace p # quote_txs as)"

definition tick_txs :: "tick_input \<Rightarrow> series_sizes list \<Rightarrow> mm_action list \<Rightarrow> mm_tx list" where
  "tick_txs input sizes ordered =
     (if \<not> vvIsQuoter (tiVault input) then []
      else cancel_txs (cancels_in ordered) True @ cancel_txs (cancels_in ordered) False
        @ (if housekeeping input
           then sync_txs input sizes @ close_txs input @ redeem_txs input @ claim_txs input @ deposit_txs input else [])
        @ (if \<not> tiKilled input then quote_txs ordered else []))"

record outflow_report =
  orCap :: usdg6
  orUsed :: usdg6
  orReleased :: usdg6
  orBudget :: usdg6
  orPlanned :: usdg6
  orBlocked :: bool

record tick_plan =
  tpSelected :: "int list"
  tpNetDelta :: "net_delta_row list"
  tpSeries :: "series_plan list"
  tpTxs :: "mm_tx list"
  tpCapped :: "(int \<times> size_cap list) list"
  tpMtm :: mtm_stop
  tpOutflow :: outflow_report

definition planned_escrow :: "size_series list \<Rightarrow> series_sizes list \<Rightarrow> usdg6" where
  "planned_escrow sizeInput sizes = sum_list (map2 (\<lambda>s z. bidEscrowOf (or_else (zsBidPrice s) 0) (ssBid z)) sizeInput sizes)"

text \<open>From the priced series on: the quoted series, the refusals of the greek gate, the sizes and the series' plans.\<close>

definition quoted_of :: "series_info list \<Rightarrow> working list \<Rightarrow> working list" where
  "quoted_of selectedInfo ws = by_rank selectedInfo 0 (filter (\<lambda>w. wkPrices w \<noteq> None) ws)"

definition refusals_of :: "tick_env \<Rightarrow> tick_input \<Rightarrow> series_info list \<Rightarrow> working list \<Rightarrow> (string \<times> gate) list" where
  "refusals_of env input selectedInfo ws = gate_loop env input (market_greeks_start env input) (quoted_of selectedInfo ws) []"

definition sizes_of :: "tick_input \<Rightarrow> (string \<times> gate) list \<Rightarrow> size_series list \<Rightarrow> series_sizes list" where
  "sizes_of input refused sizeInput = map (add_gate_caps refused) (planSizes sizeInput (size_limits_of input))"

definition planned_of :: "tick_input \<Rightarrow> series_info list \<Rightarrow> working list \<Rightarrow> series_sizes list \<Rightarrow> (mm_action list \<times> series_plan) list" where
  "planned_of input selectedInfo ws sizes =
     (let sizeOf = foldl (\<lambda>m s. AList.update (show_int (ssLongId s)) s m) [] sizes
      in map (plan_series input (stepAside input ws) sizeOf) (by_rank selectedInfo MAX_SAFE_INTEGER ws))"

definition plan_working :: "tick_env \<Rightarrow> tick_input \<Rightarrow> series_info list \<Rightarrow> mtm_stop \<Rightarrow> working list \<Rightarrow> plan_error + tick_plan" where
  "plan_working env input selectedInfo mtm ws =
     (let refused = refusals_of env input selectedInfo ws
      in case map_raise (size_series_of input (stepAside input ws) refused) (quoted_of selectedInfo ws) of
           Inl e \<Rightarrow> Inl e
         | Inr sizeInput \<Rightarrow>
             let sizes = sizes_of input refused sizeInput;
                 planned = planned_of input selectedInfo ws sizes;
                 quoter = vvIsQuoter (tiVault input)
             in Inr \<lparr>tpSelected = map siLongId selectedInfo, tpNetDelta = map (\<lambda>um. net_delta_row_of input (snd um)) (tiMarkets input),
                  tpSeries = map snd planned,
                  tpTxs = tick_txs input sizes (orderActions (map fst planned)),
                  tpCapped = (if quoter then map (\<lambda>s. (ssLongId s, ssCapped s)) (filter (\<lambda>s. ssCapped s \<noteq> []) sizes) else []),
                  tpMtm = mtm,
                  tpOutflow = \<lparr>orCap = vlMaxDailyOutflow (vvLimits (tiVault input)), orUsed = vvOutflowUsed (tiVault input),
                    orReleased = live_bid_escrow input, orBudget = zlOutflowBudget (size_limits_of input),
                    orPlanned = (if quoter then planned_escrow sizeInput sizes else 0),
                    orBlocked = list_ex (\<lambda>s. CapOutflow \<in> set (ssCapped s)) sizes\<rparr>\<rparr>)"

definition required_inputs :: "tick_input \<Rightarrow> safety_input list" where
  "required_inputs input =
     [VaultEpoch, VaultUsdgReserved, ParamsEpochWindDownS, ProtocolAccounts, ProtocolBook] @ sessionInputs (tiParams input)"

definition mtm_of :: "tick_input \<Rightarrow> (string \<times> usdg6 option) list \<Rightarrow> mtm_stop" where
  "mtm_of input pairs =
     mtmLossStop (tiLossStop input) (marks_of pairs) (saDailyMtmLossLimitUsdg6 (safestAskOf (qpKnobs (mpQuote (tiParams input)))))"

definition planTick :: "tick_env \<Rightarrow> tick_input \<Rightarrow> plan_error + tick_plan" where
  "planTick env input =
     (case requireSafetyInputs input (required_inputs input) of
        Some name \<Rightarrow> Inl (MissingInput name)
      | None \<Rightarrow>
          (case selectedSeries env input of
             Inl name \<Rightarrow> Inl (MissingInput name)
           | Inr selectedInfo \<Rightarrow>
               (case map_raise (mark_of input) (tiSeries input) of
                  Inl e \<Rightarrow> Inl (Raised e)
                | Inr pairs \<Rightarrow>
                    (case map_raise (price_series env input selectedInfo (mtTripped (mtm_of input pairs))) (tiSeries input) of
                       Inl e \<Rightarrow> Inl (Raised e)
                     | Inr ws \<Rightarrow> plan_working env input selectedInfo (mtm_of input pairs) ws))))"

subsection \<open>What a plan books\<close>

record live_key =
  lkKind :: order_kind
  lkPrice :: usdg6
  lkRemaining :: int

fun booked_from :: "nat \<Rightarrow> (int \<times> live_key) list \<Rightarrow> mm_tx list \<Rightarrow> (nat \<times> usdg6) list" where
  "booked_from index live [] = []"
| "booked_from index live (tx # txs) =
     (let here = (case tx of
          TxCancel ids longIds protective \<Rightarrow>
            (let back = foldl (\<lambda>sum i. case map_of live i of None \<Rightarrow> sum
                     | Some o' \<Rightarrow> if lkKind o' \<noteq> Bid then sum else sum + bidEscrowOf (lkPrice o') (lkRemaining o')) 0 ids
             in if back > 0 then [(index, - back)] else [])
        | TxReplace r \<Rightarrow>
            (if rcSlot r = SlotBid then
               (let was = (case map_of live (rcOrderId r) of None \<Rightarrow> bidEscrowOf (rcFromPrice r) (rcFromUnits r)
                      | Some o' \<Rightarrow> bidEscrowOf (lkPrice o') (lkRemaining o'))
                in [(index, bidEscrowOf (rcPrice r) (rcUnits r) - was)])
             else [])
        | TxPlace p \<Rightarrow> if pcSlot p = SlotBid then [(index, bidEscrowOf (pcPrice p) (pcUnits p))] else []
        | _ \<Rightarrow> [])
      in here @ booked_from (Suc index) live txs)"

definition bookedCalls :: "tick_plan \<Rightarrow> (int \<times> live_key) list \<Rightarrow> (nat \<times> usdg6) list" where
  "bookedCalls plan live = booked_from 0 live (tpTxs plan)"

definition live_of_plan :: "tick_plan \<Rightarrow> (int \<times> live_key) list" where
  "live_of_plan plan =
     foldl (\<lambda>m o'. AList.update (lrId o') \<lparr>lkKind = lrKind o', lkPrice = lrPrice o', lkRemaining = lrRemaining o'\<rparr> m) []
       (concat (map slpLive (tpSeries plan)))"

definition bidGrowth :: "tick_plan \<Rightarrow> (nat \<times> usdg6) list" where
  "bidGrowth plan =
     foldl (\<lambda>out (index, delta). case tpTxs plan ! index of
           TxPlace _ \<Rightarrow> AList.update index delta out
         | TxReplace _ \<Rightarrow> if delta > 0 then AList.update index delta out else out
         | _ \<Rightarrow> out) [] (bookedCalls plan (live_of_plan plan))"

definition twoSidedCount :: "tick_plan \<Rightarrow> nat" where
  "twoSidedCount plan =
     length (filter (\<lambda>s. case slpTargets s of None \<Rightarrow> False
        | Some t \<Rightarrow> t SlotBid \<noteq> None \<and> (t SlotWrite \<noteq> None \<or> t SlotResale \<noteq> None)) (tpSeries plan))"

subsection \<open>The parts of a plan\<close>

lemma map_raise_Inr: "map_raise f xs = Inr ys \<longleftrightarrow> list_all2 (\<lambda>x y. f x = Inr y) xs ys"
proof (induction xs arbitrary: ys)
  case (Cons x xs)
  have "map_raise f (x # xs) = Inr ys \<longleftrightarrow> (\<exists>y zs. ys = y # zs \<and> f x = Inr y \<and> map_raise f xs = Inr zs)"
    by (auto split: sum.splits)
  then show ?case by (simp only: Cons.IH list_all2_Cons1)
qed auto

lemma map_raise_Inl: "map_raise f xs = Inl e \<Longrightarrow> \<exists>x \<in> set xs. f x = Inl e"
  by (induction xs) (auto split: sum.splits)

text \<open>Everything a successful plan is made of.\<close>

definition made_of :: "tick_env \<Rightarrow> tick_input \<Rightarrow> tick_plan \<Rightarrow> series_info list \<Rightarrow> mtm_stop \<Rightarrow> working list \<Rightarrow> size_series list \<Rightarrow> bool" where
  "made_of env input plan sel mtm ws sizeInput =
     (requireSafetyInputs input (required_inputs input) = None
      \<and> list_all2 (\<lambda>v w. price_series env input sel (mtTripped mtm) v = Inr w) (tiSeries input) ws
      \<and> list_all2 (\<lambda>w s. size_series_of input (stepAside input ws) (refusals_of env input sel ws) w = Inr s) (quoted_of sel ws) sizeInput
      \<and> (let sizes = sizes_of input (refusals_of env input sel ws) sizeInput; planned = planned_of input sel ws sizes
         in tpSeries plan = map snd planned \<and> tpTxs plan = tick_txs input sizes (orderActions (map fst planned))
          \<and> orPlanned (tpOutflow plan) = (if vvIsQuoter (tiVault input) then planned_escrow sizeInput sizes else 0)
          \<and> orBudget (tpOutflow plan) = zlOutflowBudget (size_limits_of input)))"

lemma planTick_made_of:
  assumes "planTick env input = Inr plan"
  obtains sel mtm ws sizeInput where "made_of env input plan sel mtm ws sizeInput"
proof -
  obtain sel pairs ws where p: "requireSafetyInputs input (required_inputs input) = None" "selectedSeries env input = Inr sel"
    "map_raise (price_series env input sel (mtTripped (mtm_of input pairs))) (tiSeries input) = Inr ws"
    "plan_working env input sel (mtm_of input pairs) ws = Inr plan"
    using assms by (auto simp: planTick_def split: option.splits sum.splits)
  then obtain sizeInput where
    "map_raise (size_series_of input (stepAside input ws) (refusals_of env input sel ws)) (quoted_of sel ws) = Inr sizeInput"
    by (auto simp: plan_working_def Let_def split: sum.splits)
  with p have "made_of env input plan sel (mtm_of input pairs) ws sizeInput"
    by (auto simp: made_of_def plan_working_def Let_def map_raise_Inr [symmetric])
  then show ?thesis by (rule that)
qed

lemma price_series_view: "price_series env input sel m v = Inr w \<Longrightarrow> wkView w = v"
  by (auto simp: price_series_def Let_def split: sum.splits option.splits bool.splits prod.splits)

lemma priced_views:
  "list_all2 (\<lambda>v w. price_series env input sel m v = Inr w) vs ws \<Longrightarrow> map wkView ws = vs"
  by (induction rule: list_all2_induct) (simp_all add: price_series_view)

text \<open>A series with prices passed every halt but the wind-down.\<close>

lemma price_series_prices:
  assumes "price_series env input sel m v = Inr w" "wkPrices w \<noteq> None"
  shows "wkHalt w = None \<or> wkHalt w = Some HEpochWinddown"
    and "\<exists>f quoted. okFair input v = Some f \<and> svAskFloors v \<noteq> None
      \<and> (\<exists>h. haltOf ((haltContext input v (siLongId (svInfo v) \<in> siLongId ` set sel) m)\<lparr>hiFair := map_of (tiFairs input) (key_of v),
            hiSpot := svSpot v, hiGuardsOk := svAskFloors v \<noteq> None \<and> svBidCap v \<noteq> None \<and> svExposure v \<noteq> None\<rparr>) = Inr h
          \<and> h = wkHalt w)
      \<and> fairCheckOf ((haltContext input v (siLongId (svInfo v) \<in> siLongId ` set sel) m)\<lparr>hiFair := Some (FairOk f), hiSpot := svSpot v\<rparr>)
          = Inr (Inr (Some quoted))"
  using assms
  by (auto simp: price_series_def price_quoted_def Let_def split: sum.splits option.splits bool.splits prod.splits if_splits)

subsection \<open>Only a series that may be quoted is quoted\<close>

text \<open>What the plan of a series says about a quote of slot \<open>s\<close> at \<open>price\<close>.\<close>

definition quote_allowed :: "tick_input \<Rightarrow> series_plan \<Rightarrow> slot \<Rightarrow> usdg6 \<Rightarrow> int \<Rightarrow> bool" where
  "quote_allowed input sp s price units =
     (case slpPrices sp of
        None \<Rightarrow> False
      | Some q \<Rightarrow>
          0 < units
          \<and> (case s of SlotBid \<Rightarrow> qrBid q = Some price | SlotWrite \<Rightarrow> qrAsk q = price | SlotResale \<Rightarrow> qrResale q = price)
          \<and> \<not> crossesProtocol \<lparr>ptLongId = slpLongId sp, ptSide = side_of_slot s, ptPrice = price\<rparr> (protocol_book_of input)
          \<and> slpHalt sp \<in> {None, Some HEpochWinddown, Some HProtocolCross, Some HOtherAsker}
          \<and> (slpHalt sp = Some HEpochWinddown \<longrightarrow> s = SlotResale)
          \<and> (slpHalt sp = Some HOtherAsker \<longrightarrow> s = SlotBid))"

lemma cross_check_some:
  "fst (cross_check input l s tc) s' = Some t \<Longrightarrow>
     fst tc s' = Some t \<and> (s' = s \<longrightarrow> \<not> crossesProtocol \<lparr>ptLongId = l, ptSide = side_of_slot s, ptPrice = tgPrice t\<rparr> (protocol_book_of input))"
  by (auto simp: cross_check_def drop_slot_def split: option.splits if_splits)

lemma sized_targets_some:
  "sized_targets q z s = Some t \<Longrightarrow> 0 < tgUnits t
     \<and> (case s of SlotBid \<Rightarrow> qrBid q = Some (tgPrice t) \<and> tgUnits t = ssBid z | SlotWrite \<Rightarrow> qrAsk q = tgPrice t | SlotResale \<Rightarrow> qrResale q = tgPrice t)"
  by (auto simp: sized_targets_def split: slot.splits option.splits if_splits)

lemma wind_down_some: "wind_down v t s = Some x \<Longrightarrow> t s = Some x \<and> s = SlotResale"
  by (cases s) (auto simp: wind_down_def windDownAction_def drop_slot_def Let_def split: if_splits)

lemma targets_of_some:
  assumes "targets_of input aside w z = (Some ts, h)" "ts s = Some t" "wkHalt w = None \<or> wkHalt w = Some HEpochWinddown"
  shows "\<exists>q y. wkPrices w = Some q \<and> z = Some y \<and> sized_targets q y s = Some t
    \<and> \<not> crossesProtocol \<lparr>ptLongId = siLongId (svInfo (wkView w)), ptSide = side_of_slot s, ptPrice = tgPrice t\<rparr> (protocol_book_of input)
    \<and> h \<in> {None, Some HEpochWinddown, Some HProtocolCross, Some HOtherAsker}
    \<and> (h = Some HEpochWinddown \<longrightarrow> s = SlotResale) \<and> (h = Some HOtherAsker \<longrightarrow> s = SlotBid)"
proof -
  obtain q y where q: "wkPrices w = Some q" "z = Some y"
    using assms(1) by (auto simp: targets_of_def split: option.splits)
  let ?l = "siLongId (svInfo (wkView w))"
  let ?t1 = "if wkHalt w = Some HEpochWinddown then wind_down (wkView w) (sized_targets q y) else sized_targets q y"
  let ?c = "cross_check input ?l SlotResale (cross_check input ?l SlotWrite (cross_check input ?l SlotBid (?t1, False)))"
  obtain t2 crossed where c: "?c = (t2, crossed)" by fastforce
  let ?h1 = "if crossed \<and> wkHalt w = None then Some HProtocolCross else wkHalt w"
  have e: "(Some ts, h) = (if get_or aside (key_of (wkView w)) [] \<noteq> [] then
               (Some (drop_slot SlotResale (drop_slot SlotWrite t2)), if ?h1 = None then Some HOtherAsker else ?h1)
             else (Some t2, ?h1))"
    using assms(1) unfolding targets_of_def q Let_def by (simp only: option.case prod.case c)
  have t2: "t2 s = Some t" "h = Some HOtherAsker \<longrightarrow> s = SlotBid"
    using e assms(2,3) by (cases s; auto simp: drop_slot_def split: if_splits)+
  have f: "fst ?c s = Some t" using t2(1) c by simp
  note r = cross_check_some [OF f]
  note w = cross_check_some [OF r [THEN conjunct1]]
  note b = cross_check_some [OF w [THEN conjunct1]]
  have t1: "?t1 s = Some t" using b by simp
  have free: "\<not> crossesProtocol \<lparr>ptLongId = ?l, ptSide = side_of_slot s, ptPrice = tgPrice t\<rparr> (protocol_book_of input)"
    by (cases s) (use r w b in blast)+
  have sized: "sized_targets q y s = Some t" "wkHalt w = Some HEpochWinddown \<longrightarrow> s = SlotResale"
    using t1 wind_down_some by (auto split: if_splits)
  have "h \<in> {None, Some HEpochWinddown, Some HProtocolCross, Some HOtherAsker}" "h = Some HEpochWinddown \<longrightarrow> wkHalt w = Some HEpochWinddown"
    using e assms(3) by (auto split: if_splits)
  then show ?thesis using q sized free t2(2) by auto
qed

text \<open>A call of the plan of a series carries the price and size of its target.\<close>

lemma slot_calls_target:
  "r \<in> set (scReplaces (slot_calls_of input ts floors s)) \<Longrightarrow> \<exists>t. ts s = Some t \<and> rcPrice r = tgPrice t \<and> rcUnits r = tgUnits t \<and> rcSlot r = s"
  "p \<in> set (scPlaces (slot_calls_of input ts floors s)) \<Longrightarrow> \<exists>t. ts s = Some t \<and> pcPrice p = tgPrice t \<and> pcUnits p = tgUnits t \<and> pcSlot p = s"
  by (auto simp: slot_calls_of_def place_of_def Let_def split: option.splits list.splits prod.splits if_splits)

lemma series_calls_target:
  assumes "a \<in> set (planSeriesActions x)"
  shows "(\<forall>r. a = Replace r \<longrightarrow> (\<exists>ts t. sxTargets x = Some ts \<and> ts (rcSlot r) = Some t \<and> rcPrice r = tgPrice t \<and> rcUnits r = tgUnits t \<and> rcLongId r = sxLongId x))
    \<and> (\<forall>p. a = Place p \<longrightarrow> (\<exists>ts t. sxTargets x = Some ts \<and> ts (pcSlot p) = Some t \<and> pcPrice p = tgPrice t \<and> pcUnits p = tgUnits t \<and> pcLongId p = sxLongId x))"
proof (cases "sxTargets x = None \<or> sxAskFloors x = None")
  case True
  then show ?thesis using assms by (auto simp: planSeriesActions_def Let_def split: option.splits if_splits)
next
  case False
  then obtain ts floors where t: "sxTargets x = Some ts" "sxAskFloors x = Some floors" by auto
  have l: "r \<in> set (scReplaces (slot_calls_of x ts floors s)) \<Longrightarrow> rcLongId r = sxLongId x"
    "p \<in> set (scPlaces (slot_calls_of x ts floors s)) \<Longrightarrow> pcLongId p = sxLongId x" for r p s
    by (auto simp: slot_calls_of_def place_of_def Let_def split: option.splits list.splits prod.splits if_splits)
  have "Replace r \<in> set (planSeriesActions x) \<Longrightarrow> \<exists>s. r \<in> set (scReplaces (slot_calls_of x ts floors s))"
    "Place p \<in> set (planSeriesActions x) \<Longrightarrow> \<exists>s. p \<in> set (scPlaces (slot_calls_of x ts floors s))" for r p
    unfolding in_replaces [symmetric] in_places [symmetric] plan_replaces [OF t] plan_places [OF t] by auto
  then show ?thesis using assms t(1) slot_calls_target l by metis
qed

lemma in_quote_txs: "TxPlace p \<in> set (quote_txs as) \<longleftrightarrow> Place p \<in> set as" "TxReplace r \<in> set (quote_txs as) \<longleftrightarrow> Replace r \<in> set as"
  by (induction as) (auto split: mm_action.splits)

lemma set_orderActions: "set (orderActions xss) = set (concat xss)"
  using orderActions_mset [of xss] by (metis set_mset_mset)

lemma not_housekeeping_quotes:
  "x \<in> set (cancel_txs cs b) \<union> set (sync_txs i z) \<union> set (close_txs i) \<union> set (redeem_txs i) \<union> set (claim_txs i) \<union> set (deposit_txs i)
     \<Longrightarrow> x \<noteq> TxPlace p \<and> x \<noteq> TxReplace r"
  by (auto simp: cancel_txs_def sync_txs_def close_txs_def redeem_txs_def claim_txs_def deposit_txs_def Let_def split: if_splits)

lemma tick_txs_quote:
  "TxPlace p \<in> set (tick_txs input z as) \<longleftrightarrow> vvIsQuoter (tiVault input) \<and> \<not> tiKilled input \<and> Place p \<in> set as"
  "TxReplace r \<in> set (tick_txs input z as) \<longleftrightarrow> vvIsQuoter (tiVault input) \<and> \<not> tiKilled input \<and> Replace r \<in> set as"
  using not_housekeeping_quotes [of "TxPlace p" _ _ input z p undefined] not_housekeeping_quotes [of "TxReplace r" _ _ input z undefined r]
  by (auto simp: tick_txs_def in_quote_txs)

text \<open>The series plan that an action of the tick comes from.\<close>

lemma planned_action:
  assumes "made_of env input plan sel mtm ws sizeInput" "a \<in> set (orderActions (map fst (planned_of input sel ws sizes)))"
    "sizes = sizes_of input (refusals_of env input sel ws) sizeInput"
  obtains w z ts h where "w \<in> set ws" "targets_of input (stepAside input ws) w z = (ts, h)" "wkHalt w = None \<or> wkHalt w = Some HEpochWinddown \<or> wkPrices w = None"
    "a \<in> set (planSeriesActions (series_actions_of input w ts))"
    "\<exists>sp \<in> set (tpSeries plan). slpLongId sp = siLongId (svInfo (wkView w)) \<and> slpPrices sp = wkPrices w \<and> slpHalt sp = h \<and> slpTargets sp = ts"
proof -
  let ?sizeOf = "foldl (\<lambda>m s. AList.update (show_int (ssLongId s)) s m) [] sizes"
  obtain w where w: "w \<in> set ws" "a \<in> set (fst (plan_series input (stepAside input ws) ?sizeOf w))"
    using assms(2) by (auto simp: set_orderActions planned_of_def Let_def by_rank_def)
  obtain ts h where t: "targets_of input (stepAside input ws) w (map_of ?sizeOf (key_of (wkView w))) = (ts, h)" by fastforce
  obtain v where "price_series env input sel (mtTripped mtm) v = Inr w"
    using assms(1) w(1) by (auto simp: made_of_def list_all2_conv_all_nth in_set_conv_nth)
  then have halt: "wkHalt w = None \<or> wkHalt w = Some HEpochWinddown \<or> wkPrices w = None"
    using price_series_prices(1) by blast
  have "snd (plan_series input (stepAside input ws) ?sizeOf w) \<in> set (tpSeries plan)"
    using assms(1,3) w(1) by (auto simp: made_of_def Let_def planned_of_def by_rank_def)
  then have "\<exists>sp \<in> set (tpSeries plan). slpLongId sp = siLongId (svInfo (wkView w)) \<and> slpPrices sp = wkPrices w \<and> slpHalt sp = h \<and> slpTargets sp = ts"
    by (rule rev_bexI) (simp add: plan_series_def Let_def t)
  with w t halt show ?thesis by (intro that) (auto simp: plan_series_def Let_def)
qed

lemma series_actions_sel [simp]:
  "sxTargets (series_actions_of input w ts) = ts" "sxLongId (series_actions_of input w ts) = siLongId (svInfo (wkView w))"
  "sxOrders (series_actions_of input w ts) = svOrders (wkView w)" "sxNow (series_actions_of input w ts) = tiNow input"
  by (simp_all add: series_actions_of_def Let_def)

lemma planned_quote:
  assumes "planTick env input = Inr plan"
  shows "TxPlace p \<in> set (tpTxs plan) \<Longrightarrow>
      \<exists>sp \<in> set (tpSeries plan). slpLongId sp = pcLongId p \<and> quote_allowed input sp (pcSlot p) (pcPrice p) (pcUnits p)"
    and "TxReplace r \<in> set (tpTxs plan) \<Longrightarrow>
      \<exists>sp \<in> set (tpSeries plan). slpLongId sp = rcLongId r \<and> quote_allowed input sp (rcSlot r) (rcPrice r) (rcUnits r)"
proof -
  obtain sel mtm ws sizeInput where m: "made_of env input plan sel mtm ws sizeInput" using assms by (rule planTick_made_of)
  let ?sizes = "sizes_of input (refusals_of env input sel ws) sizeInput"
  let ?ordered = "orderActions (map fst (planned_of input sel ws ?sizes))"
  have txs: "tpTxs plan = tick_txs input ?sizes ?ordered" using m by (simp add: made_of_def Let_def)
  have sound: "\<exists>sp \<in> set (tpSeries plan). slpLongId sp = l \<and> quote_allowed input sp s price units"
    if a: "a \<in> set ?ordered" and at_target: "\<And>x. a \<in> set (planSeriesActions x) \<Longrightarrow>
        \<exists>ts t. sxTargets x = Some ts \<and> ts s = Some t \<and> price = tgPrice t \<and> units = tgUnits t \<and> l = sxLongId x" for a l s price units
  proof -
    obtain w z ts h where w: "targets_of input (stepAside input ws) w z = (ts, h)"
        "wkHalt w = None \<or> wkHalt w = Some HEpochWinddown \<or> wkPrices w = None" "a \<in> set (planSeriesActions (series_actions_of input w ts))"
      and sp: "\<exists>sp \<in> set (tpSeries plan). slpLongId sp = siLongId (svInfo (wkView w)) \<and> slpPrices sp = wkPrices w \<and> slpHalt sp = h \<and> slpTargets sp = ts"
      using planned_action [OF m a refl] by metis
    obtain ts' t where t: "ts = Some ts'" "ts' s = Some t" "price = tgPrice t" "units = tgUnits t" "l = siLongId (svInfo (wkView w))"
      using at_target [OF w(3)] by auto
    have "wkPrices w \<noteq> None" using w(1) t(1) by (auto simp: targets_of_def split: option.splits)
    then have halt: "wkHalt w = None \<or> wkHalt w = Some HEpochWinddown" using w(2) by auto
    obtain q y where q: "wkPrices w = Some q" "sized_targets q y s = Some t"
        "\<not> crossesProtocol \<lparr>ptLongId = l, ptSide = side_of_slot s, ptPrice = price\<rparr> (protocol_book_of input)"
        "h \<in> {None, Some HEpochWinddown, Some HProtocolCross, Some HOtherAsker}"
        "h = Some HEpochWinddown \<longrightarrow> s = SlotResale" "h = Some HOtherAsker \<longrightarrow> s = SlotBid"
      using targets_of_some [OF w(1) [unfolded t(1)] t(2) halt] t(3,5) by auto
    obtain sp where p: "sp \<in> set (tpSeries plan)" "slpLongId sp = siLongId (svInfo (wkView w))" "slpPrices sp = wkPrices w" "slpHalt sp = h"
      using sp by blast
    have price: "case s of SlotBid \<Rightarrow> qrBid q = Some price | SlotWrite \<Rightarrow> qrAsk q = price | SlotResale \<Rightarrow> qrResale q = price" "0 < units"
      using sized_targets_some [OF q(2)] t(3,4) by (cases s; simp)+
    have l: "slpLongId sp = l" using p(2) t(5) by simp
    have "quote_allowed input sp s price units"
      unfolding quote_allowed_def p(3,4) q(1) option.case l using price q(3-6) by simp
    with p(1) l show ?thesis by blast
  qed
  show "TxPlace p \<in> set (tpTxs plan) \<Longrightarrow>
      \<exists>sp \<in> set (tpSeries plan). slpLongId sp = pcLongId p \<and> quote_allowed input sp (pcSlot p) (pcPrice p) (pcUnits p)"
    unfolding txs tick_txs_quote by (rule sound [of "Place p"]) (auto dest!: series_calls_target)
  show "TxReplace r \<in> set (tpTxs plan) \<Longrightarrow>
      \<exists>sp \<in> set (tpSeries plan). slpLongId sp = rcLongId r \<and> quote_allowed input sp (rcSlot r) (rcPrice r) (rcUnits r)"
    unfolding txs tick_txs_quote by (rule sound [of "Replace r"]) (auto dest!: series_calls_target)
qed

text \<open>
  C2: only a series that may be quoted is quoted. Every place and every replace of a tick carries the price of that slot
  in the quote of its series, for a positive size, crosses no order of another protocol account, and
  belongs to a series that no halt stops: during the wind-down of an epoch it is a resale, beside another
  maker's fillable ask it is a bid.
\<close>

theorem planTick_quotes_allowed:
  assumes "planTick env input = Inr plan"
  shows "(\<forall>p. TxPlace p \<in> set (tpTxs plan) \<longrightarrow>
      (\<exists>sp \<in> set (tpSeries plan). slpLongId sp = pcLongId p \<and> quote_allowed input sp (pcSlot p) (pcPrice p) (pcUnits p)))
    \<and> (\<forall>r. TxReplace r \<in> set (tpTxs plan) \<longrightarrow>
      (\<exists>sp \<in> set (tpSeries plan). slpLongId sp = rcLongId r \<and> quote_allowed input sp (rcSlot r) (rcPrice r) (rcUnits r)))"
  using planned_quote [OF assms] by blast

subsection \<open>Who may send, and the kill switch\<close>

text \<open>The ids of all cancels of a list of transactions.\<close>

definition tx_cancelled :: "mm_tx list \<Rightarrow> int list" where
  "tx_cancelled txs = concat (map (\<lambda>t. case t of TxCancel ids _ _ \<Rightarrow> ids | _ \<Rightarrow> []) txs)"

lemma tx_cancelled_append [simp]: "tx_cancelled (xs @ ys) = tx_cancelled xs @ tx_cancelled ys"
  by (simp add: tx_cancelled_def)

lemma concat_chunks: "0 < k \<Longrightarrow> concat (chunks k xs) = xs"
  by (induction k xs rule: chunks.induct) (subst chunks.simps, simp)

lemma chunks_sizes: "c \<in> set (chunks k xs) \<Longrightarrow> c \<noteq> [] \<and> length c \<le> k"
proof (induction k xs rule: chunks.induct)
  case (1 k xs)
  then show ?case by (cases "xs = [] \<or> k = 0") (auto simp: chunks.simps [of k xs])
qed

lemma cancel_txs_ids:
  "tx_cancelled (cancel_txs cs b) = concat (map ccOrderIds (filter (\<lambda>c. ccProtective c = b) cs))"
proof -
  have "tx_cancelled (cancel_txs cs b) = map fst (concat (map (\<lambda>c. map (\<lambda>i. (i, ccLongId c)) (ccOrderIds c)) (filter (\<lambda>c. ccProtective c = b) cs)))"
    unfolding cancel_txs_def Let_def tx_cancelled_def
    by (simp add: comp_def map_concat [symmetric] concat_chunks CANCEL_CHUNK_def)
  also have "\<dots> = concat (map ccOrderIds (filter (\<lambda>c. ccProtective c = b) cs))"
    by (simp add: map_concat comp_def)
  finally show ?thesis .
qed

lemma no_cancels [simp]:
  "tx_cancelled (sync_txs i z) = []" "tx_cancelled (close_txs i) = []" "tx_cancelled (redeem_txs i) = []"
  "tx_cancelled (claim_txs i) = []" "tx_cancelled (deposit_txs i) = []" "tx_cancelled (quote_txs as) = []"
proof -
  show "tx_cancelled (quote_txs as) = []" by (induction as) (auto simp: tx_cancelled_def split: mm_action.split)
qed (auto simp: tx_cancelled_def sync_txs_def close_txs_def redeem_txs_def claim_txs_def deposit_txs_def Let_def)

lemma cancels_in_ids: "set (cancelled_ids as) = (\<Union>c \<in> set (cancels_in as). set (ccOrderIds c))"
  by (induction as) (auto split: mm_action.splits)

lemma cancelled_ids_set: "set (cancelled_ids as) = {i. \<exists>c. Cancel c \<in> set as \<and> i \<in> set (ccOrderIds c)}"
  by (induction as) (auto split: mm_action.splits)

lemma tick_cancelled:
  "set (tx_cancelled (tick_txs input z as)) = (if vvIsQuoter (tiVault input) then set (cancelled_ids as) else {})"
  by (auto simp: tick_txs_def cancel_txs_ids cancels_in_ids) (auto simp: tx_cancelled_def)

lemma killed_unpriced: "tiKilled input \<Longrightarrow> price_series env input sel m v = Inr w \<Longrightarrow> wkPrices w = None"
  by (auto simp: price_series_def Let_def haltOf_def haltBeforeFair_def haltContext_def)

lemma planned_cancelled:
  "set (cancelled_ids (orderActions (map fst (planned_of input sel ws sizes)))) =
     (\<Union>w \<in> set ws. set (cancelled_ids (fst (plan_series input (stepAside input ws)
        (foldl (\<lambda>m s. AList.update (show_int (ssLongId s)) s m) [] sizes) w))))"
  by (auto simp: cancelled_ids_set set_orderActions planned_of_def Let_def by_rank_def)

text \<open>The orders the kill switch must cancel: live, or expired with escrow still in the book.\<close>

definition kill_targets :: "tick_input \<Rightarrow> int set" where
  "kill_targets input = (\<Union>v \<in> set (tiSeries input). loId ` {o' \<in> set (svOrders v). isKillTarget o' (tiNow input)})"

lemma kill_cancels:
  assumes "made_of env input plan sel mtm ws sizeInput" "tiKilled input" "vvIsQuoter (tiVault input)"
  shows "set (tx_cancelled (tpTxs plan)) = kill_targets input"
proof -
  have ws: "list_all2 (\<lambda>v w. price_series env input sel (mtTripped mtm) v = Inr w) (tiSeries input) ws"
    and txs: "set (tx_cancelled (tpTxs plan)) = set (cancelled_ids (orderActions (map fst
        (planned_of input sel ws (sizes_of input (refusals_of env input sel ws) sizeInput)))))"
    using assms(1,3) by (simp_all add: made_of_def Let_def tick_cancelled)
  have one: "set (cancelled_ids (fst (plan_series input aside m w))) = loId ` {o' \<in> set (svOrders (wkView w)). isKillTarget o' (tiNow input)}"
    if w: "w \<in> set ws" for w aside m
  proof -
    obtain v where "price_series env input sel (mtTripped mtm) v = Inr w"
      using ws w by (auto simp: list_all2_conv_all_nth in_set_conv_nth)
    then have "wkPrices w = None" using assms(2) killed_unpriced by blast
    then have "targets_of input aside w (map_of m (key_of (wkView w))) = (None, wkHalt w)" by (simp add: targets_of_def)
    then show ?thesis
      using halted_cancels [of "series_actions_of input w None"] by (auto simp: plan_series_def Let_def)
  qed
  have "(\<Union>w \<in> set ws. loId ` {o' \<in> set (svOrders (wkView w)). isKillTarget o' (tiNow input)}) = kill_targets input"
    unfolding kill_targets_def priced_views [OF ws, symmetric] by auto
  then show ?thesis unfolding txs planned_cancelled by (simp add: one)
qed

text \<open>
  the kill switch cancels everything and only cancels. A signer without the role plans no transaction at all and books no
  escrow; a killed bot plans only cancels, and they name exactly the live orders and the expired
  ones that still hold escrow, over every series it manages.
\<close>

theorem planTick_killed:
  assumes "planTick env input = Inr plan"
  shows "(\<not> vvIsQuoter (tiVault input) \<longrightarrow> tpTxs plan = [] \<and> orPlanned (tpOutflow plan) = 0)
    \<and> (tiKilled input \<longrightarrow> (\<forall>t \<in> set (tpTxs plan). \<exists>ids longIds b. t = TxCancel ids longIds b))
    \<and> (tiKilled input \<and> vvIsQuoter (tiVault input) \<longrightarrow> set (tx_cancelled (tpTxs plan)) = kill_targets input)"
proof -
  obtain sel mtm ws sizeInput where m: "made_of env input plan sel mtm ws sizeInput" using assms by (rule planTick_made_of)
  then have "\<not> vvIsQuoter (tiVault input) \<Longrightarrow> tpTxs plan = [] \<and> orPlanned (tpOutflow plan) = 0"
    "tiKilled input \<Longrightarrow> \<forall>t \<in> set (tpTxs plan). \<exists>ids longIds b. t = TxCancel ids longIds b"
    by (auto simp: made_of_def Let_def tick_txs_def housekeeping_def cancel_txs_def)
  then show ?thesis using kill_cancels [OF m] by blast
qed

subsection \<open>The bids of a tick are funded\<close>

definition replace_escrow :: "replace_call \<Rightarrow> usdg6" where
  "replace_escrow r = (if rcSlot r = SlotBid then bidEscrowOf (rcPrice r) (rcUnits r) else 0)"

definition place_escrow :: "place_call \<Rightarrow> usdg6" where
  "place_escrow p = (if pcSlot p = SlotBid then bidEscrowOf (pcPrice p) (pcUnits p) else 0)"

text \<open>The escrow that the bids a transaction places, or replaces with, hold.\<close>

definition tx_escrow :: "mm_tx \<Rightarrow> usdg6" where
  "tx_escrow t = (case t of TxReplace r \<Rightarrow> replace_escrow r | TxPlace p \<Rightarrow> place_escrow p | _ \<Rightarrow> 0)"

definition action_escrow :: "mm_action \<Rightarrow> usdg6" where
  "action_escrow a = (case a of Replace r \<Rightarrow> replace_escrow r | Place p \<Rightarrow> place_escrow p | Cancel _ \<Rightarrow> 0)"

lemma action_escrow_parts:
  "sum_list (map action_escrow as) = sum_list (map replace_escrow (replaces_in as)) + sum_list (map place_escrow (places_in as))"
  by (induction as) (auto simp: action_escrow_def split: mm_action.split)

lemma bidEscrow_nonneg: "0 \<le> p \<Longrightarrow> 0 \<le> u \<Longrightarrow> 0 \<le> bidEscrowOf p u"
  by (simp add: bidEscrowOf_def UNITS_PER_SHARE_def pos_imp_zdiv_nonneg_iff)

definition slot_escrow :: "targets \<Rightarrow> usdg6" where
  "slot_escrow ts = (case ts SlotBid of None \<Rightarrow> 0 | Some t \<Rightarrow> bidEscrowOf (tgPrice t) (tgUnits t))"

lemma sum_zeros: "(\<And>x. x \<in> set xs \<Longrightarrow> f x = 0) \<Longrightarrow> sum_list (map f xs) = (0 :: int)"
  by (induction xs) simp_all

lemma other_slots_free:
  "s \<noteq> SlotBid \<Longrightarrow> sum_list (map replace_escrow (scReplaces (slot_calls_of x ts floors s))) = 0"
  "s \<noteq> SlotBid \<Longrightarrow> sum_list (map place_escrow (scPlaces (slot_calls_of x ts floors s))) = 0"
  using slot_calls_slots [of _ x ts floors s] by (auto simp: replace_escrow_def place_escrow_def intro!: sum_zeros)

lemma bid_slot_escrow:
  assumes "\<And>t. ts SlotBid = Some t \<Longrightarrow> 0 \<le> tgPrice t \<and> 0 \<le> tgUnits t"
  shows "sum_list (map replace_escrow (scReplaces (slot_calls_of x ts floors SlotBid)))
    + sum_list (map place_escrow (scPlaces (slot_calls_of x ts floors SlotBid))) \<le> slot_escrow ts"
  using assms bidEscrow_nonneg
  by (auto simp: slot_calls_of_def slot_escrow_def replace_escrow_def place_escrow_def place_of_def Let_def
      split: option.splits list.splits prod.splits if_splits)

lemma series_escrow:
  assumes "\<And>ts t. sxTargets x = Some ts \<Longrightarrow> ts SlotBid = Some t \<Longrightarrow> 0 \<le> tgPrice t \<and> 0 \<le> tgUnits t"
  shows "sum_list (map action_escrow (planSeriesActions x)) \<le> (case sxTargets x of None \<Rightarrow> 0 | Some ts \<Rightarrow> slot_escrow ts)"
proof (cases "sxTargets x = None \<or> sxAskFloors x = None")
  case True
  have "0 \<le> (case sxTargets x of None \<Rightarrow> 0 | Some ts \<Rightarrow> slot_escrow ts)"
    using assms bidEscrow_nonneg by (auto simp: slot_escrow_def split: option.split)
  then show ?thesis using halted_plan [OF True] by (simp add: action_escrow_parts)
next
  case False
  then obtain ts floors where t: "sxTargets x = Some ts" "sxAskFloors x = Some floors" by auto
  have "sum_list (map action_escrow (planSeriesActions x))
      = sum_list (map replace_escrow (scReplaces (slot_calls_of x ts floors SlotBid)))
        + sum_list (map place_escrow (scPlaces (slot_calls_of x ts floors SlotBid)))"
    unfolding action_escrow_parts plan_replaces [OF t] plan_places [OF t] by (simp add: other_slots_free)
  also have "\<dots> \<le> slot_escrow ts" using assms t(1) by (intro bid_slot_escrow) blast
  finally show ?thesis by (simp add: t(1))
qed

lemma tick_txs_escrow:
  "sum_list (map tx_escrow (tick_txs input z as)) =
     (if vvIsQuoter (tiVault input) \<and> \<not> tiKilled input then sum_list (map action_escrow as) else 0)"
proof -
  have q: "sum_list (map tx_escrow (quote_txs as)) = sum_list (map action_escrow as)"
    by (induction as) (auto simp: tx_escrow_def action_escrow_def split: mm_action.split)
  have z: "tx_escrow x = 0" if "\<And>p r. x \<noteq> TxPlace p \<and> x \<noteq> TxReplace r" for x
    using that by (cases x) (auto simp: tx_escrow_def)
  have "sum_list (map tx_escrow (cancel_txs cs b)) = 0" "sum_list (map tx_escrow (sync_txs input z)) = 0" "sum_list (map tx_escrow (close_txs input)) = 0"
    "sum_list (map tx_escrow (redeem_txs input)) = 0" "sum_list (map tx_escrow (claim_txs input)) = 0" "sum_list (map tx_escrow (deposit_txs input)) = 0" for cs b
    by (intro sum_zeros z not_housekeeping_quotes [of _ cs b input z], simp)+
  then show ?thesis by (simp add: tick_txs_def q)
qed

lemma ordered_escrow: "sum_list (map action_escrow (orderActions xss)) = sum_list (map (\<lambda>as. sum_list (map action_escrow as)) xss)"
proof -
  have "sum_list (map action_escrow (orderActions xss)) = sum_list (map action_escrow (concat xss))"
    using orderActions_mset [of xss] by (metis mset_map sum_mset_sum_list)
  also have "\<dots> = sum_list (map (\<lambda>as. sum_list (map action_escrow as)) xss)" by (induction xss) simp_all
  finally show ?thesis .
qed

lemma quotePrices_bid_pos: "quotePrices input = Inr q \<Longrightarrow> qrBid q = Some b \<Longrightarrow> 0 < b"
proof -
  assume "quotePrices input = Inr q" "qrBid q = Some b"
  then show "0 < b"
    by (elim quotePrices_parts) (auto dest: core_bid_bounds(1) simp: PRICE_TICK_def)
qed

lemma withSpotLag_bid_pos:
  assumes "withSpotLag prices lagged lag = (q, l)" "qrBid q = Some b" "\<And>x. qrBid prices = Some x \<Longrightarrow> 0 < x"
  shows "0 < b"
  using assms by (auto simp: withSpotLag_def Let_def PRICE_TICK_def split: option.splits if_splits)

lemma price_series_bid_pos:
  assumes "price_series env input sel m v = Inr w" "wkPrices w = Some q" "qrBid q = Some b"
  shows "0 < b"
proof -
  obtain f quoted spot floors cap lag added where "price_quoted env input v f quoted spot floors cap = Inr (Some q, lag, added)"
    using assms(1,2) by (auto simp: price_series_def Let_def split: sum.splits option.splits bool.splits prod.splits)
  then show ?thesis
    using assms(3)
    by (auto simp: price_quoted_def Let_def split: sum.splits option.splits prod.splits if_splits
        dest: quotePrices_bid_pos withSpotLag_bid_pos [OF _ _ quotePrices_bid_pos])
qed

text \<open>Chain amounts are not negative.\<close>

definition view_ok :: "series_view \<Rightarrow> bool" where
  "view_ok v = (0 \<le> siStrike (svInfo v)
     \<and> (case svExposure v of None \<Rightarrow> True | Some e \<Rightarrow> 0 \<le> exLongs e \<and> 0 \<le> exShorts e \<and> 0 \<le> exResale e))"

lemma size_series_fields:
  assumes "size_series_of input aside refused w = Inr s"
  shows "zsLongId s = siLongId (svInfo (wkView w))" and "zsBidPrice s = None \<or> (\<exists>q. wkPrices w = Some q \<and> zsBidPrice s = qrBid q)"
    and "view_ok (wkView w) \<Longrightarrow> size_series_ok s"
  using assms
  by (auto simp: size_series_of_def closePair_def view_ok_def size_series_ok_def Let_def min_def split: option.splits prod.splits if_splits)

lemma size_loop_bid_ids:
  "list_all2 (\<lambda>s z. ssLongId z = zsLongId s \<and> (zsBidPrice s = None \<longrightarrow> ssBid z = 0)) ss (fst (size_loop limits fa ss r))"
proof (induction ss arbitrary: r)
  case (Cons s ss)
  have "ssLongId (fst (size_step limits fa s r)) = zsLongId s \<and> (zsBidPrice s = None \<longrightarrow> ssBid (fst (size_step limits fa s r)) = 0)"
    by (auto simp: size_step_def size_bid_def Let_def split: prod.splits option.splits)
  then show ?case using Cons.IH by (simp add: split_beta Let_def)
qed simp

lemma keyed_fold:
  "map_of (foldl (\<lambda>m s. AList.update (k s) s m) m xs) y = (case filter (\<lambda>s. k s = y) (rev xs) of [] \<Rightarrow> map_of m y | s # _ \<Rightarrow> Some s)"
proof (induction xs arbitrary: m rule: rev_induct)
  case (snoc x xs)
  then show ?case by (auto split: list.split)
qed simp

lemma keyed_fold_distinct: "distinct (map k xs) \<Longrightarrow> s \<in> set xs \<Longrightarrow> map_of (foldl (\<lambda>m s. AList.update (k s) s m) m xs) (k s) = Some s"
proof -
  assume d: "distinct (map k xs)" and s: "s \<in> set xs"
  have "filter (\<lambda>x. k x = k s) (rev xs) = [s]" using d s
    by (induction xs) (auto simp: filter_empty_conv rev_image_eqI)
  then show ?thesis by (simp add: keyed_fold)
qed

lemma sized_ok:
  assumes "list_all2 (\<lambda>w s. size_series_of input aside refused w = Inr s) quoted sizeInput" "list_all (\<lambda>w. view_ok (wkView w)) quoted"
  shows "list_all size_series_ok sizeInput"
  using assms
proof (induction rule: list_all2_induct)
  case (Cons w ws s ss)
  have "size_series_ok s" using Cons.hyps(1) by (rule size_series_fields(3)) (use Cons.prems in simp)
  then show ?case using Cons.IH Cons.prems by simp
qed simp

lemma sizes_aligned:
  assumes "list_all2 (\<lambda>w s. size_series_of input aside refused w = Inr s) quoted sizeInput"
    and "list_all (\<lambda>w. view_ok (wkView w)) quoted" and "0 \<le> zlUsdgBudget limits"
  shows "list_all2 (\<lambda>w (s, z). ssLongId z = siLongId (svInfo (wkView w)) \<and> 0 \<le> ssBid z
      \<and> (zsBidPrice s = None \<and> ssBid z = 0 \<or> (\<exists>q. wkPrices w = Some q \<and> zsBidPrice s = qrBid q))) quoted (zip sizeInput (planSizes sizeInput limits))"
    and "sum2 bid_escrow sizeInput (planSizes sizeInput limits) \<le> zlUsdgBudget limits"
    and "sum2 bid_escrow sizeInput (planSizes sizeInput limits) \<le> max (zlOutflowBudget limits) 0"
proof -
  obtain r' where l: "size_loop limits (free_actual limits) sizeInput (start_sizes limits) = (planSizes sizeInput limits, r')" by (rule plan_loop)
  have len: "length quoted = length sizeInput" using assms(1) by (rule list_all2_lengthD)
  note ok = sized_ok [OF assms(1,2)]
  have start: "0 \<le> zrUsdgLeft (start_sizes limits)" "0 \<le> zrOutflowLeft (start_sizes limits)"
    "zrUsdgLeft (start_sizes limits) = zlUsdgBudget limits" "zrOutflowLeft (start_sizes limits) = max (zlOutflowBudget limits) 0"
    using assms(3) by (simp_all add: start_sizes_def Let_def)
  note c = size_loop_caps [OF l ok start(1,2), unfolded start(3,4)]
  have caps: "list_all2 (\<lambda>s z. 0 \<le> ssBid z) sizeInput (planSizes sizeInput limits)"
    by (rule list_all2_mono [OF conjunct1 [OF c]]) simp
  have ids: "list_all2 (\<lambda>s z. ssLongId z = zsLongId s \<and> (zsBidPrice s = None \<longrightarrow> ssBid z = 0)) sizeInput (planSizes sizeInput limits)"
    using size_loop_bid_ids [of sizeInput limits "free_actual limits" "start_sizes limits"] by (simp add: l)
  show "list_all2 (\<lambda>w (s, z). ssLongId z = siLongId (svInfo (wkView w)) \<and> 0 \<le> ssBid z
      \<and> (zsBidPrice s = None \<and> ssBid z = 0 \<or> (\<exists>q. wkPrices w = Some q \<and> zsBidPrice s = qrBid q))) quoted (zip sizeInput (planSizes sizeInput limits))"
    unfolding list_all2_conv_all_nth
  proof (intro conjI allI impI)
    show "length quoted = length (zip sizeInput (planSizes sizeInput limits))" using len list_all2_lengthD [OF caps] by simp
    fix i assume i: "i < length quoted"
    have f: "size_series_of input aside refused (quoted ! i) = Inr (sizeInput ! i)" using assms(1) i by (rule list_all2_nthD)
    have n: "0 \<le> ssBid (planSizes sizeInput limits ! i)" "ssLongId (planSizes sizeInput limits ! i) = zsLongId (sizeInput ! i)"
      "zsBidPrice (sizeInput ! i) = None \<Longrightarrow> ssBid (planSizes sizeInput limits ! i) = 0"
      using i len list_all2_nthD [OF caps, of i] list_all2_nthD [OF ids, of i] by simp_all
    have z: "zip sizeInput (planSizes sizeInput limits) ! i = (sizeInput ! i, planSizes sizeInput limits ! i)"
      using i len list_all2_lengthD [OF caps] by simp
    show "case zip sizeInput (planSizes sizeInput limits) ! i of
      (s, z) \<Rightarrow> ssLongId z = siLongId (svInfo (wkView (quoted ! i))) \<and> 0 \<le> ssBid z
        \<and> (zsBidPrice s = None \<and> ssBid z = 0 \<or> (\<exists>q. wkPrices (quoted ! i) = Some q \<and> zsBidPrice s = qrBid q))"
      unfolding z prod.case using n size_series_fields(1,2) [OF f] by fastforce
  qed
  show "sum2 bid_escrow sizeInput (planSizes sizeInput limits) \<le> zlUsdgBudget limits"
    "sum2 bid_escrow sizeInput (planSizes sizeInput limits) \<le> max (zlOutflowBudget limits) 0" using c by simp_all
qed

lemma add_gate_caps_sel [simp]: "ssLongId (add_gate_caps r z) = ssLongId z" "ssBid (add_gate_caps r z) = ssBid z"
  by (auto simp: add_gate_caps_def split: option.split prod.split)

text \<open>The escrow of the bid that the sizes of a series allow.\<close>

definition bid_value :: "(string \<times> series_sizes) list \<Rightarrow> working \<Rightarrow> usdg6" where
  "bid_value sizeOf w =
     (case (wkPrices w, map_of sizeOf (key_of (wkView w))) of
        (Some q, Some z) \<Rightarrow> (case qrBid q of Some b \<Rightarrow> bidEscrowOf b (ssBid z) | None \<Rightarrow> 0)
      | _ \<Rightarrow> 0)"

lemma plan_series_value:
  assumes "price_series env input sel m v = Inr w" "\<And>z. z \<in> ran (map_of sizeOf) \<Longrightarrow> 0 \<le> ssBid z"
  shows "sum_list (map action_escrow (fst (plan_series input aside sizeOf w))) \<le> bid_value sizeOf w"
proof -
  let ?z = "map_of sizeOf (key_of (wkView w))"
  obtain ts h where t: "targets_of input aside w ?z = (ts, h)" by fastforce
  have zn: "0 \<le> ssBid z" if "?z = Some z" for z using assms(2) that by (auto simp: ran_def)
  have bn: "0 < b" if "wkPrices w = Some q" "qrBid q = Some b" for q b using price_series_bid_pos [OF assms(1)] that .
  have vn: "0 \<le> bid_value sizeOf w"
    using zn bn bidEscrow_nonneg by (auto simp: bid_value_def less_imp_le split: option.split)
  have target: "0 \<le> tgPrice x \<and> 0 \<le> tgUnits x \<and> bidEscrowOf (tgPrice x) (tgUnits x) = bid_value sizeOf w"
    if ts': "ts = Some ts'" "ts' SlotBid = Some x" for ts' x
  proof -
    have "wkPrices w \<noteq> None" using t ts' by (auto simp: targets_of_def split: option.splits)
    then have "wkHalt w = None \<or> wkHalt w = Some HEpochWinddown" using price_series_prices(1) [OF assms(1)] by simp
    from targets_of_some [OF t [unfolded ts'(1)] ts'(2) this] obtain q y where q: "wkPrices w = Some q" "?z = Some y" "sized_targets q y SlotBid = Some x"
      by blast
    from sized_targets_some [OF q(3)] have "0 < tgUnits x" "qrBid q = Some (tgPrice x)" "tgUnits x = ssBid y" by simp_all
    then show ?thesis using q(1,2) bn [OF q(1)] by (simp add: bid_value_def less_imp_le)
  qed
  have p: "fst (plan_series input aside sizeOf w) = planSeriesActions (series_actions_of input w ts)"
    by (simp add: plan_series_def Let_def t)
  have "sum_list (map action_escrow (planSeriesActions (series_actions_of input w ts))) \<le> (case ts of None \<Rightarrow> 0 | Some x \<Rightarrow> slot_escrow x)"
    using series_escrow [of "series_actions_of input w ts"] target by auto
  also have "\<dots> \<le> bid_value sizeOf w" using vn target by (auto simp: slot_escrow_def split: option.split)
  finally show ?thesis by (simp add: p)
qed

lemma sum_list_bound: "list_all2 (\<lambda>x y. f x \<le> g y) xs ys \<Longrightarrow> sum_list (map f xs) \<le> (sum_list (map g ys) :: int)"
  by (induction rule: list_all2_induct) simp_all

lemma sum_list_equal: "list_all2 (\<lambda>x y. f x = g y) xs ys \<Longrightarrow> sum_list (map f xs) = (sum_list (map g ys) :: int)"
  by (induction rule: list_all2_induct) simp_all

lemma sum_sorted: "sum_list (map f (js_sort c xs)) = (sum_list (map f xs) :: int)"
  by (metis mset_js_sort mset_map sum_mset_sum_list)

lemma sum_filtered: "(\<And>x. x \<in> set xs \<Longrightarrow> \<not> P x \<Longrightarrow> f x = 0) \<Longrightarrow> sum_list (map f (filter P xs)) = (sum_list (map f xs) :: int)"
  by (induction xs) simp_all

lemma keyed_fold_ran: "z \<in> ran (map_of (foldl (\<lambda>m s. AList.update (k s) s m) [] xs)) \<Longrightarrow> z \<in> set xs"
proof -
  assume "z \<in> ran (map_of (foldl (\<lambda>m s. AList.update (k s) s m) [] xs))"
  then obtain y where "(case filter (\<lambda>s. k s = y) (rev xs) of [] \<Rightarrow> map_of [] y | s # _ \<Rightarrow> Some s) = Some z"
    unfolding ran_def keyed_fold by blast
  then obtain rest where "filter (\<lambda>s. k s = y) (rev xs) = z # rest" by (cases "filter (\<lambda>s. k s = y) (rev xs)") auto
  then have "z \<in> set (filter (\<lambda>s. k s = y) (rev xs))" by simp
  then show ?thesis by simp
qed

lemma bid_escrow_eq: "0 \<le> or_else (zsBidPrice s) 0 \<Longrightarrow> 0 \<le> ssBid z \<Longrightarrow>
    bidEscrowOf (or_else (zsBidPrice s) 0) (ssBid z) = bid_escrow s z \<and> 0 \<le> bid_escrow s z"
  by (simp add: bidEscrowOf_def bid_escrow_def UNITS_PER_SHARE_def pos_imp_zdiv_nonneg_iff)

text \<open>What one size is worth: its escrow, and the bid value of its series.\<close>

lemma size_value:
  assumes "ssLongId z = siLongId (svInfo (wkView w))" "0 \<le> ssBid z" "map_of sizeOf (show_int (ssLongId z)) = Some z'" "ssBid z' = ssBid z"
    and "zsBidPrice s = None \<and> ssBid z = 0 \<or> (\<exists>q. wkPrices w = Some q \<and> zsBidPrice s = qrBid q)"
  shows "bid_value sizeOf w = bidEscrowOf (or_else (zsBidPrice s) 0) (ssBid z)"
  using assms by (auto simp: bid_value_def key_of_def bidEscrowOf_def split: option.splits)

lemma aligned_keys:
  assumes "list_all2 (\<lambda>w (s, z). ssLongId z = siLongId (svInfo (wkView w)) \<and> Q w s z) quoted (zip ss zs)" "length ss = length zs"
  shows "map (\<lambda>z. show_int (ssLongId z)) zs = map (key_of \<circ> wkView) quoted"
proof (rule nth_equalityI)
  have len: "length quoted = length zs" using list_all2_lengthD [OF assms(1)] assms(2) by simp
  then show "length (map (\<lambda>z. show_int (ssLongId z)) zs) = length (map (key_of \<circ> wkView) quoted)" by simp
  fix i assume "i < length (map (\<lambda>z. show_int (ssLongId z)) zs)"
  then have i: "i < length quoted" "i < length zs" using len by simp_all
  show "map (\<lambda>z. show_int (ssLongId z)) zs ! i = map (key_of \<circ> wkView) quoted ! i"
    using list_all2_nthD [OF assms(1) i(1)] i assms(2) by (simp add: key_of_def)
qed

lemma distinct_js_sort_map: "distinct (map f (js_sort c xs)) = distinct (map f xs)"
  by (rule mset_eq_imp_distinct_iff) simp

lemma planned_value:
  assumes m: "made_of env input plan sel mtm ws sizeInput" and views: "list_all view_ok (tiSeries input)" and keys: "distinct (map key_of (tiSeries input))"
  defines "limits \<equiv> size_limits_of input" and "sizes \<equiv> sizes_of input (refusals_of env input sel ws) sizeInput"
  shows "sum_list (map action_escrow (orderActions (map fst (planned_of input sel ws sizes)))) \<le> planned_escrow sizeInput sizes"
    and "planned_escrow sizeInput sizes = sum2 bid_escrow sizeInput (planSizes sizeInput limits)"
    and "0 \<le> planned_escrow sizeInput sizes"
    and "sum2 bid_escrow sizeInput (planSizes sizeInput limits) \<le> zlUsdgBudget limits"
    and "sum2 bid_escrow sizeInput (planSizes sizeInput limits) \<le> max (zlOutflowBudget limits) 0"
proof -
  let ?refused = "refusals_of env input sel ws"
  let ?quoted = "quoted_of sel ws"
  let ?plain = "planSizes sizeInput limits"
  define sizeOf where "sizeOf = foldl (\<lambda>m s. AList.update (show_int (ssLongId s)) s m) [] sizes"
  have sizes: "sizes = map (add_gate_caps ?refused) ?plain" by (simp add: sizes_def sizes_of_def limits_def)
  have ws: "list_all2 (\<lambda>v w. price_series env input sel (mtTripped mtm) v = Inr w) (tiSeries input) ws"
    and si: "list_all2 (\<lambda>w s. size_series_of input (stepAside input ws) ?refused w = Inr s) ?quoted sizeInput"
    using m by (simp_all add: made_of_def)
  have vs: "map wkView ws = tiSeries input" using ws by (rule priced_views)
  have qset: "set ?quoted \<subseteq> set ws" by (auto simp: quoted_of_def by_rank_def)
  have vok: "list_all (\<lambda>w. view_ok (wkView w)) ?quoted"
    using qset views unfolding vs [symmetric] by (auto simp: list_all_iff)
  have budget: "0 \<le> zlUsdgBudget limits" by (simp add: limits_def size_limits_of_def bidBudget_def Let_def)
  note al = sizes_aligned [OF si vok budget]
  have len: "length sizeInput = length ?quoted" "length ?plain = length ?quoted"
    using list_all2_lengthD [OF si] size_loop_length [of limits "free_actual limits" sizeInput "start_sizes limits"] by (simp_all add: planSizes_def)
  have keys_eq: "map (\<lambda>z. show_int (ssLongId z)) ?plain = map (key_of \<circ> wkView) ?quoted"
    using al(1) by (rule aligned_keys) (simp add: len)
  have "distinct (map (key_of \<circ> wkView) ws)" using keys unfolding vs [symmetric] by simp
  then have "distinct (map (key_of \<circ> wkView) ?quoted)"
    unfolding quoted_of_def by_rank_def distinct_js_sort_map by (rule distinct_map_filter)
  then have d: "distinct (map (\<lambda>z. show_int (ssLongId z)) sizes)"
    using keys_eq by (simp add: sizes comp_def)
  have look: "map_of sizeOf (show_int (ssLongId z)) = Some (add_gate_caps ?refused z)" if "z \<in> set ?plain" for z
    using keyed_fold_distinct [OF d, of "add_gate_caps ?refused z" "[]"] that by (simp add: sizes sizeOf_def)
  have val: "list_all2 (\<lambda>w sz. bid_value sizeOf w = bidEscrowOf (or_else (zsBidPrice (fst sz)) 0) (ssBid (snd sz))) ?quoted (zip sizeInput ?plain)"
  proof (rule list_all2_all_nthI)
    fix i assume i: "i < length ?quoted"
    have z: "zip sizeInput ?plain ! i = (sizeInput ! i, ?plain ! i)" using i len by simp
    have p: "?plain ! i \<in> set ?plain" using i len by simp
    show "bid_value sizeOf (?quoted ! i) = bidEscrowOf (or_else (zsBidPrice (fst (zip sizeInput ?plain ! i))) 0) (ssBid (snd (zip sizeInput ?plain ! i)))"
      using list_all2_nthD [OF al(1) i] unfolding z prod.case fst_conv snd_conv
      by (elim conjE) (rule size_value, assumption, assumption, rule look [OF p], simp, assumption)
  qed (simp add: len)
  have zero: "bid_value sizeOf w = 0" if "wkPrices w = None" for w using that by (simp add: bid_value_def)
  have "sum_list (map (bid_value sizeOf) ws) = sum_list (map (bid_value sizeOf) ?quoted)"
    unfolding quoted_of_def by_rank_def sum_sorted by (rule sum_filtered [symmetric]) (simp add: zero)
  also have "\<dots> = sum_list (map (\<lambda>sz. bidEscrowOf (or_else (zsBidPrice (fst sz)) 0) (ssBid (snd sz))) (zip sizeInput ?plain))"
    using val by (rule sum_list_equal)
  also have "\<dots> = planned_escrow sizeInput sizes"
    by (simp add: planned_escrow_def sizes zip_map2 case_prod_unfold comp_def)
  finally have total: "sum_list (map (bid_value sizeOf) ws) = planned_escrow sizeInput sizes" .
  have each: "0 \<le> ssBid (?plain ! i) \<and> bidEscrowOf (or_else (zsBidPrice (sizeInput ! i)) 0) (ssBid (?plain ! i)) = bid_escrow (sizeInput ! i) (?plain ! i)
      \<and> 0 \<le> bid_escrow (sizeInput ! i) (?plain ! i)" if i: "i < length ?quoted" for i
  proof -
    have "?quoted ! i \<in> set ws" using qset i by auto
    then obtain v where v: "price_series env input sel (mtTripped mtm) v = Inr (?quoted ! i)"
      using ws by (auto simp: list_all2_conv_all_nth in_set_conv_nth)
    have z: "zip sizeInput ?plain ! i = (sizeInput ! i, ?plain ! i)" using i len by simp
    have a: "0 \<le> ssBid (?plain ! i)" "zsBidPrice (sizeInput ! i) = None \<or> (\<exists>q. wkPrices (?quoted ! i) = Some q \<and> zsBidPrice (sizeInput ! i) = qrBid q)"
      using list_all2_nthD [OF al(1) i] unfolding z prod.case by blast+
    have "0 \<le> or_else (zsBidPrice (sizeInput ! i)) 0"
      using a(2) price_series_bid_pos [OF v] by (cases "zsBidPrice (sizeInput ! i)") (auto simp: less_imp_le)
    then show ?thesis using a(1) bid_escrow_eq by blast
  qed
  have zn: "0 \<le> ssBid z" if z: "z \<in> ran (map_of sizeOf)" for z
  proof -
    obtain y where y: "y \<in> set ?plain" "z = add_gate_caps ?refused y" using keyed_fold_ran [OF z [unfolded sizeOf_def]] by (auto simp: sizes)
    then obtain i where "i < length ?quoted" "y = ?plain ! i" using len by (auto simp: in_set_conv_nth)
    then show ?thesis using each y(2) by simp
  qed
  have "sum_list (map action_escrow (orderActions (map fst (planned_of input sel ws sizes))))
      = sum_list (map (\<lambda>w. sum_list (map action_escrow (fst (plan_series input (stepAside input ws) sizeOf w)))) ws)"
    by (simp add: ordered_escrow planned_of_def Let_def sizeOf_def [symmetric] comp_def by_rank_def sum_sorted)
  also have "\<dots> \<le> sum_list (map (bid_value sizeOf) ws)"
  proof (rule sum_list_mono)
    fix w assume "w \<in> set ws"
    then obtain v where "price_series env input sel (mtTripped mtm) v = Inr w"
      using ws by (auto simp: list_all2_conv_all_nth in_set_conv_nth)
    then show "sum_list (map action_escrow (fst (plan_series input (stepAside input ws) sizeOf w))) \<le> bid_value sizeOf w"
      using zn by (rule plan_series_value)
  qed
  finally show "sum_list (map action_escrow (orderActions (map fst (planned_of input sel ws sizes)))) \<le> planned_escrow sizeInput sizes"
    by (simp only: total)
  have "map2 (\<lambda>s z. bidEscrowOf (or_else (zsBidPrice s) 0) (ssBid z)) sizeInput sizes = map2 bid_escrow sizeInput ?plain"
    using each len by (intro nth_equalityI) (simp_all add: sizes)
  then show eq: "planned_escrow sizeInput sizes = sum2 bid_escrow sizeInput ?plain" by (simp add: planned_escrow_def sum2_def)
  have "0 \<le> x" if "x \<in> set (map2 bid_escrow sizeInput ?plain)" for x
    using that each len by (auto simp: in_set_conv_nth)
  then show "0 \<le> planned_escrow sizeInput sizes" unfolding eq sum2_def by (rule sum_list_nonneg)
  show "sum2 bid_escrow sizeInput ?plain \<le> zlUsdgBudget limits" "sum2 bid_escrow sizeInput ?plain \<le> max (zlOutflowBudget limits) 0"
    using al(2,3) by simp_all
qed

text \<open>
  C3: the bids of a tick are funded. What the bids it places, and the bids it replaces others with, hold in escrow together
  is at most what the sizes planned, and that is at most the wallet with the live bids' escrow back less
  what belongs to depositors, and at most what the outflow cap leaves.
\<close>

theorem planTick_bids_funded:
  assumes "planTick env input = Inr plan" "list_all view_ok (tiSeries input)" "distinct (map key_of (tiSeries input))"
  shows "sum_list (map tx_escrow (tpTxs plan)) \<le> orPlanned (tpOutflow plan)
    \<and> orPlanned (tpOutflow plan) \<le> max 0 (vvUsdgWallet (tiVault input) + live_bid_escrow input - or_else (val_of (vvUsdgReserved (tiVault input))) 0)
    \<and> orPlanned (tpOutflow plan) \<le> orBudget (tpOutflow plan)
    \<and> orBudget (tpOutflow plan) = budgetFor (vlMaxDailyOutflow (vvLimits (tiVault input))) (vvOutflowUsed (tiVault input)) (live_bid_escrow input)"
proof -
  obtain sel mtm ws sizeInput where m: "made_of env input plan sel mtm ws sizeInput" using assms(1) by (rule planTick_made_of)
  note v = planned_value [OF m assms(2,3)]
  have budgets: "zlUsdgBudget (size_limits_of input) = max 0 (vvUsdgWallet (tiVault input) + live_bid_escrow input - or_else (val_of (vvUsdgReserved (tiVault input))) 0)"
    "zlOutflowBudget (size_limits_of input) = budgetFor (vlMaxDailyOutflow (vvLimits (tiVault input))) (vvOutflowUsed (tiVault input)) (live_bid_escrow input)"
    by (simp_all add: size_limits_of_def bidBudget_def Let_def)
  have pos: "0 \<le> zlOutflowBudget (size_limits_of input)" by (simp add: budgets budgetFor_def Let_def)
  have p: "orPlanned (tpOutflow plan) = (if vvIsQuoter (tiVault input) then planned_escrow sizeInput (sizes_of input (refusals_of env input sel ws) sizeInput) else 0)"
    "orBudget (tpOutflow plan) = zlOutflowBudget (size_limits_of input)"
    "sum_list (map tx_escrow (tpTxs plan)) = (if vvIsQuoter (tiVault input) \<and> \<not> tiKilled input then sum_list (map action_escrow (orderActions (map fst
        (planned_of input sel ws (sizes_of input (refusals_of env input sel ws) sizeInput))))) else 0)"
    using m by (simp_all add: made_of_def Let_def tick_txs_escrow)
  show ?thesis
    unfolding p using v pos by (simp add: budgets)
qed

subsection \<open>Missing inputs, the order of the transactions, housekeeping\<close>

lemma size_series_of_error: "size_series_of input aside refused w = Inl e \<Longrightarrow> e = NullExposure"
  by (auto simp: size_series_of_def Let_def split: option.splits prod.splits)

lemma plan_working_error: "plan_working env input sel mtm ws = Inl e \<Longrightarrow> e = NullExposure"
  by (auto simp: plan_working_def Let_def split: sum.splits dest!: map_raise_Inl size_series_of_error)

lemma selectedSeries_reads_epoch: "\<not> safety_missing input VaultEpoch \<Longrightarrow> \<exists>sel. selectedSeries env input = Inr sel"
  by (simp add: selectedSeries_def Let_def)

lemma planTick_missing:
  "(planTick env input = Inl (MissingInput name)) = (requireSafetyInputs input (required_inputs input) = Some name)"
proof (cases "requireSafetyInputs input (required_inputs input)")
  case None
  then have "\<not> safety_missing input VaultEpoch" unfolding requireSafetyInputs_None by (simp add: required_inputs_def)
  then obtain sel where "selectedSeries env input = Inr sel" using selectedSeries_reads_epoch by blast
  then show ?thesis using None by (auto simp: planTick_def split: sum.splits dest: plan_working_error)
qed (simp add: planTick_def)

text \<open>
  C30: a tick fails closed. It raises for the first safety input that is missing and for nothing else of that kind; so
  a plan exists only when the epoch was read, the wind-down, the protocol's accounts and its resting orders are known, a
  house vault's reserved USDG is a number, and, when fair values count from the session, so is its opening.
\<close>

theorem planTick_fails_closed:
  "(planTick env input = Inl (MissingInput name)) = (requireSafetyInputs input (required_inputs input) = Some name)
   \<and> (planTick env input = Inr plan \<longrightarrow>
        vvEpoch (tiVault input) \<noteq> Undefined \<and> vvUsdgReserved (tiVault input) \<noteq> Undefined
      \<and> (vvEpoch (tiVault input) \<noteq> JsNull \<longrightarrow> val_of (vvUsdgReserved (tiVault input)) \<noteq> None)
      \<and> val_of (mpEpochWindDownS (tiParams input)) \<noteq> None
      \<and> val_of (tiProtocolAccounts input) \<noteq> None \<and> val_of (tiProtocolBook input) \<noteq> None
      \<and> (mpFairFromSession (tiParams input) \<longrightarrow> tiSessionOpenedAt input = JsNull \<or> val_of (tiSessionOpenedAt input) \<noteq> None))"
proof -
  have "\<forall>n \<in> set (required_inputs input). \<not> safety_missing input n" if "planTick env input = Inr plan"
    using that unfolding requireSafetyInputs_None [symmetric] by (auto simp: planTick_def split: option.splits)
  then show ?thesis
    unfolding planTick_missing by (auto simp: required_inputs_def sessionInputs_def safety_missing_def)
qed

text \<open>The place of a transaction in a tick.\<close>

definition tx_stage :: "mm_tx \<Rightarrow> nat" where
  "tx_stage t =
     (case t of TxCancel _ _ protective \<Rightarrow> if protective then 0 else 1 | TxSync _ \<Rightarrow> 2 | TxClose _ _ \<Rightarrow> 3 | TxRedeem _ _ _ \<Rightarrow> 4
        | TxClaimOwed _ \<Rightarrow> 5 | TxDeposit _ _ \<Rightarrow> 6 | TxReplace _ \<Rightarrow> 7 | TxPlace _ \<Rightarrow> 7)"

lemma quote_txs_stage: "t \<in> set (quote_txs as) \<Longrightarrow> tx_stage t = 7"
  by (induction as) (auto simp: tx_stage_def split: mm_action.splits)

lemma stages:
  "t \<in> set (cancel_txs cs b) \<Longrightarrow> tx_stage t = (if b then 0 else 1)" "t \<in> set (sync_txs input z) \<Longrightarrow> tx_stage t = 2"
  "t \<in> set (close_txs input) \<Longrightarrow> tx_stage t = 3" "t \<in> set (redeem_txs input) \<Longrightarrow> tx_stage t = 4"
  "t \<in> set (claim_txs input) \<Longrightarrow> tx_stage t = 5" "t \<in> set (deposit_txs input) \<Longrightarrow> tx_stage t = 6"
  by (auto simp: tx_stage_def cancel_txs_def sync_txs_def close_txs_def redeem_txs_def claim_txs_def deposit_txs_def Let_def split: if_splits)

lemma sorted_const: "(\<And>x. x \<in> set xs \<Longrightarrow> f x = (k :: nat)) \<Longrightarrow> sorted (map f xs)"
  by (induction xs) auto

lemma tick_txs_sorted: "sorted (map tx_stage (tick_txs input z as))"
  unfolding tick_txs_def
  by (auto simp: sorted_append stages quote_txs_stage intro!: sorted_const dest!: stages quote_txs_stage)

lemma cancel_txs_chunks:
  assumes "TxCancel ids longIds b \<in> set (cancel_txs cs p)"
  shows "ids \<noteq> [] \<and> length ids \<le> 20"
proof -
  obtain part where "part \<in> set (chunks CANCEL_CHUNK (concat (map (\<lambda>c. map (\<lambda>i. (i, ccLongId c)) (ccOrderIds c)) (filter (\<lambda>c. ccProtective c = p) cs))))"
    "ids = map fst part"
    using assms by (auto simp: cancel_txs_def Let_def)
  then show ?thesis using chunks_sizes by (fastforce simp: CANCEL_CHUNK_def)
qed

text \<open>
  C31: a tick takes risk off before it adds any. Its cancels go first, the protective ones at the head, in calls of one to
  20 orders; then the ledger is synced, pairs closed, settled tokens redeemed, owed USDG claimed and
  wallet balances deposited; every replace and place comes last.
\<close>

theorem planTick_order:
  assumes "planTick env input = Inr plan"
  shows "sorted (map tx_stage (tpTxs plan))
    \<and> (\<forall>ids longIds b. TxCancel ids longIds b \<in> set (tpTxs plan) \<longrightarrow> ids \<noteq> [] \<and> length ids \<le> 20)"
proof -
  obtain sel mtm ws sizeInput where m: "made_of env input plan sel mtm ws sizeInput" using assms by (rule planTick_made_of)
  then obtain z as where t: "tpTxs plan = tick_txs input z as" by (auto simp: made_of_def Let_def)
  have "ids \<noteq> [] \<and> length ids \<le> 20" if "TxCancel ids longIds b \<in> set (tick_txs input z as)" for ids longIds b
  proof -
    have "tx_stage (TxCancel ids longIds b) \<le> 1" by (simp add: tx_stage_def)
    then have "\<exists>p. TxCancel ids longIds b \<in> set (cancel_txs (cancels_in as) p)"
      using that unfolding tick_txs_def by (auto dest: stages quote_txs_stage split: if_splits)
    then show ?thesis using cancel_txs_chunks by blast
  qed
  then show ?thesis unfolding t using tick_txs_sorted by blast
qed

lemma closePair_pos:
  assumes "closePair input v > 0"
  shows "\<exists>e. svExposure v = Some e \<and> closePair input v = min (exLongs e) (exShorts e) \<and> \<not> svSettled v
    \<and> tiNow input < siExpiry (svInfo v) \<and> \<not> tiKilled input"
  using assms by (auto simp: closePair_def housekeeping_def Let_def min_def split: option.splits if_splits)

lemma in_close_txs: "TxClose i u \<in> set (tick_txs input z as) \<Longrightarrow> \<exists>v \<in> set (tiSeries input). i = siLongId (svInfo v) \<and> u = closePair input v \<and> 0 < u"
  unfolding tick_txs_def
  by (auto split: if_splits dest: stages quote_txs_stage simp: tx_stage_def)
     (auto simp: close_txs_def)

lemma in_deposit_txs: "TxDeposit a u \<in> set (tick_txs input z as) \<Longrightarrow>
    \<exists>held. (a, held) \<in> set (vvWalletTokens (tiVault input)) \<and> u = unreserved (tiVault input) a held \<and> 0 < u \<and> \<not> tiKilled input"
  unfolding tick_txs_def
  by (auto split: if_splits dest: stages quote_txs_stage simp: tx_stage_def)
     (auto simp: deposit_txs_def housekeeping_def split: if_splits)

text \<open>
  housekeeping touches only what is the vault's. A tick closes exactly the matched longs and shorts of a series that
  has neither expired nor settled, and deposits of a token exactly the balance above the part reserved for
  depositors, never that part.
\<close>

theorem planTick_housekeeping:
  assumes "planTick env input = Inr plan"
  shows "(\<forall>i u. TxClose i u \<in> set (tpTxs plan) \<longrightarrow>
      (\<exists>v \<in> set (tiSeries input). \<exists>e. siLongId (svInfo v) = i \<and> svExposure v = Some e \<and> u = min (exLongs e) (exShorts e) \<and> 0 < u
         \<and> \<not> svSettled v \<and> tiNow input < siExpiry (svInfo v)))
    \<and> (\<forall>a u. TxDeposit a u \<in> set (tpTxs plan) \<longrightarrow>
      (\<exists>held. (a, held) \<in> set (vvWalletTokens (tiVault input)) \<and> 0 < u
         \<and> u + get_or (or_else (vvWalletReserved (tiVault input)) []) (lower a) 0 = held))"
proof -
  obtain sel mtm ws sizeInput where m: "made_of env input plan sel mtm ws sizeInput" using assms by (rule planTick_made_of)
  then obtain z as where t: "tpTxs plan = tick_txs input z as" by (auto simp: made_of_def Let_def)
  have "u + get_or (or_else (vvWalletReserved (tiVault input)) []) (lower a) 0 = held"
    if "u = unreserved (tiVault input) a held" "0 < u" for a u held
    using that by (auto simp: unreserved_def Let_def get_or_def split: option.splits if_splits)
  then show ?thesis unfolding t by (auto dest!: in_close_txs in_deposit_txs) (use closePair_pos in fastforce)+
qed

subsection \<open>An example tick\<close>

text \<open>One call quoted on both sides, with a stale bid to cancel; no floor on the spot lag, no greek limits.\<close>

definition tick_knobs :: safest_knobs where
  "tick_knobs = \<lparr>skVolMarkupPts = Some (Fin 0), skIntrinsicBufferBps = Some (Fin 0), skMinPremiumUsdg6 = Some 0, skDeltaBandLo = Some (Fin 0),
     skDeltaBandHi = Some (Fin 0), skSelectVol = Some (Fin 1), skMaxDeltaShares = Some (Fin 0), skMaxGamma = Some (Fin 0),
     skMaxExpiryNotionalUsdg6 = Some 0, skDailyMtmLossLimitUsdg6 = Some 0\<rparr>"

definition tick_quote_params :: quote_params where
  "tick_quote_params = \<lparr>qpHalfSpreadBps = 1000, qpMinHalfSpreadUsdg6 = 100, qpExpiryWidenS = 0, qpExpiryWidenBps = 0, qpPullMinutes = 5,
     qpQuoteOffHours = False, qpFairMaxAgeS = 1800, qpFairMaxAgeOffHoursS = 3600, qpSkewBpsPerDeltaShare = Fin 0, qpMaxSkewBps = Fin 0,
     qpRequoteBps = 100, qpResizeBps = 5000, qpFairSpotToleranceBps = None, qpKnobs = tick_knobs\<rparr>"

definition tick_params :: mm_plan_params where
  "tick_params = \<lparr>mpQuote = tick_quote_params, mpMaxSeries = 4, mpMaxSeriesPerMarket = 4, mpBidUnits = 100, mpAskUnits = 100,
     mpAskFallbackOnly = None, mpWriteOversubscribeBps = None, mpMaxSeriesUnits = 0, mpMaxTotalNotionalUsdg6 = 0, mpDeltaAlertShares = Fin 0,
     mpSyncIntervalS = 600, mpDepositTokens = True, mpMaxQuoteLifetimeS = 0, mpEpochWindDownS = Val 0,
     mpLag = \<lparr>lpSpotLagBps = 0, lpSpotLagStaleBps = 0\<rparr>, mpFairFromSession = False, mpWriteStopMinutes = 0\<rparr>"

definition tick_vault :: vault_view where
  "tick_vault = \<lparr>vvIsQuoter = True, vvTradingPaused = False, vvQuotingPaused = None,
     vvFees = \<lparr>qfCurrent = \<lparr>frPremiumFeeBps = 0, frResaleFeeBps = 0\<rparr>, qfPending = None\<rparr>,
     vvLimits = \<lparr>vlMaxSeriesUnits = 1000, vlMaxTotalNotional = 1000000, vlAskToleranceBps = 0, vlMaxBidBpsOfSpot = 0, vlMaxOrderLifetime = 0,
       vlMaxDailyOutflow = 500\<rparr>, vvOutflowUsed = 200, vvTotalNotional = 0, vvUsdgWallet = 150, vvUsdgReserved = Val 30, vvOwed = 7,
     vvFreeCollateral = [(''0xaa'', 500)], vvWalletTokens = [(''0xAA'', 60)], vvWalletReserved = Some [(''0xaa'', 25)],
     vvTracked = [], vvSettledHeld = None, vvEpoch = JsNull\<rparr>"

definition tick_series :: series_view where
  "tick_series = \<lparr>svInfo = \<lparr>siLongId = 7, siUnderlying = ''0xAA'', siIsPut = False, siStrike = 3000, siExpiry = 100000\<rparr>, svTicker = ''T'',
     svSettled = False, svSpotFresh = True, svSpot = Some 2000, svSpotUpdatedAt = None, svOracleBandBps = None,
     svExposure = Some \<lparr>exLongs = 3, exShorts = 3, exBids = 0, exResale = 0, exWrites = 0, exLive = 0\<rparr>, svSeriesNotional = 0,
     svSeriesNotionalUnread = None, svAskFloors = Some \<lparr>afWrite = 500, afResale = 400\<rparr>, svBidCap = Some 900,
     svCollateralAsset = ''0xaa'', svCollateralPerUnit = 10, svMintFeePpm = 0,
     svOrders = [\<lparr>loId = 11, loKind = Bid, loPrice = 300, loUnits = 50, loFilled = 10, loValidUntil = 5000, loCancelled = False\<rparr>,
       \<lparr>loId = 12, loKind = AskResale, loPrice = 900, loUnits = 5, loFilled = 0, loValidUntil = 800, loCancelled = False\<rparr>]\<rparr>"

definition sample_tick :: tick_input where
  "sample_tick = \<lparr>tiNow = 1000, tiSessionOpen = True, tiSessionClose = Some 20000, tiKilled = False,
     tiLossStop = \<lparr>stDay = 0, stRealised = 0, stLimit = 1000, stTripped = False, stPositions = None\<rparr>, tiLastSync = None, tiVault = tick_vault,
     tiMarkets = [(''0xaa'', \<lparr>mvUnderlying = ''0xaa'', mvTicker = ''T'', mvEnabled = True, mvMintPaused = False, mvSpot = None, mvHalt = None\<rparr>)],
     tiSeries = [tick_series],
     tiFairs = [(''7'', FairOk \<lparr>faFair = 600, faDelta = Fin 0, faIv = Fin (1 / 2), faAsOf = 900, faSource = ''cboe'', faSpot = None,
        faAskIv = None, faVega = None, faGamma = None, faQuality = None\<rparr>)],
     tiParams = tick_params, tiRefreshS = 120, tiReplaceMarginS = None, tiBidCapAheadS = None, tiProtocolAccounts = Val [], tiProtocolBook = Val [],
     tiOtherAskers = None, tiSessionOpenedAt = Undefined\<rparr>"

lemma sample_tick_planned:
  obtains plan where "planTick no_greeks_env sample_tick = Inr plan"
    "tpTxs plan = [TxCancel [12] [7] False, TxClose 7 3, TxClaimOwed 7, TxDeposit ''0xAA'' 35,
       TxPlace \<lparr>pcLongId = 7, pcSlot = SlotWrite, pcKind = 2, pcPrice = 700, pcUnits = 50, pcValidUntil = 20000, pcProtective = False,
         pcLife = Some \<lparr>qlCap = 20000, qlLifetime = 0\<rparr>\<rparr>,
       TxReplace \<lparr>rcLongId = 7, rcSlot = SlotBid, rcOrderId = 11, rcPrice = 500, rcUnits = 48, rcFromPrice = 300, rcFromUnits = 40,
         rcProtective = False, rcOrderValidUntil = Some 5000\<rparr>]"
    "tpOutflow plan = \<lparr>orCap = 500, orUsed = 200, orReleased = 120, orBudget = 420, orPlanned = 240, orBlocked = False\<rparr>"
proof -
  have "case planTick no_greeks_env sample_tick of Inl _ \<Rightarrow> False
    | Inr plan \<Rightarrow> tpTxs plan = [TxCancel [12] [7] False, TxClose 7 3, TxClaimOwed 7, TxDeposit ''0xAA'' 35,
       TxPlace \<lparr>pcLongId = 7, pcSlot = SlotWrite, pcKind = 2, pcPrice = 700, pcUnits = 50, pcValidUntil = 20000, pcProtective = False,
         pcLife = Some \<lparr>qlCap = 20000, qlLifetime = 0\<rparr>\<rparr>,
       TxReplace \<lparr>rcLongId = 7, rcSlot = SlotBid, rcOrderId = 11, rcPrice = 500, rcUnits = 48, rcFromPrice = 300, rcFromUnits = 40,
         rcProtective = False, rcOrderValidUntil = Some 5000\<rparr>]
      \<and> tpOutflow plan = \<lparr>orCap = 500, orUsed = 200, orReleased = 120, orBudget = 420, orPlanned = 240, orBlocked = False\<rparr>"
    by code_simp
  then show ?thesis using that by (auto split: sum.splits)
qed

lemma sample_tick_killed: "\<exists>plan. planTick no_greeks_env (sample_tick\<lparr>tiKilled := True\<rparr>) = Inr plan"
proof -
  have "case planTick no_greeks_env (sample_tick\<lparr>tiKilled := True\<rparr>) of Inl _ \<Rightarrow> False | Inr _ \<Rightarrow> True" by code_simp
  then show ?thesis by (auto split: sum.splits)
qed

theorem planTick_quotes_allowed_witness:
  "\<exists>plan. planTick no_greeks_env sample_tick = Inr plan
    \<and> (\<exists>sp \<in> set (tpSeries plan). slpLongId sp = 7 \<and> quote_allowed sample_tick sp SlotWrite 700 50)
    \<and> (\<exists>sp \<in> set (tpSeries plan). slpLongId sp = 7 \<and> quote_allowed sample_tick sp SlotBid 500 48)"
  by (rule sample_tick_planned) (use planTick_quotes_allowed in fastforce)

theorem planTick_killed_witness:
  "\<exists>plan. planTick no_greeks_env (sample_tick\<lparr>tiKilled := True\<rparr>) = Inr plan
    \<and> set (tx_cancelled (tpTxs plan)) = kill_targets (sample_tick\<lparr>tiKilled := True\<rparr>)"
  using sample_tick_killed planTick_killed [of no_greeks_env "sample_tick\<lparr>tiKilled := True\<rparr>"]
  by (fastforce simp: sample_tick_def tick_vault_def)

theorem planTick_bids_funded_witness:
  "\<exists>plan. planTick no_greeks_env sample_tick = Inr plan \<and> orPlanned (tpOutflow plan) = 240
    \<and> sum_list (map tx_escrow (tpTxs plan)) \<le> orPlanned (tpOutflow plan) \<and> orPlanned (tpOutflow plan) \<le> orBudget (tpOutflow plan)"
proof (rule sample_tick_planned)
  fix plan
  assume p: "planTick no_greeks_env sample_tick = Inr plan"
    "tpOutflow plan = \<lparr>orCap = 500, orUsed = 200, orReleased = 120, orBudget = 420, orPlanned = 240, orBlocked = False\<rparr>"
  have "list_all view_ok (tiSeries sample_tick)" by code_simp
  moreover have "distinct (map key_of (tiSeries sample_tick))" by code_simp
  ultimately show ?thesis using planTick_bids_funded [OF p(1)] p by auto
qed

theorem planTick_fails_closed_witness:
  "\<exists>plan. planTick no_greeks_env sample_tick = Inr plan \<and> val_of (tiProtocolBook sample_tick) \<noteq> None"
  by (rule sample_tick_planned) (use planTick_fails_closed in blast)

theorem planTick_order_witness:
  "\<exists>plan. planTick no_greeks_env sample_tick = Inr plan \<and> length (tpTxs plan) = 6 \<and> sorted (map tx_stage (tpTxs plan))"
  by (rule sample_tick_planned) (use planTick_order in fastforce)

theorem planTick_housekeeping_witness:
  "\<exists>plan. planTick no_greeks_env sample_tick = Inr plan
    \<and> (\<exists>v \<in> set (tiSeries sample_tick). \<exists>e. svExposure v = Some e \<and> 3 = min (exLongs e) (exShorts e))
    \<and> (\<exists>held. (''0xAA'', held) \<in> set (vvWalletTokens (tiVault sample_tick))
         \<and> 35 + get_or (or_else (vvWalletReserved (tiVault sample_tick)) []) (lower ''0xAA'') 0 = held)"
proof (rule sample_tick_planned)
  fix plan
  assume p: "planTick no_greeks_env sample_tick = Inr plan"
    "tpTxs plan = [TxCancel [12] [7] False, TxClose 7 3, TxClaimOwed 7, TxDeposit ''0xAA'' 35,
       TxPlace \<lparr>pcLongId = 7, pcSlot = SlotWrite, pcKind = 2, pcPrice = 700, pcUnits = 50, pcValidUntil = 20000, pcProtective = False,
         pcLife = Some \<lparr>qlCap = 20000, qlLifetime = 0\<rparr>\<rparr>,
       TxReplace \<lparr>rcLongId = 7, rcSlot = SlotBid, rcOrderId = 11, rcPrice = 500, rcUnits = 48, rcFromPrice = 300, rcFromUnits = 40,
         rcProtective = False, rcOrderValidUntil = Some 5000\<rparr>]"
  then have t: "TxClose 7 3 \<in> set (tpTxs plan)" "TxDeposit ''0xAA'' 35 \<in> set (tpTxs plan)" by simp_all
  show ?thesis using p(1) planTick_housekeeping [OF p(1)] t by blast
qed

end
