(* ===== verification/DoubleFacts.thy ===== *)
theory DoubleFacts
  imports JsFloat
begin

section \<open>Rounding to a double\<close>

text \<open>
  What the rounding of JsFloat guarantees: a number with at most 53 bits is kept, a result has at most 53
  bits, and rounding never turns an order around. From these follow the bounds of computed prices.
\<close>

lemma scale2_powi: "scale2 x e = x * 2 powi e"
  by (cases "0 \<le> e") (simp_all add: scale2_def power_int_def power_int_minus field_simps)

lemma powi_pos [simp]: "(0 :: rat) < 2 powi e"
  by (simp add: zero_less_power_int)

lemma powi_mono: "a \<le> b \<Longrightarrow> (2 :: rat) powi a \<le> 2 powi b"
  by (rule power_int_increasing) simp_all

lemma powi_strict_mono: "a < b \<Longrightarrow> (2 :: rat) powi a < 2 powi b"
  by (rule power_int_strict_increasing) simp_all

lemma powi_less_iff: "(2 :: rat) powi a < 2 powi b \<longleftrightarrow> a < b"
  using powi_mono [of b a] powi_strict_mono [of a b] by fastforce

lemma powi_split: "(2 :: rat) powi (a + b) = 2 powi a * 2 powi b"
  by (simp add: power_int_add)

lemma powi_cancel: "(2 :: rat) powi (- e) * 2 powi e = 1" "(2 :: rat) powi e * 2 powi (- e) = 1"
  by (simp_all add: power_int_minus)

lemma powi_int: "0 \<le> e \<Longrightarrow> (2 :: rat) powi e = of_int (2 ^ nat e)"
  by (simp add: power_int_def)

lemma binade_bounds:
  assumes "0 < x"
  shows "2 powi binade x \<le> x" "x < 2 powi (binade x + 1)"
proof -
  obtain p q where pq: "quotient_of x = (p, q)" by fastforce
  then have q: "0 < q" and x: "x = of_int p / of_int q" using quotient_of_denom_pos quotient_of_div by blast+
  then have p: "0 < p" using assms by (simp add: zero_less_divide_iff)
  define k where "k = bitlen p - bitlen q"
  have b: "1 \<le> bitlen p" "1 \<le> bitlen q" using p q by (simp_all add: bitlen_alt_def)
  have bounds: "2 powi (bitlen n - 1) \<le> (of_int n :: rat) \<and> of_int n < (2 :: rat) powi (bitlen n)" if "0 < n" "1 \<le> bitlen n" for n
  proof -
    have "of_int (2 ^ nat (bitlen n - 1)) \<le> (of_int n :: rat)" "of_int n < (of_int (2 ^ nat (bitlen n)) :: rat)"
      using bitlen_bounds [OF that(1)] unfolding of_int_le_iff of_int_less_iff by simp_all
    then show ?thesis using that by (simp add: powi_int)
  qed
  have "2 powi (bitlen p - 1) * 2 powi (- bitlen q) < x"
  proof -
    have "2 powi (bitlen p - 1) * (of_int q :: rat) < 2 powi (bitlen p - 1) * 2 powi (bitlen q)"
      using bounds [OF q b(2)] by (intro mult_strict_left_mono) simp_all
    also have "\<dots> \<le> of_int p * 2 powi bitlen q" using bounds [OF p b(1)] by (intro mult_right_mono) (simp_all add: less_imp_le)
    finally show ?thesis using q by (simp add: x field_simps power_int_minus)
  qed
  moreover have "x < 2 powi bitlen p * 2 powi (- (bitlen q - 1))"
  proof -
    define c :: rat where "c = 2 powi (bitlen q - 1)"
    have "of_int p * 2 powi (bitlen q - 1) \<le> of_int p * (of_int q :: rat)"
      using bounds [OF q b(2)] p by (intro mult_left_mono) simp_all
    also have "\<dots> < 2 powi bitlen p * of_int q" using bounds [OF p b(1)] q by (intro mult_strict_right_mono) simp_all
    finally have "of_int p * c < 2 powi bitlen p * of_int q" by (simp only: c_def)
    then show ?thesis using q unfolding power_int_minus c_def [symmetric] x by (simp add: field_simps c_def)
  qed
  ultimately have k: "2 powi (k - 1) < x" "x < 2 powi (k + 1)"
    unfolding powi_split [symmetric] by (simp_all add: k_def algebra_simps)
  have "binade x = (if 2 powi k \<le> x then k else k - 1)" by (simp add: binade_def pq k_def scale2_powi Let_def)
  then show "2 powi binade x \<le> x" "x < 2 powi (binade x + 1)" using k by auto
qed

lemma binade_mono:
  assumes "0 < x" "x \<le> y"
  shows "binade x \<le> binade y"
proof -
  have "2 powi binade x < (2 :: rat) powi (binade y + 1)"
    using binade_bounds(1) [OF assms(1)] binade_bounds(2) [of y] assms by linarith
  then show ?thesis by (simp add: powi_less_iff)
qed

lemma round_even_minus: "round_even (- x) = - round_even x"
proof (cases "x = of_int \<lfloor>x\<rfloor>")
  case True
  then have "round_even x = \<lfloor>x\<rfloor>" "round_even (- x) = - \<lfloor>x\<rfloor>" by (metis round_even_int) (metis True of_int_minus round_even_int)
  then show ?thesis by simp
next
  case False
  then have "of_int \<lfloor>x\<rfloor> < x" using of_int_floor_le [of x] by linarith
  then have f: "\<lfloor>- x\<rfloor> = - \<lfloor>x\<rfloor> - 1" by (intro floor_unique) (simp_all, linarith)
  show ?thesis unfolding round_even_def Let_def f by auto
qed

text \<open>The result before overflow is looked at, with the exponent of its last place.\<close>

definition last_place :: "rat \<Rightarrow> int" where
  "last_place x = max (binade \<bar>x\<bar> - 52) (- 1074)"

definition rounded :: "rat \<Rightarrow> rat" where
  "rounded x = (if x = 0 then 0 else of_int (round_even (x * 2 powi (- last_place x))) * 2 powi last_place x)"

lemma fl_rounded: "fl x = (if rounded x \<ge> 2 ^ 1024 then PosInf else if rounded x \<le> - (2 ^ 1024) then NegInf else Fin (rounded x))"
proof (cases "x = 0")
  case False
  then show ?thesis unfolding fl_def rounded_def last_place_def Let_def scale2_powi by (simp only: if_False)
qed (simp add: fl_def rounded_def)

lemma rounded_minus: "rounded (- x) = - rounded x"
  by (simp add: rounded_def last_place_def round_even_minus)

text \<open>\<open>53\<close> bits and an exponent in range.\<close>

definition double_like :: "rat \<Rightarrow> bool" where
  "double_like x = (\<exists>m e. \<bar>m\<bar> \<le> 2 ^ 53 \<and> - 1074 \<le> e \<and> x = of_int m * 2 powi e)"

lemma on_grid: "0 \<le> e - E \<Longrightarrow> of_int m * 2 powi e * 2 powi (- E) = (of_int (m * 2 ^ nat (e - E)) :: rat)"
  unfolding mult.assoc powi_split [symmetric] by (simp add: powi_int)

lemma rounded_exact:
  assumes "double_like x"
  shows "rounded x = x"
proof (cases "x = 0")
  case False
  obtain m e where m: "\<bar>m\<bar> \<le> 2 ^ 53" "- 1074 \<le> e" "x = of_int m * 2 powi e" using assms by (auto simp: double_like_def)
  define E where "E = last_place x"
  have "\<exists>n. x * 2 powi (- E) = of_int n"
  proof (cases "E \<le> e")
    case True
    then show ?thesis using on_grid [of e E m] m(3) by (metis diff_ge_0_iff_ge)
  next
    case f: False
    then have E: "E = binade \<bar>x\<bar> - 52" using m(2) by (auto simp: E_def last_place_def)
    have "2 powi (E + 52) \<le> \<bar>x\<bar>" using binade_bounds(1) [of "\<bar>x\<bar>"] False by (simp add: E)
    also have "\<bar>x\<bar> = of_int \<bar>m\<bar> * 2 powi e" by (simp add: m(3) abs_mult)
    also have "\<dots> \<le> of_int (2 ^ 53) * 2 powi e" using m(1) by (intro mult_right_mono) (simp_all only: of_int_le_iff, simp)
    also have "\<dots> = 2 powi (e + 53)" by (simp add: powi_split power_int_numeral)
    finally have "E + 52 \<le> e + 53" using powi_strict_mono [of "e + 53" "E + 52"] by (cases "E + 52 \<le> e + 53") auto
    then have eq: "E = e + 1" using f by simp
    have "of_int (2 ^ 53) * 2 powi e \<le> of_int \<bar>m\<bar> * (2 :: rat) powi e"
      using \<open>2 powi (E + 52) \<le> \<bar>x\<bar>\<close> unfolding \<open>\<bar>x\<bar> = of_int \<bar>m\<bar> * 2 powi e\<close> eq
      by (simp add: powi_split power_int_numeral algebra_simps)
    then have "(of_int (2 ^ 53) :: rat) \<le> of_int \<bar>m\<bar>" by (rule mult_right_le_imp_le) simp
    then have "\<bar>m\<bar> = 2 ^ 53" using m(1) unfolding of_int_le_iff by simp
    then have "x * 2 powi (- E) = of_int (sgn m * 2 ^ 52)"
      unfolding m(3) eq mult.assoc powi_split [symmetric] by (cases "m > 0") (auto simp: power_int_minus sgn_if)
    then show ?thesis by blast
  qed
  then obtain n where n: "x * 2 powi (- E) = of_int n" by blast
  have "rounded x = of_int n * 2 powi E" using False by (simp add: rounded_def n round_even_int flip: E_def)
  also have "\<dots> = x" unfolding n [symmetric] mult.assoc powi_cancel by simp
  finally show ?thesis .
qed (simp add: rounded_def)

lemma rounded_bound: "\<bar>round_even (x * 2 powi (- last_place x))\<bar> \<le> 2 ^ 53" if "x \<noteq> 0"
proof -
  have "binade \<bar>x\<bar> + 1 - last_place x \<le> 53" by (simp add: last_place_def)
  then have "2 powi (binade \<bar>x\<bar> + 1 - last_place x) \<le> (2 :: rat) powi 53" by (rule powi_mono)
  moreover have "\<bar>x\<bar> * 2 powi (- last_place x) < 2 powi (binade \<bar>x\<bar> + 1) * 2 powi (- last_place x)"
    using binade_bounds(2) [of "\<bar>x\<bar>"] that by (intro mult_strict_right_mono) simp_all
  ultimately have b: "\<bar>x * 2 powi (- last_place x)\<bar> \<le> of_int (2 ^ 53)"
    unfolding powi_split [symmetric] by (simp add: abs_mult power_int_numeral)
  have "round_even (x * 2 powi (- last_place x)) \<le> 2 ^ 53" "round_even (- (x * 2 powi (- last_place x))) \<le> 2 ^ 53"
    using round_even_mono [OF order_trans [OF abs_ge_self b]] round_even_mono [OF order_trans [OF abs_ge_minus_self b]]
    by (simp_all only: round_even_int)
  then show ?thesis by (simp add: round_even_minus abs_le_iff)
qed

lemma rounded_double_like: "double_like (rounded x)"
proof (cases "x = 0")
  case True
  have "double_like 0" unfolding double_like_def by (rule exI [of _ 0], rule exI [of _ 0]) simp
  then show ?thesis using True by (simp add: rounded_def)
next
  case False
  then show ?thesis unfolding double_like_def using rounded_bound [OF False]
    by (intro exI [of _ "round_even (x * 2 powi (- last_place x))"] exI [of _ "last_place x"]) (simp add: rounded_def last_place_def)
qed

lemma rounded_grid:
  assumes "x \<noteq> 0" "last_place x \<le> e"
  shows "x \<le> of_int m * 2 powi e \<Longrightarrow> rounded x \<le> of_int m * 2 powi e"
    and "of_int m * 2 powi e \<le> x \<Longrightarrow> of_int m * 2 powi e \<le> rounded x"
proof -
  let ?E = "last_place x"
  define n where "n = m * 2 ^ nat (e - ?E)"
  have n: "of_int m * 2 powi e * 2 powi (- ?E) = (of_int n :: rat)" unfolding n_def using assms(2) by (intro on_grid) simp
  have grid: "of_int m * 2 powi e = (of_int n * 2 powi ?E :: rat)" unfolding n [symmetric] mult.assoc powi_cancel by simp
  have r: "rounded x = of_int (round_even (x * 2 powi (- ?E))) * 2 powi ?E" using assms(1) by (simp add: rounded_def)
  show "rounded x \<le> of_int m * 2 powi e" if "x \<le> of_int m * 2 powi e"
  proof -
    have "x * 2 powi (- ?E) \<le> of_int n" unfolding n [symmetric] using that by (rule mult_right_mono) (simp add: less_imp_le)
    then have "round_even (x * 2 powi (- ?E)) \<le> n" using round_even_mono round_even_int by metis
    then show ?thesis unfolding r grid by (intro mult_right_mono) (simp_all add: less_imp_le)
  qed
  show "of_int m * 2 powi e \<le> rounded x" if "of_int m * 2 powi e \<le> x"
  proof -
    have "of_int n \<le> x * 2 powi (- ?E)" unfolding n [symmetric] using that by (rule mult_right_mono) (simp add: less_imp_le)
    then have "n \<le> round_even (x * 2 powi (- ?E))" using round_even_mono round_even_int by metis
    then show ?thesis unfolding r grid by (intro mult_right_mono) (simp_all add: less_imp_le)
  qed
qed

lemma rounded_nonneg: "0 \<le> x \<Longrightarrow> 0 \<le> rounded x"
  using rounded_grid(2) [of x "last_place x" 0] by (cases "x = 0") (simp_all add: rounded_def)

lemma rounded_mono_pos:
  assumes "0 < x" "x \<le> y"
  shows "rounded x \<le> rounded y"
proof (cases "last_place x = last_place y")
  case True
  have "x * 2 powi (- last_place y) \<le> y * 2 powi (- last_place y)" using assms(2) by (rule mult_right_mono) (simp add: less_imp_le)
  then have "round_even (x * 2 powi (- last_place y)) \<le> round_even (y * 2 powi (- last_place y))" by (rule round_even_mono)
  then show ?thesis using assms True by (simp add: rounded_def)
next
  case False
  have b: "binade x \<le> binade y" using assms by (rule binade_mono)
  have places: "last_place x = max (binade x - 52) (- 1074)" "last_place y = max (binade y - 52) (- 1074)"
    using assms by (simp_all add: last_place_def)
  then have e: "last_place x \<le> binade y" "last_place y \<le> binade y" "binade x + 1 \<le> binade y" using False b by auto
  have "x \<le> of_int 1 * 2 powi binade y"
    using binade_bounds(2) [OF assms(1)] powi_mono [OF e(3)] by simp
  then have "rounded x \<le> of_int 1 * 2 powi binade y" using assms e by (intro rounded_grid(1)) simp_all
  also have "\<dots> \<le> rounded y" using assms e binade_bounds(1) [of y] by (intro rounded_grid(2)) simp_all
  finally show ?thesis .
qed

lemma rounded_mono:
  assumes "x \<le> y"
  shows "rounded x \<le> rounded y"
proof -
  consider "0 < x" | "x \<le> 0" "0 \<le> y" | "y < 0" by linarith
  then show ?thesis
  proof cases
    case 2
    then show ?thesis using rounded_nonneg [of y] rounded_nonneg [of "- x"] by (simp add: rounded_minus)
  next
    case 3
    then show ?thesis using rounded_mono_pos [of "- y" "- x"] assms by (simp add: rounded_minus)
  qed (use rounded_mono_pos assms in simp)
qed

text \<open>The finite doubles, and the order on all of them.\<close>

definition is_double :: "rat \<Rightarrow> bool" where
  "is_double x = (fl x = Fin x)"

lemma is_double_iff: "is_double x \<longleftrightarrow> double_like x \<and> \<bar>x\<bar> < 2 ^ 1024"
proof
  assume "is_double x"
  then have "rounded x = x" "\<not> x \<ge> 2 ^ 1024" "\<not> x \<le> - (2 ^ 1024)"
    unfolding is_double_def fl_rounded by (auto split: if_splits)
  then show "double_like x \<and> \<bar>x\<bar> < 2 ^ 1024" using rounded_double_like [of x] by (auto simp: abs_less_iff)
next
  assume "double_like x \<and> \<bar>x\<bar> < 2 ^ 1024"
  then have "rounded x = x" "\<not> x \<ge> 2 ^ 1024" "\<not> x \<le> - (2 ^ 1024)" by (auto simp: rounded_exact abs_less_iff)
  then show "is_double x" unfolding is_double_def fl_rounded by (simp only: if_False)
qed

lemma fl_mono: "x \<le> y \<Longrightarrow> fle (fl x) (fl y)"
proof -
  assume "x \<le> y"
  then have m: "rounded x \<le> rounded y" by (rule rounded_mono)
  have big: "- (2 ^ 1024) < (2 ^ 1024 :: rat)" by simp
  show ?thesis unfolding fl_rounded fle_def using m big by (auto split: if_splits)
qed

lemma fl_is_double: "fl x = Fin r \<Longrightarrow> is_double r"
proof -
  assume "fl x = Fin r"
  then have "r = rounded x" "\<not> r \<ge> 2 ^ 1024" "\<not> r \<le> - (2 ^ 1024)"
    unfolding fl_rounded by (auto split: if_splits)
  then show ?thesis unfolding is_double_iff using rounded_double_like [of x] by (auto simp: abs_less_iff)
qed

lemma fl_le_double: "is_double y \<Longrightarrow> x \<le> y \<Longrightarrow> fle (fl x) (Fin y)"
  using fl_mono [of x y] by (simp add: is_double_def)

lemma fl_ge_double: "is_double y \<Longrightarrow> y \<le> x \<Longrightarrow> fle (Fin y) (fl x)"
  using fl_mono [of y x] by (simp add: is_double_def)

text \<open>Twice a double, and how far rounding moves a number below a power of two.\<close>

lemma is_double_twice: "is_double x \<Longrightarrow> \<bar>x\<bar> < 2 ^ 1023 \<Longrightarrow> is_double (2 * x)"
proof -
  assume a: "is_double x" "\<bar>x\<bar> < 2 ^ 1023"
  then obtain m e where m: "\<bar>m\<bar> \<le> 2 ^ 53" "- 1074 \<le> e" "x = of_int m * 2 powi e" by (auto simp: is_double_iff double_like_def)
  have "2 * x = of_int m * 2 powi (e + 1)" by (simp add: m(3) powi_split)
  then have "double_like (2 * x)" using m unfolding double_like_def by (intro exI [of _ m] exI [of _ "e + 1"]) simp
  moreover have "\<bar>2 * x\<bar> < 2 * 2 ^ 1023" using a(2) by (simp only: abs_mult abs_numeral mult_less_cancel_left_pos zero_less_numeral)
  moreover have "2 * 2 ^ 1023 = (2 ^ 1024 :: rat)" by simp
  ultimately show ?thesis by (simp only: is_double_iff)
qed

lemma rounded_near:
  assumes "0 < x" "x < 2 powi k" "- 1021 \<le> k"
  shows "\<bar>rounded x - x\<bar> \<le> 2 powi (k - 54)"
proof -
  let ?E = "last_place x"
  have "2 powi binade x < (2 :: rat) powi k" using binade_bounds(1) [OF assms(1)] assms(2) by linarith
  then have "?E \<le> k - 53" using assms by (simp add: powi_less_iff last_place_def)
  have "rounded x - x = (of_int (round_even (x * 2 powi (- ?E))) - x * 2 powi (- ?E)) * 2 powi ?E"
    using assms(1) by (simp add: rounded_def left_diff_distrib mult.assoc powi_cancel)
  then have "\<bar>rounded x - x\<bar> = \<bar>of_int (round_even (x * 2 powi (- ?E))) - x * 2 powi (- ?E)\<bar> * 2 powi ?E"
    by (simp add: abs_mult)
  then have "\<bar>rounded x - x\<bar> \<le> 1 / 2 * 2 powi ?E"
    using mult_right_mono [OF round_even_near [of "x * 2 powi (- ?E)"], of "2 powi ?E"] by (simp add: less_imp_le)
  also have "\<dots> \<le> 1 / 2 * 2 powi (k - 53)" using powi_mono [OF \<open>?E \<le> k - 53\<close>] by simp
  also have "\<dots> = 2 powi (k - 54)" using powi_split [of "k - 54" 1] by simp
  finally show ?thesis .
qed

lemma small_is_double: "is_double (of_int n)" if "\<bar>n\<bar> < 2 ^ 53"
  unfolding is_double_def using that by (rule fl_int_exact)

end
