(* ===== verification/BlackScholes.thy ===== *)
theory BlackScholes
  imports DoubleFacts RiskSizes
begin

section \<open>Option values and implied volatility (keeper/src/v2/pricing/bs.ts)\<close>

text \<open>
  Black-Scholes at zero rate in doubles: the normal distribution, price, delta, gamma, vega and the
  bisection for the volatility of a price. \<open>Math.exp\<close>, \<open>Math.log\<close> and \<open>Math.sqrt\<close>, which the
  language leaves to the platform, are the fields of \<open>js_math\<close>, an argument. A number written in the
  source is the double nearest to it, \<open>fl\<close> of its decimal value.
\<close>

record js_math =
  jmExp :: "double \<Rightarrow> double"
  jmLog :: "double \<Rightarrow> double"
  jmSqrt :: "double \<Rightarrow> double"

definition MATH_PI :: double where "MATH_PI = Fin (884279719003555 / 281474976710656)"

definition MIN_STDDEV :: double where "MIN_STDDEV = fl (1 / 1000000000000)"
definition IV_SOLVE_MIN :: double where "IV_SOLVE_MIN = fl (1 / 10000)"
definition IV_SOLVE_MAX :: double where "IV_SOLVE_MAX = Fin 20"
definition IV_SOLVE_ITERATIONS :: nat where "IV_SOLVE_ITERATIONS = 100"
definition IV_SOLVE_TOLERANCE :: double where "IV_SOLVE_TOLERANCE = fl (1 / 1000000000000)"

subsection \<open>The normal distribution\<close>

definition poly_step :: "double \<Rightarrow> double \<Rightarrow> rat \<Rightarrow> double" where
  "poly_step z n c = fadd (fmul n z) (fl c)"

definition normCdf :: "js_math \<Rightarrow> double \<Rightarrow> double" where
  "normCdf m x =
     (if x = NaN then NaN
      else let z = fabs x;
               tail =
                 (if flt (Fin 37) z then Fin 0
                  else let e = jmExp m (fdiv (fmul (fneg z) z) (Fin 2))
                       in if flt z (fl (707106781186547 / 100000000000000)) then
                            let n = foldl (poly_step z) (fl (352624965998911 / 10000000000000000))
                                      [700383064443688 / 1000000000000000, 637396220353165 / 100000000000000,
                                       33912866078383 / 1000000000000, 112079291497871 / 1000000000000,
                                       221213596169931 / 1000000000000, 220206867912376 / 1000000000000];
                                d = foldl (poly_step z) (fl (883883476483184 / 10000000000000000))
                                      [175566716318264 / 100000000000000, 16064177579207 / 1000000000000,
                                       867807322029461 / 10000000000000, 296564248779674 / 1000000000000,
                                       637333633378831 / 1000000000000, 793826512519948 / 1000000000000,
                                       440413735824752 / 1000000000000]
                            in fdiv (fmul e n) d
                          else
                            let f0 = fadd z (fl (65 / 100));
                                f1 = fadd z (fdiv (Fin 4) f0);
                                f2 = fadd z (fdiv (Fin 3) f1);
                                f3 = fadd z (fdiv (Fin 2) f2);
                                f4 = fadd z (fdiv (Fin 1) f3)
                            in fdiv (fdiv e f4) (fl (2506628274631 / 1000000000000)))
           in if flt (Fin 0) x then fsub (Fin 1) tail else tail)"

definition normPdf :: "js_math \<Rightarrow> double \<Rightarrow> double" where
  "normPdf m x = fdiv (jmExp m (fmul (fmul (Fin (- 1 / 2)) x) x)) (jmSqrt m (fmul (Fin 2) MATH_PI))"

subsection \<open>Price and greeks\<close>

record bs_input =
  biPut :: bool
  biSpot :: double
  biStrike :: double
  biVol :: double
  biT :: double

text \<open>\<open>RangeError\<close> of \<open>assertInput\<close>.\<close>

datatype bs_error = NotBsInput

definition finite_pos :: "double \<Rightarrow> bool" where
  "finite_pos x = (is_finite x \<and> flt (Fin 0) x)"

definition finite_nonneg :: "double \<Rightarrow> bool" where
  "finite_nonneg x = (is_finite x \<and> fle (Fin 0) x)"

definition assertInput :: "bs_input \<Rightarrow> bool" where
  "assertInput i = (finite_pos (biSpot i) \<and> finite_pos (biStrike i) \<and> finite_nonneg (biVol i) \<and> finite_nonneg (biT i))"

definition intrinsicValue :: "bool \<Rightarrow> double \<Rightarrow> double \<Rightarrow> double" where
  "intrinsicValue isPut spot strike = (if \<not> isPut then fmax (fsub spot strike) (Fin 0) else fmax (fsub strike spot) (Fin 0))"

definition upperBound :: "bool \<Rightarrow> double \<Rightarrow> double \<Rightarrow> double" where
  "upperBound isPut spot strike = (if \<not> isPut then spot else strike)"

definition stddev :: "js_math \<Rightarrow> bs_input \<Rightarrow> double" where
  "stddev m i = fmul (biVol i) (jmSqrt m (biT i))"

definition d1_of :: "js_math \<Rightarrow> bs_input \<Rightarrow> double \<Rightarrow> double" where
  "d1_of m i sd =
     fdiv (fadd (jmLog m (fdiv (biSpot i) (biStrike i))) (fmul (fmul (Fin (1 / 2)) sd) sd)) sd"

definition bsPrice :: "js_math \<Rightarrow> bs_input \<Rightarrow> bs_error + double" where
  "bsPrice m i =
     (if \<not> assertInput i then Inl NotBsInput
      else let intrinsic = intrinsicValue (biPut i) (biSpot i) (biStrike i);
               sd = stddev m i
           in if flt sd MIN_STDDEV then Inr intrinsic
              else let d1 = d1_of m i sd;
                       d2 = fsub d1 sd;
                       raw = (if \<not> biPut i
                              then fsub (fmul (biSpot i) (normCdf m d1)) (fmul (biStrike i) (normCdf m d2))
                              else fsub (fmul (biStrike i) (normCdf m (fneg d2))) (fmul (biSpot i) (normCdf m (fneg d1))))
                   in Inr (fmin (upperBound (biPut i) (biSpot i) (biStrike i)) (fmax intrinsic raw)))"

definition bsDelta :: "js_math \<Rightarrow> bs_input \<Rightarrow> bs_error + double" where
  "bsDelta m i =
     (if \<not> assertInput i then Inl NotBsInput
      else let sd = stddev m i;
               callDelta = (if flt sd MIN_STDDEV then
                              (if flt (biStrike i) (biSpot i) then Fin 1 else if flt (biSpot i) (biStrike i) then Fin 0 else Fin (1 / 2))
                            else normCdf m (d1_of m i sd))
           in Inr (if \<not> biPut i then callDelta else fsub callDelta (Fin 1)))"

definition bsGamma :: "js_math \<Rightarrow> bs_input \<Rightarrow> bs_error + double" where
  "bsGamma m i =
     (if \<not> assertInput i then Inl NotBsInput
      else let sd = stddev m i
           in Inr (if flt sd MIN_STDDEV then Fin 0 else fdiv (normPdf m (d1_of m i sd)) (fmul (biSpot i) sd)))"

definition bsVega :: "js_math \<Rightarrow> bs_input \<Rightarrow> bs_error + double" where
  "bsVega m i =
     (if \<not> assertInput i then Inl NotBsInput
      else let sd = stddev m i
           in Inr (if flt sd MIN_STDDEV then Fin 0 else fmul (fmul (biSpot i) (normPdf m (d1_of m i sd))) (jmSqrt m (biT i))))"

subsection \<open>Implied volatility\<close>

text \<open>The loop: how many turns it may still take, and the bracket.\<close>

definition midpoint :: "double \<Rightarrow> double \<Rightarrow> double" where
  "midpoint lo hi = fdiv (fadd lo hi) (Fin 2)"

fun bisect :: "(double \<Rightarrow> bs_error + double) \<Rightarrow> double \<Rightarrow> nat \<Rightarrow> double \<Rightarrow> double \<Rightarrow> bs_error + double \<times> double" where
  "bisect f price 0 lo hi = Inr (lo, hi)"
| "bisect f price (Suc n) lo hi =
     (if \<not> flt IV_SOLVE_TOLERANCE (fsub hi lo) then Inr (lo, hi)
      else let mid = midpoint lo hi
           in case f mid of
                Inl e \<Rightarrow> Inl e
              | Inr p \<Rightarrow> if flt p price then bisect f price n mid hi else bisect f price n lo mid)"

definition impliedVol :: "js_math \<Rightarrow> double \<Rightarrow> bs_input \<Rightarrow> bs_error + double option" where
  "impliedVol m price i =
     (if \<not> is_finite price \<or> \<not> finite_pos (biSpot i) \<or> \<not> finite_pos (biStrike i) \<or> \<not> finite_pos (biT i) then Inr None
      else let intrinsic = intrinsicValue (biPut i) (biSpot i) (biStrike i);
               f = (\<lambda>vol. bsPrice m (i\<lparr>biVol := vol\<rparr>))
           in if \<not> flt intrinsic price \<or> \<not> flt price (upperBound (biPut i) (biSpot i) (biStrike i)) then Inr None
              else case f IV_SOLVE_MIN of
                     Inl e \<Rightarrow> Inl e
                   | Inr low \<Rightarrow>
                       if flt price low then Inr None
                       else case f IV_SOLVE_MAX of
                              Inl e \<Rightarrow> Inl e
                            | Inr high \<Rightarrow>
                                if flt high price then Inr None
                                else case bisect f price IV_SOLVE_ITERATIONS IV_SOLVE_MIN IV_SOLVE_MAX of
                                       Inl e \<Rightarrow> Inl e
                                     | Inr (lo, hi) \<Rightarrow> Inr (Some (midpoint lo hi)))"

subsection \<open>No arbitrage\<close>

lemma fle_Fin [simp]: "fle (Fin a) (Fin b) \<longleftrightarrow> a \<le> b"
  by (auto simp: fle_def)

lemma fle_refl [simp]: "x \<noteq> NaN \<Longrightarrow> fle x x"
  by (cases x) (simp_all add: fle_def)

lemma not_flt_fle: "x \<noteq> NaN \<Longrightarrow> y \<noteq> NaN \<Longrightarrow> \<not> flt x y \<longleftrightarrow> fle y x"
  by (simp add: fle_def)

lemma fle_trans: "fle x y \<Longrightarrow> fle y z \<Longrightarrow> fle x z"
  by (cases x; cases y; cases z) (auto simp: fle_def)

lemma clamp_bounds:
  assumes "fle lo hi" "x \<noteq> NaN"
  shows "fle lo (fmin hi (fmax lo x))" "fle (fmin hi (fmax lo x)) hi" "fmin hi (fmax lo x) \<noteq> NaN"
  using assms by (cases lo; cases hi; cases x; auto simp: fmin_def fmax_def fle_def)+

text \<open>Spot and strike are doubles: the double nearest to some number.\<close>

definition bs_doubles :: "bs_input \<Rightarrow> bool" where
  "bs_doubles i = (\<exists>s k. biSpot i = Fin s \<and> biStrike i = Fin k \<and> is_double s \<and> is_double k)"

lemma intrinsic_le_upper:
  assumes "assertInput i" "bs_doubles i"
  shows "fle (Fin 0) (intrinsicValue (biPut i) (biSpot i) (biStrike i))
    \<and> fle (intrinsicValue (biPut i) (biSpot i) (biStrike i)) (upperBound (biPut i) (biSpot i) (biStrike i))"
proof -
  obtain s k where i: "biSpot i = Fin s" "biStrike i = Fin k" "is_double s" "is_double k" using assms(2) by (auto simp: bs_doubles_def)
  then have p: "0 < s" "0 < k" using assms(1) by (auto simp: assertInput_def finite_pos_def)
  have "fle (fl (s - k)) (Fin s)" "fle (fl (k - s)) (Fin k)" using i p by (intro fl_le_double; simp)+
  moreover have "fle (Fin 0) (fmax x (Fin 0)) \<and> (fle x (Fin y) \<longrightarrow> 0 < y \<longrightarrow> fle (fmax x (Fin 0)) (Fin y))" if "x \<noteq> NaN" for x y
    using that by (cases x) (auto simp: fmax_def fle_def)
  moreover have "fl z \<noteq> NaN" for z unfolding fl_rounded by auto
  ultimately show ?thesis using i p by (simp add: intrinsicValue_def upperBound_def fsub_def)
qed

lemma fl_between:
  assumes "is_double a" "is_double b" "a \<le> x" "x \<le> b"
  obtains r where "fl x = Fin r" "is_double r" "a \<le> r" "r \<le> b" "r = rounded x"
proof -
  have "fle (Fin a) (fl x)" "fle (fl x) (Fin b)" using assms by (simp_all add: fl_ge_double fl_le_double)
  then obtain r where "fl x = Fin r" by (cases "fl x") (auto simp: fle_def)
  moreover from this have "r = rounded x" unfolding fl_rounded by (auto split: if_splits)
  ultimately show ?thesis using that fl_is_double \<open>fle (Fin a) (fl x)\<close> \<open>fle (fl x) (Fin b)\<close> by simp
qed

lemma tiny_double: "is_double (1 / 2 ^ 40)"
proof -
  have "double_like (1 / 2 ^ 40)" unfolding double_like_def
    by (rule exI [of _ 1], rule exI [of _ "- 40"]) (simp add: power_int_minus power_int_numeral)
  then show ?thesis by (simp only: is_double_iff) simp
qed

lemma min_stddev_pos: "\<exists>s. MIN_STDDEV = Fin s \<and> 0 < s"
proof -
  have "is_double 1" using small_is_double [of 1] by simp
  with tiny_double obtain s where "fl (1 / 1000000000000) = Fin s" "1 / 2 ^ 40 \<le> s"
    by (rule fl_between [of "1 / 2 ^ 40" 1 "1 / 1000000000000"]) simp_all
  then show ?thesis unfolding MIN_STDDEV_def by (intro exI [of _ s] conjI) (auto intro: less_le_trans [of 0 "1 / 2 ^ 40"])
qed

lemma priced_within_bounds:
  assumes "bsPrice m i = Inr p" "bs_doubles i" "p \<noteq> NaN"
  shows "fle (Fin 0) (intrinsicValue (biPut i) (biSpot i) (biStrike i))
    \<and> fle (intrinsicValue (biPut i) (biSpot i) (biStrike i)) p
    \<and> fle p (upperBound (biPut i) (biSpot i) (biStrike i))"
proof -
  have v: "assertInput i" using assms(1) by (auto simp: bsPrice_def split: if_splits)
  note b = intrinsic_le_upper [OF v assms(2)]
  consider "p = intrinsicValue (biPut i) (biSpot i) (biStrike i)"
    | raw where "p = fmin (upperBound (biPut i) (biSpot i) (biStrike i)) (fmax (intrinsicValue (biPut i) (biSpot i) (biStrike i)) raw)"
    using assms(1) v by (auto simp: bsPrice_def Let_def split: if_splits)
  then show ?thesis
  proof cases
    case 1
    then show ?thesis using b assms(3) by simp
  next
    case 2
    then have "raw \<noteq> NaN" using assms(3) by (auto simp: fmin_def fmax_def split: if_splits)
    then show ?thesis unfolding 2 using b clamp_bounds by blast
  qed
qed

text \<open>
  C13: no option is priced through its bounds. Whatever the platform's \<open>exp\<close>, \<open>log\<close> and \<open>sqrt\<close> return, the
  price of a call or put is at least its intrinsic value, which is not negative, and at most the spot or
  the strike; the only other outcome is \<open>NaN\<close>, which the callers refuse.
\<close>

theorem bsPrice_no_arbitrage:
  assumes "bsPrice m i = Inr p" "bs_doubles i" "p \<noteq> NaN"
  shows "fle (Fin 0) (intrinsicValue (biPut i) (biSpot i) (biStrike i))
    \<and> fle (intrinsicValue (biPut i) (biSpot i) (biStrike i)) p
    \<and> fle p (upperBound (biPut i) (biSpot i) (biStrike i))"
  by (rule priced_within_bounds [OF assms])

theorem bsPrice_no_arbitrage_witness:
  "fle (Fin 0) (intrinsicValue False (Fin 120) (Fin 100)) \<and> fle (intrinsicValue False (Fin 120) (Fin 100)) (Fin 20)
    \<and> fle (Fin 20) (upperBound False (Fin 120) (Fin 100))"
proof -
  let ?i = "\<lparr>biPut = False, biSpot = Fin 120, biStrike = Fin 100, biVol = Fin 0, biT = Fin 0\<rparr>"
  obtain s where s: "MIN_STDDEV = Fin s" "0 < s" using min_stddev_pos by blast
  have "flt (Fin 0) MIN_STDDEV" unfolding s(1) using s(2) by simp
  then have "bsPrice \<lparr>jmExp = id, jmLog = id, jmSqrt = id\<rparr> ?i = Inr (Fin 20)"
    using fl_int_exact [of 20] fl_int_exact [of 0]
    by (simp add: bsPrice_def assertInput_def finite_pos_def finite_nonneg_def is_finite_def stddev_def intrinsicValue_def fsub_def fmax_def fle_def)
  moreover have "bs_doubles ?i" using small_is_double [of 120] small_is_double [of 100] by (simp add: bs_doubles_def)
  ultimately show ?thesis using bsPrice_no_arbitrage [of _ ?i "Fin 20"] by simp
qed

subsection \<open>The bracket of the solver\<close>

lemma midpoint_between:
  assumes "is_double lo" "is_double hi" "0 < lo" "lo \<le> hi" "hi \<le> 20"
  obtains mid where "midpoint (Fin lo) (Fin hi) = Fin mid" "is_double mid" "lo \<le> mid" "mid \<le> hi"
    "\<bar>mid - (lo + hi) / 2\<bar> \<le> 2 powi (- 48)"
proof -
  have small: "\<bar>lo\<bar> < 2 ^ 1023" "\<bar>hi\<bar> < 2 ^ 1023"
    using assms(3-5) by (auto intro: le_less_trans [of _ 20])
  obtain s where s: "fl (lo + hi) = Fin s" "2 * lo \<le> s" "s \<le> 2 * hi" "s = rounded (lo + hi)"
    by (rule fl_between [of "2 * lo" "2 * hi" "lo + hi"]) (use assms is_double_twice small in auto)
  obtain mid where mid: "fl (s / 2) = Fin mid" "is_double mid" "lo \<le> mid" "mid \<le> hi" "mid = rounded (s / 2)"
    by (rule fl_between [of lo hi "s / 2"]) (use assms s in auto)
  define d :: rat where "d = 2 powi (- 49)"
  have d: "2 powi (6 - 54) = 2 * d" "2 powi (5 - 54) = d" "2 powi (- 48) = 2 * d"
    using powi_split [of 1 "- 49"] by (simp_all add: d_def)
  have "\<bar>rounded (lo + hi) - (lo + hi)\<bar> \<le> 2 powi (6 - 54)" using assms by (intro rounded_near) (simp_all add: power_int_numeral)
  moreover have "\<bar>rounded (s / 2) - s / 2\<bar> \<le> 2 powi (5 - 54)" using assms s by (intro rounded_near) (simp_all add: power_int_numeral)
  ultimately have "\<bar>mid - (lo + hi) / 2\<bar> \<le> 2 powi (- 48)" unfolding s(4) [symmetric] mid(5) [symmetric] d abs_le_iff by (auto simp: field_simps)
  moreover have "midpoint (Fin lo) (Fin hi) = Fin mid" by (simp add: midpoint_def s(1) mid(1))
  ultimately show ?thesis using that mid by blast
qed

text \<open>A bracket: at its lower end the price is not above the one sought, at its upper end not below it.\<close>

definition bracket :: "(double \<Rightarrow> bs_error + double) \<Rightarrow> double \<Rightarrow> rat \<Rightarrow> rat \<Rightarrow> bool" where
  "bracket f price lo hi =
     ((\<exists>p. f (Fin lo) = Inr p \<and> \<not> flt price p) \<and> (\<exists>p. f (Fin hi) = Inr p \<and> \<not> flt p price))"

lemma flt_asym: "flt x y \<Longrightarrow> \<not> flt y x"
  by (cases x; cases y) auto

lemma halving:
  fixes d :: rat
  assumes "w \<le> W / 2 + d" "0 < N"
  shows "w / N + 2 * d * (1 - 1 / N) \<le> W / (2 * N) + 2 * d * (1 - 1 / (2 * N))"
proof -
  have "w / N \<le> (W / 2 + d) / N" using assms by (intro divide_right_mono) simp_all
  also have "\<dots> = W / (2 * N) + d / N" using assms(2) by (simp add: field_simps)
  finally show ?thesis using assms(2) by (simp add: algebra_simps)
qed

lemma bisect_bracket:
  assumes "\<And>v. 0 < v \<Longrightarrow> \<exists>p. f (Fin v) = Inr p"
    and "is_double lo" "is_double hi" "0 < lo" "lo \<le> hi" "hi \<le> 20" "bracket f price lo hi"
  shows "\<exists>lo' hi'. bisect f price n (Fin lo) (Fin hi) = Inr (Fin lo', Fin hi') \<and> is_double lo' \<and> is_double hi'
    \<and> lo \<le> lo' \<and> lo' \<le> hi' \<and> hi' \<le> hi \<and> bracket f price lo' hi'
    \<and> (\<not> flt IV_SOLVE_TOLERANCE (fsub (Fin hi') (Fin lo')) \<or> hi' - lo' \<le> (hi - lo) / 2 ^ n + 2 * 2 powi (- 48) * (1 - 1 / 2 ^ n))"
  using assms(2-7)
proof (induction n arbitrary: lo hi)
  case (Suc n)
  obtain mid where mid: "midpoint (Fin lo) (Fin hi) = Fin mid" "is_double mid" "lo \<le> mid" "mid \<le> hi"
    "\<bar>mid - (lo + hi) / 2\<bar> \<le> 2 powi (- 48)" by (rule midpoint_between [OF Suc.prems(1-5)])
  obtain p where p: "f (Fin mid) = Inr p" using assms(1) [of mid] mid(3) Suc.prems(3) by fastforce
  let ?d = "2 powi (- 48) :: rat"
  obtain D where D: "?d = D" by blast
  have half: "mid - lo \<le> (hi - lo) / 2 + ?d" "hi - mid \<le> (hi - lo) / 2 + ?d" using mid(5) unfolding abs_le_iff D by (auto simp: field_simps)
  have step: "w / 2 ^ n + 2 * ?d * (1 - 1 / 2 ^ n) \<le> (hi - lo) / 2 ^ Suc n + 2 * ?d * (1 - 1 / 2 ^ Suc n)"
    if "w \<le> (hi - lo) / 2 + ?d" for w
    using halving [OF that, of "2 ^ n"] by (simp only: power_Suc zero_less_power zero_less_numeral simp_thms)
  show ?case
  proof (cases "flt IV_SOLVE_TOLERANCE (fsub (Fin hi) (Fin lo))")
    case True
    show ?thesis
    proof (cases "flt p price")
      case low: True
      then have "bracket f price mid hi" using Suc.prems(6) p flt_asym by (auto simp: bracket_def)
      from Suc.IH [OF mid(2) Suc.prems(2) _ mid(4) Suc.prems(5) this] Suc.prems(3) mid(3) step [OF half(2)] show ?thesis
        using True low mid(1) p by fastforce
    next
      case high: False
      then have "bracket f price lo mid" using Suc.prems(6) p by (auto simp: bracket_def)
      from Suc.IH [OF Suc.prems(1) mid(2) Suc.prems(3) mid(3) _ this] Suc.prems(5) mid(4) step [OF half(1)] show ?thesis
        using True high mid(1) p by fastforce
    qed
  qed (use Suc.prems in simp)
qed simp

lemma bracket_start:
  obtains lo where "IV_SOLVE_MIN = Fin lo" "is_double lo" "0 < lo" "lo \<le> 20"
proof -
  have "double_like (1 / 16384)" unfolding double_like_def
    by (rule exI [of _ 1], rule exI [of _ "- 14"]) (simp add: power_int_minus power_int_numeral)
  moreover have "\<bar>1 / 16384\<bar> < (2 ^ 1024 :: rat)" by simp
  ultimately have "is_double (1 / 16384)" by (simp only: is_double_iff)
  moreover have "is_double 20" using small_is_double [of 20] by simp
  ultimately obtain lo where "fl (1 / 10000) = Fin lo" "is_double lo" "1 / 16384 \<le> lo" "lo \<le> 20"
    by (rule fl_between [of "1 / 16384" 20 "1 / 10000"]) simp_all
  then show ?thesis using that by (simp add: IV_SOLVE_MIN_def)
qed

lemma narrow_enough:
  assumes "hi' - lo' \<le> 1 / 10 ^ 12"
  shows "\<not> flt IV_SOLVE_TOLERANCE (fsub (Fin hi') (Fin lo'))"
proof -
  have "fle (fl (hi' - lo')) (fl (1 / 10 ^ 12))" using assms by (rule fl_mono)
  then show ?thesis by (simp add: IV_SOLVE_TOLERANCE_def fsub_def fle_def)
qed

text \<open>
  C14: the solver always answers, and its answer is bracketed. For every input the code accepts, whatever the
  platform's functions return, solving raises nothing; and when it finds a volatility, that lies between two
  volatilities inside the configured range at which the price is not above and not below the one sought,
  and the loop has ended because the two are within the tolerance, never because it ran out of turns.
\<close>

theorem impliedVol_brackets:
  assumes "bs_doubles i"
  shows "\<exists>r. impliedVol m price i = Inr r
    \<and> (r = None \<or> (\<exists>lo hi v. r = Some (Fin v) \<and> fle IV_SOLVE_MIN (Fin lo) \<and> lo \<le> v \<and> v \<le> hi \<and> fle (Fin hi) IV_SOLVE_MAX
         \<and> bracket (\<lambda>vol. bsPrice m (i\<lparr>biVol := vol\<rparr>)) price lo hi
         \<and> \<not> flt IV_SOLVE_TOLERANCE (fsub (Fin hi) (Fin lo))))"
proof -
  let ?f = "\<lambda>vol. bsPrice m (i\<lparr>biVol := vol\<rparr>)"
  obtain a where a: "IV_SOLVE_MIN = Fin a" "is_double a" "0 < a" "a \<le> 20" by (rule bracket_start)
  show ?thesis
  proof (cases "is_finite price \<and> finite_pos (biSpot i) \<and> finite_pos (biStrike i) \<and> finite_pos (biT i)
      \<and> flt (intrinsicValue (biPut i) (biSpot i) (biStrike i)) price \<and> flt price (upperBound (biPut i) (biSpot i) (biStrike i))")
    case True
    have "finite_nonneg (biT i)" using True by (cases "biT i") (auto simp: finite_pos_def finite_nonneg_def is_finite_def)
    then have total: "\<exists>p. ?f (Fin v) = Inr p" if "0 < v" for v
      using that True by (simp add: bsPrice_def assertInput_def finite_nonneg_def is_finite_def Let_def)
    obtain low high where p: "?f IV_SOLVE_MIN = Inr low" "?f IV_SOLVE_MAX = Inr high"
      using total [of a] total [of 20] a by (auto simp: IV_SOLVE_MAX_def)
    show ?thesis
    proof (cases "flt price low \<or> flt high price")
      case True': False
      then have br: "bracket ?f price a 20" using p a by (simp add: bracket_def IV_SOLVE_MAX_def)
      obtain lo hi where b: "bisect ?f price 100 (Fin a) (Fin 20) = Inr (Fin lo, Fin hi)" "is_double lo" "is_double hi"
        "a \<le> lo" "lo \<le> hi" "hi \<le> 20" "bracket ?f price lo hi"
        "\<not> flt IV_SOLVE_TOLERANCE (fsub (Fin hi) (Fin lo)) \<or> hi - lo \<le> (20 - a) / 2 ^ 100 + 2 * 2 powi (- 48) * (1 - 1 / 2 ^ 100)"
        using bisect_bracket [OF total a(2) _ a(3,4) _ br, of 100] small_is_double [of 20] by auto
      obtain v where v: "midpoint (Fin lo) (Fin hi) = Fin v" "lo \<le> v" "v \<le> hi"
        using midpoint_between [OF b(2,3) _ b(5,6)] a(3) b(4) by (metis order_less_le_trans)
      have "(20 - a) / 2 ^ 100 + 2 * 2 powi (- 48) * (1 - 1 / 2 ^ 100) \<le> (1 / 10 ^ 12 :: rat)"
      proof -
        have "(20 - a) / 2 ^ 100 \<le> 20 / 2 ^ 100" using a(3) by (intro divide_right_mono) simp_all
        moreover have "20 / 2 ^ 100 + 2 * 2 powi (- 48) * (1 - 1 / 2 ^ 100) \<le> (1 / 10 ^ 12 :: rat)"
          by (simp add: power_int_minus power_int_numeral)
        ultimately show ?thesis by linarith
      qed
      then have tol: "\<not> flt IV_SOLVE_TOLERANCE (fsub (Fin hi) (Fin lo))" using b(8) narrow_enough [of hi lo] order_trans by blast
      have "impliedVol m price i = Inr (Some (Fin v))"
        using True True' p b(1) v(1) a(1) by (simp add: impliedVol_def Let_def IV_SOLVE_ITERATIONS_def IV_SOLVE_MAX_def)
      moreover have "fle IV_SOLVE_MIN (Fin lo)" "fle (Fin hi) IV_SOLVE_MAX" unfolding a(1) IV_SOLVE_MAX_def using b(4,6) by simp_all
      ultimately show ?thesis using v b(7) tol by blast
    qed (use True p in \<open>auto simp: impliedVol_def Let_def\<close>)
  qed (auto simp: impliedVol_def Let_def)
qed

theorem impliedVol_brackets_witness:
  "\<exists>r. impliedVol \<lparr>jmExp = id, jmLog = id, jmSqrt = id\<rparr> (Fin 5)
         \<lparr>biPut = False, biSpot = Fin 100, biStrike = Fin 100, biVol = Fin 0, biT = Fin 1\<rparr> = Inr r"
proof -
  let ?i = "\<lparr>biPut = False, biSpot = Fin 100, biStrike = Fin 100, biVol = Fin 0, biT = Fin 1\<rparr>"
  have "bs_doubles ?i" using small_is_double [of 100] by (simp add: bs_doubles_def)
  from impliedVol_brackets [OF this, of "\<lparr>jmExp = id, jmLog = id, jmSqrt = id\<rparr>" "Fin 5"] show ?thesis by blast
qed

end
