(* ===== verification/Dates.thy ===== *)
theory Dates
  imports JsPrelude
begin

section \<open>Calendar days (Date.UTC and its inverse)\<close>

text \<open>
  The dates of the language: a day is its number since 1 January 1970, \<open>utc_day\<close> is the day of
  \<open>Date.UTC(year, month - 1, day)\<close>, with any overflow of the day carried on, and \<open>date_of\<close> are \<open>getUTCFullYear\<close>,
  \<open>getUTCMonth() + 1\<close> and \<open>getUTCDate\<close>. (Years 0 to 99, which \<open>Date.UTC\<close> reads as 1900 and on, do
  not occur.) Months are numbered from one.
\<close>

definition year_start :: "int \<Rightarrow> int" where
  "year_start y = 365 * (y - 1970) + (y - 1969) div 4 - (y - 1901) div 100 + (y - 1601) div 400"

definition is_leap :: "int \<Rightarrow> bool" where
  "is_leap y = (y mod 4 = 0 \<and> (y mod 100 \<noteq> 0 \<or> y mod 400 = 0))"

definition month_starts :: "bool \<Rightarrow> int list" where
  "month_starts leap =
     (if leap then [0, 31, 60, 91, 121, 152, 182, 213, 244, 274, 305, 335] else [0, 31, 59, 90, 120, 151, 181, 212, 243, 273, 304, 334])"

definition utc_day :: "int \<Rightarrow> int \<Rightarrow> int \<Rightarrow> int" where
  "utc_day y m d =
     (let y' = y + (m - 1) div 12 in year_start y' + month_starts (is_leap y') ! nat ((m - 1) mod 12) + d - 1)"

definition year_of :: "int \<Rightarrow> int" where
  "year_of n =
     (let e = n * 400 div 146097 + 1970
      in if year_start (e + 1) \<le> n then e + 1 else if year_start e \<le> n then e else e - 1)"

definition date_of :: "int \<Rightarrow> int \<times> int \<times> int" where
  "date_of n =
     (let y = year_of n; k = n - year_start y; begun = filter (\<lambda>s. s \<le> k) (month_starts (is_leap y))
      in (y, int (length begun), k - last begun + 1))"

definition week_day :: "int \<Rightarrow> int" where
  "week_day n = (n + 4) mod 7"

definition month_length :: "int \<Rightarrow> int \<Rightarrow> int" where
  "month_length y m = (if m = 2 then (if is_leap y then 29 else 28) else if m \<in> {4, 6, 9, 11} then 30 else 31)"

definition valid_date :: "int \<times> int \<times> int \<Rightarrow> bool" where
  "valid_date ymd = (case ymd of (y, m, d) \<Rightarrow> 1 \<le> m \<and> m \<le> 12 \<and> 1 \<le> d \<and> d \<le> month_length y m)"

lemma div_step:
  fixes k x :: int
  assumes "0 < k"
  shows "(x + 1) div k = x div k + (if (x + 1) mod k = 0 then 1 else 0)"
proof (cases "x mod k = k - 1")
  case True
  have "x div k * k + (k - 1) = x" using div_mult_mod_eq [of x k] unfolding True .
  then have "x + 1 = (x div k + 1) * k" by (simp add: distrib_right)
  then show ?thesis using assms by simp
next
  case False
  then have r: "0 \<le> x mod k + 1" "x mod k + 1 < k"
    using pos_mod_bound [OF assms, of x] pos_mod_sign [OF assms, of x] by linarith+
  have "x + 1 = x div k * k + (x mod k + 1)" by simp
  then have "(x + 1) div k = x div k" "(x + 1) mod k = x mod k + 1"
    using r int_div_pos_eq [of "x + 1" k "x div k" "x mod k + 1"] int_mod_pos_eq [of "x + 1" k "x div k" "x mod k + 1"]
    by (simp_all only: mult.commute)
  then show ?thesis using pos_mod_sign [OF assms, of x] by simp
qed

lemma year_length: "year_start (y + 1) = year_start y + (if is_leap y then 366 else 365)"
proof -
  have e: "y - 1969 + 1 = y + - 492 * 4" "y - 1901 + 1 = y + - 19 * 100" "y - 1601 + 1 = y + - 4 * 400" by simp_all
  have m: "(y - 1969 + 1) mod 4 = y mod 4" "(y - 1901 + 1) mod 100 = y mod 100" "(y - 1601 + 1) mod 400 = y mod 400"
    unfolding e by (rule mod_mult_self1)+
  have "(100 :: int) dvd 400" "(4 :: int) dvd 100" by simp_all
  then have sub: "y mod 400 = 0 \<Longrightarrow> y mod 100 = 0" "y mod 100 = 0 \<Longrightarrow> y mod 4 = 0"
    by (metis dvd_imp_mod_0 dvd_trans mod_0_imp_dvd)+
  have d: "(y - 1969 + 1) div 4 = (y - 1969) div 4 + (if y mod 4 = 0 then 1 else 0)"
    "(y - 1901 + 1) div 100 = (y - 1901) div 100 + (if y mod 100 = 0 then 1 else 0)"
    "(y - 1601 + 1) div 400 = (y - 1601) div 400 + (if y mod 400 = 0 then 1 else 0)"
    using div_step [of 4 "y - 1969"] div_step [of 100 "y - 1901"] div_step [of 400 "y - 1601"] unfolding m by (simp_all only: zero_less_numeral simp_thms)
  define A B C where "A = (y - 1969) div 4" and "B = (y - 1901) div 100" and "C = (y - 1601) div 400"
  have now: "year_start y = 365 * (y - 1970) + A - B + C" by (simp only: year_start_def A_def B_def C_def)
  have "year_start (y + 1) = 365 * (y + 1 - 1970) + (y - 1969 + 1) div 4 - (y - 1901 + 1) div 100 + (y - 1601 + 1) div 400"
    by (simp only: year_start_def diff_add_eq)
  also have "\<dots> = 365 * (y + 1 - 1970) + (A + (if y mod 4 = 0 then 1 else 0)) - (B + (if y mod 100 = 0 then 1 else 0))
      + (C + (if y mod 400 = 0 then 1 else 0))"
    unfolding d A_def B_def C_def ..
  finally show ?thesis
    unfolding now is_leap_def using sub by (cases "y mod 4 = 0"; cases "y mod 100 = 0"; cases "y mod 400 = 0") simp_all
qed

lemma year_start_strict: "y < z \<Longrightarrow> year_start y + 365 \<le> year_start z"
proof (induction "nat (z - y)" arbitrary: z)
  case (Suc n)
  have "year_start (z - 1) + 365 \<le> year_start z" using year_length [of "z - 1"] by (simp split: if_splits)
  moreover have "y = z - 1 \<or> year_start y + 365 \<le> year_start (z - 1)" using Suc.hyps(1) [of "z - 1"] Suc.hyps(2) Suc.prems by force
  ultimately show ?case by auto
qed simp

lemma year_start_estimate:
  "400 * year_start y \<le> 146097 * (y - 1970) + 800" "146097 * (y - 1970) - 800 \<le> 400 * year_start y"
proof -
  define a b c where "a = (y - 1969) div 4" and "b = (y - 1901) div 100" and "c = (y - 1601) div 400"
  have "4 * a \<le> y - 1969" "y - 1969 \<le> 4 * a + 3" "100 * b \<le> y - 1901" "y - 1901 \<le> 100 * b + 99"
    "400 * c \<le> y - 1601" "y - 1601 \<le> 400 * c + 399" unfolding a_def b_def c_def by presburger+
  moreover have "year_start y = 365 * (y - 1970) + a - b + c" by (simp add: year_start_def a_def b_def c_def)
  ultimately show "400 * year_start y \<le> 146097 * (y - 1970) + 800" "146097 * (y - 1970) - 800 \<le> 400 * year_start y"
    by (simp_all add: algebra_simps)
qed

lemma year_of_bounds: "year_start (year_of n) \<le> n" "n < year_start (year_of n + 1)"
proof -
  define e where "e = n * 400 div 146097 + 1970"
  have e: "146097 * (e - 1970) \<le> 400 * n" "400 * n < 146097 * (e - 1970) + 146097"
    using div_mult_mod_eq [of "n * 400" 146097] pos_mod_bound [of 146097 "n * 400"] pos_mod_sign [of 146097 "n * 400"]
    by (simp_all add: e_def)
  have "year_start (e - 1) \<le> n" using year_start_estimate(1) [of "e - 1"] e(1) by (simp add: algebra_simps)
  moreover have "n < year_start (e + 2)" using year_start_estimate(2) [of "e + 2"] e(2) by (simp add: algebra_simps)
  moreover have "year_of n = (if year_start (e + 1) \<le> n then e + 1 else if year_start e \<le> n then e else e - 1)"
    by (simp add: year_of_def e_def Let_def)
  ultimately show "year_start (year_of n) \<le> n" "n < year_start (year_of n + 1)" by (auto simp: add.assoc)
qed

lemma year_of_unique:
  assumes "year_start y \<le> n" "n < year_start (y + 1)"
  shows "year_of n = y"
proof -
  have "\<not> year_of n + 1 \<le> y"
    using year_start_strict [of "year_of n + 1" y] year_of_bounds(2) [of n] assms(1) by (cases "year_of n + 1 = y") auto
  moreover have "\<not> y + 1 \<le> year_of n"
    using year_start_strict [of "y + 1" "year_of n"] year_of_bounds(1) [of n] assms(2) by (cases "y + 1 = year_of n") auto
  ultimately show ?thesis by simp
qed

subsection \<open>Months\<close>

definition year_size :: "bool \<Rightarrow> int" where
  "year_size leap = (if leap then 366 else 365)"

definition begun :: "bool \<Rightarrow> int \<Rightarrow> int list" where
  "begun leap k = filter (\<lambda>s. s \<le> k) (month_starts leap)"

lemma date_of_begun: "date_of n = (year_of n, int (length (begun (is_leap (year_of n)) (n - year_start (year_of n)))),
    n - year_start (year_of n) - last (begun (is_leap (year_of n)) (n - year_start (year_of n))) + 1)"
  by (simp add: date_of_def begun_def Let_def)

definition month_size :: "bool \<Rightarrow> int \<Rightarrow> int" where
  "month_size leap m = (if m = 2 then (if leap then 29 else 28) else if m \<in> {4, 6, 9, 11} then 30 else 31)"

lemma filter_sorted_prefix:
  fixes xs :: "int list"
  assumes "sorted_wrt (<) xs" "i < length xs" "xs ! i \<le> k" "Suc i < length xs \<longrightarrow> k < xs ! Suc i"
  shows "filter (\<lambda>s. s \<le> k) xs = take (Suc i) xs"
proof -
  have "filter (\<lambda>s. s \<le> k) (take (Suc i) xs) = take (Suc i) xs"
  proof (rule filter_True, rule ballI)
    fix s assume "s \<in> set (take (Suc i) xs)"
    then obtain j where "j \<le> i" "s = xs ! j" by (auto simp: in_set_conv_nth less_Suc_eq_le)
    then show "s \<le> k" using assms(1-3) sorted_wrt_nth_less [OF assms(1), of j i] by (cases "j = i") auto
  qed
  moreover have "filter (\<lambda>s. s \<le> k) (drop (Suc i) xs) = []"
  proof (rule filter_False, rule ballI)
    fix s assume "s \<in> set (drop (Suc i) xs)"
    then obtain j where "j < length xs - Suc i" "s = drop (Suc i) xs ! j" by (auto simp: in_set_conv_nth)
    then have j: "Suc i + j < length xs" "s = xs ! (Suc i + j)" using assms(2) by simp_all
    have "xs ! Suc i \<le> s"
    proof (cases "j = 0")
      case False
      then have "xs ! Suc i < xs ! (Suc i + j)" using j(1) by (intro sorted_wrt_nth_less [OF assms(1)]) simp_all
      then show ?thesis using j(2) by simp
    qed (use j in simp)
    moreover have "k < xs ! Suc i" using assms(4) j(1) by simp
    ultimately show "\<not> s \<le> k" by simp
  qed
  ultimately show ?thesis using filter_append [of "\<lambda>s. s \<le> k" "take (Suc i) xs" "drop (Suc i) xs"] by simp
qed

lemma month_table:
  "length (month_starts leap) = 12" "sorted_wrt (<) (month_starts leap)"
  "i < 11 \<Longrightarrow> month_starts leap ! Suc i = month_starts leap ! i + month_size leap (int (Suc i))"
  "month_starts leap ! 11 + month_size leap 12 = year_size leap" "month_starts leap ! 0 = 0"
proof -
  have "\<forall>i \<in> set [0, 1, 2, 3, 4, 5, 6, 7, 8, 9, 10]. month_starts leap ! Suc i = month_starts leap ! i + month_size leap (int (Suc i))"
    by (cases leap; simp add: month_starts_def month_size_def)
  moreover have "i \<in> set [0, 1, 2, 3, 4, 5, 6, 7, 8, 9, 10]" if "i < 11" using that by (simp add: less_Suc_eq numeral_eq_Suc)
  ultimately show "i < 11 \<Longrightarrow> month_starts leap ! Suc i = month_starts leap ! i + month_size leap (int (Suc i))" by blast
qed (cases leap; simp add: month_starts_def month_size_def year_size_def)+

lemma begun_month:
  assumes "1 \<le> m" "m \<le> 12" "1 \<le> d" "d \<le> month_size leap m"
  shows "int (length (begun leap (month_starts leap ! nat (m - 1) + d - 1))) = m"
    and "last (begun leap (month_starts leap ! nat (m - 1) + d - 1)) = month_starts leap ! nat (m - 1)"
    and "0 \<le> month_starts leap ! nat (m - 1) + d - 1" "month_starts leap ! nat (m - 1) + d - 1 < year_size leap"
proof -
  define i where "i = nat (m - 1)"
  have i: "i < 12" "m = int (Suc i)" using assms(1,2) by (auto simp: i_def)
  have next_month: "Suc i < 12 \<longrightarrow> month_starts leap ! i + d - 1 < month_starts leap ! Suc i"
    using month_table(3) [of i leap] assms(4) i by simp
  then have b: "begun leap (month_starts leap ! i + d - 1) = take (Suc i) (month_starts leap)"
    unfolding begun_def using i assms(3) by (intro filter_sorted_prefix) (simp_all add: month_table)
  then show "int (length (begun leap (month_starts leap ! nat (m - 1) + d - 1))) = m"
    "last (begun leap (month_starts leap ! nat (m - 1) + d - 1)) = month_starts leap ! nat (m - 1)"
    using i by (simp_all add: month_table take_Suc_conv_app_nth flip: i_def)
  have mono: "month_starts leap ! 0 \<le> month_starts leap ! i" "month_starts leap ! i \<le> month_starts leap ! 11"
    using sorted_wrt_nth_less [OF month_table(2), of 0 i leap] sorted_wrt_nth_less [OF month_table(2), of i 11 leap] i
    by (cases "i = 0"; cases "i = 11"; simp add: month_table)+
  then show "0 \<le> month_starts leap ! nat (m - 1) + d - 1" using assms(3) by (simp add: month_table flip: i_def)
  show "month_starts leap ! nat (m - 1) + d - 1 < year_size leap"
  proof (cases "i = 11")
    case True
    then show ?thesis using month_table(4) [of leap] assms(4) i by (simp flip: i_def)
  next
    case False
    then have "Suc i < 12" "Suc i = 11 \<or> Suc i < 11" using i by linarith+
    have "month_starts leap ! Suc i \<le> month_starts leap ! 11"
    proof (cases "Suc i = 11")
      case True
      show ?thesis unfolding True by (rule order_refl)
    next
      case False
      then show ?thesis using \<open>Suc i = 11 \<or> Suc i < 11\<close> sorted_wrt_nth_less [OF month_table(2), of "Suc i" 11 leap] by (simp add: month_table)
    qed
    with \<open>Suc i < 12\<close> have "Suc i < 12" "month_starts leap ! Suc i \<le> month_starts leap ! 11" .
    moreover have "0 < month_size leap 12" by (simp add: month_size_def)
    ultimately show ?thesis using next_month month_table(4) [of leap] by (auto simp flip: i_def)
  qed
qed

lemma month_found:
  assumes "0 \<le> k" "k < year_size leap"
  obtains m d where "1 \<le> m" "m \<le> 12" "1 \<le> d" "d \<le> month_size leap m" "k = month_starts leap ! nat (m - 1) + d - 1"
proof -
  have "\<exists>i < 12. month_starts leap ! i \<le> k \<and> k < month_starts leap ! i + month_size leap (int (Suc i))"
  proof (rule ccontr)
    assume no: "\<not> (\<exists>i < 12. month_starts leap ! i \<le> k \<and> k < month_starts leap ! i + month_size leap (int (Suc i)))"
    have "i < 12 \<Longrightarrow> month_starts leap ! i + month_size leap (int (Suc i)) \<le> k" for i
    proof (induction i)
      case 0
      then show ?case using no assms(1) month_table(5) by fastforce
    next
      case (Suc i)
      then show ?case using no month_table(3) [of i leap] by fastforce
    qed
    from this [of 11] show False using month_table(4) [of leap] assms(2) by simp
  qed
  then obtain i where i: "i < 12" "month_starts leap ! i \<le> k" "k < month_starts leap ! i + month_size leap (int (Suc i))" by blast
  show ?thesis by (rule that [of "int (Suc i)" "k - month_starts leap ! i + 1"]) (use i in auto)
qed

text \<open>
  Days and dates are inverse to each other. The date of the day of a valid date is that date, the date of
  every day is valid, and its day is the day itself: no day is skipped or counted twice.
\<close>

lemma date_inverse:
  "(valid_date (y, m, d) \<longrightarrow> date_of (utc_day y m d) = (y, m, d))
   \<and> valid_date (date_of n) \<and> (case date_of n of (y', m', d') \<Rightarrow> utc_day y' m' d' = n)"
proof -
  have size: "year_start (y + 1) = year_start y + year_size (is_leap y)" for y by (simp add: year_length year_size_def)
  have len: "month_length y m = month_size (is_leap y) m" for y m by (simp add: month_length_def month_size_def)
  have day: "utc_day y m d = year_start y + (month_starts (is_leap y) ! nat (m - 1) + d - 1)" if "1 \<le> m" "m \<le> 12" for y m d
    using that by (simp add: utc_day_def Let_def)
  have one: "date_of (utc_day y m d) = (y, m, d)" if "valid_date (y, m, d)" for y m d
  proof -
    have v: "1 \<le> m" "m \<le> 12" "1 \<le> d" "d \<le> month_size (is_leap y) m" using that by (simp_all add: valid_date_def len)
    note b = begun_month [OF v]
    have "year_of (utc_day y m d) = y" unfolding day [OF v(1,2)] using b(3,4) size [of y] by (intro year_of_unique) simp_all
    then show ?thesis using b(1,2) by (simp add: date_of_begun day [OF v(1,2)])
  qed
  have "valid_date (date_of n) \<and> (case date_of n of (y', m', d') \<Rightarrow> utc_day y' m' d' = n)"
  proof -
    have k: "0 \<le> n - year_start (year_of n)" "n - year_start (year_of n) < year_size (is_leap (year_of n))"
      using year_of_bounds [of n] size [of "year_of n"] by simp_all
    obtain m d where md: "1 \<le> m" "m \<le> 12" "1 \<le> d" "d \<le> month_size (is_leap (year_of n)) m"
      "n - year_start (year_of n) = month_starts (is_leap (year_of n)) ! nat (m - 1) + d - 1" by (rule month_found [OF k])
    then have v: "valid_date (year_of n, m, d)" by (simp add: valid_date_def len)
    have n: "utc_day (year_of n) m d = n" using md(5) by (simp add: day [OF md(1,2)])
    show ?thesis using one [OF v] v n by (simp only: n prod.case)
  qed
  then show ?thesis using one by blast
qed

end
