(* ===== verification/TradingClock.thy ===== *)
theory TradingClock
  imports Dates BlackScholes TickInputs
begin

section \<open>Trading time (keeper/src/calendar.ts, pricing/bs.ts) and the greeks of a series (mm/engine.ts)\<close>

text \<open>
  Regular-session seconds between two instants: the clock every option value runs on. The time zone
  database is the argument \<open>zone\<close>, the offset of New York from UTC in seconds at an instant; the wall
  clock is the instant moved by it. Instants are whole seconds. At the end, the records of functions that SpotLag
  and TickInputs take as arguments, built from this clock and the formulas of BlackScholes.
\<close>

definition SESSION_OPEN_SECONDS_ET :: int where "SESSION_OPEN_SECONDS_ET = 9 * 3600 + 1800"
definition SESSION_SECONDS :: int where "SESSION_SECONDS = 23400"
definition TRADING_DAYS_PER_YEAR :: int where "TRADING_DAYS_PER_YEAR = 252"
definition TRADING_YEAR_SECONDS :: int where "TRADING_YEAR_SECONDS = SESSION_SECONDS * TRADING_DAYS_PER_YEAR"
definition MAX_SPAN_DAYS :: int where "MAX_SPAN_DAYS = 1000"
definition CLOSE_HOUR_ET :: int where "CLOSE_HOUR_ET = 16"

definition NYSE_HOLIDAYS_2026_2027 :: "string list" where
  "NYSE_HOLIDAYS_2026_2027 =
     [''2026-01-01'', ''2026-01-19'', ''2026-02-16'', ''2026-04-03'', ''2026-05-25'', ''2026-06-19'', ''2026-07-03'', ''2026-09-07'',
      ''2026-11-26'', ''2026-12-25'', ''2027-01-01'', ''2027-01-18'', ''2027-02-15'', ''2027-03-26'', ''2027-05-31'', ''2027-06-18'',
      ''2027-07-05'', ''2027-09-06'', ''2027-11-25'', ''2027-12-24'']"

definition NYSE_HOLIDAYS_2028 :: "string list" where
  "NYSE_HOLIDAYS_2028 =
     [''2028-01-17'', ''2028-02-21'', ''2028-04-14'', ''2028-05-29'', ''2028-06-19'', ''2028-07-04'', ''2028-09-04'', ''2028-11-23'', ''2028-12-25'']"

definition NYSE_HOLIDAYS_2026_2028 :: "string list" where
  "NYSE_HOLIDAYS_2026_2028 = NYSE_HOLIDAYS_2026_2027 @ NYSE_HOLIDAYS_2028"

type_synonym zone = "int \<Rightarrow> int"

subsection \<open>New York local time\<close>

text \<open>The day of the wall clock, and the date parts of \<open>newYorkParts\<close>.\<close>

definition local_day :: "zone \<Rightarrow> seconds \<Rightarrow> int" where
  "local_day zone t = (t + zone t) div 86400"

definition newYorkParts :: "zone \<Rightarrow> seconds \<Rightarrow> int \<times> int \<times> int" where
  "newYorkParts zone t = date_of (local_day zone t)"

fun ny_guess :: "zone \<Rightarrow> seconds \<Rightarrow> nat \<Rightarrow> seconds \<Rightarrow> seconds" where
  "ny_guess zone utc 0 guess = guess"
| "ny_guess zone utc (Suc k) guess =
     (let corrected = utc - zone guess in if corrected = guess then guess else ny_guess zone utc k corrected)"

definition newYorkTimeToUnix :: "zone \<Rightarrow> int \<Rightarrow> int \<Rightarrow> int \<Rightarrow> int \<Rightarrow> seconds" where
  "newYorkTimeToUnix zone y m d hour =
     (let utc = utc_day y m d * 86400 + hour * 3600 in ny_guess zone utc 3 utc)"

definition pad2 :: "int \<Rightarrow> string" where
  "pad2 n = (let s = show_int n in if length s < 2 then ''0'' @ s else s)"

definition isoDay :: "int \<Rightarrow> int \<Rightarrow> int \<Rightarrow> string" where
  "isoDay y m d = show_int y @ ''-'' @ pad2 m @ ''-'' @ pad2 d"

subsection \<open>Session seconds\<close>

datatype clock_error = SpanTooLong

definition sessionBounds :: "zone \<Rightarrow> int \<Rightarrow> int \<Rightarrow> int \<Rightarrow> seconds \<times> seconds" where
  "sessionBounds zone y m d =
     (newYorkTimeToUnix zone y m d 9 + (SESSION_OPEN_SECONDS_ET - 9 * 3600), newYorkTimeToUnix zone y m d CLOSE_HOUR_ET)"

definition date_key :: "int \<times> int \<times> int \<Rightarrow> int" where
  "date_key ymd = (case ymd of (y, m, d) \<Rightarrow> y * 10000 + m * 100 + d)"

definition trades_on :: "string list \<Rightarrow> int \<times> int \<times> int \<Rightarrow> bool" where
  "trades_on holidays ymd =
     (case ymd of (y, m, d) \<Rightarrow> week_day (utc_day y m d) \<noteq> 0 \<and> week_day (utc_day y m d) \<noteq> 6 \<and> isoDay y m d \<notin> set holidays)"

definition overlap :: "zone \<Rightarrow> int \<times> int \<times> int \<Rightarrow> seconds \<Rightarrow> seconds \<Rightarrow> int" where
  "overlap zone ymd fromUnix toUnix =
     (case ymd of (y, m, d) \<Rightarrow> let (open', close) = sessionBounds zone y m d in max 0 (min close toUnix - max open' fromUnix))"

text \<open>The loop over the days from the first: how many more it may look at, the day's index, the seconds so far.\<close>

fun session_loop :: "zone \<Rightarrow> string list \<Rightarrow> seconds \<Rightarrow> seconds \<Rightarrow> nat \<Rightarrow> int \<Rightarrow> int \<Rightarrow> clock_error + int" where
  "session_loop zone holidays fromUnix toUnix 0 i acc = Inl SpanTooLong"
| "session_loop zone holidays fromUnix toUnix (Suc r) i acc =
     (let (sy, sm, sd) = newYorkParts zone fromUnix;
          ymd = date_of (utc_day sy sm (sd + i))
      in if date_key ymd > date_key (newYorkParts zone toUnix) then Inr acc
         else session_loop zone holidays fromUnix toUnix r (i + 1)
                (if trades_on holidays ymd then acc + overlap zone ymd fromUnix toUnix else acc))"

definition sessionSecondsBetween :: "zone \<Rightarrow> string list \<Rightarrow> seconds \<Rightarrow> seconds \<Rightarrow> clock_error + int" where
  "sessionSecondsBetween zone holidays fromUnix toUnix =
     (if toUnix \<le> fromUnix then Inr 0 else session_loop zone holidays fromUnix toUnix (nat (MAX_SPAN_DAYS + 1)) 0 0)"

definition tradingYears :: "zone \<Rightarrow> string list \<Rightarrow> seconds \<Rightarrow> seconds \<Rightarrow> clock_error + double" where
  "tradingYears zone holidays fromUnix toUnix =
     (case sessionSecondsBetween zone holidays fromUnix toUnix of
        Inl e \<Rightarrow> Inl e | Inr s \<Rightarrow> Inr (fdiv (number_of s) (number_of TRADING_YEAR_SECONDS)))"

definition sessionOpenOf :: "zone \<Rightarrow> string list \<Rightarrow> seconds \<Rightarrow> seconds option" where
  "sessionOpenOf zone holidays t =
     (case newYorkParts zone t of (y, m, d) \<Rightarrow> if trades_on holidays (y, m, d) then Some (fst (sessionBounds zone y m d)) else None)"

subsection \<open>The greeks of a series\<close>

definition localGreeks :: "js_math \<Rightarrow> zone \<Rightarrow> seconds \<Rightarrow> series_info \<Rightarrow> usdg6 \<Rightarrow> double \<Rightarrow> clock_error + greeks option" where
  "localGreeks m zone now series spot vol =
     (if spot \<le> 0 \<or> siStrike series \<le> 0 \<or> \<not> is_finite vol \<or> flt vol (Fin 0) then Inr None
      else case tradingYears zone NYSE_HOLIDAYS_2026_2028 now (siExpiry series) of
             Inl e \<Rightarrow> Inl e
           | Inr t \<Rightarrow>
               let bs = \<lparr>biPut = siIsPut series, biSpot = fdiv (number_of spot) (number_of 1000000),
                     biStrike = fdiv (number_of (siStrike series)) (number_of 1000000), biVol = vol, biT = t\<rparr>
               in Inr (case (bsDelta m bs, bsGamma m bs, bsVega m bs) of
                    (Inr d, Inr g, Inr v) \<Rightarrow> Some \<lparr>gkDelta = d, gkGamma = g, gkVega = v\<rparr>
                  | _ \<Rightarrow> None))"

text \<open>
  The arguments of SpotLag and TickInputs, built from these formulas and this clock. (An error of the clock, raised
  for an expiry more than a thousand days away, is \<open>None\<close> here; \<open>localGreeks\<close> itself lets it through to its caller.)
\<close>

definition bs_of :: "js_math \<Rightarrow> zone \<Rightarrow> bs_model" where
  "bs_of m zone =
     \<lparr>bmPrice = (\<lambda>isPut spot strike vol t.
         case bsPrice m \<lparr>biPut = isPut, biSpot = spot, biStrike = strike, biVol = vol, biT = t\<rparr> of Inl e \<Rightarrow> None | Inr p \<Rightarrow> Some p),
      bmYears = (\<lambda>fromUnix toUnix. case tradingYears zone NYSE_HOLIDAYS_2026_2028 fromUnix toUnix of Inl e \<Rightarrow> None | Inr t \<Rightarrow> Some t),
      bmSqrt = jmSqrt m\<rparr>"

definition tick_env_of :: "js_math \<Rightarrow> zone \<Rightarrow> tick_env" where
  "tick_env_of m zone =
     \<lparr>teBs = bs_of m zone,
      teGreeks = (\<lambda>now series spot vol. case localGreeks m zone now series spot vol of Inl e \<Rightarrow> None | Inr g \<Rightarrow> g)\<rparr>"

text \<open>A quote's price in SpotLag, with these formulas, stays within the option's bounds.\<close>

lemma price_at_bounds:
  assumes "price_at (bs_of m zone) series iv spot t = Some p" "0 < spot" "0 < siStrike series"
    "spot < 2 ^ 53" "siStrike series < 2 ^ 53"
  shows "fle (Fin 0) p \<and> fle p (upperBound (siIsPut series) (fdiv (number_of spot) (number_of 1000000)) (fdiv (number_of (siStrike series)) (number_of 1000000)))"
proof -
  have quote: "\<exists>r. fdiv (number_of n) (number_of 1000000) = Fin r \<and> is_double r" if n: "0 < n" "n < 2 ^ 53" for n
  proof -
    have "is_double 0" "is_double (of_int n)" using small_is_double [of n] small_is_double [of 0] n by simp_all
    then obtain r where "fl (of_int n / 1000000) = Fin r" "is_double r"
      by (rule fl_between [of 0 "of_int n" "of_int n / 1000000"]) (use n in auto)
    then show ?thesis using fl_int_exact [of n] fl_int_exact [of 1000000] n by (simp add: number_of_def)
  qed
  obtain y where "bsPrice m \<lparr>biPut = siIsPut series, biSpot = fdiv (number_of spot) (number_of 1000000),
      biStrike = fdiv (number_of (siStrike series)) (number_of 1000000), biVol = iv, biT = y\<rparr> = Inr p" "is_finite p"
    using assms(1) by (auto simp: price_at_def bs_of_def split: option.splits sum.splits if_splits)
  moreover from this(2) have "p \<noteq> NaN" by (auto simp: is_finite_def)
  ultimately have "fle (Fin 0) (intrinsicValue (siIsPut series) (fdiv (number_of spot) (number_of 1000000)) (fdiv (number_of (siStrike series)) (number_of 1000000)))
    \<and> fle (intrinsicValue (siIsPut series) (fdiv (number_of spot) (number_of 1000000)) (fdiv (number_of (siStrike series)) (number_of 1000000))) p
    \<and> fle p (upperBound (siIsPut series) (fdiv (number_of spot) (number_of 1000000)) (fdiv (number_of (siStrike series)) (number_of 1000000)))"
    using priced_within_bounds [of m _ p] quote [of spot] quote [of "siStrike series"] assms(2-5) by (fastforce simp: bs_doubles_def)
  then show ?thesis
    using fle_trans by blast
qed

subsection \<open>The sum over the session days\<close>

text \<open>
  What the zone database says of New York: on a trading day the offset does not change during the UTC day of
  its date and is between five and four hours west, and the wall clock never goes back to an earlier day.
\<close>

definition new_york :: "zone \<Rightarrow> bool" where
  "new_york zone =
     ((\<forall>n. week_day n \<noteq> 0 \<and> week_day n \<noteq> 6 \<longrightarrow>
         (\<exists>off. - 18000 \<le> off \<and> off \<le> - 14400 \<and> (\<forall>t. n * 86400 \<le> t \<and> t < (n + 1) * 86400 \<longrightarrow> zone t = off)))
      \<and> (\<forall>s t. s \<le> t \<longrightarrow> local_day zone s \<le> local_day zone t))"

lemma date_of_utc_day: "date_of n = (y, m, d) \<Longrightarrow> utc_day y m d = n"
  using date_inverse [of 0 0 0 n] by simp

lemma utc_day_shift: "utc_day y m (d + i) = utc_day y m d + i"
  by (simp add: utc_day_def Let_def)

lemma valid_date_of: "date_of n = (y, m, d) \<Longrightarrow> 1 \<le> m \<and> m \<le> 12 \<and> 1 \<le> d \<and> d \<le> 31"
  using date_inverse [of 0 0 0 n] by (auto simp: valid_date_def month_length_def split: if_splits)

text \<open>Dates and day numbers are in the same order.\<close>

lemma year_of_mono: "n \<le> k \<Longrightarrow> year_of n \<le> year_of k"
  using year_of_bounds [of n] year_of_bounds [of k] year_start_strict [of "year_of k + 1" "year_of n"]
  by (cases "year_of k + 1 = year_of n") (force simp: not_less)+

lemma length_filter_mono: "(\<And>x. P x \<Longrightarrow> Q x) \<Longrightarrow> length (filter P xs) \<le> length (filter Q xs)"
  by (induction xs) auto

lemma date_key_less:
  assumes "n < k"
  shows "date_key (date_of n) < date_key (date_of k)"
proof -
  obtain y m d y' m' d' where e: "date_of n = (y, m, d)" "date_of k = (y', m', d')" by (metis prod_cases3)
  note v = valid_date_of [OF e(1)] valid_date_of [OF e(2)]
  have y: "year_of n = y" "year_of k = y'" using e by (simp_all add: date_of_begun)
  have m: "int (length (begun (is_leap y) (n - year_start y))) = m" "int (length (begun (is_leap y') (k - year_start y'))) = m'"
    using e unfolding date_of_begun y by simp_all
  have "y \<le> y'" using year_of_mono [of n k] assms unfolding y by simp
  moreover have "y * 10000 + m * 100 + d < y' * 10000 + m' * 100 + d'" if "y = y'"
  proof -
    have "length (begun (is_leap y) (n - year_start y)) \<le> length (begun (is_leap y) (k - year_start y))"
      unfolding begun_def using assms by (intro length_filter_mono) simp
    then have "m \<le> m'" using m that by simp
    moreover have "d < d'" if "m = m'"
    proof -
      have "utc_day y m 0 + d < utc_day y m 0 + d'"
        using date_of_utc_day [OF e(1)] date_of_utc_day [OF e(2)] utc_day_shift [of y m 0 d] utc_day_shift [of y m 0 d'] assms \<open>y = y'\<close> that
        by simp
      then show ?thesis by simp
    qed
    ultimately show ?thesis using v that by (cases "m = m'") auto
  qed
  moreover have "y * 10000 + m * 100 + d < y' * 10000 + m' * 100 + d'" if "y < y'" using v that by simp
  ultimately show ?thesis unfolding e date_key_def by (cases "y = y'") auto
qed

lemma date_key_le: "date_key (date_of n) > date_key (date_of k) \<longleftrightarrow> k < n"
  using date_key_less [of k n] date_key_less [of n k] by (cases n k rule: linorder_cases) auto

text \<open>The seconds of one day: none unless the exchange trades.\<close>

definition day_seconds :: "zone \<Rightarrow> string list \<Rightarrow> seconds \<Rightarrow> seconds \<Rightarrow> int \<Rightarrow> int" where
  "day_seconds zone holidays fromUnix toUnix n =
     (if trades_on holidays (date_of n) then overlap zone (date_of n) fromUnix toUnix else 0)"

lemma session_loop_sum:
  assumes "session_loop zone holidays a b r i acc = Inr s" "local_day zone a + i \<le> local_day zone b + 1"
  shows "s = acc + sum (day_seconds zone holidays a b) {local_day zone a + i .. local_day zone b}"
  using assms
proof (induction r arbitrary: i acc)
  case (Suc r)
  obtain sy sm sd where p: "newYorkParts zone a = (sy, sm, sd)" by (metis prod_cases3)
  then have day: "utc_day sy sm (sd + i) = local_day zone a + i"
    using date_of_utc_day [of "local_day zone a"] by (simp add: newYorkParts_def utc_day_shift)
  define n where "n = local_day zone a + i"
  have key: "date_key (date_of n) > date_key (newYorkParts zone b) \<longleftrightarrow> local_day zone b < n" by (simp add: newYorkParts_def date_key_le)
  show ?case
  proof (cases "local_day zone b < n")
    case True
    then show ?thesis using Suc.prems(1) key by (simp add: p day n_def)
  next
    case False
    then have "s = (acc + day_seconds zone holidays a b n) + sum (day_seconds zone holidays a b) {local_day zone a + (i + 1) .. local_day zone b}"
      using Suc.prems(1) key by (intro Suc.IH) (simp_all add: p day n_def day_seconds_def Let_def split: if_splits)
    moreover have "{n..local_day zone b} = insert n {n + 1..local_day zone b}" using False by auto
    ultimately show ?thesis by (simp add: n_def add.assoc)
  qed
qed simp

lemma steady_time:
  assumes "\<forall>t. n * 86400 \<le> t \<and> t < (n + 1) * 86400 \<longrightarrow> zone t = off" "- 18000 \<le> off" "off \<le> - 14400"
    "utc_day y m d = n" "0 \<le> hour" "hour \<le> 18"
  shows "newYorkTimeToUnix zone y m d hour = n * 86400 + hour * 3600 - off"
proof -
  have z: "zone (n * 86400 + hour * 3600) = off" "zone (n * 86400 + hour * 3600 - off) = off" using assms by auto
  show ?thesis using z by (simp add: newYorkTimeToUnix_def Let_def assms(4) numeral_eq_Suc)
qed

text \<open>What is needed of a day on which the exchange trades.\<close>

lemma session_of_day:
  assumes "new_york zone" "trades_on holidays (date_of n)"
  obtains op cl where "\<forall>a b. overlap zone (date_of n) a b = max 0 (min cl b - max op a)" "local_day zone op = n" "local_day zone cl = n"
    "op + SESSION_SECONDS = cl"
proof -
  obtain y m d where e: "date_of n = (y, m, d)" by (metis prod_cases3)
  have u: "utc_day y m d = n" using date_of_utc_day [OF e] .
  obtain off where off: "- 18000 \<le> off" "off \<le> - 14400" "\<forall>t. n * 86400 \<le> t \<and> t < (n + 1) * 86400 \<longrightarrow> zone t = off"
    using assms u unfolding new_york_def trades_on_def e by auto
  define op cl where "op = n * 86400 + 34200 - off" and "cl = n * 86400 + 57600 - off"
  have t: "newYorkTimeToUnix zone y m d 9 = n * 86400 + 9 * 3600 - off" "newYorkTimeToUnix zone y m d 16 = n * 86400 + 16 * 3600 - off"
    by (rule steady_time [OF off(3) off(1,2) u]; simp)+
  have "zone op = off" "zone cl = off" using off by (auto simp: op_def cl_def)
  then have "local_day zone op = n" "local_day zone cl = n" by (simp_all add: local_day_def op_def cl_def)
  moreover have "overlap zone (date_of n) a b = max 0 (min cl b - max op a)" for a b
    by (simp add: overlap_def e sessionBounds_def t SESSION_OPEN_SECONDS_ET_def CLOSE_HOUR_ET_def op_def cl_def algebra_simps)
  moreover have "op + SESSION_SECONDS = cl" by (simp add: op_def cl_def SESSION_SECONDS_def)
  ultimately show ?thesis using that by blast
qed

lemma split_overlap:
  fixes a b c op cl :: int
  assumes "a \<le> b" "b \<le> c" "op \<le> cl"
  shows "max 0 (min cl c - max op a) = max 0 (min cl b - max op a) + max 0 (min cl c - max op b)"
  using assms unfolding max_def min_def by (simp split: if_splits)

lemma day_seconds_outside:
  assumes "new_york zone" "n < local_day zone a \<or> local_day zone b < n" "a \<le> b"
  shows "day_seconds zone holidays a b n = 0"
proof (cases "trades_on holidays (date_of n)")
  case True
  obtain op cl where o: "\<forall>a b. overlap zone (date_of n) a b = max 0 (min cl b - max op a)" "local_day zone op = n" "local_day zone cl = n"
      "op + SESSION_SECONDS = cl"
    by (rule session_of_day [OF assms(1) True]) (rule that)
  have mono: "s \<le> t \<Longrightarrow> local_day zone s \<le> local_day zone t" for s t using assms(1) by (simp add: new_york_def)
  have "cl < a \<or> b < op" using assms(2) mono [of a cl] mono [of op b] o(2,3) by force
  then show ?thesis using assms(3) True o(1) by (auto simp: day_seconds_def)
qed (simp add: day_seconds_def)

lemma seconds_as_sum:
  assumes "new_york zone" "sessionSecondsBetween zone holidays a b = Inr s" "a \<le> b" "lo \<le> local_day zone a" "local_day zone b \<le> hi"
  shows "s = sum (day_seconds zone holidays a b) {lo..hi}"
proof -
  have mono: "local_day zone a \<le> local_day zone b" using assms(1,3) by (simp add: new_york_def)
  have inner: "sum (day_seconds zone holidays a b) {local_day zone a..local_day zone b} = sum (day_seconds zone holidays a b) {lo..hi}"
    using assms(4,5) day_seconds_outside [OF assms(1) _ assms(3)] by (intro sum.mono_neutral_left) auto
  show ?thesis
  proof (cases "a = b")
    case True
    have "day_seconds zone holidays b b n = 0" for n
    proof (cases "trades_on holidays (date_of n)")
      case t: True
      obtain op cl where "\<forall>a b. overlap zone (date_of n) a b = max 0 (min cl b - max op a)" "local_day zone op = n" "local_day zone cl = n"
      "op + SESSION_SECONDS = cl"
        by (rule session_of_day [OF assms(1) t]) (rule that)
      then show ?thesis by (simp add: day_seconds_def)
    qed (simp add: day_seconds_def)
    then show ?thesis using assms(2) True by (simp add: sessionSecondsBetween_def)
  next
    case False
    then have "session_loop zone holidays a b (nat (MAX_SPAN_DAYS + 1)) 0 0 = Inr s"
      using assms(2,3) by (simp add: sessionSecondsBetween_def)
    from session_loop_sum [OF this] show ?thesis using mono inner by simp
  qed
qed

text \<open>
  C15: trading time adds up. However an interval is split, the session seconds of its parts are those of the
  whole: no second of a session is lost at the seam or counted twice, and an interval holds at most one
  session of six and a half hours for every calendar day it touches.
\<close>

theorem trading_time_additive:
  assumes "new_york zone" "a \<le> b" "b \<le> c"
    "sessionSecondsBetween zone holidays a b = Inr s" "sessionSecondsBetween zone holidays b c = Inr t"
    "sessionSecondsBetween zone holidays a c = Inr u"
  shows "u = s + t \<and> 0 \<le> s \<and> s \<le> SESSION_SECONDS * (local_day zone b - local_day zone a + 1)"
proof -
  have mono: "local_day zone a \<le> local_day zone b" "local_day zone b \<le> local_day zone c" using assms(1-3) by (simp_all add: new_york_def)
  let ?I = "{local_day zone a..local_day zone c}"
  have sums: "s = sum (day_seconds zone holidays a b) ?I" "t = sum (day_seconds zone holidays b c) ?I" "u = sum (day_seconds zone holidays a c) ?I"
    using assms mono by (intro seconds_as_sum; simp)+
  have point: "day_seconds zone holidays a c n = day_seconds zone holidays a b n + day_seconds zone holidays b c n" for n
  proof (cases "trades_on holidays (date_of n)")
    case True
    obtain op cl where "\<forall>a b. overlap zone (date_of n) a b = max 0 (min cl b - max op a)" "local_day zone op = n" "local_day zone cl = n"
      "op + SESSION_SECONDS = cl"
      by (rule session_of_day [OF assms(1) True]) (rule that)
    then show ?thesis using split_overlap [OF assms(2,3), of op cl] True by (simp add: day_seconds_def SESSION_SECONDS_def)
  qed (simp add: day_seconds_def)
  have bound: "0 \<le> day_seconds zone holidays a b n \<and> day_seconds zone holidays a b n \<le> SESSION_SECONDS" for n
  proof (cases "trades_on holidays (date_of n)")
    case True
    obtain op cl where "\<forall>a b. overlap zone (date_of n) a b = max 0 (min cl b - max op a)" "local_day zone op = n" "local_day zone cl = n"
      "op + SESSION_SECONDS = cl"
      by (rule session_of_day [OF assms(1) True]) (rule that)
    then show ?thesis using True by (auto simp: day_seconds_def SESSION_SECONDS_def)
  qed (simp add: day_seconds_def SESSION_SECONDS_def)
  have s: "s = sum (day_seconds zone holidays a b) {local_day zone a..local_day zone b}"
    using assms by (intro seconds_as_sum) simp_all
  have "s \<le> of_nat (card {local_day zone a..local_day zone b}) * SESSION_SECONDS"
    unfolding s using bound by (intro sum_bounded_above) simp
  then have "s \<le> SESSION_SECONDS * (local_day zone b - local_day zone a + 1)" using mono by (simp add: mult.commute)
  moreover have "0 \<le> s" unfolding s using bound by (intro sum_nonneg) simp
  moreover have "u = s + t" unfolding sums sum.distrib [symmetric] by (rule sum.cong) (simp_all add: point)
  ultimately show ?thesis by simp
qed

lemma fixed_zone: "new_york (\<lambda>_. - 18000)"
  by (auto simp: new_york_def local_day_def intro: zdiv_mono1)

text \<open>A loop that has ended would have ended with more turns allowed.\<close>

lemma session_loop_more: "session_loop zone holidays a b r i acc = Inr s \<Longrightarrow> session_loop zone holidays a b (r + k) i acc = Inr s"
  by (induction r arbitrary: i acc) (auto simp: Let_def split: prod.splits if_splits)

lemma session_seconds_run:
  "a < b \<Longrightarrow> session_loop zone holidays a b 2 0 0 = Inr s \<Longrightarrow> sessionSecondsBetween zone holidays a b = Inr s"
  using session_loop_more [of zone holidays a b 2 0 0 s 999] by (simp add: sessionSecondsBetween_def MAX_SPAN_DAYS_def)

theorem trading_time_additive_witness:
  "sessionSecondsBetween (\<lambda>_. - 18000) [''2026-07-03''] 1784894400 1784919600 = Inr (5400 + 10800)"
proof -
  have "session_loop (\<lambda>_. - 18000) [''2026-07-03''] 1784894400 1784908800 2 0 0 = Inr 5400"
    "session_loop (\<lambda>_. - 18000) [''2026-07-03''] 1784908800 1784919600 2 0 0 = Inr 10800"
    "session_loop (\<lambda>_. - 18000) [''2026-07-03''] 1784894400 1784919600 2 0 0 = Inr 16200"
    by code_simp+
  note runs = this [THEN session_seconds_run [rotated]]
  have w: "sessionSecondsBetween (\<lambda>_. - 18000) [''2026-07-03''] 1784894400 1784919600 = Inr 16200" by (rule runs(3)) simp
  from trading_time_additive [OF fixed_zone _ _ runs(1,2) w] w show ?thesis by simp
qed

end
