(* ===== verification/WeekClock.thy ===== *)
theory WeekClock
  imports TradingClock
begin

section \<open>The weekly window (keeper/src/calendar.ts)\<close>

text \<open>
  When this week's options exercise and expire: the close of the next New York Friday, moved back over holidays, and
  a week later when it would be too close. The clock of New York is that of TradingClock.
\<close>

definition EXERCISE_WINDOW_SECONDS :: int where "EXERCISE_WINDOW_SECONDS = 86400"
definition VAULT_MIN_LEAD_SECONDS :: int where "VAULT_MIN_LEAD_SECONDS = 3600"

record week_window =
  wwExerciseTs :: seconds
  wwExpiryTs :: seconds
  wwFriday :: string
  wwCloseDay :: string
  wwSkippedForLead :: nat

datatype week_error = LeadBelowVault | NoWindow

definition shiftDay :: "int \<times> int \<times> int \<Rightarrow> int \<Rightarrow> int \<times> int \<times> int" where
  "shiftDay ymd days = (case ymd of (y, m, d) \<Rightarrow> date_of (utc_day y m (d + days)))"

definition iso_of :: "int \<times> int \<times> int \<Rightarrow> string" where
  "iso_of ymd = (case ymd of (y, m, d) \<Rightarrow> isoDay y m d)"

text \<open>The inner loop: how many more days it may step back.\<close>

fun open_close :: "string list \<Rightarrow> nat \<Rightarrow> int \<times> int \<times> int \<Rightarrow> int \<times> int \<times> int" where
  "open_close holidays 0 close = close"
| "open_close holidays (Suc n) close =
     (if iso_of close \<in> set holidays then open_close holidays n (shiftDay close (- 1)) else close)"

definition close_at :: "zone \<Rightarrow> int \<times> int \<times> int \<Rightarrow> seconds" where
  "close_at zone ymd = (case ymd of (y, m, d) \<Rightarrow> newYorkTimeToUnix zone y m d CLOSE_HOUR_ET)"

text \<open>The outer loop: how many more Fridays it may try, the number of this one, how far ahead it is.\<close>

fun week_loop :: "zone \<Rightarrow> string list \<Rightarrow> seconds \<Rightarrow> int \<Rightarrow> nat \<Rightarrow> nat \<Rightarrow> int \<Rightarrow> week_error + week_window" where
  "week_loop zone holidays now lead 0 attempt daysAhead = Inl NoWindow"
| "week_loop zone holidays now lead (Suc n) attempt daysAhead =
     (let friday = shiftDay (newYorkParts zone now) daysAhead;
          close = open_close holidays 4 friday;
          exerciseTs = close_at zone close
      in if exerciseTs \<ge> now + lead
         then Inr \<lparr>wwExerciseTs = exerciseTs, wwExpiryTs = exerciseTs + EXERCISE_WINDOW_SECONDS, wwFriday = iso_of friday,
                wwCloseDay = iso_of close, wwSkippedForLead = attempt\<rparr>
         else week_loop zone holidays now lead n (Suc attempt) (daysAhead + 7))"

definition nextWeekWindow :: "zone \<Rightarrow> string list \<Rightarrow> seconds \<Rightarrow> int \<Rightarrow> week_error + week_window" where
  "nextWeekWindow zone holidays now lead =
     (if lead < VAULT_MIN_LEAD_SECONDS then Inl LeadBelowVault
      else week_loop zone holidays now lead 4 0 ((5 - week_day (local_day zone now) + 7) mod 7))"

subsection \<open>Shifting days\<close>

lemma shiftDay_date_of: "shiftDay (date_of n) k = date_of (n + k)"
  using date_of_utc_day [of n] by (auto simp: shiftDay_def utc_day_shift split: prod.splits)

text \<open>
  C33: shifting days is exact. From any date that exists, shifting by one number of days and then by another
  is shifting by their sum, shifting by none changes nothing, so shifting back returns to the date; every result is a
  date that exists, and a later one exactly when the shift is forward.
\<close>

theorem shiftDay_roundtrip:
  assumes "valid_date ymd"
  shows "shiftDay (shiftDay ymd a) b = shiftDay ymd (a + b) \<and> shiftDay ymd 0 = ymd \<and> shiftDay (shiftDay ymd a) (- a) = ymd
    \<and> valid_date (shiftDay ymd a) \<and> (date_key ymd < date_key (shiftDay ymd a) \<longleftrightarrow> 0 < a)"
proof -
  obtain y m d where e: "ymd = (y, m, d)" by (metis prod_cases3)
  then have "ymd = date_of (utc_day y m d)" using date_inverse [of y m d 0] assms by simp
  then obtain n where n: "ymd = date_of n" by blast
  have "valid_date (date_of (n + a))" using date_inverse [of 0 0 0 "n + a"] by blast
  then show ?thesis unfolding n shiftDay_date_of using date_key_le [of n "n + a"] by (simp add: add.assoc)
qed

theorem shiftDay_roundtrip_witness:
  "shiftDay (shiftDay (2028, 2, 28) 2) (- 2) = (2028, 2, 28) \<and> shiftDay (2028, 2, 28) 2 = (2028, 3, 1)"
proof -
  have "valid_date (2028, 2, 28)" "shiftDay (2028, 2, 28) 2 = (2028, 3, 1)" by code_simp+
  then show ?thesis using shiftDay_roundtrip [of "(2028, 2, 28)" 2 0] by blast
qed

subsection \<open>The close of a week\<close>

text \<open>The day a week's close falls on: the Friday or one of the four weekdays before it.\<close>

lemma open_close_day:
  "\<exists>k. 0 \<le> k \<and> k \<le> int n \<and> open_close holidays n (date_of f) = date_of (f - k)
     \<and> (\<forall>j. 0 \<le> j \<and> j < k \<longrightarrow> iso_of (date_of (f - j)) \<in> set holidays)
     \<and> (k < int n \<longrightarrow> iso_of (date_of (f - k)) \<notin> set holidays)"
proof (induction n arbitrary: f)
  case (Suc n)
  show ?case
  proof (cases "iso_of (date_of f) \<in> set holidays")
    case True
    obtain k where k: "0 \<le> k" "k \<le> int n" "open_close holidays n (date_of (f - 1)) = date_of (f - 1 - k)"
      "\<forall>j. 0 \<le> j \<and> j < k \<longrightarrow> iso_of (date_of (f - 1 - j)) \<in> set holidays"
      "k < int n \<longrightarrow> iso_of (date_of (f - 1 - k)) \<notin> set holidays" using Suc.IH by blast
    have "iso_of (date_of (f - j)) \<in> set holidays" if "0 \<le> j" "j < k + 1" for j
      using that True k(4) [rule_format, of "j - 1"] by (cases "j = 0") (simp_all add: algebra_simps)
    then show ?thesis using k True shiftDay_date_of [of f "- 1"] by (intro exI [of _ "k + 1"]) (simp add: algebra_simps)
  qed (intro exI [of _ 0], auto)
qed auto

lemma close_of_weekday:
  assumes "new_york zone" "week_day n \<noteq> 0" "week_day n \<noteq> 6"
  shows "local_day zone (close_at zone (date_of n)) = n" "n * 86400 + 72000 \<le> close_at zone (date_of n)"
    "close_at zone (date_of n) \<le> n * 86400 + 75600"
    "close_at zone (date_of n) + zone (close_at zone (date_of n)) = n * 86400 + 16 * 3600"
proof -
  obtain y m d where e: "date_of n = (y, m, d)" by (metis prod_cases3)
  obtain off where off: "- 18000 \<le> off" "off \<le> - 14400" "\<forall>t. n * 86400 \<le> t \<and> t < (n + 1) * 86400 \<longrightarrow> zone t = off"
    using assms unfolding new_york_def by blast
  have c: "close_at zone (date_of n) = n * 86400 + 57600 - off"
    using steady_time [OF off(3) off(1,2) date_of_utc_day [OF e], of 16] by (simp add: close_at_def e CLOSE_HOUR_ET_def)
  moreover have "zone (n * 86400 + 57600 - off) = off" using off by auto
  ultimately show "local_day zone (close_at zone (date_of n)) = n" "n * 86400 + 72000 \<le> close_at zone (date_of n)"
    "close_at zone (date_of n) \<le> n * 86400 + 75600"
    "close_at zone (date_of n) + zone (close_at zone (date_of n)) = n * 86400 + 16 * 3600"
    using off by (simp_all add: local_day_def)
qed

definition friday_close :: "zone \<Rightarrow> string list \<Rightarrow> int \<Rightarrow> seconds" where
  "friday_close zone holidays f = close_at zone (open_close holidays 4 (date_of f))"

lemma week_day_shift: "week_day f = 5 \<Longrightarrow> 0 \<le> k \<Longrightarrow> k \<le> 4 \<Longrightarrow> week_day (f - k) = 5 - k"
  unfolding week_day_def by presburger

text \<open>
  The close of a Friday's week, said of the clock and the table alone: four in the afternoon, by the clock on the
  wall, of the Friday or of the last of the four days before it that is no holiday.
\<close>

definition week_close :: "zone \<Rightarrow> string list \<Rightarrow> int \<Rightarrow> seconds \<Rightarrow> bool" where
  "week_close zone holidays f t =
     (t + zone t = local_day zone t * 86400 + 16 * 3600 \<and> f - 4 \<le> local_day zone t \<and> local_day zone t \<le> f
      \<and> (\<forall>n. local_day zone t < n \<and> n \<le> f \<longrightarrow> iso_of (date_of n) \<in> set holidays)
      \<and> (f - 4 < local_day zone t \<longrightarrow> iso_of (date_of (local_day zone t)) \<notin> set holidays))"

text \<open>A close lands on a weekday of its week, over holidays only.\<close>

lemma friday_close_day:
  assumes "new_york zone" "week_day f = 5"
  shows "\<exists>c. open_close holidays 4 (date_of f) = date_of c \<and> f - 4 \<le> c \<and> c \<le> f \<and> local_day zone (friday_close zone holidays f) = c
     \<and> (\<forall>n. c < n \<and> n \<le> f \<longrightarrow> iso_of (date_of n) \<in> set holidays)
     \<and> (f - 4 < c \<longrightarrow> iso_of (date_of c) \<notin> set holidays)
     \<and> c * 86400 + 72000 \<le> friday_close zone holidays f \<and> week_close zone holidays f (friday_close zone holidays f)"
proof -
  obtain k where k: "0 \<le> k" "k \<le> 4" "open_close holidays 4 (date_of f) = date_of (f - k)"
    "\<forall>j. 0 \<le> j \<and> j < k \<longrightarrow> iso_of (date_of (f - j)) \<in> set holidays" "k < 4 \<longrightarrow> iso_of (date_of (f - k)) \<notin> set holidays"
    using open_close_day [of 4 holidays f] by auto
  have "week_day (f - k) \<noteq> 0" "week_day (f - k) \<noteq> 6" using week_day_shift [OF assms(2) k(1,2)] k(1,2) by simp_all
  note c = close_of_weekday [OF assms(1) this]
  have "iso_of (date_of n) \<in> set holidays" if "f - k < n" "n \<le> f" for n using k(4) [rule_format, of "f - n"] that by simp
  then show ?thesis using k c by (intro exI [of _ "f - k"]) (simp add: friday_close_def week_close_def)
qed

lemma week_loop_finds:
  assumes "\<exists>k < n. now + lead \<le> friday_close zone holidays (local_day zone now + ahead + 7 * int k)"
  shows "\<exists>k < n. now + lead \<le> friday_close zone holidays (local_day zone now + ahead + 7 * int k)
    \<and> (\<forall>j < k. friday_close zone holidays (local_day zone now + ahead + 7 * int j) < now + lead)
    \<and> week_loop zone holidays now lead n attempt ahead =
        (let f = local_day zone now + ahead + 7 * int k; ts = friday_close zone holidays f
         in Inr \<lparr>wwExerciseTs = ts, wwExpiryTs = ts + EXERCISE_WINDOW_SECONDS, wwFriday = iso_of (date_of f),
              wwCloseDay = iso_of (open_close holidays 4 (date_of f)), wwSkippedForLead = attempt + k\<rparr>)"
  using assms
proof (induction n arbitrary: attempt ahead)
  case (Suc n)
  have day: "shiftDay (newYorkParts zone now) ahead = date_of (local_day zone now + ahead)" by (simp add: newYorkParts_def shiftDay_date_of)
  show ?case
  proof (cases "now + lead \<le> friday_close zone holidays (local_day zone now + ahead)")
    case True
    then show ?thesis by (intro exI [of _ 0]) (simp add: day friday_close_def Let_def)
  next
    case False
    obtain k where "k < Suc n" "now + lead \<le> friday_close zone holidays (local_day zone now + ahead + 7 * int k)" using Suc.prems by blast
    then have "\<exists>k < n. now + lead \<le> friday_close zone holidays (local_day zone now + (ahead + 7) + 7 * int k)"
      using False by (cases k) (auto simp: algebra_simps)
    from Suc.IH [OF this, of "Suc attempt"] obtain k where k: "k < n"
      "now + lead \<le> friday_close zone holidays (local_day zone now + (ahead + 7) + 7 * int k)"
      "\<forall>j < k. friday_close zone holidays (local_day zone now + (ahead + 7) + 7 * int j) < now + lead"
      "week_loop zone holidays now lead n (Suc attempt) (ahead + 7) =
        (let f = local_day zone now + (ahead + 7) + 7 * int k; ts = friday_close zone holidays f
         in Inr \<lparr>wwExerciseTs = ts, wwExpiryTs = ts + EXERCISE_WINDOW_SECONDS, wwFriday = iso_of (date_of f),
              wwCloseDay = iso_of (open_close holidays 4 (date_of f)), wwSkippedForLead = Suc attempt + k\<rparr>)" by blast
    have s: "local_day zone now + ahead + 7 * int (Suc j) = local_day zone now + (ahead + 7) + 7 * int j" for j by simp
    have "friday_close zone holidays (local_day zone now + ahead + 7 * int j) < now + lead" if "j < Suc k" for j
      using that False k(3) by (cases j) (auto simp: not_le algebra_simps)
    moreover have "week_loop zone holidays now lead (Suc n) attempt ahead = week_loop zone holidays now lead n (Suc attempt) (ahead + 7)"
      using False by (simp add: day friday_close_def Let_def)
    ultimately show ?thesis using k(1,2,4) unfolding s [symmetric] by (intro exI [of _ "Suc k"]) (simp add: Let_def)
  qed
qed simp

text \<open>
  C19: a weekly window is always found, and it is the first that leaves the lead. For every lead from the
  vault's minimum to thirteen days and every holiday table, the exercise is at four in the afternoon, by the New
  York clock, of a weekday, at least the lead ahead; every day after it up to its Friday is a listed holiday and
  it is not one itself (unless the whole week is); the four o'clock close of every earlier Friday's week is too
  near; and the expiry is a day later.
\<close>

theorem nextWeekWindow_first:
  assumes "new_york zone" "VAULT_MIN_LEAD_SECONDS \<le> lead" "lead \<le> 13 * 86400"
  shows "\<exists>w f. nextWeekWindow zone holidays now lead = Inr w \<and> week_day f = 5 \<and> local_day zone now \<le> f
    \<and> wwFriday w = iso_of (date_of f) \<and> wwCloseDay w = iso_of (date_of (local_day zone (wwExerciseTs w)))
    \<and> now + lead \<le> wwExerciseTs w \<and> wwExpiryTs w = wwExerciseTs w + 86400
    \<and> week_close zone holidays f (wwExerciseTs w)
    \<and> (\<forall>g. week_day g = 5 \<and> local_day zone now \<le> g \<and> g < f \<longrightarrow> (\<exists>t. week_close zone holidays g t \<and> t < now + lead))"
proof -
  define today where "today = local_day zone now"
  define ahead where "ahead = (5 - week_day today + 7) mod 7"
  have ahead: "0 \<le> ahead" "ahead < 7" "week_day (today + ahead + 7 * k) = 5" for k
    unfolding ahead_def week_day_def by presburger+
  have "week_day n \<notin> {0, 6} \<or> week_day (n + 1) \<notin> {0, 6} \<or> week_day (n + 2) \<notin> {0, 6}" for n
    unfolding week_day_def insert_iff empty_iff by presburger
  from this [of "today + 1"] obtain n where n: "today < n" "n \<le> today + 3" "week_day n \<noteq> 0" "week_day n \<noteq> 6"
    using that [of "today + 1"] that [of "today + 2"] that [of "today + 3"] by (auto simp: add.assoc)
  note c = close_of_weekday [OF assms(1) n(3,4)]
  have "\<not> close_at zone (date_of n) \<le> now"
    using c(1) n(1) assms(1) unfolding new_york_def today_def by (metis not_less)
  then have now: "now < (today + 3) * 86400 + 75600" using c(3) n(2) by simp
  obtain d where "today + ahead + 21 - 4 \<le> d" "d * 86400 + 72000 \<le> friday_close zone holidays (today + ahead + 21)"
    using friday_close_day [OF assms(1) ahead(3) [of 3], of holidays] by auto
  then have "now + lead \<le> friday_close zone holidays (today + ahead + 7 * int 3)" using now assms(3) ahead(1) by simp
  then have "\<exists>k < 4. now + lead \<le> friday_close zone holidays (today + ahead + 7 * int k)" by (intro exI [of _ 3]) simp
  from week_loop_finds [OF this [unfolded today_def], of 0] obtain k where k:
    "now + lead \<le> friday_close zone holidays (today + ahead + 7 * int k)"
    "\<forall>j < k. friday_close zone holidays (today + ahead + 7 * int j) < now + lead"
    "week_loop zone holidays now lead 4 0 ahead =
        (let f = today + ahead + 7 * int k; ts = friday_close zone holidays f
         in Inr \<lparr>wwExerciseTs = ts, wwExpiryTs = ts + EXERCISE_WINDOW_SECONDS, wwFriday = iso_of (date_of f),
              wwCloseDay = iso_of (open_close holidays 4 (date_of f)), wwSkippedForLead = 0 + k\<rparr>)"
    unfolding today_def by blast
  define f where "f = today + ahead + 7 * int k"
  have earlier: "week_close zone holidays g (friday_close zone holidays g) \<and> friday_close zone holidays g < now + lead" if "week_day g = 5" "today \<le> g" "g < f" for g
  proof -
    have "week_day g = week_day (today + ahead)" using that(1) ahead(3) [of 0] by simp
    then have "7 dvd g - (today + ahead)" unfolding week_day_def by presburger
    then obtain j where j: "g = today + ahead + 7 * j" by (metis add.commute diff_add_cancel dvdE)
    then have "0 \<le> j" "nat j < k" using that(2,3) ahead(2) unfolding f_def by linarith+
    then show ?thesis using k(2) [rule_format, of "nat j"] j friday_close_day [OF assms(1) that(1)] by auto
  qed
  obtain d where d: "open_close holidays 4 (date_of f) = date_of d" "f - 4 \<le> d" "d \<le> f" "local_day zone (friday_close zone holidays f) = d"
    "\<forall>n. d < n \<and> n \<le> f \<longrightarrow> iso_of (date_of n) \<in> set holidays" "f - 4 < d \<longrightarrow> iso_of (date_of d) \<notin> set holidays"
    "week_close zone holidays f (friday_close zone holidays f)"
    using friday_close_day [OF assms(1), of f holidays] ahead(3) [of "int k"] unfolding f_def by blast
  let ?w = "\<lparr>wwExerciseTs = friday_close zone holidays f, wwExpiryTs = friday_close zone holidays f + EXERCISE_WINDOW_SECONDS,
      wwFriday = iso_of (date_of f), wwCloseDay = iso_of (date_of d), wwSkippedForLead = k\<rparr>"
  have "nextWeekWindow zone holidays now lead = Inr ?w"
    using assms(2) k(3) d(1) unfolding nextWeekWindow_def today_def [symmetric] ahead_def [symmetric]
    by (simp add: Let_def flip: f_def)
  moreover have "today \<le> f" "week_day f = 5" using ahead unfolding f_def by simp_all
  ultimately show ?thesis using k(1) d earlier unfolding today_def [symmetric] f_def [symmetric]
    by (intro exI [of _ ?w] exI [of _ f]) (auto simp: EXERCISE_WINDOW_SECONDS_def)
qed

theorem nextWeekWindow_first_witness:
  "\<exists>w. nextWeekWindow (\<lambda>_. - 18000) [''2026-07-03''] 1782900000 3600 = Inr w \<and> (wwExerciseTs w - 18000) mod 86400 = 16 * 3600"
proof -
  have "VAULT_MIN_LEAD_SECONDS \<le> 3600" by (simp add: VAULT_MIN_LEAD_SECONDS_def)
  from nextWeekWindow_first [OF fixed_zone this, of "[''2026-07-03'']" 1782900000]
  obtain w f where w: "nextWeekWindow (\<lambda>_. - 18000) [''2026-07-03''] 1782900000 3600 = Inr w"
    "week_close (\<lambda>_. - 18000) [''2026-07-03''] f (wwExerciseTs w)" by auto
  then have "wwExerciseTs w - 18000 = local_day (\<lambda>_. - 18000) (wwExerciseTs w) * 86400 + 16 * 3600" by (simp add: week_close_def)
  then have "(wwExerciseTs w - 18000) mod 86400 = 16 * 3600" by (simp only:) simp
  with w(1) show ?thesis by blast
qed

end
