(* ===== verification/WriterMarket.thy ===== *)
theory WriterMarket
  imports JsPrelude "HOL-Library.AList"
begin

section \<open>The tape of a factory market (indexer/src/factory.ts, writerAccount.ts, lib/factoryLifecycle.ts, lib/factoryIndexing.ts)\<close>

text \<open>
  Writer accounts request, list, fill and settle lots under the weeks a factory sets. The indexer folds
  their event log into five tables; every handler of the two files is a function on the record \<open>tape\<close> of
  the tables, each table a list of keyed rows. A handler reads or creates the row it patches; every handler that
  creates a row patches it too, so \<open>get_account\<close> and \<open>get_market\<close> only return the row and the patch
  stores it. The factory's address, the market's name and the hash of a text are the record
  \<open>writer_env\<close>: the first two come from the environment, the hash from a package.
\<close>

record event_meta =
  emBlock :: int
  emTimestamp :: seconds
  emTx :: string
  emLogIndex :: int

record writer_env =
  weFactory :: address
  weTicker :: string
  weKeccak :: "string \<Rightarrow> string"

subsection \<open>Decisions\<close>

datatype account_status = AccIdle | AccPending | AccListed | AccSettled

datatype status_event = EvWriteRequested int | EvLotsListed | EvSettled

fun nextStatus :: "status_event \<Rightarrow> account_status" where
  "nextStatus (EvWriteRequested lots) = (if lots = 0 then AccIdle else AccPending)"
| "nextStatus EvLotsListed = AccListed"
| "nextStatus EvSettled = AccSettled"

text \<open>The part of an account row the pending sum reads: its status and its request.\<close>

definition pendingContribution :: "account_status \<times> int \<Rightarrow> int" where
  "pendingContribution a = (if fst a = AccPending then snd a else 0)"

definition pendingLotsAfter :: "int \<Rightarrow> account_status \<times> int \<Rightarrow> account_status \<times> int \<Rightarrow> int" where
  "pendingLotsAfter total_lots old new =
     (let next = total_lots - pendingContribution old + pendingContribution new in if next > 0 then next else 0)"

datatype settlement_outcome = Unfilled | Assigned | Expired | Unredeemed

definition settlementOutcome :: "int \<Rightarrow> int \<Rightarrow> int \<Rightarrow> settlement_outcome" where
  "settlementOutcome filledLots assetReturned strikeUsdg =
     (if filledLots = 0 then Unfilled else if strikeUsdg > 0 then Assigned else if assetReturned > 0 then Expired else Unredeemed)"

definition marketWeekId :: "address \<Rightarrow> int \<Rightarrow> string" where
  "marketWeekId factory weekId = lower factory @ ''-'' @ show_int weekId"

definition txLogId :: "string \<Rightarrow> int \<Rightarrow> string" where
  "txLogId txHash logIndex = lower txHash @ ''-'' @ show_int logIndex"

definition accountExpiryTs :: "seconds \<Rightarrow> int \<Rightarrow> seconds" where
  "accountExpiryTs baseExpiryTs index = baseExpiryTs + index"

subsection \<open>Week totals\<close>

record week_totals =
  wkLotsListed :: int
  wkLotsFilled :: int
  wkPremiumUsdg :: int
  wkAccountsListed :: int
  wkAccountsSettled :: int
  wkAssetReturned :: int
  wkAssignedUsdg :: int

definition ZERO_WEEK_TOTALS :: week_totals where
  "ZERO_WEEK_TOTALS = \<lparr>wkLotsListed = 0, wkLotsFilled = 0, wkPremiumUsdg = 0, wkAccountsListed = 0, wkAccountsSettled = 0,
     wkAssetReturned = 0, wkAssignedUsdg = 0\<rparr>"

definition weekAfterListing :: "week_totals \<Rightarrow> int \<Rightarrow> week_totals" where
  "weekAfterListing w lots = w\<lparr>wkLotsListed := wkLotsListed w + lots, wkAccountsListed := wkAccountsListed w + 1\<rparr>"

definition weekAfterFill :: "week_totals \<Rightarrow> int \<Rightarrow> week_totals" where
  "weekAfterFill w premiumUsdg = w\<lparr>wkLotsFilled := wkLotsFilled w + 1, wkPremiumUsdg := wkPremiumUsdg w + premiumUsdg\<rparr>"

definition weekAfterSettlement :: "week_totals \<Rightarrow> int \<Rightarrow> int \<Rightarrow> week_totals" where
  "weekAfterSettlement w assetReturned strikeUsdg =
     w\<lparr>wkAccountsSettled := wkAccountsSettled w + 1, wkAssetReturned := wkAssetReturned w + assetReturned,
       wkAssignedUsdg := wkAssignedUsdg w + strikeUsdg\<rparr>"

subsection \<open>Rows\<close>

text \<open>A row of \<open>market\<close>; its key is the factory. A column without a value is \<open>None\<close>.\<close>

record market_row =
  mkTicker :: string
  mkAsset :: "address option"
  mkFeed :: "address option"
  mkClear :: "address option"
  mkImplementation :: "address option"
  mkSettingsVerified :: bool
  mkAdmin :: "address option"
  mkFeeRecipient :: "address option"
  mkDepositCap :: "int option"
  mkMinOtmBps :: "int option"
  mkMaxOtmBps :: "int option"
  mkMinPremiumBps :: "int option"
  mkMaxUtilizationBps :: "int option"
  mkProtocolFeeBps :: "int option"
  mkMaxContractsCap :: "int option"
  mkPolicySetAt :: "seconds option"
  mkWritesHalted :: bool
  mkWeekId :: int
  mkStrikeUsdg :: int
  mkExerciseTs :: seconds
  mkBaseExpiryTs :: seconds
  mkAskUsdg :: int
  mkWeekSetAt :: "seconds option"
  mkAccountCount :: int
  mkPendingLots :: int
  mkLotsListed :: int
  mkLotsFilled :: int
  mkPremiumUsdg :: int
  mkSettlements :: int
  mkAssetReturned :: int
  mkAssignedUsdg :: int
  mkClaimedUsdg :: int
  mkLastBlock :: int
  mkLastTimestamp :: seconds

record account_row =
  acFactory :: address
  acOwner :: address
  acIndex :: int
  acCreatedAt :: seconds
  acCreatedBlock :: int
  acCreatedTx :: string
  acStatus :: account_status
  acDepositedTotal :: int
  acWithdrawnTotal :: int
  acClaimedUsdg :: int
  acRequestedLots :: int
  acListedLots :: int
  acFilledLots :: int
  acListedWeekId :: "int option"
  acOptionId :: "int option"
  acListedAskUsdg :: int
  acListedAt :: "seconds option"
  acLotsListed :: int
  acLotsFilled :: int
  acPremiumUsdg :: int
  acSettlements :: int
  acLastSettledAt :: "seconds option"
  acLastActivityAt :: seconds
  acLastActivityBlock :: int

record week_row =
  wrFactory :: address
  wrWeekId :: int
  wrStrikeUsdg :: int
  wrExerciseTs :: seconds
  wrBaseExpiryTs :: seconds
  wrAskUsdg :: int
  wrSetAt :: seconds
  wrSetBlock :: int
  wrSetTx :: string
  wrTotals :: week_totals

record fill_row =
  frFactory :: address
  frAccount :: address
  frOwner :: address
  frWeekId :: "int option"
  frOptionId :: int
  frOrderHash :: string
  frPremiumUsdg :: int
  frMeta :: event_meta

record settlement_row =
  srFactory :: address
  srAccount :: address
  srOwner :: address
  srWeekId :: "int option"
  srLotsListed :: int
  srLotsFilled :: int
  srAssetReturned :: int
  srStrikeUsdg :: int
  srOutcome :: settlement_outcome
  srMeta :: event_meta

record role_row =
  rlFactory :: address
  rlRole :: string
  rlRoleName :: string
  rlAccount :: address
  rlGranted :: bool
  rlGrantedAt :: "seconds option"
  rlGrantedTx :: "string option"
  rlRevokedAt :: "seconds option"
  rlRevokedTx :: "string option"

record tape =
  tpMarket :: "market_row option"
  tpAccounts :: "(address \<times> account_row) list"
  tpWeeks :: "(string \<times> week_row) list"
  tpFills :: "(string \<times> fill_row) list"
  tpSettlements :: "(string \<times> settlement_row) list"
  tpRoles :: "(string \<times> role_row) list"

definition empty_tape :: tape where
  "empty_tape = \<lparr>tpMarket = None, tpAccounts = [], tpWeeks = [], tpFills = [], tpSettlements = [], tpRoles = []\<rparr>"

text \<open>\<open>insert ... onConflictDoNothing\<close>.\<close>

definition insert_new :: "'k \<Rightarrow> 'v \<Rightarrow> ('k \<times> 'v) list \<Rightarrow> ('k \<times> 'v) list" where
  "insert_new k v rows = (if map_of rows k = None then rows @ [(k, v)] else rows)"

subsection \<open>Reading and patching rows (lib/factoryIndexing.ts)\<close>

definition new_market :: "writer_env \<Rightarrow> market_row" where
  "new_market env =
     \<lparr>mkTicker = weTicker env, mkAsset = None, mkFeed = None, mkClear = None, mkImplementation = None, mkSettingsVerified = False,
      mkAdmin = None, mkFeeRecipient = None, mkDepositCap = None, mkMinOtmBps = None, mkMaxOtmBps = None, mkMinPremiumBps = None,
      mkMaxUtilizationBps = None, mkProtocolFeeBps = None, mkMaxContractsCap = None, mkPolicySetAt = None, mkWritesHalted = False,
      mkWeekId = 0, mkStrikeUsdg = 0, mkExerciseTs = 0, mkBaseExpiryTs = 0, mkAskUsdg = 0, mkWeekSetAt = None, mkAccountCount = 0,
      mkPendingLots = 0, mkLotsListed = 0, mkLotsFilled = 0, mkPremiumUsdg = 0, mkSettlements = 0, mkAssetReturned = 0,
      mkAssignedUsdg = 0, mkClaimedUsdg = 0, mkLastBlock = 0, mkLastTimestamp = 0\<rparr>"

definition getMarket :: "writer_env \<Rightarrow> tape \<Rightarrow> market_row" where
  "getMarket env t = or_else (tpMarket t) (new_market env)"

definition patchMarket :: "writer_env \<Rightarrow> event_meta option \<Rightarrow> (market_row \<Rightarrow> market_row) \<Rightarrow> tape \<Rightarrow> tape" where
  "patchMarket env event change t =
     (let m = change (getMarket env t)
      in t\<lparr>tpMarket := Some (case event of None \<Rightarrow> m | Some e \<Rightarrow> m\<lparr>mkLastBlock := emBlock e, mkLastTimestamp := emTimestamp e\<rparr>)\<rparr>)"

definition ZERO_ADDRESS :: address where
  "ZERO_ADDRESS = ''0x0000000000000000000000000000000000000000''"

text \<open>A bare account row, and the row of \<open>AccountCreated\<close>: they differ in the owner and the index.\<close>

definition new_account :: "writer_env \<Rightarrow> event_meta \<Rightarrow> address \<Rightarrow> int \<Rightarrow> account_row" where
  "new_account env e owner index =
     \<lparr>acFactory = weFactory env, acOwner = owner, acIndex = index, acCreatedAt = emTimestamp e, acCreatedBlock = emBlock e,
      acCreatedTx = emTx e, acStatus = AccIdle, acDepositedTotal = 0, acWithdrawnTotal = 0, acClaimedUsdg = 0, acRequestedLots = 0,
      acListedLots = 0, acFilledLots = 0, acListedWeekId = None, acOptionId = None, acListedAskUsdg = 0, acListedAt = None,
      acLotsListed = 0, acLotsFilled = 0, acPremiumUsdg = 0, acSettlements = 0, acLastSettledAt = None,
      acLastActivityAt = emTimestamp e, acLastActivityBlock = emBlock e\<rparr>"

definition getAccount :: "writer_env \<Rightarrow> event_meta \<Rightarrow> address \<Rightarrow> tape \<Rightarrow> account_row" where
  "getAccount env e account t = get_or (tpAccounts t) account (new_account env e ZERO_ADDRESS 0)"

definition patchAccount :: "writer_env \<Rightarrow> event_meta \<Rightarrow> address \<Rightarrow> (account_row \<Rightarrow> account_row) \<Rightarrow> tape \<Rightarrow> tape" where
  "patchAccount env e account change t =
     t\<lparr>tpAccounts := AList.update account
         ((change (getAccount env e account t))\<lparr>acLastActivityAt := emTimestamp e, acLastActivityBlock := emBlock e\<rparr>) (tpAccounts t)\<rparr>"

definition findWeek :: "writer_env \<Rightarrow> int \<Rightarrow> tape \<Rightarrow> week_row option" where
  "findWeek env weekId t = map_of (tpWeeks t) (marketWeekId (weFactory env) weekId)"

definition patchWeek :: "writer_env \<Rightarrow> int \<Rightarrow> week_totals \<Rightarrow> tape \<Rightarrow> tape" where
  "patchWeek env weekId totals t =
     (case findWeek env weekId t of
        None \<Rightarrow> t
      | Some w \<Rightarrow> t\<lparr>tpWeeks := AList.update (marketWeekId (weFactory env) weekId) (w\<lparr>wrTotals := totals\<rparr>) (tpWeeks t)\<rparr>)"

text \<open>A week's totals moved by one event, when the week has a row.\<close>

definition week_moved :: "writer_env \<Rightarrow> int option \<Rightarrow> (week_totals \<Rightarrow> week_totals) \<Rightarrow> tape \<Rightarrow> tape" where
  "week_moved env weekId move t =
     (case weekId of
        None \<Rightarrow> t
      | Some w \<Rightarrow> (case findWeek env w t of None \<Rightarrow> t | Some row \<Rightarrow> patchWeek env w (move (wrTotals row)) t))"

subsection \<open>Handlers of an account's events (writerAccount.ts)\<close>

definition onDeposited :: "writer_env \<Rightarrow> event_meta \<Rightarrow> address \<Rightarrow> int \<Rightarrow> tape \<Rightarrow> tape" where
  "onDeposited env e account assets t =
     (let a = getAccount env e account t;
          t1 = patchAccount env e account (\<lambda>r. r\<lparr>acDepositedTotal := acDepositedTotal a + assets\<rparr>) t
      in patchMarket env (Some e) (\<lambda>m. m) t1)"

definition onWithdrawn :: "writer_env \<Rightarrow> event_meta \<Rightarrow> address \<Rightarrow> int \<Rightarrow> tape \<Rightarrow> tape" where
  "onWithdrawn env e account assets t =
     (let a = getAccount env e account t;
          t1 = patchAccount env e account (\<lambda>r. r\<lparr>acWithdrawnTotal := acWithdrawnTotal a + assets\<rparr>) t
      in patchMarket env (Some e) (\<lambda>m. m) t1)"

definition onWriteRequested :: "writer_env \<Rightarrow> event_meta \<Rightarrow> address \<Rightarrow> int \<Rightarrow> tape \<Rightarrow> tape" where
  "onWriteRequested env e account lots t =
     (let a = getAccount env e account t;
          m = getMarket env t;
          status = nextStatus (EvWriteRequested lots);
          t1 = patchAccount env e account (\<lambda>r. r\<lparr>acStatus := status, acRequestedLots := lots\<rparr>) t
      in patchMarket env (Some e)
           (\<lambda>r. r\<lparr>mkPendingLots := pendingLotsAfter (mkPendingLots m) (acStatus a, acRequestedLots a) (status, lots)\<rparr>) t1)"

definition onLotsListed :: "writer_env \<Rightarrow> event_meta \<Rightarrow> address \<Rightarrow> int \<Rightarrow> int \<Rightarrow> int \<Rightarrow> int \<Rightarrow> tape \<Rightarrow> tape" where
  "onLotsListed env e account weekId optionId lots askUsdg t =
     (let a = getAccount env e account t;
          m = getMarket env t;
          status = nextStatus EvLotsListed;
          t1 = patchAccount env e account (\<lambda>r. r\<lparr>acStatus := status, acListedLots := lots, acFilledLots := 0,
                 acListedWeekId := Some weekId, acOptionId := Some optionId, acListedAskUsdg := askUsdg,
                 acListedAt := Some (emTimestamp e), acLotsListed := acLotsListed a + lots\<rparr>) t;
          t2 = week_moved env (Some weekId) (\<lambda>w. weekAfterListing w lots) t1
      in patchMarket env (Some e)
           (\<lambda>r. r\<lparr>mkPendingLots := pendingLotsAfter (mkPendingLots m) (acStatus a, acRequestedLots a) (status, acRequestedLots a),
                  mkLotsListed := mkLotsListed m + lots\<rparr>) t2)"

definition onLotFilled :: "writer_env \<Rightarrow> event_meta \<Rightarrow> address \<Rightarrow> string \<Rightarrow> int \<Rightarrow> int \<Rightarrow> tape \<Rightarrow> tape" where
  "onLotFilled env e account orderHash optionId premiumUsdg t =
     (let a = getAccount env e account t;
          m = getMarket env t;
          row = \<lparr>frFactory = weFactory env, frAccount = account, frOwner = acOwner a, frWeekId = acListedWeekId a,
                 frOptionId = optionId, frOrderHash = orderHash, frPremiumUsdg = premiumUsdg, frMeta = e\<rparr>;
          t1 = t\<lparr>tpFills := insert_new (txLogId (emTx e) (emLogIndex e)) row (tpFills t)\<rparr>;
          t2 = patchAccount env e account (\<lambda>r. r\<lparr>acFilledLots := acFilledLots a + 1, acLotsFilled := acLotsFilled a + 1,
                 acPremiumUsdg := acPremiumUsdg a + premiumUsdg\<rparr>) t1;
          t3 = week_moved env (acListedWeekId a) (\<lambda>w. weekAfterFill w premiumUsdg) t2
      in patchMarket env (Some e)
           (\<lambda>r. r\<lparr>mkLotsFilled := mkLotsFilled m + 1, mkPremiumUsdg := mkPremiumUsdg m + premiumUsdg\<rparr>) t3)"

definition accountAfterSettled :: "settlement_outcome \<Rightarrow> account_row \<Rightarrow> account_row" where
  "accountAfterSettled outcome prev =
     prev\<lparr>acStatus := nextStatus EvSettled, acRequestedLots := 0, acListedLots := 0, acFilledLots := 0, acListedWeekId := None,
          acListedAskUsdg := 0, acOptionId := (if outcome = Unredeemed then acOptionId prev else None)\<rparr>"

definition onSettled :: "writer_env \<Rightarrow> event_meta \<Rightarrow> address \<Rightarrow> int \<Rightarrow> int \<Rightarrow> tape \<Rightarrow> tape" where
  "onSettled env e account nvdaReturned strikeUsdg t =
     (let a = getAccount env e account t;
          m = getMarket env t;
          outcome = settlementOutcome (acFilledLots a) nvdaReturned strikeUsdg;
          row = \<lparr>srFactory = weFactory env, srAccount = account, srOwner = acOwner a, srWeekId = acListedWeekId a,
                 srLotsListed = acListedLots a, srLotsFilled = acFilledLots a, srAssetReturned = nvdaReturned,
                 srStrikeUsdg = strikeUsdg, srOutcome = outcome, srMeta = e\<rparr>;
          t1 = t\<lparr>tpSettlements := insert_new (txLogId (emTx e) (emLogIndex e)) row (tpSettlements t)\<rparr>;
          t2 = patchAccount env e account (\<lambda>r. (accountAfterSettled outcome r)\<lparr>acSettlements := acSettlements a + 1,
                 acLastSettledAt := Some (emTimestamp e)\<rparr>) t1;
          t3 = week_moved env (acListedWeekId a) (\<lambda>w. weekAfterSettlement w nvdaReturned strikeUsdg) t2
      in patchMarket env (Some e)
           (\<lambda>r. r\<lparr>mkPendingLots := pendingLotsAfter (mkPendingLots m) (acStatus a, acRequestedLots a) (nextStatus EvSettled, 0),
                  mkSettlements := mkSettlements m + 1, mkAssetReturned := mkAssetReturned m + nvdaReturned,
                  mkAssignedUsdg := mkAssignedUsdg m + strikeUsdg\<rparr>) t3)"

definition onUsdgClaimed :: "writer_env \<Rightarrow> event_meta \<Rightarrow> address \<Rightarrow> int \<Rightarrow> tape \<Rightarrow> tape" where
  "onUsdgClaimed env e account amount t =
     (let a = getAccount env e account t;
          m = getMarket env t;
          t1 = patchAccount env e account (\<lambda>r. r\<lparr>acClaimedUsdg := acClaimedUsdg a + amount\<rparr>) t
      in patchMarket env (Some e) (\<lambda>r. r\<lparr>mkClaimedUsdg := mkClaimedUsdg m + amount\<rparr>) t1)"

definition onOwnershipTransferred :: "writer_env \<Rightarrow> event_meta \<Rightarrow> address \<Rightarrow> address \<Rightarrow> tape \<Rightarrow> tape" where
  "onOwnershipTransferred env e account owner t =
     patchMarket env (Some e) (\<lambda>m. m) (patchAccount env e account (\<lambda>r. r\<lparr>acOwner := owner\<rparr>) t)"

subsection \<open>Handlers of the factory's events (factory.ts)\<close>

text \<open>What the setup read found, \<open>None\<close> for a view that did not answer; and the columns it seeds.\<close>

record factory_reads =
  fdAsset :: "address option"
  fdFeed :: "address option"
  fdClear :: "address option"
  fdImplementation :: "address option"
  fdPolicy :: "(int \<times> int \<times> int \<times> int \<times> int \<times> int) option"
  fdFeeRecipient :: "address option"
  fdDepositCap :: "int option"

definition present :: "address option \<Rightarrow> bool" where
  "present a = (case a of None \<Rightarrow> False | Some x \<Rightarrow> lower x \<noteq> ZERO_ADDRESS)"

definition factorySettings :: "factory_reads \<Rightarrow> market_row \<Rightarrow> market_row" where
  "factorySettings reads m =
     (let m1 = (if present (fdAsset reads) then m\<lparr>mkAsset := fdAsset reads\<rparr> else m);
          m2 = (if present (fdFeed reads) then m1\<lparr>mkFeed := fdFeed reads\<rparr> else m1);
          m3 = (if present (fdClear reads) then m2\<lparr>mkClear := fdClear reads\<rparr> else m2);
          m4 = (if present (fdImplementation reads) then m3\<lparr>mkImplementation := fdImplementation reads\<rparr> else m3);
          m5 = (case fdPolicy reads of
                  None \<Rightarrow> m4
                | Some (minOtm, maxOtm, minPremium, maxUtilization, feeBps, cap) \<Rightarrow>
                    m4\<lparr>mkMinOtmBps := Some minOtm, mkMaxOtmBps := Some maxOtm, mkMinPremiumBps := Some minPremium,
                       mkMaxUtilizationBps := Some maxUtilization, mkProtocolFeeBps := Some feeBps, mkMaxContractsCap := Some cap\<rparr>);
          m6 = (if present (fdFeeRecipient reads) then m5\<lparr>mkFeeRecipient := fdFeeRecipient reads\<rparr> else m5)
      in (case fdDepositCap reads of None \<Rightarrow> m6 | Some c \<Rightarrow> m6\<lparr>mkDepositCap := Some c\<rparr>))"

definition onFactorySetup :: "writer_env \<Rightarrow> factory_reads \<Rightarrow> tape \<Rightarrow> tape" where
  "onFactorySetup env reads t =
     (let verified = (fdPolicy reads \<noteq> None \<and> fdFeeRecipient reads \<noteq> None \<and> fdDepositCap reads \<noteq> None)
      in patchMarket env None (\<lambda>m. (factorySettings reads m)\<lparr>mkSettingsVerified := verified\<rparr>) t)"

definition onAccountCreated :: "writer_env \<Rightarrow> event_meta \<Rightarrow> address \<Rightarrow> address \<Rightarrow> int \<Rightarrow> tape \<Rightarrow> tape" where
  "onAccountCreated env e owner account index t =
     (let row = (case map_of (tpAccounts t) account of
                   None \<Rightarrow> new_account env e owner index
                 | Some r \<Rightarrow> r\<lparr>acOwner := owner, acIndex := index, acCreatedAt := emTimestamp e, acCreatedBlock := emBlock e,
                               acCreatedTx := emTx e\<rparr>);
          t1 = t\<lparr>tpAccounts := AList.update account row (tpAccounts t)\<rparr>;
          m = getMarket env t1
      in patchMarket env (Some e) (\<lambda>r. r\<lparr>mkAccountCount := mkAccountCount m + 1\<rparr>) t1)"

definition onAccountRekeyed :: "writer_env \<Rightarrow> event_meta \<Rightarrow> address \<Rightarrow> address \<Rightarrow> tape \<Rightarrow> tape" where
  "onAccountRekeyed env e account owner t =
     (case map_of (tpAccounts t) account of
        None \<Rightarrow> t
      | Some r \<Rightarrow> patchMarket env (Some e) (\<lambda>m. m)
          (t\<lparr>tpAccounts := AList.update account
               (r\<lparr>acOwner := owner, acLastActivityAt := emTimestamp e, acLastActivityBlock := emBlock e\<rparr>) (tpAccounts t)\<rparr>))"

definition onWeekSet :: "writer_env \<Rightarrow> event_meta \<Rightarrow> int \<Rightarrow> int \<Rightarrow> seconds \<Rightarrow> seconds \<Rightarrow> int \<Rightarrow> tape \<Rightarrow> tape" where
  "onWeekSet env e weekId strikeUsdg exerciseTs baseExpiryTs askUsdg t =
     (let row = \<lparr>wrFactory = weFactory env, wrWeekId = weekId, wrStrikeUsdg = strikeUsdg, wrExerciseTs = exerciseTs,
                 wrBaseExpiryTs = baseExpiryTs, wrAskUsdg = askUsdg, wrSetAt = emTimestamp e, wrSetBlock = emBlock e, wrSetTx = emTx e,
                 wrTotals = ZERO_WEEK_TOTALS\<rparr>;
          t1 = t\<lparr>tpWeeks := insert_new (marketWeekId (weFactory env) weekId) row (tpWeeks t)\<rparr>
      in patchMarket env (Some e) (\<lambda>r. r\<lparr>mkWeekId := weekId, mkStrikeUsdg := strikeUsdg, mkExerciseTs := exerciseTs,
           mkBaseExpiryTs := baseExpiryTs, mkAskUsdg := askUsdg, mkWeekSetAt := Some (emTimestamp e)\<rparr>) t1)"

definition ROLE_DEFAULT_ADMIN :: string where
  "ROLE_DEFAULT_ADMIN = ''0x0000000000000000000000000000000000000000000000000000000000000000''"

definition roleName :: "writer_env \<Rightarrow> string \<Rightarrow> string" where
  "roleName env role =
     (let r = lower role
      in if r = ROLE_DEFAULT_ADMIN then ''DEFAULT_ADMIN_ROLE''
         else if r = lower (weKeccak env ''KEEPER_ROLE'') then ''KEEPER_ROLE''
         else if r = lower (weKeccak env ''GUARDIAN_ROLE'') then ''GUARDIAN_ROLE'' else ''UNKNOWN_ROLE'')"

definition role_id :: "string \<Rightarrow> address \<Rightarrow> string" where
  "role_id role account = role @ ''-'' @ lower account"

definition onRoleGranted :: "writer_env \<Rightarrow> event_meta \<Rightarrow> string \<Rightarrow> address \<Rightarrow> tape \<Rightarrow> tape" where
  "onRoleGranted env e role account t =
     (let key = role_id role account;
          row = (case map_of (tpRoles t) key of
                   None \<Rightarrow> \<lparr>rlFactory = weFactory env, rlRole = role, rlRoleName = roleName env role, rlAccount = account, rlGranted = True,
                      rlGrantedAt = Some (emTimestamp e), rlGrantedTx = Some (emTx e), rlRevokedAt = None, rlRevokedTx = None\<rparr>
                 | Some r \<Rightarrow> r\<lparr>rlGranted := True, rlGrantedAt := Some (emTimestamp e), rlGrantedTx := Some (emTx e),
                      rlRevokedAt := None, rlRevokedTx := None\<rparr>)
      in patchMarket env (Some e) (\<lambda>m. if lower role = ROLE_DEFAULT_ADMIN then m\<lparr>mkAdmin := Some account\<rparr> else m)
           (t\<lparr>tpRoles := AList.update key row (tpRoles t)\<rparr>))"

definition onRoleRevoked :: "writer_env \<Rightarrow> event_meta \<Rightarrow> string \<Rightarrow> address \<Rightarrow> tape \<Rightarrow> tape" where
  "onRoleRevoked env e role account t =
     (let key = role_id role account;
          t1 = (case map_of (tpRoles t) key of
                  None \<Rightarrow> t
                | Some r \<Rightarrow> t\<lparr>tpRoles := AList.update key
                    (r\<lparr>rlGranted := False, rlRevokedAt := Some (emTimestamp e), rlRevokedTx := Some (emTx e)\<rparr>) (tpRoles t)\<rparr>);
          admin = mkAdmin (getMarket env t1);
          wasAdmin = (lower role = ROLE_DEFAULT_ADMIN \<and> (case admin of None \<Rightarrow> False | Some x \<Rightarrow> lower x = lower account))
      in patchMarket env (Some e) (\<lambda>m. if wasAdmin then m\<lparr>mkAdmin := None\<rparr> else m) t1)"

subsection \<open>The tape\<close>

datatype market_event =
    Deposited address int
  | Withdrawn address int
  | WriteRequested address int
  | LotsListed address int int int int \<comment> \<open>account, week, option, lots, ask\<close>
  | LotFilled address string int int \<comment> \<open>account, order, option, premium\<close>
  | Settled address int int \<comment> \<open>account, asset, USDG\<close>
  | UsdgClaimed address int
  | OwnershipTransferred address address
  | FactorySetup factory_reads
  | AccountCreated address address int \<comment> \<open>owner, account, index\<close>
  | AccountRekeyed address address
  | WeekSet int int seconds seconds int
  | WritesHalted bool
  | PolicySet
  | FeeRecipientSet address
  | DepositCapSet int
  | RoleGranted string address
  | RoleRevoked string address

fun market_step :: "writer_env \<Rightarrow> event_meta \<times> market_event \<Rightarrow> tape \<Rightarrow> tape" where
  "market_step env (e, Deposited account assets) t = onDeposited env e account assets t"
| "market_step env (e, Withdrawn account assets) t = onWithdrawn env e account assets t"
| "market_step env (e, WriteRequested account lots) t = onWriteRequested env e account lots t"
| "market_step env (e, LotsListed account weekId optionId lots ask) t = onLotsListed env e account weekId optionId lots ask t"
| "market_step env (e, LotFilled account orderHash optionId premium) t = onLotFilled env e account orderHash optionId premium t"
| "market_step env (e, Settled account asset usdg) t = onSettled env e account asset usdg t"
| "market_step env (e, UsdgClaimed account amount) t = onUsdgClaimed env e account amount t"
| "market_step env (e, OwnershipTransferred account owner) t = onOwnershipTransferred env e account owner t"
| "market_step env (e, FactorySetup reads) t = onFactorySetup env reads t"
| "market_step env (e, AccountCreated owner account index) t = onAccountCreated env e owner account index t"
| "market_step env (e, AccountRekeyed account owner) t = onAccountRekeyed env e account owner t"
| "market_step env (e, WeekSet weekId strike ex expiry ask) t = onWeekSet env e weekId strike ex expiry ask t"
| "market_step env (e, WritesHalted halted) t = patchMarket env (Some e) (\<lambda>m. m\<lparr>mkWritesHalted := halted\<rparr>) t"
| "market_step env (e, PolicySet) t = patchMarket env (Some e) (\<lambda>m. m\<lparr>mkPolicySetAt := Some (emTimestamp e)\<rparr>) t"
| "market_step env (e, FeeRecipientSet recipient) t = patchMarket env (Some e) (\<lambda>m. m\<lparr>mkFeeRecipient := Some recipient\<rparr>) t"
| "market_step env (e, DepositCapSet cap) t = patchMarket env (Some e) (\<lambda>m. m\<lparr>mkDepositCap := Some cap\<rparr>) t"
| "market_step env (e, RoleGranted role account) t = onRoleGranted env e role account t"
| "market_step env (e, RoleRevoked role account) t = onRoleRevoked env e role account t"

definition index_market :: "writer_env \<Rightarrow> (event_meta \<times> market_event) list \<Rightarrow> tape" where
  "index_market env events = fold (market_step env) events empty_tape"

subsection \<open>What a step does to the sums over rows\<close>

definition row_sum :: "('v \<Rightarrow> int) \<Rightarrow> ('k \<times> 'v) list \<Rightarrow> int" where
  "row_sum f rows = sum_list (map (\<lambda>kv. f (snd kv)) rows)"

lemma row_sum_Nil [simp]: "row_sum f [] = 0"
  by (simp add: row_sum_def)

lemma row_sum_insert_new: "k \<notin> fst ` set rows \<Longrightarrow> row_sum f (insert_new k v rows) = row_sum f rows + f v"
  by (simp add: row_sum_def insert_new_def map_of_eq_None_iff)

lemma keys_insert_new: "fst ` set (insert_new k v rows) = insert k (fst ` set rows)"
  by (auto simp: insert_new_def map_of_eq_None_iff)

lemma row_sum_account:
  assumes "distinct (map fst (tpAccounts t))" "f (new_account env e ZERO_ADDRESS 0) = 0"
  shows "row_sum f (AList.update account v (tpAccounts t)) = row_sum f (tpAccounts t) + f v - f (getAccount env e account t)"
  using sum_values_update [where m = "tpAccounts t" and f = f and d = "new_account env e ZERO_ADDRESS 0" and k = account and v = v] assms
  by (simp add: row_sum_def getAccount_def)

lemma pending_is_sum:
  assumes "0 \<le> row_sum f rows + pendingContribution new - pendingContribution old"
  shows "pendingLotsAfter (row_sum f rows) old new = row_sum f rows + pendingContribution new - pendingContribution old"
  using assms by (simp add: pendingLotsAfter_def Let_def)

lemma getMarket_simps [simp]:
  "getMarket env (t\<lparr>tpAccounts := as\<rparr>) = getMarket env t" "getMarket env (t\<lparr>tpWeeks := ws\<rparr>) = getMarket env t"
  "getMarket env (t\<lparr>tpFills := fs\<rparr>) = getMarket env t" "getMarket env (t\<lparr>tpSettlements := ss\<rparr>) = getMarket env t"
  "getMarket env (t\<lparr>tpRoles := rs\<rparr>) = getMarket env t"
  by (simp_all add: getMarket_def)

lemma getAccount_simps [simp]:
  "getAccount env e a (t\<lparr>tpFills := fs\<rparr>) = getAccount env e a t" "getAccount env e a (t\<lparr>tpSettlements := ss\<rparr>) = getAccount env e a t"
  by (simp_all add: getAccount_def)

lemma week_moved_simps [simp]:
  "tpMarket (week_moved env w f t) = tpMarket t" "tpAccounts (week_moved env w f t) = tpAccounts t"
  "tpFills (week_moved env w f t) = tpFills t" "tpSettlements (week_moved env w f t) = tpSettlements t"
  "getMarket env' (week_moved env w f t) = getMarket env' t"
  by (auto simp: week_moved_def patchWeek_def getMarket_def split: option.splits)

lemma patchAccount_simps [simp]:
  "tpMarket (patchAccount env e a f t) = tpMarket t" "tpFills (patchAccount env e a f t) = tpFills t"
  "tpSettlements (patchAccount env e a f t) = tpSettlements t" "tpWeeks (patchAccount env e a f t) = tpWeeks t"
  "getMarket env' (patchAccount env e a f t) = getMarket env' t"
  by (simp_all add: patchAccount_def)

lemma patchMarket_simps [simp]:
  "tpAccounts (patchMarket env e f t) = tpAccounts t" "tpFills (patchMarket env e f t) = tpFills t"
  "tpSettlements (patchMarket env e f t) = tpSettlements t" "tpWeeks (patchMarket env e f t) = tpWeeks t"
  by (simp_all add: patchMarket_def Let_def)

lemma getMarket_patched:
  "getMarket env (patchMarket env e f t) = (case e of None \<Rightarrow> f (getMarket env t)
     | Some m \<Rightarrow> (f (getMarket env t))\<lparr>mkLastBlock := emBlock m, mkLastTimestamp := emTimestamp m\<rparr>)"
  unfolding patchMarket_def Let_def by (simp add: getMarket_def split: option.split)

subsection \<open>The market row is the sum of the other tables\<close>

definition contribution_of :: "account_row \<Rightarrow> int" where
  "contribution_of a = pendingContribution (acStatus a, acRequestedLots a)"

definition market_books :: "market_row \<Rightarrow> (address \<times> account_row) list \<Rightarrow> (string \<times> fill_row) list \<Rightarrow> (string \<times> settlement_row) list \<Rightarrow> bool" where
  "market_books m accounts fills settlements =
     (mkPendingLots m = row_sum contribution_of accounts
      \<and> mkLotsListed m = row_sum acLotsListed accounts
      \<and> mkLotsFilled m = row_sum acLotsFilled accounts \<and> mkLotsFilled m = int (length fills)
      \<and> mkPremiumUsdg m = row_sum acPremiumUsdg accounts \<and> mkPremiumUsdg m = row_sum frPremiumUsdg fills
      \<and> mkSettlements m = row_sum acSettlements accounts \<and> mkSettlements m = int (length settlements)
      \<and> mkAssetReturned m = row_sum srAssetReturned settlements \<and> mkAssignedUsdg m = row_sum srStrikeUsdg settlements
      \<and> mkClaimedUsdg m = row_sum acClaimedUsdg accounts)"

definition books :: "writer_env \<Rightarrow> tape \<Rightarrow> bool" where
  "books env t =
     (distinct (map fst (tpAccounts t)) \<and> (\<forall>kv \<in> set (tpAccounts t). 0 \<le> acRequestedLots (snd kv))
      \<and> market_books (getMarket env t) (tpAccounts t) (tpFills t) (tpSettlements t))"

definition log_id :: "event_meta \<times> market_event \<Rightarrow> string" where
  "log_id ev = txLogId (emTx (fst ev)) (emLogIndex (fst ev))"

definition lots_ok :: "event_meta \<times> market_event \<Rightarrow> bool" where
  "lots_ok ev = (case snd ev of WriteRequested account lots \<Rightarrow> 0 \<le> lots | _ \<Rightarrow> True)"

lemma new_account_figures [simp]:
  "contribution_of (new_account env e owner i) = 0" "acLotsListed (new_account env e owner i) = 0" "acLotsFilled (new_account env e owner i) = 0"
  "acPremiumUsdg (new_account env e owner i) = 0" "acSettlements (new_account env e owner i) = 0" "acClaimedUsdg (new_account env e owner i) = 0"
  "acRequestedLots (new_account env e owner i) = 0" "acStatus (new_account env e owner i) = AccIdle"
  by (simp_all add: new_account_def contribution_of_def pendingContribution_def)

lemma requested_nonneg: "\<forall>kv \<in> set (tpAccounts t). 0 \<le> acRequestedLots (snd kv) \<Longrightarrow> 0 \<le> acRequestedLots (getAccount env e a t)"
  by (force simp: getAccount_def get_or_def split: option.splits dest: map_of_SomeD)

lemma values_update: "\<forall>kv \<in> set (AList.update k v rows). P (snd kv)" if "\<forall>kv \<in> set rows. P (snd kv)" "P v"
  using that by (induction rows) auto

lemma contribution_nonneg: "\<forall>kv \<in> set rows. 0 \<le> acRequestedLots (snd kv) \<Longrightarrow> 0 \<le> row_sum contribution_of rows"
  unfolding row_sum_def by (intro sum_list_nonneg_map) (auto simp: contribution_of_def pendingContribution_def)

text \<open>A patch of one account keeps the books when the market row moves by the same amounts.\<close>

lemma patched_sums:
  assumes "books env t" "0 \<le> acRequestedLots r"
  shows "distinct (map fst (AList.update a r (tpAccounts t)))"
    "\<forall>kv \<in> set (AList.update a r (tpAccounts t)). 0 \<le> acRequestedLots (snd kv)"
    "0 \<le> row_sum contribution_of (tpAccounts t) + contribution_of r - contribution_of (getAccount env e a t)"
    "f (new_account env e ZERO_ADDRESS 0) = 0 \<Longrightarrow>
     row_sum f (AList.update a r (tpAccounts t)) = row_sum f (tpAccounts t) + f r - f (getAccount env e a t)"
proof -
  have d: "distinct (map fst (tpAccounts t))" "\<forall>kv \<in> set (tpAccounts t). 0 \<le> acRequestedLots (snd kv)" using assms(1) by (simp_all add: books_def)
  show "distinct (map fst (AList.update a r (tpAccounts t)))" by (rule distinct_keys_update [OF d(1)])
  show v: "\<forall>kv \<in> set (AList.update a r (tpAccounts t)). 0 \<le> acRequestedLots (snd kv)" by (rule values_update [OF d(2) assms(2)])
  show "f (new_account env e ZERO_ADDRESS 0) = 0 \<Longrightarrow>
     row_sum f (AList.update a r (tpAccounts t)) = row_sum f (tpAccounts t) + f r - f (getAccount env e a t)" for f
    by (rule row_sum_account [OF d(1)])
  from this [of contribution_of] contribution_nonneg [OF v]
  show "0 \<le> row_sum contribution_of (tpAccounts t) + contribution_of r - contribution_of (getAccount env e a t)" by simp
qed

text \<open>What each handler does to an account's row.\<close>

definition fresh_id :: "tape \<Rightarrow> event_meta \<Rightarrow> bool" where
  "fresh_id t e = (txLogId (emTx e) (emLogIndex e) \<notin> fst ` set (tpFills t) \<and> txLogId (emTx e) (emLogIndex e) \<notin> fst ` set (tpSettlements t))"

lemma length_insert_new: "k \<notin> fst ` set rows \<Longrightarrow> length (insert_new k v rows) = Suc (length rows)"
  by (simp add: insert_new_def map_of_eq_None_iff)

lemma books_patch:
  assumes "books env t" "0 \<le> acRequestedLots (change (getAccount env e a t))"
    "tpAccounts t' = tpAccounts (patchAccount env e a change t)"
    "market_books (getMarket env t') (tpAccounts (patchAccount env e a change t)) (tpFills t') (tpSettlements t')"
  shows "books env t'"
  using patched_sums(1,2) [OF assms(1), of "(change (getAccount env e a t))\<lparr>acLastActivityAt := emTimestamp e, acLastActivityBlock := emBlock e\<rparr>" a] assms(2-4)
  by (simp add: books_def patchAccount_def)

lemma patched_figures:
  assumes "books env t" "0 \<le> acRequestedLots (change (getAccount env e a t))"
  defines "new \<equiv> change (getAccount env e a t)" and "old \<equiv> getAccount env e a t"
  shows "row_sum acLotsListed (tpAccounts (patchAccount env e a change t)) = mkLotsListed (getMarket env t) + acLotsListed new - acLotsListed old"
    "row_sum acLotsFilled (tpAccounts (patchAccount env e a change t)) = mkLotsFilled (getMarket env t) + acLotsFilled new - acLotsFilled old"
    "row_sum acPremiumUsdg (tpAccounts (patchAccount env e a change t)) = mkPremiumUsdg (getMarket env t) + acPremiumUsdg new - acPremiumUsdg old"
    "row_sum acSettlements (tpAccounts (patchAccount env e a change t)) = mkSettlements (getMarket env t) + acSettlements new - acSettlements old"
    "row_sum acClaimedUsdg (tpAccounts (patchAccount env e a change t)) = mkClaimedUsdg (getMarket env t) + acClaimedUsdg new - acClaimedUsdg old"
    "row_sum contribution_of (tpAccounts (patchAccount env e a change t)) = mkPendingLots (getMarket env t) + contribution_of new - contribution_of old"
    "pendingLotsAfter (mkPendingLots (getMarket env t)) (acStatus old, acRequestedLots old) (acStatus new, acRequestedLots new)
       = row_sum contribution_of (tpAccounts (patchAccount env e a change t))"
proof -
  let ?r = "new\<lparr>acLastActivityAt := emTimestamp e, acLastActivityBlock := emBlock e\<rparr>"
  have nn: "0 \<le> acRequestedLots ?r" using assms(2) by (simp add: new_def)
  have m: "market_books (getMarket env t) (tpAccounts t) (tpFills t) (tpSettlements t)" using assms(1) by (simp add: books_def)
  have p: "tpAccounts (patchAccount env e a change t) = AList.update a ?r (tpAccounts t)" by (simp add: patchAccount_def new_def)
  note sums = patched_sums(4) [OF assms(1) nn, where a = a and e = e, folded old_def]
  have c: "contribution_of ?r = contribution_of new" by (simp add: contribution_of_def)
  show "row_sum acLotsListed (tpAccounts (patchAccount env e a change t)) = mkLotsListed (getMarket env t) + acLotsListed new - acLotsListed old"
    "row_sum acLotsFilled (tpAccounts (patchAccount env e a change t)) = mkLotsFilled (getMarket env t) + acLotsFilled new - acLotsFilled old"
    "row_sum acPremiumUsdg (tpAccounts (patchAccount env e a change t)) = mkPremiumUsdg (getMarket env t) + acPremiumUsdg new - acPremiumUsdg old"
    "row_sum acSettlements (tpAccounts (patchAccount env e a change t)) = mkSettlements (getMarket env t) + acSettlements new - acSettlements old"
    "row_sum acClaimedUsdg (tpAccounts (patchAccount env e a change t)) = mkClaimedUsdg (getMarket env t) + acClaimedUsdg new - acClaimedUsdg old"
    unfolding p using m by (simp_all add: sums market_books_def)
  show s: "row_sum contribution_of (tpAccounts (patchAccount env e a change t)) = mkPendingLots (getMarket env t) + contribution_of new - contribution_of old"
    unfolding p using m by (simp add: sums c market_books_def)
  have "0 \<le> mkPendingLots (getMarket env t) + contribution_of new - contribution_of old"
    using patched_sums(3) [OF assms(1) nn, of e a] m by (simp add: c market_books_def flip: old_def)
  then show "pendingLotsAfter (mkPendingLots (getMarket env t)) (acStatus old, acRequestedLots old) (acStatus new, acRequestedLots new)
       = row_sum contribution_of (tpAccounts (patchAccount env e a change t))"
    unfolding s by (simp add: pendingLotsAfter_def Let_def contribution_of_def)
qed

text \<open>
  The books of a tape whose accounts are those of a patch, from what its market row and its new rows add.
\<close>

lemma books_moved:
  assumes "books env t" "tpAccounts t' = tpAccounts (patchAccount env e a change t)"
    and new: "new = change (getAccount env e a t)" and old: "old = getAccount env e a t"
    and "0 \<le> acRequestedLots new"
    and pend: "mkPendingLots (getMarket env t') = pendingLotsAfter (mkPendingLots (getMarket env t)) (acStatus old, acRequestedLots old) (acStatus new, acRequestedLots new)
      \<or> mkPendingLots (getMarket env t') = mkPendingLots (getMarket env t) \<and> acStatus new = acStatus old \<and> acRequestedLots new = acRequestedLots old"
    and fig: "mkLotsListed (getMarket env t') = mkLotsListed (getMarket env t) + acLotsListed new - acLotsListed old"
      "mkLotsFilled (getMarket env t') = mkLotsFilled (getMarket env t) + acLotsFilled new - acLotsFilled old"
      "mkPremiumUsdg (getMarket env t') = mkPremiumUsdg (getMarket env t) + acPremiumUsdg new - acPremiumUsdg old"
      "mkSettlements (getMarket env t') = mkSettlements (getMarket env t) + acSettlements new - acSettlements old"
      "mkClaimedUsdg (getMarket env t') = mkClaimedUsdg (getMarket env t) + acClaimedUsdg new - acClaimedUsdg old"
    and fills: "mkLotsFilled (getMarket env t') = int (length (tpFills t'))" "mkPremiumUsdg (getMarket env t') = row_sum frPremiumUsdg (tpFills t')"
    and setts: "mkSettlements (getMarket env t') = int (length (tpSettlements t'))"
      "mkAssetReturned (getMarket env t') = row_sum srAssetReturned (tpSettlements t')" "mkAssignedUsdg (getMarket env t') = row_sum srStrikeUsdg (tpSettlements t')"
  shows "books env t'"
proof (rule books_patch [OF assms(1) _ assms(2)])
  show nn: "0 \<le> acRequestedLots (change (getAccount env e a t))" using assms(5) new by simp
  note p = patched_figures [where change = change and a = a and e = e, OF assms(1) nn, folded new old]
  have "mkPendingLots (getMarket env t') = row_sum contribution_of (tpAccounts (patchAccount env e a change t))"
    using pend p(6,7) by (auto simp: contribution_of_def)
  then show "market_books (getMarket env t') (tpAccounts (patchAccount env e a change t)) (tpFills t') (tpSettlements t')"
    unfolding market_books_def using p(1-5) fig fills setts by simp
qed

lemma books_rows:
  assumes "books env t"
  shows "mkLotsFilled (getMarket env t) = int (length (tpFills t))" "mkPremiumUsdg (getMarket env t) = row_sum frPremiumUsdg (tpFills t)"
    "mkSettlements (getMarket env t) = int (length (tpSettlements t))" "mkAssetReturned (getMarket env t) = row_sum srAssetReturned (tpSettlements t)"
    "mkAssignedUsdg (getMarket env t) = row_sum srStrikeUsdg (tpSettlements t)" "\<And>e a. 0 \<le> acRequestedLots (getAccount env e a t)"
  using assms requested_nonneg by (auto simp: books_def market_books_def)

lemma books_unmoved:
  assumes "books env t" "tpAccounts t' = tpAccounts t" "tpFills t' = tpFills t" "tpSettlements t' = tpSettlements t"
    "mkPendingLots (getMarket env t') = mkPendingLots (getMarket env t)" "mkLotsListed (getMarket env t') = mkLotsListed (getMarket env t)"
    "mkLotsFilled (getMarket env t') = mkLotsFilled (getMarket env t)" "mkPremiumUsdg (getMarket env t') = mkPremiumUsdg (getMarket env t)"
    "mkSettlements (getMarket env t') = mkSettlements (getMarket env t)" "mkAssetReturned (getMarket env t') = mkAssetReturned (getMarket env t)"
    "mkAssignedUsdg (getMarket env t') = mkAssignedUsdg (getMarket env t)" "mkClaimedUsdg (getMarket env t') = mkClaimedUsdg (getMarket env t)"
  shows "books env t'"
  using assms by (simp add: books_def market_books_def)

lemma factorySettings_figures [simp]:
  "mkPendingLots (factorySettings reads m) = mkPendingLots m" "mkLotsListed (factorySettings reads m) = mkLotsListed m"
  "mkLotsFilled (factorySettings reads m) = mkLotsFilled m" "mkPremiumUsdg (factorySettings reads m) = mkPremiumUsdg m"
  "mkSettlements (factorySettings reads m) = mkSettlements m" "mkAssetReturned (factorySettings reads m) = mkAssetReturned m"
  "mkAssignedUsdg (factorySettings reads m) = mkAssignedUsdg m" "mkClaimedUsdg (factorySettings reads m) = mkClaimedUsdg m"
  by (simp_all add: factorySettings_def Let_def split: option.split)

lemma accounts_kept:
  "tpAccounts (patchMarket env1 e1 f (week_moved env2 w g t)) = tpAccounts t"
  "tpAccounts (patchMarket env1 e1 f (week_moved env2 w g (patchAccount env e a change (t\<lparr>tpFills := fs\<rparr>)))) = tpAccounts (patchAccount env e a change t)"
  "tpAccounts (patchMarket env1 e1 f (week_moved env2 w g (patchAccount env e a change (t\<lparr>tpSettlements := ss\<rparr>)))) = tpAccounts (patchAccount env e a change t)"
  by (simp_all add: patchAccount_def)

lemma books_account_event:
  assumes "books env t" "fresh_id t e"
  shows "books env (onDeposited env e a n t)" "books env (onWithdrawn env e a n t)" "0 \<le> n \<Longrightarrow> books env (onWriteRequested env e a n t)"
    "books env (onLotsListed env e a w opt n ask t)" "books env (onLotFilled env e a h opt n t)" "books env (onSettled env e a n k t)"
    "books env (onUsdgClaimed env e a n t)" "books env (onOwnershipTransferred env e a ow t)"
proof -
  note rows = books_rows [OF assms(1)]
  note new_rows = length_insert_new row_sum_insert_new
  have fresh: "txLogId (emTx e) (emLogIndex e) \<notin> fst ` set (tpFills t)" "txLogId (emTx e) (emLogIndex e) \<notin> fst ` set (tpSettlements t)"
    using assms(2) by (simp_all add: fresh_id_def)
  show "books env (onDeposited env e a n t)" unfolding onDeposited_def Let_def
    by (rule books_moved [OF assms(1) patchMarket_simps(1) refl refl]) (use rows in \<open>simp_all add: getMarket_patched\<close>)
  show "books env (onWithdrawn env e a n t)" unfolding onWithdrawn_def Let_def
    by (rule books_moved [OF assms(1) patchMarket_simps(1) refl refl]) (use rows in \<open>simp_all add: getMarket_patched\<close>)
  show "0 \<le> n \<Longrightarrow> books env (onWriteRequested env e a n t)" unfolding onWriteRequested_def Let_def
    by (rule books_moved [OF assms(1) patchMarket_simps(1) refl refl]) (use rows in \<open>simp_all add: getMarket_patched\<close>)
  show "books env (onLotsListed env e a w opt n ask t)" unfolding onLotsListed_def Let_def
    by (rule books_moved [OF assms(1) accounts_kept(1) refl refl]) (use rows in \<open>simp_all add: getMarket_patched\<close>)
  show "books env (onLotFilled env e a h opt n t)" unfolding onLotFilled_def Let_def
    by (rule books_moved [OF assms(1) accounts_kept(2) refl refl]) (use rows fresh in \<open>simp_all add: getMarket_patched new_rows\<close>)
  show "books env (onSettled env e a n k t)" unfolding onSettled_def Let_def
    by (rule books_moved [OF assms(1) accounts_kept(3) refl refl])
       (use rows fresh in \<open>simp_all add: getMarket_patched new_rows accountAfterSettled_def\<close>)
  show "books env (onUsdgClaimed env e a n t)" unfolding onUsdgClaimed_def Let_def
    by (rule books_moved [OF assms(1) patchMarket_simps(1) refl refl]) (use rows in \<open>simp_all add: getMarket_patched\<close>)
  show "books env (onOwnershipTransferred env e a ow t)" unfolding onOwnershipTransferred_def
    by (rule books_moved [OF assms(1) patchMarket_simps(1) refl refl]) (use rows in \<open>simp_all add: getMarket_patched\<close>)
qed

lemma books_owner_change:
  assumes "books env t"
    and same: "\<And>f. f (getAccount env e a t) = f r' \<or> f \<notin> {contribution_of, acRequestedLots, acLotsListed, acLotsFilled, acPremiumUsdg, acSettlements, acClaimedUsdg}"
  shows "books env (t\<lparr>tpAccounts := AList.update a r' (tpAccounts t)\<rparr>)"
proof -
  have "0 \<le> acRequestedLots r'" using books_rows(6) [OF assms(1), of e a] same [of acRequestedLots] by simp
  note p = patched_sums(1,2) [OF assms(1) this, where a = a] and sums = patched_sums(4) [OF assms(1) this, where a = a and e = e]
  have "row_sum f (AList.update a r' (tpAccounts t)) = row_sum f (tpAccounts t)"
    if "f \<in> {contribution_of, acLotsListed, acLotsFilled, acPremiumUsdg, acSettlements, acClaimedUsdg}" for f
    using sums [of f] same [of f] that by auto
  then show ?thesis using p(1,2) assms(1) by (simp add: books_def market_books_def)
qed

lemma books_factory_event:
  assumes "books env t"
  shows "books env (onFactorySetup env reads t)" "books env (onAccountCreated env e ow a i t)" "books env (onAccountRekeyed env e a ow t)"
    "books env (onWeekSet env e w k x y z t)" "books env (onRoleGranted env e role a t)" "books env (onRoleRevoked env e role a t)"
proof -
  show "books env (onFactorySetup env reads t)" unfolding onFactorySetup_def Let_def
    by (rule books_unmoved [OF assms]) (simp_all add: getMarket_patched)
  have "books env (t\<lparr>tpAccounts := AList.update a (case map_of (tpAccounts t) a of None \<Rightarrow> new_account env e ow i
      | Some r \<Rightarrow> r\<lparr>acOwner := ow, acIndex := i, acCreatedAt := emTimestamp e, acCreatedBlock := emBlock e, acCreatedTx := emTx e\<rparr>)
      (tpAccounts t)\<rparr>)" (is "books env ?t1")
    by (rule books_owner_change [OF assms, where e = e]) (auto simp: getAccount_def get_or_def contribution_of_def split: option.splits)
  then show "books env (onAccountCreated env e ow a i t)" unfolding onAccountCreated_def Let_def
    by (rule books_unmoved) (simp_all add: getMarket_patched)
  show "books env (onAccountRekeyed env e a ow t)"
  proof (cases "map_of (tpAccounts t) a")
    case (Some r)
    then have "books env (t\<lparr>tpAccounts := AList.update a (r\<lparr>acOwner := ow, acLastActivityAt := emTimestamp e, acLastActivityBlock := emBlock e\<rparr>)
        (tpAccounts t)\<rparr>)"
      by (intro books_owner_change [OF assms, where e = e]) (auto simp: getAccount_def get_or_def contribution_of_def)
    then show ?thesis unfolding onAccountRekeyed_def Some option.case by (rule books_unmoved) (simp_all add: getMarket_patched)
  qed (simp add: onAccountRekeyed_def assms)
  show "books env (onWeekSet env e w k x y z t)" unfolding onWeekSet_def Let_def
    by (rule books_unmoved [OF assms]) (simp_all add: getMarket_patched)
  show "books env (onRoleGranted env e role a t)" unfolding onRoleGranted_def Let_def
    by (rule books_unmoved [OF assms]) (simp_all add: getMarket_patched)
  show "books env (onRoleRevoked env e role a t)" unfolding onRoleRevoked_def Let_def
    by (rule books_unmoved [OF assms]) (simp_all add: getMarket_patched split: option.split)
qed

lemma books_step:
  assumes "books env t" "fresh_id t (fst ev)" "lots_ok ev"
  shows "books env (market_step env ev t)"
proof (cases ev)
  case (Pair e x)
  have plain: "books env (patchMarket env (Some e) f t)"
    if "\<And>m. mkPendingLots (f m) = mkPendingLots m \<and> mkLotsListed (f m) = mkLotsListed m \<and> mkLotsFilled (f m) = mkLotsFilled m
      \<and> mkPremiumUsdg (f m) = mkPremiumUsdg m \<and> mkSettlements (f m) = mkSettlements m \<and> mkAssetReturned (f m) = mkAssetReturned m
      \<and> mkAssignedUsdg (f m) = mkAssignedUsdg m \<and> mkClaimedUsdg (f m) = mkClaimedUsdg m" for f
    by (rule books_unmoved [OF assms(1)]) (simp_all add: getMarket_patched that)
  have "fresh_id t e" using assms(2) Pair by simp
  note account = books_account_event [OF assms(1) this]
  show ?thesis using assms(3) account books_factory_event [OF assms(1)]
    unfolding Pair by (cases x) (simp_all add: plain lots_ok_def)
qed

lemma step_ids:
  "fst ` set (tpFills (market_step env ev t)) \<subseteq> insert (log_id ev) (fst ` set (tpFills t))"
  "fst ` set (tpSettlements (market_step env ev t)) \<subseteq> insert (log_id ev) (fst ` set (tpSettlements t))"
proof -
  obtain e x where ev: "ev = (e, x)" by (cases ev)
  show "fst ` set (tpFills (market_step env ev t)) \<subseteq> insert (log_id ev) (fst ` set (tpFills t))"
    unfolding ev by (cases x)
      (auto simp: onDeposited_def onWithdrawn_def onWriteRequested_def onLotsListed_def onLotFilled_def onSettled_def onUsdgClaimed_def
        onOwnershipTransferred_def onFactorySetup_def onAccountCreated_def onAccountRekeyed_def onWeekSet_def onRoleGranted_def onRoleRevoked_def
        Let_def log_id_def insert_new_def split: option.splits if_splits)
  show "fst ` set (tpSettlements (market_step env ev t)) \<subseteq> insert (log_id ev) (fst ` set (tpSettlements t))"
    unfolding ev by (cases x)
      (auto simp: onDeposited_def onWithdrawn_def onWriteRequested_def onLotsListed_def onLotFilled_def onSettled_def onUsdgClaimed_def
        onOwnershipTransferred_def onFactorySetup_def onAccountCreated_def onAccountRekeyed_def onWeekSet_def onRoleGranted_def onRoleRevoked_def
        Let_def log_id_def insert_new_def split: option.splits if_splits)
qed

lemma ids_disjoint: "A' \<subseteq> insert i A \<Longrightarrow> B' \<subseteq> insert i B \<Longrightarrow> i \<notin> L \<Longrightarrow> (A \<union> B) \<inter> L = {} \<Longrightarrow> (A' \<union> B') \<inter> L = {}"
  by blast

lemma books_fold:
  assumes "books env t" "distinct (map log_id evs)" "\<forall>ev \<in> set evs. lots_ok ev"
    "(fst ` set (tpFills t) \<union> fst ` set (tpSettlements t)) \<inter> log_id ` set evs = {}"
  shows "books env (fold (market_step env) evs t)"
  using assms
proof (induction evs arbitrary: t)
  case (Cons ev evs)
  have "fresh_id t (fst ev)" using Cons.prems(4) by (auto simp: fresh_id_def log_id_def)
  with Cons.prems(1,3) have "books env (market_step env ev t)" by (intro books_step) simp_all
  moreover have "(fst ` set (tpFills (market_step env ev t)) \<union> fst ` set (tpSettlements (market_step env ev t))) \<inter> log_id ` set evs = {}"
    using Cons.prems(2,4) by (intro ids_disjoint [OF step_ids]) (simp_all add: Int_insert_right split: if_splits)
  ultimately show ?case using Cons.IH Cons.prems(2,3) by simp
qed simp

lemma books_empty: "books env empty_tape"
  by (simp add: books_def market_books_def empty_tape_def getMarket_def new_market_def)

text \<open>
  C17: the market row is the sum of the tables. After any event log with distinct log positions, in any
  order, the market's pending lots are what the pending accounts request (the floor at zero never hides a
  difference), its listed, filled and claimed totals are the sums over the accounts, and its fills, premium,
  settlements and returned amounts are those of the fill and settlement rows.
\<close>

theorem market_row_is_sum:
  assumes "distinct (map log_id evs)" "\<forall>ev \<in> set evs. lots_ok ev"
  shows "market_books (getMarket env (index_market env evs)) (tpAccounts (index_market env evs)) (tpFills (index_market env evs))
    (tpSettlements (index_market env evs))"
proof -
  have "books env (index_market env evs)"
    unfolding index_market_def by (rule books_fold [OF books_empty assms]) (simp add: empty_tape_def)
  then show ?thesis by (simp add: books_def)
qed

subsection \<open>Week rows\<close>

text \<open>Two numbers with the same decimal text are equal, so weeks have different keys.\<close>

fun read_digits :: "nat \<Rightarrow> string \<Rightarrow> nat" where
  "read_digits n [] = n"
| "read_digits n (c # cs) = read_digits (10 * n + (of_char c - 48)) cs"

lemma read_digits_append: "read_digits n (xs @ ys) = read_digits (read_digits n xs) ys"
  by (induction xs arbitrary: n) auto

lemma read_show_nat: "read_digits 0 (show_nat n) = n"
proof (induction n rule: show_nat.induct)
  case (1 n)
  have d: "of_char (digit_char (n mod 10)) - 48 = n mod 10" by (simp add: digit_char_def)
  show ?case
  proof (cases "n < 10")
    case True
    then show ?thesis using d by (subst show_nat.simps) simp
  next
    case False
    then have "read_digits 0 (show_nat n) = 10 * (n div 10) + n mod 10" using 1 d by (subst show_nat.simps) (simp add: read_digits_append)
    then show ?thesis by simp
  qed
qed

lemma show_nat_no_sign: "show_nat n \<noteq> CHR ''-'' # s"
proof (induction n arbitrary: s rule: show_nat.induct)
  case (1 n)
  have d: "digit_char (n mod 10) \<noteq> CHR ''-''"
  proof
    assume "digit_char (n mod 10) = CHR ''-''"
    then have "of_char (digit_char (n mod 10)) = (of_char (CHR ''-'') :: nat)" by simp
    then show False by (simp add: digit_char_def)
  qed
  show ?case
  proof (cases "n < 10")
    case True
    then show ?thesis using d by (subst show_nat.simps) simp
  next
    case False
    have "show_nat (n div 10) \<noteq> []" by (subst show_nat.simps) simp
    then obtain c cs where c: "show_nat (n div 10) = c # cs" by (cases "show_nat (n div 10)") auto
    then have "c \<noteq> CHR ''-''" using 1 False by auto
    then show ?thesis using False c by (subst show_nat.simps) simp
  qed
qed

lemma show_nat_inj: "show_nat m = show_nat n \<Longrightarrow> m = n"
  by (metis read_show_nat)

lemma show_int_inj: "show_int i = show_int j \<Longrightarrow> i = j"
  using show_nat_no_sign [of "nat i"] show_nat_no_sign [of "nat j", THEN not_sym]
  by (cases "i < 0"; cases "j < 0") (auto simp: show_int_def dest: show_nat_inj)

lemma marketWeekId_inj: "marketWeekId f v = marketWeekId f w \<longleftrightarrow> v = w"
  by (auto simp: marketWeekId_def dest: show_int_inj)

definition week_ok :: "(string \<times> fill_row) list \<Rightarrow> (string \<times> settlement_row) list \<Rightarrow> week_row \<Rightarrow> bool" where
  "week_ok fills settlements w =
     (wkLotsFilled (wrTotals w) = row_sum (\<lambda>r. if frWeekId r = Some (wrWeekId w) then 1 else 0) fills
      \<and> wkPremiumUsdg (wrTotals w) = row_sum (\<lambda>r. if frWeekId r = Some (wrWeekId w) then frPremiumUsdg r else 0) fills
      \<and> wkAccountsSettled (wrTotals w) = row_sum (\<lambda>r. if srWeekId r = Some (wrWeekId w) then 1 else 0) settlements
      \<and> wkAssetReturned (wrTotals w) = row_sum (\<lambda>r. if srWeekId r = Some (wrWeekId w) then srAssetReturned r else 0) settlements
      \<and> wkAssignedUsdg (wrTotals w) = row_sum (\<lambda>r. if srWeekId r = Some (wrWeekId w) then srStrikeUsdg r else 0) settlements)"

text \<open>The weeks named by the accounts and the rows have rows.\<close>

definition known :: "writer_env \<Rightarrow> (string \<times> week_row) list \<Rightarrow> int option \<Rightarrow> bool" where
  "known env weeks w = (case w of None \<Rightarrow> True | Some v \<Rightarrow> marketWeekId (weFactory env) v \<in> fst ` set weeks)"

definition week_inv :: "writer_env \<Rightarrow> tape \<Rightarrow> bool" where
  "week_inv env t =
     (distinct (map fst (tpWeeks t))
      \<and> (\<forall>kv \<in> set (tpWeeks t). fst kv = marketWeekId (weFactory env) (wrWeekId (snd kv)) \<and> week_ok (tpFills t) (tpSettlements t) (snd kv))
      \<and> (\<forall>kv \<in> set (tpAccounts t). known env (tpWeeks t) (acListedWeekId (snd kv)))
      \<and> (\<forall>kv \<in> set (tpFills t). known env (tpWeeks t) (frWeekId (snd kv)))
      \<and> (\<forall>kv \<in> set (tpSettlements t). known env (tpWeeks t) (srWeekId (snd kv))))"

text \<open>A listing only names a week that was set before it.\<close>

fun announced :: "int list \<Rightarrow> (event_meta \<times> market_event) list \<Rightarrow> bool" where
  "announced seen [] = True"
| "announced seen (ev # evs) =
     (case snd ev of
        WeekSet w strike ex expiry ask \<Rightarrow> announced (w # seen) evs
      | LotsListed account w opt lots ask \<Rightarrow> w \<in> set seen \<and> announced seen evs
      | _ \<Rightarrow> announced seen evs)"

lemma update_cases: "distinct (map fst m) \<Longrightarrow> x \<in> set (AList.update k v m) \<Longrightarrow> x = (k, v) \<or> x \<in> set m \<and> fst x \<noteq> k"
proof (induction m)
  case (Cons p m)
  then show ?case by (cases p; cases "fst p = k") force+
qed simp

lemma week_moved_weeks:
  "tpWeeks (week_moved env wo move t) =
     (case wo of None \<Rightarrow> tpWeeks t
      | Some w \<Rightarrow> (case map_of (tpWeeks t) (marketWeekId (weFactory env) w) of None \<Rightarrow> tpWeeks t
          | Some row \<Rightarrow> AList.update (marketWeekId (weFactory env) w) (row\<lparr>wrTotals := move (wrTotals row)\<rparr>) (tpWeeks t)))"
  by (simp add: week_moved_def patchWeek_def findWeek_def split: option.split)

lemma keys_week_moved: "fst ` set (tpWeeks (week_moved env wo move t)) = fst ` set (tpWeeks t)"
  by (force simp: week_moved_weeks keys_update split: option.split dest: map_of_SomeD)

lemma week_inv_moved:
  assumes "week_inv env t" "tpWeeks t' = tpWeeks (week_moved env wo move s)" "tpWeeks s = tpWeeks t"
    and "\<And>row. wo \<noteq> Some (wrWeekId row) \<Longrightarrow> week_ok (tpFills t) (tpSettlements t) row \<Longrightarrow> week_ok (tpFills t') (tpSettlements t') row"
    and "\<And>row. wo = Some (wrWeekId row) \<Longrightarrow> week_ok (tpFills t) (tpSettlements t) row
      \<Longrightarrow> week_ok (tpFills t') (tpSettlements t') (row\<lparr>wrTotals := move (wrTotals row)\<rparr>)"
    and "known env (tpWeeks t) wo"
    and "\<forall>kv \<in> set (tpAccounts t'). known env (tpWeeks t) (acListedWeekId (snd kv))"
    and "\<forall>kv \<in> set (tpFills t'). known env (tpWeeks t) (frWeekId (snd kv))"
    and "\<forall>kv \<in> set (tpSettlements t'). known env (tpWeeks t) (srWeekId (snd kv))"
  shows "week_inv env t'"
proof -
  let ?F = "weFactory env"
  have inv: "distinct (map fst (tpWeeks t))"
    "\<forall>kv \<in> set (tpWeeks t). fst kv = marketWeekId ?F (wrWeekId (snd kv)) \<and> week_ok (tpFills t) (tpSettlements t) (snd kv)"
    using assms(1) by (simp_all add: week_inv_def)
  have keys: "fst ` set (tpWeeks t') = fst ` set (tpWeeks t)" unfolding assms(2) keys_week_moved assms(3) ..
  have k: "known env (tpWeeks t') w \<longleftrightarrow> known env (tpWeeks t) w" for w by (cases w) (simp_all add: known_def keys)
  have "distinct (map fst (tpWeeks t'))"
    using inv(1) unfolding assms(2) week_moved_weeks assms(3) by (auto intro: distinct_keys_update split: option.split)
  moreover have "fst kv = marketWeekId ?F (wrWeekId (snd kv)) \<and> week_ok (tpFills t') (tpSettlements t') (snd kv)" if "kv \<in> set (tpWeeks t')" for kv
  proof (cases wo)
    case None
    then have "kv \<in> set (tpWeeks t)" using that unfolding assms(2) week_moved_weeks assms(3) by simp
    then show ?thesis using inv(2) assms(4) None by blast
  next
    case (Some w)
    obtain row where row: "map_of (tpWeeks t) (marketWeekId ?F w) = Some row"
      using assms(6) Some by (cases "map_of (tpWeeks t) (marketWeekId ?F w)") (auto simp: known_def map_of_eq_None_iff)
    then have r: "wrWeekId row = w" "week_ok (tpFills t) (tpSettlements t) row"
      using inv(2) map_of_SomeD [OF row] by (force simp: marketWeekId_inj)+
    from that have "kv \<in> set (AList.update (marketWeekId ?F w) (row\<lparr>wrTotals := move (wrTotals row)\<rparr>) (tpWeeks t))"
      unfolding assms(2) week_moved_weeks assms(3) by (simp add: Some row)
    then consider "kv = (marketWeekId ?F w, row\<lparr>wrTotals := move (wrTotals row)\<rparr>)" | "kv \<in> set (tpWeeks t)" "fst kv \<noteq> marketWeekId ?F w"
      using update_cases [OF inv(1)] by blast
    then show ?thesis
    proof cases
      case 1
      then show ?thesis using assms(5) [of row] r Some by simp
    next
      case 2
      then show ?thesis using inv(2) assms(4) [of "snd kv"] Some by (metis option.inject)
    qed
  qed
  ultimately show ?thesis using assms(7-9) by (simp add: week_inv_def k)
qed

lemma known_account:
  assumes "week_inv env t"
  shows "known env (tpWeeks t) (acListedWeekId (getAccount env e a t))"
proof (cases "map_of (tpAccounts t) a")
  case (Some r)
  then show ?thesis using assms map_of_SomeD [OF Some] by (force simp: getAccount_def get_or_def week_inv_def)
qed (simp add: getAccount_def get_or_def new_account_def known_def)

lemma known_patched:
  assumes "week_inv env t" "\<And>r. acListedWeekId (upd r) = acListedWeekId r \<or> known env (tpWeeks t) (acListedWeekId (upd r))"
  shows "\<forall>kv \<in> set (tpAccounts (patchAccount env e a upd t)). known env (tpWeeks t) (acListedWeekId (snd kv))"
proof -
  let ?r = "(upd (getAccount env e a t))\<lparr>acLastActivityAt := emTimestamp e, acLastActivityBlock := emBlock e\<rparr>"
  have "known env (tpWeeks t) (acListedWeekId ?r)"
    using known_account [OF assms(1), of e a] assms(2) [of "getAccount env e a t"] by auto
  then have "\<forall>kv \<in> set (AList.update a ?r (tpAccounts t)). known env (tpWeeks t) (acListedWeekId (snd kv))"
    using assms(1) by (intro values_update) (simp_all add: week_inv_def)
  then show ?thesis by (simp add: patchAccount_def)
qed

lemma week_inv_rows:
  assumes "week_inv env t"
  shows "\<forall>kv \<in> set (tpFills t). known env (tpWeeks t) (frWeekId (snd kv))"
    "\<forall>kv \<in> set (tpSettlements t). known env (tpWeeks t) (srWeekId (snd kv))"
    "\<forall>kv \<in> set (tpAccounts t). known env (tpWeeks t) (acListedWeekId (snd kv))"
  using assms by (simp_all add: week_inv_def)

lemma week_inv_still:
  assumes "week_inv env t" "tpWeeks t' = tpWeeks t" "tpFills t' = tpFills t" "tpSettlements t' = tpSettlements t"
    "\<forall>kv \<in> set (tpAccounts t'). known env (tpWeeks t) (acListedWeekId (snd kv))"
  shows "week_inv env t'"
  using assms by (simp add: week_inv_def)

lemma insert_new_row: "k \<notin> fst ` set rows \<Longrightarrow> set (insert_new k v rows) = insert (k, v) (set rows)"
  by (simp add: insert_new_def map_of_eq_None_iff)

lemma patched_rows_kept:
  "tpAccounts (patchAccount env e a upd (t\<lparr>tpFills := fs\<rparr>)) = tpAccounts (patchAccount env e a upd t)"
  "tpAccounts (patchAccount env e a upd (t\<lparr>tpSettlements := ss\<rparr>)) = tpAccounts (patchAccount env e a upd t)"
  by (simp_all add: patchAccount_def)

lemma week_inv_account_event:
  assumes "week_inv env t" "fresh_id t e"
  shows "week_inv env (onDeposited env e a n t)" "week_inv env (onWithdrawn env e a n t)" "week_inv env (onWriteRequested env e a n t)"
    "known env (tpWeeks t) (Some w) \<Longrightarrow> week_inv env (onLotsListed env e a w opt n ask t)"
    "week_inv env (onLotFilled env e a h opt n t)" "week_inv env (onSettled env e a n k t)"
    "week_inv env (onUsdgClaimed env e a n t)" "week_inv env (onOwnershipTransferred env e a ow t)"
proof -
  note rows = week_inv_rows [OF assms(1)]
  note acc = known_account [OF assms(1), of e a]
  have fresh: "txLogId (emTx e) (emLogIndex e) \<notin> fst ` set (tpFills t)" "txLogId (emTx e) (emLogIndex e) \<notin> fst ` set (tpSettlements t)"
    using assms(2) by (simp_all add: fresh_id_def)
  show "week_inv env (onDeposited env e a n t)" unfolding onDeposited_def Let_def
    by (rule week_inv_still [OF assms(1)]) (simp_all del: nextStatus.simps, rule known_patched [OF assms(1)], simp)
  show "week_inv env (onWithdrawn env e a n t)" unfolding onWithdrawn_def Let_def
    by (rule week_inv_still [OF assms(1)]) (simp_all del: nextStatus.simps, rule known_patched [OF assms(1)], simp)
  show "week_inv env (onWriteRequested env e a n t)" unfolding onWriteRequested_def Let_def
    by (rule week_inv_still [OF assms(1)]) (simp_all del: nextStatus.simps, rule known_patched [OF assms(1)], simp)
  show "week_inv env (onUsdgClaimed env e a n t)" unfolding onUsdgClaimed_def Let_def
    by (rule week_inv_still [OF assms(1)]) (simp_all del: nextStatus.simps, rule known_patched [OF assms(1)], simp)
  show "week_inv env (onOwnershipTransferred env e a ow t)" unfolding onOwnershipTransferred_def
    by (rule week_inv_still [OF assms(1)]) (simp_all del: nextStatus.simps, rule known_patched [OF assms(1)], simp)
  have filled: "\<forall>kv \<in> set (tpAccounts (patchAccount env e a upd t)). known env (tpWeeks t) (acListedWeekId (snd kv))"
    if "\<And>r. acListedWeekId (upd r) = acListedWeekId r \<or> acListedWeekId (upd r) = None" for upd
    by (rule known_patched [OF assms(1)]) (metis known_def option.case(1) that)
  show "week_inv env (onLotsListed env e a w opt n ask t)" if known: "known env (tpWeeks t) (Some w)"
  proof -
    have listed: "\<forall>kv \<in> set (tpAccounts (patchAccount env e a (\<lambda>r. r\<lparr>acStatus := st, acListedLots := n, acFilledLots := 0,
        acListedWeekId := Some w, acOptionId := oi, acListedAskUsdg := ask, acListedAt := la, acLotsListed := ll\<rparr>) t)).
        known env (tpWeeks t) (acListedWeekId (snd kv))" for st oi la ll
      by (rule known_patched [OF assms(1)]) (simp add: known)
    show ?thesis unfolding onLotsListed_def Let_def
    by (rule week_inv_moved [OF assms(1) patchMarket_simps(4) patchAccount_simps(4)])
       (use that rows listed in \<open>simp_all add: accounts_kept week_ok_def weekAfterListing_def\<close>)
  qed
  have filled_row: "\<forall>kv \<in> set (tpAccounts (patchAccount env e a (\<lambda>r. r\<lparr>acFilledLots := x, acLotsFilled := y, acPremiumUsdg := z\<rparr>) t)).
      known env (tpWeeks t) (acListedWeekId (snd kv))" for x y z by (rule filled) simp
  have settled_row: "\<forall>kv \<in> set (tpAccounts (patchAccount env e a
      (\<lambda>r. (accountAfterSettled outcome r)\<lparr>acSettlements := x, acLastSettledAt := y\<rparr>) t)).
      known env (tpWeeks t) (acListedWeekId (snd kv))" for outcome x y by (rule filled) (simp add: accountAfterSettled_def)
  show "week_inv env (onLotFilled env e a h opt n t)"
    unfolding onLotFilled_def Let_def
    by (rule week_inv_moved [OF assms(1) patchMarket_simps(4)])
       (use acc rows fresh filled_row in \<open>simp_all add: patched_rows_kept week_ok_def weekAfterFill_def row_sum_insert_new insert_new_row\<close>)
  show "week_inv env (onSettled env e a n k t)"
    unfolding onSettled_def Let_def
    by (rule week_inv_moved [OF assms(1) patchMarket_simps(4)])
       (use acc rows fresh settled_row in \<open>simp_all add: patched_rows_kept week_ok_def weekAfterSettlement_def row_sum_insert_new insert_new_row\<close>)
qed

lemma known_more: "known env ws w \<Longrightarrow> fst ` set ws \<subseteq> fst ` set ws' \<Longrightarrow> known env ws' w"
  by (cases w) (auto simp: known_def)

lemma row_sum_zero: "\<forall>kv \<in> set rows. f (snd kv) = 0 \<Longrightarrow> row_sum f rows = 0"
  unfolding row_sum_def by (induction rows) auto

lemma week_inv_week_set:
  assumes "week_inv env t"
  shows "week_inv env (onWeekSet env e w k x y z t)"
proof (cases "map_of (tpWeeks t) (marketWeekId (weFactory env) w)")
  case None
  then have new: "marketWeekId (weFactory env) w \<notin> fst ` set (tpWeeks t)" by (simp add: map_of_eq_None_iff)
  define row where "row = \<lparr>wrFactory = weFactory env, wrWeekId = w, wrStrikeUsdg = k, wrExerciseTs = x, wrBaseExpiryTs = y, wrAskUsdg = z,
    wrSetAt = emTimestamp e, wrSetBlock = emBlock e, wrSetTx = emTx e, wrTotals = ZERO_WEEK_TOTALS\<rparr>"
  have weeks: "tpWeeks (onWeekSet env e w k x y z t) = tpWeeks t @ [(marketWeekId (weFactory env) w, row)]"
    by (simp add: onWeekSet_def insert_new_def None row_def)
  have other: "known env (tpWeeks t) v \<Longrightarrow> v \<noteq> Some w" for v using new by (auto simp: known_def)
  have "week_ok (tpFills t) (tpSettlements t) row"
  proof -
    have "\<forall>kv \<in> set (tpFills t). frWeekId (snd kv) \<noteq> Some w" "\<forall>kv \<in> set (tpSettlements t). srWeekId (snd kv) \<noteq> Some w"
      using week_inv_rows [OF assms] other by blast+
    then show ?thesis unfolding week_ok_def row_def by (simp add: ZERO_WEEK_TOTALS_def row_sum_zero)
  qed
  moreover have more: "known env (tpWeeks (onWeekSet env e w k x y z t)) v" if "known env (tpWeeks t) v" for v
    by (rule known_more [OF that]) (auto simp: weeks)
  moreover have "tpAccounts (onWeekSet env e w k x y z t) = tpAccounts t" "tpFills (onWeekSet env e w k x y z t) = tpFills t"
    "tpSettlements (onWeekSet env e w k x y z t) = tpSettlements t"
    by (simp_all add: onWeekSet_def)
  ultimately show ?thesis using assms new unfolding week_inv_def by (auto simp: weeks row_def marketWeekId_inj)
next
  case Some
  then have "tpWeeks (onWeekSet env e w k x y z t) = tpWeeks t" by (simp add: onWeekSet_def insert_new_def)
  then show ?thesis by (rule week_inv_still [OF assms]) (use week_inv_rows(3) [OF assms] in \<open>simp_all add: onWeekSet_def\<close>)
qed

lemma week_inv_factory_event:
  assumes "week_inv env t"
  shows "week_inv env (onFactorySetup env reads t)" "week_inv env (onAccountCreated env e ow a i t)" "week_inv env (onAccountRekeyed env e a ow t)"
    "week_inv env (onRoleGranted env e role a t)" "week_inv env (onRoleRevoked env e role a t)" "week_inv env (patchMarket env m f t)"
proof -
  note acc = known_account [OF assms, of e a] and rows = week_inv_rows(3) [OF assms]
  have upd: "\<forall>kv \<in> set (AList.update a r (tpAccounts t)). known env (tpWeeks t) (acListedWeekId (snd kv))"
    if "acListedWeekId r = acListedWeekId (getAccount env e a t)" for r
    by (rule values_update) (use that acc rows in simp_all)
  show "week_inv env (onFactorySetup env reads t)" "week_inv env (patchMarket env m f t)"
    "week_inv env (onRoleGranted env e role a t)" "week_inv env (onRoleRevoked env e role a t)"
    by (rule week_inv_still [OF assms];
        use rows in \<open>simp add: onFactorySetup_def onRoleGranted_def onRoleRevoked_def Let_def split: option.split\<close>)+
  show "week_inv env (onAccountCreated env e ow a i t)" unfolding onAccountCreated_def Let_def
    by (rule week_inv_still [OF assms]) (simp_all, rule upd, simp add: getAccount_def get_or_def new_account_def split: option.split)
  show "week_inv env (onAccountRekeyed env e a ow t)"
  proof (cases "map_of (tpAccounts t) a")
    case (Some r)
    then show ?thesis unfolding onAccountRekeyed_def Some option.case
      by (intro week_inv_still [OF assms]) (simp_all, rule upd, simp add: getAccount_def get_or_def Some)
  qed (simp add: onAccountRekeyed_def assms)
qed

lemma week_keys_grow: "fst ` set (tpWeeks t) \<subseteq> fst ` set (tpWeeks (market_step env ev t))"
proof -
  obtain e x where ev: "ev = (e, x)" by (cases ev)
  show ?thesis unfolding ev
    by (cases x) (auto simp: onDeposited_def onWithdrawn_def onWriteRequested_def onLotsListed_def onLotFilled_def onSettled_def
      onUsdgClaimed_def onOwnershipTransferred_def onFactorySetup_def onAccountCreated_def onAccountRekeyed_def onWeekSet_def onRoleGranted_def
      onRoleRevoked_def Let_def keys_week_moved keys_insert_new split: option.split)
qed

lemma week_inv_fold:
  assumes "week_inv env t" "distinct (map log_id evs)" "announced seen evs" "\<forall>w \<in> set seen. known env (tpWeeks t) (Some w)"
    "(fst ` set (tpFills t) \<union> fst ` set (tpSettlements t)) \<inter> log_id ` set evs = {}"
  shows "week_inv env (fold (market_step env) evs t)"
  using assms
proof (induction evs arbitrary: t seen)
  case (Cons ev evs)
  obtain e x where ev: "ev = (e, x)" by (cases ev)
  have "fresh_id t e" using Cons.prems(5) by (auto simp: fresh_id_def log_id_def ev)
  note account = week_inv_account_event [OF Cons.prems(1) this] and factory = week_inv_factory_event [OF Cons.prems(1)]
  have step: "week_inv env (market_step env ev t)"
    using Cons.prems(3,4) account factory week_inv_week_set [OF Cons.prems(1)] unfolding ev by (cases x) auto
  have ids: "(fst ` set (tpFills (market_step env ev t)) \<union> fst ` set (tpSettlements (market_step env ev t))) \<inter> log_id ` set evs = {}"
    using Cons.prems(2,5) by (intro ids_disjoint [OF step_ids]) (simp_all add: Int_insert_right split: if_splits)
  have seen: "\<forall>w \<in> set seen. known env (tpWeeks (market_step env ev t)) (Some w)"
    using Cons.prems(4) known_more [OF _ week_keys_grow] by blast
  obtain seen' where s: "announced seen' evs" "\<forall>w \<in> set seen'. known env (tpWeeks (market_step env ev t)) (Some w)"
  proof (cases "\<exists>w k a b c. x = WeekSet w k a b c")
    case True
    then obtain w k a b c where x: "x = WeekSet w k a b c" by blast
    have "known env (tpWeeks (market_step env ev t)) (Some w)" by (simp add: ev x known_def onWeekSet_def keys_insert_new)
    then show ?thesis using that [of "w # seen"] seen Cons.prems(3) by (simp add: ev x)
  next
    case False
    then have "announced seen evs" using Cons.prems(3) unfolding ev by (cases x) auto
    then show ?thesis using that seen by blast
  qed
  show ?case using Cons.IH [OF step _ s(1,2) ids] Cons.prems(2) by simp
qed simp

text \<open>
  C18: every week's totals are those of its rows. After any event log with distinct log positions in
  which a listing only names a week set before it, the filled lots, premium, settled accounts and returned amounts
  of each week row are the sums over the fill and settlement rows of that week, through re-listings, partial fills and
  settlements of its accounts.
\<close>

theorem week_rows_are_sums:
  assumes "distinct (map log_id evs)" "announced [] evs"
  shows "\<forall>kv \<in> set (tpWeeks (index_market env evs)). week_ok (tpFills (index_market env evs)) (tpSettlements (index_market env evs)) (snd kv)"
proof -
  have "week_inv env empty_tape" by (simp add: week_inv_def empty_tape_def)
  then have "week_inv env (index_market env evs)"
    unfolding index_market_def by (rule week_inv_fold [OF _ assms]) (simp_all add: empty_tape_def)
  then show ?thesis by (simp add: week_inv_def)
qed

subsection \<open>Witnesses\<close>

definition sample_meta :: "int \<Rightarrow> event_meta" where
  "sample_meta n = \<lparr>emBlock = n, emTimestamp = 100 + n, emTx = ''0xAb'', emLogIndex = n\<rparr>"

definition sample_env :: writer_env where
  "sample_env = \<lparr>weFactory = ''0xF'', weTicker = ''NVDA'', weKeccak = id\<rparr>"

definition sample_events :: "(event_meta \<times> market_event) list" where
  "sample_events =
     [(sample_meta 0, WeekSet 1 200 300 400 50), (sample_meta 1, WriteRequested ''0x1'' 3), (sample_meta 2, WriteRequested ''0x2'' 2),
      (sample_meta 3, LotsListed ''0x1'' 1 7 3 50), (sample_meta 4, LotFilled ''0x1'' ''0xh'' 7 50), (sample_meta 5, Settled ''0x1'' 1 0)]"

theorem market_row_is_sum_witness:
  "mkPendingLots (getMarket sample_env (index_market sample_env sample_events)) = 2
   \<and> mkPremiumUsdg (getMarket sample_env (index_market sample_env sample_events)) = 50"
proof -
  have "distinct (map log_id sample_events)" "\<forall>ev \<in> set sample_events. lots_ok ev" by code_simp+
  from market_row_is_sum [OF this, of sample_env] show ?thesis
    by (simp add: market_books_def) code_simp
qed

theorem week_rows_are_sums_witness:
  "map (\<lambda>kv. (wkLotsFilled (wrTotals (snd kv)), wkPremiumUsdg (wrTotals (snd kv)))) (tpWeeks (index_market sample_env sample_events)) = [(1, 50)]
   \<and> week_ok (tpFills (index_market sample_env sample_events)) (tpSettlements (index_market sample_env sample_events))
       (snd (hd (tpWeeks (index_market sample_env sample_events))))"
proof -
  have "distinct (map log_id sample_events)" "announced [] sample_events" by code_simp+
  note ok = week_rows_are_sums [OF this, of sample_env]
  have w: "map (\<lambda>kv. (wkLotsFilled (wrTotals (snd kv)), wkPremiumUsdg (wrTotals (snd kv)))) (tpWeeks (index_market sample_env sample_events)) = [(1, 50)]"
    by code_simp
  then have "tpWeeks (index_market sample_env sample_events) \<noteq> []" by auto
  then show ?thesis using ok w by (simp add: hd_in_set)
qed

end
