(* ===== verification/TradeStats.thy ===== *)
theory TradeStats
  imports FifoLots TradingClock
begin

section \<open>References, writer amounts and rankings (indexer/lib/v2/integrity.ts, writer.ts, windows.ts)\<close>

text \<open>
  The fair price a fill is compared with, what a writer locks, receives and pays, the windows of the leaderboard, and
  the ranking of a wallet's closed positions. The time zone database is the argument \<open>zone\<close> of TradingClock, the
  order of \<open>localeCompare\<close> the argument \<open>collate\<close>.
\<close>

subsection \<open>Price references\<close>

record fair_reference =
  fnFair :: int
  fnAsOf :: seconds

record nearby_fill =
  nfTaker :: address
  nfTs :: seconds
  nfUnits :: int
  nfPremium :: int

definition fairAtFill :: "fair_reference option \<Rightarrow> seconds \<Rightarrow> int option" where
  "fairAtFill reference at_ts =
     (case reference of
        None \<Rightarrow> None
      | Some r \<Rightarrow>
          if fnFair r \<le> 0 then None
          else let gap = (if fnAsOf r > at_ts then fnAsOf r - at_ts else at_ts - fnAsOf r) in if gap \<le> 3600 then Some (fnFair r) else None)"

definition counts_nearby :: "address \<Rightarrow> seconds \<Rightarrow> nearby_fill \<Rightarrow> bool" where
  "counts_nearby taker at_ts fill =
     (let gap = (if nfTs fill > at_ts then nfTs fill - at_ts else at_ts - nfTs fill)
      in \<not> (lower (nfTaker fill) = lower taker \<or> gap > 3600 \<or> nfUnits fill \<le> 0))"

definition nearbyVwap :: "nearby_fill list \<Rightarrow> address \<Rightarrow> seconds \<Rightarrow> int option" where
  "nearbyVwap fills taker at_ts =
     (let (premium, units) = foldl (\<lambda>(p, u) fill. if counts_nearby taker at_ts fill then (p + nfPremium fill, u + nfUnits fill) else (p, u)) (0, 0) fills
      in if units = 0 then None else Some ((premium * 100) sdiv units))"

definition isOffMarket :: "int \<Rightarrow> int option \<Rightarrow> bool" where
  "isOffMarket price fair = (case fair of None \<Rightarrow> False | Some f \<Rightarrow> f > 0 \<and> price * 4 < f)"

subsection \<open>Writer amounts\<close>

datatype writer_error = NegativeWriterCollateral | NegativeWriterPayout

definition collateralValue :: "int \<Rightarrow> int \<Rightarrow> writer_error + int" where
  "collateralValue units strike = (if units < 0 \<or> strike < 0 then Inl NegativeWriterCollateral else Inr ((units * strike) sdiv 100))"

definition assignedValue :: "int \<Rightarrow> int \<Rightarrow> int \<Rightarrow> bool \<Rightarrow> int \<Rightarrow> writer_error + int" where
  "assignedValue units strike settlementPrice isPut shortPayoutUsdg =
     (if units < 0 \<or> shortPayoutUsdg < 0 \<or> settlementPrice < 0 then Inl NegativeWriterPayout
      else case collateralValue units (if isPut then strike else settlementPrice) of
             Inl e \<Rightarrow> Inl e
           | Inr collateral \<Rightarrow> Inr (if collateral > shortPayoutUsdg then collateral - shortPayoutUsdg else 0))"

definition primaryPremiumReceived :: "int \<Rightarrow> int \<Rightarrow> int \<Rightarrow> int \<Rightarrow> bool \<Rightarrow> bool \<Rightarrow> int" where
  "primaryPremiumReceived premium sellerFee makerRebate takerFee sellerIsMaker sellerIsTaker =
     premium - sellerFee + (if sellerIsMaker then makerRebate else 0) - (if sellerIsTaker then takerFee else 0)"

subsection \<open>Windows\<close>

fun ny_midnight_loop :: "zone \<Rightarrow> seconds \<Rightarrow> nat \<Rightarrow> seconds \<Rightarrow> seconds" where
  "ny_midnight_loop zone utcStart 0 guess = guess"
| "ny_midnight_loop zone utcStart (Suc k) guess =
     (let next = utcStart - zone guess in if next = guess then next else ny_midnight_loop zone utcStart k next)"

definition nyMidnight :: "zone \<Rightarrow> int \<Rightarrow> int \<Rightarrow> int \<Rightarrow> seconds" where
  "nyMidnight zone y m d = (let utcStart = utc_day y m d * 86400 in ny_midnight_loop zone utcStart 3 (utcStart + 5 * 3600))"

definition nyDayBounds :: "zone \<Rightarrow> seconds \<Rightarrow> seconds \<times> seconds" where
  "nyDayBounds zone t = (case newYorkParts zone t of (y, m, d) \<Rightarrow> (nyMidnight zone y m d, nyMidnight zone y m (d + 1)))"

datatype rank_window = Week | Month | AllTime

definition windowStarts :: "zone \<Rightarrow> seconds \<Rightarrow> (rank_window \<times> seconds) list" where
  "windowStarts zone t =
     (case newYorkParts zone t of (y, m, d) \<Rightarrow>
        let weekday = week_day (utc_day y m d) in
        case date_of (utc_day y m (d - (weekday + 6) mod 7)) of (my, mm, md) \<Rightarrow>
          [(Week, nyMidnight zone my mm md), (Month, nyMidnight zone y m 1), (AllTime, 0)])"

definition makerEpochUtc :: "seconds \<Rightarrow> seconds" where
  "makerEpochUtc t = (let day = t div 86400 in (day - (week_day day + 6) mod 7) * 86400)"

subsection \<open>Ranking\<close>

record rank_position =
  rpId :: string
  rpClosedAt :: seconds
  rpMultiplePpm :: "int option"
  rpRealisedUsdg :: int
  rpExcluded :: bool

record rank_totals =
  rtBestMultiplePpm :: int
  rtAbsoluteRealisedUsdg :: int
  rtStreak :: int
  rtWins :: int
  rtLosses :: int
  rtBestWinId :: "string option"

definition rank_order :: "(string \<Rightarrow> string \<Rightarrow> int) \<Rightarrow> rank_position \<Rightarrow> rank_position \<Rightarrow> int" where
  "rank_order collate a b =
     (if rpClosedAt a < rpClosedAt b then -1 else if rpClosedAt a > rpClosedAt b then 1 else collate (rpId a) (rpId b))"

definition won :: "rank_position \<Rightarrow> bool" where
  "won p = (or_else (rpMultiplePpm p) 0 > 1000000)"

definition rank_step :: "rank_totals \<Rightarrow> rank_position \<Rightarrow> rank_totals" where
  "rank_step t p =
     (if rpExcluded p then t
      else if won p then
        let t1 = t\<lparr>rtWins := rtWins t + 1, rtStreak := rtStreak t + 1\<rparr>;
            m = or_else (rpMultiplePpm p) 0;
            t2 = (if m > rtBestMultiplePpm t1 then t1\<lparr>rtBestMultiplePpm := m, rtBestWinId := Some (rpId p)\<rparr> else t1)
        in if rpRealisedUsdg p > rtAbsoluteRealisedUsdg t2 then t2\<lparr>rtAbsoluteRealisedUsdg := rpRealisedUsdg p\<rparr> else t2
      else t\<lparr>rtLosses := rtLosses t + 1, rtStreak := 0\<rparr>)"

definition no_ranks :: rank_totals where
  "no_ranks = \<lparr>rtBestMultiplePpm = 0, rtAbsoluteRealisedUsdg = 0, rtStreak = 0, rtWins = 0, rtLosses = 0, rtBestWinId = None\<rparr>"

definition rankTotals :: "(string \<Rightarrow> string \<Rightarrow> int) \<Rightarrow> rank_position list \<Rightarrow> rank_totals" where
  "rankTotals collate positions = foldl rank_step no_ranks (js_sort (rank_order collate) positions)"

lemma rank_fold_filter: "foldl rank_step t ps = foldl rank_step t (filter (\<lambda>p. \<not> rpExcluded p) ps)"
  by (induction ps arbitrary: t) (auto simp: rank_step_def)

definition best_of :: "int \<Rightarrow> int list \<Rightarrow> int" where
  "best_of b xs = foldl max b xs"

lemma best_of_ge: "b \<le> best_of b xs \<and> (\<forall>x \<in> set xs. x \<le> best_of b xs)"
proof (induction xs arbitrary: b)
  case (Cons a xs)
  from Cons.IH [of "max b a"] show ?case by (auto simp: best_of_def)
qed (simp add: best_of_def)

lemma best_of_in: "best_of b xs = b \<or> best_of b xs \<in> set xs"
  unfolding best_of_def by (induction xs arbitrary: b) (auto simp: max_def)

lemma best_of_snoc: "best_of b (xs @ [x]) = max (best_of b xs) x"
  by (simp add: best_of_def)

lemma rank_step_won:
  assumes "\<not> rpExcluded p" "won p"
  shows "rtWins (rank_step t p) = rtWins t + 1" "rtLosses (rank_step t p) = rtLosses t" "rtStreak (rank_step t p) = rtStreak t + 1"
    "rtBestMultiplePpm (rank_step t p) = max (rtBestMultiplePpm t) (or_else (rpMultiplePpm p) 0)"
    "rtAbsoluteRealisedUsdg (rank_step t p) = max (rtAbsoluteRealisedUsdg t) (rpRealisedUsdg p)"
    "rtBestWinId (rank_step t p) = (if or_else (rpMultiplePpm p) 0 > rtBestMultiplePpm t then Some (rpId p) else rtBestWinId t)"
  using assms by (simp_all add: rank_step_def Let_def max_def)

lemma rank_step_lost:
  assumes "\<not> rpExcluded p" "\<not> won p"
  shows "rank_step t p = t\<lparr>rtLosses := rtLosses t + 1, rtStreak := 0\<rparr>"
  using assms by (simp add: rank_step_def)

lemma rank_fold:
  assumes "list_all (\<lambda>p. \<not> rpExcluded p) ps"
  shows "rtWins (foldl rank_step no_ranks ps) = int (length (filter won ps))
    \<and> rtLosses (foldl rank_step no_ranks ps) = int (length (filter (\<lambda>p. \<not> won p) ps))
    \<and> rtStreak (foldl rank_step no_ranks ps) = int (length (takeWhile won (rev ps)))
    \<and> rtBestMultiplePpm (foldl rank_step no_ranks ps) = best_of 0 (map (\<lambda>p. or_else (rpMultiplePpm p) 0) (filter won ps))
    \<and> rtAbsoluteRealisedUsdg (foldl rank_step no_ranks ps) = best_of 0 (map rpRealisedUsdg (filter won ps))
    \<and> (rtBestWinId (foldl rank_step no_ranks ps) = None \<longleftrightarrow> filter won ps = [])
    \<and> (\<forall>w. rtBestWinId (foldl rank_step no_ranks ps) = Some w \<longrightarrow>
          (\<exists>p \<in> set ps. won p \<and> rpId p = w \<and> or_else (rpMultiplePpm p) 0 = rtBestMultiplePpm (foldl rank_step no_ranks ps)))"
  using assms
proof (induction ps rule: rev_induct)
  case Nil
  then show ?case by (simp add: no_ranks_def best_of_def)
next
  case (snoc p ps)
  let ?t = "foldl rank_step no_ranks ps"
  have all: "list_all (\<lambda>p. \<not> rpExcluded p) ps" using snoc.prems by simp
  have IH: "rtWins ?t = int (length (filter won ps))" "rtLosses ?t = int (length (filter (\<lambda>p. \<not> won p) ps))"
    "rtStreak ?t = int (length (takeWhile won (rev ps)))"
    "rtBestMultiplePpm ?t = best_of 0 (map (\<lambda>p. or_else (rpMultiplePpm p) 0) (filter won ps))"
    "rtAbsoluteRealisedUsdg ?t = best_of 0 (map rpRealisedUsdg (filter won ps))"
    "rtBestWinId ?t = None \<longleftrightarrow> filter won ps = []"
    "\<forall>w. rtBestWinId ?t = Some w \<longrightarrow> (\<exists>p \<in> set ps. won p \<and> rpId p = w \<and> or_else (rpMultiplePpm p) 0 = rtBestMultiplePpm ?t)"
    using snoc.IH [OF all] by blast+
  have first: "rtBestMultiplePpm ?t < or_else (rpMultiplePpm p) 0" if "won p" "filter won ps = []"
    using that IH(4) by (simp add: best_of_def won_def)
  show ?case
  proof (cases "won p")
    case True
    have ex: "\<not> rpExcluded p" using snoc.prems by simp
    have f: "foldl rank_step no_ranks (ps @ [p]) = rank_step ?t p" "filter won (ps @ [p]) = filter won ps @ [p]"
      "filter (\<lambda>p. \<not> won p) (ps @ [p]) = filter (\<lambda>p. \<not> won p) ps" "takeWhile won (rev (ps @ [p])) = p # takeWhile won (rev ps)"
      using True by simp_all
    note step = rank_step_won [OF ex True, of ?t]
    have "rtBestWinId (rank_step ?t p) \<noteq> None" unfolding step(6) using IH(6) first [OF True] by auto
    moreover have "\<exists>q \<in> set (ps @ [p]). won q \<and> rpId q = w \<and> or_else (rpMultiplePpm q) 0 = rtBestMultiplePpm (rank_step ?t p)"
      if "rtBestWinId (rank_step ?t p) = Some w" for w
    proof (cases "or_else (rpMultiplePpm p) 0 > rtBestMultiplePpm ?t")
      case better: True
      then show ?thesis using that True unfolding step(4,6) by (intro bexI [of _ p]) simp_all
    next
      case False
      then have "rtBestWinId ?t = Some w" using that step(6) by simp
      then obtain q where "q \<in> set ps" "won q" "rpId q = w" "or_else (rpMultiplePpm q) 0 = rtBestMultiplePpm ?t"
        using IH(7) by blast
      then show ?thesis using False unfolding step(4) by (intro bexI [of _ q]) simp_all
    qed
    ultimately show ?thesis unfolding f step(1-5) map_append list.map best_of_snoc using IH(1-5) by (simp add: step(4))
  next
    case False
    have ex: "\<not> rpExcluded p" using snoc.prems by simp
    have f: "foldl rank_step no_ranks (ps @ [p]) = ?t\<lparr>rtLosses := rtLosses ?t + 1, rtStreak := 0\<rparr>" "filter won (ps @ [p]) = filter won ps"
      "filter (\<lambda>p. \<not> won p) (ps @ [p]) = filter (\<lambda>p. \<not> won p) ps @ [p]" "takeWhile won (rev (ps @ [p])) = []"
      using False rank_step_lost [OF ex False] by simp_all
    have "\<forall>w. rtBestWinId ?t = Some w \<longrightarrow> (\<exists>q \<in> set (ps @ [p]). won q \<and> rpId q = w \<and> or_else (rpMultiplePpm q) 0 = rtBestMultiplePpm ?t)"
      using IH(7) by auto
    then show ?thesis unfolding f using IH(1-6) by simp
  qed
qed

lemma best_of_Max: "best_of b xs = Max (insert b (set xs))"
  using best_of_ge [of b xs] best_of_in [of b xs] by (intro Max_eqI [symmetric]) auto

text \<open>The order of a ranking, said without its comparator: by the time of the close, then by the id.\<close>

definition closed_before :: "(string \<Rightarrow> string \<Rightarrow> int) \<Rightarrow> rank_position \<Rightarrow> rank_position \<Rightarrow> bool" where
  "closed_before collate a b =
     (rpClosedAt a < rpClosedAt b \<or> rpClosedAt a = rpClosedAt b \<and> collate (rpId a) (rpId b) \<le> 0)"

lemma rank_order_le: "rank_order collate a b \<le> 0 \<longleftrightarrow> closed_before collate a b"
  by (auto simp: rank_order_def closed_before_def)

lemma rank_comparator:
  assumes "comparator collate"
  shows "comparator (rank_order collate)"
proof -
  note flip = comparator.cmp_flip [OF assms] and trans = comparator.cmp_trans [OF assms]
  show ?thesis
  proof
    show "0 < rank_order collate x y \<Longrightarrow> rank_order collate y x \<le> 0" for x y
      using flip by (auto simp: rank_order_def split: if_splits)
    show "rank_order collate x y \<le> 0 \<Longrightarrow> rank_order collate y z \<le> 0 \<Longrightarrow> rank_order collate x z \<le> 0" for x y z
      using trans unfolding rank_order_le closed_before_def by (auto intro: less_trans)
  qed
qed

text \<open>
  C34: a ranking counts what it says. Over any closed positions, with the excluded ones left out and the
  others taken in the order they closed (by id where they closed together, in any order of strings): a win is
  a position that returned more than it cost; the wins and losses are those positions, the streak is the run of wins
  at the end, the best multiple and the best result are the largest among the wins, and the best win is a position
  with that multiple.
\<close>

theorem rankTotals_exact:
  assumes "comparator collate"
  shows "\<exists>ps. mset ps = mset (filter (\<lambda>p. \<not> rpExcluded p) positions) \<and> sorted_wrt (closed_before collate) ps
    \<and> (let t = rankTotals collate positions;
           win = (\<lambda>p. case rpMultiplePpm p of Some m \<Rightarrow> 1000000 < m | None \<Rightarrow> False);
           wins = filter win ps
       in rtWins t = int (length wins) \<and> rtLosses t = int (length ps) - int (length wins)
        \<and> rtStreak t = int (length (takeWhile win (rev ps)))
        \<and> rtBestMultiplePpm t = Max (insert 0 (set (map (\<lambda>p. the (rpMultiplePpm p)) wins)))
        \<and> rtAbsoluteRealisedUsdg t = Max (insert 0 (set (map rpRealisedUsdg wins)))
        \<and> (case rtBestWinId t of None \<Rightarrow> wins = []
           | Some w \<Rightarrow> \<exists>p \<in> set wins. rpId p = w \<and> rpMultiplePpm p = Some (rtBestMultiplePpm t)))"
proof -
  define ps where "ps = filter (\<lambda>p. \<not> rpExcluded p) (js_sort (rank_order collate) positions)"
  have "sorted_wrt (\<lambda>a b. rank_order collate a b \<le> 0) (js_sort (rank_order collate) positions)"
    by (rule comparator.sort_sorted [OF rank_comparator [OF assms]])
  then have sorted: "sorted_wrt (closed_before collate) ps"
    unfolding rank_order_le ps_def by (rule sorted_wrt_filter)
  have win: "(case rpMultiplePpm p of Some m \<Rightarrow> 1000000 < m | None \<Rightarrow> False) = won p" for p
    by (auto simp: won_def or_else_def split: option.split)
  have the: "won p \<Longrightarrow> rpMultiplePpm p = Some (or_else (rpMultiplePpm p) 0)" for p
    by (auto simp: won_def or_else_def split: option.splits)
  have mults: "map (\<lambda>p. the (rpMultiplePpm p)) (filter won ps) = map (\<lambda>p. or_else (rpMultiplePpm p) 0) (filter won ps)"
    using the by (intro map_cong) (auto, metis option.sel)
  have t: "rankTotals collate positions = foldl rank_step no_ranks ps"
    unfolding rankTotals_def ps_def by (rule rank_fold_filter)
  have "list_all (\<lambda>p. \<not> rpExcluded p) ps" by (simp add: ps_def list_all_iff)
  note r = rank_fold [OF this]
  have len: "int (length (filter (\<lambda>p. \<not> won p) ps)) = int (length ps) - int (length (filter won ps))"
    using sum_length_filter_compl [of won ps] by linarith
  have best: "case rtBestWinId (foldl rank_step no_ranks ps) of None \<Rightarrow> filter won ps = []
      | Some w \<Rightarrow> \<exists>p \<in> set (filter won ps). rpId p = w \<and> rpMultiplePpm p = Some (rtBestMultiplePpm (foldl rank_step no_ranks ps))"
    using r the by (auto split: option.split) metis
  have "mset ps = mset (filter (\<lambda>p. \<not> rpExcluded p) positions)" by (simp add: ps_def)
  then show ?thesis unfolding Let_def win t mults best_of_Max [symmetric]
    using sorted r len best by (intro exI [of _ ps]) (simp add: mults)
qed

definition sample_closes :: "rank_position list" where
  "sample_closes = [\<lparr>rpId = ''b'', rpClosedAt = 20, rpMultiplePpm = Some 3000000, rpRealisedUsdg = 40, rpExcluded = False\<rparr>,
     \<lparr>rpId = ''a'', rpClosedAt = 20, rpMultiplePpm = Some 900000, rpRealisedUsdg = - 5, rpExcluded = False\<rparr>,
     \<lparr>rpId = ''c'', rpClosedAt = 10, rpMultiplePpm = Some 1500000, rpRealisedUsdg = 50, rpExcluded = False\<rparr>,
     \<lparr>rpId = ''d'', rpClosedAt = 30, rpMultiplePpm = Some 9000000, rpRealisedUsdg = 90, rpExcluded = True\<rparr>]"

theorem rankTotals_exact_witness:
  "\<exists>ps. mset ps = mset (take 3 sample_closes) \<and> sorted_wrt (closed_before cmp3) ps
     \<and> rtStreak (rankTotals cmp3 sample_closes) = 1 \<and> rtWins (rankTotals cmp3 sample_closes) = 2
     \<and> rtLosses (rankTotals cmp3 sample_closes) = 1"
proof -
  have "comparator (cmp3 :: string \<Rightarrow> string \<Rightarrow> int)" by unfold_locales (auto simp: cmp3_def split: if_splits)
  from rankTotals_exact [OF this, of sample_closes]
  obtain ps where "mset ps = mset (filter (\<lambda>p. \<not> rpExcluded p) sample_closes)" "sorted_wrt (closed_before cmp3) ps" by blast
  moreover have "filter (\<lambda>p. \<not> rpExcluded p) sample_closes = take 3 sample_closes" by (simp add: sample_closes_def)
  moreover have "rtStreak (rankTotals cmp3 sample_closes) = 1 \<and> rtWins (rankTotals cmp3 sample_closes) = 2
     \<and> rtLosses (rankTotals cmp3 sample_closes) = 1" by code_simp
  ultimately show ?thesis by metis
qed

end
