(* ===== verification/PnlTape.thy ===== *)
theory PnlTape
  imports TradeStats Reconcile SelfTrade BookEvents "HOL-Library.Sublist"
begin

section \<open>The profit-and-loss tape (indexer/src/v2/pnl.ts, pnlInput.ts)\<close>

text \<open>
  The block clock that turns the indexed logs into lots, positions, rankings and writer statistics. The store is a
  record of its tables: a table keyed by an id is an association list (the key is the tuple the id prints), a table
  that is selected by columns is the list of its rows. A tick either returns the store with all its writes or the
  first error raised, in which case none of them is kept. The oracle read, the time zone, the order of
  \<open>localeCompare\<close> and the deployment's addresses are the fields of \<open>pnl_env\<close>.
\<close>

subsection \<open>The tables\<close>

record v2_lot = cost_lot +
  vlLongId :: int
  vlHolder :: address
  vlSeq :: int
  vlUnits :: int
  vlCostUsdg :: int
  vlAcquiredAt :: seconds
  vlSourceId :: string

record position_row =
  prTotals :: position_totals
  prSpotAtEntry :: "int option"
  prClosedTx :: "string option"

record tape_series =
  tsUnderlying :: address
  tsIsPut :: bool
  tsStrike :: int
  tsExpiry :: seconds
  tsOracle :: address
  tsSettlementPrice :: "int option"

record tape_fill =
  tfId :: string
  tfLongId :: int
  tfMaker :: address
  tfTaker :: address
  tfRecipient :: address
  tfUnits :: int
  tfPrice :: int
  tfPremium :: int
  tfSellerFee :: int
  tfMakerRebate :: int
  tfPrimary :: bool
  tfTakerIsBuyer :: bool
  tfBuyer :: address
  tfSeller :: address
  tfFairAtFill :: "int option"
  tfRealisedDelta :: "int option"
  tfTs :: seconds
  tfBlock :: int
  tfLogIndex :: int
  tfTx :: string

record tape_take =
  ttCall :: taken_call
  ttBlock :: int

record tape_transfer =
  tvId :: string
  tvLongId :: int
  tvFrom :: address
  tvTo :: address
  tvUnits :: int
  tvTs :: seconds
  tvBlock :: int
  tvLogIndex :: int
  tvTx :: string

record tape_mint =
  tmId :: string
  tmLongId :: int
  tmWriter :: address
  tmLongTo :: address
  tmUnits :: int
  tmTs :: seconds
  tmBlock :: int
  tmLogIndex :: int
  tmTx :: string

record tape_close =
  tlId :: string
  tlLongId :: int
  tlAccount :: address
  tlUnits :: int
  tlRealisedDelta :: "int option"
  tlTs :: seconds
  tlBlock :: int
  tlLogIndex :: int
  tlTx :: string

record tape_redemption =
  tnId :: string
  tnLongId :: int
  tnSide :: token_side
  tnHolder :: address
  tnUnits :: int
  tnAsset :: address
  tnAmount :: int
  tnRealisedDelta :: "int option"
  tnTs :: seconds
  tnBlock :: int
  tnLogIndex :: int
  tnTx :: string

record tape_account =
  taOperators :: link_map
  taApprovals :: link_map
  taDelegates :: link_map
  taWins :: int
  taLosses :: int
  taStreak :: int
  taBestStreak :: int
  taRealisedUsdg :: int

record writer_row =
  wsPremiumUsdg :: int
  wsCollateralUsdg :: int
  wsAssignedUsdg :: int
  wsRealisedYieldUsdg :: int
  wsUpdatedAt :: seconds

record leader_row =
  lbTotals :: rank_totals
  lbUpdatedAt :: seconds

record maker_units =
  muUnits :: int
  muUpdatedAt :: seconds
  muUpdatedBlock :: int

record unseen_units =
  uuUnits :: int
  uuFills :: int
  uuUpdatedAt :: seconds
  uuUpdatedBlock :: int

record pnl_input =
  inBlock :: int
  inNextLotExpiry :: "seconds option"

record pnl_db =
  pdCursor :: "int option"
  pdInput :: "pnl_input option"
  pdSeries :: "(int \<times> tape_series) list"
  pdFills :: "tape_fill list"
  pdTakes :: "tape_take list"
  pdTransfers :: "tape_transfer list"
  pdMints :: "tape_mint list"
  pdCloses :: "tape_close list"
  pdRedemptions :: "tape_redemption list"
  pdCashFlows :: "(int \<times> cash_flow) list"
  pdAccounts :: "(address \<times> tape_account) list"
  pdLots :: "v2_lot list"
  pdPositions :: "((int \<times> address) \<times> position_row) list"
  pdLeaderboard :: "((rank_window \<times> seconds \<times> address) \<times> leader_row) list"
  pdWriterStats :: "((rank_window \<times> seconds \<times> address) \<times> writer_row) list"
  pdSeriesPremium :: "((int \<times> address) \<times> int) list"
  pdStLinks :: "self_link list"
  pdStLots :: "st_lot list"
  pdStMakers :: "(address \<times> maker_units) list"
  pdStUnseen :: "(unseen_reason \<times> unseen_units) list"

record pnl_env =
  peStartBlock :: int
  peOrderBook :: address
  peUsdg :: address
  peProtocolAddresses :: "address option list"
  peZone :: zone
  peCollate :: "string \<Rightarrow> string \<Rightarrow> int"
  peTrySpot :: "address \<Rightarrow> address \<Rightarrow> int \<Rightarrow> (bool \<times> int) option" \<comment> \<open>none when the call is rejected\<close>

datatype pnl_error =
    InvalidLotRow string | UnknownFillSeries string | UnknownMintSeries string | NegativeBuyerCost string
  | UnsettledShort string | UnsettledLong string
  | FifoFailed fifo_error | PositionFailed position_error | WriterFailed writer_error
  | DeliveryFailed match_error | TakeFeesFailed take_error | SelfTradeFailed st_error
  | SpotReadRejected

text \<open>Sequencing of steps that may raise; an error of a called function is the tick's error.\<close>

definition and_then :: "'e + 'a \<Rightarrow> ('a \<Rightarrow> 'e + 'b) \<Rightarrow> 'e + 'b" where
  "and_then r k = (case r of Inl e \<Rightarrow> Inl e | Inr x \<Rightarrow> k x)"

definition or_raise :: "('e \<Rightarrow> 'f) \<Rightarrow> 'e + 'a \<Rightarrow> 'f + 'a" where
  "or_raise f r = (case r of Inl e \<Rightarrow> Inl (f e) | Inr x \<Rightarrow> Inr x)"

lemma and_then_Inr [simp]: "and_then r k = Inr y \<longleftrightarrow> (\<exists>x. r = Inr x \<and> k x = Inr y)"
  by (auto simp: and_then_def split: sum.splits)

lemma or_raise_Inr [simp]: "or_raise f r = Inr y \<longleftrightarrow> r = Inr y"
  by (auto simp: or_raise_def split: sum.splits)

subsection \<open>Positions and lots\<close>

definition new_position :: position_row where
  "new_position = \<lparr>prTotals = emptyPosition, prSpotAtEntry = None, prClosedTx = None\<rparr>"

definition positionId :: "int \<times> address \<Rightarrow> string" where
  "positionId key = (case key of (longId, holder) \<Rightarrow> show_int longId @ ''-'' @ holder)"

definition position :: "int \<Rightarrow> address \<Rightarrow> pnl_db \<Rightarrow> position_row \<times> pnl_db" where
  "position longId holder db =
     (case map_of (pdPositions db) (longId, lower holder) of
        Some row \<Rightarrow> (row, db)
      | None \<Rightarrow> (new_position, db\<lparr>pdPositions := AList.update (longId, lower holder) new_position (pdPositions db)\<rparr>))"

definition savePosition :: "int \<Rightarrow> address \<Rightarrow> position_totals \<Rightarrow> pnl_db \<Rightarrow> pnl_db" where
  "savePosition longId holder totals db =
     (case position longId holder db of
        (row, db1) \<Rightarrow> db1\<lparr>pdPositions := AList.update (longId, lower holder) (row\<lparr>prTotals := totals\<rparr>) (pdPositions db1)\<rparr>)"

definition in_key :: "int \<times> address \<Rightarrow> v2_lot \<Rightarrow> bool" where
  "in_key key l = (vlLongId l = fst key \<and> vlHolder l = snd key)"

definition lots_of :: "int \<Rightarrow> address \<Rightarrow> pnl_db \<Rightarrow> v2_lot list" where
  "lots_of longId holder db = filter (in_key (longId, lower holder)) (pdLots db)"

definition by_seq :: "v2_lot list \<Rightarrow> v2_lot list" where
  "by_seq lots = js_sort (\<lambda>a b. vlSeq a - vlSeq b) lots"

definition add_lot ::
  "int \<Rightarrow> address \<Rightarrow> int \<Rightarrow> int \<Rightarrow> lot_source \<Rightarrow> string \<Rightarrow> seconds \<Rightarrow> pnl_db \<Rightarrow> pnl_error + pnl_db" where
  "add_lot longId holder units cost source sourceId at_ts db =
     (if units \<le> 0 \<or> cost < 0 then Inl (InvalidLotRow sourceId)
      else let previous = by_seq (lots_of longId holder db);
               seq = (if previous = [] then 0 else vlSeq (last previous) + 1)
           in Inr (db\<lparr>pdLots := pdLots db @
                [\<lparr>clUnits = units, clCost = cost, clSource = source, vlLongId = longId, vlHolder = lower holder, vlSeq = seq,
                  vlUnits = units, vlCostUsdg = cost, vlAcquiredAt = at_ts, vlSourceId = sourceId\<rparr>]\<rparr>))"

definition lot_key :: "v2_lot \<Rightarrow> int \<times> address \<times> int" where
  "lot_key l = (vlLongId l, vlHolder l, vlSeq l)"

definition take_lot :: "v2_lot list \<Rightarrow> v2_lot consumed_lot \<Rightarrow> v2_lot list" where
  "take_lot rows c =
     map (\<lambda>l. if lot_key l = lot_key (cnLot c)
              then l\<lparr>clUnits := clUnits (cnLot c) - cnUnits c, clCost := clCost (cnLot c) - cnCost c\<rparr> else l) rows"

definition consume_lots :: "int \<Rightarrow> address \<Rightarrow> int \<Rightarrow> pnl_db \<Rightarrow> pnl_error + (v2_lot fifo_result \<times> pnl_db)" where
  "consume_lots longId holder units db =
     and_then (or_raise FifoFailed (consumeFifo (by_seq (filter (\<lambda>l. clUnits l > 0) (lots_of longId holder db))) units))
       (\<lambda>result. Inr (result, db\<lparr>pdLots := foldl take_lot (pdLots db) (frConsumed result)\<rparr>))"

subsection \<open>Rankings and closes\<close>

definition closed_by :: "seconds \<Rightarrow> seconds \<Rightarrow> (int \<times> address) \<times> position_row \<Rightarrow> bool" where
  "closed_by start at_ts kr = (case ptClosedAt (prTotals (snd kr)) of None \<Rightarrow> False | Some t \<Rightarrow> t \<ge> start \<and> t \<le> at_ts)"

definition rank_row :: "(int \<times> address) \<times> position_row \<Rightarrow> rank_position" where
  "rank_row kr =
     (let p = prTotals (snd kr)
      in \<lparr>rpId = positionId (fst kr), rpClosedAt = or_else (ptClosedAt p) 0, rpMultiplePpm = ptMultiplePpm p,
          rpRealisedUsdg = ptRealisedUsdg p, rpExcluded = isExcludedFromLeaderboard p\<rparr>)"

definition rank_account :: "rank_totals \<Rightarrow> int \<Rightarrow> tape_account \<Rightarrow> tape_account" where
  "rank_account totals realised account =
     account\<lparr>taWins := rtWins totals, taLosses := rtLosses totals, taStreak := rtStreak totals,
             taBestStreak := max (taBestStreak account) (rtStreak totals), taRealisedUsdg := realised\<rparr>"

definition rank_window_step ::
  "pnl_env \<Rightarrow> address \<Rightarrow> seconds \<Rightarrow> ((int \<times> address) \<times> position_row) list \<Rightarrow> pnl_db \<Rightarrow> rank_window \<times> seconds \<Rightarrow> pnl_db" where
  "rank_window_step env holder at_ts closedRows db ws =
     (case ws of (window, start) \<Rightarrow>
        let relevant = filter (closed_by start at_ts) closedRows;
            totals = rankTotals (peCollate env) (map rank_row relevant);
            db1 = db\<lparr>pdLeaderboard := AList.update (window, start, lower holder) \<lparr>lbTotals = totals, lbUpdatedAt = at_ts\<rparr> (pdLeaderboard db)\<rparr>
        in if window = AllTime then
             (case map_of (pdAccounts db1) (lower holder) of
                None \<Rightarrow> db1
              | Some account \<Rightarrow>
                  db1\<lparr>pdAccounts := AList.update (lower holder)
                    (rank_account totals (foldl (\<lambda>sum row. sum + ptRealisedUsdg (prTotals (snd row))) 0 relevant) account) (pdAccounts db1)\<rparr>)
           else db1)"

definition refreshRanks :: "pnl_env \<Rightarrow> address \<Rightarrow> seconds \<Rightarrow> pnl_db \<Rightarrow> pnl_db" where
  "refreshRanks env holder at_ts db =
     (let closedRows = filter (\<lambda>kr. snd (fst kr) = lower holder \<and>
            (case ptClosedAt (prTotals (snd kr)) of None \<Rightarrow> False | Some t \<Rightarrow> t \<ge> 0)) (pdPositions db)
      in foldl (rank_window_step env holder at_ts closedRows) db (windowStarts (peZone env) at_ts))"

definition maybeClose :: "pnl_env \<Rightarrow> int \<Rightarrow> address \<Rightarrow> seconds \<Rightarrow> string \<Rightarrow> pnl_db \<Rightarrow> pnl_error + pnl_db" where
  "maybeClose env longId holder at_ts tx db =
     (if filter (\<lambda>l. clUnits l > 0) (lots_of longId holder db) \<noteq> [] then Inr db
      else case position longId holder db of (current, db1) \<Rightarrow>
        let p = prTotals current in
        if ptClosedAt p \<noteq> None \<or>
           (ptUnitsBought p = 0 \<and> ptUnitsTransferredOut p = 0 \<and> ptUnitsSold p = 0 \<and> ptUnitsRedeemed p = 0) then Inr db1
        else and_then (or_raise PositionFailed (closePosition p at_ts)) (\<lambda>closed.
          Inr (refreshRanks env holder at_ts
            (db1\<lparr>pdPositions := AList.update (longId, lower holder) (current\<lparr>prTotals := closed, prClosedTx := Some tx\<rparr>) (pdPositions db1)\<rparr>))))"

subsection \<open>Writers\<close>

record writer_delta =
  wdPremium :: int
  wdCollateral :: int
  wdAssigned :: int

definition no_writer_row :: writer_row where
  "no_writer_row = \<lparr>wsPremiumUsdg = 0, wsCollateralUsdg = 0, wsAssignedUsdg = 0, wsRealisedYieldUsdg = 0, wsUpdatedAt = 0\<rparr>"

definition writer_window_step :: "address \<Rightarrow> seconds \<Rightarrow> writer_delta \<Rightarrow> pnl_db \<Rightarrow> rank_window \<times> seconds \<Rightarrow> pnl_db" where
  "writer_window_step writer ts delta db ws =
     (case ws of (window, start) \<Rightarrow>
        let current = get_or (pdWriterStats db) (window, start, lower writer) no_writer_row
        in db\<lparr>pdWriterStats := AList.update (window, start, lower writer)
             \<lparr>wsPremiumUsdg = wsPremiumUsdg current + wdPremium delta,
              wsCollateralUsdg = wsCollateralUsdg current + wdCollateral delta,
              wsAssignedUsdg = wsAssignedUsdg current + wdAssigned delta,
              wsRealisedYieldUsdg = wsRealisedYieldUsdg current + wdPremium delta - wdAssigned delta,
              wsUpdatedAt = ts\<rparr> (pdWriterStats db)\<rparr>)"

definition writerStats :: "pnl_env \<Rightarrow> address \<Rightarrow> seconds \<Rightarrow> writer_delta \<Rightarrow> pnl_db \<Rightarrow> pnl_db" where
  "writerStats env writer ts delta db = foldl (writer_window_step writer ts delta) db (windowStarts (peZone env) ts)"

subsection \<open>A fill\<close>

definition priceReference :: "tape_fill \<Rightarrow> pnl_db \<Rightarrow> int option" where
  "priceReference fill db =
     nearbyVwap (map (\<lambda>f. \<lparr>nfTaker = tfTaker f, nfTs = tfTs f, nfUnits = tfUnits f, nfPremium = tfPremium f\<rparr>)
       (filter (\<lambda>f. tfLongId f = tfLongId fill \<and> tfTs f \<ge> tfTs fill - 3600 \<and> tfTs f \<le> tfTs fill + 3600) (pdFills db)))
       (tfTaker fill) (tfTs fill)"

definition spotAtFill :: "pnl_env \<Rightarrow> tape_series \<Rightarrow> int \<Rightarrow> pnl_error + int option" where
  "spotAtFill env series blockNumber =
     (case peTrySpot env (lower (tsOracle series)) (lower (tsUnderlying series)) blockNumber of
        None \<Rightarrow> Inl SpotReadRejected
      | Some (ok, price) \<Rightarrow> Inr (if ok \<and> price > 0 then Some price else None))"

definition set_fill :: "string \<Rightarrow> (tape_fill \<Rightarrow> tape_fill) \<Rightarrow> pnl_db \<Rightarrow> pnl_db" where
  "set_fill fid f db = db\<lparr>pdFills := map (\<lambda>row. if tfId row = fid then f row else row) (pdFills db)\<rparr>"

definition sale_proceeds :: "tape_fill \<Rightarrow> int \<Rightarrow> int" where
  "sale_proceeds fill takerFee =
     tfPremium fill - tfSellerFee fill + (if lower (tfSeller fill) = lower (tfMaker fill) then tfMakerRebate fill else 0)
       - (if lower (tfSeller fill) = lower (tfTaker fill) then takerFee else 0)"

definition buyer_cost :: "tape_fill \<Rightarrow> int \<Rightarrow> int" where
  "buyer_cost fill takerFee =
     tfPremium fill + (if lower (tfBuyer fill) = lower (tfTaker fill) then takerFee else 0)
       - (if lower (tfBuyer fill) = lower (tfMaker fill) then tfMakerRebate fill else 0)"

text \<open>The seller of a resale: lots consumed, the realised result, the sale and perhaps the close.\<close>

definition fill_sale :: "pnl_env \<Rightarrow> tape_fill \<Rightarrow> int \<Rightarrow> bool \<Rightarrow> bool \<Rightarrow> pnl_db \<Rightarrow> pnl_error + pnl_db" where
  "fill_sale env fill takerFee selfFill offMarket db =
     and_then (consume_lots (tfLongId fill) (tfSeller fill) (tfUnits fill) db) (\<lambda>(consumed, db1).
       let proceeds = sale_proceeds fill takerFee;
           (current, db2) = position (tfLongId fill) (tfSeller fill) db1;
           p = prTotals current;
           db3 = set_fill (tfId fill) (\<lambda>row. row\<lparr>tfRealisedDelta := Some (proceeds - frCost consumed)\<rparr>) db2
       in and_then (or_raise PositionFailed (sellPosition
              (p\<lparr>ptSelfFill := (ptSelfFill p \<or> selfFill), ptOffMarket := (ptOffMarket p \<or> offMarket)\<rparr>)
              (tfUnits fill) proceeds (frCost consumed) (frTransferIn consumed))) (\<lambda>sold.
            maybeClose env (tfLongId fill) (tfSeller fill) (tfTs fill) (tfTx fill)
              (savePosition (tfLongId fill) (tfSeller fill) sold db3)))"

text \<open>The writer of a primary sale.\<close>

definition fill_primary :: "pnl_env \<Rightarrow> tape_fill \<Rightarrow> int \<Rightarrow> pnl_db \<Rightarrow> pnl_db" where
  "fill_primary env fill takerFee db =
     (let premium = primaryPremiumReceived (tfPremium fill) (tfSellerFee fill) (tfMakerRebate fill) takerFee
            (lower (tfSeller fill) = lower (tfMaker fill)) (lower (tfSeller fill) = lower (tfTaker fill));
          db1 = writerStats env (tfSeller fill) (tfTs fill) \<lparr>wdPremium = premium, wdCollateral = 0, wdAssigned = 0\<rparr> db;
          key = (tfLongId fill, lower (tfSeller fill))
      in db1\<lparr>pdSeriesPremium := AList.update key (get_or (pdSeriesPremium db1) key 0 + premium) (pdSeriesPremium db1)\<rparr>)"

definition set_spot :: "int \<Rightarrow> address \<Rightarrow> int option \<Rightarrow> pnl_db \<Rightarrow> pnl_db" where
  "set_spot longId holder spot db =
     (case spot of
        None \<Rightarrow> db
      | Some s \<Rightarrow> (case map_of (pdPositions db) (longId, lower holder) of
            None \<Rightarrow> db
          | Some row \<Rightarrow> db\<lparr>pdPositions := AList.update (longId, lower holder) (row\<lparr>prSpotAtEntry := Some s\<rparr>) (pdPositions db)\<rparr>))"

definition fill_buy :: "pnl_env \<Rightarrow> tape_series \<Rightarrow> tape_fill \<Rightarrow> int \<Rightarrow> bool \<Rightarrow> bool \<Rightarrow> pnl_db \<Rightarrow> pnl_error + pnl_db" where
  "fill_buy env series fill takerFee selfFill offMarket db =
     (let buyerCost = buyer_cost fill takerFee
      in if buyerCost < 0 then Inl (NegativeBuyerCost (tfId fill))
         else and_then (add_lot (tfLongId fill) (tfBuyer fill) (tfUnits fill) buyerCost LotFill (tfId fill) (tfTs fill) db) (\<lambda>db1.
           let (current, db2) = position (tfLongId fill) (tfBuyer fill) db1;
               needsEntrySpot = (ptUnitsBought (prTotals current) = 0 \<and> prSpotAtEntry current = None)
           in and_then (if needsEntrySpot then spotAtFill env series (tfBlock fill) else Inr None) (\<lambda>spot.
              and_then (or_raise PositionFailed (buyPosition (prTotals current) (tfUnits fill) buyerCost selfFill offMarket)) (\<lambda>bought.
                let db3 = savePosition (tfLongId fill) (tfBuyer fill) bought db2;
                    db4 = (if needsEntrySpot then set_spot (tfLongId fill) (tfBuyer fill) spot db3 else db3)
                in Inr (if ptClosedAt (prTotals current) \<noteq> None then refreshRanks env (tfBuyer fill) (tfTs fill) db4 else db4)))))"

definition handleFill :: "pnl_env \<Rightarrow> tape_fill \<Rightarrow> int \<Rightarrow> pnl_db \<Rightarrow> pnl_error + pnl_db" where
  "handleFill env fill takerFee db =
     (case map_of (pdSeries db) (tfLongId fill) of
        None \<Rightarrow> Inl (UnknownFillSeries (tfId fill))
      | Some series \<Rightarrow>
          let fair = priceReference fill db;
              db1 = (case fair of None \<Rightarrow> db | Some v \<Rightarrow> set_fill (tfId fill) (\<lambda>row. row\<lparr>tfFairAtFill := Some v\<rparr>) db);
              offMarket = isOffMarket (tfPrice fill) fair;
              selfFill = (lower (tfMaker fill) = lower (tfTaker fill))
          in and_then (if \<not> tfPrimary fill then fill_sale env fill takerFee selfFill offMarket db1 else Inr db1) (\<lambda>db2.
               fill_buy env series fill takerFee selfFill offMarket
                 (if tfPrimary fill then fill_primary env fill takerFee db2 else db2)))"


subsection \<open>The other logs\<close>

definition handleMint :: "pnl_env \<Rightarrow> string list \<Rightarrow> tape_mint \<Rightarrow> pnl_db \<Rightarrow> pnl_error + pnl_db" where
  "handleMint env matchedMints row db =
     (case map_of (pdSeries db) (tmLongId row) of
        None \<Rightarrow> Inl (UnknownMintSeries (tmId row))
      | Some series \<Rightarrow>
          and_then (or_raise WriterFailed (collateralValue (tmUnits row) (tsStrike series))) (\<lambda>collateral.
            let db1 = writerStats env (tmWriter row) (tmTs row) \<lparr>wdPremium = 0, wdCollateral = collateral, wdAssigned = 0\<rparr> db
            in if tmId row \<in> set matchedMints then Inr db1
               else and_then (add_lot (tmLongId row) (tmLongTo row) (tmUnits row) 0 LotMint (tmId row) (tmTs row) db1) (\<lambda>db2.
                 let (previous, db3) = position (tmLongId row) (tmLongTo row) db2;
                     db4 = savePosition (tmLongId row) (tmLongTo row) (markTransferIn (prTotals previous)) db3
                 in Inr (if ptClosedAt (prTotals previous) \<noteq> None then refreshRanks env (tmLongTo row) (tmTs row) db4 else db4))))"

definition transfer_from :: "pnl_env \<Rightarrow> tape_transfer \<Rightarrow> pnl_db \<Rightarrow> pnl_error + pnl_db" where
  "transfer_from env row db =
     and_then (consume_lots (tvLongId row) (tvFrom row) (tvUnits row) db) (\<lambda>(spent, db1).
       let (previous, db2) = position (tvLongId row) (tvFrom row) db1
       in and_then (or_raise PositionFailed (transferOutPosition (prTotals previous) (tvUnits row))) (\<lambda>sent.
            let db3 = savePosition (tvLongId row) (tvFrom row) sent db2;
                db4 = (if frTransferIn spent
                       then (case position (tvLongId row) (tvFrom row) db3 of
                               (current, db') \<Rightarrow> savePosition (tvLongId row) (tvFrom row) (markTransferIn (prTotals current)) db')
                       else db3)
            in maybeClose env (tvLongId row) (tvFrom row) (tvTs row) (tvTx row) db4))"

definition transfer_to :: "pnl_env \<Rightarrow> tape_transfer \<Rightarrow> pnl_db \<Rightarrow> pnl_error + pnl_db" where
  "transfer_to env row db =
     and_then (add_lot (tvLongId row) (tvTo row) (tvUnits row) 0 (if lower (tvFrom row) = ZERO then LotMint else LotTransfer)
         (tvId row) (tvTs row) db) (\<lambda>db1.
       if lower (tvFrom row) = ZERO then Inr db1
       else let (previous, db2) = position (tvLongId row) (tvTo row) db1;
                db3 = savePosition (tvLongId row) (tvTo row) (markTransferIn (prTotals previous)) db2
            in Inr (if ptClosedAt (prTotals previous) \<noteq> None then refreshRanks env (tvTo row) (tvTs row) db3 else db3))"

definition handleTransfer :: "pnl_env \<Rightarrow> string list \<Rightarrow> tape_transfer \<Rightarrow> pnl_db \<Rightarrow> pnl_error + pnl_db" where
  "handleTransfer env matchedTransfers row db =
     (if tvId row \<in> set matchedTransfers \<or> tvUnits row = 0 then Inr db
      else if lower (tvFrom row) = lower (peOrderBook env) \<or> lower (tvTo row) = lower (peOrderBook env) then Inr db
      else and_then (if lower (tvFrom row) \<noteq> ZERO then transfer_from env row db else Inr db) (\<lambda>db1.
             if lower (tvTo row) \<noteq> ZERO then transfer_to env row db1 else Inr db1))"

definition set_close :: "string \<Rightarrow> int \<Rightarrow> pnl_db \<Rightarrow> pnl_db" where
  "set_close cid delta db =
     db\<lparr>pdCloses := map (\<lambda>row. if tlId row = cid then row\<lparr>tlRealisedDelta := Some delta\<rparr> else row) (pdCloses db)\<rparr>"

definition set_redemption :: "string \<Rightarrow> int \<Rightarrow> pnl_db \<Rightarrow> pnl_db" where
  "set_redemption rid delta db =
     db\<lparr>pdRedemptions := map (\<lambda>row. if tnId row = rid then row\<lparr>tnRealisedDelta := Some delta\<rparr> else row) (pdRedemptions db)\<rparr>"

definition handleClose :: "pnl_env \<Rightarrow> tape_close \<Rightarrow> pnl_db \<Rightarrow> pnl_error + pnl_db" where
  "handleClose env row db =
     and_then (consume_lots (tlLongId row) (tlAccount row) (tlUnits row) db) (\<lambda>(spent, db1).
       let (previous, db2) = position (tlLongId row) (tlAccount row) db1;
           db3 = set_close (tlId row) (- frCost spent) db2
       in and_then (or_raise PositionFailed (sellPosition (prTotals previous) (tlUnits row) 0 (frCost spent) True)) (\<lambda>sold.
            maybeClose env (tlLongId row) (tlAccount row) (tlTs row) (tlTx row)
              (savePosition (tlLongId row) (tlAccount row) sold db3)))"

definition settled_price :: "int \<Rightarrow> pnl_db \<Rightarrow> (tape_series \<times> int) option" where
  "settled_price longId db =
     Option.bind (map_of (pdSeries db) longId) (\<lambda>series. map_option (\<lambda>price. (series, price)) (tsSettlementPrice series))"

definition handleShortRedemption :: "pnl_env \<Rightarrow> tape_redemption \<Rightarrow> pnl_db \<Rightarrow> pnl_error + pnl_db" where
  "handleShortRedemption env row db =
     (case settled_price (tnLongId row) db of
        None \<Rightarrow> Inl (UnsettledShort (tnId row))
      | Some (series, price) \<Rightarrow>
          and_then (or_raise FifoFailed (payoutValueUsdg (tnAmount row) price (lower (tnAsset row) = lower (peUsdg env)))) (\<lambda>payout.
          and_then (or_raise WriterFailed (assignedValue (tnUnits row) (tsStrike series) price (tsIsPut series) payout)) (\<lambda>assigned.
            Inr (writerStats env (tnHolder row) (tnTs row) \<lparr>wdPremium = 0, wdCollateral = 0, wdAssigned = assigned\<rparr> db))))"

definition handleLongRedemption :: "pnl_env \<Rightarrow> tape_redemption \<Rightarrow> pnl_db \<Rightarrow> pnl_error + pnl_db" where
  "handleLongRedemption env row db =
     and_then (consume_lots (tnLongId row) (tnHolder row) (tnUnits row) db) (\<lambda>(spent, db1).
       case settled_price (tnLongId row) db1 of
         None \<Rightarrow> Inl (UnsettledLong (tnId row))
       | Some (series, price) \<Rightarrow>
           and_then (or_raise FifoFailed (payoutValueUsdg (tnAmount row) price (lower (tnAsset row) = lower (peUsdg env)))) (\<lambda>payout.
             let (previous, db2) = position (tnLongId row) (tnHolder row) db1;
                 db3 = set_redemption (tnId row) (payout - frCost spent) db2
             in and_then (or_raise PositionFailed (redeemPosition (prTotals previous) (tnUnits row) payout (frCost spent) (frTransferIn spent)))
                  (\<lambda>redeemed. maybeClose env (tnLongId row) (tnHolder row) (tnTs row) (tnTx row)
                    (savePosition (tnLongId row) (tnHolder row) redeemed db3))))"

datatype tape_item = ItTransfer tape_transfer | ItFill tape_fill | ItMint tape_mint | ItClose tape_close | ItRedeem tape_redemption

fun item_place :: "tape_item \<Rightarrow> int \<times> int \<times> string" where
  "item_place (ItTransfer r) = (tvBlock r, tvLogIndex r, tvId r)"
| "item_place (ItFill r) = (tfBlock r, tfLogIndex r, tfId r)"
| "item_place (ItMint r) = (tmBlock r, tmLogIndex r, tmId r)"
| "item_place (ItClose r) = (tlBlock r, tlLogIndex r, tlId r)"
| "item_place (ItRedeem r) = (tnBlock r, tnLogIndex r, tnId r)"

definition item_order :: "(string \<Rightarrow> string \<Rightarrow> int) \<Rightarrow> tape_item \<Rightarrow> tape_item \<Rightarrow> int" where
  "item_order collate a b =
     (case (item_place a, item_place b) of ((ba, la, ia), (bb, lb, ib)) \<Rightarrow>
        if ba < bb then -1 else if ba > bb then 1 else cmp_or (la - lb) (collate ia ib))"

fun handle_item ::
  "pnl_env \<Rightarrow> string list \<Rightarrow> string list \<Rightarrow> (string \<times> int) list \<Rightarrow> tape_item \<Rightarrow> pnl_db \<Rightarrow> pnl_error + pnl_db" where
  "handle_item env mt mm fees (ItFill row) db = handleFill env row (get_or fees (tfId row) 0) db"
| "handle_item env mt mm fees (ItMint row) db = handleMint env mm row db"
| "handle_item env mt mm fees (ItTransfer row) db = handleTransfer env mt row db"
| "handle_item env mt mm fees (ItClose row) db = handleClose env row db"
| "handle_item env mt mm fees (ItRedeem row) db =
     (case tnSide row of ShortSide \<Rightarrow> handleShortRedemption env row db | LongSide \<Rightarrow> handleLongRedemption env row db)"

fun item_loop ::
  "pnl_env \<Rightarrow> string list \<Rightarrow> string list \<Rightarrow> (string \<times> int) list \<Rightarrow> tape_item list \<Rightarrow> pnl_db \<Rightarrow> pnl_error + pnl_db" where
  "item_loop env mt mm fees [] db = Inr db"
| "item_loop env mt mm fees (i # is) db = and_then (handle_item env mt mm fees i db) (item_loop env mt mm fees is)"

subsection \<open>The self-trade measurement beside the cursor\<close>

text \<open>The rows one tick reads, of the blocks after \<open>from\<close> and up to \<open>through\<close>.\<close>

record block_rows =
  brFrom :: int
  brThrough :: int
  brThroughTimestamp :: seconds
  brTransfers :: "tape_transfer list"
  brFills :: "tape_fill list"
  brMints :: "tape_mint list"
  brCloses :: "tape_close list"
  brRedemptions :: "tape_redemption list"
  brMatchedTransfers :: "string list"
  brMatchedMints :: "string list"

definition transfer_st_event :: "tape_transfer \<Rightarrow> st_event" where
  "transfer_st_event row = \<lparr>evBlock = tvBlock row, evLogIndex = tvLogIndex row, evTs = tvTs row, evId = tvId row,
     evLongId = tvLongId row, evUnits = tvUnits row, evKind = KTransfer (tvFrom row) (tvTo row)\<rparr>"

definition fill_st_event :: "tape_fill \<Rightarrow> st_event" where
  "fill_st_event row = \<lparr>evBlock = tfBlock row, evLogIndex = tfLogIndex row, evTs = tfTs row, evId = tfId row,
     evLongId = tfLongId row, evUnits = tfUnits row, evKind = KFill \<lparr>sfMaker = tfMaker row, sfTaker = tfTaker row,
       sfRecipient = tfRecipient row, sfBuyer = tfBuyer row, sfSeller = tfSeller row, sfPrice = tfPrice row,
       sfPrimary = tfPrimary row, sfTakerIsBuyer = tfTakerIsBuyer row, sfFairAtFill = tfFairAtFill row\<rparr>\<rparr>"

definition mint_st_event :: "tape_mint \<Rightarrow> st_event" where
  "mint_st_event row = \<lparr>evBlock = tmBlock row, evLogIndex = tmLogIndex row, evTs = tmTs row, evId = tmId row,
     evLongId = tmLongId row, evUnits = tmUnits row, evKind = KMint (tmLongTo row)\<rparr>"

definition close_st_event :: "tape_close \<Rightarrow> st_event" where
  "close_st_event row = \<lparr>evBlock = tlBlock row, evLogIndex = tlLogIndex row, evTs = tlTs row, evId = tlId row,
     evLongId = tlLongId row, evUnits = tlUnits row, evKind = KClose (tlAccount row)\<rparr>"

definition redemption_st_event :: "tape_redemption \<Rightarrow> st_event" where
  "redemption_st_event row = \<lparr>evBlock = tnBlock row, evLogIndex = tnLogIndex row, evTs = tnTs row, evId = tnId row,
     evLongId = tnLongId row, evUnits = tnUnits row, evKind = KRedemption (tnHolder row)\<rparr>"

definition self_trade_events :: "block_rows \<Rightarrow> st_event list" where
  "self_trade_events block =
     map transfer_st_event (brTransfers block) @ map fill_st_event (brFills block)
     @ map mint_st_event (filter (\<lambda>row. tmId row \<notin> set (brMatchedMints block)) (brMints block))
     @ map close_st_event (brCloses block)
     @ map redemption_st_event (filter (\<lambda>row. tnSide row = LongSide) (brRedemptions block))"

definition stored_self_trade :: "int \<Rightarrow> pnl_db \<Rightarrow> st_state" where
  "stored_self_trade from db =
     \<lparr>stCursor = from, stLinks = pdStLinks db, stLots = pdStLots db,
      stMakers = map (\<lambda>(maker, row). \<lparr>smWriter = maker, smUnits = muUnits row\<rparr>) (pdStMakers db),
      stUnseen = Some (map (\<lambda>(reason, row). \<lparr>suReason = reason, suUnits = uuUnits row, suFills = uuFills row\<rparr>) (pdStUnseen db))\<rparr>"

fun store_links :: "string list \<Rightarrow> self_link list \<Rightarrow> self_link list \<Rightarrow> self_link list" where
  "store_links oldIds [] table = table"
| "store_links oldIds (row # rows) table =
     store_links oldIds rows
       (if slId row \<in> set oldIds \<or> slId row \<in> set (map slId table) then table
        else table @ [\<lparr>slId = slId row, slLeft = lower (slLeft row), slRight = lower (slRight row)\<rparr>])"

fun store_lots :: "st_lot list \<Rightarrow> st_lot list \<Rightarrow> st_lot list \<Rightarrow> st_lot list" where
  "store_lots old [] table = table"
| "store_lots old (row # rows) table =
     store_lots old rows
       (case List.find (\<lambda>l. loId l = loId row) (rev old) of
          None \<Rightarrow> table @ [keyed_lot row]
        | Some previous \<Rightarrow>
            if loRemaining previous \<noteq> loRemaining row
            then map (\<lambda>r. if loId r = loId row then keyed_lot row else r) table else table)"

definition store_makers :: "int \<Rightarrow> seconds \<Rightarrow> st_maker list \<Rightarrow> (address \<times> maker_units) list \<Rightarrow> (address \<times> maker_units) list" where
  "store_makers through ts rows stored =
     foldl (\<lambda>table row.
        if map_option muUnits (map_of (rev (map (\<lambda>(m, u). (lower m, u)) stored)) (smWriter row)) = Some (smUnits row) then table
        else AList.update (lower (smWriter row)) \<lparr>muUnits = smUnits row, muUpdatedAt = ts, muUpdatedBlock = through\<rparr> table) stored rows"

definition store_unseen ::
  "int \<Rightarrow> seconds \<Rightarrow> st_unseen list \<Rightarrow> (unseen_reason \<times> unseen_units) list \<Rightarrow> (unseen_reason \<times> unseen_units) list" where
  "store_unseen through ts rows stored =
     foldl (\<lambda>table row.
        if (case map_of stored (suReason row) of None \<Rightarrow> False
            | Some previous \<Rightarrow> uuUnits previous = suUnits row \<and> uuFills previous = suFills row) then table
        else AList.update (suReason row)
          \<lparr>uuUnits = suUnits row, uuFills = suFills row, uuUpdatedAt = ts, uuUpdatedBlock = through\<rparr> table) stored rows"

definition nextOpenLotExpiry :: "st_lot list \<Rightarrow> (int \<times> int) list \<Rightarrow> int option" where
  "nextOpenLotExpiry lots expiries =
     foldl (\<lambda>next lot.
        if loRemaining lot = 0 then next
        else case map_of (map_from expiries) (loLongId lot) of
               None \<Rightarrow> next
             | Some expiry \<Rightarrow> (case next of None \<Rightarrow> Some expiry | Some n \<Rightarrow> if expiry < n then Some expiry else next)) None lots"

definition self_trade_batch :: "pnl_env \<Rightarrow> block_rows \<Rightarrow> link_evidence list \<Rightarrow> pnl_db \<Rightarrow> st_batch" where
  "self_trade_batch env block evidence db =
     \<lparr>sbThrough = brThrough block, sbThroughTimestamp = brThroughTimestamp block, sbEvents = self_trade_events block,
      sbLinkEvidence = evidence, sbSeriesExpiries = map (\<lambda>(longId, s). (longId, tsExpiry s)) (pdSeries db),
      sbMatchedTransferIds = brMatchedTransfers block, sbProtocolAddresses = peProtocolAddresses env\<rparr>"

definition stored_evidence :: "int \<Rightarrow> int \<Rightarrow> pnl_db \<Rightarrow> st_error + link_evidence list" where
  "stored_evidence from through db =
     indexedSelfTradeLinks
       (map (\<lambda>(account, a). \<lparr>alAccount = account, alOperators = taOperators a, alApprovals = taApprovals a,
          alDelegates = taDelegates a\<rparr>) (pdAccounts db))
       (map snd (filter (\<lambda>(block, _). block > from \<and> block \<le> through) (pdCashFlows db)))"

definition updateSelfTrade :: "pnl_env \<Rightarrow> block_rows \<Rightarrow> pnl_db \<Rightarrow> pnl_error + (int option \<times> pnl_db)" where
  "updateSelfTrade env block db =
     and_then (or_raise SelfTradeFailed (stored_evidence (brFrom block) (brThrough block) db)) (\<lambda>evidence.
     and_then (or_raise SelfTradeFailed
         (reduceSelfTrade (peCollate env) (stored_self_trade (brFrom block) db) (self_trade_batch env block evidence db))) (\<lambda>next.
       Inr (nextOpenLotExpiry (stLots next) (map (\<lambda>(longId, s). (longId, tsExpiry s)) (pdSeries db)),
            db\<lparr>pdStLinks := store_links (map slId (pdStLinks db)) (stLinks next) (pdStLinks db),
               pdStLots := store_lots (pdStLots db) (stLots next) (pdStLots db),
               pdStMakers := store_makers (brThrough block) (brThroughTimestamp block) (stMakers next) (pdStMakers db),
               pdStUnseen := store_unseen (brThrough block) (brThroughTimestamp block) (or_else (stUnseen next) []) (pdStUnseen db)\<rparr>)))"

subsection \<open>The tick\<close>

text \<open>What the handlers of the other tables do beside each write (\<open>markPnlInput\<close>), and the clock's own record.\<close>

definition markPnlInput :: "int \<Rightarrow> pnl_db \<Rightarrow> pnl_db" where
  "markPnlInput block db =
     (case pdInput db of
        None \<Rightarrow> db\<lparr>pdInput := Some \<lparr>inBlock = block, inNextLotExpiry = None\<rparr>\<rparr>
      | Some current \<Rightarrow> if inBlock current \<noteq> block then db\<lparr>pdInput := Some (current\<lparr>inBlock := block\<rparr>)\<rparr> else db)"

definition recordNextLotExpiry :: "int option \<Rightarrow> pnl_db \<Rightarrow> pnl_db" where
  "recordNextLotExpiry next db =
     db\<lparr>pdInput := Some (case pdInput db of
          None \<Rightarrow> \<lparr>inBlock = -1, inNextLotExpiry = next\<rparr>
        | Some current \<Rightarrow> current\<lparr>inNextLotExpiry := next\<rparr>)\<rparr>"

definition pnlTickIsNoop :: "pnl_input option \<Rightarrow> int option \<Rightarrow> int \<Rightarrow> seconds \<Rightarrow> bool" where
  "pnlTickIsNoop input cursor from timestamp =
     (case (input, cursor) of
        (Some i, Some _) \<Rightarrow> if inBlock i \<ge> from then False
          else (case inNextLotExpiry i of None \<Rightarrow> True | Some expiry \<Rightarrow> timestamp < expiry)
      | _ \<Rightarrow> False)"

definition delivered_transfer :: "tape_transfer \<Rightarrow> indexed_transfer" where
  "delivered_transfer row = \<lparr>itId = tvId row, itTx = tvTx row, itLongId = tvLongId row, itFrom = tvFrom row, itTo = tvTo row,
     itUnits = tvUnits row, itLogIndex = tvLogIndex row\<rparr>"

definition delivered_fill :: "tape_fill \<Rightarrow> indexed_fill" where
  "delivered_fill row = \<lparr>ifId = tfId row, ifTx = tfTx row, ifLongId = tfLongId row, ifBuyer = tfBuyer row, ifSeller = tfSeller row,
     ifTakerIsBuyer = tfTakerIsBuyer row, ifUnits = tfUnits row, ifLogIndex = tfLogIndex row, ifPrimary = tfPrimary row\<rparr>"

definition delivered_mint :: "tape_mint \<Rightarrow> indexed_mint" where
  "delivered_mint row = \<lparr>imId = tmId row, imTx = tmTx row, imLongId = tmLongId row, imLongTo = tmLongTo row,
     imUnits = tmUnits row, imLogIndex = tmLogIndex row\<rparr>"

definition tape_exits :: "tape_close list \<Rightarrow> tape_redemption list \<Rightarrow> indexed_exit list" where
  "tape_exits closes redemptions =
     map (\<lambda>row. \<lparr>ieId = tlId row, ieTx = tlTx row, ieLongId = tlLongId row, ieHolder = tlAccount row, ieUnits = tlUnits row,
        ieLogIndex = tlLogIndex row\<rparr>) closes
     @ map (\<lambda>row. \<lparr>ieId = tnId row, ieTx = tnTx row, ieLongId = tnLongId row, ieHolder = tnHolder row, ieUnits = tnUnits row,
        ieLogIndex = tnLogIndex row\<rparr>) (filter (\<lambda>row. tnSide row = LongSide) redemptions)"

definition charged_fill :: "tape_fill \<Rightarrow> fee_fill" where
  "charged_fill row = \<lparr>ffId = tfId row, ffTx = tfTx row, ffLongId = tfLongId row, ffTaker = tfTaker row,
     ffTakerIsBuyer = tfTakerIsBuyer row, ffUnits = tfUnits row, ffPremium = tfPremium row, ffLogIndex = tfLogIndex row\<rparr>"

definition tape_items :: "(string \<Rightarrow> string \<Rightarrow> int) \<Rightarrow> block_rows \<Rightarrow> tape_item list" where
  "tape_items collate block =
     js_sort (item_order collate) (map ItTransfer (brTransfers block) @ map ItFill (brFills block) @ map ItMint (brMints block)
       @ map ItClose (brCloses block) @ map ItRedeem (brRedemptions block))"

definition read_rows :: "int \<Rightarrow> int \<Rightarrow> seconds \<Rightarrow> pnl_db \<Rightarrow> block_rows" where
  "read_rows from through ts db =
     (let inside = (\<lambda>block. block > from \<and> block \<le> through)
      in \<lparr>brFrom = from, brThrough = through, brThroughTimestamp = ts,
          brTransfers = filter (\<lambda>row. inside (tvBlock row)) (pdTransfers db),
          brFills = filter (\<lambda>row. inside (tfBlock row)) (pdFills db),
          brMints = filter (\<lambda>row. inside (tmBlock row)) (pdMints db),
          brCloses = filter (\<lambda>row. inside (tlBlock row)) (pdCloses db),
          brRedemptions = filter (\<lambda>row. inside (tnBlock row)) (pdRedemptions db),
          brMatchedTransfers = [], brMatchedMints = []\<rparr>)"

definition full_tick :: "pnl_env \<Rightarrow> int \<Rightarrow> int \<Rightarrow> seconds \<Rightarrow> pnl_db \<Rightarrow> pnl_error + pnl_db" where
  "full_tick env from through ts db =
     (let rows = read_rows from through ts db;
          takes = map ttCall (filter (\<lambda>row. ttBlock row > from \<and> ttBlock row \<le> through) (pdTakes db))
      in and_then (or_raise DeliveryFailed (matchDeliveries (map delivered_transfer (brTransfers rows))
             (map delivered_fill (brFills rows)) (map delivered_mint (brMints rows))
             (tape_exits (brCloses rows) (brRedemptions rows)) (peOrderBook env))) (\<lambda>(mt, mm).
         and_then (or_raise TakeFeesFailed (matchTakeFees (map charged_fill (brFills rows)) takes)) (\<lambda>fees.
           let block = rows\<lparr>brMatchedTransfers := mt, brMatchedMints := mm\<rparr>
           in and_then (item_loop env mt mm fees (tape_items (peCollate env) block) db) (\<lambda>db1.
              and_then (updateSelfTrade env block db1) (\<lambda>(next, db2).
                Inr ((recordNextLotExpiry next db2)\<lparr>pdCursor := Some through\<rparr>))))))"

definition pnl_tick :: "pnl_env \<Rightarrow> int \<Rightarrow> seconds \<Rightarrow> pnl_db \<Rightarrow> pnl_error + pnl_db" where
  "pnl_tick env number timestamp db =
     (let from = or_else (pdCursor db) (peStartBlock env - 1)
      in if number \<le> from then Inr db
         else if pnlTickIsNoop (pdInput db) (pdCursor db) from timestamp then Inr (db\<lparr>pdCursor := Some number\<rparr>)
         else full_tick env from number timestamp db)"

subsection \<open>What a consumption does to the lots\<close>

lemma subseq_facts: "subseq xs ys \<Longrightarrow> set xs \<subseteq> set ys" "subseq xs ys \<Longrightarrow> distinct ys \<Longrightarrow> distinct xs"
  by (auto simp: subseq_conv_nths distinct_nthsI dest: set_nths_subset [THEN subsetD])

text \<open>The parts a consumption takes: of different lots of the list, each at most the lot, a whole lot at its whole cost.\<close>

definition part_ok :: "v2_lot consumed_lot \<Rightarrow> bool" where
  "part_ok c = (0 < cnUnits c \<and> cnUnits c \<le> clUnits (cnLot c) \<and> 0 \<le> cnCost c \<and> cnCost c \<le> clCost (cnLot c)
     \<and> (cnUnits c = clUnits (cnLot c) \<longrightarrow> cnCost c = clCost (cnLot c)))"

lemma fifo_loop_parts:
  assumes "fifo_loop lots remaining r = Inr (rest, r')" "0 \<le> remaining"
  shows "\<exists>cs. frConsumed r' = frConsumed r @ cs \<and> subseq (map cnLot cs) lots \<and> list_all part_ok cs
    \<and> frTransferIn r' = (frTransferIn r \<or> list_ex (\<lambda>c. clSource (cnLot c) \<noteq> LotFill) cs)
    \<and> frCost r' = frCost r + sum_list (map cnCost cs) \<and> rest = remaining - sum_list (map cnUnits cs) \<and> 0 \<le> rest"
  using assms
proof (induction lots remaining r rule: fifo_loop.induct)
  case (2 lot lots remaining r)
  show ?case
  proof (cases "remaining = 0")
    case True
    then show ?thesis using "2.prems" by (intro exI [of _ "[]"]) simp
  next
    case False
    have valid: "\<not> (clUnits lot < 0 \<or> clCost lot < 0)" using "2.prems"(1) False by (auto split: if_splits)
    show ?thesis
    proof (cases "clUnits lot = 0")
      case True
      then have "fifo_loop lots remaining r = Inr (rest, r')" using "2.prems"(1) False valid by simp
      from "2.IH"(1) [OF False valid True this "2.prems"(2)] show ?thesis by (blast intro: list_emb_Cons)
    next
      case nz: False
      let ?t = "if remaining < clUnits lot then remaining else clUnits lot"
      let ?c = "if ?t = clUnits lot then clCost lot else (clCost lot * ?t) sdiv clUnits lot"
      let ?r = "\<lparr>frConsumed = frConsumed r @ [\<lparr>cnLot = lot, cnUnits = ?t, cnCost = ?c\<rparr>], frCost = frCost r + ?c,
         frTransferIn = (frTransferIn r \<or> clSource lot \<noteq> LotFill)\<rparr>"
      have "fifo_loop lots (remaining - ?t) ?r = Inr (rest, r')" using "2.prems"(1) False valid nz by (simp add: Let_def)
      moreover have "0 \<le> remaining - ?t" using "2.prems"(2) by simp
      ultimately obtain cs where cs: "frConsumed r' = frConsumed ?r @ cs" "subseq (map cnLot cs) lots" "list_all part_ok cs"
        "frTransferIn r' = (frTransferIn ?r \<or> list_ex (\<lambda>c. clSource (cnLot c) \<noteq> LotFill) cs)"
        "frCost r' = frCost ?r + sum_list (map cnCost cs)" "rest = remaining - ?t - sum_list (map cnUnits cs)" "0 \<le> rest"
        using "2.IH"(2) [OF False valid nz refl refl] by blast
      have pos: "0 < clUnits lot" "0 \<le> clCost lot" "0 < remaining" using valid nz False "2.prems"(2) by auto
      have "part_ok \<lparr>cnLot = lot, cnUnits = ?t, cnCost = ?c\<rparr>"
        using pos partial_cost [of ?t "clUnits lot" "clCost lot"] by (auto simp: part_ok_def)
      then show ?thesis using cs
        by (intro exI [of _ "\<lparr>cnLot = lot, cnUnits = ?t, cnCost = ?c\<rparr> # cs"]) (auto simp: algebra_simps)
    qed
  qed
qed (auto intro: exI [of _ "[]"])

lemma consumeFifo_parts:
  assumes "consumeFifo lots units = Inr r"
  shows "subseq (map cnLot (frConsumed r)) lots \<and> list_all part_ok (frConsumed r)
    \<and> frTransferIn r = list_ex (\<lambda>c. clSource (cnLot c) \<noteq> LotFill) (frConsumed r)
    \<and> frCost r = sum_list (map cnCost (frConsumed r)) \<and> sum_list (map cnUnits (frConsumed r)) = units"
proof -
  obtain rest where l: "fifo_loop lots units \<lparr>frConsumed = [], frCost = 0, frTransferIn = False\<rparr> = Inr (rest, r)" "rest \<le> 0" "0 \<le> units"
    using assms by (auto simp: consumeFifo_def split: if_splits sum.splits)
  from fifo_loop_parts [OF l(1,3)] l(2) show ?thesis by auto
qed

text \<open>The books of one holder in one series: the rows of its lots beside its totals.\<close>

definition lot_ok :: "v2_lot \<Rightarrow> bool" where
  "lot_ok l = (0 < vlUnits l \<and> 0 \<le> clUnits l \<and> clUnits l \<le> vlUnits l \<and> 0 \<le> clCost l \<and> clCost l \<le> vlCostUsdg l
     \<and> (clUnits l = 0 \<longrightarrow> clCost l = 0) \<and> (clSource l \<noteq> LotFill \<longrightarrow> vlCostUsdg l = 0))"

definition spent_units :: "v2_lot list \<Rightarrow> int" where "spent_units rs = sum_list (map (\<lambda>l. vlUnits l - clUnits l) rs)"
definition spent_cost :: "v2_lot list \<Rightarrow> int" where "spent_cost rs = sum_list (map (\<lambda>l. vlCostUsdg l - clCost l) rs)"
definition bought_units :: "v2_lot list \<Rightarrow> int" where
  "bought_units rs = sum_list (map (\<lambda>l. if clSource l = LotFill then vlUnits l else 0) rs)"
definition paid_cost :: "v2_lot list \<Rightarrow> int" where "paid_cost rs = sum_list (map vlCostUsdg rs)"

lemmas lot_sums = spent_units_def spent_cost_def bought_units_def paid_cost_def

lemma update_sum:
  fixes f :: "'a \<Rightarrow> int"
  assumes "distinct (map key rs)" "x \<in> set rs"
  shows "sum_list (map f (map (\<lambda>l. if key l = key x then g l else l) rs)) = sum_list (map f rs) + (f (g x) - f x)"
  using assms
proof (induction rs)
  case (Cons a rs)
  show ?case
  proof (cases "a = x")
    case True
    then have "\<forall>l \<in> set rs. key l \<noteq> key x" using Cons.prems(1) by (force simp: image_iff)
    then have "map (\<lambda>l. if key l = key x then g l else l) rs = rs" by (simp add: map_idI)
    with True show ?thesis by simp
  next
    case False
    then have "x \<in> set rs" using Cons.prems(2) by simp
    then have "key a \<noteq> key x" using Cons.prems(1) by (metis distinct.simps(2) imageI list.simps(9) set_map)
    then show ?thesis using Cons.IH Cons.prems \<open>x \<in> set rs\<close> by simp
  qed
qed simp

definition shrinks :: "v2_lot list \<Rightarrow> v2_lot list \<Rightarrow> bool" where
  "shrinks rs rs' = (\<forall>l' \<in> set rs'. \<exists>l \<in> set rs. clSource l' = clSource l \<and> vlUnits l' = vlUnits l \<and> clUnits l' \<le> clUnits l)"

lemma shrinks_trans:
  assumes "shrinks rs rs1" "shrinks rs1 rs2"
  shows "shrinks rs rs2"
  unfolding shrinks_def
proof
  fix l assume "l \<in> set rs2"
  with assms(2) obtain l1 where 1: "l1 \<in> set rs1" "clSource l = clSource l1" "vlUnits l = vlUnits l1" "clUnits l \<le> clUnits l1"
    unfolding shrinks_def by blast
  with assms(1) obtain l0 where "l0 \<in> set rs" "clSource l1 = clSource l0" "vlUnits l1 = vlUnits l0" "clUnits l1 \<le> clUnits l0"
    unfolding shrinks_def by blast
  with 1 show "\<exists>l0 \<in> set rs. clSource l = clSource l0 \<and> vlUnits l = vlUnits l0 \<and> clUnits l \<le> clUnits l0"
    by (intro bexI [of _ l0]) auto
qed

text \<open>What a consumption of parts with these units and this cost leaves of the rows.\<close>

definition spends :: "v2_lot list \<Rightarrow> int \<Rightarrow> int \<Rightarrow> bool \<Rightarrow> v2_lot list \<Rightarrow> bool" where
  "spends rs units cost gift rs' =
     (map lot_key rs' = map lot_key rs \<and> list_all lot_ok rs' \<and> spent_units rs' = spent_units rs + units
      \<and> spent_cost rs' = spent_cost rs + cost \<and> bought_units rs' = bought_units rs \<and> paid_cost rs' = paid_cost rs
      \<and> shrinks rs rs' \<and> (\<not> gift \<longrightarrow> (\<forall>l' \<in> set rs'. clSource l' \<noteq> LotFill \<longrightarrow> l' \<in> set rs)))"

lemma take_lot_spends:
  assumes "list_all lot_ok rs" "distinct (map lot_key rs)" "cnLot c \<in> set rs" "part_ok c"
  shows "spends rs (cnUnits c) (cnCost c) (clSource (cnLot c) \<noteq> LotFill) (take_lot rs c)"
    and "l \<in> set rs \<Longrightarrow> lot_key l \<noteq> lot_key (cnLot c) \<Longrightarrow> l \<in> set (take_lot rs c)"
proof -
  let ?x = "cnLot c"
  let ?g = "\<lambda>l. l\<lparr>clUnits := clUnits ?x - cnUnits c, clCost := clCost ?x - cnCost c\<rparr>"
  have t: "take_lot rs c = map (\<lambda>l. if lot_key l = lot_key ?x then ?g l else l) rs" by (simp add: take_lot_def)
  note sum = update_sum [OF assms(2,3), of _ ?g]
  have same: "lot_key l = lot_key ?x \<Longrightarrow> l \<in> set rs \<Longrightarrow> l = ?x" for l
    using assms(2,3) by (metis distinct_map inj_onD)
  have x: "lot_ok ?x" using assms(1,3) by (simp add: list_all_iff)
  have gx: "lot_ok (?g ?x)" using x assms(4) by (auto simp: lot_ok_def part_ok_def)
  have "list_all lot_ok (take_lot rs c)" using assms(1) gx same by (auto simp: t list_all_iff)
  moreover have "map lot_key (take_lot rs c) = map lot_key rs" by (simp add: t lot_key_def)
  moreover have "spent_units (take_lot rs c) = spent_units rs + cnUnits c" "spent_cost (take_lot rs c) = spent_cost rs + cnCost c"
    "bought_units (take_lot rs c) = bought_units rs" "paid_cost (take_lot rs c) = paid_cost rs"
    unfolding t lot_sums sum by simp_all
  moreover have "shrinks rs (take_lot rs c)" using same assms(4) by (force simp: t part_ok_def shrinks_def)
  moreover have "l' \<in> set rs" if "clSource ?x = LotFill" "l' \<in> set (take_lot rs c)" "clSource l' \<noteq> LotFill" for l'
    using that by (auto simp: t split: if_splits dest!: same)
  ultimately show "spends rs (cnUnits c) (cnCost c) (clSource ?x \<noteq> LotFill) (take_lot rs c)" unfolding spends_def by blast
  show "l \<in> set rs \<Longrightarrow> lot_key l \<noteq> lot_key ?x \<Longrightarrow> l \<in> set (take_lot rs c)" by (force simp: t)
qed

lemma spends_trans: "spends rs u c g rs1 \<Longrightarrow> spends rs1 u' c' g' rs2 \<Longrightarrow> spends rs (u + u') (c + c') (g \<or> g') rs2"
  using shrinks_trans [of rs rs1 rs2] by (auto simp: spends_def algebra_simps)

lemma take_lots_spend:
  assumes "list_all lot_ok rs" "distinct (map lot_key rs)" "distinct (map (\<lambda>c. lot_key (cnLot c)) cs)"
    "list_all part_ok cs" "\<forall>c \<in> set cs. cnLot c \<in> set rs"
  shows "spends rs (sum_list (map cnUnits cs)) (sum_list (map cnCost cs)) (list_ex (\<lambda>c. clSource (cnLot c) \<noteq> LotFill) cs)
           (foldl take_lot rs cs)"
  using assms
proof (induction cs arbitrary: rs)
  case Nil
  then show ?case by (auto simp: spends_def shrinks_def)
next
  case (Cons c cs)
  have c: "cnLot c \<in> set rs" "part_ok c" using Cons.prems(4,5) by simp_all
  note one = take_lot_spends [OF Cons.prems(1,2) c]
  have still: "cnLot d \<in> set (take_lot rs c)" if "d \<in> set cs" for d
  proof (rule one(2))
    show "cnLot d \<in> set rs" using that Cons.prems(5) by simp
    show "lot_key (cnLot d) \<noteq> lot_key (cnLot c)" using that Cons.prems(3) by (force simp: image_iff)
  qed
  have "list_all lot_ok (take_lot rs c)" "distinct (map lot_key (take_lot rs c))" using one(1) Cons.prems(2) by (auto simp: spends_def)
  from Cons.IH [OF this] Cons.prems(3,4) still spends_trans [OF one(1)] show ?case by simp
qed

subsection \<open>The books of the store\<close>

definition rows_at :: "pnl_db \<Rightarrow> int \<times> address \<Rightarrow> v2_lot list" where
  "rows_at db key = filter (in_key key) (pdLots db)"

definition pos_at :: "pnl_db \<Rightarrow> int \<times> address \<Rightarrow> position_totals" where
  "pos_at db key = prTotals (get_or (pdPositions db) key new_position)"

text \<open>
  A position agrees with its lots: what left it is sold, redeemed or given away, what it bought and paid is the lots
  bought, and unless it was given away its result is what came back less the cost of the units that left. Without the
  \<open>transferIn\<close> flag nothing that was not bought has left; closed, nothing that was bought is left.
\<close>

definition book_ok :: "v2_lot list \<Rightarrow> position_totals \<Rightarrow> bool" where
  "book_ok rs p =
     (list_all lot_ok rs \<and> distinct (map vlSeq rs)
      \<and> spent_units rs = ptUnitsSold p + ptUnitsRedeemed p + ptUnitsTransferredOut p
      \<and> bought_units rs = ptUnitsBought p \<and> paid_cost rs = ptCostUsdg p
      \<and> (\<not> ptTransferredOut p \<longrightarrow> ptUnitsTransferredOut p = 0
           \<and> spent_cost rs = ptProceedsUsdg p + ptPayoutUsdgValue p - ptRealisedUsdg p)
      \<and> (\<not> ptTransferIn p \<longrightarrow> (\<forall>l \<in> set rs. clSource l \<noteq> LotFill \<longrightarrow> clUnits l = vlUnits l))
      \<and> (ptClosedAt p \<noteq> None \<longrightarrow> (\<forall>l \<in> set rs. clSource l = LotFill \<longrightarrow> clUnits l = 0))
      \<and> reachable_position p)"

definition books_ok :: "pnl_db \<Rightarrow> bool" where
  "books_ok db = (\<forall>key. book_ok (rows_at db key) (pos_at db key))"

text \<open>Steps that leave the lots and the positions alone.\<close>

definition same_books :: "pnl_db \<Rightarrow> pnl_db \<Rightarrow> bool" where
  "same_books db db' = (pdLots db' = pdLots db \<and> pdPositions db' = pdPositions db)"

lemma same_books_refl [simp]: "same_books db db" by (simp add: same_books_def)
lemma same_books_trans: "same_books a b \<Longrightarrow> same_books b c \<Longrightarrow> same_books a c" by (simp add: same_books_def)

lemma same_books_at: "same_books db db' \<Longrightarrow> rows_at db' key = rows_at db key \<and> pos_at db' key = pos_at db key"
  by (simp add: same_books_def rows_at_def pos_at_def)

lemma same_books_ok: "same_books db db' \<Longrightarrow> books_ok db' = books_ok db"
  by (simp add: books_ok_def same_books_at)

lemma same_books_fold: "(\<And>db x. same_books db (f db x)) \<Longrightarrow> same_books db (foldl f db xs)"
  by (induction xs arbitrary: db) (auto intro: same_books_trans)

lemma refreshRanks_books: "same_books db (refreshRanks env holder at_ts db)"
  unfolding refreshRanks_def Let_def
  by (rule same_books_fold) (auto simp: rank_window_step_def same_books_def Let_def split: prod.splits option.splits)

lemma writerStats_books: "same_books db (writerStats env writer ts delta db)"
  unfolding writerStats_def by (rule same_books_fold) (auto simp: writer_window_step_def same_books_def Let_def split: prod.splits)

lemma ranks_ok [simp]: "books_ok (refreshRanks env holder at_ts db) = books_ok db" "books_ok (writerStats env writer ts delta db) = books_ok db"
  by (rule same_books_ok, rule refreshRanks_books, rule same_books_ok, rule writerStats_books)

lemma column_books: "same_books db (set_fill fid f db)" "same_books db (set_close cid d db)" "same_books db (set_redemption rid d db)"
  by (simp_all add: same_books_def set_fill_def set_close_def set_redemption_def)

lemma fill_primary_books: "same_books db (fill_primary env fill fee db)"
  using writerStats_books by (auto simp: fill_primary_def Let_def same_books_def)

subsection \<open>Reading and saving a position\<close>

lemma position_books:
  assumes "position longId holder db = (row, db')"
  shows "prTotals row = pos_at db (longId, lower holder)" "pdLots db' = pdLots db" "pos_at db' = pos_at db"
    "map_of (pdPositions db') (longId, lower holder) = Some row"
  using assms by (auto simp: position_def pos_at_def get_or_def fun_eq_iff split: option.splits if_splits)

lemma savePosition_books:
  "pdLots (savePosition longId holder p db) = pdLots db"
  "pos_at (savePosition longId holder p db) key = (if key = (longId, lower holder) then p else pos_at db key)"
proof -
  obtain row db' where q: "position longId holder db = (row, db')" by (metis surj_pair)
  note b = position_books [OF q]
  show "pdLots (savePosition longId holder p db) = pdLots db" using b(2) by (simp add: savePosition_def q)
  show "pos_at (savePosition longId holder p db) key = (if key = (longId, lower holder) then p else pos_at db key)"
    using fun_cong [OF b(3), of key] by (simp add: savePosition_def q pos_at_def)
qed

lemma set_spot_books: "pdLots (set_spot longId holder spot db) = pdLots db" "pos_at (set_spot longId holder spot db) = pos_at db"
  by (auto simp: set_spot_def pos_at_def get_or_def fun_eq_iff split: option.splits)

text \<open>The one way the books change: the rows and the totals of one key, together.\<close>

lemma books_change:
  assumes "books_ok db" "book_ok rs p"
    and "\<And>k. rows_at db' k = (if k = key then rs else rows_at db k)"
    and "\<And>k. pos_at db' k = (if k = key then p else pos_at db k)"
  shows "books_ok db'"
  using assms by (simp add: books_ok_def)

lemma save_change:
  assumes "books_ok db" "book_ok rs p" "\<And>k. rows_at db1 k = (if k = (longId, lower holder) then rs else rows_at db k)"
    "\<And>k. pos_at db1 k = pos_at db k"
  shows "books_ok (savePosition longId holder p db1)"
  using assms(1,2)
proof (rule books_change)
  show "rows_at (savePosition longId holder p db1) k = (if k = (longId, lower holder) then rs else rows_at db k)" for k
    using assms(3) by (simp add: rows_at_def savePosition_books(1))
  show "pos_at (savePosition longId holder p db1) k = (if k = (longId, lower holder) then p else pos_at db k)" for k
    using assms(4) by (simp add: savePosition_books(2))
qed

subsection \<open>Consuming and adding lots\<close>

interpretation lots_up: comparator "\<lambda>a b. vlSeq a - vlSeq b" by (rule log_order)

lemma take_lot_in_key: "filter (in_key k) (take_lot rows c) = take_lot (filter (in_key k) rows) c"
  by (induction rows) (auto simp: take_lot_def in_key_def)

lemma take_lots_in_key: "filter (in_key k) (foldl take_lot rows cs) = foldl take_lot (filter (in_key k) rows) cs"
  by (induction cs arbitrary: rows) (simp_all add: take_lot_in_key)

lemma take_lots_other:
  assumes "\<forall>c \<in> set cs. in_key j (cnLot c)" "k \<noteq> j" "\<forall>l \<in> set rows. in_key k l"
  shows "foldl take_lot rows cs = rows"
  using assms
proof (induction cs)
  case (Cons c cs)
  have "take_lot rows c = rows"
    using Cons.prems by (auto simp: take_lot_def lot_key_def in_key_def prod_eq_iff intro!: map_idI)
  with Cons show ?case by simp
qed simp

lemma rows_at_keys: "distinct (map vlSeq (rows_at db k)) \<Longrightarrow> distinct (map lot_key (rows_at db k))"
  by (simp add: distinct_map rows_at_def inj_on_def lot_key_def)

lemma consume_lots_books:
  assumes "books_ok db" "consume_lots longId holder units db = Inr (r, db')"
  shows "\<exists>rs. spends (rows_at db (longId, lower holder)) units (frCost r) (frTransferIn r) rs
    \<and> (\<forall>k. rows_at db' k = (if k = (longId, lower holder) then rs else rows_at db k)) \<and> (\<forall>k. pos_at db' k = pos_at db k)"
proof -
  let ?k = "(longId, lower holder)"
  let ?rs = "rows_at db ?k"
  let ?sel = "by_seq (filter (\<lambda>l. clUnits l > 0) ?rs)"
  let ?cs = "frConsumed r"
  have c: "consumeFifo ?sel units = Inr r" and db': "db' = db\<lparr>pdLots := foldl take_lot (pdLots db) ?cs\<rparr>"
    using assms(2) by (auto simp: consume_lots_def lots_of_def rows_at_def)
  note parts = consumeFifo_parts [OF c]
  have ok: "list_all lot_ok ?rs" "distinct (map vlSeq ?rs)" using assms(1) by (auto simp: books_ok_def book_ok_def)
  then have dk: "distinct (map lot_key ?rs)" by (simp add: rows_at_keys)
  have sub: "\<forall>c \<in> set ?cs. cnLot c \<in> set ?rs"
  proof
    fix c assume "c \<in> set ?cs"
    then have "cnLot c \<in> set ?sel" using parts subseq_facts(1) by fastforce
    then show "cnLot c \<in> set ?rs" by (simp add: by_seq_def)
  qed
  have "distinct (map lot_key ?sel)"
  proof -
    have "mset (map lot_key ?sel) = mset (map lot_key (filter (\<lambda>l. clUnits l > 0) ?rs))" by (simp add: by_seq_def)
    moreover have "distinct (map lot_key (filter (\<lambda>l. clUnits l > 0) ?rs))" using dk by (rule distinct_map_filter)
    ultimately show ?thesis using mset_eq_imp_distinct_iff by blast
  qed
  moreover have "subseq (map lot_key (map cnLot ?cs)) (map lot_key ?sel)" using parts by (intro subseq_map) simp
  ultimately have "distinct (map lot_key (map cnLot ?cs))" by (rule subseq_facts(2) [rotated])
  then have d: "distinct (map (\<lambda>c. lot_key (cnLot c)) ?cs)" by (simp add: o_def)
  have "spends ?rs units (frCost r) (frTransferIn r) (foldl take_lot ?rs ?cs)"
    using take_lots_spend [OF ok(1) dk d _ sub] parts by simp
  moreover have "rows_at db' k = (if k = ?k then foldl take_lot ?rs ?cs else rows_at db k)" for k
  proof (cases "k = ?k")
    case False
    have "foldl take_lot (rows_at db k) ?cs = rows_at db k"
      using sub False by (intro take_lots_other [of _ ?k]) (auto simp: rows_at_def)
    with False show ?thesis by (simp add: db' rows_at_def take_lots_in_key)
  qed (simp add: db' rows_at_def take_lots_in_key)
  moreover have "pos_at db' k = pos_at db k" for k by (simp add: db' pos_at_def)
  ultimately show ?thesis by blast
qed

text \<open>The number of a new lot is fresh: the last of the sorted numbers plus one.\<close>

lemma next_seq_fresh:
  assumes "rs \<noteq> []" "l \<in> set rs"
  shows "vlSeq l \<le> vlSeq (last (by_seq rs))"
proof -
  have ne: "by_seq rs \<noteq> []" using assms(1) by (metis by_seq_def length_0_conv length_js_sort)
  then obtain ys z where split: "by_seq rs = ys @ [z]" by (metis append_butlast_last_id)
  have "l \<in> set (ys @ [z])" using assms(2) by (metis by_seq_def set_js_sort split)
  moreover have "sorted_wrt (\<lambda>a b. vlSeq a - vlSeq b \<le> 0) (ys @ [z])"
    using lots_up.sort_sorted [of rs] unfolding by_seq_def [symmetric] split .
  ultimately show ?thesis by (auto simp: split sorted_wrt_append)
qed

lemma add_lot_books:
  assumes "add_lot longId holder units cost source sid at_ts db = Inr db'"
  shows "\<exists>new. (\<forall>k. rows_at db' k = (if k = (longId, lower holder) then rows_at db k @ [new] else rows_at db k))
    \<and> (\<forall>k. pos_at db' k = pos_at db k) \<and> pdSeries db' = pdSeries db
    \<and> clUnits new = units \<and> clCost new = cost \<and> vlUnits new = units \<and> vlCostUsdg new = cost \<and> clSource new = source
    \<and> 0 < units \<and> 0 \<le> cost \<and> vlSeq new \<notin> vlSeq ` set (rows_at db (longId, lower holder))"
proof -
  let ?rs = "rows_at db (longId, lower holder)"
  let ?seq = "if by_seq ?rs = [] then 0 else vlSeq (last (by_seq ?rs)) + 1"
  let ?new = "\<lparr>clUnits = units, clCost = cost, clSource = source, vlLongId = longId, vlHolder = lower holder, vlSeq = ?seq,
     vlUnits = units, vlCostUsdg = cost, vlAcquiredAt = at_ts, vlSourceId = sid\<rparr>"
  have db': "db' = db\<lparr>pdLots := pdLots db @ [?new]\<rparr>" and pos: "0 < units" "0 \<le> cost"
    using assms by (auto simp: add_lot_def Let_def lots_of_def rows_at_def split: if_splits)
  have fresh: "?seq \<notin> vlSeq ` set ?rs"
  proof
    assume "?seq \<in> vlSeq ` set ?rs"
    then obtain l where l: "l \<in> set ?rs" "vlSeq l = ?seq" by auto
    then have ne: "?rs \<noteq> []" by auto
    then have "by_seq ?rs \<noteq> []" by (metis by_seq_def length_0_conv length_js_sort)
    then show False using next_seq_fresh [OF ne l(1)] l(2) by simp
  qed
  have "rows_at db' k = (if k = (longId, lower holder) then rows_at db k @ [?new] else rows_at db k)" for k
    by (auto simp: db' rows_at_def in_key_def prod_eq_iff)
  moreover have "pos_at db' k = pos_at db k" for k by (simp add: db' pos_at_def)
  ultimately show ?thesis using fresh pos by (intro exI [of _ ?new]) (simp add: db')
qed

subsection \<open>How the totals move with the lots\<close>

lemma with_multiple_rest [simp]:
  "ptUnitsBought (with_multiple p) = ptUnitsBought p" "ptUnitsSold (with_multiple p) = ptUnitsSold p"
  "ptUnitsTransferredOut (with_multiple p) = ptUnitsTransferredOut p" "ptUnitsRedeemed (with_multiple p) = ptUnitsRedeemed p"
  "ptTransferIn (with_multiple p) = ptTransferIn p" "ptTransferredOut (with_multiple p) = ptTransferredOut p"
  by (simp_all add: with_multiple_def split: option.splits)

text \<open>The change of the totals when units of this cost leave, some of them not bought.\<close>

definition moved :: "position_totals \<Rightarrow> int \<Rightarrow> int \<Rightarrow> bool \<Rightarrow> position_totals \<Rightarrow> bool" where
  "moved p units cost gift p' =
     (ptUnitsBought p' = ptUnitsBought p \<and> ptCostUsdg p' = ptCostUsdg p \<and> ptClosedAt p' = ptClosedAt p
      \<and> ptUnitsSold p' + ptUnitsRedeemed p' + ptUnitsTransferredOut p'
          = ptUnitsSold p + ptUnitsRedeemed p + ptUnitsTransferredOut p + units
      \<and> (gift \<or> ptTransferIn p \<longrightarrow> ptTransferIn p')
      \<and> (\<not> ptTransferredOut p' \<longrightarrow> \<not> ptTransferredOut p \<and> ptUnitsTransferredOut p' = ptUnitsTransferredOut p
           \<and> ptProceedsUsdg p' + ptPayoutUsdgValue p' - ptRealisedUsdg p'
               = ptProceedsUsdg p + ptPayoutUsdgValue p - ptRealisedUsdg p + cost)
      \<and> (reachable_position p \<longrightarrow> reachable_position p'))"

lemma spends_seq: "spends rs u c g rs' \<Longrightarrow> map vlSeq rs' = map vlSeq rs"
proof -
  assume "spends rs u c g rs'"
  then have "map (\<lambda>k. snd (snd k)) (map lot_key rs') = map (\<lambda>k. snd (snd k)) (map lot_key rs)" by (simp add: spends_def)
  then show ?thesis by (simp add: lot_key_def o_def)
qed

lemma book_moved:
  assumes "book_ok rs p" "spends rs units cost gift rs'" "moved p units cost gift p'"
  shows "book_ok rs' p'"
proof -
  have "distinct (map vlSeq rs')" using assms(1) spends_seq [OF assms(2)] by (simp add: book_ok_def)
  moreover have "clUnits l = vlUnits l" if "\<not> ptTransferIn p'" "l \<in> set rs'" "clSource l \<noteq> LotFill" for l
    using that assms by (auto simp: spends_def moved_def book_ok_def)
  moreover have "clUnits l = 0" if "ptClosedAt p' \<noteq> None" "l \<in> set rs'" "clSource l = LotFill" for l
  proof -
    obtain l0 where "l0 \<in> set rs" "clSource l = clSource l0" "clUnits l \<le> clUnits l0"
      using assms(2) \<open>l \<in> set rs'\<close> by (force simp: spends_def shrinks_def)
    moreover have "0 \<le> clUnits l" using assms(2) that(2) by (auto simp: spends_def list_all_iff lot_ok_def)
    ultimately show ?thesis using assms(1,3) that by (force simp: book_ok_def moved_def)
  qed
  ultimately show ?thesis using assms by (auto simp: book_ok_def spends_def moved_def)
qed

text \<open>A consumption and the position saved after it keep the books.\<close>

lemma spend_save:
  assumes "books_ok db" "consume_lots longId holder units db = Inr (r, db1)" "position longId holder db1 = (current, db2)"
    "same_books db2 db3" "moved (prTotals current) units (frCost r) (frTransferIn r) p'"
  shows "books_ok (savePosition longId holder p' db3)"
proof -
  let ?k = "(longId, lower holder)"
  from consume_lots_books [OF assms(1,2)] obtain rs where rs: "spends (rows_at db ?k) units (frCost r) (frTransferIn r) rs"
    "\<And>k. rows_at db1 k = (if k = ?k then rs else rows_at db k)" "\<And>k. pos_at db1 k = pos_at db k" by blast
  note b = position_books [OF assms(3)]
  have "book_ok (rows_at db ?k) (prTotals current)" using assms(1) b(1) rs(3) by (simp add: books_ok_def)
  from book_moved [OF this rs(1) assms(5)] have "book_ok rs p'" .
  moreover have "rows_at db3 k = (if k = ?k then rs else rows_at db k)" for k
    using same_books_at [OF assms(4)] rs(2) b(2) by (simp add: rows_at_def)
  moreover have "pos_at db3 k = pos_at db k" for k using same_books_at [OF assms(4)] rs(3) b(3) by simp
  ultimately show ?thesis by (rule save_change [OF assms(1)])
qed

lemma sell_moved: "sellPosition p units proceeds cost gift = Inr q \<Longrightarrow> moved p units cost gift q"
  by (auto simp: moved_def sellPosition_def split: if_splits
      intro: reachable_position.sell [of p units proceeds cost gift, unfolded sellPosition_def])

lemma redeem_moved: "redeemPosition p units payout cost gift = Inr q \<Longrightarrow> moved p units cost gift q"
  by (auto simp: moved_def redeemPosition_def split: if_splits
      intro: reachable_position.redeem [of p units payout cost gift, unfolded redeemPosition_def])

lemma sent_moved:
  assumes "transferOutPosition p units = Inr q"
  shows "moved p units cost gift (if gift then markTransferIn q else q)"
proof -
  have "reachable_position p \<Longrightarrow> reachable_position (if gift then markTransferIn q else q)"
    using reachable_position.transfer_out [OF _ assms] reachable_position.transfer_in by auto
  then show ?thesis using assms by (auto simp: moved_def transferOutPosition_def markTransferIn_def split: if_splits)
qed

text \<open>Adding a lot: bought, or received without a price.\<close>

lemma lot_sums_snoc:
  "spent_units (rs @ [l]) = spent_units rs + (vlUnits l - clUnits l)" "spent_cost (rs @ [l]) = spent_cost rs + (vlCostUsdg l - clCost l)"
  "bought_units (rs @ [l]) = bought_units rs + (if clSource l = LotFill then vlUnits l else 0)"
  "paid_cost (rs @ [l]) = paid_cost rs + vlCostUsdg l"
  by (simp_all add: lot_sums)

definition whole_lot :: "int \<Rightarrow> int \<Rightarrow> lot_source \<Rightarrow> v2_lot list \<Rightarrow> v2_lot \<Rightarrow> bool" where
  "whole_lot units cost source rs l =
     (clUnits l = units \<and> clCost l = cost \<and> vlUnits l = units \<and> vlCostUsdg l = cost \<and> clSource l = source
      \<and> 0 < units \<and> 0 \<le> cost \<and> vlSeq l \<notin> vlSeq ` set rs)"

lemma book_bought:
  assumes "book_ok rs p" "whole_lot units cost LotFill rs l" "buyPosition p units cost selfFill offMarket = Inr q"
  shows "book_ok (rs @ [l]) q"
proof -
  have "reachable_position q" using assms(1) reachable_position.buy [OF _ assms(3)] by (simp add: book_ok_def)
  then show ?thesis using assms by (auto simp: book_ok_def whole_lot_def buyPosition_def lot_sums_snoc lot_ok_def split: if_splits)
qed

lemma book_received:
  assumes "book_ok rs p" "whole_lot units 0 source rs l" "source \<noteq> LotFill" "q = p \<or> q = markTransferIn p"
  shows "book_ok (rs @ [l]) q"
proof -
  have "reachable_position q" using assms(1,4) reachable_position.transfer_in by (auto simp: book_ok_def)
  then show ?thesis using assms by (auto simp: book_ok_def whole_lot_def markTransferIn_def lot_sums_snoc lot_ok_def)
qed

lemma add_save:
  assumes "books_ok db" "add_lot longId holder units cost source sid at_ts db = Inr db1" "position longId holder db1 = (current, db2)"
    "\<And>l. whole_lot units cost source (rows_at db (longId, lower holder)) l \<Longrightarrow>
        book_ok (rows_at db (longId, lower holder) @ [l]) p'"
  shows "books_ok (savePosition longId holder p' db2)"
proof -
  let ?k = "(longId, lower holder)"
  from add_lot_books [OF assms(2)] obtain l where l: "whole_lot units cost source (rows_at db ?k) l"
    "\<And>k. rows_at db1 k = (if k = ?k then rows_at db k @ [l] else rows_at db k)" "\<And>k. pos_at db1 k = pos_at db k"
    unfolding whole_lot_def by blast
  note b = position_books [OF assms(3)]
  have "rows_at db2 k = (if k = ?k then rows_at db ?k @ [l] else rows_at db k)" for k
    using l(2) b(2) by (simp add: rows_at_def)
  moreover have "pos_at db2 k = pos_at db k" for k using l(3) b(3) by simp
  ultimately show ?thesis using save_change [OF assms(1) assms(4) [OF l(1)]] by blast
qed

lemma add_current:
  assumes "add_lot longId holder units cost source sid at_ts db = Inr db1" "position longId holder db1 = (current, db2)"
  shows "prTotals current = pos_at db (longId, lower holder)"
  using add_lot_books [OF assms(1)] position_books(1) [OF assms(2)] by auto

subsection \<open>Every handler keeps the books\<close>

lemma maybeClose_books:
  assumes "books_ok db" "maybeClose env longId holder at_ts tx db = Inr db'"
  shows "books_ok db'"
proof (cases "filter (\<lambda>l. clUnits l > 0) (lots_of longId holder db) = []")
  case True
  let ?k = "(longId, lower holder)"
  obtain current db1 where q: "position longId holder db = (current, db1)" by (metis surj_pair)
  note b = position_books [OF q]
  have one: "books_ok db1" using assms(1) b(2,3) by (simp add: books_ok_def rows_at_def)
  show ?thesis
  proof (cases "db' = db1")
    case False
    then obtain closed where c: "closePosition (prTotals current) at_ts = Inr closed"
      "db' = refreshRanks env holder at_ts
         (db1\<lparr>pdPositions := AList.update ?k (current\<lparr>prTotals := closed, prClosedTx := Some tx\<rparr>) (pdPositions db1)\<rparr>)"
      using assms(2) True q by (auto simp: maybeClose_def Let_def split: if_splits)
    let ?db2 = "db1\<lparr>pdPositions := AList.update ?k (current\<lparr>prTotals := closed, prClosedTx := Some tx\<rparr>) (pdPositions db1)\<rparr>"
    have p: "prTotals current = pos_at db1 ?k" using b(1,3) by simp
    then have ok: "book_ok (rows_at db1 ?k) (prTotals current)" using one by (simp add: books_ok_def)
    have "\<forall>l \<in> set (rows_at db1 ?k). clUnits l \<le> 0"
      using True b(2) by (auto simp: rows_at_def lots_of_def filter_empty_conv)
    moreover have "\<forall>l \<in> set (rows_at db1 ?k). 0 \<le> clUnits l" using ok by (auto simp: book_ok_def list_all_iff lot_ok_def)
    ultimately have "\<forall>l \<in> set (rows_at db1 ?k). clUnits l = 0" by force
    moreover have "reachable_position closed" using ok reachable_position.close [OF _ c(1)] by (simp add: book_ok_def)
    ultimately have "book_ok (rows_at db1 ?k) closed"
      using ok c(1) by (auto simp: book_ok_def closePosition_def split: if_splits)
    then have "books_ok ?db2" by (rule books_change [OF one, of _ _ _ ?k]) (simp_all add: rows_at_def pos_at_def)
    then show ?thesis unfolding c(2) by simp
  qed (use one in simp)
qed (use assms in \<open>simp add: maybeClose_def\<close>)

lemma fill_sale_books:
  assumes "books_ok db" "fill_sale env fill fee selfFill offMarket db = Inr db'"
  shows "books_ok db'"
proof -
  obtain r db1 where c: "consume_lots (tfLongId fill) (tfSeller fill) (tfUnits fill) db = Inr (r, db1)"
    using assms(2) by (auto simp: fill_sale_def)
  obtain current db2 where q: "position (tfLongId fill) (tfSeller fill) db1 = (current, db2)" by (metis surj_pair)
  let ?p = "prTotals current"
  let ?flagged = "?p\<lparr>ptSelfFill := (ptSelfFill ?p \<or> selfFill), ptOffMarket := (ptOffMarket ?p \<or> offMarket)\<rparr>"
  obtain sold where s: "sellPosition ?flagged (tfUnits fill) (sale_proceeds fill fee) (frCost r) (frTransferIn r) = Inr sold"
    and close: "maybeClose env (tfLongId fill) (tfSeller fill) (tfTs fill) (tfTx fill)
        (savePosition (tfLongId fill) (tfSeller fill) sold
          (set_fill (tfId fill) (\<lambda>row. row\<lparr>tfRealisedDelta := Some (sale_proceeds fill fee - frCost r)\<rparr>) db2)) = Inr db'"
    using assms(2) c q by (auto simp: fill_sale_def Let_def)
  have "moved ?p (tfUnits fill) (frCost r) (frTransferIn r) sold"
    using sell_moved [OF s] reachable_position.flag by (simp add: moved_def)
  from spend_save [OF assms(1) c q column_books(1) this] show ?thesis using maybeClose_books close by blast
qed

lemma fill_buy_books:
  assumes "books_ok db" "fill_buy env series fill fee selfFill offMarket db = Inr db'"
  shows "books_ok db'"
proof -
  let ?cost = "buyer_cost fill fee" and ?l = "tfLongId fill" and ?h = "tfBuyer fill"
  have cost: "\<not> ?cost < 0" using assms(2) by (auto simp: fill_buy_def Let_def)
  obtain db1 where a: "add_lot ?l ?h (tfUnits fill) ?cost LotFill (tfId fill) (tfTs fill) db = Inr db1"
    using assms(2) by (auto simp: fill_buy_def Let_def split: if_splits)
  obtain current db2 where q: "position ?l ?h db1 = (current, db2)" by (metis surj_pair)
  let ?needs = "ptUnitsBought (prTotals current) = 0 \<and> prSpotAtEntry current = None"
  obtain spot bought where b: "buyPosition (prTotals current) (tfUnits fill) ?cost selfFill offMarket = Inr bought"
    and db': "db' = (let db3 = savePosition ?l ?h bought db2;
          db4 = (if ?needs then set_spot ?l ?h spot db3 else db3)
        in if ptClosedAt (prTotals current) \<noteq> None then refreshRanks env ?h (tfTs fill) db4 else db4)"
    using assms(2) a q cost by (simp add: fill_buy_def Let_def) blast
  note p = add_current [OF a q]
  have "books_ok (savePosition ?l ?h bought db2)"
  proof (rule add_save [OF assms(1) a q])
    fix l assume "whole_lot (tfUnits fill) ?cost LotFill (rows_at db (?l, lower ?h)) l"
    moreover have "book_ok (rows_at db (?l, lower ?h)) (pos_at db (?l, lower ?h))" using assms(1) by (simp add: books_ok_def)
    ultimately show "book_ok (rows_at db (?l, lower ?h) @ [l]) bought" using book_bought b p by metis
  qed
  then have "books_ok (set_spot ?l ?h spot (savePosition ?l ?h bought db2))" "books_ok (savePosition ?l ?h bought db2)" for spot
    by (simp_all add: books_ok_def rows_at_def set_spot_books)
  then show ?thesis by (simp add: db' Let_def)
qed

lemma handleFill_books:
  assumes "books_ok db" "handleFill env fill fee db = Inr db'"
  shows "books_ok db'"
proof -
  obtain series db1 db2 where s: "same_books db db1"
    "(if \<not> tfPrimary fill then fill_sale env fill fee (lower (tfMaker fill) = lower (tfTaker fill))
        (isOffMarket (tfPrice fill) (priceReference fill db)) db1 else Inr db1) = Inr db2"
    "fill_buy env series fill fee (lower (tfMaker fill) = lower (tfTaker fill)) (isOffMarket (tfPrice fill) (priceReference fill db))
       (if tfPrimary fill then fill_primary env fill fee db2 else db2) = Inr db'"
  proof -
    let ?db1 = "case priceReference fill db of None \<Rightarrow> db | Some v \<Rightarrow> set_fill (tfId fill) (\<lambda>row. row\<lparr>tfFairAtFill := Some v\<rparr>) db"
    have "same_books db ?db1" by (auto simp: column_books split: option.split)
    moreover obtain series where "map_of (pdSeries db) (tfLongId fill) = Some series"
      using assms(2) by (cases "map_of (pdSeries db) (tfLongId fill)") (auto simp: handleFill_def)
    ultimately show thesis using assms(2) that [of ?db1 _ series] by (auto simp: handleFill_def Let_def)
  qed
  have "books_ok db1" using s(1) assms(1) same_books_ok by blast
  then have "books_ok db2" using s(2) fill_sale_books by (auto split: if_splits)
  then have "books_ok (if tfPrimary fill then fill_primary env fill fee db2 else db2)"
    using same_books_ok [OF fill_primary_books] by simp
  then show ?thesis using s(3) fill_buy_books by blast
qed

text \<open>A lot received without a price, the mark of it and the ranks.\<close>

lemma received_books:
  assumes "books_ok db" "add_lot longId holder units 0 source sid ts db = Inr db1" "source \<noteq> LotFill"
    "position longId holder db1 = (previous, db2)"
  shows "books_ok (savePosition longId holder (markTransferIn (prTotals previous)) db2)"
proof (rule add_save [OF assms(1,2,4)])
  let ?k = "(longId, lower holder)"
  fix l assume l: "whole_lot units 0 source (rows_at db ?k) l"
  note p = add_current [OF assms(2,4)]
  have "book_ok (rows_at db ?k) (pos_at db ?k)" using assms(1) by (simp add: books_ok_def)
  from book_received [OF this l assms(3)] show "book_ok (rows_at db ?k @ [l]) (markTransferIn (prTotals previous))" by (simp add: p)
qed

lemma minted_books:
  assumes "books_ok db" "add_lot longId holder units 0 source sid ts db = Inr db1" "source \<noteq> LotFill"
  shows "books_ok db1"
proof -
  let ?k = "(longId, lower holder)"
  from add_lot_books [OF assms(2)] obtain l where l: "whole_lot units 0 source (rows_at db ?k) l"
    "\<And>k. rows_at db1 k = (if k = ?k then rows_at db k @ [l] else rows_at db k)" "\<And>k. pos_at db1 k = pos_at db k"
    unfolding whole_lot_def by blast
  have "book_ok (rows_at db ?k) (pos_at db ?k)" using assms(1) by (simp add: books_ok_def)
  from book_received [OF this l(1) assms(3)] have "book_ok (rows_at db ?k @ [l]) (pos_at db ?k)" by simp
  then show ?thesis by (rule books_change [OF assms(1), of _ _ _ ?k]) (simp_all add: l(2,3))
qed

lemma handleMint_books:
  assumes "books_ok db" "handleMint env mm row db = Inr db'"
  shows "books_ok db'"
proof -
  obtain collateral where *: "(let db1 = writerStats env (tmWriter row) (tmTs row) \<lparr>wdPremium = 0, wdCollateral = collateral, wdAssigned = 0\<rparr> db
      in if tmId row \<in> set mm then Inr db1
         else and_then (add_lot (tmLongId row) (tmLongTo row) (tmUnits row) 0 LotMint (tmId row) (tmTs row) db1) (\<lambda>db2.
                 let (previous, db3) = position (tmLongId row) (tmLongTo row) db2;
                     db4 = savePosition (tmLongId row) (tmLongTo row) (markTransferIn (prTotals previous)) db3
                 in Inr (if ptClosedAt (prTotals previous) \<noteq> None then refreshRanks env (tmLongTo row) (tmTs row) db4 else db4))) = Inr db'"
    using assms(2) by (auto simp: handleMint_def split: option.splits)
  let ?db1 = "writerStats env (tmWriter row) (tmTs row) \<lparr>wdPremium = 0, wdCollateral = collateral, wdAssigned = 0\<rparr> db"
  have one: "books_ok ?db1" using assms(1) by simp
  show ?thesis
  proof (cases "tmId row \<in> set mm")
    case False
    obtain db2 where a: "add_lot (tmLongId row) (tmLongTo row) (tmUnits row) 0 LotMint (tmId row) (tmTs row) ?db1 = Inr db2"
      using * False by (auto simp: Let_def)
    obtain previous db3 where q: "position (tmLongId row) (tmLongTo row) db2 = (previous, db3)" by (metis surj_pair)
    have "books_ok (savePosition (tmLongId row) (tmLongTo row) (markTransferIn (prTotals previous)) db3)"
      by (rule received_books [OF one a _ q]) simp
    then show ?thesis using * False a q by (auto simp: Let_def split: if_splits)
  qed (use * one in \<open>simp add: Let_def\<close>)
qed

lemma transfer_from_books:
  assumes "books_ok db" "transfer_from env row db = Inr db'"
  shows "books_ok db'"
proof -
  let ?l = "tvLongId row" and ?h = "tvFrom row"
  obtain r db1 where c: "consume_lots ?l ?h (tvUnits row) db = Inr (r, db1)" using assms(2) by (auto simp: transfer_from_def)
  obtain previous db2 where q: "position ?l ?h db1 = (previous, db2)" by (metis surj_pair)
  obtain sent where s: "transferOutPosition (prTotals previous) (tvUnits row) = Inr sent"
    and close: "maybeClose env ?l ?h (tvTs row) (tvTx row)
       (if frTransferIn r then (case position ?l ?h (savePosition ?l ?h sent db2) of
            (current, db4) \<Rightarrow> savePosition ?l ?h (markTransferIn (prTotals current)) db4)
        else savePosition ?l ?h sent db2) = Inr db'"
    using assms(2) c q by (auto simp: transfer_from_def Let_def)
  let ?p = "if frTransferIn r then markTransferIn sent else sent"
  have ok: "books_ok (savePosition ?l ?h ?p db2)"
    by (rule spend_save [OF assms(1) c q same_books_refl sent_moved [OF s]])
  show ?thesis
  proof (cases "frTransferIn r")
    case True
    obtain current db4 where q2: "position ?l ?h (savePosition ?l ?h sent db2) = (current, db4)" by (metis surj_pair)
    note b = position_books [OF q2]
    have "books_ok (savePosition ?l ?h (markTransferIn (prTotals current)) db4) = books_ok (savePosition ?l ?h ?p db2)"
      using True b(1-3) by (auto simp: books_ok_def rows_at_def savePosition_books)
    then show ?thesis using ok True close q2 maybeClose_books by auto
  next
    case False
    then show ?thesis using ok close maybeClose_books by auto
  qed
qed

lemma transfer_to_books:
  assumes "books_ok db" "transfer_to env row db = Inr db'"
  shows "books_ok db'"
proof -
  let ?l = "tvLongId row" and ?h = "tvTo row"
  let ?source = "if lower (tvFrom row) = ZERO then LotMint else LotTransfer"
  obtain db1 where a: "add_lot ?l ?h (tvUnits row) 0 ?source (tvId row) (tvTs row) db = Inr db1"
    using assms(2) by (auto simp: transfer_to_def)
  obtain previous db2 where q: "position ?l ?h db1 = (previous, db2)" by (metis surj_pair)
  have src: "?source \<noteq> LotFill" by simp
  have "books_ok db1" "books_ok (savePosition ?l ?h (markTransferIn (prTotals previous)) db2)"
    by (rule minted_books [OF assms(1) a src]) (rule received_books [OF assms(1) a src q])
  then show ?thesis using assms(2) a q
    by (auto simp: transfer_to_def Let_def split: if_splits)
qed

lemma handleTransfer_books:
  assumes "books_ok db" "handleTransfer env mt row db = Inr db'"
  shows "books_ok db'"
proof (cases "tvId row \<in> set mt \<or> tvUnits row = 0 \<or> lower (tvFrom row) = lower (peOrderBook env) \<or> lower (tvTo row) = lower (peOrderBook env)")
  case True
  then show ?thesis using assms by (simp add: handleTransfer_def split: if_splits)
next
  case False
  then obtain db1 where t: "(if lower (tvFrom row) \<noteq> ZERO then transfer_from env row db else Inr db) = Inr db1"
      "(if lower (tvTo row) \<noteq> ZERO then transfer_to env row db1 else Inr db1) = Inr db'"
    using assms(2) by (simp add: handleTransfer_def) blast
  have "books_ok db1"
    using t(1) assms(1) transfer_from_books [of db env row db1] by (cases "lower (tvFrom row) = ZERO") simp_all
  then show ?thesis
    using t(2) transfer_to_books [of db1 env row db'] by (cases "lower (tvTo row) = ZERO") simp_all
qed

lemma handleClose_books:
  assumes "books_ok db" "handleClose env row db = Inr db'"
  shows "books_ok db'"
proof -
  let ?l = "tlLongId row" and ?h = "tlAccount row"
  obtain r db1 where c: "consume_lots ?l ?h (tlUnits row) db = Inr (r, db1)" using assms(2) by (auto simp: handleClose_def)
  obtain previous db2 where q: "position ?l ?h db1 = (previous, db2)" by (metis surj_pair)
  obtain sold where s: "sellPosition (prTotals previous) (tlUnits row) 0 (frCost r) True = Inr sold"
    and close: "maybeClose env ?l ?h (tlTs row) (tlTx row) (savePosition ?l ?h sold (set_close (tlId row) (- frCost r) db2)) = Inr db'"
    using assms(2) c q by (auto simp: handleClose_def Let_def)
  have "moved (prTotals previous) (tlUnits row) (frCost r) (frTransferIn r) sold" using sell_moved [OF s] by (simp add: moved_def)
  from spend_save [OF assms(1) c q column_books(2) this] show ?thesis using maybeClose_books close by blast
qed

lemma handleLongRedemption_books:
  assumes "books_ok db" "handleLongRedemption env row db = Inr db'"
  shows "books_ok db'"
proof -
  let ?l = "tnLongId row" and ?h = "tnHolder row"
  obtain r db1 where c: "consume_lots ?l ?h (tnUnits row) db = Inr (r, db1)" using assms(2) by (auto simp: handleLongRedemption_def)
  obtain previous db2 where q: "position ?l ?h db1 = (previous, db2)" by (metis surj_pair)
  obtain series price payout redeemed where p: "settled_price ?l db1 = Some (series, price)"
    and s: "redeemPosition (prTotals previous) (tnUnits row) payout (frCost r) (frTransferIn r) = Inr redeemed"
    and close: "maybeClose env ?l ?h (tnTs row) (tnTx row)
      (savePosition ?l ?h redeemed (set_redemption (tnId row) (payout - frCost r) db2)) = Inr db'"
    using assms(2) c q by (auto simp: handleLongRedemption_def Let_def split: option.splits)
  from spend_save [OF assms(1) c q column_books(3) redeem_moved [OF s]] show ?thesis using maybeClose_books close by blast
qed

lemma handleShortRedemption_books:
  assumes "books_ok db" "handleShortRedemption env row db = Inr db'"
  shows "books_ok db'"
  using assms by (auto simp: handleShortRedemption_def split: option.splits)

lemma handle_item_books: "books_ok db \<Longrightarrow> handle_item env mt mm fees i db = Inr db' \<Longrightarrow> books_ok db'"
  by (cases i) (auto split: token_side.splits dest: handleFill_books handleMint_books handleTransfer_books handleClose_books
      handleLongRedemption_books handleShortRedemption_books)

lemma item_loop_books: "books_ok db \<Longrightarrow> item_loop env mt mm fees items db = Inr db' \<Longrightarrow> books_ok db'"
  by (induction items arbitrary: db) (auto dest: handle_item_books)

lemma updateSelfTrade_books: "updateSelfTrade env block db = Inr (next, db') \<Longrightarrow> same_books db db'"
  by (auto simp: updateSelfTrade_def same_books_def)

lemma pnl_tick_books:
  assumes "books_ok db" "pnl_tick env number ts db = Inr db'"
  shows "books_ok db'"
proof -
  let ?from = "or_else (pdCursor db) (peStartBlock env - 1)"
  have cursor: "books_ok (d\<lparr>pdCursor := c\<rparr>) = books_ok d" for d c by (rule same_books_ok) (simp add: same_books_def)
  have recorded: "books_ok (recordNextLotExpiry n d) = books_ok d" for n d
    by (rule same_books_ok) (simp add: same_books_def recordNextLotExpiry_def)
  show ?thesis
  proof (cases "number \<le> ?from \<or> pnlTickIsNoop (pdInput db) (pdCursor db) ?from ts")
    case False
    then have "full_tick env ?from number ts db = Inr db'" using assms(2) by (simp add: pnl_tick_def Let_def)
    then obtain mt mm fees block db1 nx db2 where t:
      "item_loop env mt mm fees (tape_items (peCollate env) block) db = Inr db1" "updateSelfTrade env block db1 = Inr (nx, db2)"
      "db' = (recordNextLotExpiry nx db2)\<lparr>pdCursor := Some number\<rparr>"
      by (auto simp: full_tick_def Let_def)
    from item_loop_books [OF assms(1) t(1)] updateSelfTrade_books [OF t(2)] show ?thesis
      by (simp add: t(3) cursor recorded same_books_ok)
  qed (use assms in \<open>auto simp: pnl_tick_def Let_def cursor split: if_splits\<close>)
qed

subsection \<open>Every store the clock can reach\<close>

text \<open>Between two ticks the other handlers write their own tables, never the lots or the positions.\<close>

inductive pnl_reach :: "pnl_env \<Rightarrow> pnl_db \<Rightarrow> bool" for env where
  start: "pdLots db = [] \<Longrightarrow> pdPositions db = [] \<Longrightarrow> pnl_reach env db"
| indexed: "pnl_reach env db \<Longrightarrow> pdLots db' = pdLots db \<Longrightarrow> pdPositions db' = pdPositions db \<Longrightarrow> pnl_reach env db'"
| tick: "pnl_reach env db \<Longrightarrow> pnl_tick env number ts db = Inr db' \<Longrightarrow> pnl_reach env db'"

lemma pnl_reach_books: "pnl_reach env db \<Longrightarrow> books_ok db"
proof (induction rule: pnl_reach.induct)
  case (start db)
  then show ?case
    by (simp add: books_ok_def book_ok_def rows_at_def pos_at_def new_position_def lot_sums emptyPosition_def
        reachable_position.empty [unfolded emptyPosition_def])
next
  case (indexed db db')
  then show ?case using same_books_ok [of db db'] by (simp add: same_books_def)
qed (rule pnl_tick_books)

definition open_units :: "pnl_db \<Rightarrow> int \<times> address \<Rightarrow> int" where
  "open_units db key = sum_list (map clUnits (rows_at db key))"

definition open_cost :: "pnl_db \<Rightarrow> int \<times> address \<Rightarrow> int" where
  "open_cost db key = sum_list (map clCost (rows_at db key))"

definition acquired_units :: "pnl_db \<Rightarrow> int \<times> address \<Rightarrow> int" where
  "acquired_units db key = sum_list (map vlUnits (rows_at db key))"

lemma sum_diff: "sum_list (map (\<lambda>x. f x - g x) xs) = sum_list (map f xs) - sum_list (map g xs)" for f g :: "'a \<Rightarrow> int"
  by (induction xs) simp_all

lemma book_at: "books_ok db \<Longrightarrow> book_ok (rows_at db key) (pos_at db key)"
  unfolding books_ok_def by blast

lemma open_nonneg:
  assumes "books_ok db"
  shows "0 \<le> open_units db key" "0 \<le> open_cost db key"
proof -
  have "lot_ok l" if "l \<in> set (rows_at db key)" for l using book_at [OF assms, of key] that by (simp add: book_ok_def list_all_iff)
  then show "0 \<le> open_units db key" "0 \<le> open_cost db key"
    unfolding open_units_def open_cost_def by (auto simp: lot_ok_def intro!: sum_list_nonneg_map)
qed

text \<open>
  C16: the books of every holder in every series balance after any number of ticks. What was ever received is
  what is still open plus what was sold, redeemed or given away, nothing is open in the negative, and unless units were
  given away the realised result is exactly what came back less the cost of the units that left.
\<close>

theorem pnl_books_balance:
  assumes "pnl_reach env db"
  shows "let p = pos_at db key in
     open_units db key + ptUnitsSold p + ptUnitsRedeemed p + ptUnitsTransferredOut p = acquired_units db key
     \<and> 0 \<le> open_units db key \<and> 0 \<le> open_cost db key
     \<and> (if ptTransferredOut p then True
        else ptRealisedUsdg p = ptProceedsUsdg p + ptPayoutUsdgValue p - (ptCostUsdg p - open_cost db key))"
proof -
  have b: "books_ok db" using pnl_reach_books assms by blast
  then have "book_ok (rows_at db key) (pos_at db key)" by (rule book_at)
  then show ?thesis using open_nonneg [OF b]
    by (auto simp: book_ok_def Let_def lot_sums sum_diff open_units_def open_cost_def acquired_units_def)
qed

lemma untouched_gifts:
  assumes "list_all lot_ok rs" "\<forall>l \<in> set rs. clSource l \<noteq> LotFill \<longrightarrow> clUnits l = vlUnits l"
    "\<forall>l \<in> set rs. clSource l = LotFill \<longrightarrow> clUnits l = 0"
  shows "spent_units rs = bought_units rs \<and> spent_cost rs = paid_cost rs"
proof
  have ok: "lot_ok l" if "l \<in> set rs" for l using assms(1) that by (simp add: list_all_iff)
  show "spent_units rs = bought_units rs"
    unfolding lot_sums using assms(2,3) by (intro arg_cong [of _ _ sum_list] map_cong) auto
  show "spent_cost rs = paid_cost rs"
    unfolding lot_sums using assms(2,3) ok
    by (intro arg_cong [of _ _ sum_list] map_cong) (fastforce simp: lot_ok_def)+
qed

text \<open>
  C7: a win on the leaderboard is money made. Whatever the clock has processed, a position that counts as a win
  has sold or redeemed every unit it ever bought, nothing of what it bought is left in its lots, its result is what came
  back less everything it paid, and that result is positive.
\<close>

theorem pnl_win_is_profit:
  assumes "pnl_reach env db" "isWin (pos_at db key)"
  shows "let p = pos_at db key in
     ptUnitsBought p = ptUnitsSold p + ptUnitsRedeemed p
     \<and> list_all (\<lambda>l. if clSource l = LotFill then clUnits l = 0 else clUnits l = vlUnits l) (rows_at db key)
     \<and> ptRealisedUsdg p = ptProceedsUsdg p + ptPayoutUsdgValue p - ptCostUsdg p \<and> 0 < ptRealisedUsdg p"
proof -
  let ?p = "pos_at db key"
  have b: "book_ok (rows_at db key) ?p" using pnl_reach_books [OF assms(1)] by (rule book_at)
  have win: "ptClosedAt ?p \<noteq> None" "\<not> ptTransferIn ?p" "\<not> ptTransferredOut ?p" "ptCostUsdg ?p < ptProceedsUsdg ?p + ptPayoutUsdgValue ?p"
    using win_facts [of ?p] b assms(2) by (auto simp: book_ok_def)
  then have "spent_units (rows_at db key) = bought_units (rows_at db key) \<and> spent_cost (rows_at db key) = paid_cost (rows_at db key)"
    using b by (intro untouched_gifts) (auto simp: book_ok_def)
  then show ?thesis using b win by (auto simp: book_ok_def Let_def list_all_iff)
qed

subsection \<open>A purchase and its resale\<close>

definition sample_env :: pnl_env where
  "sample_env = \<lparr>peStartBlock = 1, peOrderBook = ''book'', peUsdg = ''usdg'', peProtocolAddresses = [],
     peZone = (\<lambda>_. -18000), peCollate = cmp3, peTrySpot = (\<lambda>_ _ _. Some (False, 0))\<rparr>"

definition sample_fill :: "string \<Rightarrow> address \<Rightarrow> address \<Rightarrow> int \<Rightarrow> int \<Rightarrow> int \<Rightarrow> tape_fill" where
  "sample_fill fid seller buyer premium lg fee =
     \<lparr>tfId = fid, tfLongId = 5, tfMaker = seller, tfTaker = buyer, tfRecipient = buyer, tfUnits = 10, tfPrice = premium * 10,
      tfPremium = premium, tfSellerFee = fee, tfMakerRebate = 0, tfPrimary = False, tfTakerIsBuyer = True, tfBuyer = buyer,
      tfSeller = seller, tfFairAtFill = None, tfRealisedDelta = None, tfTs = 1003, tfBlock = 3, tfLogIndex = lg, tfTx = fid\<rparr>"

text \<open>\<open>w\<close> receives twelve units and sells \<open>a\<close> ten of them; \<open>a\<close> sells its ten to \<open>b\<close>.\<close>

definition sample_transfer :: "string \<Rightarrow> address \<Rightarrow> address \<Rightarrow> int \<Rightarrow> int \<Rightarrow> string \<Rightarrow> tape_transfer" where
  "sample_transfer tid from to units lg tx =
     \<lparr>tvId = tid, tvLongId = 5, tvFrom = from, tvTo = to, tvUnits = units, tvTs = 1003, tvBlock = 3, tvLogIndex = lg, tvTx = tx\<rparr>"

definition sample_take :: "string \<Rightarrow> address \<Rightarrow> int \<Rightarrow> int \<Rightarrow> tape_take" where
  "sample_take tx taker premium lg =
     \<lparr>ttCall = \<lparr>tcTx = tx, tcLongId = 5, tcTaker = taker, tcBuying = True, tcUnits = 10, tcPremium = premium, tcTakerFee = 0,
       tcLogIndex = lg\<rparr>, ttBlock = 3\<rparr>"

definition sample_db :: pnl_db where
  "sample_db = \<lparr>pdCursor = None, pdInput = None,
     pdSeries = [(5, \<lparr>tsUnderlying = ''u'', tsIsPut = False, tsStrike = 100, tsExpiry = 9000, tsOracle = ''o'', tsSettlementPrice = None\<rparr>)],
     pdFills = [sample_fill ''f1'' ''w'' ''a'' 200000 2 0, sample_fill ''f2'' ''a'' ''b'' 500000 5 50],
     pdTakes = [sample_take ''f1'' ''a'' 200000 3, sample_take ''f2'' ''b'' 500000 6],
     pdTransfers = [sample_transfer ''t0'' ZERO ''w'' 12 0 ''t0'', sample_transfer ''t1'' ''book'' ''a'' 10 1 ''f1'',
       sample_transfer ''t2'' ''book'' ''b'' 10 4 ''f2''],
     pdMints = [], pdCloses = [], pdRedemptions = [], pdCashFlows = [], pdAccounts = [],
     pdLots = [], pdPositions = [], pdLeaderboard = [],
     pdWriterStats = [], pdSeriesPremium = [], pdStLinks = [], pdStLots = [], pdStMakers = [], pdStUnseen = []\<rparr>"

text \<open>Evaluating \<open>lower\<close> on the bits of a character.\<close>

lemma lower_char_bits [code]:
  "lower_char (Char b0 b1 b2 b3 b4 b5 b6 b7) =
     (if \<not> b7 \<and> b6 \<and> \<not> b5 \<and> (b0 \<or> b1 \<or> b2 \<or> b3 \<or> b4) \<and> \<not> (b4 \<and> b3 \<and> (b2 \<or> b1 \<and> b0))
      then Char b0 b1 b2 b3 b4 True b6 b7 else Char b0 b1 b2 b3 b4 b5 b6 b7)"
  by (cases b0; cases b1; cases b2; cases b3; cases b4; cases b5; cases b6; cases b7; simp add: lower_char_def Let_def char_of_def bit_0)

lemma and_then_cong: "r = r' \<Longrightarrow> and_then r k = and_then r' k" by simp

lemma sample_windows: "windowStarts (\<lambda>_. -18000) 1003 = [(Week, -241200), (Month, -2660400), (AllTime, 0)]" by code_simp

lemma sample_lowers: "lower ''w'' = ''w''" "lower ''a'' = ''a''" "lower ''b'' = ''b''" "lower ''book'' = ''book''" "lower ZERO = ZERO" by code_simp+

lemma sample_zero: "ZERO \<noteq> ''w''" "ZERO \<noteq> ''a''" "ZERO \<noteq> ''b''" "ZERO \<noteq> ''book''" by (simp_all add: ZERO_def)

lemmas sample_transfers = or_raise_def handleTransfer_def transfer_to_def add_lot_def lots_of_def by_seq_def in_key_def
  sample_lowers sample_zero sample_zero [symmetric] sample_env_def Let_def

lemmas sample_fills = sample_transfers sample_fill_def sample_transfer_def handleFill_def fill_sale_def fill_buy_def consume_lots_def consumeFifo_def take_lot_def lot_key_def
  position_def savePosition_def maybeClose_def new_position_def emptyPosition_def sale_proceeds_def buyer_cost_def set_fill_def set_spot_def
  spotAtFill_def isOffMarket_def sellPosition_def buyPosition_def closePosition_def with_multiple_def multiple_ppm_def pad_start_def
  and_then_def

lemmas sample_ranks = refreshRanks_def sample_windows rank_window_step_def closed_by_def rank_row_def rankTotals_def rank_order_def rank_step_def no_ranks_def won_def positionId_def

lemma sample_loop: "\<exists>d. item_loop sample_env [''t1'', ''t2''] [] [(''f1'', 0), (''f2'', 0)]
   [ItTransfer (sample_transfer ''t0'' ZERO ''w'' 12 0 ''t0''), ItTransfer (sample_transfer ''t1'' ''book'' ''a'' 10 1 ''f1''),
     ItFill (sample_fill ''f1'' ''w'' ''a'' 200000 2 0), ItTransfer (sample_transfer ''t2'' ''book'' ''b'' 10 4 ''f2''),
     ItFill (sample_fill ''f2'' ''a'' ''b'' 500000 5 50)] sample_db = Inr d \<and> isWin (pos_at d (5, ''a''))
     \<and> pdAccounts d = [] \<and> pdStLots d = [] \<and> pdCashFlows d = []"
  by (simp only: item_loop.simps handle_item.simps)
    (simp add: sample_fills sample_ranks sample_db_def priceReference_def nearbyVwap_def counts_nearby_def isWin_def isExcludedFromLeaderboard_def pos_at_def get_or_def
   cong: let_weak_cong and_then_cong prod.case_cong_weak sum.case_cong_weak option.case_cong_weak)

definition sample_rows :: block_rows where "sample_rows = read_rows 0 3 1003 sample_db"

lemma sample_items: "tape_items cmp3 (sample_rows\<lparr>brMatchedTransfers := mt, brMatchedMints := mm\<rparr>) = 
   [ItTransfer (sample_transfer ''t0'' ZERO ''w'' 12 0 ''t0''), ItTransfer (sample_transfer ''t1'' ''book'' ''a'' 10 1 ''f1''),
     ItFill (sample_fill ''f1'' ''w'' ''a'' 200000 2 0), ItTransfer (sample_transfer ''t2'' ''book'' ''b'' 10 4 ''f2''),
     ItFill (sample_fill ''f2'' ''a'' ''b'' 500000 5 50)]"
  by (simp add: sample_rows_def read_rows_def sample_db_def tape_items_def item_order_def sample_transfer_def sample_fill_def cmp_or_def)

lemma sample_matched: "matchDeliveries (map delivered_transfer (brTransfers sample_rows)) (map delivered_fill (brFills sample_rows))
    (map delivered_mint (brMints sample_rows)) (tape_exits (brCloses sample_rows) (brRedemptions sample_rows)) ''book'' = Inr ([''t1'', ''t2''], [])"
  by code_simp

lemma sample_charged: "matchTakeFees (map charged_fill (brFills sample_rows)) (map ttCall (pdTakes sample_db)) = Inr [(''f1'', 0), (''f2'', 0)]"
  by code_simp

lemma self_trade_total:
  assumes "pdStLots db = []" "pdAccounts db = []" "pdCashFlows db = []" "brFrom block < brThrough block" "list_all (\<lambda>e. 0 \<le> evUnits e) (self_trade_events block)"
  shows "\<exists>nx db'. updateSelfTrade env block db = Inr (nx, db')"
proof -
  let ?state = "stored_self_trade (brFrom block) db" and ?batch = "self_trade_batch env block [] db"
  have ev: "stored_evidence (brFrom block) (brThrough block) db = Inr []" using assms(2,3) by (simp add: stored_evidence_def indexedSelfTradeLinks_def)
  have ok: "state_ok ?state" "stCursor ?state < sbThrough ?batch" "list_all (\<lambda>e. 0 \<le> evUnits e) (range_events (peCollate env) (stCursor ?state) ?batch)"
    using assms by (auto simp: state_ok_def stored_self_trade_def self_trade_batch_def range_events_def list_all_iff)
  obtain next' where "reduceSelfTrade (peCollate env) ?state ?batch = Inr next'" using counts_of [OF ok] by blast
  then show ?thesis by (simp add: updateSelfTrade_def ev)
qed

lemma sample_tick: "\<exists>db. pnl_tick sample_env 3 1003 sample_db = Inr db \<and> isWin (pos_at db (5, ''a''))"
proof -
  obtain d where d: "item_loop sample_env [''t1'', ''t2''] [] [(''f1'', 0), (''f2'', 0)]
      (tape_items cmp3 (sample_rows\<lparr>brMatchedTransfers := [''t1'', ''t2''], brMatchedMints := []\<rparr>)) sample_db = Inr d"
    "isWin (pos_at d (5, ''a''))" "pdAccounts d = []" "pdStLots d = []" "pdCashFlows d = []"
    unfolding sample_items using sample_loop by blast
  let ?block = "sample_rows\<lparr>brMatchedTransfers := [''t1'', ''t2''], brMatchedMints := []\<rparr>"
  obtain nx d2 where s: "updateSelfTrade sample_env ?block d = Inr (nx, d2)"
    using self_trade_total [of d ?block sample_env] d(3-5)
    by (auto simp: sample_rows_def read_rows_def sample_db_def self_trade_events_def sample_fill_def sample_transfer_def
      fill_st_event_def transfer_st_event_def)
  have t: "filter (\<lambda>row. ttBlock row > 0 \<and> ttBlock row \<le> 3) (pdTakes sample_db) = pdTakes sample_db"
    by (simp add: sample_db_def sample_take_def)
  have "full_tick sample_env 0 3 1003 sample_db = Inr ((recordNextLotExpiry nx d2)\<lparr>pdCursor := Some 3\<rparr>)"
    using sample_matched sample_charged d(1) s by (simp add: full_tick_def Let_def t sample_rows_def [symmetric] sample_env_def)
  moreover have "pnl_tick sample_env 3 1003 sample_db = full_tick sample_env 0 3 1003 sample_db"
    by (simp add: pnl_tick_def sample_db_def sample_env_def pnlTickIsNoop_def)
  moreover have "pos_at ((recordNextLotExpiry nx d2)\<lparr>pdCursor := Some 3\<rparr>) = pos_at d"
    using updateSelfTrade_books [OF s] by (simp add: fun_eq_iff pos_at_def recordNextLotExpiry_def same_books_def)
  ultimately show ?thesis using d(2) by auto
qed

lemma sample_reach: "\<exists>db. pnl_reach sample_env db \<and> isWin (pos_at db (5, ''a''))"
proof -
  have "pnl_reach sample_env sample_db" by (rule pnl_reach.start) (simp_all add: sample_db_def)
  then show ?thesis using sample_tick pnl_reach.tick by blast
qed

theorem pnl_books_balance_witness:
  "\<exists>db. pnl_reach sample_env db \<and> isWin (pos_at db (5, ''a'')) \<and> 0 \<le> open_units db (5, ''a'')"
  using sample_reach pnl_books_balance [of sample_env _ "(5, ''a'')"] by (auto simp: Let_def)

theorem pnl_win_is_profit_witness:
  "\<exists>db. pnl_reach sample_env db \<and> isWin (pos_at db (5, ''a'')) \<and> 0 < ptRealisedUsdg (pos_at db (5, ''a''))"
  using sample_reach pnl_win_is_profit [of sample_env _ "(5, ''a'')"] by (auto simp: Let_def)

end
