(* ===== verification/PnlSkip.thy ===== *)
theory PnlSkip
  imports PnlTape
begin

section \<open>Skipping a tick (indexer/src/v2/pnlInput.ts)\<close>

text \<open>
  The profit-and-loss clock skips a tick when \<open>pnlTickIsNoop\<close> says so. Here the skip is compared with the tick it
  replaces: over a range without a row, and over tables a full tick has left, the full tick changes the cursor and
  nothing else.
\<close>

subsection \<open>Expiries\<close>

definition open_expiries :: "st_lot list \<Rightarrow> (int \<times> int) list \<Rightarrow> int list" where
  "open_expiries lots expiries =
     map (\<lambda>l. the (map_of (map_from expiries) (loLongId l)))
       (filter (\<lambda>l. loRemaining l \<noteq> 0 \<and> map_of (map_from expiries) (loLongId l) \<noteq> None) lots)"

lemma next_expiry_fold:
  "foldl (\<lambda>next lot.
        if loRemaining lot = 0 then next
        else case map_of (map_from expiries) (loLongId lot) of
               None \<Rightarrow> next
             | Some expiry \<Rightarrow> (case next of None \<Rightarrow> Some expiry | Some n \<Rightarrow> if expiry < n then Some expiry else next)) acc lots
   = (case acc of None \<Rightarrow> (if open_expiries lots expiries = [] then None else Some (js_min (open_expiries lots expiries)))
      | Some n \<Rightarrow> Some (foldl min n (open_expiries lots expiries)))"
proof (induction lots arbitrary: acc)
  case (Cons l lots)
  then show ?case
    by (cases "map_of (map_from expiries) (loLongId l)"; cases acc)
      (auto simp: open_expiries_def js_min_def min_absorb1 min_absorb2 split: list.splits)
qed (simp add: open_expiries_def split: option.splits)

text \<open>The recorded expiry is the least one of the open lots with a known series, whatever their order.\<close>

lemma next_expiry: "nextOpenLotExpiry lots expiries =
    (if open_expiries lots expiries = [] then None else Some (Min (set (open_expiries lots expiries))))"
proof (cases "open_expiries lots expiries = []")
  case False
  have "js_min (open_expiries lots expiries) = Min (set (open_expiries lots expiries))"
    using js_min_le js_min_in [OF False] False by (intro Min_eqI [symmetric]) auto
  with False show ?thesis by (simp add: nextOpenLotExpiry_def next_expiry_fold)
qed (simp add: nextOpenLotExpiry_def next_expiry_fold)

lemma open_expiries_mset: "mset ls = mset ls' \<Longrightarrow> set (open_expiries ls expiries) = set (open_expiries ls' expiries)"
  using mset_eq_setD [of ls ls'] by (auto simp: open_expiries_def image_iff)

lemma next_expiry_mset: "mset ls = mset ls' \<Longrightarrow> nextOpenLotExpiry ls expiries = nextOpenLotExpiry ls' expiries"
  using open_expiries_mset [of ls ls' expiries] by (simp add: next_expiry) (metis set_empty)

lemma no_expiry:
  assumes "case nextOpenLotExpiry lots expiries of None \<Rightarrow> True | Some e \<Rightarrow> ts < e"
  shows "expire_lots (map_from expiries) ts None lots = lots"
proof -
  have early: "ts < e" if "l \<in> set lots" "loRemaining l \<noteq> 0" "map_of (map_from expiries) (loLongId l) = Some e" for l e
  proof -
    have "e \<in> set (open_expiries lots expiries)" using that by (force simp: open_expiries_def image_iff)
    then show ?thesis using assms by (auto simp: next_expiry split: if_splits)
  qed
  show ?thesis unfolding expire_lots_def
    by (rule map_idI) (auto split: option.split dest: early)
qed

subsection \<open>A range without events leaves the measurement as it was\<close>

lemma foldl_same: "(\<And>x. x \<in> set xs \<Longrightarrow> f a x = a) \<Longrightarrow> foldl f a xs = a"
  by (induction xs) simp_all

lemma update_fresh: "k \<notin> fst ` set m \<Longrightarrow> AList.update k v m = m @ [(k, v)]"
  by (induction m) auto

lemma fold_update_fresh:
  assumes "distinct (map key rows)" "key ` set rows \<inter> fst ` set m = {}"
  shows "foldl (\<lambda>m row. AList.update (key row) (g row (get_or m (key row) d)) m) m rows = m @ map (\<lambda>row. (key row, g row d)) rows"
  using assms
proof (induction rows arbitrary: m)
  case (Cons row rows)
  have fresh: "key row \<notin> fst ` set m" using Cons.prems(2) by auto
  then have "AList.update (key row) (g row (get_or m (key row) d)) m = m @ [(key row, g row d)]"
    by (simp add: update_fresh get_or_absent)
  then show ?case using Cons.IH [of "m @ [(key row, g row d)]"] Cons.prems by auto
qed simp

definition pair_id :: "string list \<Rightarrow> string \<times> string \<Rightarrow> string option" where
  "pair_id excluded raw =
     (let left = lower (fst raw); right = lower (snd raw)
      in if left = right \<or> left \<in> set excluded \<or> right \<in> set excluded then None
         else Some (if left < right then left @ '':'' @ right else right @ '':'' @ left))"

lemma update_in: "(k, e) \<in> set (AList.update i v m) \<Longrightarrow> (k, e) \<in> set m \<or> (k = i \<and> e = v)"
  by (induction m) (auto split: if_splits)

lemma add_link_ids:
  assumes "add_link excluded raw g = Some g'" "\<forall>(k, e) \<in> set (lkEdges g). slId e = k"
  shows "(\<forall>(k, e) \<in> set (lkEdges g'). slId e = k) \<and> fst ` set (lkEdges g') \<subseteq> fst ` set (lkEdges g) \<union> set_option (pair_id excluded raw)"
proof -
  let ?left = "lower (fst raw)" and ?right = "lower (snd raw)"
  have upd: "(\<forall>(k, e) \<in> set (AList.update i \<lparr>slId = i, slLeft = a, slRight = b\<rparr> (lkEdges g)). slId e = k)" for i a b
  proof clarify
    fix k e assume "(k, e) \<in> set (AList.update i \<lparr>slId = i, slLeft = a, slRight = b\<rparr> (lkEdges g))"
    then have "(k, e) \<in> set (lkEdges g) \<or> (k = i \<and> e = \<lparr>slId = i, slLeft = a, slRight = b\<rparr>)"
      by (rule update_in)
    then show "slId e = k" using assms(2) by auto
  qed
  show ?thesis
  proof (cases "?left = ?right \<or> ?left \<in> set excluded \<or> ?right \<in> set excluded")
    case True
    then show ?thesis using assms by (auto simp: add_link_def Let_def)
  next
    case False
    let ?i = "if ?left < ?right then ?left @ '':'' @ ?right else ?right @ '':'' @ ?left"
    obtain a b where "lkEdges g' = AList.update ?i \<lparr>slId = ?i, slLeft = a, slRight = b\<rparr> (lkEdges g)"
      using assms(1) False by (auto simp: add_link_def Let_def bind_eq_Some_conv split: if_splits)
    then show ?thesis using upd [of ?i a b] False by (auto simp: keys_update pair_id_def Let_def)
  qed
qed

lemma add_links_ids:
  assumes "add_links excluded ps g = Some g'" "\<forall>(k, e) \<in> set (lkEdges g). slId e = k"
  shows "(\<forall>(k, e) \<in> set (lkEdges g'). slId e = k)
    \<and> fst ` set (lkEdges g') \<subseteq> fst ` set (lkEdges g) \<union> (\<Union>p \<in> set ps. set_option (pair_id excluded p))"
  using assms
proof (induction ps arbitrary: g)
  case (Cons p ps)
  then obtain g1 where g1: "add_link excluded p g = Some g1" "add_links excluded ps g1 = Some g'" by (auto simp: bind_eq_Some_conv)
  note one = add_link_ids [OF g1(1) Cons.prems(2)]
  note rest = Cons.IH [OF g1(2) conjunct1 [OF one]]
  have "fst ` set (lkEdges g') \<subseteq> fst ` set (lkEdges g) \<union> (\<Union>q \<in> set (p # ps). set_option (pair_id excluded q))"
    using order_trans [OF conjunct2 [OF rest] Un_mono [OF conjunct2 [OF one] order_refl]] by (simp add: Un_assoc)
  with rest show ?case by blast
qed auto

definition evidence_pairs :: "link_evidence list \<Rightarrow> (string \<times> string) list" where
  "evidence_pairs evidence = map (\<lambda>l. (leLeft l, leRight l)) evidence"

definition link_pairs :: "self_link list \<Rightarrow> (string \<times> string) list" where
  "link_pairs links = map (\<lambda>l. (slLeft l, slRight l)) links"

definition series_expiries :: "pnl_db \<Rightarrow> (int \<times> int) list" where
  "series_expiries db = map (\<lambda>(longId, s). (longId, tsExpiry s)) (pdSeries db)"

text \<open>
  The measurement's tables as a full tick leaves them: the ids and keys of a table are distinct and lower-case, and
  every pair of wallets the stored links or the evidence join has its link.
\<close>

definition measured :: "pnl_env \<Rightarrow> link_evidence list \<Rightarrow> pnl_db \<Rightarrow> bool" where
  "measured env evidence db =
     (distinct (map loId (pdStLots db))
      \<and> list_all (\<lambda>l. keyed_lot l = l \<and> 0 \<le> loRemaining l \<and> loRemaining l \<le> loUnits l) (pdStLots db)
      \<and> distinct (map fst (pdStMakers db)) \<and> list_all (\<lambda>kr. lower (fst kr) = fst kr) (pdStMakers db)
      \<and> distinct (map fst (pdStUnseen db))
      \<and> list_all (\<lambda>p. set_option (pair_id (excluded_of (peProtocolAddresses env)) p) \<subseteq> set (map slId (pdStLinks db)))
          (link_pairs (pdStLinks db) @ evidence_pairs evidence))"

lemma store_links_same: "\<forall>row \<in> set rows. slId row \<in> set oldIds \<Longrightarrow> store_links oldIds rows table = table"
  by (induction rows) simp_all

lemma find_distinct: "distinct (map loId ls) \<Longrightarrow> row \<in> set ls \<Longrightarrow> List.find (\<lambda>l. loId l = loId row) ls = Some row"
  by (induction ls) (auto simp: image_iff)

lemma store_lots_same:
  assumes "distinct (map loId old)" "\<forall>row \<in> set rows. row \<in> set old"
  shows "store_lots old rows table = table"
  using assms(2)
proof (induction rows)
  case (Cons row rows)
  have "List.find (\<lambda>l. loId l = loId row) (rev old) = Some row"
    using assms(1) Cons.prems by (intro find_distinct) (simp_all add: rev_map [symmetric])
  then show ?case using Cons by simp
qed simp

lemma store_makers_same:
  assumes "distinct (map fst stored)" "list_all (\<lambda>kr. lower (fst kr) = fst kr) stored"
    "\<forall>row \<in> set rows. \<exists>m r. (m, r) \<in> set stored \<and> smWriter row = m \<and> smUnits row = muUnits r"
  shows "store_makers through ts rows stored = stored"
proof -
  have low: "map (\<lambda>(m, u). (lower m, u)) stored = stored" using assms(2) by (intro map_idI) (auto simp: list_all_iff)
  have d: "distinct (map fst (rev stored))" using assms(1) by (simp add: rev_map [symmetric])
  have "map_option muUnits (map_of (rev stored) (smWriter row)) = Some (smUnits row)" if "row \<in> set rows" for row
  proof -
    obtain m r where "(m, r) \<in> set (rev stored)" "smWriter row = m" "smUnits row = muUnits r" using assms(3) \<open>row \<in> set rows\<close> by auto
    then show ?thesis using map_of_is_SomeI [OF d] by simp
  qed
  then show ?thesis unfolding store_makers_def low by (intro foldl_same) simp
qed

lemma store_unseen_same:
  assumes "distinct (map fst stored)"
    "\<forall>row \<in> set rows. \<exists>r. (suReason row, r) \<in> set stored \<and> suUnits row = uuUnits r \<and> suFills row = uuFills r"
  shows "store_unseen through ts rows stored = stored"
  unfolding store_unseen_def
proof (rule foldl_same)
  fix row assume "row \<in> set rows"
  then obtain r where "(suReason row, r) \<in> set stored" "suUnits row = uuUnits r" "suFills row = uuFills r" using assms(2) by blast
  then show "(if case map_of stored (suReason row) of None \<Rightarrow> False
            | Some previous \<Rightarrow> uuUnits previous = suUnits row \<and> uuFills previous = suFills row
        then stored else AList.update (suReason row)
          \<lparr>uuUnits = suUnits row, uuFills = suFills row, uuUpdatedAt = ts, uuUpdatedBlock = through\<rparr> stored) = stored"
    using map_of_is_SomeI [OF assms(1)] by simp
qed

lemma carried_makers_same:
  assumes "distinct (map fst stored)" "list_all (\<lambda>kr. lower (fst kr) = fst kr) stored"
  shows "carried_makers (map (\<lambda>(maker, row). \<lparr>smWriter = maker, smUnits = muUnits row\<rparr>) stored) = map (\<lambda>(m, r). (m, muUnits r)) stored"
proof -
  define rows where "rows = map (\<lambda>(maker, row). \<lparr>smWriter = maker, smUnits = muUnits row\<rparr>) stored"
  have k: "map (\<lambda>row. lower (smWriter row)) rows = map fst stored" using assms(2) by (auto simp: rows_def list_all_iff)
  have d: "distinct (map (\<lambda>row. lower (smWriter row)) rows)" unfolding k by (rule assms(1))
  have "carried_makers rows = map (\<lambda>row. (lower (smWriter row), smUnits row)) rows"
    unfolding carried_makers_def using fold_update_fresh [OF d, of "[]" "\<lambda>row v. v + smUnits row" 0] by simp
  then show ?thesis using assms(2) by (auto simp: rows_def list_all_iff)
qed

lemma carried_unseen_same:
  assumes "distinct (map fst stored)"
  shows "carried_unseen (map (\<lambda>(reason, row). \<lparr>suReason = reason, suUnits = uuUnits row, suFills = uuFills row\<rparr>) stored)
    = map (\<lambda>(r, u). (r, (uuUnits u, uuFills u))) stored"
proof -
  define rows where "rows = map (\<lambda>(reason, row). \<lparr>suReason = reason, suUnits = uuUnits row, suFills = uuFills row\<rparr>) stored"
  have k: "map suReason rows = map fst stored" by (auto simp: rows_def)
  have d: "distinct (map suReason rows)" unfolding k by (rule assms)
  have "carried_unseen rows = map (\<lambda>row. (suReason row, (suUnits row, suFills row))) rows"
    unfolding carried_unseen_def Let_def
    using fold_update_fresh [OF d, of "[]" "\<lambda>row v. (fst v + suUnits row, snd v + suFills row)" "(0, 0)"] by simp
  then show ?thesis by (auto simp: rows_def)
qed

lemma measurement_unchanged:
  assumes "measured env evidence db" "self_trade_events block = []" "brFrom block < brThrough block"
    "stored_evidence (brFrom block) (brThrough block) db = Inr evidence"
    "case nextOpenLotExpiry (pdStLots db) (series_expiries db) of None \<Rightarrow> True | Some e \<Rightarrow> brThroughTimestamp block < e"
  shows "updateSelfTrade env block db = Inr (nextOpenLotExpiry (pdStLots db) (series_expiries db), db)"
proof -
  let ?state = "stored_self_trade (brFrom block) db" and ?batch = "self_trade_batch env block evidence db"
  let ?ex = "excluded_of (peProtocolAddresses env)" and ?coll = "peCollate env"
  let ?expiries = "map_from (series_expiries db)"
  have ms: "distinct (map loId (pdStLots db))" "list_all (\<lambda>l. keyed_lot l = l \<and> 0 \<le> loRemaining l \<and> loRemaining l \<le> loUnits l) (pdStLots db)"
    "distinct (map fst (pdStMakers db))" "list_all (\<lambda>kr. lower (fst kr) = fst kr) (pdStMakers db)" "distinct (map fst (pdStUnseen db))"
    using assms(1) by (simp_all add: measured_def)
  have ok: "state_ok ?state" using ms(2) by (simp add: state_ok_def stored_self_trade_def list_all_iff)
  have none: "range_events ?coll (brFrom block) ?batch = []"
    using assms(2) by (simp add: range_events_def self_trade_batch_def)
  have pairs: "batch_links ?coll ?state ?batch = link_pairs (pdStLinks db) @ evidence_pairs evidence"
    using none by (simp add: batch_links_def stored_self_trade_def self_trade_batch_def link_pairs_def evidence_pairs_def)
  obtain graph where g: "add_links ?ex (batch_links ?coll ?state ?batch) \<lparr>lkEdges = [], lkParent = []\<rparr> = Some graph"
    using start_run_ok [OF ok] by metis
  let ?r = "start_run graph ?state"
  let ?next = "finish_run ?coll ?expiries ?batch graph ?r"
  have red: "reduceSelfTrade ?coll ?state ?batch = Inr ?next"
    using g none assms(3)
    by (simp add: reduceSelfTrade_def Let_def stored_self_trade_def self_trade_batch_def series_expiries_def)
  have keyed: "map keyed_lot (pdStLots db) = pdStLots db" using ms(2) by (intro map_idI) (auto simp: list_all_iff)
  have lots: "stLots ?next = js_sort (compareLots ?coll) (pdStLots db)"
    using no_expiry [OF assms(5)]
    by (simp add: finish_run_def start_run_def stored_self_trade_def self_trade_batch_def keyed)
  have links: "\<forall>row \<in> set (stLinks ?next). slId row \<in> set (map slId (pdStLinks db))"
  proof
    fix row assume "row \<in> set (stLinks ?next)"
    then obtain k where k: "(k, row) \<in> set (lkEdges graph)" by (auto simp: finish_run_def)
    note ids = add_links_ids [OF g, simplified]
    have "slId row = k" using ids k by blast
    moreover obtain p where "p \<in> set (batch_links ?coll ?state ?batch)" "k \<in> set_option (pair_id ?ex p)"
      using ids k by (metis (no_types, lifting) UN_E fst_conv image_eqI subsetD)
    moreover have "set_option (pair_id ?ex p) \<subseteq> set (map slId (pdStLinks db))" if "p \<in> set (batch_links ?coll ?state ?batch)" for p
      using assms(1) that unfolding pairs measured_def list_all_iff by blast
    ultimately show "slId row \<in> set (map slId (pdStLinks db))" by blast
  qed
  have makers: "\<forall>row \<in> set (stMakers ?next). \<exists>m r. (m, r) \<in> set (pdStMakers db) \<and> smWriter row = m \<and> smUnits row = muUnits r"
  proof
    have r: "rnMakers ?r = map (\<lambda>(m, r). (m, muUnits r)) (pdStMakers db)"
      by (simp add: start_run_def stored_self_trade_def carried_makers_same [OF ms(3,4)])
    fix row assume "row \<in> set (stMakers ?next)"
    then have "row \<in> (\<lambda>(w, u). \<lparr>smWriter = w, smUnits = u\<rparr>) ` set (rnMakers ?r)" by (simp add: finish_run_def)
    then show "\<exists>m r. (m, r) \<in> set (pdStMakers db) \<and> smWriter row = m \<and> smUnits row = muUnits r" unfolding r by force
  qed
  have unseen: "\<forall>row \<in> set (or_else (stUnseen ?next) []). \<exists>r. (suReason row, r) \<in> set (pdStUnseen db)
      \<and> suUnits row = uuUnits r \<and> suFills row = uuFills r"
  proof
    have r: "rnUnseen ?r = map (\<lambda>(r, u). (r, (uuUnits u, uuFills u))) (pdStUnseen db)"
      by (simp add: start_run_def stored_self_trade_def carried_unseen_same [OF ms(5)])
    fix row assume "row \<in> set (or_else (stUnseen ?next) [])"
    then have "row \<in> (\<lambda>(reason, u, n). \<lparr>suReason = reason, suUnits = u, suFills = n\<rparr>) ` set (rnUnseen ?r)" by (simp add: finish_run_def)
    then show "\<exists>r. (suReason row, r) \<in> set (pdStUnseen db) \<and> suUnits row = uuUnits r \<and> suFills row = uuFills r" unfolding r by force
  qed
  have next_e: "nextOpenLotExpiry (stLots ?next) (series_expiries db) = nextOpenLotExpiry (pdStLots db) (series_expiries db)"
    unfolding lots by (rule next_expiry_mset) simp
  have "store_lots (pdStLots db) (stLots ?next) (pdStLots db) = pdStLots db" unfolding lots by (rule store_lots_same [OF ms(1)]) simp
  then show ?thesis
    using red assms(4) next_e store_links_same [OF links] store_makers_same [OF ms(3,4) makers] store_unseen_same [OF ms(5) unseen]
    by (simp add: updateSelfTrade_def series_expiries_def [symmetric])
qed

subsection \<open>The skip is the full tick\<close>

text \<open>No table has a row in the range.\<close>

definition quiet :: "int \<Rightarrow> int \<Rightarrow> pnl_db \<Rightarrow> bool" where
  "quiet from through db =
     (let outside = (\<lambda>block. \<not> (block > from \<and> block \<le> through))
      in list_all (\<lambda>r. outside (tvBlock r)) (pdTransfers db) \<and> list_all (\<lambda>r. outside (tfBlock r)) (pdFills db)
        \<and> list_all (\<lambda>r. outside (ttBlock r)) (pdTakes db) \<and> list_all (\<lambda>r. outside (tmBlock r)) (pdMints db)
        \<and> list_all (\<lambda>r. outside (tlBlock r)) (pdCloses db) \<and> list_all (\<lambda>r. outside (tnBlock r)) (pdRedemptions db)
        \<and> list_all (\<lambda>r. outside (fst r)) (pdCashFlows db))"

lemma none_inside: "list_all (\<lambda>r. \<not> P r) rows \<Longrightarrow> filter P rows = []"
  by (simp add: list_all_iff filter_empty_conv)

lemma quiet_rows:
  assumes "quiet from through db"
  shows "brTransfers (read_rows from through ts db) = []" "brFills (read_rows from through ts db) = []"
    "brMints (read_rows from through ts db) = []" "brCloses (read_rows from through ts db) = []"
    "brRedemptions (read_rows from through ts db) = []" "filter (\<lambda>row. from < ttBlock row \<and> ttBlock row \<le> through) (pdTakes db) = []"
    "brFrom (read_rows from through ts db) = from" "brThrough (read_rows from through ts db) = through"
    "brThroughTimestamp (read_rows from through ts db) = ts"
  using assms by (simp_all add: quiet_def read_rows_def Let_def none_inside)

lemma quiet_matches:
  "matchDeliveries [] [] [] [] book = Inr ([], [])" "matchTakeFees [] [] = Inr []" "tape_exits [] [] = []"
  by (simp_all add: matchDeliveries_def matchTakeFees_def tape_exits_def)

lemma full_tick_quiet:
  assumes "quiet from number db" "from < number" "stored_evidence from number db = Inr evidence" "measured env evidence db"
    "pdInput db = Some input" "inNextLotExpiry input = nextOpenLotExpiry (pdStLots db) (series_expiries db)"
    "case inNextLotExpiry input of None \<Rightarrow> True | Some e \<Rightarrow> ts < e"
  shows "full_tick env from number ts db = Inr (db\<lparr>pdCursor := Some number\<rparr>)"
proof -
  define block where "block = (read_rows from number ts db)\<lparr>brMatchedTransfers := [], brMatchedMints := []\<rparr>"
  have b: "brTransfers block = []" "brFills block = []" "brMints block = []" "brCloses block = []" "brRedemptions block = []"
    "brFrom block = from" "brThrough block = number" "brThroughTimestamp block = ts"
    using quiet_rows [OF assms(1)] by (simp_all add: block_def)
  have early: "case nextOpenLotExpiry (pdStLots db) (series_expiries db) of None \<Rightarrow> True | Some e \<Rightarrow> brThroughTimestamp block < e"
    using assms(7) unfolding assms(6) b(8) .
  have "updateSelfTrade env block db = Inr (nextOpenLotExpiry (pdStLots db) (series_expiries db), db)"
    using assms(2,3) by (intro measurement_unchanged [OF assms(4) _ _ _ early]) (simp_all add: b self_trade_events_def)
  moreover have "tape_items (peCollate env) block = []" by (simp add: tape_items_def b)
  moreover have "recordNextLotExpiry (nextOpenLotExpiry (pdStLots db) (series_expiries db)) db = db"
    using assms(5,6) by (simp add: recordNextLotExpiry_def)
  ultimately show ?thesis
    by (simp add: full_tick_def Let_def quiet_rows [OF assms(1)] quiet_matches block_def [symmetric])
qed

text \<open>
  C12: skipping a tick changes nothing that the tick would have kept. When the clock skips, nothing was indexed after
  its cursor, the measurement's tables are as the last full tick left them and the recorded expiry is the earliest of
  the open lots, the full tick over the same range returns exactly the store of the skip, in which only the cursor moved.
\<close>

theorem pnl_skip_is_full_tick:
  assumes "pnlTickIsNoop (pdInput db) (pdCursor db) from ts" "from = or_else (pdCursor db) (peStartBlock env - 1)" "from < number"
    "quiet from number db" "stored_evidence from number db = Inr evidence" "measured env evidence db"
    "Option.bind (pdInput db) inNextLotExpiry = nextOpenLotExpiry (pdStLots db) (series_expiries db)"
  shows "pnl_tick env number ts db = full_tick env from number ts db
     \<and> pnl_tick env number ts db = Inr (db\<lparr>pdCursor := Some number\<rparr>)"
proof -
  obtain input where i: "pdInput db = Some input" "case inNextLotExpiry input of None \<Rightarrow> True | Some e \<Rightarrow> ts < e"
    using assms(1) by (auto simp: pnlTickIsNoop_def split: option.splits if_splits)
  have "full_tick env from number ts db = Inr (db\<lparr>pdCursor := Some number\<rparr>)"
    using assms(7) i(1) by (intro full_tick_quiet [OF assms(4,3,5,6) i(1) _ i(2)]) simp
  moreover have "pnl_tick env number ts db = Inr (db\<lparr>pdCursor := Some number\<rparr>)"
    using assms(1-3) by (simp add: pnl_tick_def Let_def)
  ultimately show ?thesis by simp
qed

text \<open>One row per event kind, all before the range, and a lot that expires after it.\<close>

definition skip_lot :: st_lot where
  "skip_lot = \<lparr>loId = ''fill:f1'', loLongId = 5, loHolder = ''a'', loWriter = Some ''w'', loPrimaryFillId = Some ''f1'', loUnits = 10,
     loRemaining = 10, loCreatedBlock = 2, loCreatedLogIndex = 1, loSourceId = ''f1''\<rparr>"

definition skip_db :: pnl_db where
  "skip_db = sample_db\<lparr>pdCursor := Some 3, pdInput := Some \<lparr>inBlock = 2, inNextLotExpiry = Some 9000\<rparr>, pdStLots := [skip_lot],
     pdStLinks := [\<lparr>slId = ''a:w'', slLeft = ''a'', slRight = ''w''\<rparr>],
     pdStMakers := [(''w'', \<lparr>muUnits = 4, muUpdatedAt = 1, muUpdatedBlock = 1\<rparr>)]\<rparr>"

theorem pnl_skip_is_full_tick_witness:
  "pnl_tick sample_env 9 2000 skip_db = Inr (skip_db\<lparr>pdCursor := Some 9\<rparr>)
     \<and> full_tick sample_env 3 9 2000 skip_db = Inr (skip_db\<lparr>pdCursor := Some 9\<rparr>)"
proof -
  have noop: "pnlTickIsNoop (pdInput skip_db) (pdCursor skip_db) 3 2000" "(3 :: int) = or_else (pdCursor skip_db) (peStartBlock sample_env - 1)"
    by (simp_all add: pnlTickIsNoop_def skip_db_def)
  have none: "quiet 3 9 skip_db"
    by (simp add: quiet_def skip_db_def sample_db_def sample_fill_def sample_transfer_def sample_take_def)
  have evidence: "stored_evidence 3 9 skip_db = Inr []"
    by (simp add: stored_evidence_def skip_db_def sample_db_def indexedSelfTradeLinks_def)
  have tables: "measured sample_env [] skip_db" by code_simp
  have expiry: "Option.bind (pdInput skip_db) inNextLotExpiry = nextOpenLotExpiry (pdStLots skip_db) (series_expiries skip_db)"
    by (simp add: skip_db_def sample_db_def nextOpenLotExpiry_def skip_lot_def series_expiries_def map_from_def)
  have "(3 :: int) < 9" by simp
  from pnl_skip_is_full_tick [OF noop this none evidence tables expiry] show ?thesis by metis
qed

end
