(* ===== verification/Spec2Isabelle.thy ===== *)
theory Spec2Isabelle
  imports
    MintFee Outflow EpochWindow PnlLedger QuotePrices QuoteHalts SeriesActions
    LadderPlan GasChunks ExpiryPlan RollPlan PricerPlan GuardianPlan EarnPlan PollLoop
    FifoLots BookEvents BookView MakerScoring Reconcile LinkGraph SelfTrade RiskSizes SpotLag TickInputs
    TickPlan BlackScholes TradingClock WeekClock WriterMarket TradeStats PnlTape PnlSkip
begin

text \<open>
  A model of the decision code of callhouse, an options venue: the pure TypeScript that decides what
  its bots send and what its indexer shows. Chain reads, transactions, HTTP and files surround this
  code and are not part of the model; their results are the arguments of the definitions.

  \<^bold>\<open>How the program is put together.\<close> Under keeper/src/v2 five bots share one process pattern: a
  poll loop (loop.ts) runs ticks, a tick reads the chain, a planner decides, and the result is sent.
  The market maker (mm/) quotes options for a vault; the cranker (cranker/) creates strike ladders,
  settles expiries, redeems, rolls and prunes; the pricer (pricer/) moves the ask prices of writer
  positions; the guardian (guardian/) vetoes wrong settlement prices; the earn keeper (earn/) serves the
  queue of an earn vault and sweeps idle money. Under indexer/lib/v2 pure reductions turn event logs into
  rows, and rows into the order book, lots, fees and statistics that the API serves. Both sides restate
  the same contract rules (the rent of collateral, the state of a series), which is why some properties
  relate a keeper function to an indexer function.

  \<^bold>\<open>Theories and the code they model.\<close>
  \<^item> JsPrelude: what the model uses of the language (truncating division, stable sort by a comparator,
    insertion-ordered maps and sets, text) and the lemmas shared by all theories. Its locale
    \<open>comparator\<close> states what a sort needs and gives; every component interprets it on the comparator
    its code passes to \<open>sort\<close>. JsFloat: IEEE doubles as rationals rounded to 53 bits.
  \<^item> MintFee: keeper mintFee.ts and indexer rent.ts, the rent of collateral and the capacity it leaves.
  \<^item> Outflow: mm/outflow.ts, the leaky bucket that caps what the vault pays out.
  \<^item> EpochWindow: mm/epoch.ts and mm/protocol-accounts.ts.
  \<^item> PnlLedger: mm/pnl.ts. A \<open>ledger\<close> record holds the positions and the result per day; \<open>replay_step\<close>
    is the body of the replay loop; the loss stops, seller fees and fill logs follow.
  \<^item> QuotePrices, QuoteHalts, SeriesActions: mm/engine.ts in the order of the file: prices, then halts
    and market safety with the breaker's state, then the calls of a series and their order in a tick.
  \<^item> RiskSizes: mm/risk.ts, the sizes of a tick and the gate on net delta and gamma. SpotLag: mm/spot-lag.ts,
    the floor under an ask and the cap over a bid for a spot that moved unseen. TickInputs, TickPlan:
    mm/planner.ts, what a tick plans from and the whole tick, composed of all the theories above.
  \<^item> DoubleFacts: order and exactness of rounding to a double. BlackScholes: pricing/bs.ts, price, greeks and the
    solver for the implied volatility. Dates: days and dates of the language. TradingClock: New York time of
    calendar.ts and the session seconds of bs.ts, and the records SpotLag and TickInputs take as arguments, built from
    both. WeekClock: the weekly window of calendar.ts.
  \<^item> LadderPlan, GasChunks, ExpiryPlan, RollPlan: cranker/planner.ts, split by what a plan is about.
    RollPlan also has the survey of a tick of cranker/cranker.ts: the expiries it picks and the offset it leaves.
    GasChunks states the packing loop once in the locale \<open>gas_packer\<close>, interpreted for redemptions and
    for creations; LadderPlan states rounding to a tick in \<open>tick_grid\<close>.
  \<^item> PricerPlan, GuardianPlan: pricer/planner.ts and guardian/planner.ts. EarnPlan: earn/plan.ts, keep.ts
    and queue.ts. PollLoop: loop.ts as a step relation.
  \<^item> FifoLots, BookEvents, BookView: indexer fifo.ts and pnl.ts; fees.ts, orderBook.ts, oracle.ts and
    clearinghouse.ts; book.ts. MakerScoring: makerScoring.ts. Reconcile: reconcile.ts. LinkGraph,
    SelfTrade: selfTrade.ts, the union of linked wallets and the reduction of an event range.
  \<^item> TradeStats: integrity.ts, writer.ts and windows.ts, the reference of a fill's price, a writer's amounts and the
    leaderboard's windows and ranks. PnlTape: src/v2/pnl.ts and pnlInput.ts, the block clock that composes FifoLots,
    Reconcile, SelfTrade and TradeStats; \<open>pnl_db\<close> is the store, \<open>pnl_tick\<close> a tick, \<open>pnl_reach\<close> the stores ticks can
    reach. PnlSkip: the tick that is skipped against the tick it replaces.
  \<^item> WriterMarket: the indexer's src/factory.ts and src/writerAccount.ts with factoryLifecycle.ts, factoryIndexing.ts and
    roles.ts; the tables are the record \<open>tape\<close>, a handler is a function on it.

  \<^bold>\<open>Conventions.\<close> An interface is a record, a union a datatype, a \<open>bigint\<close> an \<open>int\<close>, an optional field an
  option, a raised error the \<open>Inl\<close> of a sum. A loop that pushes onto several arrays is a function over
  the list it walks, returning what it pushes. Two components that each declare a constant keep one
  definition each.

  \<^bold>\<open>What the lemmas show.\<close> For each component: the exact condition of every decision (the properties
  named \<open>_iff\<close> and \<open>_exact\<close>); that outputs keep the guards of the contract they are sent to (prices on the
  grid and in the band, batches within the gas budget, spending within the cap); conservation over whole
  event lists (cash of the ledger, units and cost of lots and of the positions beside them, units of a token, the
  parts of a fee, the totals of a market and its weeks); that
  repeated runs converge or make progress (ladders, reprices, the rotation over expiries, the queue
  drain); and agreement between two formulations (rent capacity on both sides, the fee schedule and its
  database columns, a skipped tick and a full one).

  \<^bold>\<open>Bounds and fuel.\<close> The binary search over units terminates by a measure, \<open>hi - lo\<close>. The queue drain
  recurses on the number of calls left, which the code bounds too. The reprice steps of the liveness
  property are bounded by the distance to the target. Doubles appear only where the code computes with
  fractions; seconds, basis points and counts are integers, far below \<open>2 ^ 53\<close>.

  \<^bold>\<open>Parameters.\<close> \<open>Math.exp\<close>, \<open>Math.log\<close> and \<open>Math.sqrt\<close>, which the language leaves to the platform, are
  the record \<open>js_math\<close>; the time zone database is a function from an instant to the offset of New York. SpotLag,
  TickInputs and TickPlan take the price, clock and greeks they use as the records \<open>bs_model\<close> and \<open>tick_env\<close>, so
  that their properties hold for every such record; \<open>bs_of\<close> and \<open>tick_env_of\<close> of TradingClock are the code's.

  \<^bold>\<open>Not modelled.\<close> The volatility surface and the service around it; all I/O (viem, HTTP, files, the
  database); the web app, notifier, relay and operations scripts; the generated ABIs; of the v1 keeper all but
  its weekly clock. Texts of reasons and details are not represented, only the decisions they explain. JSON columns
  are the objects they encode.
\<close>

end
